(* ===== verification/Prelude.thy ===== *)
theory Prelude
  imports "HOL-Library.Word" "HOL-Library.Monad_Syntax"
begin

text \<open>
  Shared vocabulary of the development: the machine integers of the C++ code as
  fixed-width words, the ways in which an operation can fail, the result type and its
  bind, checked indexing, and big- and little-endian readings of byte strings together
  with the arithmetic that every component needs about them.
\<close>

section \<open>Types\<close>

type_synonym u8 = "8 word"
type_synonym u16 = "16 word"
type_synonym i16 = "16 word"
type_synonym u32 = "32 word"
type_synonym u64 = "64 word"
type_synonym bytes = "u8 list"

text \<open>
  How an operation can fail.  The first group are the exceptions that the code throws,
  by type; \<open>Assert_failed\<close> is an \<open>assert\<close> that does not hold; \<open>Undefined\<close> is an
  execution the C++ standard gives no meaning (a read outside an object, \<open>front()\<close> of an
  empty vector, a shift by a negative amount).
\<close>

datatype error =
    Out_of_range
  | Runtime_error
  | Logic_error
  | Invalid
  | Unsupported
  | Internal_error
  | Assert_failed
  | Undefined

type_synonym 'a result = "error + 'a"

definition bind_result :: "'a result \<Rightarrow> ('a \<Rightarrow> 'b result) \<Rightarrow> 'b result" where
  "bind_result r f = (case r of Inl e \<Rightarrow> Inl e | Inr x \<Rightarrow> f x)"

definition check :: "bool \<Rightarrow> error \<Rightarrow> unit result" where
  "check b e = (if b then Inr () else Inl e)"

definition of_result :: "'a result \<Rightarrow> 'a option" where
  "of_result r = (case r of Inl e \<Rightarrow> None | Inr x \<Rightarrow> Some x)"

lemma bind_result_simps [simp]:
  "bind_result (Inl e) f = Inl e"
  "bind_result (Inr x) f = f x"
  by (simp_all add: bind_result_def)

lemma bind_result_eq_Inr:
  "bind_result r f = Inr y \<longleftrightarrow> (\<exists>x. r = Inr x \<and> f x = Inr y)"
  by (cases r) auto

lemma check_simps [simp]:
  "check True e = Inr ()"
  "check False e = Inl e"
  "check b e = Inr u \<longleftrightarrow> b"
  "check b e = Inl e' \<longleftrightarrow> \<not> b \<and> e' = e"
  by (auto simp: check_def)

lemma of_result_simps [simp]:
  "of_result (Inl e) = None"
  "of_result (Inr x) = Some x"
  by (simp_all add: of_result_def)

text \<open>\<open>at xs i\<close> is the bounds-checked \<open>SafeArray::at\<close> / \<open>vector::at\<close>.\<close>

definition at :: "'a list \<Rightarrow> nat \<Rightarrow> 'a option" where
  "at xs i = (if i < length xs then Some (xs ! i) else None)"

lemma at_eq_Some [simp]: "i < length xs \<Longrightarrow> at xs i = Some (xs ! i)"
  by (simp add: at_def)

lemma at_SomeD: "at xs i = Some x \<Longrightarrow> i < length xs \<and> x = xs ! i"
  by (auto simp: at_def split: if_splits)

lemma at_None [simp]: "length xs \<le> i \<Longrightarrow> at xs i = None"
  by (simp add: at_def)

lemma option_bind_eq_Some:
  "Option.bind m f = Some y \<longleftrightarrow> (\<exists>x. m = Some x \<and> f x = Some y)"
  by (cases m) auto

text \<open>A property of every entry of a table that starts at index \<open>k\<close>.\<close>

primrec all_from :: "(nat \<Rightarrow> 'a \<Rightarrow> bool) \<Rightarrow> nat \<Rightarrow> 'a list \<Rightarrow> bool" where
  "all_from P k [] = True"
| "all_from P k (x # xs) = (P k x \<and> all_from P (k + 1) xs)"

lemma all_from_nth: "all_from P k xs \<Longrightarrow> i < length xs \<Longrightarrow> P (k + i) (xs ! i)"
proof (induction xs arbitrary: k i)
  case (Cons x xs)
  then show ?case
    using Cons.IH [of "Suc k" "i - 1"] by (cases i) simp_all
qed simp

lemma all_from_tl_nth:
  assumes "all_from P 1 (tl xs)" and "1 \<le> i" and "i < length xs"
  shows "P i (xs ! i)"
  using all_from_nth [OF assms(1), of "i - 1"] assms(2,3) by (simp add: nth_tl)


section \<open>Byte strings as numbers\<close>

text \<open>\<open>be_nat\<close> reads a byte string most significant byte first, \<open>le_nat\<close> least
  significant first; \<open>nat_le k n\<close> lays \<open>n\<close> out in \<open>k\<close> little-endian bytes.\<close>

primrec be_nat_from :: "nat \<Rightarrow> bytes \<Rightarrow> nat" where
  "be_nat_from a [] = a"
| "be_nat_from a (b # bs) = be_nat_from (256 * a + unat b) bs"

definition be_nat :: "bytes \<Rightarrow> nat" where
  "be_nat bs = be_nat_from 0 bs"

primrec le_nat :: "bytes \<Rightarrow> nat" where
  "le_nat [] = 0"
| "le_nat (b # bs) = unat b + 256 * le_nat bs"

primrec nat_le :: "nat \<Rightarrow> nat \<Rightarrow> bytes" where
  "nat_le 0 n = []"
| "nat_le (Suc k) n = word_of_nat (n mod 256) # nat_le k (n div 256)"

lemma unat_lt2p: "unat (x :: 'a::len word) < 2 ^ LENGTH('a)"
  by (rule unsigned_less)

lemma unat_ucast_up:
  assumes "LENGTH('a) \<le> LENGTH('b)"
  shows "unat (ucast (x :: 'a::len word) :: 'b::len word) = unat x"
proof -
  have "unat x < 2 ^ LENGTH('b)"
    using unat_lt2p [of x] assms by (meson less_le_trans one_le_numeral power_increasing)
  then show ?thesis
    by (simp add: unsigned_ucast_eq take_bit_nat_eq_self)
qed

lemma unat_of_nat_lt: "n < 2 ^ LENGTH('a) \<Longrightarrow> unat (word_of_nat n :: 'a::len word) = n"
  by (simp add: unat_of_nat take_bit_nat_eq_self)

lemma unat_drop_bit: "unat (drop_bit n (x :: 'a::len word)) = unat x div 2 ^ n"
  by (metis drop_bit_eq_div unsigned_drop_bit_eq drop_bit_nat_eq unat_lt2p take_bit_nat_eq_self)

lemma unat_push_bit_mod:
  "unat (push_bit n (x :: 'a::len word)) = unat x * 2 ^ n mod 2 ^ LENGTH('a)"
  unfolding unsigned_push_bit_eq by (simp add: push_bit_eq_mult take_bit_eq_mod)

lemma unat_push_bit:
  "unat x * 2 ^ n < 2 ^ LENGTH('a) \<Longrightarrow> unat (push_bit n (x :: 'a::len word)) = unat x * 2 ^ n"
  by (simp add: unat_push_bit_mod)

lemma unat_lt_256 [simp]: "unat (b :: u8) < 256"
  using unat_lt2p [of b] by simp

lemma unat_le_255 [simp]: "unat (b :: u8) \<le> 255"
  using unat_lt_256 [of b] by linarith

lemma unat_of_nat_mod8: "unat (word_of_nat (n mod 256) :: u8) = n mod 256"
  by (simp add: unat_of_nat take_bit_eq_mod)

lemma be_nat_from: "be_nat_from a bs = a * 256 ^ length bs + be_nat bs"
proof (induction bs arbitrary: a)
  case (Cons b bs)
  have "be_nat_from a (b # bs) = (256 * a + unat b) * 256 ^ length bs + be_nat bs"
    using Cons [of "256 * a + unat b"] by simp
  moreover have "be_nat (b # bs) = unat b * 256 ^ length bs + be_nat bs"
    using Cons [of "unat b"] by (simp add: be_nat_def)
  ultimately show ?case by (simp add: algebra_simps)
qed (simp add: be_nat_def)

lemma be_nat_Nil [simp]: "be_nat [] = 0"
  by (simp add: be_nat_def)

lemma be_nat_Cons: "be_nat (b # bs) = unat b * 256 ^ length bs + be_nat bs"
  using be_nat_from [of "unat b" bs] by (simp add: be_nat_def)

lemma be_nat_append: "be_nat (xs @ ys) = be_nat xs * 256 ^ length ys + be_nat ys"
  by (induction xs) (simp_all add: be_nat_Cons algebra_simps power_add)

lemma be_nat_snoc [simp]: "be_nat (xs @ [b]) = be_nat xs * 256 + unat b"
  by (simp add: be_nat_append be_nat_Cons)

lemma be_nat_less: "be_nat bs < 256 ^ length bs"
proof (induction bs rule: rev_induct)
  case (snoc b bs)
  have "be_nat bs * 256 + unat b < be_nat bs * 256 + 256"
    by simp
  also have "\<dots> \<le> 256 ^ length bs * 256"
    using snoc by (metis Suc_leI mult_Suc_right mult.commute mult_le_mono1 add.commute)
  finally show ?case by (simp add: mult.commute)
qed simp

lemma le_nat_less: "le_nat bs < 256 ^ length bs"
proof (induction bs)
  case (Cons b bs)
  have "unat b + 256 * le_nat bs < 256 * (Suc (le_nat bs))"
    by simp
  also have "\<dots> \<le> 256 * 256 ^ length bs"
    using Cons by (intro mult_le_mono) simp_all
  finally show ?case by simp
qed simp

lemma length_nat_le [simp]: "length (nat_le k n) = k"
  by (induction k arbitrary: n) simp_all

lemma le_nat_nat_le [simp]: "le_nat (nat_le k n) = n mod 256 ^ k"
proof (induction k arbitrary: n)
  case (Suc k)
  have "le_nat (nat_le (Suc k) n) = n mod 256 + 256 * (n div 256 mod 256 ^ k)"
    using Suc by (simp add: unat_of_nat_mod8)
  also have "\<dots> = n mod (256 * 256 ^ k)"
    by (simp add: mod_mult2_eq)
  finally show ?case by simp
qed simp

lemma nat_le_le_nat: "nat_le (length bs) (le_nat bs) = bs"
proof (induction bs)
  case (Cons b bs)
  have "(unat b + 256 * le_nat bs) mod 256 = unat b"
    by simp
  moreover have "(unat b + 256 * le_nat bs) div 256 = le_nat bs"
    by simp
  ultimately show ?case
    using Cons by simp
qed simp

lemma le_nat_append: "le_nat (xs @ ys) = le_nat xs + 256 ^ length xs * le_nat ys"
  by (induction xs) (simp_all add: algebra_simps)


section \<open>Facts about powers and bits\<close>

lemma pow256: "(256::nat) ^ n = 2 ^ (8 * n)"
  by (simp add: power_mult)

lemma bool_word_bit0: "(word_of_nat (if b then 1 else 0) :: 'a::len word) = of_bool b"
  by simp

lemma take_drop_append:
  "length xs = n \<Longrightarrow> take n (xs @ ys) = xs"
  "length xs = n \<Longrightarrow> drop n (xs @ ys) = ys"
  by simp_all

lemma sint_i16_of_int: "- 32768 \<le> y \<Longrightarrow> y < 32768 \<Longrightarrow> sint (word_of_int y :: i16) = y"
  by (subst sint_sbintrunc') (intro signed_take_bit_int_eq_self; simp)

lemma sint_i16_bounds: "- 32768 \<le> sint (c :: i16) \<and> sint c < 32768"
  using sint_ge [of c] sint_lt [of c] by simp

lemma uint_u16_of_int: "0 \<le> v \<Longrightarrow> v < 65536 \<Longrightarrow> uint (word_of_int v :: u16) = v"
  by (simp add: uint_word_of_int)

end
