(* ===== verification/Byte_Chunk.thy ===== *)
theory Byte_Chunk
  imports Prelude
begin

text \<open>
  \<open>Chunk\<close> (src/src/util/chunk.hh): a read-only view of a byte buffer, and the header
  fields that \<open>Packet::put_header_field\<close> (src/src/net/packet.cc) lays out for it.  A chunk
  is the readable memory from its buffer pointer on and the size it claims to have; the
  size is the 64-bit integer of the code, so that the wrap-around of \<open>offset + length\<close> in
  the bounds check is a behaviour of the model.  \<open>chunk_ok\<close> says that the claimed size is
  backed by memory; the lemmas show which operations keep it.
\<close>

section \<open>Chunks\<close>

record chunk =
  ck_data :: bytes
  ck_size :: u64

definition chunk_of :: "bytes \<Rightarrow> chunk" where
  "chunk_of bs = \<lparr>ck_data = bs, ck_size = word_of_nat (length bs)\<rparr>"

definition bounds_check :: "chunk \<Rightarrow> u64 \<Rightarrow> unit result" where
  "bounds_check c len = check (len \<le> ck_size c) Out_of_range"

definition chunk_sub :: "chunk \<Rightarrow> u64 \<Rightarrow> u64 \<Rightarrow> chunk result" where
  "chunk_sub c offset len =
     bind_result (bounds_check c offset) (\<lambda>_.
     bind_result (bounds_check c (offset + len)) (\<lambda>_.
     Inr \<lparr>ck_data = drop (unat offset) (ck_data c), ck_size = len\<rparr>))"

definition chunk_from :: "chunk \<Rightarrow> u64 \<Rightarrow> chunk result" where
  "chunk_from c offset = chunk_sub c offset (ck_size c - offset)"

text \<open>Reading memory the chunk claims but does not have is undefined.\<close>

definition read_memory :: "chunk \<Rightarrow> nat \<Rightarrow> bytes result" where
  "read_memory c n =
     (if n \<le> length (ck_data c) then Inr (take n (ck_data c)) else Inl Undefined)"

definition chunk_to_string :: "chunk \<Rightarrow> bytes result" where
  "chunk_to_string c = read_memory c (unat (ck_size c))"

definition extract_value :: "chunk \<Rightarrow> nat \<Rightarrow> nat result" where
  "extract_value c n =
     bind_result (bounds_check c (word_of_nat n)) (\<lambda>_.
     bind_result (read_memory c n) (\<lambda>bs. Inr (le_nat bs)))"

definition octet :: "chunk \<Rightarrow> u8 result" where
  "octet c =
     bind_result (bounds_check c 1) (\<lambda>_.
     bind_result (read_memory c 1) (\<lambda>bs. Inr (hd bs)))"

definition le16 :: "chunk \<Rightarrow> u16 result" where
  "le16 c = bind_result (extract_value c 2) (\<lambda>v. Inr (word_of_nat v))"

definition le32 :: "chunk \<Rightarrow> u64 result" where
  "le32 c = bind_result (extract_value c 4) (\<lambda>v. Inr (word_of_nat v))"

definition le64 :: "chunk \<Rightarrow> u64 result" where
  "le64 c = bind_result (extract_value c 8) (\<lambda>v. Inr (word_of_nat v))"

text \<open>\<open>Chunk::bits\<close>.  \<open>buffer_[ i ] << ( i * 8 )\<close> shifts an \<open>int\<close>: the octet at
  position 3 with its top bit set lands in the sign bit (C++14 and later define the
  result as the wrapped value) and is sign-extended when it is or-ed into the 64-bit
  value; from position 4 on the shift amount reaches the width of \<open>int\<close>, which is
  undefined.  The mask \<open>( 1 << n ) - 1\<close> is a shift of an \<open>int\<close> too, undefined from
  \<open>n = 32\<close> on.\<close>

definition bit_mask :: "u64 \<Rightarrow> u64 result" where
  "bit_mask n =
     bind_result (check (n \<le> 63) Out_of_range) (\<lambda>_.
     bind_result (check (n < 32) Undefined) (\<lambda>_.
     Inr (scast ((push_bit (unat n) 1 :: 32 word) - 1))))"

fun or_octets :: "nat \<Rightarrow> bytes \<Rightarrow> u64 \<Rightarrow> u64 result" where
  "or_octets i [] val = Inr val"
| "or_octets i (b # bs) val =
     bind_result (check (i < 4) Undefined) (\<lambda>_.
     or_octets (Suc i) bs (or val (scast (push_bit (8 * i) (ucast b :: 32 word)))))"

definition chunk_bits :: "chunk \<Rightarrow> u64 \<Rightarrow> u64 \<Rightarrow> u64 result" where
  "chunk_bits c bit_offset bit_length =
     (let byte_len = 1 + (bit_offset + bit_length - 1) div 8 in
      bind_result (bounds_check c byte_len) (\<lambda>_.
      bind_result (check (byte_len \<le> 8) Out_of_range) (\<lambda>_.
      bind_result (read_memory c (unat byte_len)) (\<lambda>bs.
      bind_result (or_octets 0 bs 0) (\<lambda>val.
      bind_result (check (bit_offset < 64) Undefined) (\<lambda>_.
      bind_result (bit_mask bit_length) (\<lambda>mask.
      Inr (and (drop_bit (unat bit_offset) val) mask))))))))"


section \<open>Well-formed chunks\<close>

definition chunk_ok :: "chunk \<Rightarrow> bool" where
  "chunk_ok c \<longleftrightarrow> unat (ck_size c) \<le> length (ck_data c)"

definition contents :: "chunk \<Rightarrow> bytes" where
  "contents c = take (unat (ck_size c)) (ck_data c)"

lemma length_contents: "chunk_ok c \<Longrightarrow> length (contents c) = unat (ck_size c)"
  by (simp add: chunk_ok_def contents_def)

lemma unat_chunk_of: "length bs < 2 ^ 64 \<Longrightarrow> unat (ck_size (chunk_of bs)) = length bs"
  by (simp add: chunk_of_def unat_of_nat take_bit_eq_mod)

lemma chunk_of_ok [simp]: "length bs < 2 ^ 64 \<Longrightarrow> chunk_ok (chunk_of bs)"
  by (simp add: chunk_ok_def unat_chunk_of) (simp add: chunk_of_def)

lemma contents_chunk_of [simp]: "length bs < 2 ^ 64 \<Longrightarrow> contents (chunk_of bs) = bs"
  by (simp add: contents_def unat_chunk_of) (simp add: chunk_of_def)

lemma chunk_to_string_ok: "chunk_ok c \<Longrightarrow> chunk_to_string c = Inr (contents c)"
  by (simp add: chunk_to_string_def read_memory_def contents_def chunk_ok_def)

text \<open>Within the bounds a subchunk is a slice and stays well formed.\<close>

lemma chunk_sub_in:
  assumes "chunk_ok c" and "unat offset + unat len \<le> length (contents c)"
  obtains d where "chunk_sub c offset len = Inr d" and "chunk_ok d"
    and "contents d = take (unat len) (drop (unat offset) (contents c))"
proof -
  have size: "unat (ck_size c) = length (contents c)"
    using assms(1) by (simp add: length_contents)
  have "unat (ck_size c) < 2 ^ 64"
    using unat_lt2p [of "ck_size c"] by simp
  then have sum: "unat (offset + len) = unat offset + unat len"
    using assms(2) size by (simp add: unat_word_ariths)
  let ?d = "\<lparr>ck_data = drop (unat offset) (ck_data c), ck_size = len\<rparr>"
  have "chunk_sub c offset len = Inr ?d"
    using assms(2) size sum
    by (simp add: chunk_sub_def bounds_check_def word_le_nat_alt)
  moreover have fits: "unat offset + unat len \<le> unat (ck_size c)"
    using assms(2) size by simp
  then have "chunk_ok ?d"
    using assms(1) by (simp add: chunk_ok_def)
  moreover have "contents ?d = take (unat len) (drop (unat offset) (contents c))"
    using fits by (simp add: contents_def drop_take min_def)
  ultimately show ?thesis by (rule that)
qed

text \<open>The same for an offset alone; the second bounds check never fires there.\<close>

lemma chunk_from_in:
  assumes "chunk_ok c" and "unat offset \<le> length (contents c)"
  obtains d where "chunk_from c offset = Inr d" and "chunk_ok d"
    and "contents d = drop (unat offset) (contents c)"
proof -
  have size: "unat (ck_size c) = length (contents c)"
    using assms(1) by (simp add: length_contents)
  have "unat (ck_size c - offset) = length (contents c) - unat offset"
    using assms(2) size by (simp add: unat_sub_if')
  then show ?thesis
    using chunk_sub_in [OF assms(1), of offset "ck_size c - offset"] assms(2) that
    by (auto simp: chunk_from_def)
qed

lemma chunk_from_out:
  "length (contents c) < unat offset \<Longrightarrow> chunk_ok c \<Longrightarrow> chunk_from c offset = Inl Out_of_range"
  by (simp add: chunk_from_def chunk_sub_def bounds_check_def word_le_nat_alt length_contents)

lemma extract_value_in:
  assumes "chunk_ok c" and "n \<le> length (contents c)"
  shows "extract_value c n = Inr (le_nat (take n (contents c)))"
proof -
  have size: "unat (ck_size c) = length (contents c)"
    using assms(1) by (simp add: length_contents)
  then have "n < 2 ^ 64"
    using assms(2) unat_lt2p [of "ck_size c"] by simp
  then have "unat (word_of_nat n :: u64) = n"
    by (simp add: unat_of_nat take_bit_eq_mod)
  moreover have fits: "n \<le> unat (ck_size c)"
    using assms(2) size by simp
  moreover have "n \<le> length (ck_data c)"
    using assms(1) fits by (simp add: chunk_ok_def)
  ultimately show ?thesis
    by (simp add: extract_value_def bounds_check_def word_le_nat_alt read_memory_def contents_def min_def)
qed

lemma octet_in:
  assumes "chunk_ok c" and "contents c = b # bs"
  shows "octet c = Inr b"
proof -
  have size: "unat (ck_size c) = Suc (length bs)"
    using length_contents [OF assms(1)] assms(2) by simp
  obtain d ds where "ck_data c = d # ds"
    using assms(2) by (cases "ck_data c") (auto simp: contents_def)
  moreover have "d = b"
    using calculation assms(2) size by (simp add: contents_def)
  ultimately show ?thesis
    using size by (simp add: octet_def bounds_check_def word_le_nat_alt read_memory_def)
qed


section \<open>Header fields\<close>

text \<open>The three overloads of \<open>Packet::put_header_field\<close>.  The one for 64-bit integers
  keeps only the low four bytes.\<close>

definition put_header_field16 :: "u16 \<Rightarrow> bytes" where
  "put_header_field16 n = nat_le 2 (unat n)"

definition put_header_field32 :: "u32 \<Rightarrow> bytes" where
  "put_header_field32 n = nat_le 4 (unat n)"

definition put_header_field64 :: "u64 \<Rightarrow> bytes" where
  "put_header_field64 n = (let network_order = (ucast n :: u32) in nat_le 4 (unat network_order))"

text \<open>The reader of a 32-bit field converts the \<open>uint64_t\<close> that \<open>Chunk::le32\<close> returns to
  the \<open>uint32_t\<close> member it initialises.\<close>

definition field16 :: "chunk \<Rightarrow> u64 \<Rightarrow> u16 result" where
  "field16 c offset = bind_result (chunk_sub c offset 2) le16"

definition field32 :: "chunk \<Rightarrow> u64 \<Rightarrow> u32 result" where
  "field32 c offset =
     bind_result (chunk_sub c offset 4) (\<lambda>d. bind_result (le32 d) (\<lambda>v. Inr (ucast v)))"

text \<open>What a writer and a reader of a fixed-width field promise each other.\<close>

locale byte_field =
  fixes put :: "'a \<Rightarrow> bytes"
    and get :: "chunk \<Rightarrow> u64 \<Rightarrow> 'a result"
    and width :: nat
  assumes length_put: "length (put x) = width"
    and get_put: "\<lbrakk>chunk_ok c; contents c = pre @ put x @ post; unat offset = length pre\<rbrakk>
      \<Longrightarrow> get c offset = Inr x"
    and get_short: "\<lbrakk>chunk_ok c; length (contents c) < unat offset + width;
        unat offset + width < 2 ^ 64\<rbrakk> \<Longrightarrow> get c offset = Inl Out_of_range"
    and put_get: "\<lbrakk>chunk_ok c; unat offset + width \<le> length (contents c)\<rbrakk>
      \<Longrightarrow> \<exists>x. get c offset = Inr x \<and> put x = take width (drop (unat offset) (contents c))"
begin

lemma get_drop:
  assumes "chunk_ok c" and "drop (unat offset) (contents c) = put x @ post"
    and "unat offset \<le> length (contents c)"
  shows "get c offset = Inr x"
proof (rule get_put [OF assms(1)])
  show "contents c = take (unat offset) (contents c) @ put x @ post"
    using assms(2) by (metis append_take_drop_id)
  show "unat offset = length (take (unat offset) (contents c))"
    using assms(3) by simp
qed

lemma put_get_drop:
  fixes offset :: u64
  assumes "chunk_ok c" and "unat offset + width \<le> length (contents c)"
  shows "\<exists>x. drop (unat offset) (contents c) = put x @ drop (unat offset + width) (contents c)"
  using put_get [OF assms] by (metis append_take_drop_id drop_drop add.commute)

lemma put_inject:
  assumes "put x @ xs = put y @ ys" and "length (put x @ xs) < 2 ^ 64"
  shows "x = y \<and> xs = ys"
proof -
  let ?c = "chunk_of (put x @ xs)"
  have "get ?c 0 = Inr x"
    using assms(2) by (intro get_put [of _ "[]"]) auto
  moreover have "get ?c 0 = Inr y"
    using assms by (intro get_put [of _ "[]" _ ys]) auto
  ultimately show ?thesis
    using assms(1) length_put by simp
qed

end

lemma field_slice:
  assumes "chunk_ok c" and "contents c = pre @ f @ post" and "unat offset = length pre"
    and "unat len = length f"
  obtains d where "chunk_sub c offset len = Inr d" and "chunk_ok d" and "contents d = f"
proof (rule chunk_sub_in [OF assms(1), of offset len])
  show "unat offset + unat len \<le> length (contents c)"
    using assms by simp
next
  fix d
  assume "chunk_sub c offset len = Inr d" "chunk_ok d"
    "contents d = take (unat len) (drop (unat offset) (contents c))"
  with assms show ?thesis by (intro that) simp_all
qed

lemma chunk_sub_short:
  assumes "chunk_ok c" and "length (contents c) < unat offset + unat len"
    and "unat offset + unat len < 2 ^ 64"
  shows "chunk_sub c offset len = Inl Out_of_range"
proof -
  have "unat (offset + len) = unat offset + unat len"
    using assms(3) by (simp add: unat_word_ariths)
  then show ?thesis
    using assms by (auto simp: chunk_sub_def bounds_check_def check_def word_le_nat_alt length_contents)
qed

lemma unat_le_16: "unat (x :: u16) mod 65536 = unat x"
  using unat_lt2p [of x] by simp

lemma unat_le_32: "unat (x :: u32) mod 4294967296 = unat x"
  using unat_lt2p [of x] by simp

lemma put_of_nat16: "length bs = 2 \<Longrightarrow> put_header_field16 (word_of_nat (le_nat bs)) = bs"
  using le_nat_less [of bs] nat_le_le_nat [of bs]
  by (simp add: put_header_field16_def unat_of_nat take_bit_eq_mod)

lemma put_of_nat32:
  assumes "length bs = 4"
  shows "put_header_field32 (ucast (word_of_nat (le_nat bs) :: u64)) = bs"
proof -
  have "le_nat bs < 2 ^ 32" using le_nat_less [of bs] assms by simp
  then have "unat (ucast (word_of_nat (le_nat bs) :: u64) :: u32) = le_nat bs"
    by (simp add: unsigned_ucast_eq unat_of_nat take_bit_eq_mod)
  then show ?thesis
    using nat_le_le_nat [of bs] assms by (simp add: put_header_field32_def)
qed

interpretation field16: byte_field put_header_field16 field16 2
proof
  fix c pre x post and offset :: u64
  assume c: "chunk_ok c" "contents c = pre @ put_header_field16 x @ post"
    and off: "unat offset = length pre"
  obtain d where "chunk_sub c offset 2 = Inr d" "chunk_ok d" "contents d = put_header_field16 x"
    by (rule field_slice [OF c off, of 2]) (simp_all add: put_header_field16_def)
  then show "field16 c offset = Inr x"
    using extract_value_in [of d 2]
    by (simp add: field16_def le16_def put_header_field16_def unat_le_16)
next
  fix c and offset :: u64
  assume c: "chunk_ok c" "unat offset + 2 \<le> length (contents c)"
  then obtain d where "chunk_sub c offset 2 = Inr d" "chunk_ok d"
    "contents d = take 2 (drop (unat offset) (contents c))"
    using chunk_sub_in [of c offset 2] by auto
  then show "\<exists>x. field16 c offset = Inr x \<and>
      put_header_field16 x = take 2 (drop (unat offset) (contents c))"
    using extract_value_in [of d 2] c(2) put_of_nat16 [of "contents d"]
    by (simp add: field16_def le16_def)
qed (simp_all add: put_header_field16_def field16_def chunk_sub_short)

lemma word32_through_64: "(ucast (word_of_nat (unat (x :: u32)) :: u64) :: u32) = x"
proof -
  have "(word_of_nat (unat x) :: u64) = ucast x" by simp
  then show ?thesis by (simp add: ucast_down_ucast_id is_down)
qed

interpretation field32: byte_field put_header_field32 field32 4
proof
  fix c pre x post and offset :: u64
  assume c: "chunk_ok c" "contents c = pre @ put_header_field32 x @ post"
    and off: "unat offset = length pre"
  obtain d where "chunk_sub c offset 4 = Inr d" "chunk_ok d" "contents d = put_header_field32 x"
    by (rule field_slice [OF c off, of 4]) (simp_all add: put_header_field32_def)
  then show "field32 c offset = Inr x"
    using extract_value_in [of d 4] word32_through_64 [of x]
    by (simp add: field32_def le32_def put_header_field32_def unat_le_32)
next
  fix c and offset :: u64
  assume c: "chunk_ok c" "unat offset + 4 \<le> length (contents c)"
  then obtain d where "chunk_sub c offset 4 = Inr d" "chunk_ok d"
    "contents d = take 4 (drop (unat offset) (contents c))"
    using chunk_sub_in [of c offset 4] by auto
  then show "\<exists>x. field32 c offset = Inr x \<and>
      put_header_field32 x = take 4 (drop (unat offset) (contents c))"
    using extract_value_in [of d 4] c(2) put_of_nat32 [of "contents d"]
    by (simp add: field32_def le32_def)
qed (simp_all add: put_header_field32_def field32_def chunk_sub_short)

lemma length_fields [simp]:
  "length (put_header_field16 x) = 2" "length (put_header_field32 y) = 4"
  by (simp_all add: field16.length_put field32.length_put)


section \<open>Properties\<close>

text \<open>A subchunk within the bounds is exactly the slice of the bytes and stays within
  the memory of its parent; every other request whose end does not wrap around is refused
  with \<open>out_of_range\<close>.\<close>

theorem subchunk_is_slice:
  assumes "chunk_ok c" and "unat offset + unat len < 2 ^ 64"
  shows "(case chunk_sub c offset len of
      Inr d \<Rightarrow> unat offset + unat len \<le> length (contents c) \<and> chunk_ok d \<and>
        contents d = take (unat len) (drop (unat offset) (contents c))
    | Inl e \<Rightarrow> e = Out_of_range \<and> length (contents c) < unat offset + unat len)"
proof (cases "unat offset + unat len \<le> length (contents c)")
  case True
  from chunk_sub_in [OF assms(1) this]
  obtain d where "chunk_sub c offset len = Inr d" "chunk_ok d"
    "contents d = take (unat len) (drop (unat offset) (contents c))" .
  with True show ?thesis by simp
next
  case False
  then show ?thesis
    using chunk_sub_short [OF assms(1) _ assms(2)] by simp
qed

theorem subchunk_is_slice_witness:
  "(case chunk_sub (chunk_of [1, 2, 3]) 1 2 of
      Inr d \<Rightarrow> unat (1 :: u64) + unat (2 :: u64) \<le> length (contents (chunk_of [1, 2, 3])) \<and> chunk_ok d \<and>
        contents d = take (unat (2 :: u64)) (drop (unat (1 :: u64)) (contents (chunk_of [1, 2, 3])))
    | Inl e \<Rightarrow> e = Out_of_range \<and>
        length (contents (chunk_of [1, 2, 3])) < unat (1 :: u64) + unat (2 :: u64))"
  by (rule subchunk_is_slice) simp_all

text \<open>The bounds check of a subchunk adds offset and length in 64 bits, so a request
  whose end wraps around is accepted and yields a chunk that claims more bytes than there
  is memory for.\<close>

theorem subchunk_wraps:
  "\<exists>d. chunk_sub (chunk_of [1, 2, 3]) 3 0xffffffffffffffff = Inr d \<and> \<not> chunk_ok d"
  by (simp add: chunk_sub_def bounds_check_def chunk_of_def word_le_nat_alt chunk_ok_def)

text \<open>The overload of \<open>put_header_field\<close> for 64-bit integers writes four bytes, so
  integers that differ by a multiple of 2^32 have the same encoding.\<close>

theorem put_header_field64_truncates:
  "length (put_header_field64 n) = 4 \<and> put_header_field64 (n + 0x100000000) = put_header_field64 n"
proof -
  have "(unat n + 4294967296) mod 18446744073709551616 mod 4294967296 = unat n mod 4294967296"
    by (subst mod_mod_cancel) simp_all
  then have "(ucast (n + 0x100000000) :: u32) = ucast n"
    by (simp add: word_unat_eq_iff unsigned_ucast_eq take_bit_eq_mod unat_word_ariths)
  then show ?thesis
    by (simp add: put_header_field64_def)
qed

end
