(* ===== verification/Bool_Encoder.thy ===== *)
theory Bool_Encoder
  imports Prelude
begin

unbundle bit_operations_syntax

text \<open>
  The boolean entropy encoder, \<open>BoolEncoder\<close> (src/src/encoder/bool_encoder.hh): its
  registers at their width, \<open>put\<close> with the table-driven renormalisation and the carry into
  the bytes already written, and \<open>finish\<close>.  The state is read as an exact interval of
  binary fractions: \<open>enc_low\<close> is its lower end in units of \<open>2 ^ - enc_bits\<close>, the range
  register its width.  \<open>put_exact\<close> shows that the registers never overflow, that the carry
  always finds a byte to increment, and that \<open>put\<close> selects exactly the subinterval that
  the probability assigns to the bit.
\<close>

section \<open>The encoder\<close>

definition vp8_norm :: "nat list" where
  "vp8_norm =
   [0, 7, 6, 6, 5, 5, 5, 5, 4, 4, 4, 4, 4, 4, 4, 4,
    3, 3, 3, 3, 3, 3, 3, 3, 3, 3, 3, 3, 3, 3, 3, 3,
    2, 2, 2, 2, 2, 2, 2, 2, 2, 2, 2, 2, 2, 2, 2, 2,
    2, 2, 2, 2, 2, 2, 2, 2, 2, 2, 2, 2, 2, 2, 2, 2,
    1, 1, 1, 1, 1, 1, 1, 1, 1, 1, 1, 1, 1, 1, 1, 1,
    1, 1, 1, 1, 1, 1, 1, 1, 1, 1, 1, 1, 1, 1, 1, 1,
    1, 1, 1, 1, 1, 1, 1, 1, 1, 1, 1, 1, 1, 1, 1, 1,
    1, 1, 1, 1, 1, 1, 1, 1, 1, 1, 1, 1, 1, 1, 1, 1,
    0, 0, 0, 0, 0, 0, 0, 0, 0, 0, 0, 0, 0, 0, 0, 0,
    0, 0, 0, 0, 0, 0, 0, 0, 0, 0, 0, 0, 0, 0, 0, 0,
    0, 0, 0, 0, 0, 0, 0, 0, 0, 0, 0, 0, 0, 0, 0, 0,
    0, 0, 0, 0, 0, 0, 0, 0, 0, 0, 0, 0, 0, 0, 0, 0,
    0, 0, 0, 0, 0, 0, 0, 0, 0, 0, 0, 0, 0, 0, 0, 0,
    0, 0, 0, 0, 0, 0, 0, 0, 0, 0, 0, 0, 0, 0, 0, 0,
    0, 0, 0, 0, 0, 0, 0, 0, 0, 0, 0, 0, 0, 0, 0, 0,
    0, 0, 0, 0, 0, 0, 0, 0, 0, 0, 0, 0, 0, 0, 0, 0]"

text \<open>\<open>bit_count_\<close> is a (signed) \<open>char\<close>; \<open>put_exact\<close> keeps it between -24 and -1 across
  calls and below 8 within one, so an unbounded integer represents it.\<close>

record bool_encoder =
  be_output :: bytes
  be_range :: u32
  be_bottom :: u32
  be_bit_count :: int

definition bool_encoder_init :: bool_encoder where
  "bool_encoder_init =
     \<lparr>be_output = [], be_range = 255, be_bottom = 0, be_bit_count = - 24\<rparr>"

text \<open>\<open>add_one_to_output\<close> walks back from the end; \<open>carry_back\<close> is that walk on the
  reversed output.  Stepping back in an empty output is undefined, running off the front
  of an output of 255s trips the assertion.\<close>

fun carry_back :: "bytes \<Rightarrow> bytes option" where
  "carry_back [] = None"
| "carry_back (b # bs) =
     (if b = 255 then map_option (\<lambda>bs'. 0 # bs') (carry_back bs) else Some ((b + 1) # bs))"

definition add_one_to_output :: "bytes \<Rightarrow> bytes option" where
  "add_one_to_output out = map_option rev (carry_back (rev out))"

definition split_of :: "u32 \<Rightarrow> u8 \<Rightarrow> u32" where
  "split_of rng probability = 1 + drop_bit 8 ((rng - 1) * ucast probability)"

text \<open>The tail of \<open>put\<close>, once the subinterval and the shift are known.\<close>

definition renormalise :: "nat \<Rightarrow> bool_encoder \<Rightarrow> bool_encoder option" where
  "renormalise shift e =
     (let rng = push_bit shift (be_range e);
          bit_count = be_bit_count e + int shift;
          bottom = be_bottom e in
      if bit_count \<ge> 0 then
        (let offset = int shift - bit_count in
         if offset < 1 \<or> 24 < offset then None
         else
           (let offset = nat offset in
            do {
              out \<leftarrow> (if (push_bit (offset - 1) bottom) AND 0x80000000 \<noteq> 0
                     then add_one_to_output (be_output e) else Some (be_output e));
              Some \<lparr>be_output = out @ [ucast (drop_bit (24 - offset) bottom)],
                    be_range = rng,
                    be_bottom = push_bit (nat bit_count) (push_bit offset bottom AND 0xffffff),
                    be_bit_count = bit_count - 8\<rparr>
            }))
      else
        Some (e\<lparr>be_range := rng, be_bottom := push_bit shift bottom,
                be_bit_count := bit_count\<rparr>))"

definition be_put :: "bool \<Rightarrow> u8 \<Rightarrow> bool_encoder \<Rightarrow> bool_encoder option" where
  "be_put value probability e =
     (let split = split_of (be_range e) probability;
          e' = (if value
                then e\<lparr>be_bottom := be_bottom e + split, be_range := be_range e - split\<rparr>
                else e\<lparr>be_range := split\<rparr>) in
      do {
        shift \<leftarrow> at vp8_norm (unat (be_range e'));
        renormalise shift e'
      })"

primrec be_put_many :: "(bool \<times> u8) list \<Rightarrow> bool_encoder \<Rightarrow> bool_encoder option" where
  "be_put_many [] e = Some e"
| "be_put_many (vp # vps) e = do { e' \<leftarrow> be_put (fst vp) (snd vp) e; be_put_many vps e' }"

definition be_flush :: "bool_encoder \<Rightarrow> bool_encoder option" where
  "be_flush e = be_put_many (replicate 32 (False, 128)) e"

text \<open>\<open>finish\<close> hands out the bytes and leaves a fresh encoder behind.\<close>

definition be_finish :: "bool_encoder \<Rightarrow> (bytes \<times> bool_encoder) option" where
  "be_finish e = do { e' \<leftarrow> be_flush e; Some (be_output e', bool_encoder_init) }"


section \<open>The state as an interval\<close>

definition enc_pending :: "bool_encoder \<Rightarrow> nat" where
  "enc_pending e = nat (be_bit_count e + 24)"

definition enc_low :: "bool_encoder \<Rightarrow> nat" where
  "enc_low e = be_nat (be_output e) * 2 ^ (enc_pending e + 8) + unat (be_bottom e)"

definition enc_bits :: "bool_encoder \<Rightarrow> nat" where
  "enc_bits e = 8 * length (be_output e) + enc_pending e + 8"

definition enc_range :: "bool_encoder \<Rightarrow> nat" where
  "enc_range e = unat (be_range e)"

text \<open>The invariant: a normalised range, a bit count that a \<open>char\<close> holds, an interval
  that fits the unwritten bits plus one carry bit, and that lies within the unit interval.\<close>

definition enc_inv :: "bool_encoder \<Rightarrow> bool" where
  "enc_inv e \<longleftrightarrow>
     128 \<le> enc_range e \<and> enc_range e \<le> 255 \<and>
     - 24 \<le> be_bit_count e \<and> be_bit_count e < 0 \<and>
     unat (be_bottom e) + enc_range e \<le> 2 ^ (enc_pending e + 9) \<and>
     enc_low e + enc_range e \<le> 2 ^ enc_bits e"

definition split_nat :: "nat \<Rightarrow> nat \<Rightarrow> nat" where
  "split_nat r p = 1 + ((r - 1) * p) div 256"

definition sub_low :: "bool \<Rightarrow> nat \<Rightarrow> nat \<Rightarrow> nat" where
  "sub_low v r p = (if v then split_nat r p else 0)"

definition sub_range :: "bool \<Rightarrow> nat \<Rightarrow> nat \<Rightarrow> nat" where
  "sub_range v r p = (if v then r - split_nat r p else split_nat r p)"

lemma enc_inv_init [simp]: "enc_inv bool_encoder_init"
  by (simp add: enc_inv_def bool_encoder_init_def enc_range_def enc_pending_def enc_low_def
      enc_bits_def)

lemma split_nat_less:
  assumes "128 \<le> r" and "p < 256"
  shows "1 \<le> split_nat r p" and "split_nat r p < r"
proof -
  have "(r - 1) * p \<le> (r - 1) * 255"
    using assms(2) by (intro mult_le_mono) simp_all
  then have "((r - 1) * p) div 256 \<le> ((r - 1) * 255) div 256"
    by (rule div_le_mono)
  also have "\<dots> < r - 1"
    using assms(1) by (simp add: less_mult_imp_div_less)
  finally show "split_nat r p < r"
    by (simp add: split_nat_def)
qed (simp add: split_nat_def)

lemma sub_interval:
  assumes "128 \<le> r" and "p < 256"
  shows "1 \<le> sub_range v r p" and "sub_range v r p < r"
    and "sub_low v r p + sub_range v r p \<le> r"
  using split_nat_less [OF assms] by (auto simp: sub_range_def sub_low_def)

lemma unat_split_of:
  assumes "1 \<le> unat r" and "unat r \<le> 255"
  shows "unat (split_of r p) = split_nat (unat r) (unat p)"
proof -
  have "(unat r - 1) * unat p \<le> 254 * 255"
    using assms by (intro mult_le_mono) simp_all
  moreover have "unat (r - 1) = unat r - 1"
    using assms by (simp add: unat_sub_if')
  moreover have "unat (ucast p :: u32) = unat p"
    by (simp add: unat_ucast_up)
  ultimately have "unat ((r - 1) * ucast p) = (unat r - 1) * unat p"
    by (simp add: unat_word_ariths)
  then have drop: "unat (drop_bit 8 ((r - 1) * ucast p)) = (unat r - 1) * unat p div 256"
    by (simp only: unat_drop_bit) simp
  then have "unat (drop_bit 8 ((r - 1) * ucast p)) \<le> 254 * 255"
    using \<open>(unat r - 1) * unat p \<le> 254 * 255\<close> by (metis div_le_dividend order_trans)
  then show ?thesis
    using drop by (simp add: split_of_def split_nat_def unat_word_ariths)
qed

lemma length_vp8_norm [simp]: "length vp8_norm = 256"
  by (simp add: vp8_norm_def)

definition normalises :: "nat \<Rightarrow> nat \<Rightarrow> bool" where
  "normalises r n \<longleftrightarrow> n \<le> 7 \<and> 128 \<le> r * 2 ^ n \<and> r * 2 ^ n \<le> 255"

lemma vp8_norm_table: "all_from normalises 1 (tl vp8_norm)"
  unfolding vp8_norm_def list.sel by (simp add: normalises_def)

lemma vp8_norm_normalises:
  assumes "1 \<le> r" and "r < 256"
  shows "vp8_norm ! r \<le> 7" and "128 \<le> r * 2 ^ (vp8_norm ! r)" and "r * 2 ^ (vp8_norm ! r) \<le> 255"
  using all_from_tl_nth [OF vp8_norm_table assms(1)] assms(2) by (simp_all add: normalises_def)

text \<open>The carry increments the number that the written bytes denote, and finds room
  whenever that number is not all ones.\<close>

lemma carry_back_ok:
  "be_nat (rev bs) + 1 < 256 ^ length bs \<Longrightarrow>
   \<exists>bs'. carry_back bs = Some bs' \<and> length bs' = length bs \<and> be_nat (rev bs') = be_nat (rev bs) + 1"
proof (induction bs)
  case (Cons b bs)
  show ?case
  proof (cases "b = 255")
    case True
    with Cons.prems have "be_nat (rev bs) + 1 < 256 ^ length bs"
      by simp
    with Cons.IH True show ?thesis by auto
  next
    case False
    have "unat b \<noteq> 255"
      using False by (simp add: word_unat_eq_iff)
    then have "unat b + 1 < 256"
      using unat_le_255 [of b] by linarith
    then have "unat (b + 1) = unat b + 1"
      by (simp add: unat_word_ariths)
    with False show ?thesis by simp
  qed
qed simp

lemma add_one_to_output_ok:
  assumes "be_nat out + 1 < 256 ^ length out"
  obtains out' where "add_one_to_output out = Some out'" and "length out' = length out"
    and "be_nat out' = be_nat out + 1"
proof -
  obtain bs' where "carry_back (rev out) = Some bs'" "length bs' = length out"
      "be_nat (rev bs') = be_nat out + 1"
    using carry_back_ok [of "rev out"] assms by auto
  then show ?thesis
    by (intro that [of "rev bs'"]) (simp_all add: add_one_to_output_def)
qed

section \<open>\<open>put\<close> selects the subinterval\<close>

lemma bit_of_split:
  fixes b :: nat
  assumes "b < 2 ^ (k + 9)"
  shows "b = (if 2 ^ (k + 8) \<le> b then 1 else 0) * 2 ^ (k + 8) + ((b div 2 ^ k) mod 256) * 2 ^ k + b mod 2 ^ k"
proof -
  have "b div 2 ^ k < 2 * 256"
    using assms by (simp add: less_mult_imp_div_less power_add algebra_simps)
  then have top: "b div 2 ^ k = (if 256 \<le> b div 2 ^ k then 1 else 0) * 256 + (b div 2 ^ k) mod 256"
    by (auto simp: mod_if)
  have "256 \<le> b div 2 ^ k \<longleftrightarrow> 2 ^ (k + 8) \<le> b"
    by (subst less_eq_div_iff_mult_less_eq) (simp_all add: power_add mult.commute)
  then have "b div 2 ^ k = (if 2 ^ (k + 8) \<le> b then 1 else 0) * 256 + (b div 2 ^ k) mod 256"
    using top by (simp split: if_splits)
  then have "(b div 2 ^ k) * 2 ^ k = ((if 2 ^ (k + 8) \<le> b then 1 else 0) * 256 + (b div 2 ^ k) mod 256) * 2 ^ k"
    by (rule arg_cong)
  then have "b = ((if 2 ^ (k + 8) \<le> b then 1 else 0) * 256 + (b div 2 ^ k) mod 256) * 2 ^ k + b mod 2 ^ k"
    using div_mult_mod_eq [of b "2 ^ k"] by linarith
  then show ?thesis
    by (simp add: algebra_simps power_add)
qed

lemma bit_word_unat_iff: "bit (w :: u32) n \<longleftrightarrow> odd (unat w div 2 ^ n)"
proof -
  have "bit w n \<longleftrightarrow> bit (unat w) n"
    by (auto simp: bit_unsigned_iff dest: bit_imp_le_length)
  then show ?thesis by (simp add: bit_iff_odd)
qed

lemma high_bit_test:
  assumes "1 \<le> o'" "o' \<le> 7" "unat (w :: u32) < 2 ^ (33 - o')"
  shows "push_bit (o' - 1) w AND 0x80000000 \<noteq> 0 \<longleftrightarrow> 2 ^ (32 - o') \<le> unat w"
proof -
  have "(0x80000000 :: u32) = push_bit 31 1" by simp
  then have "push_bit (o' - 1) w AND 0x80000000 \<noteq> 0 \<longleftrightarrow> bit (push_bit (o' - 1) w) 31"
    by (metis and_exp_eq_0_iff_not_bit push_bit_of_1)
  also have "\<dots> \<longleftrightarrow> bit w (32 - o')"
    using assms(1,2) by (auto simp: bit_simps)
  also have "\<dots> \<longleftrightarrow> odd (unat w div 2 ^ (32 - o'))"
    by (simp add: bit_word_unat_iff)
  also have "\<dots> \<longleftrightarrow> 2 ^ (32 - o') \<le> unat w"
  proof -
    have "33 - o' = Suc (32 - o')" using assms by simp
    then have "unat w div 2 ^ (32 - o') < 2"
      using assms(3) by (simp add: less_mult_imp_div_less)
    moreover have "(unat w div 2 ^ (32 - o') = 0) \<longleftrightarrow> unat w < 2 ^ (32 - o')"
      by (simp add: div_eq_0_iff)
    ultimately show ?thesis
      by (auto simp: less_2_cases_iff not_less)
  qed
  finally show ?thesis .
qed

lemma mask24: "(w :: u32) AND 0xffffff = take_bit 24 w"
proof -
  have "(0xffffff :: u32) = mask 24" by (simp add: mask_eq_exp_minus_1)
  then show ?thesis by (simp only: take_bit_eq_mask)
qed

text \<open>The word-level steps of writing a byte: dropping what was written and aligning the
  rest, and adding the carry to the bytes before it.\<close>

lemma masked_shift:
  assumes ko: "k + o' = 24" and "q \<le> 7"
  shows "unat (push_bit q (push_bit o' (w :: u32) AND 0xffffff)) = (unat w mod 2 ^ k) * 2 ^ (o' + q)"
proof -
  let ?m = "unat w mod 2 ^ k"
  have "unat (push_bit o' w AND 0xffffff) = (unat w * 2 ^ o') mod 2 ^ 32 mod 2 ^ 24"
    unfolding mask24 unsigned_take_bit_eq unat_push_bit_mod by (simp add: take_bit_eq_mod)
  also have "\<dots> = (unat w * 2 ^ o') mod 2 ^ 24"
    by (intro mod_mod_cancel le_imp_power_dvd) simp
  also have "\<dots> = ?m * 2 ^ o'"
    unfolding ko [symmetric] power_add by (simp add: mult_mod_left)
  finally have masked: "unat (push_bit o' w AND 0xffffff) = ?m * 2 ^ o'" .
  have "?m * 2 ^ o' < 2 ^ k * 2 ^ o'"
    by simp
  also have "\<dots> = 2 ^ 24"
    by (simp only: ko power_add [symmetric])
  finally have "?m * 2 ^ o' * 2 ^ q < 2 ^ 24 * 2 ^ q"
    by simp
  also have "\<dots> \<le> 2 ^ 24 * 2 ^ 7"
    using assms(2) by (intro mult_le_mono2 power_increasing) simp_all
  finally have "?m * 2 ^ o' * 2 ^ q < 2 ^ LENGTH(32)"
    by simp
  then show ?thesis
    using masked by (subst unat_push_bit) (simp_all add: power_add)
qed

lemma carry_into_output:
  assumes carry: "c \<longleftrightarrow> 2 ^ (k + 8) \<le> b"
    and unit: "be_nat out * 2 ^ (k + 8) + b + r \<le> 256 ^ length out * 2 ^ (k + 8)" and "0 < r"
  obtains out' where "(if c then add_one_to_output out else Some out) = Some out'"
    and "length out' = length out"
    and "be_nat out' = be_nat out + (if 2 ^ (k + 8) \<le> b then 1 else 0)"
proof (cases "2 ^ (k + 8) \<le> b")
  case True
  have "(be_nat out + 1) * 2 ^ (k + 8) + 1 \<le> be_nat out * 2 ^ (k + 8) + b + r"
    using True \<open>0 < r\<close> by (simp add: algebra_simps)
  also note unit
  finally have "be_nat out + 1 < 256 ^ length out"
    by (metis Suc_eq_plus1 Suc_le_lessD mult_less_cancel2)
  then show ?thesis
    using carry True that by (elim add_one_to_output_ok) auto
qed (use carry that in auto)

text \<open>What a renormalisation needs and what it delivers: the interval scaled by a power of
  two, exactly.  A settled encoder has no carry waiting.\<close>

definition settled :: "bool_encoder \<Rightarrow> bool" where
  "settled e \<longleftrightarrow> unat (be_bottom e) < 2 ^ (enc_pending e + 8)"

definition renormalisable :: "nat \<Rightarrow> bool_encoder \<Rightarrow> bool" where
  "renormalisable s e \<longleftrightarrow>
     s \<le> 7 \<and> 128 \<le> enc_range e * 2 ^ s \<and> enc_range e * 2 ^ s \<le> 255 \<and>
     - 24 \<le> be_bit_count e \<and> be_bit_count e < 0 \<and>
     unat (be_bottom e) + enc_range e \<le> 2 ^ (enc_pending e + 9) \<and>
     enc_low e + enc_range e \<le> 2 ^ enc_bits e"

definition rescaled :: "nat \<Rightarrow> bool_encoder \<Rightarrow> bool_encoder \<Rightarrow> bool" where
  "rescaled s e e' \<longleftrightarrow>
     enc_inv e' \<and> enc_range e' = enc_range e * 2 ^ s \<and> enc_low e' = enc_low e * 2 ^ s \<and>
     enc_bits e' = enc_bits e + s \<and>
     length (be_output e) \<le> length (be_output e') \<and>
     (settled e \<or> length (be_output e) < length (be_output e') \<longrightarrow> settled e')"

lemma rescaledI:
  assumes re: "renormalisable s e"
    and count: "- 24 \<le> be_bit_count e'" "be_bit_count e' < 0"
    and rng: "enc_range e' = enc_range e * 2 ^ s"
    and low: "enc_low e' = enc_low e * 2 ^ s"
    and bits: "enc_bits e' = enc_bits e + s"
    and fits: "unat (be_bottom e') + enc_range e' \<le> 2 ^ (enc_pending e' + 9)"
    and grows: "length (be_output e) \<le> length (be_output e')"
    and set: "settled e \<or> length (be_output e) < length (be_output e') \<Longrightarrow> settled e'"
  shows "rescaled s e e'"
proof -
  have "(enc_low e + enc_range e) * 2 ^ s \<le> 2 ^ enc_bits e * 2 ^ s"
    using re by (intro mult_le_mono1) (simp add: renormalisable_def)
  then have "enc_low e' + enc_range e' \<le> 2 ^ enc_bits e'"
    unfolding low bits rng by (simp add: algebra_simps power_add)
  then have "enc_inv e'"
    using re count fits unfolding enc_inv_def renormalisable_def rng by blast
  then show ?thesis
    using rng low bits grows set by (simp add: rescaled_def)
qed

lemma renormalise_quiet:
  assumes re: "renormalisable s e" and quiet: "be_bit_count e + int s < 0"
  shows "\<exists>e'. renormalise s e = Some e' \<and> rescaled s e e'"
proof -
  define k where "k = enc_pending e"
  define b where "b = unat (be_bottom e)"
  define r where "r = enc_range e"
  let ?e = "e\<lparr>be_range := push_bit s (be_range e), be_bottom := push_bit s (be_bottom e),
              be_bit_count := be_bit_count e + int s\<rparr>"
  have k: "int k = be_bit_count e + 24"
    using re by (simp add: k_def enc_pending_def renormalisable_def)
  then have ks: "k + s \<le> 23" using quiet by linarith
  have r: "0 < r" "r * 2 ^ s \<le> 255"
    using re by (auto simp: r_def renormalisable_def intro: gr0I)
  have scaled: "(b + r) * 2 ^ s \<le> 2 ^ (k + 9) * 2 ^ s"
    using re by (intro mult_le_mono1) (simp add: renormalisable_def b_def r_def k_def)
  have "(2::nat) ^ (k + 9) * 2 ^ s \<le> 2 ^ 32"
    using ks unfolding power_add [symmetric] by (intro power_increasing) simp_all
  moreover have "b * 2 ^ s < (b + r) * 2 ^ s"
    using r by simp
  ultimately have "b * 2 ^ s < 2 ^ 32"
    using scaled by linarith
  then have bot: "unat (push_bit s (be_bottom e)) = b * 2 ^ s"
    by (subst unat_push_bit) (simp_all add: b_def)
  have pend: "enc_pending ?e = k + s"
    using k by (simp add: enc_pending_def)
  have rng: "enc_range ?e = r * 2 ^ s"
    using r(2) by (simp add: enc_range_def r_def) (subst unat_push_bit; simp)
  have "enc_low ?e = be_nat (be_output e) * 2 ^ (k + s + 8) + b * 2 ^ s"
    using pend bot by (simp add: enc_low_def)
  also have "\<dots> = enc_low e * 2 ^ s"
    by (simp add: enc_low_def k_def b_def algebra_simps power_add)
  finally have low: "enc_low ?e = enc_low e * 2 ^ s" .
  have "rescaled s e ?e"
  proof (rule rescaledI [OF re])
    show "unat (be_bottom ?e) + enc_range ?e \<le> 2 ^ (enc_pending ?e + 9)"
      using scaled bot unfolding rng pend by (simp add: algebra_simps power_add)
    show "settled ?e" if "settled e \<or> length (be_output e) < length (be_output ?e)"
      using that bot pend unfolding settled_def by (simp add: b_def k_def power_add)
  qed (use pend low rng quiet re in \<open>simp_all add: enc_bits_def k_def r_def renormalisable_def\<close>)
  then show ?thesis
    using quiet by (simp add: renormalise_def)
qed

lemma emitted_rescaled:
  assumes re: "renormalisable s e" and o': "k + o' = 24" "s = o' + q" "o' \<le> 7"
    and b: "b = unat (be_bottom e)" and k: "k = enc_pending e"
    and out: "length out = length (be_output e)"
      "be_nat out = be_nat (be_output e) + (if 2 ^ (k + 8) \<le> b then 1 else 0)"
    and count: "int o' = - be_bit_count e"
  shows "rescaled s e
    \<lparr>be_output = out @ [ucast (drop_bit (24 - o') (be_bottom e))],
     be_range = push_bit s (be_range e),
     be_bottom = push_bit q (push_bit o' (be_bottom e) AND 0xffffff),
     be_bit_count = be_bit_count e + int s - 8\<rparr>" (is "rescaled s e ?e")
proof -
  let ?c = "if 2 ^ (k + 8) \<le> b then 1 else 0 :: nat"
  let ?y = "(b div 2 ^ k) mod 256"
  let ?m = "b mod 2 ^ k"
  have s: "s \<le> 7" and r: "0 < enc_range e" "enc_range e * 2 ^ s \<le> 255"
    using re by (auto simp: renormalisable_def intro: gr0I)
  have byte: "unat (ucast (drop_bit (24 - o') (be_bottom e)) :: u8) = ?y"
    using o' by (simp add: unsigned_ucast_eq take_bit_eq_mod unat_drop_bit b flip: o'(1))
  have bot: "unat (be_bottom ?e) = ?m * 2 ^ s"
    using masked_shift [OF o'(1), of q "be_bottom e"] o'(2) s
    by (simp only: bool_encoder.select_convs b)
  have pend: "enc_pending ?e + 8 = k + s"
    using o' count by (simp add: enc_pending_def)
  have rng: "enc_range ?e = enc_range e * 2 ^ s"
    using r(2) by (simp add: enc_range_def) (subst unat_push_bit; simp)
  have "b < 2 ^ (k + 9)"
    using re r by (simp add: renormalisable_def b k)
  note split = bit_of_split [OF this]
  have "enc_low ?e = ((be_nat (be_output e) + ?c) * 256 + ?y) * 2 ^ (k + s) + ?m * 2 ^ s"
    unfolding enc_low_def bot pend by (simp only: bool_encoder.select_convs be_nat_snoc byte out(2))
  also have "\<dots> = (be_nat (be_output e) * 2 ^ (k + 8) + (?c * 2 ^ (k + 8) + ?y * 2 ^ k + ?m)) * 2 ^ s"
    by (simp add: algebra_simps power_add)
  also have "\<dots> = enc_low e * 2 ^ s"
    unfolding split [symmetric] by (simp add: enc_low_def k b)
  finally have low: "enc_low ?e = enc_low e * 2 ^ s" .
  have "?m * 2 ^ s < 2 ^ k * 2 ^ s" by simp
  then have m: "?m * 2 ^ s < 2 ^ (k + s)" by (simp only: power_add)
  have "(2::nat) ^ 8 \<le> 2 ^ (k + s)"
    using o' by (intro power_increasing) simp_all
  then have "enc_range e * 2 ^ s \<le> 2 ^ (k + s)"
    using r(2) by simp
  with m have "?m * 2 ^ s + enc_range e * 2 ^ s \<le> 2 ^ Suc (k + s)"
    unfolding power_Suc by linarith
  moreover have "enc_pending ?e + 9 = Suc (k + s)"
    using pend by linarith
  ultimately have fits: "unat (be_bottom ?e) + enc_range ?e \<le> 2 ^ (enc_pending ?e + 9)"
    unfolding bot rng by (simp only:)
  show ?thesis
  proof (rule rescaledI [OF re _ _ rng low _ fits])
    show "settled ?e"
      using m unfolding settled_def bot pend .
    show "enc_bits ?e = enc_bits e + s"
      using pend out(1) by (simp add: enc_bits_def k)
  qed (use count o' s out(1) in simp_all)
qed

lemma renormalise_emit:
  assumes re: "renormalisable s e" and emit: "0 \<le> be_bit_count e + int s"
  shows "\<exists>e'. renormalise s e = Some e' \<and> rescaled s e e'"
proof -
  define k where "k = enc_pending e"
  define b where "b = unat (be_bottom e)"
  define r where "r = enc_range e"
  define o' where "o' = nat (- be_bit_count e)"
  define q where "q = nat (be_bit_count e + int s)"
  have s: "s \<le> 7" and count: "- 24 \<le> be_bit_count e" "be_bit_count e < 0"
    and r: "0 < r" "r * 2 ^ s \<le> 255"
    using re by (auto simp: r_def renormalisable_def intro: gr0I)
  have o': "1 \<le> o'" "o' \<le> 7" "k + o' = 24" "s = o' + q" "int o' = - be_bit_count e"
    using emit count s by (simp_all add: o'_def q_def k_def enc_pending_def)
  have b_lt: "b < 2 ^ (k + 9)"
    using re r by (simp add: renormalisable_def b_def r_def k_def)
  have carry: "push_bit (o' - 1) (be_bottom e) AND 0x80000000 \<noteq> 0 \<longleftrightarrow> 2 ^ (k + 8) \<le> b"
  proof -
    have "32 - o' = k + 8" "33 - o' = k + 9" using o' by simp_all
    then show ?thesis
      using high_bit_test [OF o'(1,2), of "be_bottom e"] b_lt by (simp add: b_def)
  qed
  obtain out where out: "(if push_bit (o' - 1) (be_bottom e) AND 0x80000000 \<noteq> 0
        then add_one_to_output (be_output e) else Some (be_output e)) = Some out"
      "length out = length (be_output e)"
      "be_nat out = be_nat (be_output e) + (if 2 ^ (k + 8) \<le> b then 1 else 0)"
  proof (rule carry_into_output [OF carry, of "be_output e" r])
    show "be_nat (be_output e) * 2 ^ (k + 8) + b + r \<le> 256 ^ length (be_output e) * 2 ^ (k + 8)"
      using re by (simp add: renormalisable_def enc_low_def enc_bits_def b_def r_def k_def pow256
          power_add mult.assoc)
  qed (use r in auto)
  let ?e = "\<lparr>be_output = out @ [ucast (drop_bit (24 - o') (be_bottom e))],
              be_range = push_bit s (be_range e),
              be_bottom = push_bit q (push_bit o' (be_bottom e) AND 0xffffff),
              be_bit_count = be_bit_count e + int s - 8\<rparr>"
  have "renormalise s e = Some ?e"
  proof -
    have "0 \<le> be_bit_count e + int s" "int s - (be_bit_count e + int s) = int o'"
      "nat (be_bit_count e + int s) = q" "\<not> (int o' < 1 \<or> 24 < int o')"
      using emit o'(1,2,5) by (simp_all add: q_def)
    then show ?thesis
      unfolding renormalise_def Let_def using out(1) by (simp only: if_True if_False nat_int) simp
  qed
  moreover have "rescaled s e ?e"
    by (rule emitted_rescaled [OF re o'(3,4) _ b_def k_def out(2,3)]) (use o' s in simp_all)
  ultimately show ?thesis by blast
qed

lemma renormalise_exact:
  "renormalisable s e \<Longrightarrow> \<exists>e'. renormalise s e = Some e' \<and> rescaled s e e'"
  using renormalise_quiet renormalise_emit by (cases "be_bit_count e + int s < 0") auto

text \<open>The ideal coder: an interval is its lower end, its width and the number of bits of
  the unit both are counted in; coding a bit keeps the subinterval that the probability
  assigns to it, in the unit that makes the width at least 128.\<close>

type_synonym interval = "nat \<times> nat \<times> nat"

fun ideal_put :: "bool \<Rightarrow> u8 \<Rightarrow> interval \<Rightarrow> interval" where
  "ideal_put v p (l, r, n) =
     (let s = vp8_norm ! sub_range v r (unat p)
      in ((l + sub_low v r (unat p)) * 2 ^ s, sub_range v r (unat p) * 2 ^ s, n + s))"

definition enc_interval :: "bool_encoder \<Rightarrow> interval" where
  "enc_interval e = (enc_low e, enc_range e, enc_bits e)"

primrec ideal_put_many :: "(bool \<times> u8) list \<Rightarrow> interval \<Rightarrow> interval" where
  "ideal_put_many [] i = i"
| "ideal_put_many (vp # vps) i = ideal_put_many vps (ideal_put (fst vp) (snd vp) i)"

text \<open>The state \<open>put\<close> renormalises is the chosen subinterval.\<close>

definition narrowed :: "bool \<Rightarrow> u8 \<Rightarrow> bool_encoder \<Rightarrow> bool_encoder" where
  "narrowed v p e =
     (if v then e\<lparr>be_bottom := be_bottom e + split_of (be_range e) p,
                  be_range := be_range e - split_of (be_range e) p\<rparr>
      else e\<lparr>be_range := split_of (be_range e) p\<rparr>)"

lemma narrowed_frame:
  "be_output (narrowed v p e) = be_output e" "be_bit_count (narrowed v p e) = be_bit_count e"
  "enc_pending (narrowed v p e) = enc_pending e" "enc_bits (narrowed v p e) = enc_bits e"
  by (simp_all add: narrowed_def enc_pending_def enc_bits_def)

lemma narrowed_exact:
  assumes inv: "enc_inv e"
  shows "enc_range (narrowed v p e) = sub_range v (enc_range e) (unat p)"
    and "unat (be_bottom (narrowed v p e)) = unat (be_bottom e) + sub_low v (enc_range e) (unat p)"
    and "enc_low (narrowed v p e) = enc_low e + sub_low v (enc_range e) (unat p)"
proof -
  let ?r = "enc_range e"
  have r: "128 \<le> ?r" "?r \<le> 255" and bot: "unat (be_bottom e) + ?r \<le> 2 ^ (enc_pending e + 9)"
    and "enc_pending e + 9 \<le> 32"
    using inv by (auto simp: enc_inv_def enc_pending_def)
  from this(4) have "(2::nat) ^ (enc_pending e + 9) \<le> 2 ^ 32"
    by (intro power_increasing) simp_all
  then have fits: "unat (be_bottom e) + sub_low v ?r (unat p) < 2 ^ 32"
    using bot sub_interval [OF r(1), of "unat p" v] by simp
  have split: "unat (split_of (be_range e) p) = split_nat ?r (unat p)"
    using r by (simp add: unat_split_of enc_range_def)
  have "split_nat ?r (unat p) < ?r"
    using r(1) by (simp add: split_nat_less)
  then have "split_of (be_range e) p \<le> be_range e"
    by (simp add: word_le_nat_alt split enc_range_def [symmetric])
  then show "enc_range (narrowed v p e) = sub_range v ?r (unat p)"
    using split by (simp add: narrowed_def unat_sub sub_range_def enc_range_def)
  show bot': "unat (be_bottom (narrowed v p e)) = unat (be_bottom e) + sub_low v ?r (unat p)"
    using fits split by (cases v) (simp_all add: narrowed_def unat_word_ariths sub_low_def)
  show "enc_low (narrowed v p e) = enc_low e + sub_low v ?r (unat p)"
    unfolding enc_low_def bot' narrowed_frame by simp
qed

lemma put_rescaled:
  assumes inv: "enc_inv e" and s: "s = vp8_norm ! sub_range v (enc_range e) (unat p)"
  shows "\<exists>e'. be_put v p e = Some e' \<and> rescaled s (narrowed v p e) e'"
proof -
  let ?r = "enc_range e"
  let ?e = "narrowed v p e"
  have r: "128 \<le> ?r" "?r \<le> 255"
    using inv by (simp_all add: enc_inv_def)
  note sub = sub_interval [OF r(1) unat_lt_256, of v p]
  note exact = narrowed_exact [OF inv, of v p]
  have "renormalisable s ?e"
    using vp8_norm_normalises [OF sub(1)] sub r inv
    unfolding renormalisable_def exact narrowed_frame enc_inv_def s by simp
  moreover have "at vp8_norm (unat (be_range ?e)) = Some s"
    using sub r exact(1) unfolding enc_range_def [of ?e] s by simp
  ultimately show ?thesis
    using renormalise_exact [of s ?e] by (simp add: be_put_def narrowed_def Let_def del: if_split)
qed

lemma put_exact:
  assumes inv: "enc_inv e"
  obtains e' where "be_put v p e = Some e'" and "enc_inv e'"
    and "enc_interval e' = ideal_put v p (enc_interval e)"
proof -
  from put_rescaled [OF inv refl, of v p] obtain e' where "be_put v p e = Some e'"
    and "rescaled (vp8_norm ! sub_range v (enc_range e) (unat p)) (narrowed v p e) e'" by blast
  then show ?thesis
    by (intro that [of e'])
      (simp_all add: rescaled_def enc_interval_def Let_def narrowed_exact [OF inv] narrowed_frame)
qed

lemma put_many_exact:
  assumes "enc_inv e"
  obtains e' where "be_put_many vps e = Some e'" and "enc_inv e'"
    and "enc_interval e' = ideal_put_many vps (enc_interval e)"
  using assms
proof (induction vps arbitrary: e thesis)
  case (Cons vp vps)
  obtain e1 where e1: "be_put (fst vp) (snd vp) e = Some e1" "enc_inv e1"
    "enc_interval e1 = ideal_put (fst vp) (snd vp) (enc_interval e)"
    using put_exact [OF Cons.prems(2)] by metis
  obtain e2 where "be_put_many vps e1 = Some e2" "enc_inv e2"
    "enc_interval e2 = ideal_put_many vps (enc_interval e1)"
    using Cons.IH [OF _ e1(2)] by metis
  then show ?case
    using e1 Cons.prems(1) [of e2] by simp
qed simp

lemma be_put_many_append:
  "be_put_many (xs @ ys) e = do { e' \<leftarrow> be_put_many xs e; be_put_many ys e' }"
  by (induction xs arbitrary: e) (auto split: Option.bind_split)

lemma ideal_put_many_append:
  "ideal_put_many (xs @ ys) i = ideal_put_many ys (ideal_put_many xs i)"
  by (induction xs arbitrary: i) simp_all

section \<open>\<open>finish\<close> writes the lower end of the interval\<close>

lemma put_false_settles:
  assumes "enc_inv e" and "be_put_many (replicate n (False, p)) e = Some e'"
  shows "length (be_output e) \<le> length (be_output e') \<and>
    (settled e \<or> length (be_output e) < length (be_output e') \<longrightarrow> settled e')"
  using assms
proof (induction n arbitrary: e)
  case (Suc n)
  obtain e1 where e1: "be_put False p e = Some e1"
    "rescaled (vp8_norm ! sub_range False (enc_range e) (unat p)) (narrowed False p e) e1"
    using put_rescaled [OF Suc.prems(1) refl] by blast
  have "be_put_many (replicate n (False, p)) e1 = Some e'"
    using Suc.prems(2) e1(1) by simp
  moreover have "settled (narrowed False p e) \<longleftrightarrow> settled e"
    by (simp add: settled_def narrowed_def enc_pending_def)
  ultimately show ?case
    using Suc.IH [of e1] e1(2) by (auto simp: rescaled_def narrowed_frame)
qed simp

lemma ideal_put_half:
  assumes "128 \<le> r" and "r \<le> 254"
  obtains s r' where "1 \<le> s" and "ideal_put False 128 (l, r, n) = (l * 2 ^ s, r', n + s)"
    and "128 \<le> r'" and "r' \<le> 254"
proof -
  have r: "sub_range False r 128 = 1 + (r - 1) div 2"
    by (simp add: sub_range_def split_nat_def)
  let ?h = "1 + (r - 1) div 2"
  let ?s = "vp8_norm ! ?h"
  have h: "1 \<le> ?h" "?h < 128" using assms by simp_all
  note norm = vp8_norm_normalises [of ?h]
  have s: "1 \<le> ?s"
    using norm h by (cases "?s = 0") simp_all
  then have "even (?h * 2 ^ ?s)" by simp
  moreover have "odd (255 :: nat)" by simp
  ultimately have "?h * 2 ^ ?s \<noteq> 255" by metis
  then have "?h * 2 ^ ?s \<le> 254"
    using norm(3) h by linarith
  then show ?thesis
    using s norm(2) h that [of ?s "?h * 2 ^ ?s"] r by (simp add: Let_def sub_low_def)
qed

lemma ideal_put_halves:
  assumes "128 \<le> r" and "r \<le> 254"
  shows "\<exists>s r'. n \<le> s \<and> ideal_put_many (replicate n (False, 128)) (l, r, N) = (l * 2 ^ s, r', N + s)"
  using assms
proof (induction n arbitrary: l r N)
  case (Suc n)
  obtain s r' where 1: "1 \<le> s" "ideal_put False 128 (l, r, N) = (l * 2 ^ s, r', N + s)"
    "128 \<le> r'" "r' \<le> 254"
    using ideal_put_half [OF Suc.prems] by metis
  obtain s2 r2 where 2: "n \<le> s2"
    "ideal_put_many (replicate n (False, 128)) (l * 2 ^ s, r', N + s) = (l * 2 ^ s * 2 ^ s2, r2, N + s + s2)"
    using Suc.IH [OF 1(3,4)] by blast
  show ?case
    using 1 2 by (intro exI [of _ "s + s2"] exI [of _ r2]) (simp add: power_add)
qed simp

lemma ideal_flush:
  assumes "128 \<le> r" and "r \<le> 255"
  shows "\<exists>s r'. 31 \<le> s \<and> ideal_put_many (replicate 32 (False, 128)) (l, r, N) = (l * 2 ^ s, r', N + s)"
proof (cases "r = 255")
  case True
  have "ideal_put False 128 (l, 255, N) = (l, 128, N)"
    by (simp add: sub_range_def sub_low_def split_nat_def vp8_norm_def)
  moreover have "replicate 32 (False, 128 :: u8) = (False, 128) # replicate 31 (False, 128)"
    by (simp add: numeral_eq_Suc)
  ultimately show ?thesis
    using ideal_put_halves [of 128 31 l N] True by simp
next
  case False
  then have "r \<le> 254" using assms by simp
  from ideal_put_halves [OF assms(1) this, of 32 l N]
  obtain s r' where "32 \<le> s"
    "ideal_put_many (replicate 32 (False, 128)) (l, r, N) = (l * 2 ^ s, r', N + s)" by blast
  moreover from this(1) have "31 \<le> s" by linarith
  ultimately show ?thesis by blast
qed

lemma cancel_scale:
  fixes a w b s u v :: nat
  assumes "a * w = b * s" and "w * v = u * s" and "0 < s"
  shows "a * u = b * v"
proof -
  have "a * u * s = a * w * v"
    using assms(2) by (simp only: mult.assoc)
  also have "\<dots> = b * v * s"
    using assms(1) by (simp only: ac_simps)
  finally show ?thesis
    using assms(3) by simp
qed

text \<open>After the 32 padding bits the pending register is empty, so the bytes written are
  exactly the lower end of the interval that the encoder had before.\<close>

lemma finish_exact:
  assumes inv: "enc_inv e"
  obtains out where "be_finish e = Some (out, bool_encoder_init)"
    and "be_nat out * 2 ^ enc_bits e = enc_low e * 256 ^ length out"
    and "out \<noteq> []"
proof -
  obtain e' where e': "be_flush e = Some e'" "enc_inv e'"
    "enc_interval e' = ideal_put_many (replicate 32 (False, 128)) (enc_interval e)"
    unfolding be_flush_def using put_many_exact [OF inv] by blast
  moreover obtain s r' where s: "31 \<le> s"
    "ideal_put_many (replicate 32 (False, 128)) (enc_interval e) = (enc_low e * 2 ^ s, r', enc_bits e + s)"
    using ideal_flush [of "enc_range e" "enc_low e" "enc_bits e"] inv
    by (auto simp: enc_inv_def enc_interval_def)
  ultimately have low: "enc_low e' = enc_low e * 2 ^ s" and bits: "enc_bits e' = enc_bits e + s"
    by (simp_all add: enc_interval_def)
  have pend: "enc_pending e' + 8 \<le> 31"
    using e'(2) by (auto simp: enc_inv_def enc_pending_def)
  have "length (be_output e) < length (be_output e')"
    using bits s(1) pend by (simp add: enc_bits_def)
  then have ne: "be_output e' \<noteq> []" and "settled e'"
    using put_false_settles [OF inv, of 32 128 e'] e'(1) unfolding be_flush_def by auto
  let ?w = "2 ^ (enc_pending e' + 8) :: nat"
  have "?w dvd 2 ^ s"
    using pend s(1) by (intro le_imp_power_dvd) linarith
  then have "?w dvd be_nat (be_output e') * ?w + unat (be_bottom e')"
    using low unfolding enc_low_def by (metis dvd_mult)
  then have "?w dvd unat (be_bottom e')"
    by (metis dvd_add_right_iff dvd_triv_right)
  then have "unat (be_bottom e') = 0"
    using \<open>settled e'\<close> unfolding settled_def by (meson dvd_imp_le not_gr_zero not_less)
  then have "be_nat (be_output e') * ?w = enc_low e * 2 ^ s"
    using low by (simp add: enc_low_def)
  moreover have "?w * 256 ^ length (be_output e') = 2 ^ enc_bits e * 2 ^ s"
    using bits unfolding enc_bits_def [of e'] pow256 power_add [symmetric]
    by (intro arg_cong [where f = "\<lambda>n. 2 ^ n"]) linarith
  ultimately have "be_nat (be_output e') * 2 ^ enc_bits e = enc_low e * 256 ^ length (be_output e')"
    by (rule cancel_scale) simp
  then show ?thesis
    using that [of "be_output e'"] e'(1) ne by (simp add: be_finish_def)
qed


section \<open>Properties\<close>

text \<open>C31: \<open>BoolEncoder::put\<close> refines the ideal arithmetic coder.  From any state that
  satisfies the register invariant it succeeds for every bit and every probability (the
  table index is in range, no shift is by a negative amount, and the carry finds a byte to
  increment), keeps the invariant, and the interval that the bytes and registers denote
  together is exactly the subinterval that the ideal coder selects.\<close>

theorem put_refines_ideal:
  assumes "enc_inv e"
  shows "\<exists>e'. be_put v p e = Some e' \<and> enc_inv e' \<and>
    enc_interval e' = ideal_put v p (enc_interval e)"
  using put_exact [OF assms, of v p] by metis

theorem put_refines_ideal_witness:
  "\<exists>e'. be_put True 200 bool_encoder_init = Some e' \<and> enc_inv e' \<and>
    enc_interval e' = ideal_put True 200 (enc_interval bool_encoder_init)"
  using put_refines_ideal [OF enc_inv_init, of True 200] .

end
