(* ===== verification/Bool_Decoder.thy ===== *)
theory Bool_Decoder
  imports Bool_Encoder Byte_Chunk
begin

text \<open>
  The boolean entropy decoder, \<open>BoolDecoder\<close> (src/src/decoder/bool_decoder.hh), and its
  agreement with the encoder.  \<open>dec_sync\<close> relates the registers of the decoder to the
  interval of the ideal coder and to the fraction that the whole input denotes;
  \<open>get_exact\<close> shows that \<open>get\<close> follows the ideal coder bit by bit, and \<open>bool_coder_roundtrip\<close>
  that a decoder started on what \<open>finish\<close> wrote returns every bit that was put, provided
  it asks with the same probabilities.
\<close>

section \<open>The decoder\<close>

record bool_decoder =
  bd_chunk :: bytes
  bd_range :: u32
  bd_value :: u32
  bd_bit_count :: int
  bd_valid :: bool
  bd_complete_chunk :: bool

definition load_octet :: "bool_decoder \<Rightarrow> bool_decoder" where
  "load_octet d =
     (case bd_chunk d of
        b # bs \<Rightarrow> d\<lparr>bd_value := bd_value d OR ucast b, bd_chunk := bs\<rparr>
      | [] \<Rightarrow> if bd_complete_chunk d then d else d\<lparr>bd_valid := False\<rparr>)"

definition bool_decoder_init :: "bytes \<Rightarrow> bool \<Rightarrow> bool_decoder" where
  "bool_decoder_init chunk complete =
     (let d = load_octet \<lparr>bd_chunk = chunk, bd_range = 255, bd_value = 0, bd_bit_count = 0,
                          bd_valid = True, bd_complete_chunk = complete\<rparr>
      in load_octet (d\<lparr>bd_value := push_bit 8 (bd_value d)\<rparr>))"

text \<open>One round of the loop \<open>while ( range_ < 128 )\<close>, and the loop, which does not
  return when the range is zero.\<close>

definition shift_once :: "bool_decoder \<Rightarrow> bool_decoder" where
  "shift_once d =
     (let d = d\<lparr>bd_value := push_bit 1 (bd_value d), bd_range := push_bit 1 (bd_range d),
                bd_bit_count := bd_bit_count d + 1\<rparr>
      in if bd_bit_count d = 8 then load_octet (d\<lparr>bd_bit_count := 0\<rparr>) else d)"

partial_function (option) bd_normalise :: "bool_decoder \<Rightarrow> bool_decoder option" where
  "bd_normalise d = (if bd_range d < 128 then bd_normalise (shift_once d) else Some d)"

declare bd_normalise.simps [code]

definition bd_get :: "u8 \<Rightarrow> bool_decoder \<Rightarrow> (bool \<times> bool_decoder) option" where
  "bd_get probability d =
     (let split = split_of (bd_range d) probability;
          SPLIT = push_bit 8 split;
          ret = SPLIT \<le> bd_value d;
          d' = (if ret
                then d\<lparr>bd_range := bd_range d - split, bd_value := bd_value d - SPLIT\<rparr>
                else d\<lparr>bd_range := split\<rparr>) in
      do { d'' \<leftarrow> bd_normalise d'; Some (ret, d'') })"

text \<open>The decoder answers the questions \<open>map snd ps\<close> with the bits \<open>map fst ps\<close>.\<close>

primrec yields :: "bool_decoder \<Rightarrow> (bool \<times> u8) list \<Rightarrow> bool" where
  "yields d [] = True"
| "yields d (vp # vps) = (case bd_get (snd vp) d of
     Some (v, d') \<Rightarrow> v = fst vp \<and> yields d' vps | None \<Rightarrow> False)"


section \<open>\<open>get\<close> always returns\<close>

definition bd_ok :: "bool_decoder \<Rightarrow> bool" where
  "bd_ok d \<longleftrightarrow> 128 \<le> unat (bd_range d) \<and> unat (bd_range d) \<le> 255 \<and>
     0 \<le> bd_bit_count d \<and> bd_bit_count d \<le> 7 \<and> (bd_complete_chunk d \<longrightarrow> bd_valid d)"

lemma load_octet_frame [simp]:
  "bd_range (load_octet d) = bd_range d" "bd_bit_count (load_octet d) = bd_bit_count d"
  "bd_complete_chunk (load_octet d) = bd_complete_chunk d"
  "bd_complete_chunk d \<Longrightarrow> bd_valid (load_octet d) = bd_valid d"
  by (simp_all add: load_octet_def split: list.splits)

lemma shift_once_frame:
  "bd_range (shift_once d) = push_bit 1 (bd_range d)"
  "bd_complete_chunk (shift_once d) = bd_complete_chunk d"
  "bd_complete_chunk d \<Longrightarrow> bd_valid (shift_once d) = bd_valid d"
  "bd_bit_count (shift_once d) = (if bd_bit_count d = 7 then 0 else bd_bit_count d + 1)"
  by (simp_all add: shift_once_def Let_def)

lemma bool_decoder_init_ok [simp]: "bd_ok (bool_decoder_init chunk complete)"
  by (auto simp: bd_ok_def bool_decoder_init_def Let_def load_octet_def split: list.splits)

text \<open>The loop runs \<open>s\<close> times when \<open>s\<close> doublings bring the range into place.\<close>

lemma bd_normalise_steps:
  assumes "128 \<le> unat (bd_range d) * 2 ^ s" and "unat (bd_range d) * 2 ^ s \<le> 255"
  shows "bd_normalise d = Some ((shift_once ^^ s) d)"
  using assms
proof (induction s arbitrary: d)
  case 0
  then show ?case
    by (subst bd_normalise.simps) (simp add: word_less_nat_alt)
next
  case (Suc s)
  have "unat (bd_range d) * 2 \<le> 255"
  proof -
    have "unat (bd_range d) * 2 * 1 \<le> unat (bd_range d) * 2 * 2 ^ s"
      by (intro mult_le_mono2) simp
    also have "\<dots> \<le> 255"
      using Suc.prems(2) by (simp add: ac_simps)
    finally show ?thesis by simp
  qed
  then have small: "unat (bd_range d) < 128" by linarith
  then have "unat (bd_range (shift_once d)) = unat (bd_range d) * 2"
    unfolding shift_once_frame by (subst unat_push_bit) simp_all
  then have "bd_normalise (shift_once d) = Some ((shift_once ^^ s) (shift_once d))"
    using Suc.prems by (intro Suc.IH) (simp_all add: ac_simps)
  then show ?case
    using small by (subst bd_normalise.simps) (simp add: word_less_nat_alt funpow_swap1)
qed

lemma shift_many_frame:
  "bd_complete_chunk ((shift_once ^^ s) d) = bd_complete_chunk d"
  "bd_complete_chunk d \<Longrightarrow> bd_valid ((shift_once ^^ s) d) = bd_valid d"
  "0 \<le> bd_bit_count d \<and> bd_bit_count d \<le> 7 \<Longrightarrow>
   0 \<le> bd_bit_count ((shift_once ^^ s) d) \<and> bd_bit_count ((shift_once ^^ s) d) \<le> 7"
  "unat (bd_range d) * 2 ^ s \<le> 255 \<Longrightarrow> unat (bd_range ((shift_once ^^ s) d)) = unat (bd_range d) * 2 ^ s"
proof (induction s)
  case (Suc s)
  {
    case 4
    then have "unat (bd_range d) * 2 ^ s \<le> 255" by simp
    with 4 Suc.IH(4) show ?case
      unfolding funpow.simps o_apply shift_once_frame by (subst unat_push_bit) simp_all
  }
qed (auto simp: shift_once_frame)

text \<open>The decoder before the loop: the chosen half of the range.\<close>

definition chosen :: "bool \<Rightarrow> u8 \<Rightarrow> bool_decoder \<Rightarrow> bool_decoder" where
  "chosen v p d =
     (let split = split_of (bd_range d) p in
      if v then d\<lparr>bd_range := bd_range d - split, bd_value := bd_value d - push_bit 8 split\<rparr>
      else d\<lparr>bd_range := split\<rparr>)"

lemma chosen_range:
  assumes "bd_ok d"
  shows "unat (bd_range (chosen v p d)) = sub_range v (unat (bd_range d)) (unat p)"
proof -
  let ?r = "unat (bd_range d)"
  have r: "128 \<le> ?r" "?r \<le> 255" using assms by (simp_all add: bd_ok_def)
  have split: "unat (split_of (bd_range d) p) = split_nat ?r (unat p)"
    using r by (simp add: unat_split_of)
  moreover have "split_nat ?r (unat p) < ?r"
    using r(1) by (simp add: split_nat_less)
  ultimately have "split_of (bd_range d) p \<le> bd_range d"
    by (simp add: word_le_nat_alt)
  with split show ?thesis
    by (simp add: chosen_def Let_def sub_range_def unat_sub)
qed

lemma get_steps:
  assumes ok: "bd_ok d"
    and v: "v = (push_bit 8 (split_of (bd_range d) p) \<le> bd_value d)"
    and s: "s = vp8_norm ! sub_range v (unat (bd_range d)) (unat p)"
  shows "bd_get p d = Some (v, (shift_once ^^ s) (chosen v p d))"
    and "bd_ok ((shift_once ^^ s) (chosen v p d))"
    and "bd_complete_chunk ((shift_once ^^ s) (chosen v p d)) = bd_complete_chunk d"
proof -
  let ?r = "unat (bd_range d)"
  have r: "128 \<le> ?r" "?r \<le> 255" using ok by (simp_all add: bd_ok_def)
  note sub = sub_interval [OF r(1) unat_lt_256, of v p]
  have "sub_range v ?r (unat p) < 256" using sub r by linarith
  note norm = vp8_norm_normalises [OF sub(1) this, folded s]
  have loop: "bd_normalise (chosen v p d) = Some ((shift_once ^^ s) (chosen v p d))"
    using norm by (intro bd_normalise_steps) (simp_all only: chosen_range [OF ok])
  then show "bd_get p d = Some (v, (shift_once ^^ s) (chosen v p d))"
    by (simp add: bd_get_def chosen_def v Let_def)
  have frame: "bd_complete_chunk (chosen v p d) = bd_complete_chunk d"
    "bd_valid (chosen v p d) = bd_valid d" "bd_bit_count (chosen v p d) = bd_bit_count d"
    by (simp_all add: chosen_def Let_def)
  show "bd_ok ((shift_once ^^ s) (chosen v p d))"
    using ok norm shift_many_frame [where s = s and d = "chosen v p d"] 
    unfolding bd_ok_def frame chosen_range [OF ok] by auto
  show "bd_complete_chunk ((shift_once ^^ s) (chosen v p d)) = bd_complete_chunk d"
    by (simp only: shift_many_frame(1) frame)
qed

lemma get_total:
  assumes "bd_ok d"
  obtains v d' where "bd_get p d = Some (v, d')" and "bd_ok d'" and "bd_complete_chunk d' = bd_complete_chunk d"
  using get_steps [OF assms refl refl] by blast

section \<open>The decoder follows the ideal coder\<close>

text \<open>The input, extended by zeros without end, denotes a binary fraction; \<open>window bs n\<close>
  is its first \<open>n\<close> bits.  \<open>inside\<close> says that the fraction lies in an interval.\<close>

definition window :: "bytes \<Rightarrow> nat \<Rightarrow> nat" where
  "window bs n = be_nat bs * 2 ^ n div 256 ^ length bs"

fun inside :: "bytes \<Rightarrow> interval \<Rightarrow> bool" where
  "inside bs (l, r, n) \<longleftrightarrow>
     l * 256 ^ length bs \<le> be_nat bs * 2 ^ n \<and> be_nat bs * 2 ^ n < (l + r) * 256 ^ length bs"

definition octet_at :: "bytes \<Rightarrow> nat \<Rightarrow> nat" where
  "octet_at bs i = (if i < length bs then unat (bs ! i) else 0)"

lemma window_prefix: "i \<le> length bs \<Longrightarrow> window bs (8 * i) = be_nat (take i bs)"
proof -
  assume i: "i \<le> length bs"
  have "be_nat bs = be_nat (take i bs) * 256 ^ (length bs - i) + be_nat (drop i bs)"
    using be_nat_append [of "take i bs" "drop i bs"] by simp
  moreover have "be_nat (drop i bs) < 256 ^ (length bs - i)"
    using be_nat_less [of "drop i bs"] by simp
  ultimately have "be_nat bs div 256 ^ (length bs - i) = be_nat (take i bs)"
    by simp
  moreover have "(256::nat) ^ length bs = 256 ^ (length bs - i) * 256 ^ i"
    using i by (simp flip: power_add)
  ultimately show ?thesis
    by (simp add: window_def pow256 [symmetric])
qed

lemma window_0: "window bs 0 = 0"
  using window_prefix [of 0 bs] by simp

lemma window_octet: "window bs (8 * Suc i) = window bs (8 * i) * 256 + octet_at bs i"
proof (cases "i < length bs")
  case True
  then have "take (Suc i) bs = take i bs @ [bs ! i]"
    by (rule take_Suc_conv_app_nth)
  with True show ?thesis
    using window_prefix [of i bs] window_prefix [of "Suc i" bs] by (simp add: octet_at_def)
next
  case False
  have exact: "window bs (8 * j) = be_nat bs * 256 ^ (j - length bs)" if "length bs \<le> j" for j
  proof -
    have "(2::nat) ^ (8 * j) = 256 ^ (j - length bs) * 256 ^ length bs"
      using that by (simp flip: power_add pow256)
    then show ?thesis by (simp add: window_def flip: mult.assoc)
  qed
  show ?thesis
    using False exact [of i] exact [of "Suc i"] by (simp add: octet_at_def Suc_diff_le)
qed

lemma le_window_iff:
  "a * 2 ^ k \<le> window bs (n + k) \<longleftrightarrow> a * 256 ^ length bs \<le> be_nat bs * 2 ^ n"
proof -
  have "a * 2 ^ k \<le> window bs (n + k) \<longleftrightarrow> a * 2 ^ k * 256 ^ length bs \<le> be_nat bs * 2 ^ (n + k)"
    unfolding window_def by (subst less_eq_div_iff_mult_less_eq) simp_all
  also have "\<dots> \<longleftrightarrow> (a * 256 ^ length bs) * 2 ^ k \<le> (be_nat bs * 2 ^ n) * 2 ^ k"
    by (simp only: power_add ac_simps)
  finally show ?thesis by simp
qed

text \<open>The registers after \<open>s\<close> shifts: \<open>2 + s div 8\<close> octets have been taken, and the value
  register is what the input read so far exceeds the lower end by.\<close>

definition tracks :: "bytes \<Rightarrow> bool_decoder \<Rightarrow> nat \<Rightarrow> nat \<Rightarrow> bool" where
  "tracks bs d l s \<longleftrightarrow>
     bd_bit_count d = int (s mod 8) \<and> bd_chunk d = drop (2 + s div 8) bs \<and>
     unat (bd_value d) + l * 256 = window bs (8 * (2 + s div 8)) * 2 ^ (s mod 8)"

definition dec_sync :: "bytes \<Rightarrow> bool_decoder \<Rightarrow> interval \<Rightarrow> bool" where
  "dec_sync bs d i \<longleftrightarrow> (\<exists>l r s. i = (l, r, s + 8) \<and> bd_ok d \<and> unat (bd_range d) = r \<and> tracks bs d l s)"

lemma or_octet:
  assumes "256 dvd unat w"
  shows "unat ((w :: u32) OR ucast (b :: u8)) = unat w + unat b"
proof -
  have low: "\<not> bit w n" if "n < 8" for n
  proof -
    have "take_bit 8 (unat w) = 0"
      using assms by (simp add: take_bit_eq_mod)
    then have "\<not> bit (unat w) n"
      using that by (metis bit_0_eq bit_take_bit_iff bot_apply bot_bool_def)
    then show ?thesis
      using that by (simp add: bit_unsigned_iff)
  qed
  have "w AND ucast b = 0"
    by (rule bit_eqI) (auto simp: bit_simps low dest: bit_imp_le_length)
  then have "w OR ucast b = w + ucast b"
    by (simp add: disjunctive_add_eq_or)
  moreover have "unat w + unat b < 2 ^ 32"
  proof -
    obtain k where k: "unat w = 256 * k" using assms by auto
    then have "k < 2 ^ 24" using unat_lt2p [of w] by simp
    then show ?thesis using k unat_lt_256 [of b]
      by (simp del: unat_lt_256)
  qed
  ultimately show ?thesis
    by (simp add: unat_word_ariths unat_ucast_up)
qed

lemma load_octet_value:
  assumes "bd_chunk d = drop i bs" and "256 dvd unat (bd_value d)"
  shows "bd_chunk (load_octet d) = drop (Suc i) bs"
    and "unat (bd_value (load_octet d)) = unat (bd_value d) + octet_at bs i"
proof -
  have "drop i bs = (if i < length bs then bs ! i # drop (Suc i) bs else [])"
    by (simp add: Cons_nth_drop_Suc)
  then show "bd_chunk (load_octet d) = drop (Suc i) bs"
    and "unat (bd_value (load_octet d)) = unat (bd_value d) + octet_at bs i"
    using assms or_octet [OF assms(2)] by (auto simp: load_octet_def octet_at_def)
qed

lemma tracks_init:
  shows "tracks bs (bool_decoder_init bs complete) 0 0"
proof -
  let ?d0 = "\<lparr>bd_chunk = bs, bd_range = 255, bd_value = 0, bd_bit_count = 0,
               bd_valid = True, bd_complete_chunk = complete\<rparr>"
  let ?d1 = "load_octet ?d0"
  let ?d2 = "?d1\<lparr>bd_value := push_bit 8 (bd_value ?d1)\<rparr>"
  have 1: "bd_chunk ?d1 = drop 1 bs" "unat (bd_value ?d1) = octet_at bs 0"
    using load_octet_value [of ?d0 0 bs] by simp_all
  have "octet_at bs 0 < 256" by (simp add: octet_at_def)
  then have 2: "unat (bd_value ?d2) = octet_at bs 0 * 256"
    using 1(2) by simp (subst unat_push_bit; simp)
  have "bd_chunk (load_octet ?d2) = drop 2 bs"
    and "unat (bd_value (load_octet ?d2)) = octet_at bs 0 * 256 + octet_at bs 1"
    using load_octet_value [of ?d2 1 bs] 1(1) 2 by (simp_all add: numeral_2_eq_2)
  moreover have "window bs 16 = octet_at bs 0 * 256 + octet_at bs 1"
    using window_octet [of bs 0] window_octet [of bs 1] by (simp add: window_0)
  ultimately show ?thesis
    by (simp add: tracks_def bool_decoder_init_def Let_def)
qed

lemma tracks_shift:
  assumes t: "tracks bs d l s" and small: "unat (bd_value d) < 2 ^ 31"
  shows "tracks bs (shift_once d) (l * 2) (s + 1)"
proof -
  let ?d = "d\<lparr>bd_value := push_bit 1 (bd_value d), bd_range := push_bit 1 (bd_range d),
              bd_bit_count := bd_bit_count d + 1\<rparr>"
  have v: "unat (push_bit 1 (bd_value d)) = unat (bd_value d) * 2"
    using small by (subst unat_push_bit) simp_all
  have val: "unat (bd_value d) * 2 + l * 2 * 256 = window bs (8 * (2 + s div 8)) * 2 ^ Suc (s mod 8)"
    using t by (simp add: tracks_def algebra_simps)
  show ?thesis
  proof (cases "s mod 8 = 7")
    case False
    then have "(s + 1) mod 8 = Suc (s mod 8)" "(s + 1) div 8 = s div 8"
      by (simp_all add: mod_Suc div_Suc)
    moreover have "s mod 8 < 8" by simp
    then have "s mod 8 < 7" using False by linarith
    ultimately show ?thesis
      using t v val by (simp add: tracks_def shift_once_def Let_def)
  next
    case True
    then have s: "(s + 1) mod 8 = 0" "(s + 1) div 8 = Suc (s div 8)"
      by (simp_all add: mod_Suc div_Suc)
    let ?e = "?d\<lparr>bd_bit_count := 0\<rparr>"
    have step: "shift_once d = load_octet ?e"
      using t True by (simp add: tracks_def shift_once_def Let_def)
    have full: "unat (bd_value ?e) + l * 2 * 256 = window bs (8 * (2 + s div 8)) * 256"
      using val True v by simp
    then have "256 dvd unat (bd_value ?e)"
      by (metis dvd_add_left_iff dvd_triv_right)
    then have "bd_chunk (shift_once d) = drop (Suc (2 + s div 8)) bs"
      and "unat (bd_value (shift_once d)) = unat (bd_value ?e) + octet_at bs (2 + s div 8)"
      using load_octet_value [of ?e "2 + s div 8" bs] t by (simp_all add: step tracks_def)
    moreover have "bd_bit_count (shift_once d) = 0"
      by (simp add: step)
    ultimately show ?thesis
      using full s window_octet [of bs "2 + s div 8"] by (simp add: tracks_def)
  qed
qed

lemma inside_scale: "inside bs (l * 2 ^ k, r * 2 ^ k, n + k) \<longleftrightarrow> inside bs (l, r, n)"
proof -
  have scale: "l * 2 ^ k * 256 ^ length bs = (l * 256 ^ length bs) * 2 ^ k"
    "be_nat bs * 2 ^ (n + k) = (be_nat bs * 2 ^ n) * 2 ^ k"
    "(l * 2 ^ k + r * 2 ^ k) * 256 ^ length bs = ((l + r) * 256 ^ length bs) * 2 ^ k"
    by (simp_all add: power_add algebra_simps)
  show ?thesis unfolding inside.simps scale by simp
qed

text \<open>The comparison that \<open>get\<close> makes on its register is the comparison of the whole
  input fraction with the split point.\<close>

lemma tracks_compare:
  assumes "tracks bs d l s"
  shows "a * 256 \<le> unat (bd_value d) + l * 256 \<longleftrightarrow> a * 256 ^ length bs \<le> be_nat bs * 2 ^ (s + 8)"
proof -
  let ?k = "8 - s mod 8"
  have "s mod 8 < 8" by simp
  then have k: "(2::nat) ^ ?k * 2 ^ (s mod 8) = 256"
    unfolding power_add [symmetric] by simp
  have n: "s + 8 + ?k = 8 * (2 + s div 8)"
    by presburger
  have "a * 256 \<le> unat (bd_value d) + l * 256 \<longleftrightarrow>
    (a * 2 ^ ?k) * 2 ^ (s mod 8) \<le> window bs (8 * (2 + s div 8)) * 2 ^ (s mod 8)"
    using assms by (simp only: tracks_def mult.assoc k)
  also have "\<dots> \<longleftrightarrow> a * 2 ^ ?k \<le> window bs (s + 8 + ?k)"
    unfolding n by simp
  finally show ?thesis
    by (simp only: le_window_iff)
qed

lemma tracks_inside:
  assumes "tracks bs d l s" and "inside bs (l, r, s + 8)"
  shows "unat (bd_value d) < r * 256"
proof -
  have "\<not> (l + r) * 256 \<le> unat (bd_value d) + l * 256"
    using assms(2) unfolding tracks_compare [OF assms(1)] by simp
  then show ?thesis by simp
qed

lemma tracks_shifts:
  assumes "tracks bs d l s" and "inside bs (l, r, s + 8)" and "r * 2 ^ k \<le> 255"
  shows "tracks bs ((shift_once ^^ k) d) (l * 2 ^ k) (s + k)"
  using assms(3)
proof (induction k)
  case (Suc k)
  then have t: "tracks bs ((shift_once ^^ k) d) (l * 2 ^ k) (s + k)" and r: "r * 2 ^ k \<le> 255"
    by simp_all
  have "inside bs (l * 2 ^ k, r * 2 ^ k, (s + k) + 8)"
    using assms(2) inside_scale [of bs l k r "s + 8"] by (simp add: ac_simps)
  then have "unat (bd_value ((shift_once ^^ k) d)) < r * 2 ^ k * 256"
    by (rule tracks_inside [OF t])
  then have "unat (bd_value ((shift_once ^^ k) d)) < 2 ^ 31"
    using r by simp
  from tracks_shift [OF t this] show ?case
    by (simp add: ac_simps)
qed (use assms(1) in simp)

text \<open>One bit: if the input lies in the subinterval of a bit, \<open>get\<close> returns that bit and
  stays synchronised with the ideal coder.\<close>

lemma inside_sub:
  assumes "inside bs (ideal_put v p (l, r, n))"
  shows "inside bs (l + sub_low v r (unat p), sub_range v r (unat p), n)"
  using assms inside_scale by (simp only: ideal_put.simps Let_def)

lemma chosen_tracks:
  assumes ok: "bd_ok d" and r: "r = unat (bd_range d)" and t: "tracks bs d l s"
    and sub: "inside bs (l + sub_low v r (unat p), sub_range v r (unat p), s + 8)"
  shows "v = (push_bit 8 (split_of (bd_range d) p) \<le> bd_value d)"
    and "tracks bs (chosen v p d) (l + sub_low v r (unat p)) s"
proof -
  have r': "128 \<le> r" "r \<le> 255" using ok by (simp_all add: bd_ok_def r)
  have split: "unat (split_of (bd_range d) p) = split_nat r (unat p)"
    using r' by (simp add: unat_split_of r)
  have less: "split_nat r (unat p) < r"
    using r'(1) by (simp add: split_nat_less)
  then have SPLIT: "unat (push_bit 8 (split_of (bd_range d) p)) = split_nat r (unat p) * 256"
    using split r'(2) by (subst unat_push_bit) simp_all
  have "split_nat r (unat p) * 256 \<le> unat (bd_value d) \<longleftrightarrow>
      (l + split_nat r (unat p)) * 256 ^ length bs \<le> be_nat bs * 2 ^ (s + 8)"
    using tracks_compare [OF t, of "l + split_nat r (unat p)"] by (simp add: algebra_simps)
  also have "\<dots> \<longleftrightarrow> v"
    using sub by (cases v) (simp_all add: sub_low_def sub_range_def)
  finally have cmp: "split_nat r (unat p) * 256 \<le> unat (bd_value d) \<longleftrightarrow> v" .
  then show "v = (push_bit 8 (split_of (bd_range d) p) \<le> bd_value d)"
    by (simp add: word_le_nat_alt SPLIT)
  then have "v \<Longrightarrow> unat (bd_value d - push_bit 8 (split_of (bd_range d) p)) = unat (bd_value d) - split_nat r (unat p) * 256"
    by (simp only: unat_sub SPLIT)
  then show "tracks bs (chosen v p d) (l + sub_low v r (unat p)) s"
    using t cmp by (cases v) (simp_all add: tracks_def chosen_def Let_def sub_low_def algebra_simps)
qed

lemma get_exact:
  assumes sync: "dec_sync bs d i" and ins: "inside bs (ideal_put v p i)"
  obtains d' where "bd_get p d = Some (v, d')" and "dec_sync bs d' (ideal_put v p i)"
proof -
  obtain l r s where i: "i = (l, r, s + 8)" and ok: "bd_ok d" and r: "r = unat (bd_range d)"
    and t: "tracks bs d l s"
    using sync by (auto simp: dec_sync_def)
  define k where "k = vp8_norm ! sub_range v r (unat p)"
  have sub: "inside bs (l + sub_low v r (unat p), sub_range v r (unat p), s + 8)"
    using ins unfolding i by (rule inside_sub)
  note ch = chosen_tracks [OF ok r t sub]
  note steps = get_steps [OF ok ch(1) k_def [unfolded r]]
  have r': "128 \<le> r" "r \<le> 255" using ok by (simp_all add: bd_ok_def r)
  note si = sub_interval [OF r'(1) unat_lt_256, of v p]
  have k: "sub_range v r (unat p) * 2 ^ k \<le> 255"
    using vp8_norm_normalises(3) [OF si(1)] si(2) r'(2) by (simp add: k_def)
  let ?d = "(shift_once ^^ k) (chosen v p d)"
  have "tracks bs ?d ((l + sub_low v r (unat p)) * 2 ^ k) (s + k)"
    using ch(2) sub k by (rule tracks_shifts)
  moreover have "unat (bd_range ?d) = sub_range v r (unat p) * 2 ^ k"
    using shift_many_frame(4) [of "chosen v p d" k] k chosen_range [OF ok, of v p] by (simp add: r)
  ultimately have "dec_sync bs ?d (ideal_put v p i)"
    using steps(2) unfolding dec_sync_def i ideal_put.simps Let_def k_def [symmetric]
    by (intro exI conjI) (auto simp: ac_simps)
  with steps(1) show ?thesis by (rule that)
qed


section \<open>Round trip\<close>

lemma inside_put:
  assumes "inside bs (ideal_put v p (l, r, n))" and "128 \<le> r" and "r \<le> 255"
  shows "inside bs (l, r, n)"
proof -
  have "inside bs (l + sub_low v r (unat p), sub_range v r (unat p), n)"
    using assms(1) by (rule inside_sub)
  moreover have "sub_low v r (unat p) + sub_range v r (unat p) \<le> r"
    using assms(2) by (intro sub_interval) simp_all
  then have "(l + sub_low v r (unat p) + sub_range v r (unat p)) * 256 ^ length bs \<le> (l + r) * 256 ^ length bs"
    by (intro mult_le_mono1) simp
  ultimately show ?thesis
    by (simp add: algebra_simps)
qed

lemma ideal_put_normal:
  assumes "128 \<le> r" and "r \<le> 255" and "ideal_put v p (l, r, n) = (l', r', n')"
  shows "128 \<le> r' \<and> r' \<le> 255"
proof -
  note sub = sub_interval [OF assms(1) unat_lt_256, of v p]
  show ?thesis
    using vp8_norm_normalises [OF sub(1)] sub(2) assms by (auto simp: Let_def)
qed

lemma inside_put_many:
  "inside bs (ideal_put_many vps (l, r, n)) \<Longrightarrow> 128 \<le> r \<Longrightarrow> r \<le> 255 \<Longrightarrow> inside bs (l, r, n)"
proof (induction vps arbitrary: l r n)
  case (Cons vp vps)
  obtain l' r' n' where put: "ideal_put (fst vp) (snd vp) (l, r, n) = (l', r', n')"
    by (cases "ideal_put (fst vp) (snd vp) (l, r, n)")
  then have "inside bs (l', r', n')"
    using Cons ideal_put_normal [OF Cons.prems(2,3) put] by simp
  then show ?case
    using inside_put [of bs "fst vp" "snd vp" l r n] put Cons.prems(2,3) by simp
qed simp

lemma sync_yields:
  "dec_sync bs d i \<Longrightarrow> inside bs (ideal_put_many vps i) \<Longrightarrow> yields d vps"
proof (induction vps arbitrary: d i)
  case (Cons vp vps)
  obtain l r s where i: "i = (l, r, s)" and r: "128 \<le> r" "r \<le> 255"
    using Cons.prems(1) by (auto simp: dec_sync_def bd_ok_def)
  obtain l' r' s' where put: "ideal_put (fst vp) (snd vp) i = (l', r', s')"
    by (cases "ideal_put (fst vp) (snd vp) i")
  have "inside bs (ideal_put (fst vp) (snd vp) i)"
    using inside_put_many [of bs vps l' r' s'] ideal_put_normal [OF r put [unfolded i]] Cons.prems(2) put
    by simp
  from get_exact [OF Cons.prems(1) this]
  obtain d' where d': "bd_get (snd vp) d = Some (fst vp, d')"
    "dec_sync bs d' (ideal_put (fst vp) (snd vp) i)" .
  with Cons.IH [OF d'(2)] Cons.prems(2) show ?case by simp
qed simp

lemma sync_init: "dec_sync bs (bool_decoder_init bs complete) (0, 255, 8)"
proof -
  have "unat (bd_range (bool_decoder_init bs complete)) = 255"
    by (simp add: bool_decoder_init_def Let_def)
  then show ?thesis
    using tracks_init [of bs complete] by (simp add: dec_sync_def)
qed

lemma enc_interval_init: "enc_interval bool_encoder_init = (0, 255, 8)"
  by (simp add: enc_interval_def enc_low_def enc_range_def enc_bits_def enc_pending_def
      bool_encoder_init_def)

text \<open>Whatever the bits and the probabilities, encoding succeeds and the decoder reads the
  bits back.\<close>

lemma put_many_finish:
  obtains e out where "be_put_many vps bool_encoder_init = Some e"
    and "be_finish e = Some (out, bool_encoder_init)"
    and "\<And>complete. yields (bool_decoder_init out complete) vps"
    and "out \<noteq> []"
proof -
  obtain e where e: "be_put_many vps bool_encoder_init = Some e" "enc_inv e"
    "enc_interval e = ideal_put_many vps (0, 255, 8)"
    using put_many_exact [OF enc_inv_init] unfolding enc_interval_init by blast
  obtain out where out: "be_finish e = Some (out, bool_encoder_init)"
    "be_nat out * 2 ^ enc_bits e = enc_low e * 256 ^ length out" "out \<noteq> []"
    using finish_exact [OF e(2)] by blast
  have "0 < enc_range e" using e(2) by (simp add: enc_inv_def)
  then have "inside out (enc_low e, enc_range e, enc_bits e)"
    using out(2) by simp
  then have "inside out (ideal_put_many vps (0, 255, 8))"
    using e(3) by (simp only: enc_interval_def)
  then have "yields (bool_decoder_init out complete) vps" for complete
    by (rule sync_yields [OF sync_init])
  with e(1) out(1) show ?thesis using out(3) by (rule that)
qed


section \<open>Properties\<close>

text \<open>C7: The boolean entropy coder is lossless.  For every sequence of bits and
  probabilities, putting them into a fresh encoder and finishing succeeds, leaves the
  encoder fresh again, and a decoder started on the bytes returns every bit in order when
  it is asked with the same probabilities.\<close>

theorem bool_coder_roundtrip:
  "\<exists>e out. be_put_many vps bool_encoder_init = Some e \<and>
     be_finish e = Some (out, bool_encoder_init) \<and>
     yields (bool_decoder_init out complete) vps"
  using put_many_finish [of vps] by metis

text \<open>C32: \<open>BoolDecoder::get\<close> returns on every input: from a state with a normalised range
  the renormalisation loop ends, and the state it leaves has a normalised range again, a
  bit count between 0 and 7, and is still valid if the chunk was complete.\<close>

theorem get_returns:
  assumes "bd_ok d"
  shows "\<exists>v d'. bd_get p d = Some (v, d') \<and> bd_ok d'"
  using get_total [OF assms, of p] by metis

theorem get_returns_witness:
  "\<exists>v d'. bd_get 128 (bool_decoder_init [0xff, 0x01] False) = Some (v, d') \<and> bd_ok d'"
  using get_returns [OF bool_decoder_init_ok] .

end
