(* ===== verification/Bool_Coder.thy ===== *)
theory Bool_Coder
  imports Bool_Decoder
begin

text \<open>
  The calculus in which the bitstream routines are verified.  Writers are functions of the
  encoder state, readers functions of the decoder state.  \<open>codes enc dec x\<close> says that
  \<open>enc\<close> puts some sequence of bits and that \<open>dec\<close>, given exactly those bits, returns \<open>x\<close>
  and leaves whatever follows them; \<open>returns dec P\<close> says that \<open>dec\<close> returns a value in
  \<open>P\<close> on every input and leaves the decoder as it should be.  The locale \<open>bit_codec\<close> is the contract of a bitstream element; the
  elements of src/src/decoder/vp8_header_structures.hh and their encoders in
  src/src/encoder/serializer.cc are its instances.
\<close>

section \<open>Writers, readers and their composition\<close>

type_synonym writer = "bool_encoder \<Rightarrow> bool_encoder option"
type_synonym 'a reader = "bool_decoder \<Rightarrow> ('a \<times> bool_decoder) option"

definition writes :: "writer \<Rightarrow> (bool \<times> u8) list \<Rightarrow> bool" where
  "writes enc ps \<longleftrightarrow> (\<forall>e. enc e = be_put_many ps e)"

definition reads :: "'a reader \<Rightarrow> (bool \<times> u8) list \<Rightarrow> 'a \<Rightarrow> bool" where
  "reads dec ps x \<longleftrightarrow>
     (\<forall>d qs. yields d (ps @ qs) \<longrightarrow> (\<exists>d'. dec d = Some (x, d') \<and> yields d' qs))"

definition codes :: "writer \<Rightarrow> 'a reader \<Rightarrow> 'a \<Rightarrow> bool" where
  "codes enc dec x \<longleftrightarrow> (\<exists>ps. writes enc ps \<and> reads dec ps x)"

definition returns :: "'a reader \<Rightarrow> ('a \<Rightarrow> bool) \<Rightarrow> bool" where
  "returns dec P \<longleftrightarrow>
     (\<forall>d. bd_ok d \<longrightarrow> (\<exists>x d'. dec d = Some (x, d') \<and> bd_ok d' \<and> bd_complete_chunk d' = bd_complete_chunk d \<and> P x))"

text \<open>A sequence of writers, as a function body lists its \<open>encode\<close> calls.\<close>

primrec enc_seq :: "writer list \<Rightarrow> writer" where
  "enc_seq [] e = Some e"
| "enc_seq (f # fs) e = do { e' \<leftarrow> f e; enc_seq fs e' }"

lemma writes_put: "writes (be_put b p) [(b, p)]"
  by (simp add: writes_def)

lemma writes_seq_Nil: "writes (enc_seq []) []"
  by (simp add: writes_def)

lemma writes_seq_Cons: "writes f ps \<Longrightarrow> writes (enc_seq fs) qs \<Longrightarrow> writes (enc_seq (f # fs)) (ps @ qs)"
  by (simp add: writes_def be_put_many_append)

lemma enc_seq_append: "enc_seq (fs @ gs) e = do { e' \<leftarrow> enc_seq fs e; enc_seq gs e' }"
  by (induction fs arbitrary: e) (auto split: Option.bind_split)

lemma reads_get: "reads (bd_get p) [(b, p)] b"
  by (auto simp: reads_def split: option.splits)

lemma reads_return: "reads (\<lambda>d. Some (x, d)) [] x"
  by (simp add: reads_def)

lemma reads_bind:
  assumes "reads m ps x" and "reads (f x) qs y"
  shows "reads (\<lambda>d. do { (a, d') \<leftarrow> m d; f a d' }) (ps @ qs) y"
  unfolding reads_def
proof (intro allI impI)
  fix d rs
  assume "yields d ((ps @ qs) @ rs)"
  then obtain d1 where "m d = Some (x, d1)" "yields d1 (qs @ rs)"
    using assms(1) by (auto simp: reads_def)
  moreover from this obtain d2 where "f x d1 = Some (y, d2)" "yields d2 rs"
    using assms(2) by (auto simp: reads_def)
  ultimately show "\<exists>d'. (do { (a, d') \<leftarrow> m d; f a d' }) = Some (y, d') \<and> yields d' rs"
    by simp
qed

lemma codesI: "writes enc ps \<Longrightarrow> reads dec ps x \<Longrightarrow> codes enc dec x"
  unfolding codes_def by blast

lemma codes_put: "codes (be_put b p) (bd_get p) b"
  by (rule codesI [OF writes_put reads_get])

lemma codes_nothing: "x = y \<Longrightarrow> codes Some (\<lambda>d. Some (x, d)) y"
  by (rule codesI [where ps = "[]"]) (simp_all add: writes_def reads_return)

lemma codes_done: "x = y \<Longrightarrow> codes (enc_seq []) (\<lambda>d. Some (x, d)) y"
  by (rule codesI [OF writes_seq_Nil]) (simp add: reads_return)

lemma codes_step:
  assumes "codes f m x" and "codes (enc_seq fs) (k x) y"
  shows "codes (enc_seq (f # fs)) (\<lambda>d. do { (a, d') \<leftarrow> m d; k a d' }) y"
proof -
  obtain ps qs where "writes f ps" "reads m ps x" "writes (enc_seq fs) qs" "reads (k x) qs y"
    using assms by (auto simp: codes_def)
  then show ?thesis
    by (intro codesI [where ps = "ps @ qs"] writes_seq_Cons reads_bind [where x = x])
qed

lemma codes_put_step:
  "codes (enc_seq fs) (k b) y \<Longrightarrow>
   codes (enc_seq (be_put b p # fs)) (\<lambda>d. do { (a, d') \<leftarrow> bd_get p d; k a d' }) y"
  by (rule codes_step [OF codes_put])

lemma codes_append:
  assumes "codes (enc_seq fs) m x" and "codes (enc_seq gs) (k x) y"
  shows "codes (enc_seq (fs @ gs)) (\<lambda>d. do { (a, d') \<leftarrow> m d; k a d' }) y"
proof -
  have "enc_seq (fs @ gs) = enc_seq (enc_seq fs # gs)"
    by (rule ext) (simp add: enc_seq_append)
  then show ?thesis
    using codes_step [where f = "enc_seq fs" and k = k, OF assms] by simp
qed

lemmas branch_simps = if_True if_False not_True_eq_False not_False_eq_True

lemma codes_map:
  assumes "codes f m x" and "g x = y"
  shows "codes f (\<lambda>d. do { (a, d') \<leftarrow> m d; Some (g a, d') }) y"
proof -
  obtain ps where "writes f ps" "reads m ps x"
    using assms(1) by (auto simp: codes_def)
  moreover from this(2) have "reads (\<lambda>d. do { (a, d') \<leftarrow> m d; Some (g a, d') }) (ps @ []) y"
    by (rule reads_bind [where f = "\<lambda>a d'. Some (g a, d')"]) (simp add: reads_return assms(2) [symmetric])
  ultimately show ?thesis by (intro codesI [where ps = ps]) simp_all
qed

lemma codes_seq1: "codes (enc_seq [f]) m x \<longleftrightarrow> codes f m x"
proof -
  have "enc_seq [f] = f" by (rule ext) (simp split: Option.bind_split)
  then show ?thesis by simp
qed

lemma returns_get: "returns (bd_get p) (\<lambda>_. True)"
  unfolding returns_def using get_total by metis

lemma returns_return: "P x \<Longrightarrow> returns (\<lambda>d. Some (x, d)) P"
  by (simp add: returns_def)

lemma returns_bind:
  assumes "returns m P" and "\<And>x. P x \<Longrightarrow> returns (f x) Q"
  shows "returns (\<lambda>d. do { (a, d') \<leftarrow> m d; f a d' }) Q"
  unfolding returns_def
proof (intro allI impI)
  fix d
  assume "bd_ok d"
  then obtain x d1 where 1: "m d = Some (x, d1)" "bd_ok d1" "bd_complete_chunk d1 = bd_complete_chunk d" "P x"
    using assms(1) by (auto simp: returns_def)
  then obtain y d2 where "f x d1 = Some (y, d2)" "bd_ok d2" "bd_complete_chunk d2 = bd_complete_chunk d1" "Q y"
    using assms(2) [OF 1(4)] by (auto simp: returns_def)
  with 1 show "\<exists>y d'. (do { (a, d') \<leftarrow> m d; f a d' }) = Some (y, d') \<and> bd_ok d' \<and>
      bd_complete_chunk d' = bd_complete_chunk d \<and> Q y"
    by simp
qed

lemma returns_weaken: "returns m P \<Longrightarrow> (\<And>x. P x \<Longrightarrow> Q x) \<Longrightarrow> returns m Q"
  unfolding returns_def by blast

lemma returns_if:
  "returns m P \<Longrightarrow> returns n P \<Longrightarrow> returns (\<lambda>d. if c then m d else n d) P"
  by (cases c) simp_all

text \<open>From the calculus to a whole partition.\<close>

lemma codes_whole:
  assumes "codes enc dec x"
  obtains e out d' where "enc bool_encoder_init = Some e"
    and "be_finish e = Some (out, bool_encoder_init)"
    and "dec (bool_decoder_init out complete) = Some (x, d')"
proof -
  obtain ps where ps: "writes enc ps" "reads dec ps x"
    using assms by (auto simp: codes_def)
  obtain e out where e: "be_put_many ps bool_encoder_init = Some e"
    "be_finish e = Some (out, bool_encoder_init)" "yields (bool_decoder_init out complete) ps"
    using put_many_finish by metis
  then have "yields (bool_decoder_init out complete) (ps @ [])" by simp
  with ps(2) obtain d' where "dec (bool_decoder_init out complete) = Some (x, d')"
    unfolding reads_def by blast
  with that e ps(1) show ?thesis by (simp add: writes_def)
qed


section \<open>The contract of a bitstream element\<close>

locale bit_codec =
  fixes enc :: "'a \<Rightarrow> writer"
    and dec :: "'a reader"
    and ok :: "'a \<Rightarrow> bool"
  assumes codec: "ok x \<Longrightarrow> codes (enc x) dec x"
    and total: "returns dec ok"

text \<open>Elements built from elements: an optional element behind a flag (\<open>Flagged\<close>), an
  optional element whose presence the context decides (\<open>Optional\<close>), an array.\<close>

definition enc_flagged :: "('a \<Rightarrow> writer) \<Rightarrow> u8 \<Rightarrow> 'a option \<Rightarrow> writer" where
  "enc_flagged enc probability obj =
     enc_seq (be_put (obj \<noteq> None) probability # (case obj of None \<Rightarrow> [] | Some x \<Rightarrow> [enc x]))"

definition dec_flagged :: "'a reader \<Rightarrow> u8 \<Rightarrow> 'a option reader" where
  "dec_flagged dec probability d =
     do { (present, d) \<leftarrow> bd_get probability d;
          if present then do { (x, d) \<leftarrow> dec d; Some (Some x, d) } else Some (None, d) }"

definition enc_optional :: "('a \<Rightarrow> writer) \<Rightarrow> 'a option \<Rightarrow> writer" where
  "enc_optional enc obj = (case obj of None \<Rightarrow> Some | Some x \<Rightarrow> enc x)"

definition dec_optional :: "'a reader \<Rightarrow> bool \<Rightarrow> 'a option reader" where
  "dec_optional dec present d =
     (if present then do { (x, d) \<leftarrow> dec d; Some (Some x, d) } else Some (None, d))"

definition enc_array :: "('a \<Rightarrow> writer) \<Rightarrow> 'a list \<Rightarrow> writer" where
  "enc_array enc xs = enc_seq (map enc xs)"

primrec dec_array :: "'a reader \<Rightarrow> nat \<Rightarrow> 'a list reader" where
  "dec_array dec 0 d = Some ([], d)"
| "dec_array dec (Suc n) d =
     do { (x, d) \<leftarrow> dec d; (xs, d) \<leftarrow> dec_array dec n d; Some (x # xs, d) }"

text \<open>\<open>Enumerate\<close> passes each element its position.\<close>

definition enc_enumerate :: "(nat \<Rightarrow> 'a \<Rightarrow> writer) \<Rightarrow> 'a list \<Rightarrow> writer" where
  "enc_enumerate enc xs = enc_seq (map (\<lambda>(i, x). enc i x) (enumerate 0 xs))"

fun dec_enumerate :: "(nat \<Rightarrow> 'a reader) \<Rightarrow> nat \<Rightarrow> nat \<Rightarrow> 'a list reader" where
  "dec_enumerate dec i 0 d = Some ([], d)"
| "dec_enumerate dec i (Suc n) d =
     do { (x, d) \<leftarrow> dec i d; (xs, d) \<leftarrow> dec_enumerate dec (Suc i) n d; Some (x # xs, d) }"

definition ok_option :: "('a \<Rightarrow> bool) \<Rightarrow> 'a option \<Rightarrow> bool" where
  "ok_option ok obj = (case obj of None \<Rightarrow> True | Some x \<Rightarrow> ok x)"

definition ok_array :: "('a \<Rightarrow> bool) \<Rightarrow> nat \<Rightarrow> 'a list \<Rightarrow> bool" where
  "ok_array ok n xs \<longleftrightarrow> length xs = n \<and> list_all ok xs"

lemma ok_option_simps [simp]:
  "ok_option ok None" "ok_option ok (Some x) = ok x"
  by (simp_all add: ok_option_def)

lemma codes_enumerate:
  assumes "\<And>j x. j < n \<Longrightarrow> ok x \<Longrightarrow> codes (enc (i + j) x) (dec (i + j)) x"
    and "length xs = n" and "list_all ok xs"
  shows "codes (enc_seq (map (\<lambda>(i, x). enc i x) (enumerate i xs))) (dec_enumerate dec i n) xs"
  using assms
proof (induction xs arbitrary: i n)
  case Nil
  then show ?case by (simp add: codes_nothing)
next
  case (Cons x xs)
  then obtain m where n: "n = Suc m" by auto
  have "codes (enc i x) (dec i) x"
    using Cons.prems(1) [of 0 x] Cons.prems(3) n by simp
  moreover have "codes (enc_seq (map (\<lambda>(i, x). enc i x) (enumerate (Suc i) xs))) (dec_enumerate dec (Suc i) m) xs"
    using Cons.prems Cons.prems(1) [of "Suc j" for j] n by (intro Cons.IH) simp_all
  ultimately show ?case
    unfolding n enumerate_simps list.map prod.case dec_enumerate.simps
    by (intro codes_step [where x = x]) (auto intro: codes_map)
qed

context bit_codec
begin

lemma flagged: "bit_codec (enc_flagged enc p) (dec_flagged dec p) (ok_option ok)"
proof
  fix obj
  assume ok: "ok_option ok obj"
  show "codes (enc_flagged enc p obj) (dec_flagged dec p) obj"
    unfolding enc_flagged_def dec_flagged_def
  proof (rule codes_step [OF codes_put], cases obj)
    case (Some x)
    then have "codes (enc x) (\<lambda>d. do { (x, d) \<leftarrow> dec d; Some (Some x, d) }) (Some x)"
      using codes_map [OF codec, of x Some] ok by simp
    with Some show "codes (enc_seq (case obj of None \<Rightarrow> [] | Some x \<Rightarrow> [enc x]))
      (\<lambda>d. if obj \<noteq> None then do { (x, d) \<leftarrow> dec d; Some (Some x, d) } else Some (None, d)) obj"
      by (simp add: codes_seq1)
  qed (simp add: codes_nothing codes_done)
next
  show "returns (dec_flagged dec p) (ok_option ok)"
    unfolding dec_flagged_def
  proof (rule returns_bind [OF returns_get])
    fix present
    have "returns (\<lambda>d. do { (x, d) \<leftarrow> dec d; Some (Some x, d) }) (ok_option ok)"
      by (rule returns_bind [OF total]) (simp add: returns_return)
    then show "returns (\<lambda>d. if present then do { (x, d) \<leftarrow> dec d; Some (Some x, d) } else Some (None, d)) (ok_option ok)"
      by (cases present) (simp_all add: returns_return)
  qed
qed

lemma optional:
  "bit_codec (enc_optional enc) (dec_optional dec present) (\<lambda>obj. ok_option ok obj \<and> (obj \<noteq> None) = present)"
proof
  fix obj
  assume ok: "ok_option ok obj \<and> (obj \<noteq> None) = present"
  show "codes (enc_optional enc obj) (dec_optional dec present) obj"
  proof (cases obj)
    case (Some x)
    then show ?thesis
      using codes_map [OF codec, of x Some "Some x"] ok
      by (simp add: enc_optional_def dec_optional_def [abs_def])
  qed (use ok in \<open>simp add: enc_optional_def dec_optional_def [abs_def] codes_nothing\<close>)
next
  have "returns (\<lambda>d. do { (x, d) \<leftarrow> dec d; Some (Some x, d) })
      (\<lambda>obj. ok_option ok obj \<and> (obj \<noteq> None))"
    by (rule returns_bind [OF total]) (simp add: returns_return)
  then show "returns (dec_optional dec present) (\<lambda>obj. ok_option ok obj \<and> (obj \<noteq> None) = present)"
    by (cases present) (simp_all add: dec_optional_def [abs_def] returns_return)
qed

lemma array: "bit_codec (enc_array enc) (dec_array dec n) (ok_array ok n)"
proof
  fix xs
  assume "ok_array ok n xs"
  then show "codes (enc_array enc xs) (dec_array dec n) xs"
  proof (induction xs arbitrary: n)
    case Nil
    then show ?case by (simp add: ok_array_def enc_array_def codes_nothing)
  next
    case (Cons x xs)
    then obtain m where n: "n = Suc m" by (auto simp: ok_array_def)
    have "codes (enc_seq (map enc xs)) (dec_array dec m) xs" and "codes (enc x) dec x"
      using Cons n codec by (simp_all add: ok_array_def enc_array_def)
    then show ?case
      unfolding n enc_array_def list.map dec_array.simps
      by (intro codes_step [where x = x]) (auto intro: codes_map)
  qed
next
  show "returns (dec_array dec n) (ok_array ok n)"
  proof (induction n)
    case (Suc n)
    show ?case
      unfolding dec_array.simps
      by (rule returns_bind [OF total], rule returns_bind [OF Suc], rule returns_return)
        (simp add: ok_array_def)
  qed (simp add: returns_return ok_array_def)
qed

text \<open>What a partition that holds one element promises.\<close>

lemma whole:
  assumes "ok x"
  obtains e out d' where "enc x bool_encoder_init = Some e"
    and "be_finish e = Some (out, bool_encoder_init)"
    and "dec (bool_decoder_init out complete) = Some (x, d')"
  using codes_whole [OF codec [OF assms]] .

end

lemma enumerate_codec:
  assumes "\<And>i. i < n \<Longrightarrow> bit_codec (enc i) (dec i) ok"
  shows "bit_codec (enc_enumerate enc) (dec_enumerate dec 0 n) (ok_array ok n)"
proof
  fix xs
  assume "ok_array ok n xs"
  then show "codes (enc_enumerate enc xs) (dec_enumerate dec 0 n) xs"
    unfolding enc_enumerate_def ok_array_def
    using assms by (intro codes_enumerate [where ok = ok]) (simp_all add: bit_codec_def)
next
  have "(\<And>j. j < n \<Longrightarrow> returns (dec (i + j)) ok) \<Longrightarrow> returns (dec_enumerate dec i n) (ok_array ok n)" for i
  proof (induction n arbitrary: i)
    case 0
    show ?case
      unfolding dec_enumerate.simps by (rule returns_return) (simp add: ok_array_def)
  next
    case (Suc n)
    have "returns (dec_enumerate dec (Suc i) n) (ok_array ok n)"
      using Suc.prems [of "Suc j" for j] by (intro Suc.IH) simp
    moreover have "returns (dec i) ok" using Suc.prems [of 0] by simp
    ultimately show ?case
      unfolding dec_enumerate.simps
      by (intro returns_bind [where P = ok] returns_bind [where P = "ok_array ok n"] returns_return)
        (simp_all add: ok_array_def)
  qed
  then show "returns (dec_enumerate dec 0 n) (ok_array ok n)"
    using assms by (simp add: bit_codec_def)
qed

end
