(* ===== verification/Tree_Code.thy ===== *)
theory Tree_Code
  imports Bool_Coder
begin

text \<open>
  Tree-coded symbols: \<open>BoolDecoder::tree\<close> (src/src/decoder/tree.cc) and the \<open>encode\<close>
  overload for trees (src/src/encoder/encode_tree.cc).  A tree is the array of its nodes; a
  positive entry is the position of a pair of children, an entry \<open>- v\<close> the leaf of the
  symbol \<open>v\<close>.  \<open>tree_ok\<close> is an executable check of a tree; every tree that passes it is an
  instance of the \<open>bit_codec\<close> contract, for all probabilities.
\<close>

section \<open>Reading and writing a symbol\<close>

partial_function (option) tree_walk :: "int list \<Rightarrow> u8 list \<Rightarrow> nat \<Rightarrow> int reader" where
  "tree_walk nodes probs i d =
     do {
       p \<leftarrow> at probs (i div 2);
       (b, d) \<leftarrow> bd_get p d;
       v \<leftarrow> at nodes (i + (if b then 1 else 0));
       if v > 0 then tree_walk nodes probs (nat v) d else Some (- v, d)
     }"

declare tree_walk.simps [code]

definition bd_tree :: "int list \<Rightarrow> u8 list \<Rightarrow> int reader" where
  "bd_tree nodes probs = tree_walk nodes probs 0"

text \<open>The writer inverts the node array and climbs from the leaf to the root.  An entry of
  the inverse that was never assigned is uninitialised memory.\<close>

definition value_to_index :: "int list \<Rightarrow> int \<Rightarrow> nat option" where
  "value_to_index nodes = fold (\<lambda>i m. m(nodes ! i \<mapsto> i)) [0..<length nodes] (\<lambda>_. None)"

partial_function (option) path_up ::
  "(int \<Rightarrow> nat option) \<Rightarrow> u8 list \<Rightarrow> nat \<Rightarrow> (bool \<times> u8) list \<Rightarrow> (bool \<times> u8) list option" where
  "path_up index_of probs node_index bits =
     do {
       p \<leftarrow> at probs (node_index div 2);
       let bits' = (odd node_index, p) # bits;
       if node_index > 1
       then do { parent \<leftarrow> index_of (int (2 * (node_index div 2)));
                 path_up index_of probs parent bits' }
       else Some bits'
     }"

declare path_up.simps [code]

definition enc_tree :: "int list \<Rightarrow> u8 list \<Rightarrow> int \<Rightarrow> writer" where
  "enc_tree nodes probs v e =
     do {
       node_index \<leftarrow> value_to_index nodes (- v);
       bits \<leftarrow> path_up (value_to_index nodes) probs node_index [];
       be_put_many bits e
     }"


section \<open>Checking a tree\<close>

definition leaves :: "int list \<Rightarrow> int list" where
  "leaves nodes = map uminus (filter (\<lambda>v. v \<le> 0) nodes)"

text \<open>The path to a leaf as positions in the array, from the root down.\<close>

fun path_ok :: "int list \<Rightarrow> nat \<Rightarrow> nat list \<Rightarrow> int \<Rightarrow> bool" where
  "path_ok nodes i [] v = False"
| "path_ok nodes i (j # js) v =
     (2 * (j div 2) = i \<and> j < length nodes \<and>
      (if js = [] then nodes ! j = - v \<and> 0 \<le> v
       else 0 < nodes ! j \<and> path_ok nodes (nat (nodes ! j)) js v))"

fun climb :: "nat \<Rightarrow> (int \<Rightarrow> nat option) \<Rightarrow> nat \<Rightarrow> nat list \<Rightarrow> nat list option" where
  "climb 0 index_of j js = None"
| "climb (Suc n) index_of j js =
     (if j > 1 then
        (case index_of (int (2 * (j div 2))) of None \<Rightarrow> None | Some k \<Rightarrow> climb n index_of k (j # js))
      else Some (j # js))"

definition leaf_ok :: "int list \<Rightarrow> int \<Rightarrow> bool" where
  "leaf_ok nodes v =
     (case value_to_index nodes (- v) of None \<Rightarrow> False
      | Some j \<Rightarrow> (case climb (length nodes) (value_to_index nodes) j [] of None \<Rightarrow> False
                   | Some js \<Rightarrow> path_ok nodes 0 js v))"

definition nodes_ok :: "int list \<Rightarrow> bool" where
  "nodes_ok nodes \<longleftrightarrow> even (length nodes) \<and> 2 \<le> length nodes \<and>
     (\<forall>j<length nodes. 0 < nodes ! j \<longrightarrow>
        even (nodes ! j) \<and> int j < nodes ! j \<and> nodes ! j < int (length nodes))"

definition tree_ok :: "int list \<Rightarrow> bool" where
  "tree_ok nodes \<longleftrightarrow> nodes_ok nodes \<and> list_all (leaf_ok nodes) (leaves nodes)"

definition branch :: "u8 list \<Rightarrow> nat \<Rightarrow> bool \<times> u8" where
  "branch probs j = (odd j, probs ! (j div 2))"

lemma path_up_climb:
  "climb n index_of j js = Some ks \<Longrightarrow> \<forall>k\<in>set ks. k div 2 < length probs \<Longrightarrow>
   path_up index_of probs j (map (branch probs) js) = Some (map (branch probs) ks) \<and> set js \<subseteq> set ks \<and> j \<in> set ks"
proof (induction n arbitrary: j js)
  case (Suc n)
  show ?case
  proof (cases "j > 1")
    case True
    then obtain k where k: "index_of (int (2 * (j div 2))) = Some k" "climb n index_of k (j # js) = Some ks"
      using Suc.prems(1) by (auto split: option.splits)
    from Suc.IH [OF k(2) Suc.prems(2)] have ih:
      "path_up index_of probs k (map (branch probs) (j # js)) = Some (map (branch probs) ks)"
      "set (j # js) \<subseteq> set ks" by simp_all
    moreover have "at probs (j div 2) = Some (probs ! (j div 2))"
      using ih(2) Suc.prems(2) by simp
    ultimately show ?thesis
      using True k(1) by (subst path_up.simps) (simp add: branch_def)
  next
    case False
    with Suc.prems show ?thesis
      by (subst path_up.simps) (auto simp: branch_def)
  qed
qed simp

lemma path_ok_positions:
  "path_ok nodes i js v \<Longrightarrow> k \<in> set js \<Longrightarrow> k < length nodes"
  by (induction nodes i js v rule: path_ok.induct) (auto split: if_splits)

lemma path_reads:
  assumes "path_ok nodes i js v" and "length nodes \<le> 2 * length probs"
  shows "reads (tree_walk nodes probs i) (map (branch probs) js) v"
  using assms(1)
proof (induction js arbitrary: i)
  case (Cons j js)
  let ?p = "probs ! (j div 2)"
  have j: "2 * (j div 2) = i" "j < length nodes"
    using Cons.prems by simp_all
  then have i: "i div 2 = j div 2" "j div 2 < length probs"
    using assms(2) by auto
  have pos: "i + (if odd j then 1 else 0) = j"
    using j(1) by presburger
  let ?k = "\<lambda>b d. do { v \<leftarrow> at nodes (i + (if b then 1 else 0));
                       if v > 0 then tree_walk nodes probs (nat v) d else Some (- v, d) }"
  have unfold: "tree_walk nodes probs i = (\<lambda>d. do { (b, d) \<leftarrow> bd_get ?p d; ?k b d })"
    using i by (subst tree_walk.simps [abs_def]) simp
  have "reads (?k (odd j)) (map (branch probs) js) v"
  proof (cases "js = []")
    case True
    then have "nodes ! j = - v" "0 \<le> v" using Cons.prems by simp_all
    then show ?thesis
      using pos j(2) True by (simp add: reads_return)
  next
    case False
    then have "0 < nodes ! j" "path_ok nodes (nat (nodes ! j)) js v"
      using Cons.prems by simp_all
    then show ?thesis
      using pos j(2) Cons.IH by simp
  qed
  from reads_bind [where m = "bd_get ?p" and f = ?k, OF reads_get this]
  show ?case
    unfolding unfold by (simp add: branch_def [of probs j])
qed simp

lemma leaf_codes:
  assumes "leaf_ok nodes v" and "length nodes \<le> 2 * length probs"
  shows "codes (enc_tree nodes probs v) (bd_tree nodes probs) v"
proof -
  obtain j js where j: "value_to_index nodes (- v) = Some j"
    "climb (length nodes) (value_to_index nodes) j [] = Some js" "path_ok nodes 0 js v"
    using assms(1) by (auto simp: leaf_ok_def split: option.splits)
  have "\<forall>k\<in>set js. k div 2 < length probs"
    using path_ok_positions [OF j(3)] assms(2) by fastforce
  then have "path_up (value_to_index nodes) probs j [] = Some (map (branch probs) js)"
    using path_up_climb [OF j(2)] by simp
  then have "writes (enc_tree nodes probs v) (map (branch probs) js)"
    using j(1) by (simp add: writes_def enc_tree_def)
  moreover have "reads (bd_tree nodes probs) (map (branch probs) js) v"
    unfolding bd_tree_def by (rule path_reads [OF j(3) assms(2)])
  ultimately show ?thesis by (rule codesI)
qed

text \<open>Children stand after their parent, so a walk ends, at a leaf.\<close>

lemma walk_returns:
  assumes ok: "nodes_ok nodes" and probs: "length nodes \<le> 2 * length probs"
  shows "even i \<Longrightarrow> i < length nodes \<Longrightarrow> returns (tree_walk nodes probs i) (\<lambda>v. v \<in> set (leaves nodes))"
proof (induction "length nodes - i" arbitrary: i rule: less_induct)
  case less
  have i: "i div 2 < length probs" "i + 1 < length nodes"
    using less.prems ok probs by (auto simp: nodes_ok_def elim!: evenE)
  let ?k = "\<lambda>b d. do { v \<leftarrow> at nodes (i + (if b then 1 else 0));
                       if v > 0 then tree_walk nodes probs (nat v) d else Some (- v, d) }"
  have step: "returns (?k b) (\<lambda>v. v \<in> set (leaves nodes))" for b
  proof -
    let ?j = "i + (if b then 1 else 0)"
    have j: "?j < length nodes" using i(2) by simp
    show ?thesis
    proof (cases "0 < nodes ! ?j")
      case True
      then have "even (nodes ! ?j)" "int ?j < nodes ! ?j" "nodes ! ?j < int (length nodes)"
        using ok j by (auto simp: nodes_ok_def)
      then have "returns (tree_walk nodes probs (nat (nodes ! ?j))) (\<lambda>v. v \<in> set (leaves nodes))"
        using True j by (intro less.hyps) (auto simp: even_nat_iff)
      then show ?thesis using True j by simp
    next
      case False
      then have "- (nodes ! ?j) \<in> set (leaves nodes)"
        using j by (simp add: leaves_def)
      with False j show ?thesis by (simp add: returns_return)
    qed
  qed
  have unfold: "tree_walk nodes probs i = (\<lambda>d. do { (b, d) \<leftarrow> bd_get (probs ! (i div 2)) d; ?k b d })"
    using i(1) by (subst tree_walk.simps [abs_def]) simp
  show ?case
    unfolding unfold by (rule returns_bind [where f = ?k, OF returns_get step])
qed

lemma tree_codec:
  assumes "tree_ok nodes" and "length nodes \<le> 2 * length probs"
  shows "bit_codec (enc_tree nodes probs) (bd_tree nodes probs) (\<lambda>v. v \<in> set (leaves nodes))"
proof
  show "codes (enc_tree nodes probs v) (bd_tree nodes probs) v" if "v \<in> set (leaves nodes)" for v
    using assms that by (intro leaf_codes) (auto simp: tree_ok_def list_all_iff)
  show "returns (bd_tree nodes probs) (\<lambda>v. v \<in> set (leaves nodes))"
    using assms unfolding bd_tree_def
    by (intro walk_returns) (auto simp: tree_ok_def nodes_ok_def)
qed

section \<open>Symbols of an enumeration\<close>

text \<open>The cast of a leaf value to the enumeration, and the codec of its symbols.\<close>

definition enum_at :: "'a list \<Rightarrow> int \<Rightarrow> 'a option" where
  "enum_at xs v = (if v < 0 then None else at xs (nat v))"

definition dec_symbol :: "(int \<Rightarrow> 'a option) \<Rightarrow> int list \<Rightarrow> u8 list \<Rightarrow> 'a reader" where
  "dec_symbol of_num nodes probs d =
     do { (v, d) \<leftarrow> bd_tree nodes probs d; x \<leftarrow> of_num v; Some (x, d) }"

definition enc_symbol :: "('a \<Rightarrow> int) \<Rightarrow> int list \<Rightarrow> u8 list \<Rightarrow> 'a \<Rightarrow> writer" where
  "enc_symbol num nodes probs x = enc_tree nodes probs (num x)"

definition in_tree :: "('a \<Rightarrow> int) \<Rightarrow> int list \<Rightarrow> 'a \<Rightarrow> bool" where
  "in_tree num nodes x \<longleftrightarrow> num x \<in> set (leaves nodes)"

lemma enum_at_num:
  assumes "all_from (\<lambda>i x. num x = int i) 0 xs" and "enum_at xs v = Some x"
  shows "num x = v"
  using all_from_nth [OF assms(1), of "nat v"] assms(2)
  by (auto simp: enum_at_def at_def split: if_splits)

lemma symbol_codec:
  assumes tree: "tree_ok nodes" "length nodes \<le> 2 * length probs"
    and of_num: "\<And>x. of_num (num x) = Some x"
    and all: "list_all (\<lambda>v. of_num v \<noteq> None) (leaves nodes)"
    and num: "\<And>v x. of_num v = Some x \<Longrightarrow> num x = v"
  shows "bit_codec (enc_symbol num nodes probs) (dec_symbol of_num nodes probs) (in_tree num nodes)"
proof
  let ?k = "\<lambda>v d. do { x \<leftarrow> of_num v; Some (x, d) }"
  note tree_codec = tree_codec [OF tree]
  show "codes (enc_symbol num nodes probs x) (dec_symbol of_num nodes probs) x" if x: "in_tree num nodes x" for x
  proof -
    obtain ps where ps: "writes (enc_tree nodes probs (num x)) ps" "reads (bd_tree nodes probs) ps (num x)"
      using bit_codec.codec [OF tree_codec] x unfolding in_tree_def codes_def by blast
    have "reads (?k (num x)) [] x"
      using of_num by (simp add: reads_return)
    from reads_bind [where f = ?k, OF ps(2) this] ps(1) show ?thesis
      unfolding dec_symbol_def [abs_def] enc_symbol_def by (intro codesI [where ps = ps]) simp_all
  qed
  have "returns (?k v) (in_tree num nodes)" if v: "v \<in> set (leaves nodes)" for v
  proof -
    obtain x where "of_num v = Some x" using all v by (auto simp: list_all_iff)
    then show ?thesis
      using num [of v x] v by (simp add: in_tree_def returns_return)
  qed
  then show "returns (dec_symbol of_num nodes probs) (in_tree num nodes)"
    unfolding dec_symbol_def [abs_def] by (intro returns_bind [where f = ?k, OF bit_codec.total [OF tree_codec]])
qed

end
