(* ===== verification/Mode_Data.thy ===== *)
theory Mode_Data
  imports Tree_Code
begin

text \<open>
  The prediction modes, reference frames and tokens of the VP8 format, the trees that code
  them and their fixed probabilities: src/src/decoder/modemv_data.hh and modemv_data.cc and
  the enumeration of src/src/decoder/tokens.hh.  An enumeration is a datatype with the
  integer value of each enumerator.  Every tree passes \<open>tree_ok\<close> and is an instance of the
  element contract.
\<close>

section \<open>Enumerations\<close>

datatype mbmode =
    DC_PRED | V_PRED | H_PRED | TM_PRED | B_PRED
  | NEARESTMV | NEARMV | ZEROMV | NEWMV | SPLITMV

fun mbmode_num :: "mbmode \<Rightarrow> int" where
  "mbmode_num DC_PRED = 0"
| "mbmode_num V_PRED = 1"
| "mbmode_num H_PRED = 2"
| "mbmode_num TM_PRED = 3"
| "mbmode_num B_PRED = 4"
| "mbmode_num NEARESTMV = 5"
| "mbmode_num NEARMV = 6"
| "mbmode_num ZEROMV = 7"
| "mbmode_num NEWMV = 8"
| "mbmode_num SPLITMV = 9"

definition mbmode_of :: "int \<Rightarrow> mbmode option" where
  "mbmode_of v =
     enum_at [DC_PRED, V_PRED, H_PRED, TM_PRED,
              B_PRED, NEARESTMV, NEARMV, ZEROMV,
              NEWMV, SPLITMV] v"

lemma mbmode_of_num [simp]: "mbmode_of (mbmode_num x) = Some x"
  by (cases x) (simp_all add: mbmode_of_def enum_at_def at_def)

lemma mbmode_num_of: "mbmode_of v = Some x \<Longrightarrow> mbmode_num x = v"
  unfolding mbmode_of_def by (rule enum_at_num) simp_all

datatype bmode =
    B_DC_PRED | B_TM_PRED | B_VE_PRED | B_HE_PRED | B_LD_PRED
  | B_RD_PRED | B_VR_PRED | B_VL_PRED | B_HD_PRED | B_HU_PRED
  | LEFT4X4 | ABOVE4X4 | ZERO4X4 | NEW4X4

fun bmode_num :: "bmode \<Rightarrow> int" where
  "bmode_num B_DC_PRED = 0"
| "bmode_num B_TM_PRED = 1"
| "bmode_num B_VE_PRED = 2"
| "bmode_num B_HE_PRED = 3"
| "bmode_num B_LD_PRED = 4"
| "bmode_num B_RD_PRED = 5"
| "bmode_num B_VR_PRED = 6"
| "bmode_num B_VL_PRED = 7"
| "bmode_num B_HD_PRED = 8"
| "bmode_num B_HU_PRED = 9"
| "bmode_num LEFT4X4 = 10"
| "bmode_num ABOVE4X4 = 11"
| "bmode_num ZERO4X4 = 12"
| "bmode_num NEW4X4 = 13"

definition bmode_of :: "int \<Rightarrow> bmode option" where
  "bmode_of v =
     enum_at [B_DC_PRED, B_TM_PRED, B_VE_PRED, B_HE_PRED,
              B_LD_PRED, B_RD_PRED, B_VR_PRED, B_VL_PRED,
              B_HD_PRED, B_HU_PRED, LEFT4X4, ABOVE4X4,
              ZERO4X4, NEW4X4] v"

lemma bmode_of_num [simp]: "bmode_of (bmode_num x) = Some x"
  by (cases x) (simp_all add: bmode_of_def enum_at_def at_def)

lemma bmode_num_of: "bmode_of v = Some x \<Longrightarrow> bmode_num x = v"
  unfolding bmode_of_def by (rule enum_at_num) simp_all

datatype reference_frame =
    CURRENT_FRAME | LAST_FRAME | GOLDEN_FRAME | ALTREF_FRAME

fun reference_frame_num :: "reference_frame \<Rightarrow> int" where
  "reference_frame_num CURRENT_FRAME = 0"
| "reference_frame_num LAST_FRAME = 1"
| "reference_frame_num GOLDEN_FRAME = 2"
| "reference_frame_num ALTREF_FRAME = 3"

definition reference_frame_of :: "int \<Rightarrow> reference_frame option" where
  "reference_frame_of v =
     enum_at [CURRENT_FRAME, LAST_FRAME, GOLDEN_FRAME, ALTREF_FRAME] v"

lemma reference_frame_of_num [simp]: "reference_frame_of (reference_frame_num x) = Some x"
  by (cases x) (simp_all add: reference_frame_of_def enum_at_def at_def)

lemma reference_frame_num_of: "reference_frame_of v = Some x \<Longrightarrow> reference_frame_num x = v"
  unfolding reference_frame_of_def by (rule enum_at_num) simp_all

datatype token =
    ZERO_TOKEN | ONE_TOKEN | TWO_TOKEN | THREE_TOKEN | FOUR_TOKEN
  | DCT_VAL_CATEGORY1 | DCT_VAL_CATEGORY2 | DCT_VAL_CATEGORY3 | DCT_VAL_CATEGORY4 | DCT_VAL_CATEGORY5
  | DCT_VAL_CATEGORY6 | DCT_EOB_TOKEN

fun token_num :: "token \<Rightarrow> int" where
  "token_num ZERO_TOKEN = 0"
| "token_num ONE_TOKEN = 1"
| "token_num TWO_TOKEN = 2"
| "token_num THREE_TOKEN = 3"
| "token_num FOUR_TOKEN = 4"
| "token_num DCT_VAL_CATEGORY1 = 5"
| "token_num DCT_VAL_CATEGORY2 = 6"
| "token_num DCT_VAL_CATEGORY3 = 7"
| "token_num DCT_VAL_CATEGORY4 = 8"
| "token_num DCT_VAL_CATEGORY5 = 9"
| "token_num DCT_VAL_CATEGORY6 = 10"
| "token_num DCT_EOB_TOKEN = 11"

definition token_of :: "int \<Rightarrow> token option" where
  "token_of v =
     enum_at [ZERO_TOKEN, ONE_TOKEN, TWO_TOKEN, THREE_TOKEN,
              FOUR_TOKEN, DCT_VAL_CATEGORY1, DCT_VAL_CATEGORY2, DCT_VAL_CATEGORY3,
              DCT_VAL_CATEGORY4, DCT_VAL_CATEGORY5, DCT_VAL_CATEGORY6, DCT_EOB_TOKEN] v"

lemma token_of_num [simp]: "token_of (token_num x) = Some x"
  by (cases x) (simp_all add: token_of_def enum_at_def at_def)

lemma token_num_of: "token_of v = Some x \<Longrightarrow> token_num x = v"
  unfolding token_of_def by (rule enum_at_num) simp_all

section \<open>Trees and probabilities\<close>

definition kf_y_mode_probs :: "u8 list" where
  "kf_y_mode_probs =
    [145, 156, 163, 128]"

definition kf_uv_mode_probs :: "u8 list" where
  "kf_uv_mode_probs =
    [142, 114, 183]"

definition kf_b_mode_probs :: "u8 list list list" where
  "kf_b_mode_probs =
    [[[231, 120, 48, 89, 115, 113, 120, 152, 112],
      [152, 179, 64, 126, 170, 118, 46, 70, 95],
      [175, 69, 143, 80, 85, 82, 72, 155, 103],
      [56, 58, 10, 171, 218, 189, 17, 13, 152],
      [144, 71, 10, 38, 171, 213, 144, 34, 26],
      [114, 26, 17, 163, 44, 195, 21, 10, 173],
      [121, 24, 80, 195, 26, 62, 44, 64, 85],
      [170, 46, 55, 19, 136, 160, 33, 206, 71],
      [63, 20, 8, 114, 114, 208, 12, 9, 226],
      [81, 40, 11, 96, 182, 84, 29, 16, 36]],
     [[134, 183, 89, 137, 98, 101, 106, 165, 148],
      [72, 187, 100, 130, 157, 111, 32, 75, 80],
      [66, 102, 167, 99, 74, 62, 40, 234, 128],
      [41, 53, 9, 178, 241, 141, 26, 8, 107],
      [104, 79, 12, 27, 217, 255, 87, 17, 7],
      [74, 43, 26, 146, 73, 166, 49, 23, 157],
      [65, 38, 105, 160, 51, 52, 31, 115, 128],
      [87, 68, 71, 44, 114, 51, 15, 186, 23],
      [47, 41, 14, 110, 182, 183, 21, 17, 194],
      [66, 45, 25, 102, 197, 189, 23, 18, 22]],
     [[88, 88, 147, 150, 42, 46, 45, 196, 205],
      [43, 97, 183, 117, 85, 38, 35, 179, 61],
      [39, 53, 200, 87, 26, 21, 43, 232, 171],
      [56, 34, 51, 104, 114, 102, 29, 93, 77],
      [107, 54, 32, 26, 51, 1, 81, 43, 31],
      [39, 28, 85, 171, 58, 165, 90, 98, 64],
      [34, 22, 116, 206, 23, 34, 43, 166, 73],
      [68, 25, 106, 22, 64, 171, 36, 225, 114],
      [34, 19, 21, 102, 132, 188, 16, 76, 124],
      [62, 18, 78, 95, 85, 57, 50, 48, 51]],
     [[193, 101, 35, 159, 215, 111, 89, 46, 111],
      [60, 148, 31, 172, 219, 228, 21, 18, 111],
      [112, 113, 77, 85, 179, 255, 38, 120, 114],
      [40, 42, 1, 196, 245, 209, 10, 25, 109],
      [100, 80, 8, 43, 154, 1, 51, 26, 71],
      [88, 43, 29, 140, 166, 213, 37, 43, 154],
      [61, 63, 30, 155, 67, 45, 68, 1, 209],
      [142, 78, 78, 16, 255, 128, 34, 197, 171],
      [41, 40, 5, 102, 211, 183, 4, 1, 221],
      [51, 50, 17, 168, 209, 192, 23, 25, 82]],
     [[125, 98, 42, 88, 104, 85, 117, 175, 82],
      [95, 84, 53, 89, 128, 100, 113, 101, 45],
      [75, 79, 123, 47, 51, 128, 81, 171, 1],
      [57, 17, 5, 71, 102, 57, 53, 41, 49],
      [115, 21, 2, 10, 102, 255, 166, 23, 6],
      [38, 33, 13, 121, 57, 73, 26, 1, 85],
      [41, 10, 67, 138, 77, 110, 90, 47, 114],
      [101, 29, 16, 10, 85, 128, 101, 196, 26],
      [57, 18, 10, 102, 102, 213, 34, 20, 43],
      [117, 20, 15, 36, 163, 128, 68, 1, 26]],
     [[138, 31, 36, 171, 27, 166, 38, 44, 229],
      [67, 87, 58, 169, 82, 115, 26, 59, 179],
      [63, 59, 90, 180, 59, 166, 93, 73, 154],
      [40, 40, 21, 116, 143, 209, 34, 39, 175],
      [57, 46, 22, 24, 128, 1, 54, 17, 37],
      [47, 15, 16, 183, 34, 223, 49, 45, 183],
      [46, 17, 33, 183, 6, 98, 15, 32, 183],
      [65, 32, 73, 115, 28, 128, 23, 128, 205],
      [40, 3, 9, 115, 51, 192, 18, 6, 223],
      [87, 37, 9, 115, 59, 77, 64, 21, 47]],
     [[104, 55, 44, 218, 9, 54, 53, 130, 226],
      [64, 90, 70, 205, 40, 41, 23, 26, 57],
      [54, 57, 112, 184, 5, 41, 38, 166, 213],
      [30, 34, 26, 133, 152, 116, 10, 32, 134],
      [75, 32, 12, 51, 192, 255, 160, 43, 51],
      [39, 19, 53, 221, 26, 114, 32, 73, 255],
      [31, 9, 65, 234, 2, 15, 1, 118, 73],
      [88, 31, 35, 67, 102, 85, 55, 186, 85],
      [56, 21, 23, 111, 59, 205, 45, 37, 192],
      [55, 38, 70, 124, 73, 102, 1, 34, 98]],
     [[102, 61, 71, 37, 34, 53, 31, 243, 192],
      [69, 60, 71, 38, 73, 119, 28, 222, 37],
      [68, 45, 128, 34, 1, 47, 11, 245, 171],
      [62, 17, 19, 70, 146, 85, 55, 62, 70],
      [75, 15, 9, 9, 64, 255, 184, 119, 16],
      [37, 43, 37, 154, 100, 163, 85, 160, 1],
      [63, 9, 92, 136, 28, 64, 32, 201, 85],
      [86, 6, 28, 5, 64, 255, 25, 248, 1],
      [56, 8, 17, 132, 137, 255, 55, 116, 128],
      [58, 15, 20, 82, 135, 57, 26, 121, 40]],
     [[164, 50, 31, 137, 154, 133, 25, 35, 218],
      [51, 103, 44, 131, 131, 123, 31, 6, 158],
      [86, 40, 64, 135, 148, 224, 45, 183, 128],
      [22, 26, 17, 131, 240, 154, 14, 1, 209],
      [83, 12, 13, 54, 192, 255, 68, 47, 28],
      [45, 16, 21, 91, 64, 222, 7, 1, 197],
      [56, 21, 39, 155, 60, 138, 23, 102, 213],
      [85, 26, 85, 85, 128, 128, 32, 146, 171],
      [18, 11, 7, 63, 144, 171, 4, 4, 246],
      [35, 27, 10, 146, 174, 171, 12, 26, 128]],
     [[190, 80, 35, 99, 180, 80, 126, 54, 45],
      [85, 126, 47, 87, 176, 51, 41, 20, 32],
      [101, 75, 128, 139, 118, 146, 116, 128, 85],
      [56, 41, 15, 176, 236, 85, 37, 9, 62],
      [146, 36, 19, 30, 171, 255, 97, 27, 20],
      [71, 30, 17, 119, 118, 255, 17, 18, 138],
      [101, 38, 60, 138, 55, 70, 43, 26, 142],
      [138, 45, 61, 62, 219, 1, 81, 188, 64],
      [32, 41, 20, 117, 151, 142, 20, 21, 163],
      [112, 19, 12, 61, 195, 128, 48, 4, 24]]]"

definition kf_y_mode_tree :: "int list" where
  "kf_y_mode_tree =
    [- mbmode_num B_PRED, 2,
     4, 6,
     - mbmode_num DC_PRED, - mbmode_num V_PRED,
     - mbmode_num H_PRED, - mbmode_num TM_PRED]"

definition y_mode_tree :: "int list" where
  "y_mode_tree =
    [- mbmode_num DC_PRED, 2,
     4, 6,
     - mbmode_num V_PRED, - mbmode_num H_PRED,
     - mbmode_num TM_PRED, - mbmode_num B_PRED]"

definition uv_mode_tree :: "int list" where
  "uv_mode_tree =
    [- mbmode_num DC_PRED, 2,
     - mbmode_num V_PRED, 4,
     - mbmode_num H_PRED, - mbmode_num TM_PRED]"

definition b_mode_tree :: "int list" where
  "b_mode_tree =
    [- bmode_num B_DC_PRED, 2,
     - bmode_num B_TM_PRED, 4,
     - bmode_num B_VE_PRED, 6,
     8, 12,
     - bmode_num B_HE_PRED, 10,
     - bmode_num B_RD_PRED, - bmode_num B_VR_PRED,
     - bmode_num B_LD_PRED, 14,
     - bmode_num B_VL_PRED, 16,
     - bmode_num B_HD_PRED, - bmode_num B_HU_PRED]"

definition small_mv_tree :: "int list" where
  "small_mv_tree =
    [2, 8,
     4, 6,
     - 0, - 1,
     - 2, - 3,
     10, 12,
     - 4, - 5,
     - 6, - 7]"

definition mv_ref_tree :: "int list" where
  "mv_ref_tree =
    [- mbmode_num ZEROMV, 2,
     - mbmode_num NEARESTMV, 4,
     - mbmode_num NEARMV, 6,
     - mbmode_num NEWMV, - mbmode_num SPLITMV]"

definition submv_ref_tree :: "int list" where
  "submv_ref_tree =
    [- bmode_num LEFT4X4, 2,
     - bmode_num ABOVE4X4, 4,
     - bmode_num ZERO4X4, - bmode_num NEW4X4]"

definition split_mv_tree :: "int list" where
  "split_mv_tree =
    [- 3, 2,
     - 2, 4,
     - 0, - 1]"

definition segment_id_tree :: "int list" where
  "segment_id_tree =
    [2, 4,
     - 0, - 1,
     - 2, - 3]"

definition invariant_b_mode_probs :: "u8 list" where
  "invariant_b_mode_probs =
    [120, 90, 79, 133, 87, 85, 80, 111, 151]"

definition mv_counts_to_probs :: "u8 list list" where
  "mv_counts_to_probs =
    [[7, 1, 1, 143],
     [14, 18, 14, 107],
     [135, 64, 57, 68],
     [60, 56, 128, 65],
     [159, 134, 128, 34],
     [234, 188, 128, 28]]"

definition split_mv_probs :: "u8 list" where
  "split_mv_probs =
    [110, 111, 150]"

definition submv_ref_probs2 :: "u8 list list" where
  "submv_ref_probs2 =
    [[147, 136, 18],
     [106, 145, 1],
     [179, 121, 1],
     [223, 1, 34],
     [208, 1, 1]]"

text \<open>Each partition is a list of (column, row) positions of subblocks.\<close>

definition mv_partitions :: "(nat \<times> nat) list list list" where
  "mv_partitions =
    [[[(0, 0), (1, 0), (2, 0), (3, 0), (0, 1), (1, 1), (2, 1), (3, 1)],
      [(0, 2), (1, 2), (2, 2), (3, 2), (0, 3), (1, 3), (2, 3), (3, 3)]],
     [[(0, 0), (1, 0), (0, 1), (1, 1), (0, 2), (1, 2), (0, 3), (1, 3)],
      [(2, 0), (3, 0), (2, 1), (3, 1), (2, 2), (3, 2), (2, 3), (3, 3)]],
     [[(0, 0), (1, 0), (0, 1), (1, 1)],
      [(2, 0), (3, 0), (2, 1), (3, 1)],
      [(0, 2), (1, 2), (0, 3), (1, 3)],
      [(2, 2), (3, 2), (2, 3), (3, 3)]],
     [[(0, 0)],
      [(1, 0)],
      [(2, 0)],
      [(3, 0)],
      [(0, 1)],
      [(1, 1)],
      [(2, 1)],
      [(3, 1)],
      [(0, 2)],
      [(1, 2)],
      [(2, 2)],
      [(3, 2)],
      [(0, 3)],
      [(1, 3)],
      [(2, 3)],
      [(3, 3)]]]"


section \<open>Every tree is well formed\<close>

lemmas tree_defs = kf_y_mode_tree_def y_mode_tree_def uv_mode_tree_def b_mode_tree_def
  small_mv_tree_def mv_ref_tree_def submv_ref_tree_def split_mv_tree_def segment_id_tree_def

lemma trees_ok:
  "list_all tree_ok
    [kf_y_mode_tree, y_mode_tree, uv_mode_tree, b_mode_tree, small_mv_tree, mv_ref_tree,
     submv_ref_tree, split_mv_tree, segment_id_tree]"
  by code_simp

lemma tree_lengths:
  "length kf_y_mode_tree = 8" "length y_mode_tree = 8" "length uv_mode_tree = 6"
  "length b_mode_tree = 18" "length small_mv_tree = 14" "length mv_ref_tree = 8"
  "length submv_ref_tree = 6" "length split_mv_tree = 6" "length segment_id_tree = 6"
  by (simp_all add: tree_defs)

lemma probability_lengths [simp]:
  "length kf_y_mode_probs = 4" "length kf_uv_mode_probs = 3" "length invariant_b_mode_probs = 9"
  "length split_mv_probs = 3"
  by (simp_all add: kf_y_mode_probs_def kf_uv_mode_probs_def invariant_b_mode_probs_def split_mv_probs_def)

lemmas tree_ok_each = trees_ok [simplified]

lemma leaf_values:
  "leaves kf_y_mode_tree = [4, 0, 1, 2, 3]" "leaves y_mode_tree = [0, 1, 2, 3, 4]"
  "leaves uv_mode_tree = [0, 1, 2, 3]" "leaves b_mode_tree = [0, 1, 2, 3, 5, 6, 4, 7, 8, 9]"
  "leaves small_mv_tree = [0, 1, 2, 3, 4, 5, 6, 7]" "leaves mv_ref_tree = [7, 5, 6, 8, 9]"
  "leaves submv_ref_tree = [10, 11, 12, 13]" "leaves split_mv_tree = [3, 2, 0, 1]"
  "leaves segment_id_tree = [0, 1, 2, 3]"
  by (simp_all add: leaves_def tree_defs)

lemma mbmode_of_defined: "0 \<le> v \<Longrightarrow> v < 10 \<Longrightarrow> mbmode_of v \<noteq> None"
  by (simp add: mbmode_of_def enum_at_def at_def nat_less_iff)

lemma bmode_of_defined: "0 \<le> v \<Longrightarrow> v < 14 \<Longrightarrow> bmode_of v \<noteq> None"
  by (simp add: bmode_of_def enum_at_def at_def nat_less_iff)

lemmas mode_codec_intro = symbol_codec [where num = mbmode_num and of_num = mbmode_of]
  symbol_codec [where num = bmode_num and of_num = bmode_of]

lemmas mode_codec_simps = tree_ok_each tree_lengths leaf_values mbmode_num_of bmode_num_of
  mbmode_of_defined bmode_of_defined

lemma y_mode_codec:
  "length probs = 4 \<Longrightarrow>
   bit_codec (enc_symbol mbmode_num y_mode_tree probs) (dec_symbol mbmode_of y_mode_tree probs)
     (in_tree mbmode_num y_mode_tree)"
  by (rule mode_codec_intro) (simp_all add: mode_codec_simps del: not_None_eq)

lemma uv_mode_codec:
  "length probs = 3 \<Longrightarrow>
   bit_codec (enc_symbol mbmode_num uv_mode_tree probs) (dec_symbol mbmode_of uv_mode_tree probs)
     (in_tree mbmode_num uv_mode_tree)"
  by (rule mode_codec_intro) (simp_all add: mode_codec_simps del: not_None_eq)

lemma mv_ref_codec:
  "length probs = 4 \<Longrightarrow>
   bit_codec (enc_symbol mbmode_num mv_ref_tree probs) (dec_symbol mbmode_of mv_ref_tree probs)
     (in_tree mbmode_num mv_ref_tree)"
  by (rule mode_codec_intro) (simp_all add: mode_codec_simps del: not_None_eq)

lemma b_mode_codec:
  "length probs = 9 \<Longrightarrow>
   bit_codec (enc_symbol bmode_num b_mode_tree probs) (dec_symbol bmode_of b_mode_tree probs)
     (in_tree bmode_num b_mode_tree)"
  by (rule mode_codec_intro) (simp_all add: mode_codec_simps del: not_None_eq)

lemma submv_ref_codec:
  "length probs = 3 \<Longrightarrow>
   bit_codec (enc_symbol bmode_num submv_ref_tree probs) (dec_symbol bmode_of submv_ref_tree probs)
     (in_tree bmode_num submv_ref_tree)"
  by (rule mode_codec_intro) (simp_all add: mode_codec_simps del: not_None_eq)

interpretation kf_y_mode: bit_codec "enc_symbol mbmode_num kf_y_mode_tree kf_y_mode_probs"
  "dec_symbol mbmode_of kf_y_mode_tree kf_y_mode_probs" "in_tree mbmode_num kf_y_mode_tree"
  by (rule mode_codec_intro) (simp_all add: mode_codec_simps del: not_None_eq)

interpretation kf_uv_mode: bit_codec "enc_symbol mbmode_num uv_mode_tree kf_uv_mode_probs"
  "dec_symbol mbmode_of uv_mode_tree kf_uv_mode_probs" "in_tree mbmode_num uv_mode_tree"
  by (rule uv_mode_codec) simp

interpretation split_mv: bit_codec "enc_tree split_mv_tree split_mv_probs"
  "bd_tree split_mv_tree split_mv_probs" "\<lambda>v. v \<in> set (leaves split_mv_tree)"
  by (rule tree_codec) (simp_all add: mode_codec_simps)

lemma small_mv_codec:
  "length probs = 7 \<Longrightarrow>
   bit_codec (enc_tree small_mv_tree probs) (bd_tree small_mv_tree probs) (\<lambda>v. v \<in> set (leaves small_mv_tree))"
  by (rule tree_codec) (simp_all add: mode_codec_simps)

lemma segment_id_codec:
  "length probs = 3 \<Longrightarrow>
   bit_codec (enc_tree segment_id_tree probs) (bd_tree segment_id_tree probs)
     (\<lambda>v. v \<in> set (leaves segment_id_tree))"
  by (rule tree_codec) (simp_all add: mode_codec_simps)


section \<open>Properties\<close>

text \<open>Tree-coded symbols survive the coder.  For every tree of the format, every
  probability array long enough for it and every symbol at its leaves, the writer succeeds
  on a fresh encoder and the tree reader, started on the finished bytes, returns the
  symbol.\<close>

theorem tree_symbol_roundtrip:
  assumes "tree \<in> set [kf_y_mode_tree, y_mode_tree, uv_mode_tree, b_mode_tree, small_mv_tree,
      mv_ref_tree, submv_ref_tree, split_mv_tree, segment_id_tree]"
    and "length tree \<le> 2 * length probs" and "v \<in> set (leaves tree)"
  shows "\<exists>e out d'. enc_tree tree probs v bool_encoder_init = Some e \<and>
    be_finish e = Some (out, bool_encoder_init) \<and>
    bd_tree tree probs (bool_decoder_init out complete) = Some (v, d')"
proof -
  have "tree_ok tree" by (rule bspec [OF trees_ok [unfolded list_all_iff] assms(1)])
  from bit_codec.whole [OF tree_codec [OF this assms(2)] assms(3)] show ?thesis by metis
qed

theorem tree_symbol_roundtrip_witness:
  "\<exists>e out d'. enc_tree b_mode_tree invariant_b_mode_probs 8 bool_encoder_init = Some e \<and>
    be_finish e = Some (out, bool_encoder_init) \<and>
    bd_tree b_mode_tree invariant_b_mode_probs (bool_decoder_init out True) = Some (8, d')"
  by (rule tree_symbol_roundtrip) (simp_all add: tree_lengths leaf_values)

text \<open>Reading a tree-coded symbol returns on every input, and what it returns is a
  symbol at a leaf of the tree; so no read of a mode ever yields a value outside its
  enumeration.\<close>

theorem tree_read_total:
  assumes "tree \<in> set [kf_y_mode_tree, y_mode_tree, uv_mode_tree, b_mode_tree, small_mv_tree,
      mv_ref_tree, submv_ref_tree, split_mv_tree, segment_id_tree]"
    and "length tree \<le> 2 * length probs" and "bd_ok d"
  shows "\<exists>v d'. bd_tree tree probs d = Some (v, d') \<and> v \<in> set (leaves tree) \<and> bd_ok d'"
proof -
  have "tree_ok tree" by (rule bspec [OF trees_ok [unfolded list_all_iff] assms(1)])
  from bit_codec.total [OF tree_codec [OF this assms(2)]] show ?thesis
    using assms(3) unfolding returns_def by metis
qed

theorem tree_read_total_witness:
  "\<exists>v d'. bd_tree mv_ref_tree [1, 2, 3, 4] (bool_decoder_init [7] False) = Some (v, d') \<and>
    v \<in> set (leaves mv_ref_tree) \<and> bd_ok d'"
  by (rule tree_read_total) (simp_all add: tree_lengths)

end
