(* ===== verification/Header_Elements.thy ===== *)
theory Header_Elements
  imports Bool_Coder
begin

text \<open>
  The scalar elements of the frame headers, src/src/decoder/vp8_header_structures.hh
  (\<open>Flag\<close>, \<open>Unsigned\<close>, \<open>Signed\<close>) and their writers in src/src/encoder/serializer.cc, each
  an instance of \<open>bit_codec\<close>.  The operands of \<open>|\<close> and \<open>*\<close> in the constructors of
  \<open>Unsigned\<close> and \<open>Signed\<close> each consume bits; they are read from left to right, the order
  that makes the stream the one of the format.
\<close>

section \<open>Scalars\<close>

definition enc_flag :: "bool \<Rightarrow> writer" where
  "enc_flag flag = be_put flag 128"

definition dec_flag :: "bool reader" where
  "dec_flag = bd_get 128"

primrec dec_unsigned :: "nat \<Rightarrow> u8 reader" where
  "dec_unsigned 0 d = Some (0, d)"
| "dec_unsigned (Suc w) d =
     do { (b, d) \<leftarrow> bd_get 128 d; (n, d) \<leftarrow> dec_unsigned w d;
          Some (push_bit w (of_bool b) OR n, d) }"

primrec enc_unsigned :: "nat \<Rightarrow> u8 \<Rightarrow> writer" where
  "enc_unsigned 0 num = enc_seq []"
| "enc_unsigned (Suc w) num = enc_seq [be_put (bit num w) 128, enc_unsigned w num]"

definition dec_signed :: "nat \<Rightarrow> int reader" where
  "dec_signed w d =
     do { (n, d) \<leftarrow> dec_unsigned w d; (negative, d) \<leftarrow> bd_get 128 d;
          Some (uint n * (if negative then - 1 else 1), d) }"

definition enc_signed :: "nat \<Rightarrow> int \<Rightarrow> writer" where
  "enc_signed w num = enc_seq [enc_unsigned w (word_of_int \<bar>num\<bar>), be_put (num < 0) 128]"

definition unsigned_ok :: "nat \<Rightarrow> u8 \<Rightarrow> bool" where
  "unsigned_ok w n \<longleftrightarrow> unat n < 2 ^ w"

definition signed_ok :: "nat \<Rightarrow> int \<Rightarrow> bool" where
  "signed_ok w x \<longleftrightarrow> w \<le> 7 \<and> \<bar>x\<bar> < 2 ^ w"

interpretation flag: bit_codec enc_flag dec_flag "\<lambda>_. True"
  by unfold_locales (simp_all add: enc_flag_def dec_flag_def codes_put returns_get)

lemma unsigned_codes: "codes (enc_unsigned w n) (dec_unsigned w) (take_bit w n)"
proof (induction w)
  case (Suc w)
  let ?k = "\<lambda>b d. do { (m, d) \<leftarrow> dec_unsigned w d; Some (push_bit w (of_bool b) OR m, d) }"
  have "push_bit w (of_bool (bit n w)) OR take_bit w n = take_bit (Suc w) n"
    by (rule bit_eqI) (auto simp: bit_simps less_Suc_eq)
  then have "codes (enc_unsigned w n) (?k (bit n w)) (take_bit (Suc w) n)"
    by (intro codes_map [OF Suc])
  then have "codes (enc_seq [enc_unsigned w n]) (?k (bit n w)) (take_bit (Suc w) n)"
    by (simp only: codes_seq1)
  from codes_step [where k = ?k, OF codes_put this] show ?case
    unfolding dec_unsigned.simps enc_unsigned.simps .
qed (simp add: codes_nothing codes_done)

lemma unsigned_returns: "w \<le> 8 \<Longrightarrow> returns (dec_unsigned w) (unsigned_ok w)"
proof (induction w)
  case (Suc w)
  have bound: "unsigned_ok (Suc w) (push_bit w (of_bool b) OR m)" if "unsigned_ok w m" for b and m :: u8
  proof -
    have "take_bit w m = m"
      using that by (simp add: unsigned_ok_def word_unat_eq_iff unsigned_take_bit_eq take_bit_nat_eq_self)
    then have m: "n < w" if "bit m n" for n
      using that by (metis bit_take_bit_iff)
    have "take_bit (Suc w) (push_bit w (of_bool b) OR m) = push_bit w (of_bool b) OR m"
      by (rule bit_eqI) (auto simp: bit_simps less_Suc_eq dest: m)
    then have "unat (push_bit w (of_bool b) OR m) = unat (push_bit w (of_bool b) OR m) mod 2 ^ Suc w"
      by (metis take_bit_eq_mod unsigned_take_bit_eq)
    then show ?thesis
      unfolding unsigned_ok_def by (metis mod_less_divisor zero_less_numeral zero_less_power)
  qed
  show ?case
    unfolding dec_unsigned.simps using Suc bound
    by (intro returns_bind [OF returns_get] returns_bind [where P = "unsigned_ok w"] returns_return) simp_all
next
  case 0
  show ?case
    unfolding dec_unsigned.simps by (rule returns_return) (simp add: unsigned_ok_def)
qed

lemma unsigned_codec: "w \<le> 8 \<Longrightarrow> bit_codec (enc_unsigned w) (dec_unsigned w) (unsigned_ok w)"
proof
  fix n
  assume "unsigned_ok w n"
  then have "take_bit w n = n"
    by (simp add: unsigned_ok_def word_unat_eq_iff unsigned_take_bit_eq take_bit_nat_eq_self)
  then show "codes (enc_unsigned w n) (dec_unsigned w) n"
    using unsigned_codes [of w n] by simp
qed (rule unsigned_returns)

lemma signed_codec: "w \<le> 7 \<Longrightarrow> bit_codec (enc_signed w) (dec_signed w) (signed_ok w)"
proof
  assume w: "w \<le> 7"
  show "codes (enc_signed w x) (dec_signed w) x" if x: "signed_ok w x" for x
  proof -
    let ?n = "word_of_int \<bar>x\<bar> :: u8"
    have small: "\<bar>x\<bar> < 2 ^ w" using x by (simp add: signed_ok_def)
    also have "(2::int) ^ w \<le> 2 ^ 7" using w by (intro power_increasing) simp_all
    finally have n: "uint ?n = \<bar>x\<bar>"
      by (simp add: uint_word_of_int)
    then have "unsigned_ok w ?n"
      using small unfolding unsigned_ok_def by (simp add: nat_less_numeral_power_cancel_iff flip: nat_uint_eq)
    then have "codes (enc_unsigned w ?n) (dec_unsigned w) ?n"
      using bit_codec.codec [OF unsigned_codec] w by simp
    moreover have "codes (enc_seq [be_put (x < 0) 128])
        (\<lambda>d. do { (negative, d) \<leftarrow> bd_get 128 d; Some (uint ?n * (if negative then - 1 else 1), d) }) x"
      unfolding codes_seq1 using n by (intro codes_map [OF codes_put]) simp
    ultimately show ?thesis
      unfolding enc_signed_def dec_signed_def [abs_def] by (rule codes_step)
  qed
  show "returns (dec_signed w) (signed_ok w)"
    unfolding dec_signed_def [abs_def]
  proof (intro returns_bind [OF unsigned_returns] returns_bind [OF returns_get] returns_return)
    fix n :: u8 and negative
    assume "unsigned_ok w n"
    then have "uint n < 2 ^ w"
      unfolding unsigned_ok_def by (metis of_nat_less_iff of_nat_numeral of_nat_power uint_nat)
    then show "signed_ok w (uint n * (if negative then - 1 else 1))"
      using w by (simp add: signed_ok_def)
  qed (use w in simp)
qed

interpretation unsigned2: bit_codec "enc_unsigned 2" "dec_unsigned 2" "unsigned_ok 2"
  by (rule unsigned_codec) simp
interpretation unsigned3: bit_codec "enc_unsigned 3" "dec_unsigned 3" "unsigned_ok 3"
  by (rule unsigned_codec) simp
interpretation unsigned6: bit_codec "enc_unsigned 6" "dec_unsigned 6" "unsigned_ok 6"
  by (rule unsigned_codec) simp
interpretation unsigned7: bit_codec "enc_unsigned 7" "dec_unsigned 7" "unsigned_ok 7"
  by (rule unsigned_codec) simp
interpretation unsigned8: bit_codec "enc_unsigned 8" "dec_unsigned 8" "unsigned_ok 8"
  by (rule unsigned_codec) simp
interpretation signed4: bit_codec "enc_signed 4" "dec_signed 4" "signed_ok 4"
  by (rule signed_codec) simp
interpretation signed6: bit_codec "enc_signed 6" "dec_signed 6" "signed_ok 6"
  by (rule signed_codec) simp
interpretation signed7: bit_codec "enc_signed 7" "dec_signed 7" "signed_ok 7"
  by (rule signed_codec) simp

lemma unsigned8_always [simp]: "unsigned_ok 8 n"
  by (simp add: unsigned_ok_def)

end
