(* ===== verification/Frame_Header.thy ===== *)
theory Frame_Header
  imports Header_Elements Prob_Data
begin

text \<open>
  The frame headers, src/src/decoder/frame_header.hh, field by field in the order of the
  bitstream, and their writers in src/src/encoder/serializer.cc.  Every structure is an
  instance of the element contract, so each theorem about a header is one composition of
  the contracts of its fields.  The constructors of the headers refuse the colour space,
  clamping and simple-filter bits after reading every field.
\<close>

section \<open>Quantiser, filter and segmentation fields\<close>

record quant_indices =
  qi_y_ac_qi :: "u8"
  qi_y_dc :: "int option"
  qi_y2_dc :: "int option"
  qi_y2_ac :: "int option"
  qi_uv_dc :: "int option"
  qi_uv_ac :: "int option"

definition enc_quant_indices :: "quant_indices \<Rightarrow> writer" where
  "enc_quant_indices h =
     enc_seq
       [enc_unsigned 7 (qi_y_ac_qi h),
        enc_flagged (enc_signed 4) 128 (qi_y_dc h),
        enc_flagged (enc_signed 4) 128 (qi_y2_dc h),
        enc_flagged (enc_signed 4) 128 (qi_y2_ac h),
        enc_flagged (enc_signed 4) 128 (qi_uv_dc h),
        enc_flagged (enc_signed 4) 128 (qi_uv_ac h)]"

definition dec_quant_indices :: "quant_indices reader" where
  "dec_quant_indices d =
     do {
       (y_ac_qi, d) \<leftarrow> dec_unsigned 7 d;
       (y_dc, d) \<leftarrow> dec_flagged (dec_signed 4) 128 d;
       (y2_dc, d) \<leftarrow> dec_flagged (dec_signed 4) 128 d;
       (y2_ac, d) \<leftarrow> dec_flagged (dec_signed 4) 128 d;
       (uv_dc, d) \<leftarrow> dec_flagged (dec_signed 4) 128 d;
       (uv_ac, d) \<leftarrow> dec_flagged (dec_signed 4) 128 d;
       Some (\<lparr>qi_y_ac_qi = y_ac_qi,
              qi_y_dc = y_dc,
              qi_y2_dc = y2_dc,
              qi_y2_ac = y2_ac,
              qi_uv_dc = uv_dc,
              qi_uv_ac = uv_ac\<rparr>, d)
     }"

definition quant_indices_ok :: "quant_indices \<Rightarrow> bool" where
  "quant_indices_ok h \<longleftrightarrow>
     unsigned_ok 7 (qi_y_ac_qi h) \<and>
     ok_option (signed_ok 4) (qi_y_dc h) \<and>
     ok_option (signed_ok 4) (qi_y2_dc h) \<and>
     ok_option (signed_ok 4) (qi_y2_ac h) \<and>
     ok_option (signed_ok 4) (qi_uv_dc h) \<and>
     ok_option (signed_ok 4) (qi_uv_ac h)"

record mode_ref_lf_delta_update =
  ru_ref_update :: "int option list"
  ru_mode_update :: "int option list"

definition enc_mode_ref_lf_delta_update :: "mode_ref_lf_delta_update \<Rightarrow> writer" where
  "enc_mode_ref_lf_delta_update h =
     enc_seq
       [enc_array (enc_flagged (enc_signed 6) 128) (ru_ref_update h),
        enc_array (enc_flagged (enc_signed 6) 128) (ru_mode_update h)]"

definition dec_mode_ref_lf_delta_update :: "mode_ref_lf_delta_update reader" where
  "dec_mode_ref_lf_delta_update d =
     do {
       (ref_update, d) \<leftarrow> dec_array (dec_flagged (dec_signed 6) 128) 4 d;
       (mode_update, d) \<leftarrow> dec_array (dec_flagged (dec_signed 6) 128) 4 d;
       Some (\<lparr>ru_ref_update = ref_update,
              ru_mode_update = mode_update\<rparr>, d)
     }"

definition mode_ref_lf_delta_update_ok :: "mode_ref_lf_delta_update \<Rightarrow> bool" where
  "mode_ref_lf_delta_update_ok h \<longleftrightarrow>
     ok_array (ok_option (signed_ok 6)) 4 (ru_ref_update h) \<and>
     ok_array (ok_option (signed_ok 6)) 4 (ru_mode_update h)"

record segment_feature_data =
  sf_segment_feature_mode :: "bool"
  sf_quantizer_update :: "int option list"
  sf_loop_filter_update :: "int option list"

definition enc_segment_feature_data :: "segment_feature_data \<Rightarrow> writer" where
  "enc_segment_feature_data h =
     enc_seq
       [enc_flag (sf_segment_feature_mode h),
        enc_array (enc_flagged (enc_signed 7) 128) (sf_quantizer_update h),
        enc_array (enc_flagged (enc_signed 6) 128) (sf_loop_filter_update h)]"

definition dec_segment_feature_data :: "segment_feature_data reader" where
  "dec_segment_feature_data d =
     do {
       (segment_feature_mode, d) \<leftarrow> dec_flag d;
       (quantizer_update, d) \<leftarrow> dec_array (dec_flagged (dec_signed 7) 128) 4 d;
       (loop_filter_update, d) \<leftarrow> dec_array (dec_flagged (dec_signed 6) 128) 4 d;
       Some (\<lparr>sf_segment_feature_mode = segment_feature_mode,
              sf_quantizer_update = quantizer_update,
              sf_loop_filter_update = loop_filter_update\<rparr>, d)
     }"

definition segment_feature_data_ok :: "segment_feature_data \<Rightarrow> bool" where
  "segment_feature_data_ok h \<longleftrightarrow>
     ok_array (ok_option (signed_ok 7)) 4 (sf_quantizer_update h) \<and>
     ok_array (ok_option (signed_ok 6)) 4 (sf_loop_filter_update h)"

record update_segmentation =
  us_update_mb_segmentation_map :: "bool"
  us_segment_feature_data :: "segment_feature_data option"
  us_mb_segmentation_map :: "u8 option list option"

definition enc_update_segmentation :: "update_segmentation \<Rightarrow> writer" where
  "enc_update_segmentation h =
     enc_seq
       [enc_flag (us_update_mb_segmentation_map h),
        enc_flagged enc_segment_feature_data 128 (us_segment_feature_data h),
        enc_optional (enc_array (enc_flagged (enc_unsigned 8) 128)) (us_mb_segmentation_map h)]"

definition dec_update_segmentation :: "update_segmentation reader" where
  "dec_update_segmentation d =
     do {
       (update_mb_segmentation_map, d) \<leftarrow> dec_flag d;
       (segment_feature_data, d) \<leftarrow> dec_flagged dec_segment_feature_data 128 d;
       (mb_segmentation_map, d) \<leftarrow> dec_optional (dec_array (dec_flagged (dec_unsigned 8) 128) 3) update_mb_segmentation_map d;
       Some (\<lparr>us_update_mb_segmentation_map = update_mb_segmentation_map,
              us_segment_feature_data = segment_feature_data,
              us_mb_segmentation_map = mb_segmentation_map\<rparr>, d)
     }"

definition update_segmentation_ok :: "update_segmentation \<Rightarrow> bool" where
  "update_segmentation_ok h \<longleftrightarrow>
     ok_option segment_feature_data_ok (us_segment_feature_data h) \<and>
     ok_option (ok_array (ok_option (unsigned_ok 8)) 3) (us_mb_segmentation_map h) \<and>
     (us_mb_segmentation_map h \<noteq> None) = us_update_mb_segmentation_map h"

section \<open>Probability updates\<close>

text \<open>\<open>TokenProbUpdate\<close> and \<open>MVProbUpdate\<close> are an optional value each; its position selects
  the probability its flag is coded with.\<close>

definition enc_token_prob_update :: "nat \<Rightarrow> nat \<Rightarrow> nat \<Rightarrow> nat \<Rightarrow> u8 option \<Rightarrow> writer" where
  "enc_token_prob_update i j k l =
     enc_flagged (enc_unsigned 8) (k_coeff_entropy_update_probs ! i ! j ! k ! l)"

definition dec_token_prob_update :: "nat \<Rightarrow> nat \<Rightarrow> nat \<Rightarrow> nat \<Rightarrow> u8 option reader" where
  "dec_token_prob_update i j k l =
     dec_flagged (dec_unsigned 8) (k_coeff_entropy_update_probs ! i ! j ! k ! l)"

definition enc_token_prob_updates :: "u8 option list list list list \<Rightarrow> writer" where
  "enc_token_prob_updates =
     enc_enumerate (\<lambda>i. enc_enumerate (\<lambda>j. enc_enumerate (\<lambda>k. enc_enumerate
       (\<lambda>l. enc_token_prob_update i j k l))))"

definition dec_token_prob_updates :: "u8 option list list list list reader" where
  "dec_token_prob_updates =
     dec_enumerate (\<lambda>i. dec_enumerate (\<lambda>j. dec_enumerate (\<lambda>k. dec_enumerate
       (\<lambda>l. dec_token_prob_update i j k l) 0 ENTROPY_NODES) 0 PREV_COEF_CONTEXTS)
       0 COEF_BANDS) 0 BLOCK_TYPES"

definition token_prob_updates_ok :: "u8 option list list list list \<Rightarrow> bool" where
  "token_prob_updates_ok =
     ok_array (ok_array (ok_array (ok_array (ok_option (unsigned_ok 8)) ENTROPY_NODES)
       PREV_COEF_CONTEXTS) COEF_BANDS) BLOCK_TYPES"

definition enc_mv_prob_update :: "nat \<Rightarrow> nat \<Rightarrow> u8 option \<Rightarrow> writer" where
  "enc_mv_prob_update i j = enc_flagged (enc_unsigned 7) (k_mv_entropy_update_probs ! i ! j)"

definition dec_mv_prob_update :: "nat \<Rightarrow> nat \<Rightarrow> u8 option reader" where
  "dec_mv_prob_update i j = dec_flagged (dec_unsigned 7) (k_mv_entropy_update_probs ! i ! j)"

definition enc_mv_prob_updates :: "u8 option list list \<Rightarrow> writer" where
  "enc_mv_prob_updates = enc_enumerate (\<lambda>i. enc_enumerate (\<lambda>j. enc_mv_prob_update i j))"

definition dec_mv_prob_updates :: "u8 option list list reader" where
  "dec_mv_prob_updates =
     dec_enumerate (\<lambda>i. dec_enumerate (\<lambda>j. dec_mv_prob_update i j) 0 MV_PROB_CNT) 0 2"

definition mv_prob_updates_ok :: "u8 option list list \<Rightarrow> bool" where
  "mv_prob_updates_ok = ok_array (ok_array (ok_option (unsigned_ok 7)) MV_PROB_CNT) 2"

text \<open>The seven-bit form of a motion-vector probability: what \<open>MVProbUpdate::get\<close> reads and
  what its constructor accepts.\<close>

definition read_half_prob :: "u8 \<Rightarrow> u8" where
  "read_half_prob half_prob = (if half_prob \<noteq> 0 then push_bit 1 half_prob else 1)"

definition write_prob :: "u8 \<Rightarrow> u8" where
  "write_prob prob = drop_bit 1 prob"

definition is_settable_value :: "u8 \<Rightarrow> bool" where
  "is_settable_value prob \<longleftrightarrow> prob = read_half_prob (write_prob prob)"

definition mv_prob_update_of :: "bool \<Rightarrow> u8 \<Rightarrow> u8 option result" where
  "mv_prob_update_of initialized x =
     (if initialized \<and> read_half_prob (write_prob x) \<noteq> x then Inl Invalid
      else Inr (if initialized then Some (write_prob x) else None))"


section \<open>Headers\<close>

record key_frame_header =
  kh_color_space :: "bool"
  kh_clamping_type :: "bool"
  kh_update_segmentation :: "update_segmentation option"
  kh_filter_type :: "bool"
  kh_loop_filter_level :: "u8"
  kh_sharpness_level :: "u8"
  kh_mode_lf_adjustments :: "mode_ref_lf_delta_update option option"
  kh_log2_number_of_dct_partitions :: "u8"
  kh_quant_indices :: "quant_indices"
  kh_refresh_entropy_probs :: "bool"
  kh_token_prob_update :: "u8 option list list list list"
  kh_prob_skip_false :: "u8 option"

definition enc_key_frame_header :: "key_frame_header \<Rightarrow> writer" where
  "enc_key_frame_header h =
     enc_seq
       [enc_flag (kh_color_space h),
        enc_flag (kh_clamping_type h),
        enc_flagged enc_update_segmentation 128 (kh_update_segmentation h),
        enc_flag (kh_filter_type h),
        enc_unsigned 6 (kh_loop_filter_level h),
        enc_unsigned 3 (kh_sharpness_level h),
        enc_flagged (enc_flagged enc_mode_ref_lf_delta_update 128) 128 (kh_mode_lf_adjustments h),
        enc_unsigned 2 (kh_log2_number_of_dct_partitions h),
        enc_quant_indices (kh_quant_indices h),
        enc_flag (kh_refresh_entropy_probs h),
        enc_token_prob_updates (kh_token_prob_update h),
        enc_flagged (enc_unsigned 8) 128 (kh_prob_skip_false h)]"

definition dec_key_frame_header :: "key_frame_header reader" where
  "dec_key_frame_header d =
     do {
       (color_space, d) \<leftarrow> dec_flag d;
       (clamping_type, d) \<leftarrow> dec_flag d;
       (update_segmentation, d) \<leftarrow> dec_flagged dec_update_segmentation 128 d;
       (filter_type, d) \<leftarrow> dec_flag d;
       (loop_filter_level, d) \<leftarrow> dec_unsigned 6 d;
       (sharpness_level, d) \<leftarrow> dec_unsigned 3 d;
       (mode_lf_adjustments, d) \<leftarrow> dec_flagged (dec_flagged dec_mode_ref_lf_delta_update 128) 128 d;
       (log2_number_of_dct_partitions, d) \<leftarrow> dec_unsigned 2 d;
       (quant_indices, d) \<leftarrow> dec_quant_indices d;
       (refresh_entropy_probs, d) \<leftarrow> dec_flag d;
       (token_prob_update, d) \<leftarrow> dec_token_prob_updates d;
       (prob_skip_false, d) \<leftarrow> dec_flagged (dec_unsigned 8) 128 d;
       Some (\<lparr>kh_color_space = color_space,
              kh_clamping_type = clamping_type,
              kh_update_segmentation = update_segmentation,
              kh_filter_type = filter_type,
              kh_loop_filter_level = loop_filter_level,
              kh_sharpness_level = sharpness_level,
              kh_mode_lf_adjustments = mode_lf_adjustments,
              kh_log2_number_of_dct_partitions = log2_number_of_dct_partitions,
              kh_quant_indices = quant_indices,
              kh_refresh_entropy_probs = refresh_entropy_probs,
              kh_token_prob_update = token_prob_update,
              kh_prob_skip_false = prob_skip_false\<rparr>, d)
     }"

definition key_frame_header_ok :: "key_frame_header \<Rightarrow> bool" where
  "key_frame_header_ok h \<longleftrightarrow>
     ok_option update_segmentation_ok (kh_update_segmentation h) \<and>
     unsigned_ok 6 (kh_loop_filter_level h) \<and>
     unsigned_ok 3 (kh_sharpness_level h) \<and>
     ok_option (ok_option mode_ref_lf_delta_update_ok) (kh_mode_lf_adjustments h) \<and>
     unsigned_ok 2 (kh_log2_number_of_dct_partitions h) \<and>
     quant_indices_ok (kh_quant_indices h) \<and>
     token_prob_updates_ok (kh_token_prob_update h) \<and>
     ok_option (unsigned_ok 8) (kh_prob_skip_false h)"

record inter_frame_header =
  ih_update_segmentation :: "update_segmentation option"
  ih_filter_type :: "bool"
  ih_loop_filter_level :: "u8"
  ih_sharpness_level :: "u8"
  ih_mode_lf_adjustments :: "mode_ref_lf_delta_update option option"
  ih_log2_number_of_dct_partitions :: "u8"
  ih_quant_indices :: "quant_indices"
  ih_refresh_golden_frame :: "bool"
  ih_refresh_alternate_frame :: "bool"
  ih_copy_buffer_to_golden :: "u8 option"
  ih_copy_buffer_to_alternate :: "u8 option"
  ih_sign_bias_golden :: "bool"
  ih_sign_bias_alternate :: "bool"
  ih_refresh_entropy_probs :: "bool"
  ih_refresh_last :: "bool"
  ih_token_prob_update :: "u8 option list list list list"
  ih_prob_skip_false :: "u8 option"
  ih_prob_inter :: "u8"
  ih_prob_references_last :: "u8"
  ih_prob_references_golden :: "u8"
  ih_intra_16x16_prob :: "u8 list option"
  ih_intra_chroma_prob :: "u8 list option"
  ih_mv_prob_update :: "u8 option list list"

definition enc_inter_frame_header :: "inter_frame_header \<Rightarrow> writer" where
  "enc_inter_frame_header h =
     enc_seq
       [enc_flagged enc_update_segmentation 128 (ih_update_segmentation h),
        enc_flag (ih_filter_type h),
        enc_unsigned 6 (ih_loop_filter_level h),
        enc_unsigned 3 (ih_sharpness_level h),
        enc_flagged (enc_flagged enc_mode_ref_lf_delta_update 128) 128 (ih_mode_lf_adjustments h),
        enc_unsigned 2 (ih_log2_number_of_dct_partitions h),
        enc_quant_indices (ih_quant_indices h),
        enc_flag (ih_refresh_golden_frame h),
        enc_flag (ih_refresh_alternate_frame h),
        enc_optional (enc_unsigned 2) (ih_copy_buffer_to_golden h),
        enc_optional (enc_unsigned 2) (ih_copy_buffer_to_alternate h),
        enc_flag (ih_sign_bias_golden h),
        enc_flag (ih_sign_bias_alternate h),
        enc_flag (ih_refresh_entropy_probs h),
        enc_flag (ih_refresh_last h),
        enc_token_prob_updates (ih_token_prob_update h),
        enc_flagged (enc_unsigned 8) 128 (ih_prob_skip_false h),
        enc_unsigned 8 (ih_prob_inter h),
        enc_unsigned 8 (ih_prob_references_last h),
        enc_unsigned 8 (ih_prob_references_golden h),
        enc_flagged (enc_array (enc_unsigned 8)) 128 (ih_intra_16x16_prob h),
        enc_flagged (enc_array (enc_unsigned 8)) 128 (ih_intra_chroma_prob h),
        enc_mv_prob_updates (ih_mv_prob_update h)]"

definition dec_inter_frame_header :: "inter_frame_header reader" where
  "dec_inter_frame_header d =
     do {
       (update_segmentation, d) \<leftarrow> dec_flagged dec_update_segmentation 128 d;
       (filter_type, d) \<leftarrow> dec_flag d;
       (loop_filter_level, d) \<leftarrow> dec_unsigned 6 d;
       (sharpness_level, d) \<leftarrow> dec_unsigned 3 d;
       (mode_lf_adjustments, d) \<leftarrow> dec_flagged (dec_flagged dec_mode_ref_lf_delta_update 128) 128 d;
       (log2_number_of_dct_partitions, d) \<leftarrow> dec_unsigned 2 d;
       (quant_indices, d) \<leftarrow> dec_quant_indices d;
       (refresh_golden_frame, d) \<leftarrow> dec_flag d;
       (refresh_alternate_frame, d) \<leftarrow> dec_flag d;
       (copy_buffer_to_golden, d) \<leftarrow> dec_optional (dec_unsigned 2) (\<not> refresh_golden_frame) d;
       (copy_buffer_to_alternate, d) \<leftarrow> dec_optional (dec_unsigned 2) (\<not> refresh_alternate_frame) d;
       (sign_bias_golden, d) \<leftarrow> dec_flag d;
       (sign_bias_alternate, d) \<leftarrow> dec_flag d;
       (refresh_entropy_probs, d) \<leftarrow> dec_flag d;
       (refresh_last, d) \<leftarrow> dec_flag d;
       (token_prob_update, d) \<leftarrow> dec_token_prob_updates d;
       (prob_skip_false, d) \<leftarrow> dec_flagged (dec_unsigned 8) 128 d;
       (prob_inter, d) \<leftarrow> dec_unsigned 8 d;
       (prob_references_last, d) \<leftarrow> dec_unsigned 8 d;
       (prob_references_golden, d) \<leftarrow> dec_unsigned 8 d;
       (intra_16x16_prob, d) \<leftarrow> dec_flagged (dec_array (dec_unsigned 8) 4) 128 d;
       (intra_chroma_prob, d) \<leftarrow> dec_flagged (dec_array (dec_unsigned 8) 3) 128 d;
       (mv_prob_update, d) \<leftarrow> dec_mv_prob_updates d;
       Some (\<lparr>ih_update_segmentation = update_segmentation,
              ih_filter_type = filter_type,
              ih_loop_filter_level = loop_filter_level,
              ih_sharpness_level = sharpness_level,
              ih_mode_lf_adjustments = mode_lf_adjustments,
              ih_log2_number_of_dct_partitions = log2_number_of_dct_partitions,
              ih_quant_indices = quant_indices,
              ih_refresh_golden_frame = refresh_golden_frame,
              ih_refresh_alternate_frame = refresh_alternate_frame,
              ih_copy_buffer_to_golden = copy_buffer_to_golden,
              ih_copy_buffer_to_alternate = copy_buffer_to_alternate,
              ih_sign_bias_golden = sign_bias_golden,
              ih_sign_bias_alternate = sign_bias_alternate,
              ih_refresh_entropy_probs = refresh_entropy_probs,
              ih_refresh_last = refresh_last,
              ih_token_prob_update = token_prob_update,
              ih_prob_skip_false = prob_skip_false,
              ih_prob_inter = prob_inter,
              ih_prob_references_last = prob_references_last,
              ih_prob_references_golden = prob_references_golden,
              ih_intra_16x16_prob = intra_16x16_prob,
              ih_intra_chroma_prob = intra_chroma_prob,
              ih_mv_prob_update = mv_prob_update\<rparr>, d)
     }"

definition inter_frame_header_ok :: "inter_frame_header \<Rightarrow> bool" where
  "inter_frame_header_ok h \<longleftrightarrow>
     ok_option update_segmentation_ok (ih_update_segmentation h) \<and>
     unsigned_ok 6 (ih_loop_filter_level h) \<and>
     unsigned_ok 3 (ih_sharpness_level h) \<and>
     ok_option (ok_option mode_ref_lf_delta_update_ok) (ih_mode_lf_adjustments h) \<and>
     unsigned_ok 2 (ih_log2_number_of_dct_partitions h) \<and>
     quant_indices_ok (ih_quant_indices h) \<and>
     ok_option (unsigned_ok 2) (ih_copy_buffer_to_golden h) \<and> (ih_copy_buffer_to_golden h \<noteq> None) = (\<not> ih_refresh_golden_frame h) \<and>
     ok_option (unsigned_ok 2) (ih_copy_buffer_to_alternate h) \<and> (ih_copy_buffer_to_alternate h \<noteq> None) = (\<not> ih_refresh_alternate_frame h) \<and>
     token_prob_updates_ok (ih_token_prob_update h) \<and>
     ok_option (unsigned_ok 8) (ih_prob_skip_false h) \<and>
     ok_option (ok_array (unsigned_ok 8) 4) (ih_intra_16x16_prob h) \<and>
     ok_option (ok_array (unsigned_ok 8) 3) (ih_intra_chroma_prob h) \<and>
     mv_prob_updates_ok (ih_mv_prob_update h)"

text \<open>The constructors: read every field, then refuse what the decoder does not support.\<close>

definition key_frame_header_supported :: "key_frame_header \<Rightarrow> unit result" where
  "key_frame_header_supported h =
     (if kh_color_space h \<or> kh_clamping_type h then Inl Unsupported
      else if kh_filter_type h then Inl Unsupported
      else Inr ())"

definition read_key_frame_header :: "bool_decoder \<Rightarrow> (key_frame_header \<times> bool_decoder) result" where
  "read_key_frame_header d =
     (case dec_key_frame_header d of
        None \<Rightarrow> Inl Undefined
      | Some (h, d') \<Rightarrow> bind_result (key_frame_header_supported h) (\<lambda>_. Inr (h, d')))"

definition inter_frame_header_supported :: "inter_frame_header \<Rightarrow> unit result" where
  "inter_frame_header_supported h = (if ih_filter_type h then Inl Unsupported else Inr ())"

definition read_inter_frame_header :: "bool_decoder \<Rightarrow> (inter_frame_header \<times> bool_decoder) result" where
  "read_inter_frame_header d =
     (case dec_inter_frame_header d of
        None \<Rightarrow> Inl Undefined
      | Some (h, d') \<Rightarrow> bind_result (inter_frame_header_supported h) (\<lambda>_. Inr (h, d')))"

text \<open>The equality operator of \<open>KeyFrameHeader\<close> compares every field but
  \<open>refresh_entropy_probs\<close>.\<close>

definition key_frame_header_eq :: "key_frame_header \<Rightarrow> key_frame_header \<Rightarrow> bool" where
  "key_frame_header_eq a b \<longleftrightarrow>
     kh_color_space a = kh_color_space b \<and>
     kh_clamping_type a = kh_clamping_type b \<and>
     kh_update_segmentation a = kh_update_segmentation b \<and>
     kh_filter_type a = kh_filter_type b \<and>
     kh_loop_filter_level a = kh_loop_filter_level b \<and>
     kh_sharpness_level a = kh_sharpness_level b \<and>
     kh_mode_lf_adjustments a = kh_mode_lf_adjustments b \<and>
     kh_log2_number_of_dct_partitions a = kh_log2_number_of_dct_partitions b \<and>
     kh_quant_indices a = kh_quant_indices b \<and>
     kh_token_prob_update a = kh_token_prob_update b \<and>
     kh_prob_skip_false a = kh_prob_skip_false b"


section \<open>The contracts\<close>

named_theorems codec_intro and total_intro

text \<open>The fields: flagged scalars and their arrays.\<close>

interpretation flagged_signed4: bit_codec "enc_flagged (enc_signed 4) 128"
  "dec_flagged (dec_signed 4) 128" "ok_option (signed_ok 4)"
  by (rule signed4.flagged)
interpretation flagged_signed6: bit_codec "enc_flagged (enc_signed 6) 128"
  "dec_flagged (dec_signed 6) 128" "ok_option (signed_ok 6)"
  by (rule signed6.flagged)
interpretation flagged_signed7: bit_codec "enc_flagged (enc_signed 7) 128"
  "dec_flagged (dec_signed 7) 128" "ok_option (signed_ok 7)"
  by (rule signed7.flagged)
interpretation flagged_unsigned8: bit_codec "enc_flagged (enc_unsigned 8) 128"
  "dec_flagged (dec_unsigned 8) 128" "ok_option (unsigned_ok 8)"
  by (rule unsigned8.flagged)
interpretation filter_deltas: bit_codec "enc_array (enc_flagged (enc_signed 6) 128)"
  "dec_array (dec_flagged (dec_signed 6) 128) 4" "ok_array (ok_option (signed_ok 6)) 4"
  by (rule flagged_signed6.array)
interpretation quantizer_updates: bit_codec "enc_array (enc_flagged (enc_signed 7) 128)"
  "dec_array (dec_flagged (dec_signed 7) 128) 4" "ok_array (ok_option (signed_ok 7)) 4"
  by (rule flagged_signed7.array)
interpretation segment_tree_probs: bit_codec "enc_array (enc_flagged (enc_unsigned 8) 128)"
  "dec_array (dec_flagged (dec_unsigned 8) 128) 3" "ok_array (ok_option (unsigned_ok 8)) 3"
  by (rule flagged_unsigned8.array)
interpretation y_mode_probs: bit_codec "enc_flagged (enc_array (enc_unsigned 8)) 128"
  "dec_flagged (dec_array (dec_unsigned 8) 4) 128" "ok_option (ok_array (unsigned_ok 8) 4)"
  by (intro bit_codec.flagged unsigned8.array)
interpretation uv_mode_probs: bit_codec "enc_flagged (enc_array (enc_unsigned 8)) 128"
  "dec_flagged (dec_array (dec_unsigned 8) 3) 128" "ok_option (ok_array (unsigned_ok 8) 3)"
  by (intro bit_codec.flagged unsigned8.array)

interpretation token_prob_updates: bit_codec enc_token_prob_updates dec_token_prob_updates
  token_prob_updates_ok
  unfolding enc_token_prob_updates_def dec_token_prob_updates_def token_prob_updates_ok_def
    enc_token_prob_update_def dec_token_prob_update_def
  by (intro enumerate_codec unsigned8.flagged)

interpretation mv_prob_updates: bit_codec enc_mv_prob_updates dec_mv_prob_updates
  mv_prob_updates_ok
  unfolding enc_mv_prob_updates_def dec_mv_prob_updates_def mv_prob_updates_ok_def
    enc_mv_prob_update_def dec_mv_prob_update_def
  by (intro enumerate_codec unsigned7.flagged)

lemmas [codec_intro] = flag.codec unsigned2.codec unsigned3.codec unsigned6.codec unsigned7.codec
  unsigned8.codec flagged_signed4.codec flagged_unsigned8.codec filter_deltas.codec
  quantizer_updates.codec y_mode_probs.codec uv_mode_probs.codec token_prob_updates.codec
  mv_prob_updates.codec bit_codec.codec [OF segment_tree_probs.optional]
  bit_codec.codec [OF unsigned2.optional]

lemmas [total_intro] = flag.total unsigned2.total unsigned3.total unsigned6.total unsigned7.total
  unsigned8.total flagged_signed4.total flagged_unsigned8.total filter_deltas.total
  quantizer_updates.total y_mode_probs.total uv_mode_probs.total token_prob_updates.total
  mv_prob_updates.total bit_codec.total [OF segment_tree_probs.optional]
  bit_codec.total [OF unsigned2.optional]

text \<open>The structures: each contract is the composition of the contracts of the fields.\<close>

interpretation quant: bit_codec enc_quant_indices dec_quant_indices quant_indices_ok
proof
  show "codes (enc_quant_indices h) dec_quant_indices h" if "quant_indices_ok h" for h
    unfolding enc_quant_indices_def dec_quant_indices_def [abs_def]
    by ((rule codes_step, rule codec_intro, simp add: that [unfolded quant_indices_ok_def] del: not_None_eq)+, rule codes_done, simp)
  show "returns dec_quant_indices quant_indices_ok"
    unfolding dec_quant_indices_def [abs_def]
    by ((rule returns_bind, rule total_intro)+, rule returns_return) (simp add: quant_indices_ok_def del: not_None_eq)
qed

lemmas [codec_intro] = quant.codec
lemmas [total_intro] = quant.total

interpretation lf_delta: bit_codec enc_mode_ref_lf_delta_update dec_mode_ref_lf_delta_update mode_ref_lf_delta_update_ok
proof
  show "codes (enc_mode_ref_lf_delta_update h) dec_mode_ref_lf_delta_update h" if "mode_ref_lf_delta_update_ok h" for h
    unfolding enc_mode_ref_lf_delta_update_def dec_mode_ref_lf_delta_update_def [abs_def]
    by ((rule codes_step, rule codec_intro, simp add: that [unfolded mode_ref_lf_delta_update_ok_def] del: not_None_eq)+, rule codes_done, simp)
  show "returns dec_mode_ref_lf_delta_update mode_ref_lf_delta_update_ok"
    unfolding dec_mode_ref_lf_delta_update_def [abs_def]
    by ((rule returns_bind, rule total_intro)+, rule returns_return) (simp add: mode_ref_lf_delta_update_ok_def del: not_None_eq)
qed

lemmas [codec_intro] = bit_codec.codec [OF bit_codec.flagged [OF lf_delta.flagged]]
lemmas [total_intro] = bit_codec.total [OF bit_codec.flagged [OF lf_delta.flagged]]

interpretation segment_feature: bit_codec enc_segment_feature_data dec_segment_feature_data segment_feature_data_ok
proof
  show "codes (enc_segment_feature_data h) dec_segment_feature_data h" if "segment_feature_data_ok h" for h
    unfolding enc_segment_feature_data_def dec_segment_feature_data_def [abs_def]
    by ((rule codes_step, rule codec_intro, simp add: that [unfolded segment_feature_data_ok_def] del: not_None_eq)+, rule codes_done, simp)
  show "returns dec_segment_feature_data segment_feature_data_ok"
    unfolding dec_segment_feature_data_def [abs_def]
    by ((rule returns_bind, rule total_intro)+, rule returns_return) (simp add: segment_feature_data_ok_def del: not_None_eq)
qed

lemmas [codec_intro] = bit_codec.codec [OF segment_feature.flagged]
lemmas [total_intro] = bit_codec.total [OF segment_feature.flagged]

interpretation segmentation: bit_codec enc_update_segmentation dec_update_segmentation update_segmentation_ok
proof
  show "codes (enc_update_segmentation h) dec_update_segmentation h" if "update_segmentation_ok h" for h
    unfolding enc_update_segmentation_def dec_update_segmentation_def [abs_def]
    by ((rule codes_step, rule codec_intro, simp add: that [unfolded update_segmentation_ok_def] del: not_None_eq)+, rule codes_done, simp)
  show "returns dec_update_segmentation update_segmentation_ok"
    unfolding dec_update_segmentation_def [abs_def]
    by ((rule returns_bind, rule total_intro)+, rule returns_return) (simp add: update_segmentation_ok_def del: not_None_eq)
qed

lemmas [codec_intro] = bit_codec.codec [OF segmentation.flagged]
lemmas [total_intro] = bit_codec.total [OF segmentation.flagged]

interpretation key_header: bit_codec enc_key_frame_header dec_key_frame_header key_frame_header_ok
proof
  show "codes (enc_key_frame_header h) dec_key_frame_header h" if "key_frame_header_ok h" for h
    unfolding enc_key_frame_header_def dec_key_frame_header_def [abs_def]
    by ((rule codes_step, rule codec_intro, simp add: that [unfolded key_frame_header_ok_def] del: not_None_eq)+, rule codes_done, simp)
  show "returns dec_key_frame_header key_frame_header_ok"
    unfolding dec_key_frame_header_def [abs_def]
    by ((rule returns_bind, rule total_intro)+, rule returns_return) (simp add: key_frame_header_ok_def del: not_None_eq)
qed

interpretation inter_header: bit_codec enc_inter_frame_header dec_inter_frame_header inter_frame_header_ok
proof
  show "codes (enc_inter_frame_header h) dec_inter_frame_header h" if "inter_frame_header_ok h" for h
    unfolding enc_inter_frame_header_def dec_inter_frame_header_def [abs_def]
    by ((rule codes_step, rule codec_intro, simp add: that [unfolded inter_frame_header_ok_def] del: not_None_eq)+, rule codes_done, simp)
  show "returns dec_inter_frame_header inter_frame_header_ok"
    unfolding dec_inter_frame_header_def [abs_def]
    by ((rule returns_bind, rule total_intro)+, rule returns_return) (simp add: inter_frame_header_ok_def del: not_None_eq)
qed

lemma bit_word8_iff: "bit (w :: u8) n \<longleftrightarrow> odd (unat w div 2 ^ n)"
proof -
  have "bit w n \<longleftrightarrow> bit (unat w) n"
    by (auto simp: bit_unsigned_iff dest: bit_imp_le_length)
  then show ?thesis by (simp add: bit_iff_odd)
qed

lemma key_header_total:
  assumes "bd_ok d"
  obtains h d' where "dec_key_frame_header d = Some (h, d')" and "key_frame_header_ok h" and "bd_ok d'"
  using key_header.total assms unfolding returns_def by metis

lemma inter_header_total:
  assumes "bd_ok d"
  obtains h d' where "dec_inter_frame_header d = Some (h, d')" and "inter_frame_header_ok h" and "bd_ok d'"
    and "bd_complete_chunk d' = bd_complete_chunk d"
  using inter_header.total assms unfolding returns_def by metis

definition no_token_updates :: "u8 option list list list list" where
  "no_token_updates =
     replicate BLOCK_TYPES (replicate COEF_BANDS (replicate PREV_COEF_CONTEXTS (replicate ENTROPY_NODES None)))"

lemma no_token_updates_ok [simp]: "token_prob_updates_ok no_token_updates"
  by (simp add: token_prob_updates_ok_def no_token_updates_def ok_array_def list_all_iff size_defs)

definition no_mv_updates :: "u8 option list list" where
  "no_mv_updates = replicate 2 (replicate MV_PROB_CNT None)"

lemma no_mv_updates_ok [simp]: "mv_prob_updates_ok no_mv_updates"
  by (simp add: mv_prob_updates_ok_def no_mv_updates_def ok_array_def list_all_iff size_defs)

text \<open>A concrete header of each kind.\<close>

definition sample_quant_indices :: quant_indices where
  "sample_quant_indices =
     \<lparr>qi_y_ac_qi = 100, qi_y_dc = Some (- 15), qi_y2_dc = None, qi_y2_ac = Some 7,
      qi_uv_dc = None, qi_uv_ac = None\<rparr>"

definition sample_segmentation :: update_segmentation where
  "sample_segmentation =
     \<lparr>us_update_mb_segmentation_map = True,
      us_segment_feature_data = Some \<lparr>sf_segment_feature_mode = True,
        sf_quantizer_update = [Some 127, None, Some (- 127), Some 1],
        sf_loop_filter_update = [None, Some 63, Some (- 63), None]\<rparr>,
      us_mb_segmentation_map = Some [Some 255, None, Some 0]\<rparr>"

definition sample_key_header :: key_frame_header where
  "sample_key_header =
     \<lparr>kh_color_space = False, kh_clamping_type = False,
      kh_update_segmentation = Some sample_segmentation, kh_filter_type = False,
      kh_loop_filter_level = 63, kh_sharpness_level = 7, kh_mode_lf_adjustments = Some None,
      kh_log2_number_of_dct_partitions = 3, kh_quant_indices = sample_quant_indices,
      kh_refresh_entropy_probs = True, kh_token_prob_update = no_token_updates,
      kh_prob_skip_false = Some 17\<rparr>"

definition sample_inter_header :: inter_frame_header where
  "sample_inter_header =
     \<lparr>ih_update_segmentation = None, ih_filter_type = False,
      ih_loop_filter_level = 12, ih_sharpness_level = 0, ih_mode_lf_adjustments = None,
      ih_log2_number_of_dct_partitions = 0, ih_quant_indices = sample_quant_indices,
      ih_refresh_golden_frame = False, ih_refresh_alternate_frame = True,
      ih_copy_buffer_to_golden = Some 2, ih_copy_buffer_to_alternate = None,
      ih_sign_bias_golden = True, ih_sign_bias_alternate = False,
      ih_refresh_entropy_probs = False, ih_refresh_last = True,
      ih_token_prob_update = no_token_updates, ih_prob_skip_false = None,
      ih_prob_inter = 1, ih_prob_references_last = 2, ih_prob_references_golden = 255,
      ih_intra_16x16_prob = Some [1, 2, 3, 4], ih_intra_chroma_prob = None,
      ih_mv_prob_update = no_mv_updates\<rparr>"

lemmas sample_ok_simps = quant_indices_ok_def update_segmentation_ok_def segment_feature_data_ok_def
  sample_quant_indices_def sample_segmentation_def unsigned_ok_def signed_ok_def ok_array_def

lemma sample_key_header_ok: "key_frame_header_ok sample_key_header"
  by (simp add: key_frame_header_ok_def sample_key_header_def sample_ok_simps)

lemma sample_inter_header_ok: "inter_frame_header_ok sample_inter_header"
  by (simp add: inter_frame_header_ok_def sample_inter_header_def sample_ok_simps)


section \<open>Properties\<close>

text \<open>Every supported key-frame header survives the bitstream: for all field values in
  their ranges (segmentation, quantiser, filter and token-probability updates included), the
  writer succeeds on a fresh encoder, and the header constructor, started on the finished
  bytes, accepts them and yields the same header.\<close>

theorem key_frame_header_roundtrip:
  assumes "key_frame_header_ok h" and "key_frame_header_supported h = Inr ()"
  shows "\<exists>e out d'. enc_key_frame_header h bool_encoder_init = Some e \<and>
    be_finish e = Some (out, bool_encoder_init) \<and>
    read_key_frame_header (bool_decoder_init out complete) = Inr (h, d')"
proof -
  obtain e out d' where "enc_key_frame_header h bool_encoder_init = Some e"
    "be_finish e = Some (out, bool_encoder_init)"
    "dec_key_frame_header (bool_decoder_init out complete) = Some (h, d')"
    using key_header.whole [OF assms(1)] by metis
  then show ?thesis
    using assms(2) by (auto simp: read_key_frame_header_def)
qed

theorem key_frame_header_roundtrip_witness:
  "\<exists>e out d'. enc_key_frame_header sample_key_header bool_encoder_init = Some e \<and>
    be_finish e = Some (out, bool_encoder_init) \<and>
    read_key_frame_header (bool_decoder_init out True) = Inr (sample_key_header, d')"
  by (rule key_frame_header_roundtrip [OF sample_key_header_ok])
    (simp add: key_frame_header_supported_def sample_key_header_def)

text \<open>Every supported inter-frame header survives the bitstream, the fields whose
  presence depends on other fields (the buffer copies) included.\<close>

theorem inter_frame_header_roundtrip:
  assumes "inter_frame_header_ok h" and "inter_frame_header_supported h = Inr ()"
  shows "\<exists>e out d'. enc_inter_frame_header h bool_encoder_init = Some e \<and>
    be_finish e = Some (out, bool_encoder_init) \<and>
    read_inter_frame_header (bool_decoder_init out complete) = Inr (h, d')"
proof -
  obtain e out d' where "enc_inter_frame_header h bool_encoder_init = Some e"
    "be_finish e = Some (out, bool_encoder_init)"
    "dec_inter_frame_header (bool_decoder_init out complete) = Some (h, d')"
    using inter_header.whole [OF assms(1)] by metis
  then show ?thesis
    using assms(2) by (auto simp: read_inter_frame_header_def)
qed

theorem inter_frame_header_roundtrip_witness:
  "\<exists>e out d'. enc_inter_frame_header sample_inter_header bool_encoder_init = Some e \<and>
    be_finish e = Some (out, bool_encoder_init) \<and>
    read_inter_frame_header (bool_decoder_init out True) = Inr (sample_inter_header, d')"
  by (rule inter_frame_header_roundtrip [OF sample_inter_header_ok])
    (simp add: inter_frame_header_supported_def sample_inter_header_def)

text \<open>Parsing a header never gets stuck: on every byte string both header
  constructors either return a header whose fields are all in range and that the decoder
  supports, or throw \<open>Unsupported\<close>; no other failure exists.\<close>

theorem header_parsing_total:
  "(case read_key_frame_header (bool_decoder_init bytes complete) of
      Inl e \<Rightarrow> e = Unsupported
    | Inr (h, d) \<Rightarrow> key_frame_header_ok h \<and> key_frame_header_supported h = Inr () \<and> bd_ok d) \<and>
   (case read_inter_frame_header (bool_decoder_init bytes complete) of
      Inl e \<Rightarrow> e = Unsupported
    | Inr (h, d) \<Rightarrow> inter_frame_header_ok h \<and> inter_frame_header_supported h = Inr () \<and> bd_ok d)"
proof
  obtain h d where k: "dec_key_frame_header (bool_decoder_init bytes complete) = Some (h, d)"
    "key_frame_header_ok h" "bd_ok d"
    using key_header_total [OF bool_decoder_init_ok] by metis
  then show "case read_key_frame_header (bool_decoder_init bytes complete) of
      Inl e \<Rightarrow> e = Unsupported
    | Inr (h, d) \<Rightarrow> key_frame_header_ok h \<and> key_frame_header_supported h = Inr () \<and> bd_ok d"
    by (simp add: read_key_frame_header_def key_frame_header_supported_def)
  obtain h d where "dec_inter_frame_header (bool_decoder_init bytes complete) = Some (h, d)"
    "inter_frame_header_ok h" "bd_ok d"
    using inter_header_total [OF bool_decoder_init_ok] by metis
  then show "case read_inter_frame_header (bool_decoder_init bytes complete) of
      Inl e \<Rightarrow> e = Unsupported
    | Inr (h, d) \<Rightarrow> inter_frame_header_ok h \<and> inter_frame_header_supported h = Inr () \<and> bd_ok d"
    by (simp add: read_inter_frame_header_def inter_frame_header_supported_def)
qed

text \<open>Motion-vector probability updates: the constructor of \<open>MVProbUpdate\<close> accepts a
  probability exactly when its seven-bit form restores it, which is when the probability is
  1 or even and not 0; the value it stores then fits seven bits and reads back as the
  probability.\<close>

theorem mv_prob_update_settable:
  "mv_prob_update_of True x =
     (if is_settable_value x then Inr (Some (write_prob x)) else Inl Invalid) \<and>
   (is_settable_value x \<longleftrightarrow> x = 1 \<or> (even x \<and> x \<noteq> 0)) \<and>
   unsigned_ok 7 (write_prob x)"
proof -
  have half: "unat (write_prob x) = unat x div 2"
    by (simp add: write_prob_def unat_drop_bit)
  have "unat x div 2 < 128"
    by (rule less_mult_imp_div_less) simp
  then have ok: "unsigned_ok 7 (write_prob x)"
    unfolding unsigned_ok_def half by simp
  have "unat x div 2 * 2 \<le> unat x" by simp
  then have "unat x div 2 * 2 < 256" by (rule le_less_trans) simp
  then have twice: "unat (push_bit 1 (write_prob x)) = unat x div 2 * 2"
    using half by (subst unat_push_bit) simp_all
  have dbl: "push_bit 1 (write_prob x) = x \<longleftrightarrow> even (unat x)"
    unfolding word_unat_eq_iff twice by (rule iffI) (metis dvd_triv_right, rule dvd_div_mult_self)
  have zero: "write_prob x = 0 \<longleftrightarrow> unat x = 0 \<or> unat x = 1"
    unfolding word_unat_eq_iff half by auto
  have "is_settable_value x \<longleftrightarrow> (if write_prob x = 0 then x = 1 else even (unat x))"
    unfolding is_settable_value_def read_half_prob_def using dbl by (simp only: if_split) metis
  also have "\<dots> \<longleftrightarrow> unat x = 1 \<or> (even (unat x) \<and> unat x \<noteq> 0)"
    unfolding zero by (auto simp: word_unat_eq_iff)
  finally have settable: "is_settable_value x \<longleftrightarrow> x = 1 \<or> (even (unat x) \<and> x \<noteq> 0)"
    by (simp add: word_unat_eq_iff)
  moreover have "even x \<longleftrightarrow> even (unat x)"
    using bit_word8_iff [of x 0] by (simp add: bit_0)
  ultimately have "is_settable_value x \<longleftrightarrow> x = 1 \<or> (even x \<and> x \<noteq> 0)" by simp
  moreover have "mv_prob_update_of True x = (if is_settable_value x then Inr (Some (write_prob x)) else Inl Invalid)"
    unfolding mv_prob_update_of_def is_settable_value_def by (simp add: eq_commute)
  ultimately show ?thesis
    using ok by blast
qed

text \<open>\<open>KeyFrameHeader::operator==\<close> does not compare \<open>refresh_entropy_probs\<close>: a header
  is equal to the header that differs from it in this field, although the two leave the
  decoder in different states.\<close>

theorem key_frame_header_eq_ignores_refresh:
  "key_frame_header_eq h (h\<lparr>kh_refresh_entropy_probs := \<not> kh_refresh_entropy_probs h\<rparr>) \<and>
   h\<lparr>kh_refresh_entropy_probs := \<not> kh_refresh_entropy_probs h\<rparr> \<noteq> h"
proof
  show "h\<lparr>kh_refresh_entropy_probs := \<not> kh_refresh_entropy_probs h\<rparr> \<noteq> h"
    by (metis key_frame_header.select_convs(10) key_frame_header.surjective
        key_frame_header.update_convs(10))
qed (simp add: key_frame_header_eq_def)

end
