(* ===== verification/Rate_Monax.thy ===== *)
theory Rate_Monax
  imports Complex_Main Prelude
begin

text \<open>
  The congestion controller \<open>Monax\<close> (src/src/net/monax.cc and monax.hh): windows of measurements, a pool of
  online-learned models that predict whether to speed up, the aggregation of their predictions, and the period
  between packets that results.  Its arithmetic is that of the machine's \<open>double\<close> and \<open>float\<close>; the operations it
  uses of them are collected in a record that every definition takes, so that the theorems hold whatever the
  machine rounds to; \<open>ieee\<close> states what some of them assume of it.  A conversion to \<open>int\<close> that the standard leaves
  undefined yields \<open>None\<close>.  The values of \<open>rand()\<close> are arguments.  Reading or writing a vector outside its elements
  and a sum that no \<open>int\<close> holds are \<open>Undefined\<close>.  The lemmas keep the lengths of the histories, the bits in them and
  the step sizes in an invariant, and find the two ways in which an update leaves the language.
\<close>

section \<open>Arithmetic and vectors\<close>

record 'f doubles =
  fl_lit :: "int \<Rightarrow> int \<Rightarrow> 'f"
  fl_of_int :: "int \<Rightarrow> 'f"
  fl_to_int :: "'f \<Rightarrow> int option"
  fl_single :: "'f \<Rightarrow> 'f"
  fl_add :: "'f \<Rightarrow> 'f \<Rightarrow> 'f"
  fl_sub :: "'f \<Rightarrow> 'f \<Rightarrow> 'f"
  fl_mul :: "'f \<Rightarrow> 'f \<Rightarrow> 'f"
  fl_div :: "'f \<Rightarrow> 'f \<Rightarrow> 'f"
  fl_less :: "'f \<Rightarrow> 'f \<Rightarrow> bool"
  fl_eq :: "'f \<Rightarrow> 'f \<Rightarrow> bool"
  fl_sqrt :: "'f \<Rightarrow> 'f"
  fl_exp :: "'f \<Rightarrow> 'f"
  fl_square :: "'f \<Rightarrow> 'f"
  fl_abs :: "'f \<Rightarrow> 'f"

definition fl_max :: "'f doubles \<Rightarrow> 'f \<Rightarrow> 'f \<Rightarrow> 'f" where
  "fl_max fl a b = (if fl_less fl a b then b else a)"

definition fl_min :: "'f doubles \<Rightarrow> 'f \<Rightarrow> 'f \<Rightarrow> 'f" where
  "fl_min fl a b = (if fl_less fl b a then b else a)"

definition read_at :: "'a list \<Rightarrow> nat \<Rightarrow> 'a result" where
  "read_at xs i = (if i < length xs then Inr (xs ! i) else Inl Undefined)"

text \<open>The numbers an \<open>int\<close> of 32 bits holds.  A sum outside them is undefined.\<close>

definition fits_int :: "int \<Rightarrow> bool" where
  "fits_int n \<longleftrightarrow> - (2 ^ 31) \<le> n \<and> n < 2 ^ 31"

definition int_sum :: "int \<Rightarrow> int result" where
  "int_sum n = (if fits_int n then Inr n else Inl Undefined)"

text \<open>\<open>*( v.end() - k )\<close>, which is also \<open>v[ v.size() - k ]\<close>.\<close>

definition from_end :: "nat \<Rightarrow> 'a list \<Rightarrow> 'a result" where
  "from_end k xs = (if k \<le> length xs then read_at xs (length xs - k) else Inl Undefined)"

definition write_at :: "'a list \<Rightarrow> nat \<Rightarrow> 'a \<Rightarrow> 'a list result" where
  "write_at xs i x = (if i < length xs then Inr (xs[i := x]) else Inl Undefined)"

primrec fold_result :: "('a \<Rightarrow> 's \<Rightarrow> 's result) \<Rightarrow> 'a list \<Rightarrow> 's \<Rightarrow> 's result" where
  "fold_result f [] s = Inr s"
| "fold_result f (x # xs) s = bind_result (f x s) (fold_result f xs)"

text \<open>A window that forgets its oldest element.\<close>

definition push_window :: "nat \<Rightarrow> 'a \<Rightarrow> 'a list \<Rightarrow> 'a list" where
  "push_window n x xs = (if length xs < n then xs @ [x] else tl xs @ [x])"


section \<open>State\<close>

definition SAVEUTILITY :: nat where "SAVEUTILITY = 20"

definition SAVEHISTORY :: nat where "SAVEHISTORY = 100"

definition RTT_THRESHOLD :: int where "RTT_THRESHOLD = 30"

definition MONITOR_LEN :: nat where "MONITOR_LEN = 10"

definition INTERVAL_MIN :: int where "INTERVAL_MIN = 10"

definition INTERVAL_MAX :: int where "INTERVAL_MAX = 2000"

record 'f ftrl =
  fm_zs :: "'f list"
  fm_ns :: "'f list"
  fm_weights :: "'f list"

record 'f monitor =
  mo_network_delay :: "'f list"
  mo_send_period :: "'f list"
  mo_delivery_rate :: "'f list"
  mo_inflight_size :: "'f list"
  mo_cwnd :: "'f list"

record 'f monax =
  mx_send_period :: int
  mx_loss_flag :: bool
  mx_current_utility :: "'f option"
  mx_input_dim :: nat
  mx_current_cwnd :: int
  mx_alpha :: 'f
  mx_beta :: 'f
  mx_lambda1 :: 'f
  mx_lambda2 :: 'f
  mx_model_num :: nat
  mx_current_model :: nat
  mx_model_pool :: "'f ftrl list"
  mx_utility_record :: "'f list"
  mx_history_prediction :: "int list"
  mx_history_decision :: "int list"
  mx_history_label :: "int list"
  mx_speedup_step :: int
  mx_slowdown_step :: int
  mx_speedup_step_change_rate :: int
  mx_slowdown_step_change_rate :: int
  mx_stepsize_max :: int
  mx_stepsize_min :: int
  mx_intervention_prob :: int
  mx_accuracy :: int
  mx_used_model :: nat
  mx_model_accuracy :: "'f list"
  mx_model_history_prediction :: "int list list"
  mx_monitor :: "'f monitor"
  mx_coldstart :: bool

definition new_monax :: "'f doubles \<Rightarrow> nat \<Rightarrow> 'f \<Rightarrow> 'f \<Rightarrow> 'f \<Rightarrow> 'f \<Rightarrow> int \<Rightarrow> int \<Rightarrow> 'f monax" where
  "new_monax fl input_dim alpha beta lambda1 lambda2 initial_cwnd initial_interval =
     (let zeros = replicate (input_dim + 1) (fl_of_int fl 0);
          model = \<lparr>fm_zs = zeros, fm_ns = zeros, fm_weights = zeros\<rparr> in
      \<lparr>mx_send_period = initial_interval, mx_loss_flag = False, mx_current_utility = None, mx_input_dim = input_dim,
       mx_current_cwnd = initial_cwnd, mx_alpha = alpha, mx_beta = beta, mx_lambda1 = lambda1, mx_lambda2 = lambda2,
       mx_model_num = 8, mx_current_model = 0, mx_model_pool = replicate 8 model, mx_utility_record = [],
       mx_history_prediction = [], mx_history_decision = [], mx_history_label = [],
       mx_speedup_step = 100, mx_slowdown_step = 100, mx_speedup_step_change_rate = 50,
       mx_slowdown_step_change_rate = 50, mx_stepsize_max = 300, mx_stepsize_min = 50,
       mx_intervention_prob = 0, mx_accuracy = 1, mx_used_model = 0, mx_model_accuracy = [],
       mx_model_history_prediction = replicate 8 [],
       mx_monitor = \<lparr>mo_network_delay = [], mo_send_period = [], mo_delivery_rate = [], mo_inflight_size = [], mo_cwnd = []\<rparr>,
       mx_coldstart = True\<rparr>)"

definition set_real_rtt :: "'f \<Rightarrow> 'f monax \<Rightarrow> 'f monax" where
  "set_real_rtt x mx = mx\<lparr>mx_monitor := (mx_monitor mx)
     \<lparr>mo_network_delay := push_window MONITOR_LEN x (mo_network_delay (mx_monitor mx))\<rparr>\<rparr>"

definition set_flight_size :: "'f doubles \<Rightarrow> int \<Rightarrow> 'f monax \<Rightarrow> 'f monax" where
  "set_flight_size fl x mx = mx\<lparr>mx_monitor := (mx_monitor mx)
     \<lparr>mo_inflight_size := push_window MONITOR_LEN (fl_of_int fl x) (mo_inflight_size (mx_monitor mx))\<rparr>\<rparr>"

definition set_delivery_rate :: "'f \<Rightarrow> 'f monax \<Rightarrow> 'f monax" where
  "set_delivery_rate x mx = mx\<lparr>mx_monitor := (mx_monitor mx)
     \<lparr>mo_delivery_rate := push_window MONITOR_LEN x (mo_delivery_rate (mx_monitor mx))\<rparr>\<rparr>"

definition set_snd_period :: "'f doubles \<Rightarrow> int \<Rightarrow> 'f monax \<Rightarrow> 'f monax" where
  "set_snd_period fl x mx = mx\<lparr>mx_send_period := x, mx_monitor := (mx_monitor mx)
     \<lparr>mo_send_period := push_window MONITOR_LEN (fl_of_int fl x) (mo_send_period (mx_monitor mx))\<rparr>\<rparr>"

definition set_wnd_size :: "'f doubles \<Rightarrow> int \<Rightarrow> 'f monax \<Rightarrow> 'f monax" where
  "set_wnd_size fl x mx = mx\<lparr>mx_current_cwnd := x, mx_monitor := (mx_monitor mx)
     \<lparr>mo_cwnd := push_window MONITOR_LEN (fl_of_int fl x) (mo_cwnd (mx_monitor mx))\<rparr>\<rparr>"

definition set_loss_status :: "bool \<Rightarrow> 'f monax \<Rightarrow> 'f monax" where
  "set_loss_status x mx = mx\<lparr>mx_loss_flag := x\<rparr>"


section \<open>Learning\<close>

definition non_zero_index :: "'f doubles \<Rightarrow> 'f list \<Rightarrow> nat list" where
  "non_zero_index fl sample = filter (\<lambda>i. \<not> fl_eq fl (sample ! i) (fl_of_int fl 0)) [0..<length sample]"

text \<open>The number of predictions decides how many labels are read.\<close>

definition check_accuracy :: "'f doubles \<Rightarrow> int list \<Rightarrow> int list \<Rightarrow> 'f result" where
  "check_accuracy fl prediction label =
     bind_result (fold_result (\<lambda>i n. bind_result (read_at label i) (\<lambda>l. Inr (if prediction ! i = l then n + 1 else n)))
       [0..<length prediction] 0) (\<lambda>n.
     Inr (fl_div fl (fl_of_int fl n) (fl_of_int fl (int (length prediction)))))"

definition logistic :: "'f doubles \<Rightarrow> 'f \<Rightarrow> 'f" where
  "logistic fl var =
     (let var = fl_max fl (fl_min fl var (fl_lit fl 100 1)) (fl_lit fl (- 100) 1) in
      fl_div fl (fl_lit fl 1 1) (fl_add fl (fl_of_int fl 1) (fl_exp fl (fl_sub fl (fl_lit fl 0 1) var))))"

definition predict :: "'f doubles \<Rightarrow> 'f list \<Rightarrow> 'f list \<Rightarrow> (int \<times> 'f) result" where
  "predict fl sample weights =
     bind_result (fold_result (\<lambda>i s. bind_result (read_at weights i) (\<lambda>w. Inr (fl_add fl s (fl_mul fl (sample ! i) w))))
       [0..<length sample] (fl_of_int fl 0)) (\<lambda>product.
     bind_result (from_end 1 weights) (\<lambda>bias.
     let raw_output = logistic fl (fl_add fl product bias) in
     Inr (if fl_less fl (fl_lit fl 1 2) raw_output then 1 else 0, raw_output)))"

definition utility_function :: "'f doubles \<Rightarrow> 'f list \<Rightarrow> 'f result" where
  "utility_function fl sample =
     bind_result (read_at sample 0) (\<lambda>rate.
     bind_result (read_at sample 1) (\<lambda>delay.
     bind_result (read_at sample 2) (\<lambda>g1.
     bind_result (read_at sample 3) (\<lambda>g2.
     bind_result (read_at sample 4) (\<lambda>g3.
     let weight = fl_lit fl 8 10; step = fl_lit fl 1 100;
         weight = (if fl_less fl (fl_sub fl delay (fl_of_int fl RTT_THRESHOLD)) (fl_of_int fl (- 10)) \<and>
                      fl_less fl weight (fl_add fl (fl_lit fl 9 10) step) then fl_add fl weight step else weight);
         gradients = fl_sub fl (fl_sub fl (fl_mul fl (fl_of_int fl (- 1)) g3) (fl_mul fl (fl_lit fl 8 10) g2))
                       (fl_mul fl (fl_lit fl 1 2) g1) in
     Inr (fl_add fl gradients (fl_mul fl rate weight)))))))"

text \<open>The weight of a coordinate in the follow-the-regularised-leader algorithm.\<close>

definition coordinate_weight :: "'f doubles \<Rightarrow> 'f monax \<Rightarrow> 'f \<Rightarrow> 'f \<Rightarrow> 'f" where
  "coordinate_weight fl mx z n =
     (let zero = fl_of_int fl 0 in
      if fl_less fl (mx_lambda1 mx) (fl_abs fl z) then
        (let fore = fl_add fl (fl_add fl (mx_beta mx) (fl_div fl (fl_sqrt fl n) (mx_alpha mx))) (mx_lambda2 mx);
             sign = (if fl_less fl zero z then 1 else 0) - (if fl_less fl z zero then 1 else 0) in
         fl_mul fl (fl_div fl (fl_lit fl (- 1) 1) fore) (fl_sub fl z (fl_mul fl (fl_of_int fl sign) (mx_lambda1 mx))))
      else fl_lit fl 0 1)"

definition refresh_weight :: "'f doubles \<Rightarrow> 'f monax \<Rightarrow> nat \<Rightarrow> 'f ftrl \<Rightarrow> 'f ftrl result" where
  "refresh_weight fl mx i md =
     bind_result (read_at (fm_zs md) i) (\<lambda>z.
     bind_result (read_at (fm_ns md) i) (\<lambda>n.
     bind_result (write_at (fm_weights md) i (coordinate_weight fl mx z n)) (\<lambda>ws.
     Inr (md\<lparr>fm_weights := ws\<rparr>))))"

definition learn_coordinate :: "'f doubles \<Rightarrow> 'f \<Rightarrow> nat \<Rightarrow> 'f \<Rightarrow> 'f ftrl \<Rightarrow> 'f ftrl result" where
  "learn_coordinate fl alpha i gradient md =
     bind_result (read_at (fm_zs md) i) (\<lambda>z.
     bind_result (read_at (fm_ns md) i) (\<lambda>n.
     bind_result (read_at (fm_weights md) i) (\<lambda>w.
     let squared = fl_square fl gradient;
         sigma = fl_div fl (fl_sub fl (fl_sqrt fl (fl_add fl n squared)) (fl_sqrt fl n)) alpha in
     bind_result (write_at (fm_zs md) i (fl_add fl z (fl_sub fl gradient (fl_mul fl sigma w)))) (\<lambda>zs.
     bind_result (write_at (fm_ns md) i (fl_add fl n squared)) (\<lambda>ns.
     Inr (md\<lparr>fm_zs := zs, fm_ns := ns\<rparr>))))))"

definition learn :: "'f doubles \<Rightarrow> 'f list \<Rightarrow> 'f monax \<Rightarrow> 'f monax result" where
  "learn fl sample mx =
     bind_result (read_at (mx_model_pool mx) (mx_current_model mx)) (\<lambda>md.
     let nonzero = non_zero_index fl sample; input_dim = mx_input_dim mx in
     bind_result (fold_result (refresh_weight fl mx) (input_dim # nonzero) md) (\<lambda>md.
     bind_result (read_at (mx_model_history_prediction mx) (mx_current_model mx)) (\<lambda>predictions.
     bind_result (from_end 1 predictions) (\<lambda>p.
     bind_result (from_end 1 (mx_history_label mx)) (\<lambda>l.
     let base_grad = fl_of_int fl (p - l) in
     bind_result (fold_result (\<lambda>i. learn_coordinate fl (mx_alpha mx) i (fl_mul fl base_grad (sample ! i))) nonzero md) (\<lambda>md.
     bind_result (learn_coordinate fl (mx_alpha mx) input_dim base_grad md) (\<lambda>md.
     Inr (mx\<lparr>mx_model_pool := (mx_model_pool mx)[mx_current_model mx := md]\<rparr>))))))))"


section \<open>A decision\<close>

text \<open>What the last decision was worth: the first time there is none.\<close>

definition label_history :: "'f doubles \<Rightarrow> 'f \<Rightarrow> 'f monax \<Rightarrow> 'f monax result" where
  "label_history fl utility mx =
     (if mx_coldstart mx then
        bind_result (read_at (mx_model_history_prediction mx) (mx_current_model mx)) (\<lambda>predictions.
        Inr (mx\<lparr>mx_history_label := mx_history_label mx @ [0],
                 mx_utility_record := mx_utility_record mx @ [fl_of_int fl 0, fl_of_int fl 0],
                 mx_model_history_prediction := (mx_model_history_prediction mx)[mx_current_model mx := predictions @ [0]],
                 mx_history_prediction := mx_history_prediction mx @ [0],
                 mx_history_decision := mx_history_decision mx @ [0], mx_coldstart := False\<rparr>))
      else
        bind_result (from_end 1 (mx_utility_record mx)) (\<lambda>last_utility.
        bind_result (from_end 1 (mx_history_decision mx)) (\<lambda>last_decision.
        let label = (if fl_less fl (fl_of_int fl 0) (fl_sub fl utility last_utility) then last_decision else 1 - last_decision) in
        Inr (mx\<lparr>mx_history_label := push_window SAVEHISTORY label (mx_history_label mx),
                 mx_utility_record := push_window SAVEUTILITY utility (mx_utility_record mx)\<rparr>))))"

definition sum_from :: "nat \<Rightarrow> int list \<Rightarrow> int result" where
  "sum_from i xs =
     bind_result (read_at xs i) (\<lambda>a. bind_result (read_at xs (i + 1)) (\<lambda>b.
     bind_result (read_at xs (i + 2)) (\<lambda>c. bind_result (read_at xs (i + 3)) (\<lambda>d. Inr (a + b + c + d)))))"

definition scaled_step :: "'f doubles \<Rightarrow> int \<Rightarrow> int \<Rightarrow> int \<Rightarrow> int \<Rightarrow> int \<Rightarrow> int result" where
  "scaled_step fl stepsize_min stepsize_max step predicted labelled =
     (let confidence = fl_div fl (fl_of_int fl predicted) (fl_of_int fl labelled) in
      case fl_to_int fl (fl_mul fl (fl_of_int fl step) (fl_add fl (fl_lit fl 1 2) confidence)) of
        None \<Rightarrow> Inl Undefined
      | Some n \<Rightarrow> Inr (max (min stepsize_max n) stepsize_min))"

definition modify_steps :: "'f doubles \<Rightarrow> 'f monax \<Rightarrow> 'f monax result" where
  "modify_steps fl mx =
     (let temp_size = length (mx_history_label mx) in
      if temp_size > 3 then
        bind_result (sum_from (temp_size - 4) (mx_history_prediction mx)) (\<lambda>speedup_pred.
        bind_result (sum_from (temp_size - 4) (mx_history_label mx)) (\<lambda>speedup_label.
        bind_result (scaled_step fl (mx_stepsize_min mx) (mx_stepsize_max mx) (mx_speedup_step mx) speedup_pred speedup_label) (\<lambda>up.
        bind_result (scaled_step fl (mx_stepsize_min mx) (mx_stepsize_max mx) (mx_slowdown_step mx)
          (4 - speedup_pred) (4 - speedup_label)) (\<lambda>down.
        Inr (mx\<lparr>mx_speedup_step := up, mx_slowdown_step := down\<rparr>)))))
      else Inr mx)"

text \<open>Every model predicts; the prediction of the current one counts.\<close>

definition predict_model :: "'f doubles \<Rightarrow> 'f list \<Rightarrow> nat \<Rightarrow> 'f \<times> 'f monax \<Rightarrow> ('f \<times> 'f monax) result" where
  "predict_model fl sample i = (\<lambda>(prob, mx).
     bind_result (read_at (mx_model_pool mx) i) (\<lambda>md.
     bind_result (predict fl sample (fm_weights md)) (\<lambda>(prediction_m, prob_m).
     let (prob, mx) = (if i = mx_current_model mx
           then (prob_m, mx\<lparr>mx_history_prediction := push_window SAVEHISTORY prediction_m (mx_history_prediction mx)\<rparr>)
           else (prob, mx)) in
     bind_result (read_at (mx_model_history_prediction mx) i) (\<lambda>predictions.
     Inr (prob, mx\<lparr>mx_model_history_prediction :=
       (mx_model_history_prediction mx)[i := push_window SAVEHISTORY prediction_m predictions]\<rparr>)))))"

definition predict_models :: "'f doubles \<Rightarrow> 'f list \<Rightarrow> 'f monax \<Rightarrow> ('f \<times> 'f monax) result" where
  "predict_models fl sample mx = fold_result (predict_model fl sample) [0..<mx_model_num mx] (fl_lit fl 0 1, mx)"

text \<open>\<open>std::max_element\<close>: the first of the largest.\<close>

primrec argmax_from :: "'f doubles \<Rightarrow> nat \<Rightarrow> nat \<Rightarrow> 'f \<Rightarrow> 'f list \<Rightarrow> nat" where
  "argmax_from fl i k x [] = k"
| "argmax_from fl i k x (y # ys) = (if fl_less fl x y then argmax_from fl (i + 1) i y ys else argmax_from fl (i + 1) k x ys)"

definition argmax :: "'f doubles \<Rightarrow> 'f list \<Rightarrow> nat" where
  "argmax fl xs = (case xs of [] \<Rightarrow> 0 | x # xs \<Rightarrow> argmax_from fl 1 0 x xs)"

text \<open>Another model takes over when the delay has risen three times in a row: the next one, and, when all
  have had their turn, the most accurate one.\<close>

definition delay_rising :: "'f doubles \<Rightarrow> 'f list \<Rightarrow> bool result" where
  "delay_rising fl delay =
     bind_result (from_end 4 delay) (\<lambda>a. bind_result (from_end 3 delay) (\<lambda>b.
     bind_result (from_end 2 delay) (\<lambda>c. bind_result (from_end 1 delay) (\<lambda>d.
     Inr (fl_less fl a b \<and> fl_less fl b c \<and> fl_less fl c d)))))"

definition rate_models :: "'f doubles \<Rightarrow> 'f monax \<Rightarrow> 'f list result" where
  "rate_models fl mx =
     fold_result (\<lambda>i accuracies.
       bind_result (read_at (mx_model_history_prediction mx) i) (\<lambda>predictions.
       bind_result (check_accuracy fl predictions (mx_history_label mx)) (\<lambda>accuracy.
       write_at accuracies i accuracy))) [0..<mx_model_num mx] (mx_model_accuracy mx)"

definition change_model :: "'f doubles \<Rightarrow> 'f monax \<Rightarrow> 'f monax result" where
  "change_model fl mx =
     bind_result (delay_rising fl (mo_network_delay (mx_monitor mx))) (\<lambda>rising.
     if \<not> rising then Inr mx
     else if mx_used_model mx < mx_model_num mx - 1 then
       Inr (mx\<lparr>mx_current_model := mx_current_model mx + 1,
               mx_model_accuracy := mx_model_accuracy mx @ [fl_of_int fl (mx_accuracy mx)],
               mx_used_model := mx_used_model mx + 1\<rparr>)
     else
       bind_result (rate_models fl mx) (\<lambda>accuracies.
       Inr (mx\<lparr>mx_model_accuracy := accuracies, mx_current_model := argmax fl accuracies\<rparr>)))"

text \<open>The aggregation, of which the mean delay is computed in \<open>float\<close>.\<close>

definition threshold_scale :: "'f doubles \<Rightarrow> 'f list \<Rightarrow> 'f result" where
  "threshold_scale fl delay =
     bind_result (from_end 3 delay) (\<lambda>a. bind_result (from_end 2 delay) (\<lambda>b. bind_result (from_end 1 delay) (\<lambda>c.
     let sum = fold (\<lambda>x acc. fl_single fl (fl_add fl acc x)) [a, b, c] (fl_single fl (fl_lit fl 0 1));
         mean = fl_single fl (fl_div fl sum (fl_of_int fl 3));
         threshold = fl_of_int fl RTT_THRESHOLD in
     Inr (fl_single fl (fl_div fl (fl_single fl (fl_sub fl threshold mean)) threshold)))))"

definition policy_aggregation :: "'f doubles \<Rightarrow> nat \<Rightarrow> nat \<Rightarrow> 'f \<Rightarrow> 'f monax \<Rightarrow> (int \<times> 'f) result" where
  "policy_aggregation fl rand1 rand2 prob mx =
     bind_result (from_end 1 (mx_history_prediction mx)) (\<lambda>prediction.
     bind_result (from_end 1 (mx_utility_record mx)) (\<lambda>_.
     bind_result (from_end 2 (mx_utility_record mx)) (\<lambda>_.
     bind_result (threshold_scale fl (mo_network_delay (mx_monitor mx))) (\<lambda>scale.
     let zero = fl_of_int fl 0;
         drawn = (\<lambda>r :: nat. fl_of_int fl (int (r mod 100 div 100)));
         decision =
           (if fl_less fl zero scale \<and> fl_less fl (drawn rand1) scale then 1
            else if fl_less fl scale zero \<and> fl_less fl (drawn rand2) (fl_mul fl (fl_of_int fl (- 1)) scale) then 0
            else prediction) in
     Inr (decision, if prediction \<noteq> decision then fl_sub fl (fl_of_int fl 1) prob else prob)))))"

definition rate_control :: "'f doubles \<Rightarrow> 'f \<Rightarrow> 'f monax \<Rightarrow> (int \<times> 'f monax) result" where
  "rate_control fl result mx =
     bind_result (from_end 1 (mo_network_delay (mx_monitor mx))) (\<lambda>_.
     let base = mx_send_period mx; half = fl_lit fl 1 2 in
     if fl_less fl half result then
       bind_result (from_end 2 (mx_history_decision mx)) (\<lambda>before.
       bind_result (from_end 1 (mx_history_decision mx)) (\<lambda>now.
       let step = (if before = 1 \<and> now = 1
             then min (mx_stepsize_max mx) (mx_speedup_step mx + mx_speedup_step_change_rate mx) else mx_speedup_step mx) in
       bind_result (int_sum (base - step)) (\<lambda>period.
       Inr (min (max INTERVAL_MIN period) INTERVAL_MAX, mx\<lparr>mx_speedup_step := step\<rparr>))))
     else if fl_less fl result half then
       bind_result (from_end 2 (mx_history_decision mx)) (\<lambda>before.
       bind_result (from_end 1 (mx_history_decision mx)) (\<lambda>now.
       let step = (if before = 0 \<and> now = 0
             then min (mx_stepsize_max mx) (mx_slowdown_step mx + mx_slowdown_step_change_rate mx) else mx_slowdown_step mx) in
       bind_result (int_sum (base + step)) (\<lambda>period.
       Inr (min (max INTERVAL_MIN period) INTERVAL_MAX, mx\<lparr>mx_slowdown_step := step\<rparr>))))
     else Inr (base, mx))"

text \<open>The quotient of two integers.\<close>

definition compute_intervention_prob :: "int list \<Rightarrow> int list \<Rightarrow> int result" where
  "compute_intervention_prob prediction decision =
     bind_result (fold_result (\<lambda>i n. bind_result (read_at decision i) (\<lambda>d. Inr (if prediction ! i = d then n + 1 else n)))
       [0..<length prediction] (0 :: nat)) (\<lambda>n.
     if prediction = [] then Inl Undefined else Inr (int (n div length prediction)))"

definition take_sample :: "'f doubles \<Rightarrow> 'f monitor \<Rightarrow> 'f list result" where
  "take_sample fl mo =
     (let delay = mo_network_delay mo in
      bind_result (read_at (mo_delivery_rate mo) (length delay - 1)) (\<lambda>rate.
      bind_result (from_end 4 delay) (\<lambda>a. bind_result (from_end 3 delay) (\<lambda>b.
      bind_result (from_end 2 delay) (\<lambda>c. bind_result (from_end 1 delay) (\<lambda>d.
      Inr [rate, d, fl_sub fl b a, fl_sub fl c b, fl_sub fl d c]))))))"

definition take_action :: "'f doubles \<Rightarrow> nat \<Rightarrow> nat \<Rightarrow> 'f monax \<Rightarrow> (int \<times> 'f \<times> 'f monax) result" where
  "take_action fl rand1 rand2 mx =
     bind_result (take_sample fl (mx_monitor mx)) (\<lambda>sample.
     bind_result (read_at (mo_cwnd (mx_monitor mx)) 0) (\<lambda>cwnd.
     bind_result (case fl_to_int fl cwnd of None \<Rightarrow> Inl Undefined | Some n \<Rightarrow> Inr (mx\<lparr>mx_current_cwnd := n\<rparr>)) (\<lambda>mx.
     bind_result (utility_function fl sample) (\<lambda>utility.
     bind_result (label_history fl utility mx) (\<lambda>mx.
     bind_result (modify_steps fl mx) (\<lambda>mx.
     bind_result (learn fl sample mx) (\<lambda>mx.
     bind_result (predict_models fl sample mx) (\<lambda>(prediction_prob, mx).
     bind_result (change_model fl mx) (\<lambda>mx.
     bind_result (policy_aggregation fl rand1 rand2 prediction_prob mx) (\<lambda>(decision, decision_prob).
     let mx = mx\<lparr>mx_history_decision := push_window SAVEHISTORY decision (mx_history_decision mx)\<rparr> in
     bind_result (rate_control fl decision_prob mx) (\<lambda>(send_period, mx).
     bind_result (compute_intervention_prob (mx_history_prediction mx) (mx_history_decision mx)) (\<lambda>p.
     Inr (send_period, utility, mx\<lparr>mx_intervention_prob := p\<rparr>)))))))))))))"

definition calc_cc_para :: "'f doubles \<Rightarrow> nat \<Rightarrow> nat \<Rightarrow> 'f monax \<Rightarrow> 'f monax result" where
  "calc_cc_para fl rand1 rand2 mx =
     (if length (mo_network_delay (mx_monitor mx)) < MONITOR_LEN then Inr mx
      else
        bind_result (take_action fl rand1 rand2 mx) (\<lambda>(send_period, utility, mx).
        Inr (mx\<lparr>mx_send_period := send_period, mx_current_utility := Some utility\<rparr>)))"

text \<open>What the sender does with it for each frame.\<close>

definition monax_update :: "'f doubles \<Rightarrow> 'f \<Rightarrow> 'f \<Rightarrow> int \<Rightarrow> int \<Rightarrow> nat \<Rightarrow> nat \<Rightarrow> 'f monax \<Rightarrow> 'f monax result" where
  "monax_update fl rtt throughput in_flight period rand1 rand2 mx =
     calc_cc_para fl rand1 rand2 (set_loss_status False (set_wnd_size fl 30 (set_snd_period fl period
       (set_flight_size fl in_flight (set_delivery_rate throughput (set_real_rtt rtt mx))))))"


section \<open>What the controller relies on of the arithmetic\<close>

text \<open>The numbers of IEEE 754 and of the language, as far as the conversions to \<open>int\<close> depend on them, for a reading
  \<open>val\<close> of the machine's numbers in which infinities and what is not a number have no value.  A whole number
  that an \<open>int\<close> holds is exact, and so is one half.  An operand without a value yields none in a sum or a product, and a
  quotient by zero has none.  Rounding is monotone, so that a result between two whole numbers that the format
  holds stays between them.  A conversion to \<open>int\<close> drops the fraction and is undefined for a number without a value
  and for one that does not fit.\<close>

definition stays_in :: "int \<Rightarrow> rat option \<Rightarrow> bool" where
  "stays_in n v \<longleftrightarrow> (case v of None \<Rightarrow> False | Some a \<Rightarrow> (\<bar>a\<bar> \<le> of_int n))"

definition toward_zero :: "rat \<Rightarrow> int" where
  "toward_zero a = (if 0 \<le> a then \<lfloor>a\<rfloor> else \<lceil>a\<rceil>)"

definition ieee :: "'f doubles \<Rightarrow> ('f \<Rightarrow> rat option) \<Rightarrow> bool" where
  "ieee fl val \<longleftrightarrow>
     (\<forall>n. fits_int n \<longrightarrow> val (fl_of_int fl n) = Some (of_int n)) \<and> val (fl_lit fl 1 2) = Some (1 / 2) \<and>
     (\<forall>x y. val x = None \<or> val y = None \<longrightarrow> val (fl_add fl x y) = None \<and> val (fl_mul fl x y) = None) \<and>
     (\<forall>x y. val y = Some 0 \<longrightarrow> val (fl_div fl x y) = None) \<and>
     (\<forall>x y a b n. val x = Some a \<longrightarrow> val y = Some b \<longrightarrow> n < 2 ^ 53 \<longrightarrow>
        (\<bar>a + b\<bar> \<le> of_int n \<longrightarrow> stays_in n (val (fl_add fl x y))) \<and>
        (\<bar>a * b\<bar> \<le> of_int n \<longrightarrow> stays_in n (val (fl_mul fl x y))) \<and>
        (b \<noteq> 0 \<longrightarrow> \<bar>a / b\<bar> \<le> of_int n \<longrightarrow> stays_in n (val (fl_div fl x y)))) \<and>
     (\<forall>x. fl_to_int fl x = (case val x of None \<Rightarrow> None
        | Some a \<Rightarrow> if fits_int (toward_zero a) then Some (toward_zero a) else None))"

lemma ieeeD:
  assumes "ieee fl val"
  shows "fits_int n \<Longrightarrow> val (fl_of_int fl n) = Some (of_int n)" and "val (fl_lit fl 1 2) = Some (1 / 2)"
    and "val x = None \<or> val y = None \<Longrightarrow> val (fl_add fl x y) = None" and "val x = None \<or> val y = None \<Longrightarrow> val (fl_mul fl x y) = None"
    and "val y = Some 0 \<Longrightarrow> val (fl_div fl x y) = None"
    and "val x = Some a \<Longrightarrow> val y = Some b \<Longrightarrow> k < 2 ^ 53 \<Longrightarrow> \<bar>a + b\<bar> \<le> of_int k \<Longrightarrow> stays_in k (val (fl_add fl x y))"
    and "val x = Some a \<Longrightarrow> val y = Some b \<Longrightarrow> k < 2 ^ 53 \<Longrightarrow> \<bar>a * b\<bar> \<le> of_int k \<Longrightarrow> stays_in k (val (fl_mul fl x y))"
    and "val x = Some a \<Longrightarrow> val y = Some b \<Longrightarrow> k < 2 ^ 53 \<Longrightarrow> b \<noteq> 0 \<Longrightarrow> \<bar>a / b\<bar> \<le> of_int k \<Longrightarrow> stays_in k (val (fl_div fl x y))"
    and "fl_to_int fl x = (case val x of None \<Rightarrow> None
        | Some a \<Rightarrow> if fits_int (toward_zero a) then Some (toward_zero a) else None)"
  using assms unfolding ieee_def by blast+

lemma stays_inE:
  assumes "stays_in n v" obtains a where "v = Some a" "\<bar>a\<bar> \<le> of_int n"
  using assms by (auto simp: stays_in_def split: option.splits)

lemma small_converts:
  assumes "ieee fl val" and "stays_in n (val x)" and "n < 2 ^ 31 - 1"
  shows "\<exists>i. fl_to_int fl x = Some i"
proof -
  obtain a where a: "val x = Some a" "\<bar>a\<bar> \<le> of_int n" by (rule stays_inE [OF assms(2)])
  have "toward_zero a \<le> n" "- n \<le> toward_zero a"
  proof -
    have "0 \<le> n" using a(2) by (metis abs_ge_zero of_int_0_le_iff order_trans)
    have "\<lfloor>a\<rfloor> \<le> n" "- n \<le> \<lceil>a\<rceil>"
      using a(2) of_int_floor_le [of a] le_of_int_ceiling [of a] by linarith+
    moreover have "0 \<le> \<lfloor>a\<rfloor>" if "0 \<le> a" using that by simp
    moreover have "\<lceil>a\<rceil> \<le> 0" if "\<not> 0 \<le> a" using that by simp
    ultimately show "toward_zero a \<le> n" "- n \<le> toward_zero a"
      using \<open>0 \<le> n\<close> unfolding toward_zero_def by (auto simp del: zero_le_floor ceiling_le_zero)
  qed
  then have "fits_int (toward_zero a)"
    using assms(3) unfolding fits_int_def by simp
  then show ?thesis using ieeeD(9) [OF assms(1), of x] a(1) by simp
qed

text \<open>A step scaled by a confidence: defined unless the confidence is a quotient by zero.\<close>

lemma scaled_step_classified:
  assumes "ieee fl val" and "0 \<le> p" "p \<le> 4" "0 \<le> l" "l \<le> 4" "50 \<le> step" "step \<le> 300"
  shows "if l = 0 then scaled_step fl 50 300 step p l = Inl Undefined
    else \<exists>n. scaled_step fl 50 300 step p l = Inr n \<and> 50 \<le> n \<and> n \<le> 300"
proof -
  note ieee = ieeeD [OF assms(1)]
  let ?conf = "fl_div fl (fl_of_int fl p) (fl_of_int fl l)"
  let ?sum = "fl_add fl (fl_lit fl 1 2) ?conf"
  have vals: "val (fl_of_int fl p) = Some (of_int p)" "val (fl_of_int fl l) = Some (of_int l)"
    "val (fl_of_int fl step) = Some (of_int step)"
    by (rule ieee(1), use assms in \<open>simp add: fits_int_def\<close>)+
  show ?thesis
  proof (cases "l = 0")
    case True
    then have "val ?conf = None" using ieee(5) [of "fl_of_int fl l"] vals(2) by simp
    then have "val ?sum = None" by (intro ieee(3)) simp
    then have "val (fl_mul fl (fl_of_int fl step) ?sum) = None" by (intro ieee(4)) simp
    then have "fl_to_int fl (fl_mul fl (fl_of_int fl step) ?sum) = None" using ieee(9) by simp
    then show ?thesis using True by (simp add: scaled_step_def)
  next
    case False
    have "\<bar>of_int p / of_int l\<bar> \<le> (of_int 4 :: rat)"
    proof -
      have "(of_int p :: rat) \<le> of_int (4 * l)" unfolding of_int_le_iff using assms(3,4) False by linarith
      moreover have "(0 :: rat) < of_int l" using assms(4) False by simp
      ultimately show ?thesis using assms(2) by (simp add: divide_le_eq)
    qed
    from ieee(8) [OF vals(1,2) _ _ this] False obtain c where c: "val ?conf = Some c" "\<bar>c\<bar> \<le> of_int 4"
      by (auto elim: stays_inE)
    have "\<bar>1 / 2 + c\<bar> \<le> of_int 5" using c(2) by (simp add: abs_le_iff)
    from ieee(6) [OF ieee(2) c(1) _ this] obtain d where d: "val ?sum = Some d" "\<bar>d\<bar> \<le> of_int 5"
      by (auto elim: stays_inE)
    have "\<bar>of_int step * d\<bar> \<le> of_int 300 * of_int 5"
      unfolding abs_mult by (rule mult_mono) (use assms(6,7) d(2) in simp_all)
    then have "\<bar>of_int step * d\<bar> \<le> of_int 1500" by simp
    from ieee(7) [OF vals(3) d(1) _ this] have "stays_in 1500 (val (fl_mul fl (fl_of_int fl step) ?sum))" by simp
    from small_converts [OF assms(1) this] obtain i where "fl_to_int fl (fl_mul fl (fl_of_int fl step) ?sum) = Some i" by auto
    then show ?thesis using False by (simp add: scaled_step_def)
  qed
qed


section \<open>The vectors keep step\<close>

lemma read_at_in [simp]: "i < length xs \<Longrightarrow> read_at xs i = Inr (xs ! i)"
  by (simp add: read_at_def)

lemma write_at_in [simp]: "i < length xs \<Longrightarrow> write_at xs i x = Inr (xs[i := x])"
  by (simp add: write_at_def)

lemma from_end_in [simp]: "0 < k \<Longrightarrow> k \<le> length xs \<Longrightarrow> from_end k xs = Inr (xs ! (length xs - k))"
  by (simp add: from_end_def)

lemma length_push_window [simp]: "0 < n \<Longrightarrow> length xs \<le> n \<Longrightarrow> length (push_window n x xs) = min n (length xs + 1)"
  by (auto simp: push_window_def)

lemma fold_result_keeps:
  assumes "\<And>x s. x \<in> set xs \<Longrightarrow> P s \<Longrightarrow> \<exists>s'. f x s = Inr s' \<and> P s'" and "P s"
  shows "\<exists>s'. fold_result f xs s = Inr s' \<and> P s'"
  using assms
proof (induction xs arbitrary: s)
  case (Cons x xs)
  then obtain s1 where s1: "f x s = Inr s1" "P s1" by fastforce
  have "\<And>x s. x \<in> set xs \<Longrightarrow> P s \<Longrightarrow> \<exists>s'. f x s = Inr s' \<and> P s'" using Cons.prems(1) by simp
  from Cons.IH [OF this s1(2)] show ?case by (simp add: s1(1))
qed simp

text \<open>The lengths of the histories when \<open>m\<close> labels have been given, of which the windows keep the last: in the
  middle of a decision, and after it.  The current model of the first decision has one prediction more than the
  others, the one made up when the controller starts.\<close>

definition histories :: "nat \<Rightarrow> nat \<Rightarrow> 'f monax \<Rightarrow> bool" where
  "histories m predicted mx \<longleftrightarrow>
     length (mx_history_label mx) = min SAVEHISTORY m \<and>
     length (mx_history_prediction mx) = min SAVEHISTORY (m + predicted) \<and>
     length (mx_model_history_prediction mx) = 8 \<and>
     (\<forall>i<8. length (mx_model_history_prediction mx ! i) = min SAVEHISTORY (m + predicted - (if i = 0 then 0 else 1)))"

definition recorded :: "nat \<Rightarrow> nat \<Rightarrow> 'f monax \<Rightarrow> bool" where
  "recorded d u mx \<longleftrightarrow> length (mx_history_decision mx) = min SAVEHISTORY d \<and> length (mx_utility_record mx) = min SAVEUTILITY u"

definition model_ok :: "'f ftrl \<Rightarrow> bool" where
  "model_ok md \<longleftrightarrow> length (fm_zs md) = 6 \<and> length (fm_ns md) = 6 \<and> length (fm_weights md) = 6"

definition pool_ok :: "'f monax \<Rightarrow> bool" where
  "pool_ok mx \<longleftrightarrow> mx_input_dim mx = 5 \<and> mx_model_num mx = 8 \<and> length (mx_model_pool mx) = 8 \<and> list_all model_ok (mx_model_pool mx)"

definition models_ok :: "'f monax \<Rightarrow> bool" where
  "models_ok mx \<longleftrightarrow> mx_used_model mx \<le> 7 \<and> mx_current_model mx = mx_used_model mx \<and> length (mx_model_accuracy mx) = mx_used_model mx"

definition windows :: "nat \<Rightarrow> 'f monitor \<Rightarrow> bool" where
  "windows n mo \<longleftrightarrow> length (mo_network_delay mo) = n \<and> length (mo_send_period mo) = n \<and> length (mo_delivery_rate mo) = n \<and>
     length (mo_inflight_size mo) = n \<and> length (mo_cwnd mo) = n"

text \<open>Labels, predictions and decisions are 0 or 1; the step sizes stay in their bounds; the window sizes recorded can
  be converted back.\<close>

definition bits_ok :: "'f monax \<Rightarrow> bool" where
  "bits_ok mx \<longleftrightarrow> set (mx_history_label mx) \<subseteq> {0, 1} \<and> set (mx_history_prediction mx) \<subseteq> {0, 1} \<and>
     set (mx_history_decision mx) \<subseteq> {0, 1}"

definition steps_ok :: "'f monax \<Rightarrow> bool" where
  "steps_ok mx \<longleftrightarrow> mx_stepsize_max mx = 300 \<and> mx_stepsize_min mx = 50 \<and> mx_speedup_step_change_rate mx = 50 \<and>
     mx_slowdown_step_change_rate mx = 50 \<and> 50 \<le> mx_speedup_step mx \<and> mx_speedup_step mx \<le> 300 \<and>
     50 \<le> mx_slowdown_step mx \<and> mx_slowdown_step mx \<le> 300"

definition cwnds_ok :: "'f doubles \<Rightarrow> 'f monitor \<Rightarrow> bool" where
  "cwnds_ok fl mo \<longleftrightarrow> (\<forall>x\<in>set (mo_cwnd mo). fl_to_int fl x \<noteq> None)"

definition monax_ok :: "'f doubles \<Rightarrow> 'f monax \<Rightarrow> bool" where
  "monax_ok fl mx \<longleftrightarrow> pool_ok mx \<and> bits_ok mx \<and> steps_ok mx \<and> cwnds_ok fl (mx_monitor mx) \<and> models_ok mx \<and> (\<exists>n\<le>MONITOR_LEN. windows n (mx_monitor mx)) \<and>
     (if mx_coldstart mx then histories 0 0 mx \<and> recorded 0 0 mx \<and> mx_used_model mx = 0
      else \<exists>m\<ge>1. histories m 1 mx \<and> recorded (m + 1) (m + 1) mx)"

lemmas size_constants = SAVEHISTORY_def SAVEUTILITY_def MONITOR_LEN_def

lemma new_monax_ok [simp]: "monax_ok fl (new_monax fl 5 alpha beta lambda1 lambda2 cwnd interval)"
  by (auto simp: monax_ok_def new_monax_def Let_def pool_ok_def model_ok_def models_ok_def windows_def histories_def recorded_def
      list_all_iff bits_ok_def steps_ok_def cwnds_ok_def)

lemma set_push_window: "set (push_window n x xs) \<subseteq> insert x (set xs)"
  by (cases xs) (auto simp: push_window_def)

lemma bit_nth: "set xs \<subseteq> {0, 1 :: int} \<Longrightarrow> i < length xs \<Longrightarrow> xs ! i = 0 \<or> xs ! i = 1"
  by (drule nth_mem) blast

text \<open>Labelling.\<close>

lemma labelled:
  assumes "monax_ok fl0 mx"
  shows "\<exists>mx' m. label_history fl utility mx = Inr mx' \<and> m \<ge> 1 \<and> (mx_used_model mx > 0 \<longrightarrow> m \<ge> 2) \<and>
    histories m 0 mx' \<and> recorded m (m + 1) mx' \<and> \<not> mx_coldstart mx' \<and>
    pool_ok mx' \<and> models_ok mx' \<and> bits_ok mx' \<and> steps_ok mx' \<and> mx_monitor mx' = mx_monitor mx \<and>
    mx_used_model mx' = mx_used_model mx \<and> mx_send_period mx' = mx_send_period mx"
proof (cases "mx_coldstart mx")
  case True
  then have ok: "histories 0 0 mx" "recorded 0 0 mx" "mx_used_model mx = 0" "models_ok mx" "pool_ok mx" "bits_ok mx" "steps_ok mx"
    using assms by (simp_all add: monax_ok_def)
  then have first: "mx_current_model mx = 0" "length (mx_model_history_prediction mx) = 8"
    by (simp_all add: models_ok_def histories_def)
  let ?hs = "(mx_model_history_prediction mx)[0 := mx_model_history_prediction mx ! 0 @ [0]]"
  let ?mx = "mx\<lparr>mx_history_label := mx_history_label mx @ [0],
                 mx_utility_record := mx_utility_record mx @ [fl_of_int fl 0, fl_of_int fl 0],
                 mx_model_history_prediction := ?hs,
                 mx_history_prediction := mx_history_prediction mx @ [0],
                 mx_history_decision := mx_history_decision mx @ [0], mx_coldstart := False\<rparr>"
  have "label_history fl utility mx = Inr ?mx"
    using True first by (simp add: label_history_def)
  moreover have "length (?hs ! i) = (if i = 0 then 1 else 0)" if "i < 8" for i
    using ok(1) first(2) that by (simp add: histories_def nth_list_update)
  then have "histories 1 0 ?mx" "recorded 1 2 ?mx"
    using ok(1,2) by (simp_all add: histories_def recorded_def size_constants)
  moreover have "pool_ok ?mx" "models_ok ?mx" "bits_ok ?mx" "steps_ok ?mx"
    using ok(4-) by (simp_all add: pool_ok_def models_ok_def bits_ok_def steps_ok_def)
  ultimately show ?thesis using ok(3) by (intro exI [of _ ?mx] exI [of _ 1]) (simp add: numeral_2_eq_2)
next
  case False
  then obtain m where m: "m \<ge> 1" "histories m 1 mx" "recorded (m + 1) (m + 1) mx" and
    ok: "models_ok mx" "pool_ok mx" "bits_ok mx" "steps_ok mx"
    using assms by (auto simp: monax_ok_def)
  then have ne: "1 \<le> length (mx_utility_record mx)" "1 \<le> length (mx_history_decision mx)"
    by (simp_all add: recorded_def size_constants)
  have "set (mx_history_decision mx) \<subseteq> {0, 1}" using ok(3) by (simp add: bits_ok_def)
  moreover have "mx_history_decision mx ! (length (mx_history_decision mx) - 1) \<in> set (mx_history_decision mx)"
    using ne(2) by simp
  ultimately have "mx_history_decision mx ! (length (mx_history_decision mx) - 1) \<in> {0, 1}" by blast
  then have old: "mx_history_decision mx ! (length (mx_history_decision mx) - 1) = 0 \<or>
      mx_history_decision mx ! (length (mx_history_decision mx) - 1) = 1" by simp
  define label where "label = (if fl_less fl (fl_of_int fl 0) (fl_sub fl utility (mx_utility_record mx ! (length (mx_utility_record mx) - 1)))
    then mx_history_decision mx ! (length (mx_history_decision mx) - 1)
    else 1 - mx_history_decision mx ! (length (mx_history_decision mx) - 1))"
  then have bit: "label = 0 \<or> label = 1" using old by (elim disjE) simp_all
  have run: "label_history fl utility mx = Inr (mx\<lparr>mx_history_label := push_window SAVEHISTORY label (mx_history_label mx),
      mx_utility_record := push_window SAVEUTILITY utility (mx_utility_record mx)\<rparr>)" (is "_ = Inr ?mx")
    using False ne by (simp add: label_history_def Let_def label_def del: One_nat_def)
  have "histories (m + 1) 0 ?mx" "recorded (m + 1) (m + 2) ?mx"
    using m by (simp_all add: histories_def recorded_def size_constants)
  moreover have "pool_ok ?mx" "models_ok ?mx" "steps_ok ?mx"
    using ok by (simp_all add: pool_ok_def models_ok_def steps_ok_def)
  moreover have "bits_ok ?mx"
    using ok(3) bit set_push_window [of SAVEHISTORY label "mx_history_label mx"] by (auto simp: bits_ok_def)
  ultimately show ?thesis using run m(1) False by (intro exI [of _ ?mx] exI [of _ "m + 1"]) simp
qed

text \<open>Step sizes.\<close>

definition labels_alike :: "int list \<Rightarrow> bool" where
  "labels_alike ls \<longleftrightarrow> (let four = drop (length ls - 4) ls in four = [0, 0, 0, 0] \<or> four = [1, 1, 1, 1])"

lemma sum_bits:
  assumes "4 \<le> length xs" and "set xs \<subseteq> {0, 1}"
  shows "\<exists>n. sum_from (length xs - 4) xs = Inr n \<and> 0 \<le> n \<and> n \<le> 4 \<and> (n = 0 \<or> n = 4 \<longleftrightarrow> labels_alike xs)"
proof -
  define k where "k = length xs - 4"
  then have len: "length xs = k + 4" using assms(1) by simp
  have each: "xs ! j = 0 \<or> xs ! j = 1" if "j < k + 4" for j
    by (rule bit_nth [OF assms(2)]) (use that len in simp)
  have four: "drop k xs = [xs ! k, xs ! (k + 1), xs ! (k + 2), xs ! (k + 3)]"
    using len by (intro nth_equalityI) (auto simp: less_Suc_eq nth_Cons' numeral_eq_Suc)
  have bits: "xs ! k = 0 \<or> xs ! k = 1" "xs ! (k + 1) = 0 \<or> xs ! (k + 1) = 1" "xs ! (k + 2) = 0 \<or> xs ! (k + 2) = 1"
    "xs ! (k + 3) = 0 \<or> xs ! (k + 3) = 1" by (rule each, simp)+
  have "sum_from k xs = Inr (xs ! k + xs ! (k + 1) + xs ! (k + 2) + xs ! (k + 3))"
    using len by (simp add: sum_from_def)
  moreover have "labels_alike xs \<longleftrightarrow> [xs ! k, xs ! (k + 1), xs ! (k + 2), xs ! (k + 3)] \<in> {[0, 0, 0, 0], [1, 1, 1, 1]}"
    unfolding labels_alike_def Let_def k_def [symmetric] four by simp
  ultimately show ?thesis
    unfolding k_def [symmetric] using bits by (elim disjE) simp_all
qed

lemma sum_bits_only:
  assumes "i + 4 \<le> length xs" and "set xs \<subseteq> {0, 1}"
  shows "\<exists>n. sum_from i xs = Inr n \<and> 0 \<le> n \<and> n \<le> 4"
proof -
  have each: "0 \<le> xs ! j \<and> xs ! j \<le> 1" if "j < i + 4" for j
    using bit_nth [OF assms(2), of j] that assms(1) by auto
  have "sum_from i xs = Inr (xs ! i + xs ! (i + 1) + xs ! (i + 2) + xs ! (i + 3))"
    using assms(1) by (simp add: sum_from_def)
  then show ?thesis using each [of i] each [of "i + 1"] each [of "i + 2"] each [of "i + 3"] by auto
qed

lemma steps_modified:
  assumes "histories m 0 mx" and "ieee fl val" and "bits_ok mx" and "steps_ok mx"
  shows "if labels_alike (mx_history_label mx) then modify_steps fl mx = Inl Undefined
    else \<exists>up down. modify_steps fl mx = Inr (mx\<lparr>mx_speedup_step := up, mx_slowdown_step := down\<rparr>) \<and>
      steps_ok (mx\<lparr>mx_speedup_step := up, mx_slowdown_step := down\<rparr>)"
proof (cases "3 < length (mx_history_label mx)")
  case True
  let ?n = "length (mx_history_label mx)"
  have "\<exists>p. sum_from (?n - 4) (mx_history_prediction mx) = Inr p \<and> 0 \<le> p \<and> p \<le> 4"
    by (rule sum_bits_only) (use assms(1,3) True in \<open>simp_all add: histories_def bits_ok_def\<close>)
  then obtain p where p: "sum_from (?n - 4) (mx_history_prediction mx) = Inr p" "0 \<le> p" "p \<le> 4" by blast
  have "\<exists>l. sum_from (?n - 4) (mx_history_label mx) = Inr l \<and> 0 \<le> l \<and> l \<le> 4 \<and>
      (l = 0 \<or> l = 4 \<longleftrightarrow> labels_alike (mx_history_label mx))"
    by (rule sum_bits) (use assms(3) True in \<open>simp_all add: bits_ok_def\<close>)
  then obtain l where l: "sum_from (?n - 4) (mx_history_label mx) = Inr l" "0 \<le> l" "l \<le> 4"
    "l = 0 \<or> l = 4 \<longleftrightarrow> labels_alike (mx_history_label mx)" by blast
  have st: "mx_stepsize_max mx = 300" "mx_stepsize_min mx = 50" "50 \<le> mx_speedup_step mx" "mx_speedup_step mx \<le> 300"
    "50 \<le> mx_slowdown_step mx" "mx_slowdown_step mx \<le> 300" using assms(4) by (simp_all add: steps_ok_def)
  note up = scaled_step_classified [OF assms(2) p(2,3) l(2,3) st(3,4)]
  note down = scaled_step_classified [OF assms(2), of "4 - p" "4 - l" "mx_slowdown_step mx"]
  show ?thesis
  proof (cases "l = 0")
    case True
    then show ?thesis using up l(4) \<open>3 < ?n\<close> p(1) l(1) by (simp add: modify_steps_def st(1,2) Let_def)
  next
    case False
    then obtain u where u: "scaled_step fl 50 300 (mx_speedup_step mx) p l = Inr u" "50 \<le> u" "u \<le> 300" using up by auto
    show ?thesis
    proof (cases "l = 4")
      case True
      then show ?thesis using down u l(4) \<open>3 < ?n\<close> p l(1) st by (simp add: modify_steps_def Let_def)
    next
      case four: False
      then obtain d where "scaled_step fl 50 300 (mx_slowdown_step mx) (4 - p) (4 - l) = Inr d" "50 \<le> d" "d \<le> 300"
        using down p l st by auto
      then have "modify_steps fl mx = Inr (mx\<lparr>mx_speedup_step := u, mx_slowdown_step := d\<rparr>)"
        "steps_ok (mx\<lparr>mx_speedup_step := u, mx_slowdown_step := d\<rparr>)"
        using u p(1) l(1) \<open>3 < ?n\<close> st assms(4) by (simp_all add: modify_steps_def Let_def steps_ok_def)
      then show ?thesis using four \<open>l \<noteq> 0\<close> l(4) by auto
    qed
  qed
next
  case False
  then have "modify_steps fl mx = Inr (mx\<lparr>mx_speedup_step := mx_speedup_step mx, mx_slowdown_step := mx_slowdown_step mx\<rparr>)"
    "steps_ok (mx\<lparr>mx_speedup_step := mx_speedup_step mx, mx_slowdown_step := mx_slowdown_step mx\<rparr>)"
    using assms(4) by (simp_all add: modify_steps_def Let_def)
  moreover have "\<not> labels_alike (mx_history_label mx)"
    using False by (auto simp: labels_alike_def Let_def dest: arg_cong [where f = length])
  ultimately show ?thesis by metis
qed

lemma coordinate_steps:
  assumes "model_ok md" and "i < 6"
  shows "\<exists>md'. refresh_weight fl mx i md = Inr md' \<and> model_ok md'"
    and "\<exists>md'. learn_coordinate fl alpha i g md = Inr md' \<and> model_ok md'"
  using assms by (simp_all add: refresh_weight_def learn_coordinate_def model_ok_def Let_def)

lemma learned:
  assumes pool: "pool_ok mx" and models: "models_ok mx" and hist: "histories m 0 mx" and m: "1 \<le> m" "0 < mx_used_model mx \<longrightarrow> 2 \<le> m"
    and sample: "length sample = 5"
  shows "\<exists>pool. learn fl sample mx = Inr (mx\<lparr>mx_model_pool := pool\<rparr>) \<and> pool_ok (mx\<lparr>mx_model_pool := pool\<rparr>)"
proof -
  let ?k = "mx_current_model mx" and ?n = "non_zero_index fl sample"
  have k: "?k < 8" "?k = mx_used_model mx" using models by (simp_all add: models_ok_def)
  then have md: "read_at (mx_model_pool mx) ?k = Inr (mx_model_pool mx ! ?k)" "model_ok (mx_model_pool mx ! ?k)"
    using pool by (simp_all add: pool_ok_def list_all_length)
  have idx: "i < 6" if "i \<in> set ?n" for i using that sample by (simp add: non_zero_index_def)
  have each: "\<exists>s'. refresh_weight fl mx i s = Inr s' \<and> model_ok s'" if "i \<in> set (mx_input_dim mx # ?n)" "model_ok s" for i s
    using coordinate_steps(1) [OF that(2)] that(1) idx pool by (auto simp: pool_ok_def)
  have "\<exists>md1. fold_result (refresh_weight fl mx) (mx_input_dim mx # ?n) (mx_model_pool mx ! ?k) = Inr md1 \<and> model_ok md1"
    by (rule fold_result_keeps [where P = model_ok]) (use each md(2) in auto)
  then obtain md1 where md1: "fold_result (refresh_weight fl mx) (mx_input_dim mx # ?n) (mx_model_pool mx ! ?k) = Inr md1" "model_ok md1"
    by blast
  have hs: "length (mx_model_history_prediction mx) = 8" "1 \<le> length (mx_model_history_prediction mx ! ?k)"
    using hist k m by (auto simp: histories_def size_constants)
  have label: "1 \<le> length (mx_history_label mx)" using hist m(1) by (simp add: histories_def size_constants)
  obtain g where g: "g = fl_of_int fl (mx_model_history_prediction mx ! ?k ! (length (mx_model_history_prediction mx ! ?k) - 1) -
      mx_history_label mx ! (length (mx_history_label mx) - 1))" by simp
  have later: "\<exists>s'. learn_coordinate fl (mx_alpha mx) i (fl_mul fl g (sample ! i)) s = Inr s' \<and> model_ok s'"
    if "i \<in> set ?n" "model_ok s" for i s
    by (rule coordinate_steps(2) [OF that(2) idx [OF that(1)]])
  have "\<exists>md2. fold_result (\<lambda>i. learn_coordinate fl (mx_alpha mx) i (fl_mul fl g (sample ! i))) ?n md1 = Inr md2 \<and> model_ok md2"
    by (rule fold_result_keeps [where P = model_ok]) (use later md1(2) in auto)
  then obtain md2 where md2: "fold_result (\<lambda>i. learn_coordinate fl (mx_alpha mx) i (fl_mul fl g (sample ! i))) ?n md1 = Inr md2" "model_ok md2"
    by blast
  obtain md3 where md3: "learn_coordinate fl (mx_alpha mx) (mx_input_dim mx) g md2 = Inr md3" "model_ok md3"
    using coordinate_steps(2) [OF md2(2), of 5 fl "mx_alpha mx" g] pool unfolding pool_ok_def by auto
  have "learn fl sample mx = Inr (mx\<lparr>mx_model_pool := (mx_model_pool mx)[?k := md3]\<rparr>)"
    using md1(1) md2(1) md3(1) k(1) hs label unfolding g by (simp add: learn_def md(1) Let_def del: fold_result.simps)
  moreover have "pool_ok (mx\<lparr>mx_model_pool := (mx_model_pool mx)[?k := md3]\<rparr>)"
    using pool md3(2) by (auto simp: pool_ok_def list_all_iff dest: set_update_subset_insert [THEN subsetD])
  ultimately show ?thesis by blast
qed

text \<open>Predicting.\<close>

lemma predict_in:
  assumes "length weights = 6" and "length sample = 5"
  shows "\<exists>q r. predict fl sample weights = Inr (q, r) \<and> (q = 0 \<or> q = 1)"
proof -
  have "\<exists>s'. fold_result (\<lambda>i s. bind_result (read_at weights i) (\<lambda>w. Inr (fl_add fl s (fl_mul fl (sample ! i) w))))
      [0..<length sample] (fl_of_int fl 0) = Inr s' \<and> True"
    by (rule fold_result_keeps) (use assms in auto)
  then show ?thesis using assms by (auto simp: predict_def Let_def)
qed

definition predicting :: "nat \<Rightarrow> nat \<Rightarrow> 'f monax \<Rightarrow> 'f monax \<Rightarrow> bool" where
  "predicting m k mx0 mx \<longleftrightarrow>
     (\<exists>ps hs. mx = mx0\<lparr>mx_history_prediction := ps, mx_model_history_prediction := hs\<rparr> \<and> length hs = 8 \<and>
        length ps = min SAVEHISTORY (m + (if mx_current_model mx0 < k then 1 else 0)) \<and>
        set ps \<subseteq> {0, 1} \<and>
        (\<forall>i<8. length (hs ! i) = min SAVEHISTORY (m - (if i = 0 then 0 else 1) + (if i < k then 1 else 0))))"

lemma one_predicted:
  assumes "predicting m k mx0 mx" and "k < 8" and "1 \<le> m" and "pool_ok mx0" and "length sample = 5"
  shows "\<exists>prob' mx'. predict_model fl sample k (prob, mx) = Inr (prob', mx') \<and> predicting m (k + 1) mx0 mx'"
proof -
  obtain ps hs where mx: "mx = mx0\<lparr>mx_history_prediction := ps, mx_model_history_prediction := hs\<rparr>" and hs: "length hs = 8"
    "\<forall>i<8. length (hs ! i) = min SAVEHISTORY (m - (if i = 0 then 0 else 1) + (if i < k then 1 else 0))"
    and ps: "length ps = min SAVEHISTORY (m + (if mx_current_model mx0 < k then 1 else 0))" "set ps \<subseteq> {0, 1}"
    using assms(1) unfolding predicting_def by blast
  have "length (fm_weights (mx_model_pool mx0 ! k)) = 6" "k < length (mx_model_pool mx0)"
    using assms(2,4) by (simp_all add: pool_ok_def model_ok_def list_all_length)
  with predict_in [OF _ assms(5), of "fm_weights (mx_model_pool mx0 ! k)" fl] obtain q r where
    p: "predict fl sample (fm_weights (mx_model_pool mx0 ! k)) = Inr (q, r)" "q = 0 \<or> q = 1" "read_at (mx_model_pool mx0) k = Inr (mx_model_pool mx0 ! k)"
    by fastforce
  let ?ps = "if k = mx_current_model mx0 then push_window SAVEHISTORY q ps else ps"
  let ?hs = "hs[k := push_window SAVEHISTORY q (hs ! k)]"
  let ?mx = "mx0\<lparr>mx_history_prediction := ?ps, mx_model_history_prediction := ?hs\<rparr>"
  have "predict_model fl sample k (prob, mx) = Inr (if k = mx_current_model mx0 then r else prob, ?mx)"
    using p(1,3) hs(1) assms(2) by (simp add: predict_model_def mx)
  moreover have "length ?ps = min SAVEHISTORY (m + (if mx_current_model mx0 < k + 1 then 1 else 0))"
    using ps(1) by (auto simp: size_constants)
  moreover have "set ?ps \<subseteq> {0, 1}"
    using ps(2) p(2) set_push_window [of SAVEHISTORY q ps] by (cases "k = mx_current_model mx0") auto
  moreover have "\<forall>i<8. length (?hs ! i) = min SAVEHISTORY (m - (if i = 0 then 0 else 1) + (if i < k + 1 then 1 else 0))"
  proof (intro allI impI)
    fix i :: nat assume i: "i < 8"
    show "length (?hs ! i) = min SAVEHISTORY (m - (if i = 0 then 0 else 1) + (if i < k + 1 then 1 else 0))"
    proof (cases "i = k")
      case True
      moreover have "length (hs ! k) \<le> SAVEHISTORY" "length (hs ! k) = min SAVEHISTORY (m - (if k = 0 then 0 else 1))"
        using hs(2) assms(2) by simp_all
      ultimately show ?thesis using hs(1) i by (simp add: size_constants)
    qed (use hs i in auto)
  qed
  ultimately show ?thesis unfolding predicting_def using hs(1) by (intro exI [of _ ?mx] exI conjI) simp_all
qed

lemma all_predicted:
  assumes "predicting m 0 mx0 mx" and "k \<le> 8" and "1 \<le> m" and "pool_ok mx0" and "length sample = 5"
  shows "\<exists>prob' mx'. fold_result (predict_model fl sample) [0..<k] (prob, mx) = Inr (prob', mx') \<and> predicting m k mx0 mx'"
  using assms(2)
proof (induction k)
  case (Suc k)
  have append: "fold_result f (xs @ ys) s = bind_result (fold_result f xs s) (fold_result f ys)" for f xs ys and s :: "'a \<times> 'a monax"
    by (induction xs arbitrary: s) (simp_all add: bind_result_def split: sum.splits)
  obtain prob1 mx1 where one: "fold_result (predict_model fl sample) [0..<k] (prob, mx) = Inr (prob1, mx1)" "predicting m k mx0 mx1"
    using Suc by auto
  with one_predicted [OF one(2) _ assms(3-5), of fl prob1] Suc.prems show ?case by (auto simp: append)
qed (use assms(1) in simp)

lemma predicted:
  assumes "histories m 0 mx" and "1 \<le> m" and "pool_ok mx" and "models_ok mx" and "length sample = 5" and "bits_ok mx"
  shows "\<exists>prob ps hs. predict_models fl sample mx = Inr (prob, mx\<lparr>mx_history_prediction := ps, mx_model_history_prediction := hs\<rparr>) \<and>
    histories m 1 (mx\<lparr>mx_history_prediction := ps, mx_model_history_prediction := hs\<rparr>) \<and> set ps \<subseteq> {0, 1}"
proof -
  have "predicting m 0 mx mx"
    unfolding predicting_def using assms(1,6)
    by (intro exI [of _ "mx_history_prediction mx"] exI [of _ "mx_model_history_prediction mx"]) (simp add: histories_def bits_ok_def)
  from all_predicted [OF this order.refl assms(2,3,5), of fl "fl_lit fl 0 1"] obtain prob mx' where
    run: "predict_models fl sample mx = Inr (prob, mx')" "predicting m 8 mx mx'"
    using assms(3) by (auto simp: predict_models_def pool_ok_def)
  then obtain ps hs where mx': "mx' = mx\<lparr>mx_history_prediction := ps, mx_model_history_prediction := hs\<rparr>" and hs: "length hs = 8"
    and ps: "length ps = min SAVEHISTORY (m + (if mx_current_model mx < 8 then 1 else 0))" "set ps \<subseteq> {0, 1}"
    and each: "\<forall>i<8. length (hs ! i) = min SAVEHISTORY (m - (if i = 0 then 0 else 1) + (if i < 8 then 1 else 0))"
    unfolding predicting_def by blast
  have "mx_current_model mx < 8" using assms(4) by (simp add: models_ok_def)
  then have "histories m 1 (mx\<lparr>mx_history_prediction := ps, mx_model_history_prediction := hs\<rparr>)"
    using assms(1,2) hs ps(1) each by (simp add: histories_def)
  then show ?thesis using run(1) ps(2) unfolding mx' by blast
qed

text \<open>Changing the model.\<close>

lemma rate_models_too_short:
  assumes "length (mx_model_accuracy mx) = 7" and "mx_model_num mx = 8"
  shows "rate_models fl mx = Inl Undefined"
proof -
  let ?f = "\<lambda>i accuracies.
       bind_result (read_at (mx_model_history_prediction mx) i) (\<lambda>predictions.
       bind_result (check_accuracy fl predictions (mx_history_label mx)) (\<lambda>accuracy. write_at accuracies i accuracy))"
  have undefined_only: "fold_result f xs s = Inl e \<Longrightarrow> (\<And>x s e. f x s = Inl e \<Longrightarrow> e = Undefined) \<Longrightarrow> e = Undefined"
    for f :: "'b \<Rightarrow> 'c \<Rightarrow> 'c result" and xs s e
    by (induction xs arbitrary: s) (auto simp: bind_result_def split: sum.splits)
  have accuracy: "e = Undefined" if "check_accuracy fl p l = Inl e" for p l e
  proof -
    have "fold_result (\<lambda>i n. bind_result (read_at l i) (\<lambda>l. Inr (if p ! i = l then n + 1 else n))) [0..<length p] (0 :: int) = Inl e"
      using that by (auto simp: check_accuracy_def bind_result_def split: sum.splits)
    then show ?thesis by (rule undefined_only) (auto simp: read_at_def bind_result_def split: if_splits)
  qed
  have each: "?f i s = Inl e \<Longrightarrow> e = Undefined" for i s e
    by (auto simp: bind_result_def read_at_def write_at_def split: sum.splits if_splits dest: accuracy)
  have keeps: "?f i s = Inr s' \<Longrightarrow> i < length s \<and> length s' = length s" for i s s'
    by (auto simp: bind_result_def read_at_def write_at_def split: sum.splits if_splits)
  have grows: "fold_result ?f xs s = Inr s' \<Longrightarrow> \<forall>i\<in>set xs. i < length s" for xs s s'
  proof (induction xs arbitrary: s)
    case (Cons i xs)
    obtain s1 where "?f i s = Inr s1" "fold_result ?f xs s1 = Inr s'"
      using Cons.prems unfolding fold_result.simps bind_result_eq_Inr [of "?f i s"] by blast
    then show ?case using keeps [of i s s1] Cons.IH [of s1] by simp
  qed simp
  show ?thesis
  proof (cases "rate_models fl mx")
    case (Inl e)
    have "e = Undefined"
    proof (rule undefined_only)
      show "fold_result ?f [0..<mx_model_num mx] (mx_model_accuracy mx) = Inl e" using Inl by (simp add: rate_models_def)
    qed (rule each)
    then show ?thesis using Inl by simp
  next
    case (Inr s')
    then have "fold_result ?f [0..<8] (mx_model_accuracy mx) = Inr s'" using assms(2) by (simp only: rate_models_def)
    from grows [OF this] have "7 < length (mx_model_accuracy mx)" by simp
    then show ?thesis using assms(1) by simp
  qed
qed

lemma changed:
  assumes "pool_ok mx" and "models_ok mx" and "delay_rising fl (mo_network_delay (mx_monitor mx)) = Inr rising"
  shows "if rising \<and> mx_used_model mx = 7 then change_model fl mx = Inl Undefined
    else \<exists>mx' k as. mx' = mx\<lparr>mx_current_model := k, mx_model_accuracy := as, mx_used_model := mx_used_model mx + of_bool rising\<rparr> \<and>
      change_model fl mx = Inr mx' \<and> models_ok mx'"
proof -
  let ?to = "\<lambda>k as. mx\<lparr>mx_current_model := k, mx_model_accuracy := as, mx_used_model := mx_used_model mx + of_bool rising\<rparr>"
  consider "\<not> rising" | "rising" "mx_used_model mx = 7" | "rising" "mx_used_model mx < 7"
    using assms(2) by (fastforce simp: models_ok_def)
  then show ?thesis
  proof cases
    case 1
    then have "change_model fl mx = Inr (?to (mx_current_model mx) (mx_model_accuracy mx))"
      "models_ok (?to (mx_current_model mx) (mx_model_accuracy mx))"
      using assms(2,3) by (simp_all add: change_model_def models_ok_def)
    then have "\<exists>mx' k as. mx' = ?to k as \<and> change_model fl mx = Inr mx' \<and> models_ok mx'" by blast
    then show ?thesis using 1 by simp
  next
    case 2
    then show ?thesis
      using assms rate_models_too_short [of mx fl] by (simp add: change_model_def pool_ok_def models_ok_def)
  next
    case 3
    then have "change_model fl mx = Inr (?to (mx_current_model mx + 1) (mx_model_accuracy mx @ [fl_of_int fl (mx_accuracy mx)]))"
      "models_ok (?to (mx_current_model mx + 1) (mx_model_accuracy mx @ [fl_of_int fl (mx_accuracy mx)]))"
      using assms by (simp_all add: change_model_def pool_ok_def models_ok_def)
    then have "\<exists>mx' k as. mx' = ?to k as \<and> change_model fl mx = Inr mx' \<and> models_ok mx'" by blast
    then show ?thesis using 3 by simp
  qed
qed

text \<open>Aggregation and control.\<close>

lemma aggregated:
  assumes "1 \<le> length (mx_history_prediction mx)" and "2 \<le> length (mx_utility_record mx)"
    and "3 \<le> length (mo_network_delay (mx_monitor mx))" and "bits_ok mx"
  shows "\<exists>d p. policy_aggregation fl r1 r2 prob mx = Inr (d, p) \<and> (d = 0 \<or> d = 1)"
proof -
  have "mx_history_prediction mx ! (length (mx_history_prediction mx) - 1) \<in> set (mx_history_prediction mx)"
    using assms(1) by simp
  then have "mx_history_prediction mx ! (length (mx_history_prediction mx) - 1) \<in> {0, 1}"
    using assms(4) unfolding bits_ok_def by blast
  then show ?thesis
    using assms(1-3) by (simp add: policy_aggregation_def threshold_scale_def Let_def)
qed

lemma controlled:
  assumes "2 \<le> length (mx_history_decision mx)" and "1 \<le> length (mo_network_delay (mx_monitor mx))" and "steps_ok mx"
    and "INTERVAL_MIN \<le> mx_send_period mx" and "mx_send_period mx \<le> INTERVAL_MAX"
  shows "\<exists>period up down. rate_control fl result mx = Inr (period, mx\<lparr>mx_speedup_step := up, mx_slowdown_step := down\<rparr>) \<and>
    INTERVAL_MIN \<le> period \<and> period \<le> INTERVAL_MAX \<and> steps_ok (mx\<lparr>mx_speedup_step := up, mx_slowdown_step := down\<rparr>)"
proof -
  let ?ds = "mx_history_decision mx"
  define before where "before = ?ds ! (length ?ds - 2)"
  define now where "now = ?ds ! (length ?ds - 1)"
  have reads: "from_end 2 ?ds = Inr before" "from_end 1 ?ds = Inr now"
    "from_end 1 (mo_network_delay (mx_monitor mx)) =
      Inr (mo_network_delay (mx_monitor mx) ! (length (mo_network_delay (mx_monitor mx)) - 1))"
    using assms(1,2) by (simp_all add: before_def now_def)
  define up where "up = (if before = 1 \<and> now = 1
      then min (mx_stepsize_max mx) (mx_speedup_step mx + mx_speedup_step_change_rate mx) else mx_speedup_step mx)"
  define down where "down = (if before = 0 \<and> now = 0
      then min (mx_stepsize_max mx) (mx_slowdown_step mx + mx_slowdown_step_change_rate mx) else mx_slowdown_step mx)"
  have steps: "50 \<le> up" "up \<le> 300" "50 \<le> down" "down \<le> 300"
    using assms(3) by (auto simp: up_def down_def steps_ok_def)
  have fits: "int_sum (mx_send_period mx - up) = Inr (mx_send_period mx - up)"
    "int_sum (mx_send_period mx + down) = Inr (mx_send_period mx + down)"
    using steps assms(4,5) by (simp_all add: int_sum_def fits_int_def INTERVAL_MIN_def INTERVAL_MAX_def)
  have clamp: "INTERVAL_MIN \<le> min (max INTERVAL_MIN x) INTERVAL_MAX \<and> min (max INTERVAL_MIN x) INTERVAL_MAX \<le> INTERVAL_MAX" for x
    by (simp add: INTERVAL_MIN_def INTERVAL_MAX_def)
  let ?to = "\<lambda>u d. mx\<lparr>mx_speedup_step := u, mx_slowdown_step := d\<rparr>"
  have ok: "steps_ok (?to up (mx_slowdown_step mx))" "steps_ok (?to (mx_speedup_step mx) down)" "steps_ok (?to (mx_speedup_step mx) (mx_slowdown_step mx))"
    using steps assms(3) by (simp_all add: steps_ok_def)
  consider "fl_less fl (fl_lit fl 1 2) result" | "\<not> fl_less fl (fl_lit fl 1 2) result" "fl_less fl result (fl_lit fl 1 2)" |
    "\<not> fl_less fl (fl_lit fl 1 2) result" "\<not> fl_less fl result (fl_lit fl 1 2)" by blast
  then show ?thesis
  proof cases
    case 1
    then have "rate_control fl result mx = Inr (min (max INTERVAL_MIN (mx_send_period mx - up)) INTERVAL_MAX, ?to up (mx_slowdown_step mx))"
      using fits by (simp add: rate_control_def reads Let_def up_def [symmetric] del: from_end_in One_nat_def)
    then show ?thesis using clamp ok(1) by blast
  next
    case 2
    then have "rate_control fl result mx = Inr (min (max INTERVAL_MIN (mx_send_period mx + down)) INTERVAL_MAX, ?to (mx_speedup_step mx) down)"
      using fits by (simp add: rate_control_def reads Let_def down_def [symmetric] del: from_end_in One_nat_def)
    then show ?thesis using clamp ok(2) by blast
  next
    case 3
    then have "rate_control fl result mx = Inr (mx_send_period mx, ?to (mx_speedup_step mx) (mx_slowdown_step mx))"
      by (simp add: rate_control_def reads Let_def del: from_end_in One_nat_def)
    then show ?thesis using assms(4,5) ok(3) by blast
  qed
qed

lemma intervention:
  assumes "length ps = length ds" and "ps \<noteq> []"
  shows "\<exists>n. compute_intervention_prob ps ds = Inr n"
proof -
  have "\<exists>s'. fold_result (\<lambda>i n. bind_result (read_at ds i) (\<lambda>d. Inr (if ps ! i = d then n + 1 else n))) [0..<length ps] (0 :: nat) = Inr s' \<and> True"
    by (rule fold_result_keeps) (use assms in auto)
  then show ?thesis using assms by (auto simp: compute_intervention_prob_def)
qed

text \<open>An action on a full window.\<close>

definition all_turns_taken :: "'f doubles \<Rightarrow> 'f monax \<Rightarrow> bool" where
  "all_turns_taken fl mx \<longleftrightarrow> mx_used_model mx = 7 \<and> delay_rising fl (mo_network_delay (mx_monitor mx)) = Inr True"

text \<open>The labels the action works on, the one it has just given among them.\<close>

definition labels_given :: "'f doubles \<Rightarrow> 'f monax \<Rightarrow> int list" where
  "labels_given fl mx =
     (case bind_result (take_sample fl (mx_monitor mx)) (\<lambda>sample. bind_result (utility_function fl sample) (\<lambda>utility.
        label_history fl utility mx)) of
        Inl _ \<Rightarrow> [] | Inr mx \<Rightarrow> mx_history_label mx)"

definition in_interval :: "int \<Rightarrow> bool" where
  "in_interval n \<longleftrightarrow> INTERVAL_MIN \<le> n \<and> n \<le> INTERVAL_MAX"

lemma monax_ok_cwnd [simp]: "monax_ok fl (mx\<lparr>mx_current_cwnd := c\<rparr>) = monax_ok fl mx"
  unfolding monax_ok_def pool_ok_def models_ok_def histories_def recorded_def bits_ok_def steps_ok_def by (simp cong: if_cong)

lemma label_history_cwnd:
  "label_history fl u mx = Inr m \<Longrightarrow> label_history fl u (mx\<lparr>mx_current_cwnd := c\<rparr>) = Inr (m\<lparr>mx_current_cwnd := c\<rparr>)"
  by (cases "mx_coldstart mx"; cases "from_end 1 (mx_utility_record mx)"; cases "from_end 1 (mx_history_decision mx)")
    (auto simp: label_history_def Let_def bind_result_eq_Inr simp del: One_nat_def)

lemma action_taken:
  assumes ok: "monax_ok fl mx" and full: "windows MONITOR_LEN (mx_monitor mx)" and ieee: "ieee fl val"
    and period: "in_interval (mx_send_period mx)"
  shows "if labels_alike (labels_given fl mx) \<or> all_turns_taken fl mx then take_action fl r1 r2 mx = Inl Undefined
    else \<exists>period utility mx'. take_action fl r1 r2 mx = Inr (period, utility, mx') \<and> monax_ok fl mx' \<and> mx_monitor mx' = mx_monitor mx \<and>
      mx_used_model mx' = mx_used_model mx + of_bool (delay_rising fl (mo_network_delay (mx_monitor mx)) = Inr True) \<and>
      in_interval period"
proof -
  let ?mo = "mx_monitor mx"
  have ten: "length (mo_network_delay ?mo) = 10" "length (mo_delivery_rate ?mo) = 10" "length (mo_cwnd ?mo) = 10"
    using full by (simp_all add: windows_def size_constants)
  obtain sample where sample: "take_sample fl ?mo = Inr sample" "length sample = 5"
    using ten by (simp add: take_sample_def Let_def)
  obtain utility where utility: "utility_function fl sample = Inr utility"
    using sample(2) by (simp add: utility_function_def Let_def)
  obtain cwnd where cwnd: "fl_to_int fl (mo_cwnd ?mo ! 0) = Some cwnd"
  proof -
    have "mo_cwnd ?mo ! 0 \<in> set (mo_cwnd ?mo)" using ten(3) by simp
    moreover have "cwnds_ok fl ?mo" using ok unfolding monax_ok_def by blast
    ultimately show ?thesis using that unfolding cwnds_ok_def by fast
  qed
  let ?m0 = "mx\<lparr>mx_current_cwnd := cwnd\<rparr>"
  from labelled [OF ok, of fl utility] obtain m0 m where m0: "label_history fl utility mx = Inr m0" "1 \<le> m" "0 < mx_used_model mx \<longrightarrow> 2 \<le> m"
    "histories m 0 m0" "recorded m (m + 1) m0" "\<not> mx_coldstart m0" "pool_ok m0" "models_ok m0" "bits_ok m0" "steps_ok m0" "mx_monitor m0 = ?mo"
    "mx_used_model m0 = mx_used_model mx" "mx_send_period m0 = mx_send_period mx" by auto
  have labels: "labels_given fl mx = mx_history_label m0"
    using sample utility m0(1) by (simp add: labels_given_def)
  define m1 where "m1 = m0\<lparr>mx_current_cwnd := cwnd\<rparr>"
  then have m1: "label_history fl utility ?m0 = Inr m1" "histories m 0 m1" "recorded m (m + 1) m1" "\<not> mx_coldstart m1" "pool_ok m1"
    "models_ok m1" "bits_ok m1" "steps_ok m1" "mx_monitor m1 = ?mo"
    "mx_used_model m1 = mx_used_model mx" "mx_send_period m1 = mx_send_period mx" "mx_history_label m1 = labels_given fl mx"
    using label_history_cwnd [OF m0(1), of cwnd] m0(4-) labels
    by (simp_all add: histories_def recorded_def pool_ok_def models_ok_def bits_ok_def steps_ok_def)
  have start: "take_action fl r1 r2 mx = bind_result (modify_steps fl m1) (\<lambda>mx.
     bind_result (learn fl sample mx) (\<lambda>mx.
     bind_result (predict_models fl sample mx) (\<lambda>(prediction_prob, mx).
     bind_result (change_model fl mx) (\<lambda>mx.
     bind_result (policy_aggregation fl r1 r2 prediction_prob mx) (\<lambda>(decision, decision_prob).
     let mx = mx\<lparr>mx_history_decision := push_window SAVEHISTORY decision (mx_history_decision mx)\<rparr> in
     bind_result (rate_control fl decision_prob mx) (\<lambda>(send_period, mx).
     bind_result (compute_intervention_prob (mx_history_prediction mx) (mx_history_decision mx)) (\<lambda>p.
     Inr (send_period, utility, mx\<lparr>mx_intervention_prob := p\<rparr>))))))))"
    using sample utility cwnd m1(1) ten by (simp add: take_action_def)
  note stepped = steps_modified [OF m1(2) ieee m1(7,8), unfolded m1(12)]
  show ?thesis
  proof (cases "labels_alike (labels_given fl mx)")
    case True
    then show ?thesis using stepped start by simp
  next
    case not_alike: False
    then obtain up down where "modify_steps fl m1 = Inr (m1\<lparr>mx_speedup_step := up, mx_slowdown_step := down\<rparr>)"
      "steps_ok (m1\<lparr>mx_speedup_step := up, mx_slowdown_step := down\<rparr>)" using stepped by auto
    then obtain m2 where m2: "modify_steps fl m1 = Inr m2" "histories m 0 m2" "recorded m (m + 1) m2"
      "\<not> mx_coldstart m2" "pool_ok m2" "models_ok m2" "mx_monitor m2 = ?mo" "mx_used_model m2 = mx_used_model mx"
      "mx_send_period m2 = mx_send_period mx" "bits_ok m2" "steps_ok m2"
      using m1(2-) by (auto simp: histories_def recorded_def pool_ok_def models_ok_def bits_ok_def)
    from learned [OF m2(5,6,2) m0(2) _ sample(2), of fl] m0(3) obtain m3 where m3: "learn fl sample m2 = Inr m3" "pool_ok m3"
      "histories m 0 m3" "recorded m (m + 1) m3" "\<not> mx_coldstart m3" "models_ok m3" "mx_monitor m3 = ?mo"
      "mx_used_model m3 = mx_used_model mx" "mx_send_period m3 = mx_send_period mx" "bits_ok m3" "steps_ok m3"
      using m2 by (auto simp: histories_def recorded_def models_ok_def bits_ok_def steps_ok_def)
    from predicted [OF m3(3) m0(2) m3(2,6) sample(2) m3(10), of fl] obtain prob m4 where m4: "predict_models fl sample m3 = Inr (prob, m4)"
      "histories m 1 m4" "recorded m (m + 1) m4" "\<not> mx_coldstart m4" "pool_ok m4" "models_ok m4" "mx_monitor m4 = ?mo"
      "mx_used_model m4 = mx_used_model mx" "mx_send_period m4 = mx_send_period mx" "bits_ok m4" "steps_ok m4"
      using m3 by (auto simp: recorded_def pool_ok_def models_ok_def bits_ok_def steps_ok_def)
    obtain rising where rising: "delay_rising fl (mo_network_delay ?mo) = Inr rising"
      using ten by (simp add: delay_rising_def)
    have upto: "take_action fl r1 r2 mx = bind_result (change_model fl m4) (\<lambda>mx.
       bind_result (policy_aggregation fl r1 r2 prob mx) (\<lambda>(decision, decision_prob).
       let mx = mx\<lparr>mx_history_decision := push_window SAVEHISTORY decision (mx_history_decision mx)\<rparr> in
       bind_result (rate_control fl decision_prob mx) (\<lambda>(send_period, mx).
       bind_result (compute_intervention_prob (mx_history_prediction mx) (mx_history_decision mx)) (\<lambda>p.
       Inr (send_period, utility, mx\<lparr>mx_intervention_prob := p\<rparr>)))))"
      unfolding start using m2(1) m3(1) m4(1) by simp
    have turns: "all_turns_taken fl mx \<longleftrightarrow> rising \<and> mx_used_model m4 = 7"
      using rising m4(8) by (auto simp: all_turns_taken_def)
    note change = changed [OF m4(5,6), of fl rising, unfolded m4(7), OF rising]
    show ?thesis
    proof (cases "all_turns_taken fl mx")
      case True
      then show ?thesis using change turns upto by simp
    next
      case False
      then obtain m5 where m5: "change_model fl m4 = Inr m5" "models_ok m5" "histories m 1 m5" "recorded m (m + 1) m5" "\<not> mx_coldstart m5"
        "pool_ok m5" "mx_monitor m5 = ?mo" "mx_send_period m5 = mx_send_period mx"
        "mx_used_model m5 = mx_used_model mx + of_bool rising" "bits_ok m5" "steps_ok m5"
        using change turns m4 by (auto simp: histories_def recorded_def pool_ok_def bits_ok_def steps_ok_def)
      have ne: "1 \<le> length (mx_history_prediction m5)" "2 \<le> length (mx_utility_record m5)" "3 \<le> length (mo_network_delay (mx_monitor m5))"
        using m5(3,4,7) m0(2) ten by (simp_all add: histories_def recorded_def size_constants)
      obtain d p where agg: "policy_aggregation fl r1 r2 prob m5 = Inr (d, p)" "d = 0 \<or> d = 1"
        using aggregated [OF ne m5(10), of fl r1 r2 prob] by auto
      let ?m6 = "m5\<lparr>mx_history_decision := push_window SAVEHISTORY d (mx_history_decision m5)\<rparr>"
      have six: "histories m 1 ?m6" "recorded (m + 1) (m + 1) ?m6"
        using m5(3,4) by (simp_all add: histories_def recorded_def size_constants)
      have seven: "bits_ok ?m6" "steps_ok ?m6"
        using m5(10,11) agg(2) set_push_window [of SAVEHISTORY d "mx_history_decision m5"] by (auto simp: bits_ok_def steps_ok_def)
      have "2 \<le> length (mx_history_decision ?m6)" "1 \<le> length (mo_network_delay (mx_monitor ?m6))"
        using six(2) m0(2) m5(7) ten by (simp_all add: recorded_def size_constants)
      from controlled [OF this seven(2), of fl p] obtain interval up down where
        rate: "rate_control fl p ?m6 = Inr (interval, ?m6\<lparr>mx_speedup_step := up, mx_slowdown_step := down\<rparr>)"
        "in_interval interval" "steps_ok (?m6\<lparr>mx_speedup_step := up, mx_slowdown_step := down\<rparr>)"
        using period m5(8) by (auto simp: in_interval_def)
      have same: "length (mx_history_prediction ?m6) = length (mx_history_decision ?m6)" "mx_history_prediction ?m6 \<noteq> []"
        using six m0(2) by (auto simp: histories_def recorded_def size_constants)
      obtain n where n: "compute_intervention_prob (mx_history_prediction ?m6) (mx_history_decision ?m6) = Inr n"
        using intervention [OF same] by blast
      let ?m7 = "?m6\<lparr>mx_speedup_step := up, mx_slowdown_step := down, mx_intervention_prob := n\<rparr>"
      have "take_action fl r1 r2 mx = Inr (interval, utility, ?m7)"
        unfolding upto using m5(1) agg(1) rate(1) n by simp
      moreover have "monax_ok fl ?m7"
      proof -
        have "pool_ok ?m7" "models_ok ?m7" "histories m 1 ?m7" "recorded (m + 1) (m + 1) ?m7"
          using m5(2,6) six by (simp_all add: pool_ok_def models_ok_def histories_def recorded_def)
        moreover have "windows MONITOR_LEN (mx_monitor ?m7)" using full m5(7) by simp
        moreover have "bits_ok ?m7" "steps_ok ?m7" "cwnds_ok fl (mx_monitor ?m7)"
          using seven(1) rate(3) ok m5(7) by (simp_all add: bits_ok_def steps_ok_def monax_ok_def)
        ultimately show ?thesis using m0(2) m5(5) unfolding monax_ok_def by auto
      qed
      ultimately show ?thesis using False not_alike rate(2) m5(7-9) rising by (cases rising) simp_all
    qed
  qed
qed


section \<open>Properties\<close>

text \<open>The measurements that an update begins with.\<close>

definition after_measuring :: "'f doubles \<Rightarrow> 'f \<Rightarrow> 'f \<Rightarrow> int \<Rightarrow> int \<Rightarrow> 'f monax \<Rightarrow> 'f monax" where
  "after_measuring fl rtt throughput in_flight period mx =
     set_loss_status False (set_wnd_size fl 30 (set_snd_period fl period
       (set_flight_size fl in_flight (set_delivery_rate throughput (set_real_rtt rtt mx)))))"

lemma measured:
  assumes "monax_ok fl mx" and mx': "mx' = after_measuring fl rtt throughput in_flight period mx" and ieee: "ieee fl val"
  shows "monax_ok fl mx'"
    and "mx_used_model mx' = mx_used_model mx" "mx_send_period mx' = period"
    and "mo_network_delay (mx_monitor mx') = push_window MONITOR_LEN rtt (mo_network_delay (mx_monitor mx))"
    and "MONITOR_LEN \<le> length (mo_network_delay (mx_monitor mx')) \<Longrightarrow> windows MONITOR_LEN (mx_monitor mx')"
proof -
  note setters = mx' after_measuring_def set_loss_status_def set_wnd_size_def set_snd_period_def set_flight_size_def
    set_delivery_rate_def set_real_rtt_def
  obtain k where k: "k \<le> MONITOR_LEN" "windows k (mx_monitor mx)" using assms(1) by (auto simp: monax_ok_def)
  then have w: "windows (min MONITOR_LEN (k + 1)) (mx_monitor mx')"
    by (simp add: setters windows_def size_constants)
  then have win: "\<exists>n\<le>MONITOR_LEN. windows n (mx_monitor mx')" by (rule exI [of _ "min MONITOR_LEN (k + 1)", OF conjI, rotated]) simp
  have "val (fl_of_int fl 30) = Some (of_int 30)" by (rule ieeeD(1) [OF ieee]) (simp add: fits_int_def)
  then have "stays_in 30 (val (fl_of_int fl 30))" by (simp add: stays_in_def)
  from small_converts [OF ieee this] have "fl_to_int fl (fl_of_int fl 30) \<noteq> None" by auto
  then have "cwnds_ok fl (mx_monitor mx')"
    using assms(1) set_push_window [of MONITOR_LEN "fl_of_int fl 30" "mo_cwnd (mx_monitor mx)"]
    unfolding cwnds_ok_def monax_ok_def by (auto simp: setters)
  then show "monax_ok fl mx'"
    using assms(1) win unfolding monax_ok_def pool_ok_def models_ok_def histories_def recorded_def bits_ok_def steps_ok_def
    by (simp add: setters cong: if_cong)
  show "mx_used_model mx' = mx_used_model mx" "mx_send_period mx' = period"
    "mo_network_delay (mx_monitor mx') = push_window MONITOR_LEN rtt (mo_network_delay (mx_monitor mx))"
    by (simp_all add: setters)
  show "windows MONITOR_LEN (mx_monitor mx')" if "MONITOR_LEN \<le> length (mo_network_delay (mx_monitor mx'))"
  proof -
    have "length (mo_network_delay (mx_monitor mx')) = min MONITOR_LEN (k + 1)" using w unfolding windows_def by blast
    then have "min MONITOR_LEN (k + 1) = MONITOR_LEN" using that by simp
    with w show ?thesis by simp
  qed
qed

text \<open>One update.\<close>

lemma update_classified:
  assumes mx1: "mx1 = after_measuring fl rtt throughput in_flight period mx"
    and "monax_ok fl mx" and "ieee fl val" and "in_interval period"
  shows "if length (mo_network_delay (mx_monitor mx1)) = MONITOR_LEN \<and>
      (labels_alike (labels_given fl mx1) \<or> all_turns_taken fl mx1)
    then monax_update fl rtt throughput in_flight period r1 r2 mx = Inl Undefined
    else \<exists>mx'. monax_update fl rtt throughput in_flight period r1 r2 mx = Inr mx' \<and> monax_ok fl mx' \<and>
      mo_network_delay (mx_monitor mx') = push_window MONITOR_LEN rtt (mo_network_delay (mx_monitor mx)) \<and>
      mx_used_model mx' = mx_used_model mx +
        of_bool (length (push_window MONITOR_LEN rtt (mo_network_delay (mx_monitor mx))) = MONITOR_LEN \<and>
          delay_rising fl (push_window MONITOR_LEN rtt (mo_network_delay (mx_monitor mx))) = Inr True) \<and>
      in_interval (mx_send_period mx')"
proof -
  note ms = measured [OF assms(2) mx1 assms(3)]
  let ?delay = "push_window MONITOR_LEN rtt (mo_network_delay (mx_monitor mx))"
  obtain k where "k \<le> MONITOR_LEN" "windows k (mx_monitor mx)" using assms(2) by (auto simp: monax_ok_def)
  then have len: "length ?delay \<le> MONITOR_LEN" by (simp add: windows_def size_constants)
  have upd: "monax_update fl rtt throughput in_flight period r1 r2 mx = calc_cc_para fl r1 r2 mx1"
    by (simp add: monax_update_def mx1 after_measuring_def)
  show ?thesis
  proof (cases "length ?delay < MONITOR_LEN")
    case True
    then show ?thesis using ms(1-4) assms(4) by (simp add: upd calc_cc_para_def)
  next
    case False
    then have full: "windows MONITOR_LEN (mx_monitor mx1)" using ms(4,5) by simp
    have run: "monax_update fl rtt throughput in_flight period r1 r2 mx = bind_result (take_action fl r1 r2 mx1) (\<lambda>(send_period, utility, mx).
        Inr (mx\<lparr>mx_send_period := send_period, mx_current_utility := Some utility\<rparr>))"
      using False ms(4) by (simp add: upd calc_cc_para_def)
    have kept: "monax_ok fl (mx'\<lparr>mx_send_period := q, mx_current_utility := u\<rparr>)" if "monax_ok fl mx'" for mx' :: "'a monax" and q u
      using that unfolding monax_ok_def pool_ok_def models_ok_def histories_def recorded_def bits_ok_def steps_ok_def
      by (simp cong: if_cong)
    have period: "in_interval (mx_send_period mx1)" using ms(3) assms(4) by simp
    from action_taken [OF ms(1) full assms(3) period, of r1 r2] show ?thesis
      using False len ms(2-4) kept unfolding run by (auto split: if_splits)
  qed
qed

lemma rising_window:
  assumes "\<forall>i<16. fl_less fl (d i) (d (Suc i))" and "k \<le> 7"
  shows "delay_rising fl (map d [k..<k + 10]) = Inr True"
  using assms by (simp add: delay_rising_def numeral_eq_Suc)

lemma slid: "push_window MONITOR_LEN (d k) (map d [k - 10..<k]) = map d [Suc k - 10..<Suc k]"
proof (cases "k < 10")
  case False
  then have "[k - 10..<k] = (k - 10) # [Suc (k - 10)..<k]" by (simp add: upt_rec)
  moreover have "Suc (k - 10) = k - 9" "Suc k - 10 = k - 9" using False by simp_all
  ultimately show ?thesis using False by (simp add: push_window_def size_constants)
qed (simp add: push_window_def size_constants)

lemma fold_result_append: "fold_result f (xs @ ys) s = bind_result (fold_result f xs s) (fold_result f ys)"
  by (induction xs arbitrary: s) (simp_all add: bind_result_def split: sum.splits)

text \<open>Rising delays.\<close>

lemma rising_updates:
  assumes up: "\<forall>i<16. fl_less fl (d i) (d (Suc i))" and ieee: "ieee fl val" and period: "\<forall>i<17. in_interval (period i)"
    and "k \<le> 16"
  shows "fold_result (\<lambda>i. monax_update fl (d i) (throughput i) (in_flight i) (period i) (r1 i) (r2 i)) [0..<k]
      (new_monax fl 5 alpha beta lambda1 lambda2 cwnd interval) = Inl Undefined \<or>
    (\<exists>mx. fold_result (\<lambda>i. monax_update fl (d i) (throughput i) (in_flight i) (period i) (r1 i) (r2 i)) [0..<k]
      (new_monax fl 5 alpha beta lambda1 lambda2 cwnd interval) = Inr mx \<and> monax_ok fl mx \<and>
    mo_network_delay (mx_monitor mx) = map d [k - 10..<k] \<and> mx_used_model mx = k - 9)"
  using assms(4)
proof (induction k)
  case 0
  have "mo_network_delay (mx_monitor (new_monax fl 5 alpha beta lambda1 lambda2 cwnd interval)) = []"
    "mx_used_model (new_monax fl 5 alpha beta lambda1 lambda2 cwnd interval) = 0" by (simp_all add: new_monax_def Let_def)
  then show ?case by simp
next
  case (Suc k)
  let ?f = "\<lambda>i. monax_update fl (d i) (throughput i) (in_flight i) (period i) (r1 i) (r2 i)"
  let ?new = "new_monax fl 5 alpha beta lambda1 lambda2 cwnd interval"
  have last: "fold_result ?f [0..<Suc k] ?new = bind_result (fold_result ?f [0..<k] ?new) (fold_result ?f [k])"
    unfolding fold_result_append [symmetric] by simp
  consider "fold_result ?f [0..<k] ?new = Inl Undefined" | mx where "fold_result ?f [0..<k] ?new = Inr mx" "monax_ok fl mx"
    "mo_network_delay (mx_monitor mx) = map d [k - 10..<k]" "mx_used_model mx = k - 9"
    using Suc.IH Suc.prems by auto
  then show ?case
  proof cases
    case 1
    then show ?thesis unfolding last by simp
  next
    case (2 mx)
    have in_k: "in_interval (period k)" using period Suc.prems by simp
    note one = update_classified [OF refl 2(2) ieee in_k, where rtt = "d k" and throughput = "throughput k" and in_flight = "in_flight k"
        and ?r1.0 = "r1 k" and ?r2.0 = "r2 k", unfolded 2(3,4) slid]
    have full: "length (map d [Suc k - 10..<Suc k]) = MONITOR_LEN \<longleftrightarrow> 9 \<le> k" by (auto simp: size_constants)
    have rise: "delay_rising fl (map d [Suc k - 10..<Suc k]) = Inr True" if "9 \<le> k"
      using rising_window [OF up, of "Suc k - 10"] that Suc.prems by simp
    have used: "k - 9 + of_bool (9 \<le> k \<and> delay_rising fl (map d [Suc k - 10..<Suc k]) = Inr True) = Suc k - 9"
      using rise by (cases "9 \<le> k") simp_all
    have "?f k mx = Inl Undefined \<or> (\<exists>mx'. ?f k mx = Inr mx' \<and> monax_ok fl mx' \<and>
        mo_network_delay (mx_monitor mx') = map d [Suc k - 10..<Suc k] \<and> mx_used_model mx' = Suc k - 9)"
      using one unfolding full used by (auto split: if_splits)
    then show ?thesis unfolding last 2(1) by (elim disjE exE) simp_all
  qed
qed


text \<open>Exact rational numbers as an arithmetic, for examples: what is infinite or not a number is \<open>None\<close>.\<close>

definition lift_rat :: "(rat \<Rightarrow> rat \<Rightarrow> rat) \<Rightarrow> rat option \<Rightarrow> rat option \<Rightarrow> rat option" where
  "lift_rat f x y = (case x of None \<Rightarrow> None | Some a \<Rightarrow> (case y of None \<Rightarrow> None | Some b \<Rightarrow> Some (f a b)))"

definition exact :: "rat option doubles" where
  "exact = \<lparr>fl_lit = (\<lambda>n d. Some (of_int n / of_int d)), fl_of_int = (\<lambda>n. Some (of_int n)),
     fl_to_int = (\<lambda>x. case x of None \<Rightarrow> None | Some a \<Rightarrow> if fits_int (toward_zero a) then Some (toward_zero a) else None),
     fl_single = (\<lambda>x. x), fl_add = lift_rat (+), fl_sub = lift_rat (-), fl_mul = lift_rat (*),
     fl_div = (\<lambda>x y. if y = Some 0 then None else lift_rat (/) x y),
     fl_less = (\<lambda>x y. case lift_rat (-) x y of None \<Rightarrow> False | Some a \<Rightarrow> a < 0),
     fl_eq = (\<lambda>x y. x \<noteq> None \<and> x = y), fl_sqrt = (\<lambda>x. x), fl_exp = (\<lambda>x. Some 1),
     fl_square = (\<lambda>x. lift_rat (*) x x), fl_abs = map_option abs\<rparr>"

lemma exact_ieee: "ieee exact (\<lambda>x. x)"
  unfolding ieee_def by (auto simp: exact_def lift_rat_def stays_in_def split: option.splits)

definition new_controller :: "rat option monax" where
  "new_controller = new_monax exact 5 (Some (1 / 5)) (Some 1) (Some (1 / 5)) (Some (1 / 5)) 30 500"

definition nine_measured :: "rat option monax" where
  "nine_measured = new_controller\<lparr>mx_monitor := \<lparr>mo_network_delay = replicate 9 (Some 20), mo_send_period = replicate 9 (Some 500),
     mo_delivery_rate = replicate 9 (Some 100), mo_inflight_size = replicate 9 (Some 0), mo_cwnd = replicate 9 (Some 30)\<rparr>\<rparr>"


text \<open>C19: The congestion controller outruns its models.  With an arithmetic as the standards describe it and periods
  between 10 and 2000 microseconds, if the delay that it measures rises from each of the first seventeen frames to
  the next, then by the seventeenth, on which the eighth change of the model falls, the
  controller has run into undefined behaviour, whatever the throughput and the parameters are: if it has not divided
  by zero in a conversion before, it leaves its vectors.\<close>

theorem monax_overruns:
  assumes "\<forall>i<16. fl_less fl (delay i) (delay (Suc i))" and "ieee fl val" and "\<forall>i<17. in_interval (period i)"
  shows "fold_result (\<lambda>i. monax_update fl (delay i) (throughput i) (in_flight i) (period i) (r1 i) (r2 i)) [0..<17]
    (new_monax fl 5 alpha beta lambda1 lambda2 cwnd interval) = Inl Undefined"
proof -
  let ?f = "\<lambda>i. monax_update fl (delay i) (throughput i) (in_flight i) (period i) (r1 i) (r2 i)"
  let ?new = "new_monax fl 5 alpha beta lambda1 lambda2 cwnd interval"
  have "[0..<17] = [0..<16] @ [16 :: nat]" by (simp add: upt_rec)
  then have last: "fold_result ?f [0..<17] ?new = bind_result (fold_result ?f [0..<16] ?new) (fold_result ?f [16])"
    by (simp only: fold_result_append)
  have "?f 16 mx = Inl Undefined" if mx: "monax_ok fl mx" "mo_network_delay (mx_monitor mx) = map delay [16 - 10..<16]"
    "mx_used_model mx = 16 - 9" for mx
  proof -
    let ?m = "after_measuring fl (delay 16) (throughput 16) (in_flight 16) (period 16) mx"
    note ms = measured [OF mx(1) refl assms(2), where rtt = "delay 16" and throughput = "throughput 16"
        and in_flight = "in_flight 16" and period = "period 16"]
    have window: "mo_network_delay (mx_monitor ?m) = map delay [7..<17]"
      unfolding ms(4) mx(2) using slid [of delay 16] by simp
    have "all_turns_taken fl ?m"
      unfolding all_turns_taken_def window ms(2) using rising_window [OF assms(1), of 7] mx(3) by simp
    moreover have "in_interval (period 16)" using assms(3) by simp
    ultimately show ?thesis
      using update_classified [OF refl mx(1) assms(2), where rtt = "delay 16" and throughput = "throughput 16" and in_flight = "in_flight 16"
        and period = "period 16" and ?r1.0 = "r1 16" and ?r2.0 = "r2 16"] window by (simp add: size_constants)
  qed
  moreover have "fold_result ?f [0..<16] ?new = Inl Undefined \<or> (\<exists>mx. fold_result ?f [0..<16] ?new = Inr mx \<and> monax_ok fl mx \<and>
      mo_network_delay (mx_monitor mx) = map delay [16 - 10..<16] \<and> mx_used_model mx = 16 - 9)"
    by (rule rising_updates [OF assms order.refl])
  ultimately show ?thesis unfolding last by (elim disjE exE conjE) (simp_all del: upt_conv_Cons_Cons)
qed

theorem monax_overruns_witness:
  "fold_result (\<lambda>i. monax_update exact (Some (of_nat i)) (Some 100) 3 500 0 0) [0..<17] new_controller = Inl Undefined"
  unfolding new_controller_def
  by (rule monax_overruns [OF _ exact_ieee])
    (simp_all add: exact_def lift_rat_def in_interval_def INTERVAL_MIN_def INTERVAL_MAX_def)

text \<open>Whole numbers as an arithmetic, for an example that converts nothing.\<close>

definition whole_numbers :: "int doubles" where
  "whole_numbers = \<lparr>fl_lit = (\<lambda>n d. n div d), fl_of_int = (\<lambda>n. n), fl_to_int = Some, fl_single = (\<lambda>x. x), fl_add = (+), fl_sub = (-),
     fl_mul = (*), fl_div = (div), fl_less = (<), fl_eq = (=), fl_sqrt = (\<lambda>x. x), fl_exp = (\<lambda>x. 0), fl_square = (\<lambda>x. x * x),
     fl_abs = abs\<rparr>"

text \<open>C20: The aggregation overrules the models.  The random numbers it draws are divided by 100 as integers and so
  are always 0: the decision is to speed up whenever the mean of the last three delays is below the threshold and
  to slow down whenever it is above it, and what the models predict counts only when it is exactly the threshold.\<close>

theorem aggregation_overrules_models:
  assumes "\<forall>x. fl_less fl x (fl_of_int fl 0) \<longrightarrow> fl_less fl (fl_of_int fl 0) (fl_mul fl (fl_of_int fl (- 1)) x)"
    and "mx_history_prediction mx \<noteq> []" and "2 \<le> length (mx_utility_record mx)"
    and "threshold_scale fl (mo_network_delay (mx_monitor mx)) = Inr scale"
  shows "\<exists>prob'. policy_aggregation fl rand1 rand2 prob mx = Inr
    (if fl_less fl (fl_of_int fl 0) scale then 1
     else if fl_less fl scale (fl_of_int fl 0) then 0 else last (mx_history_prediction mx), prob')"
proof -
  have zero: "int (r mod 100 div 100) = 0" for r :: nat by simp
  have "from_end 1 (mx_history_prediction mx) = Inr (last (mx_history_prediction mx))"
    using assms(2) by (simp add: last_conv_nth Suc_le_eq)
  moreover have "1 \<le> length (mx_utility_record mx)" using assms(3) by simp
  ultimately show ?thesis
    using assms(1,3,4) unfolding policy_aggregation_def Let_def zero by (auto simp del: One_nat_def)
qed

theorem aggregation_overrules_models_witness:
  "\<exists>prob'. policy_aggregation whole_numbers 41 99 7
    ((new_monax whole_numbers 5 1 1 0 0 30 500)\<lparr>mx_history_prediction := [1, 0], mx_utility_record := [0, 0],
       mx_monitor := (mx_monitor (new_monax whole_numbers 5 1 1 0 0 30 500))\<lparr>mo_network_delay := [- 300, 0, 30]\<rparr>\<rparr>) =
    Inr (if fl_less whole_numbers (fl_of_int whole_numbers 0) 4 then 1
     else if fl_less whole_numbers 4 (fl_of_int whole_numbers 0) then 0
     else last (mx_history_prediction ((new_monax whole_numbers 5 1 1 0 0 30 500)\<lparr>mx_history_prediction := [1, 0], mx_utility_record := [0, 0],
       mx_monitor := (mx_monitor (new_monax whole_numbers 5 1 1 0 0 30 500))\<lparr>mo_network_delay := [- 300, 0, 30]\<rparr>\<rparr>)), prob')"
  by (rule aggregation_overrules_models) (simp_all add: whole_numbers_def threshold_scale_def RTT_THRESHOLD_def)

end
