(* ===== verification/Ivf_File.thy ===== *)
theory Ivf_File
  imports Byte_Chunk
begin

text \<open>
  IVF files: \<open>IVF\<close> (src/src/util/ivf.cc), which indexes a file of frames, and \<open>IVFWriter\<close>
  (src/src/util/ivf_writer.cc), which appends frames to one and keeps the count in its header.  A file is its
  bytes; opening, mapping and extending it are the operating system's.
\<close>

section \<open>Reading\<close>

record ivf =
  iv_file :: chunk
  iv_fourcc :: bytes
  iv_width :: u16
  iv_height :: u16
  iv_frame_rate :: u32
  iv_time_scale :: u32
  iv_frame_count :: u32
  iv_expected_decoder_minihash :: u32
  iv_frame_index :: "(u64 \<times> u32) list"

definition supported_header_len :: nat where "supported_header_len = 32"

definition frame_header_len :: nat where "frame_header_len = 12"

definition le16_at :: "chunk \<Rightarrow> u64 \<Rightarrow> u16 result" where
  "le16_at c offset = bind_result (chunk_sub c offset 2) le16"

definition le32_at :: "chunk \<Rightarrow> u64 \<Rightarrow> u64 result" where
  "le32_at c offset = bind_result (chunk_sub c offset 4) le32"

definition string_at :: "chunk \<Rightarrow> u64 \<Rightarrow> bytes result" where
  "string_at c offset = bind_result (chunk_sub c offset 4) chunk_to_string"

text \<open>The sum of the lengths of a frame's header and its data is a 32-bit number.\<close>

primrec index_frames :: "chunk \<Rightarrow> nat \<Rightarrow> u64 \<Rightarrow> (u64 \<times> u32) list result" where
  "index_frames file 0 position = Inr []"
| "index_frames file (Suc n) position =
     bind_result (chunk_sub file position (word_of_nat frame_header_len)) (\<lambda>frame_header.
     bind_result (le32 frame_header) (\<lambda>len.
     let frame_len = ucast len :: u32 in
     bind_result (index_frames file n (position + ucast (word_of_nat frame_header_len + frame_len))) (\<lambda>index.
     Inr ((position + word_of_nat frame_header_len, frame_len) # index))))"

definition ivf_DKIF :: bytes where "ivf_DKIF = [0x44, 0x4B, 0x49, 0x46]"

lemma length_DKIF [simp]: "length ivf_DKIF = 4"
  by (simp add: ivf_DKIF_def)

definition parse_ivf :: "chunk \<Rightarrow> ivf result" where
  "parse_ivf file =
     bind_result (chunk_sub file 0 (word_of_nat supported_header_len)) (\<lambda>header.
     bind_result (string_at header 8) (\<lambda>fourcc.
     bind_result (le16_at header 12) (\<lambda>w.
     bind_result (le16_at header 14) (\<lambda>h.
     bind_result (le32_at header 16) (\<lambda>rate.
     bind_result (le32_at header 20) (\<lambda>scale.
     bind_result (le32_at header 24) (\<lambda>count.
     bind_result (le32_at header 28) (\<lambda>expected.
     bind_result (string_at header 0) (\<lambda>magic.
     bind_result (check (magic = ivf_DKIF) Invalid) (\<lambda>_.
     bind_result (le16_at header 4) (\<lambda>version.
     bind_result (check (version = 0) Unsupported) (\<lambda>_.
     bind_result (le16_at header 6) (\<lambda>header_len.
     bind_result (check (header_len = word_of_nat supported_header_len) Unsupported) (\<lambda>_.
     bind_result (index_frames file (unat (ucast count :: u32)) (word_of_nat supported_header_len)) (\<lambda>index.
     Inr \<lparr>iv_file = file, iv_fourcc = fourcc, iv_width = w, iv_height = h, iv_frame_rate = ucast rate,
          iv_time_scale = ucast scale, iv_frame_count = ucast count, iv_expected_decoder_minihash = ucast expected,
          iv_frame_index = index\<rparr>)))))))))))))))"

definition open_ivf :: "bytes \<Rightarrow> ivf result" where
  "open_ivf bs = (case parse_ivf (chunk_of bs) of Inl Out_of_range \<Rightarrow> Inl Invalid | r \<Rightarrow> r)"

definition ivf_frame :: "ivf \<Rightarrow> u32 \<Rightarrow> chunk result" where
  "ivf_frame iv index =
     (case at (iv_frame_index iv) (unat index) of
        None \<Rightarrow> Inl Out_of_range
      | Some (offset, len) \<Rightarrow> chunk_sub (iv_file iv) offset (ucast len))"


section \<open>Writing\<close>

record ivf_writer =
  iw_file :: bytes
  iw_file_size :: u64
  iw_frame_count :: u32
  iw_width :: u16
  iw_height :: u16

definition patch :: "nat \<Rightarrow> bytes \<Rightarrow> bytes \<Rightarrow> bytes" where
  "patch offset new bs = take offset bs @ new @ drop (offset + length new) bs"

definition memcpy_le16 :: "nat \<Rightarrow> u16 \<Rightarrow> bytes \<Rightarrow> bytes" where
  "memcpy_le16 offset val = patch offset (nat_le 2 (unat val))"

definition memcpy_le32 :: "nat \<Rightarrow> u32 \<Rightarrow> bytes \<Rightarrow> bytes" where
  "memcpy_le32 offset val = patch offset (nat_le 4 (unat val))"

definition ivf_header :: "bytes \<Rightarrow> u16 \<Rightarrow> u16 \<Rightarrow> u32 \<Rightarrow> u32 \<Rightarrow> bytes" where
  "ivf_header fourcc w h rate scale =
     memcpy_le32 20 scale (memcpy_le32 16 rate (memcpy_le16 14 h (memcpy_le16 12 w (patch 8 fourcc
       (memcpy_le16 6 (word_of_nat supported_header_len) (patch 0 ivf_DKIF (replicate supported_header_len 0)))))))"

text \<open>The writer of a new file.\<close>

definition new_ivf_writer :: "bytes \<Rightarrow> u16 \<Rightarrow> u16 \<Rightarrow> u32 \<Rightarrow> u32 \<Rightarrow> ivf_writer result" where
  "new_ivf_writer fourcc w h rate scale =
     bind_result (check (length fourcc = 4) Internal_error) (\<lambda>_.
     let header = ivf_header fourcc w h rate scale in
     Inr \<lparr>iw_file = header, iw_file_size = word_of_nat supported_header_len, iw_frame_count = 0, iw_width = w, iw_height = h\<rparr>)"

definition set_expected_decoder_entry_hash :: "u32 \<Rightarrow> ivf_writer \<Rightarrow> ivf_writer" where
  "set_expected_decoder_entry_hash minihash iw = iw\<lparr>iw_file := memcpy_le32 28 minihash (iw_file iw)\<rparr>"

definition header_frame_count :: "bytes \<Rightarrow> u64 result" where
  "header_frame_count file = le32_at (chunk_of (take supported_header_len file)) 24"

definition append_frame :: "chunk \<Rightarrow> ivf_writer \<Rightarrow> (u64 \<times> ivf_writer) result" where
  "append_frame frame iw =
     bind_result (header_frame_count (iw_file iw)) (\<lambda>count.
     bind_result (check (ucast (iw_frame_count iw) = count) Assert_failed) (\<lambda>_.
     bind_result (check (iw_file_size iw = word_of_nat (length (iw_file iw))) Assert_failed) (\<lambda>_.
     bind_result (chunk_to_string frame) (\<lambda>bs.
     let file = iw_file iw @ memcpy_le32 0 (ucast (ck_size frame)) (replicate frame_header_len 0);
         written_offset = iw_file_size iw + word_of_nat frame_header_len;
         file = file @ bs;
         file_size = written_offset + ck_size frame in
     bind_result (check (word_of_nat (length file) = file_size) Assert_failed) (\<lambda>_.
     let frame_count = iw_frame_count iw + 1;
         file = memcpy_le32 24 frame_count file in
     bind_result (header_frame_count file) (\<lambda>count.
     bind_result (check (ucast frame_count = count) Assert_failed) (\<lambda>_.
     Inr (written_offset, iw\<lparr>iw_file := file, iw_file_size := file_size, iw_frame_count := frame_count\<rparr>))))))))"

primrec append_frames :: "bytes list \<Rightarrow> ivf_writer \<Rightarrow> ivf_writer result" where
  "append_frames [] iw = Inr iw"
| "append_frames (f # fs) iw = bind_result (append_frame (chunk_of f) iw) (\<lambda>(offset, iw). append_frames fs iw)"


section \<open>The image of a file\<close>

definition header_image :: "bytes \<Rightarrow> u16 \<Rightarrow> u16 \<Rightarrow> u32 \<Rightarrow> u32 \<Rightarrow> u32 \<Rightarrow> u32 \<Rightarrow> bytes" where
  "header_image fourcc w h rate scale count expected =
     ivf_DKIF @ [0, 0, 32, 0] @ fourcc @ nat_le 2 (unat w) @ nat_le 2 (unat h) @ nat_le 4 (unat rate) @
     nat_le 4 (unat scale) @ nat_le 4 (unat count) @ nat_le 4 (unat expected)"

definition frame_image :: "bytes \<Rightarrow> bytes" where
  "frame_image f = nat_le 4 (length f) @ replicate 8 0 @ f"

definition file_image :: "bytes \<Rightarrow> u16 \<Rightarrow> u16 \<Rightarrow> u32 \<Rightarrow> u32 \<Rightarrow> u32 \<Rightarrow> bytes list \<Rightarrow> bytes" where
  "file_image fourcc w h rate scale expected fs =
     header_image fourcc w h rate scale (word_of_nat (length fs)) expected @ concat (map frame_image fs)"

lemma length_header_image [simp]: "length fourcc = 4 \<Longrightarrow> length (header_image fourcc w h rate scale count expected) = 32"
  by (simp add: header_image_def ivf_DKIF_def)

lemma length_frame_image [simp]: "length (frame_image f) = 12 + length f"
  by (simp add: frame_image_def)

lemma patch_middle:
  "length a = offset \<Longrightarrow> length b = length new \<Longrightarrow> patch offset new (a @ b @ c) = a @ new @ c"
  by (simp add: patch_def)

lemma patch_field:
  "length a = offset \<Longrightarrow> memcpy_le16 offset v (a @ nat_le 2 n @ c) = a @ nat_le 2 (unat v) @ c"
  "length a = offset \<Longrightarrow> memcpy_le32 offset x (a @ nat_le 4 n @ c) = a @ nat_le 4 (unat x) @ c"
  by (simp_all add: memcpy_le16_def memcpy_le32_def patch_middle)

lemma header_parts:
  "header_image fourcc w h rate scale count expected =
    (ivf_DKIF @ [0, 0] @ nat_le 2 32 @ fourcc) @ nat_le 2 (unat w) @ nat_le 2 (unat h) @ nat_le 4 (unat rate) @
     nat_le 4 (unat scale) @ nat_le 4 (unat count) @ nat_le 4 (unat expected)"
  by (simp add: header_image_def numeral_2_eq_2)

lemma patch_count:
  assumes "length fourcc = 4"
  shows "memcpy_le32 24 n (header_image fourcc w h rate scale count expected @ rest) =
    header_image fourcc w h rate scale n expected @ rest"
  using patch_field(2) [of "(ivf_DKIF @ [0, 0] @ nat_le 2 32 @ fourcc) @ nat_le 2 (unat w) @ nat_le 2 (unat h) @
      nat_le 4 (unat rate) @ nat_le 4 (unat scale)" 24 n "unat count" "nat_le 4 (unat expected) @ rest"] assms
  unfolding header_parts append_assoc by (simp add: ivf_DKIF_def)

lemma patch_expected:
  assumes "length fourcc = 4"
  shows "memcpy_le32 28 n (header_image fourcc w h rate scale count expected @ rest) =
    header_image fourcc w h rate scale count n @ rest"
  using patch_field(2) [of "(ivf_DKIF @ [0, 0] @ nat_le 2 32 @ fourcc) @ nat_le 2 (unat w) @ nat_le 2 (unat h) @
      nat_le 4 (unat rate) @ nat_le 4 (unat scale) @ nat_le 4 (unat count)" 28 n "unat expected" rest] assms
  unfolding header_parts append_assoc by (simp add: ivf_DKIF_def)

lemma header_written:
  assumes "length fourcc = 4"
  shows "ivf_header fourcc w h rate scale = header_image fourcc w h rate scale 0 0"
proof -
  let ?magic = "ivf_DKIF @ [0, 0]"
  have zeros: "replicate k (0 :: u8) = nat_le k 0" for k by (induction k) simp_all
  have split: "nat_le (a + b) 0 = nat_le a 0 @ nat_le b 0" for a b
    by (simp add: zeros [symmetric] replicate_add)
  have "replicate supported_header_len 0 = nat_le 4 0 @ nat_le 2 0 @ nat_le 2 0 @ nat_le 4 0 @ nat_le 2 0 @ nat_le 2 0 @
      nat_le 4 0 @ nat_le 4 0 @ nat_le 4 0 @ nat_le 4 0"
    by (simp add: supported_header_len_def zeros split [symmetric])
  moreover have two: "[0, 0] = nat_le 2 0" by (simp add: numeral_2_eq_2)
  moreover have "patch 0 ivf_DKIF (nat_le 4 0 @ c) = ivf_DKIF @ c" for c
    using patch_middle [of "[]" 0 "nat_le 4 0" ivf_DKIF c] by (simp add: ivf_DKIF_def)
  moreover have "memcpy_le16 6 v (ivf_DKIF @ nat_le 2 0 @ nat_le 2 0 @ c) = ivf_DKIF @ nat_le 2 0 @ nat_le 2 (unat v) @ c" for v c
    using patch_field(1) [of "ivf_DKIF @ nat_le 2 0" 6 v 0 c] by (simp add: ivf_DKIF_def)
  moreover have "patch 8 fourcc (ivf_DKIF @ nat_le 2 0 @ nat_le 2 m @ nat_le 4 0 @ c) = ivf_DKIF @ nat_le 2 0 @ nat_le 2 m @ fourcc @ c" for m c
    using patch_middle [of "ivf_DKIF @ nat_le 2 0 @ nat_le 2 m" 8 "nat_le 4 0" fourcc c] assms by (simp add: ivf_DKIF_def)
  moreover have "memcpy_le16 12 v (ivf_DKIF @ nat_le 2 0 @ nat_le 2 m @ fourcc @ nat_le 2 0 @ c) =
      ivf_DKIF @ nat_le 2 0 @ nat_le 2 m @ fourcc @ nat_le 2 (unat v) @ c" for v m c
    using patch_field(1) [of "ivf_DKIF @ nat_le 2 0 @ nat_le 2 m @ fourcc" 12 v 0 c] assms by (simp add: ivf_DKIF_def)
  moreover have "memcpy_le16 14 v (ivf_DKIF @ nat_le 2 0 @ nat_le 2 m @ fourcc @ nat_le 2 w @ nat_le 2 0 @ c) =
      ivf_DKIF @ nat_le 2 0 @ nat_le 2 m @ fourcc @ nat_le 2 w @ nat_le 2 (unat v) @ c" for v m c w
    using patch_field(1) [of "ivf_DKIF @ nat_le 2 0 @ nat_le 2 m @ fourcc @ nat_le 2 w" 14 v 0 c] assms by (simp add: ivf_DKIF_def)
  moreover have "memcpy_le32 16 v (ivf_DKIF @ nat_le 2 0 @ nat_le 2 m @ fourcc @ nat_le 2 w @ nat_le 2 h @ nat_le 4 0 @ c) =
      ivf_DKIF @ nat_le 2 0 @ nat_le 2 m @ fourcc @ nat_le 2 w @ nat_le 2 h @ nat_le 4 (unat v) @ c" for v m c w h
    using patch_field(2) [of "ivf_DKIF @ nat_le 2 0 @ nat_le 2 m @ fourcc @ nat_le 2 w @ nat_le 2 h" 16 v 0 c] assms
    by (simp add: ivf_DKIF_def)
  moreover have "memcpy_le32 20 v (ivf_DKIF @ nat_le 2 0 @ nat_le 2 m @ fourcc @ nat_le 2 w @ nat_le 2 h @ nat_le 4 x @ nat_le 4 0 @ c) =
      ivf_DKIF @ nat_le 2 0 @ nat_le 2 m @ fourcc @ nat_le 2 w @ nat_le 2 h @ nat_le 4 x @ nat_le 4 (unat v) @ c" for v m c w h x
    using patch_field(2) [of "ivf_DKIF @ nat_le 2 0 @ nat_le 2 m @ fourcc @ nat_le 2 w @ nat_le 2 h @ nat_le 4 x" 20 v 0 c] assms
    by (simp add: ivf_DKIF_def)
  ultimately show ?thesis
    unfolding ivf_header_def header_parts by (simp only:) (simp add: supported_header_len_def)
qed


section \<open>Reading a file back\<close>

lemma chunk_sub_within:
  assumes "unat offset + unat len \<le> unat (ck_size c)"
  shows "chunk_sub c offset len = Inr \<lparr>ck_data = drop (unat offset) (ck_data c), ck_size = len\<rparr>"
proof -
  have "unat (ck_size c) < 2 ^ 64" using unat_lt2p [of "ck_size c"] by simp
  then have "unat (offset + len) = unat offset + unat len" using assms by (simp add: unat_word_ariths)
  then show ?thesis using assms by (simp add: chunk_sub_def bounds_check_def word_le_nat_alt)
qed

lemma extract_value_read:
  "length b = k \<Longrightarrow> k < 2 ^ 64 \<Longrightarrow> extract_value \<lparr>ck_data = b @ r, ck_size = word_of_nat k\<rparr> k = Inr (le_nat b)"
  by (simp add: extract_value_def bounds_check_def read_memory_def)

lemma field_read:
  assumes "length a = unat offset" and "unat offset + k \<le> unat sz" and "k < 2 ^ 64" and "length b = k"
  shows "chunk_sub \<lparr>ck_data = a @ b @ r, ck_size = sz\<rparr> offset (word_of_nat k) = Inr \<lparr>ck_data = b @ r, ck_size = word_of_nat k\<rparr>"
  using assms by (subst chunk_sub_within) (simp_all add: unat_of_nat_lt)

lemma le32_field:
  assumes "length a = unat offset" and "unat offset + 4 \<le> unat sz"
  shows "le32_at \<lparr>ck_data = a @ nat_le 4 n @ r, ck_size = sz\<rparr> offset = Inr (word_of_nat (n mod 2 ^ 32))"
  using field_read [OF assms, of "nat_le 4 n" r] extract_value_read [of "nat_le 4 n" 4 r]
  by (simp add: le32_at_def le32_def)

lemma le16_field:
  assumes "length a = unat offset" and "unat offset + 2 \<le> unat sz"
  shows "le16_at \<lparr>ck_data = a @ nat_le 2 n @ r, ck_size = sz\<rparr> offset = Inr (word_of_nat (n mod 2 ^ 16))"
  using field_read [OF assms, of "nat_le 2 n" r] extract_value_read [of "nat_le 2 n" 2 r]
  by (simp add: le16_at_def le16_def)

lemma string_field:
  assumes "length a = unat offset" and "unat offset + 4 \<le> unat sz" and "length b = 4"
  shows "string_at \<lparr>ck_data = a @ b @ r, ck_size = sz\<rparr> offset = Inr b"
  using field_read [OF assms(1,2) _ assms(3), of r] assms(3)
  by (simp add: string_at_def chunk_to_string_def read_memory_def)

lemma header_count_read:
  assumes "length fourcc = 4"
  shows "header_frame_count (header_image fourcc w h rate scale count expected @ rest) = Inr (ucast count)"
proof -
  let ?a = "(ivf_DKIF @ [0, 0] @ nat_le 2 32 @ fourcc) @ nat_le 2 (unat w) @ nat_le 2 (unat h) @ nat_le 4 (unat rate) @
       nat_le 4 (unat scale)"
  have "take 32 (header_image fourcc w h rate scale count expected @ rest) = header_image fourcc w h rate scale count expected"
    using assms by simp
  also have "\<dots> = ?a @ nat_le 4 (unat count) @ nat_le 4 (unat expected)"
    unfolding header_parts append_assoc ..
  finally have image: "take 32 (header_image fourcc w h rate scale count expected @ rest) =
      ?a @ nat_le 4 (unat count) @ nat_le 4 (unat expected)" .
  have "length ?a = unat (24 :: u64)" using assms by (simp add: ivf_DKIF_def)
  from le32_field [OF this, of 32 "unat count" "nat_le 4 (unat expected)"]
  have "le32_at \<lparr>ck_data = ?a @ nat_le 4 (unat count) @ nat_le 4 (unat expected), ck_size = 32\<rparr> 24 =
      Inr (word_of_nat (unat count mod 2 ^ 32))" by simp
  moreover have "unat count mod 2 ^ 32 = unat count" using unat_lt2p [of count] by simp
  moreover have "chunk_of (?a @ nat_le 4 (unat count) @ nat_le 4 (unat expected)) =
      \<lparr>ck_data = ?a @ nat_le 4 (unat count) @ nat_le 4 (unat expected), ck_size = 32\<rparr>"
    using assms by (simp add: chunk_of_def ivf_DKIF_def)
  ultimately show ?thesis
    unfolding header_frame_count_def supported_header_len_def image by simp
qed

definition writer_of :: "bytes \<Rightarrow> u16 \<Rightarrow> u16 \<Rightarrow> u32 \<Rightarrow> u32 \<Rightarrow> u32 \<Rightarrow> bytes list \<Rightarrow> ivf_writer" where
  "writer_of fourcc w h rate scale expected fs =
     (let file = file_image fourcc w h rate scale expected fs in
      \<lparr>iw_file = file, iw_file_size = word_of_nat (length file), iw_frame_count = word_of_nat (length fs),
       iw_width = w, iw_height = h\<rparr>)"

lemma writer_of_file [simp]: "iw_file (writer_of fourcc w h rate scale expected fs) = file_image fourcc w h rate scale expected fs"
  by (simp add: writer_of_def Let_def)

lemma new_writer: "length fourcc = 4 \<Longrightarrow> new_ivf_writer fourcc w h rate scale = Inr (writer_of fourcc w h rate scale 0 [])"
  by (simp add: new_ivf_writer_def writer_of_def file_image_def header_written supported_header_len_def)

lemma expected_set:
  "length fourcc = 4 \<Longrightarrow> set_expected_decoder_entry_hash n (writer_of fourcc w h rate scale expected fs) =
    writer_of fourcc w h rate scale n fs"
  by (simp add: set_expected_decoder_entry_hash_def writer_of_def Let_def file_image_def patch_expected)

lemma frame_appended:
  assumes "length fourcc = 4" and "length f < 2 ^ 32"
  shows "append_frame (chunk_of f) (writer_of fourcc w h rate scale expected fs) =
    Inr (word_of_nat (length (file_image fourcc w h rate scale expected fs) + 12), writer_of fourcc w h rate scale expected (fs @ [f]))"
proof -
  let ?file = "file_image fourcc w h rate scale expected fs"
  have entry: "memcpy_le32 0 (word_of_nat (length f)) (replicate 12 0) = nat_le 4 (length f) @ replicate 8 0"
    using assms(2) by (simp add: memcpy_le32_def patch_def unat_of_nat_lt)
  have len: "ucast (word_of_nat (length f) :: u64) = (word_of_nat (length f) :: u32)"
    using assms(2) by (simp add: unsigned_of_nat take_bit_nat_eq_self)
  have image: "memcpy_le32 24 (word_of_nat (length (fs @ [f]))) (?file @ frame_image f) = file_image fourcc w h rate scale expected (fs @ [f])"
    using assms(1) by (simp add: file_image_def patch_count add.commute)
  have counted: "header_frame_count (file_image fourcc w h rate scale expected gs) = Inr (ucast (word_of_nat (length gs) :: u32))" for gs
    using assms(1) by (simp add: file_image_def header_count_read)
  have str: "chunk_to_string (chunk_of f) = Inr f"
    using assms(2) by (simp add: chunk_to_string_ok)
  have count1: "word_of_nat (length fs) + 1 = (word_of_nat (length (fs @ [f])) :: u32)" by (simp add: add.commute)
  have sizes: "word_of_nat (length ?file) + word_of_nat frame_header_len = (word_of_nat (length ?file + 12) :: u64)"
    "word_of_nat (length ?file + 12) + ck_size (chunk_of f) = word_of_nat (length (?file @ frame_image f))"
    "length (file_image fourcc w h rate scale expected (fs @ [f])) = length (?file @ frame_image f)"
    using assms(1) by (simp_all add: chunk_of_def frame_header_len_def file_image_def)
  have appended: "?file @ memcpy_le32 0 (ucast (ck_size (chunk_of f))) (replicate frame_header_len 0) @ f = ?file @ frame_image f"
    by (simp add: chunk_of_def len entry frame_header_len_def frame_image_def)
  show ?thesis
    unfolding append_frame_def writer_of_def Let_def
    by (simp only: counted str appended image count1 sizes ivf_writer.simps bind_result_simps check_simps append_assoc simp_thms)
qed

lemma frames_appended:
  assumes "length fourcc = 4" and "\<forall>f\<in>set fs. length f < 2 ^ 32"
  shows "append_frames fs (writer_of fourcc w h rate scale expected gs) = Inr (writer_of fourcc w h rate scale expected (gs @ fs))"
  using assms(2) by (induction fs arbitrary: gs) (simp_all add: frame_appended [OF assms(1)])

text \<open>An entry of the index leads to a frame.\<close>

definition leads_to :: "bytes \<Rightarrow> u64 \<times> u32 \<Rightarrow> bytes \<Rightarrow> bool" where
  "leads_to bs entry f \<longleftrightarrow>
     unat (snd entry) = length f \<and> (\<exists>a r. bs = a @ f @ r \<and> unat (fst entry) = length a)"

lemma frames_indexed:
  assumes "bs = pre @ concat (map frame_image fs)" and "length bs < 2 ^ 64" and "length pre = unat position"
    and "\<forall>f\<in>set fs. length f + 12 < 2 ^ 32"
  shows "\<exists>index. index_frames (chunk_of bs) (length fs) position = Inr index \<and> list_all2 (leads_to bs) index fs"
  using assms
proof (induction fs arbitrary: pre position)
  case (Cons f fs)
  let ?rest = "concat (map frame_image fs)"
  have bs: "bs = pre @ nat_le 4 (length f) @ replicate 8 0 @ f @ ?rest"
    using Cons.prems(1) by (simp add: frame_image_def [of f])
  have long: "length bs = unat position + 12 + length f + length ?rest"
    using bs Cons.prems(3) by simp
  have small: "length f + 12 < 2 ^ 32" using Cons.prems(4) by simp
  have "chunk_sub (chunk_of bs) position 12 = Inr \<lparr>ck_data = nat_le 4 (length f) @ replicate 8 0 @ f @ ?rest, ck_size = 12\<rparr>"
    using chunk_sub_within [of position 12 "chunk_of bs"] long Cons.prems(2,3) bs
    by (simp add: unat_chunk_of) (simp add: chunk_of_def)
  moreover have "le32 \<lparr>ck_data = nat_le 4 (length f) @ replicate 8 0 @ f @ ?rest, ck_size = 12\<rparr> = Inr (word_of_nat (length f))"
    using small by (simp add: le32_def extract_value_def bounds_check_def read_memory_def)
  moreover have "ucast (word_of_nat (length f) :: u64) = (word_of_nat (length f) :: u32)"
    using small by (simp add: unsigned_of_nat take_bit_nat_eq_self)
  moreover have step: "unat (12 + word_of_nat (length f) :: u32) = 12 + length f"
    using small unat_of_nat_lt [of "12 + length f", where ?'a = 32] by simp
  then have "unat (ucast (12 + word_of_nat (length f) :: u32) :: u64) = 12 + length f"
    by (simp add: unat_ucast_up)
  then have pos1: "unat (position + ucast (12 + word_of_nat (length f) :: u32)) = unat position + 12 + length f"
    using long Cons.prems(2) by (simp add: unat_word_ariths)
  have pos2: "unat (position + 12) = unat position + 12"
    using long Cons.prems(2) by (simp add: unat_word_ariths)
  have "\<exists>index. index_frames (chunk_of bs) (length fs) (position + ucast (12 + word_of_nat (length f) :: u32)) = Inr index \<and>
      list_all2 (leads_to bs) index fs"
    using Cons.prems pos1 by (intro Cons.IH [of "pre @ frame_image f"]) simp_all
  moreover have "leads_to bs (position + 12, word_of_nat (length f)) f"
    unfolding leads_to_def using small pos2 Cons.prems(3)
    by (intro conjI exI [of _ "pre @ nat_le 4 (length f) @ replicate 8 0"] exI [of _ ?rest]) (simp_all add: unat_of_nat_lt bs)
  ultimately show ?case by (auto simp: frame_header_len_def)
qed simp

lemma indexed_frame:
  assumes "leads_to bs (offset, len) f" and "length bs < 2 ^ 64"
  shows "\<exists>c. chunk_sub (chunk_of bs) offset (ucast len) = Inr c \<and> chunk_ok c \<and> contents c = f"
proof -
  obtain a r where bs: "unat len = length f" "bs = a @ f @ r" "unat offset = length a"
    using assms(1) by (auto simp: leads_to_def)
  have len: "unat (ucast len :: u64) = length f" using bs(1) by (simp add: unat_ucast_up)
  then have fits: "unat offset + unat (ucast len :: u64) \<le> unat (ck_size (chunk_of bs))"
    using bs assms(2) by (simp add: unat_chunk_of)
  have "chunk_sub (chunk_of bs) offset (ucast len) = Inr \<lparr>ck_data = f @ r, ck_size = ucast len\<rparr>"
    using chunk_sub_within [OF fits] bs by (simp add: chunk_of_def)
  then show ?thesis using len by (simp add: chunk_ok_def contents_def)
qed

text \<open>The header of an image.\<close>

lemma image_parsed:
  fixes fs :: "bytes list"
  assumes "length fourcc = 4" and "length fs < 2 ^ 32" and "\<forall>f\<in>set fs. length f + 12 < 2 ^ 32"
    and "length (file_image fourcc w h rate scale expected fs) < 2 ^ 64"
  shows "\<exists>index. open_ivf (file_image fourcc w h rate scale expected fs) =
      Inr \<lparr>iv_file = chunk_of (file_image fourcc w h rate scale expected fs), iv_fourcc = fourcc, iv_width = w, iv_height = h,
           iv_frame_rate = rate, iv_time_scale = scale, iv_frame_count = word_of_nat (length fs),
           iv_expected_decoder_minihash = expected, iv_frame_index = index\<rparr> \<and>
    list_all2 (leads_to (file_image fourcc w h rate scale expected fs)) index fs"
proof -
  let ?bs = "file_image fourcc w h rate scale expected fs"
  let ?head = "header_image fourcc w h rate scale (word_of_nat (length fs)) expected"
  let ?rest = "concat (map frame_image fs)"
  let ?header = "\<lparr>ck_data = ?head @ ?rest, ck_size = 32\<rparr>"
  have bs: "?bs = ?head @ ?rest" by (simp add: file_image_def)
  have header: "chunk_sub (chunk_of ?bs) 0 32 = Inr ?header"
    using chunk_sub_within [of 0 32 "chunk_of ?bs"] assms(1,4) bs by (simp add: unat_chunk_of) (simp add: chunk_of_def)
  note wide = unat_lt2p [of w, simplified] unat_lt2p [of h, simplified] unat_lt2p [of rate, simplified] unat_lt2p [of scale, simplified]
    unat_lt2p [of expected, simplified]
  have DKIF: "ivf_DKIF @ [0, 0] @ nat_le 2 32 = ivf_DKIF @ nat_le 2 0 @ nat_le 2 32" by (simp add: numeral_2_eq_2)
  let ?a = "ivf_DKIF @ nat_le 2 0 @ nat_le 2 32"
  let ?f = "nat_le 4 (unat expected) @ ?rest"
  let ?e = "nat_le 4 (unat (word_of_nat (length fs) :: u32)) @ ?f"
  let ?d = "nat_le 4 (unat scale) @ ?e"
  let ?c = "nat_le 4 (unat rate) @ ?d"
  let ?b = "nat_le 2 (unat h) @ ?c"
  have head: "?head @ ?rest = ?a @ fourcc @ nat_le 2 (unat w) @ ?b"
    unfolding header_parts append_assoc DKIF [unfolded append_assoc] using DKIF by simp
  have read: "string_at ?header 8 = Inr fourcc" "le16_at ?header 12 = Inr w" "le16_at ?header 14 = Inr h"
    unfolding head
    using assms(1) wide string_field [of ?a 8 32 fourcc "nat_le 2 (unat w) @ ?b"]
      le16_field [of "?a @ fourcc" 12 32 "unat w" ?b]
      le16_field [of "?a @ fourcc @ nat_le 2 (unat w)" 14 32 "unat h" ?c]
    by simp_all
  have read32: "le32_at ?header 16 = Inr (ucast rate)" "le32_at ?header 20 = Inr (ucast scale)"
    "le32_at ?header 24 = Inr (word_of_nat (length fs))" "le32_at ?header 28 = Inr (ucast expected)"
    unfolding head
    using assms(1,2) wide
      le32_field [of "?a @ fourcc @ nat_le 2 (unat w) @ nat_le 2 (unat h)" 16 32 "unat rate" ?d]
      le32_field [of "?a @ fourcc @ nat_le 2 (unat w) @ nat_le 2 (unat h) @ nat_le 4 (unat rate)" 20 32 "unat scale" ?e]
      le32_field [of "?a @ fourcc @ nat_le 2 (unat w) @ nat_le 2 (unat h) @ nat_le 4 (unat rate) @ nat_le 4 (unat scale)" 24 32
        "unat (word_of_nat (length fs) :: u32)" ?f]
      le32_field [of "?a @ fourcc @ nat_le 2 (unat w) @ nat_le 2 (unat h) @ nat_le 4 (unat rate) @ nat_le 4 (unat scale) @
        nat_le 4 (unat (word_of_nat (length fs) :: u32))" 28 32 "unat expected" ?rest]
    by (simp_all add: unat_of_nat_lt)
  have magic: "string_at ?header 0 = Inr ivf_DKIF" "le16_at ?header 4 = Inr 0" "le16_at ?header 6 = Inr 32"
    unfolding head
    using string_field [of "[]" 0 32 ivf_DKIF "nat_le 2 0 @ nat_le 2 32 @ fourcc @ nat_le 2 (unat w) @ ?b"]
      le16_field [of ivf_DKIF 4 32 0 "nat_le 2 32 @ fourcc @ nat_le 2 (unat w) @ ?b"]
      le16_field [of "ivf_DKIF @ nat_le 2 0" 6 32 32 "fourcc @ nat_le 2 (unat w) @ ?b"]
    by simp_all
  have "length ?head = unat (32 :: u64)" using assms(1) by simp
  from frames_indexed [OF bs assms(4) this assms(3)] obtain index where
    index: "index_frames (chunk_of ?bs) (length fs) 32 = Inr index" "list_all2 (leads_to ?bs) index fs" by blast
  have count: "unat (ucast (word_of_nat (length fs) :: u64) :: u32) = length fs"
    "(ucast (word_of_nat (length fs) :: u64) :: u32) = word_of_nat (length fs)" "unat (word_of_nat (length fs) :: u32) = length fs"
    using assms(2) by (simp_all add: unsigned_of_nat take_bit_nat_eq_self unat_of_nat_lt)
  have narrow: "ucast (ucast x :: u64) = x" for x :: u32
    by (simp add: unsigned_ucast_eq take_bit_word_eq_self)
  have "parse_ivf (chunk_of ?bs) =
      Inr \<lparr>iv_file = chunk_of ?bs, iv_fourcc = fourcc, iv_width = w, iv_height = h, iv_frame_rate = rate, iv_time_scale = scale,
        iv_frame_count = word_of_nat (length fs), iv_expected_decoder_minihash = expected, iv_frame_index = index\<rparr>"
    using index(1) by (simp add: parse_ivf_def supported_header_len_def header read read32 magic count narrow)
  then show ?thesis using index(2) by (simp add: open_ivf_def)
qed


section \<open>Properties\<close>

text \<open>C24: Round trip of an IVF file.  A new file to which frames are appended, and into which the hash of a
  decoder is written, is opened again with the dimensions, rates, count and hash it was given, and each entry of
  its index yields the frame that was appended there.  The bounds are those of the 32-bit fields of the format and
  of the 64-bit size of the file.\<close>

theorem ivf_roundtrip:
  assumes "length fourcc = 4" and "length fs < 2 ^ 32" and "list_all (\<lambda>f. length f + 12 < 2 ^ 32) fs"
    and "32 + (\<Sum>f\<leftarrow>fs. 12 + length f) < 2 ^ 64"
  shows "\<exists>new iw iv. new_ivf_writer fourcc w h rate scale = Inr new \<and> append_frames fs new = Inr iw \<and>
    open_ivf (iw_file (set_expected_decoder_entry_hash minihash iw)) = Inr iv \<and>
    (iv_fourcc iv, iv_width iv, iv_height iv, iv_frame_rate iv, iv_time_scale iv, iv_expected_decoder_minihash iv) =
      (fourcc, w, h, rate, scale, minihash) \<and>
    iv_frame_count iv = word_of_nat (length fs) \<and>
    map (\<lambda>k. bind_result (ivf_frame iv (word_of_nat k)) chunk_to_string) [0..<length fs] = map Inr fs"
proof -
  let ?bs = "file_image fourcc w h rate scale minihash fs"
  have frames: "\<forall>f\<in>set fs. length f + 12 < 2 ^ 32" using assms(3) by (simp add: list_all_iff)
  then have short: "\<forall>f\<in>set fs. length f < 2 ^ 32" by auto
  have size: "length ?bs < 2 ^ 64"
    using assms(1,4) by (simp add: file_image_def length_concat comp_def)
  from image_parsed [OF assms(1,2) frames size] obtain index where
    opened: "open_ivf ?bs = Inr \<lparr>iv_file = chunk_of ?bs, iv_fourcc = fourcc, iv_width = w, iv_height = h,
           iv_frame_rate = rate, iv_time_scale = scale, iv_frame_count = word_of_nat (length fs),
           iv_expected_decoder_minihash = minihash, iv_frame_index = index\<rparr>" (is "_ = Inr ?iv")
    and index: "list_all2 (leads_to ?bs) index fs" by blast
  have "bind_result (ivf_frame ?iv (word_of_nat k)) chunk_to_string = Inr (fs ! k)" if k: "k < length fs" for k
  proof -
    have "unat (word_of_nat k :: u32) = k" using k assms(2) by (intro unat_of_nat_lt) simp
    moreover have "k < length index" "leads_to ?bs (index ! k) (fs ! k)"
      using k index by (simp_all add: list_all2_conv_all_nth)
    ultimately show ?thesis
      using indexed_frame [OF _ size, of "fst (index ! k)" "snd (index ! k)" "fs ! k"]
      by (cases "index ! k") (auto simp: ivf_frame_def at_def chunk_to_string_ok)
  qed
  then have "map (\<lambda>k. bind_result (ivf_frame ?iv (word_of_nat k)) chunk_to_string) [0..<length fs] = map Inr fs"
    by (intro nth_equalityI) simp_all
  then show ?thesis
    using opened new_writer [OF assms(1)] frames_appended [OF assms(1) short, of w h rate scale 0 "[]"]
      expected_set [OF assms(1), of minihash w h rate scale 0 fs] by auto
qed

theorem ivf_roundtrip_witness:
  "\<exists>new iw iv. new_ivf_writer [0x56, 0x50, 0x38, 0x30] 320 240 30 1 = Inr new \<and> append_frames [[1, 2, 3], [], [4]] new = Inr iw \<and>
    open_ivf (iw_file (set_expected_decoder_entry_hash 7 iw)) = Inr iv \<and>
    (iv_fourcc iv, iv_width iv, iv_height iv, iv_frame_rate iv, iv_time_scale iv, iv_expected_decoder_minihash iv) =
      ([0x56, 0x50, 0x38, 0x30], 320, 240, 30, 1, 7) \<and>
    iv_frame_count iv = word_of_nat (length [[1, 2, 3], [], [4 :: u8]]) \<and>
    map (\<lambda>k. bind_result (ivf_frame iv (word_of_nat k)) chunk_to_string) [0..<length [[1, 2, 3], [], [4 :: u8]]] =
      map Inr [[1, 2, 3], [], [4]]"
  by (rule ivf_roundtrip) simp_all

end
