(* ===== verification/Net_Packet.thy ===== *)
theory Net_Packet
  imports Byte_Chunk
begin

text \<open>
  The wire format and the fragmentation of frames, src/src/net/packet.hh and packet.cc:
  \<open>Packet\<close>, \<open>FragmentedFrame\<close> and \<open>AckPacket\<close> with their constructors from fields and from
  a received chunk, their serialisers, and the reassembly of a frame from its packets.
  \<open>partial_view\<close> is the abstract state of a reassembly, the set of fragment numbers received;
  \<open>add_packet_refines\<close> shows that \<open>add_packet\<close> implements insertion into that set.
\<close>

section \<open>Packets\<close>

record packet =
  pk_valid :: bool
  pk_connection_id :: u16
  pk_source_state :: u32
  pk_target_state :: u32
  pk_frame_no :: u32
  pk_fragment_no :: u16
  pk_fragments_in_this_frame :: u16
  pk_time_since_last :: u32
  pk_packet_send_timestamp :: u32
  pk_frame_push_timestamp :: u32
  pk_rtt_average :: u16
  pk_throughput :: u16
  pk_payload :: bytes

definition MAXIMUM_PAYLOAD :: nat where "MAXIMUM_PAYLOAD = 1400"

definition empty_packet :: packet where
  "empty_packet =
     \<lparr>pk_valid = False, pk_connection_id = 0, pk_source_state = 0, pk_target_state = 0,
      pk_frame_no = 0, pk_fragment_no = 0, pk_fragments_in_this_frame = 0,
      pk_time_since_last = 0, pk_packet_send_timestamp = 0, pk_frame_push_timestamp = 0,
      pk_rtt_average = 0, pk_throughput = 0, pk_payload = []\<rparr>"

text \<open>The constructor of an outgoing packet cuts its fragment out of the whole frame and
  reports where the next one starts.\<close>

definition outgoing_packet ::
  "bytes \<Rightarrow> u16 \<Rightarrow> u32 \<Rightarrow> u32 \<Rightarrow> u32 \<Rightarrow> u16 \<Rightarrow> u16 \<Rightarrow> u32 \<Rightarrow> u32 \<Rightarrow> u16 \<Rightarrow> u16 \<Rightarrow> (packet \<times> nat) result"
where
  "outgoing_packet whole_frame connection_id source_state target_state frame_no fragment_no
     time_since_last packet_send_timestamp frame_push_timestamp rtt_average throughput =
   bind_result (check (whole_frame \<noteq> []) Assert_failed) (\<lambda>_.
   (let first_byte = MAXIMUM_PAYLOAD * unat fragment_no in
    bind_result (check (first_byte < length whole_frame) Assert_failed) (\<lambda>_.
    (let len = min (length whole_frame - first_byte) MAXIMUM_PAYLOAD in
     Inr (\<lparr>pk_valid = True, pk_connection_id = connection_id, pk_source_state = source_state,
           pk_target_state = target_state, pk_frame_no = frame_no,
           pk_fragment_no = fragment_no, pk_fragments_in_this_frame = 0,
           pk_time_since_last = ucast time_since_last,
           pk_packet_send_timestamp = packet_send_timestamp,
           pk_frame_push_timestamp = frame_push_timestamp, pk_rtt_average = rtt_average,
           pk_throughput = throughput,
           pk_payload = take len (drop first_byte whole_frame)\<rparr>,
          first_byte + len)))))"

definition parse_packet :: "chunk \<Rightarrow> packet result" where
  "parse_packet str =
     bind_result (field16 str 0) (\<lambda>connection_id.
     bind_result (field32 str 2) (\<lambda>source_state.
     bind_result (field32 str 6) (\<lambda>target_state.
     bind_result (field32 str 10) (\<lambda>frame_no.
     bind_result (field16 str 14) (\<lambda>fragment_no.
     bind_result (field16 str 16) (\<lambda>fragments_in_this_frame.
     bind_result (field32 str 18) (\<lambda>time_since_last.
     bind_result (field32 str 22) (\<lambda>packet_send_timestamp.
     bind_result (field32 str 26) (\<lambda>frame_push_timestamp.
     bind_result (field16 str 30) (\<lambda>rtt_average.
     bind_result (field16 str 32) (\<lambda>throughput.
     bind_result (bind_result (chunk_from str 34) chunk_to_string) (\<lambda>payload.
     bind_result (check (\<not> fragment_no \<ge> fragments_in_this_frame) Runtime_error) (\<lambda>_.
     bind_result (check (payload \<noteq> []) Runtime_error) (\<lambda>_.
     Inr \<lparr>pk_valid = True, pk_connection_id = connection_id, pk_source_state = source_state,
          pk_target_state = target_state, pk_frame_no = frame_no,
          pk_fragment_no = fragment_no, pk_fragments_in_this_frame = fragments_in_this_frame,
          pk_time_since_last = time_since_last,
          pk_packet_send_timestamp = packet_send_timestamp,
          pk_frame_push_timestamp = frame_push_timestamp, pk_rtt_average = rtt_average,
          pk_throughput = throughput, pk_payload = payload\<rparr>))))))))))))))"

definition packet_header :: "packet \<Rightarrow> bytes" where
  "packet_header p =
     put_header_field16 (pk_connection_id p) @ put_header_field32 (pk_source_state p) @
     put_header_field32 (pk_target_state p) @ put_header_field32 (pk_frame_no p) @
     put_header_field16 (pk_fragment_no p) @
     put_header_field16 (pk_fragments_in_this_frame p) @
     put_header_field32 (pk_time_since_last p) @
     put_header_field32 (pk_packet_send_timestamp p) @
     put_header_field32 (pk_frame_push_timestamp p) @
     put_header_field16 (pk_rtt_average p) @ put_header_field16 (pk_throughput p)"

definition packet_to_string :: "packet \<Rightarrow> bytes result" where
  "packet_to_string p =
     bind_result (check (0 < pk_fragments_in_this_frame p) Assert_failed) (\<lambda>_.
     Inr (packet_header p @ pk_payload p))"

definition set_fragments_in_this_frame :: "u16 \<Rightarrow> packet \<Rightarrow> packet result" where
  "set_fragments_in_this_frame x p =
     (let p' = p\<lparr>pk_fragments_in_this_frame := x\<rparr> in
      bind_result (check (pk_fragment_no p' < pk_fragments_in_this_frame p') Assert_failed)
        (\<lambda>_. Inr p'))"

definition set_packet_send_timestamp :: "u32 \<Rightarrow> packet \<Rightarrow> packet" where
  "set_packet_send_timestamp t p = p\<lparr>pk_packet_send_timestamp := t\<rparr>"

definition set_time_to_next :: "u32 \<Rightarrow> packet \<Rightarrow> packet" where
  "set_time_to_next val p = p\<lparr>pk_time_since_last := val\<rparr>"

text \<open>The packets a receiver accepts.\<close>

definition packet_ok :: "packet \<Rightarrow> bool" where
  "packet_ok p \<longleftrightarrow> pk_valid p \<and> pk_fragment_no p < pk_fragments_in_this_frame p \<and> pk_payload p \<noteq> []"

lemma length_packet_header [simp]: "length (packet_header p) = 34"
  by (simp add: packet_header_def)

lemma parse_packet_fields:
  assumes c: "chunk_ok c" "contents c = packet_header p @ payload"
  shows "field16 c 0 = Inr (pk_connection_id p)" "field32 c 2 = Inr (pk_source_state p)"
    "field32 c 6 = Inr (pk_target_state p)" "field32 c 10 = Inr (pk_frame_no p)"
    "field16 c 14 = Inr (pk_fragment_no p)" "field16 c 16 = Inr (pk_fragments_in_this_frame p)"
    "field32 c 18 = Inr (pk_time_since_last p)" "field32 c 22 = Inr (pk_packet_send_timestamp p)"
    "field32 c 26 = Inr (pk_frame_push_timestamp p)" "field16 c 30 = Inr (pk_rtt_average p)"
    "field16 c 32 = Inr (pk_throughput p)"
    "bind_result (chunk_from c 34) chunk_to_string = Inr payload"
proof -
  note cont = c(2) [unfolded packet_header_def append_assoc]
  show "field16 c 0 = Inr (pk_connection_id p)" "field16 c 14 = Inr (pk_fragment_no p)"
    "field16 c 16 = Inr (pk_fragments_in_this_frame p)" "field16 c 30 = Inr (pk_rtt_average p)"
    "field16 c 32 = Inr (pk_throughput p)"
    by (rule field16.get_drop [OF c(1)]; simp add: cont; fail)+
  show "field32 c 2 = Inr (pk_source_state p)" "field32 c 6 = Inr (pk_target_state p)"
    "field32 c 10 = Inr (pk_frame_no p)" "field32 c 18 = Inr (pk_time_since_last p)"
    "field32 c 22 = Inr (pk_packet_send_timestamp p)"
    "field32 c 26 = Inr (pk_frame_push_timestamp p)"
    by (rule field32.get_drop [OF c(1)]; simp add: cont; fail)+
  obtain d where "chunk_from c 34 = Inr d" "chunk_ok d" "contents d = payload"
    using chunk_from_in [OF c(1), of 34] c(2) by auto
  then show "bind_result (chunk_from c 34) chunk_to_string = Inr payload"
    by (simp add: chunk_to_string_ok)
qed

lemma parse_packet_bytes:
  assumes "chunk_ok c" and "contents c = packet_header p @ payload"
  shows "parse_packet c =
    (if pk_fragment_no p \<ge> pk_fragments_in_this_frame p \<or> payload = [] then Inl Runtime_error
     else Inr (p\<lparr>pk_valid := True, pk_payload := payload\<rparr>))"
  by (simp add: parse_packet_def parse_packet_fields [OF assms] check_def)

lemma parse_to_string:
  assumes "packet_ok p" and "chunk_ok c" and "packet_to_string p = Inr (contents c)"
  shows "parse_packet c = Inr p"
proof -
  have "contents c = packet_header p @ pk_payload p"
    using assms(3) by (simp add: packet_to_string_def check_def split: if_splits)
  from parse_packet_bytes [OF assms(2) this] show ?thesis
    using assms(1) by (simp add: packet_ok_def not_le)
qed

lemma packet_to_string_ok: "packet_ok p \<Longrightarrow> packet_to_string p = Inr (packet_header p @ pk_payload p)"
  unfolding packet_to_string_def check_def
  by (simp add: packet_ok_def) (metis gr_zeroI not_less_zero word_not_simps(1) word_gt_0)

text \<open>Every byte string of at least 34 bytes starts with the header of some packet.\<close>

lemma header_of_bytes:
  assumes c: "chunk_ok c" and len: "34 \<le> length (contents c)"
  obtains p where "contents c = packet_header p @ drop 34 (contents c)" and "pk_valid p"
proof -
  let ?b = "\<lambda>n. drop n (contents c)"
  have "\<exists>x. ?b 0 = put_header_field16 x @ ?b 2"
    using field16.put_get_drop [OF c, of 0] len by (simp add: numeral_2_eq_2)
  then obtain x0 where 0: "?b 0 = put_header_field16 x0 @ ?b 2" by blast
  have "\<exists>x. ?b 2 = put_header_field32 x @ ?b 6"
    using field32.put_get_drop [OF c, of 2] len by simp
  then obtain x2 where 2: "?b 2 = put_header_field32 x2 @ ?b 6" by blast
  have "\<exists>x. ?b 6 = put_header_field32 x @ ?b 10"
    using field32.put_get_drop [OF c, of 6] len by simp
  then obtain x6 where 6: "?b 6 = put_header_field32 x6 @ ?b 10" by blast
  have "\<exists>x. ?b 10 = put_header_field32 x @ ?b 14"
    using field32.put_get_drop [OF c, of 10] len by simp
  then obtain x10 where 10: "?b 10 = put_header_field32 x10 @ ?b 14" by blast
  have "\<exists>x. ?b 14 = put_header_field16 x @ ?b 16"
    using field16.put_get_drop [OF c, of 14] len by simp
  then obtain x14 where 14: "?b 14 = put_header_field16 x14 @ ?b 16" by blast
  have "\<exists>x. ?b 16 = put_header_field16 x @ ?b 18"
    using field16.put_get_drop [OF c, of 16] len by simp
  then obtain x16 where 16: "?b 16 = put_header_field16 x16 @ ?b 18" by blast
  have "\<exists>x. ?b 18 = put_header_field32 x @ ?b 22"
    using field32.put_get_drop [OF c, of 18] len by simp
  then obtain x18 where 18: "?b 18 = put_header_field32 x18 @ ?b 22" by blast
  have "\<exists>x. ?b 22 = put_header_field32 x @ ?b 26"
    using field32.put_get_drop [OF c, of 22] len by simp
  then obtain x22 where 22: "?b 22 = put_header_field32 x22 @ ?b 26" by blast
  have "\<exists>x. ?b 26 = put_header_field32 x @ ?b 30"
    using field32.put_get_drop [OF c, of 26] len by simp
  then obtain x26 where 26: "?b 26 = put_header_field32 x26 @ ?b 30" by blast
  have "\<exists>x. ?b 30 = put_header_field16 x @ ?b 32"
    using field16.put_get_drop [OF c, of 30] len by simp
  then obtain x30 where 30: "?b 30 = put_header_field16 x30 @ ?b 32" by blast
  have "\<exists>x. ?b 32 = put_header_field16 x @ ?b 34"
    using field16.put_get_drop [OF c, of 32] len by simp
  then obtain x32 where 32: "?b 32 = put_header_field16 x32 @ ?b 34" by blast
  let ?p = "\<lparr>pk_valid = True, pk_connection_id = x0, pk_source_state = x2, pk_target_state = x6,
    pk_frame_no = x10, pk_fragment_no = x14, pk_fragments_in_this_frame = x16,
    pk_time_since_last = x18, pk_packet_send_timestamp = x22, pk_frame_push_timestamp = x26,
    pk_rtt_average = x30, pk_throughput = x32, pk_payload = []\<rparr>"
  have "contents c = packet_header ?p @ ?b 34"
    using 0 unfolding 2 6 10 14 16 18 22 26 30 32 packet_header_def by (simp only: drop0) simp
  then show ?thesis by (rule that) simp
qed

lemma bind_out_of_range:
  "r = Inl Out_of_range \<or> (\<exists>x. r = Inr x) \<Longrightarrow> (\<And>x. f x = Inl Out_of_range) \<Longrightarrow>
   bind_result r f = Inl Out_of_range"
  by auto

lemma field_or_short:
  fixes offset :: u64
  assumes c: "chunk_ok c" and "unat offset < 2 ^ 63"
  shows "field16 c offset = Inl Out_of_range \<or> (\<exists>x. field16 c offset = Inr x)"
    and "field32 c offset = Inl Out_of_range \<or> (\<exists>y. field32 c offset = Inr y)"
proof -
  show "field16 c offset = Inl Out_of_range \<or> (\<exists>x. field16 c offset = Inr x)"
    using field16.get_short [OF c, of offset] field16.put_get [OF c, of offset] assms(2)
    by (cases "unat offset + 2 \<le> length (contents c)") force+
  show "field32 c offset = Inl Out_of_range \<or> (\<exists>y. field32 c offset = Inr y)"
    using field32.get_short [OF c, of offset] field32.put_get [OF c, of offset] assms(2)
    by (cases "unat offset + 4 \<le> length (contents c)") force+
qed

lemma parse_packet_short:
  assumes c: "chunk_ok c" and len: "length (contents c) < 34"
  shows "parse_packet c = Inl Out_of_range"
proof -
  have short: "chunk_from c 34 = Inl Out_of_range"
    using chunk_from_out [OF _ c, of 34] len by simp
  show ?thesis
    unfolding parse_packet_def
    by ((rule bind_out_of_range, rule field_or_short [OF c], simp)+) (simp add: short)
qed

lemma parse_packet_cases:
  assumes c: "chunk_ok c"
  shows "(parse_packet c = Inl Out_of_range \<and> length (contents c) < 34) \<or>
    (parse_packet c = Inl Runtime_error \<and> 34 \<le> length (contents c)) \<or>
    (\<exists>p. parse_packet c = Inr p \<and> packet_ok p \<and> packet_to_string p = Inr (contents c))"
proof (cases "length (contents c) < 34")
  case True
  then show ?thesis using parse_packet_short [OF c] by simp
next
  case False
  then obtain p where p: "contents c = packet_header p @ drop 34 (contents c)"
    using header_of_bytes [OF c] by auto
  let ?q = "p\<lparr>pk_valid := True, pk_payload := drop 34 (contents c)\<rparr>"
  note parse = parse_packet_bytes [OF c p]
  show ?thesis
  proof (cases "pk_fragment_no p \<ge> pk_fragments_in_this_frame p \<or> drop 34 (contents c) = []")
    case True
    then show ?thesis using parse False by simp
  next
    case ok: False
    then have "packet_ok ?q" by (simp add: packet_ok_def not_le)
    moreover have "packet_header ?q = packet_header p" by (simp add: packet_header_def)
    ultimately have "packet_to_string ?q = Inr (contents c)"
      using p packet_to_string_ok [of ?q] by simp
    with ok parse \<open>packet_ok ?q\<close> show ?thesis by simp
  qed
qed

section \<open>Fragmented frames\<close>

record fragmented_frame =
  ff_connection_id :: u16
  ff_source_state :: u32
  ff_target_state :: u32
  ff_frame_no :: u32
  ff_fragments_in_this_frame :: u16
  ff_frame_push_timestamp :: u32
  ff_rtt_average :: u16
  ff_throughput :: u16
  ff_fragments :: "packet list"
  ff_remaining_fragments :: u32

text \<open>The loop of the outgoing constructor.  \<open>clock i\<close> is the reading of the system clock
  when fragment \<open>i\<close> is built.  The fragment number has 16 bits, so the loop does not return
  on a frame of more than 65536 full payloads: it starts again from the front.\<close>

partial_function (option) fragment_loop ::
  "bytes \<Rightarrow> u16 \<Rightarrow> u32 \<Rightarrow> u32 \<Rightarrow> u32 \<Rightarrow> (nat \<Rightarrow> u32) \<Rightarrow> u32 \<Rightarrow> u16 \<Rightarrow> u16 \<Rightarrow> u16 \<Rightarrow> nat \<Rightarrow> packet list \<Rightarrow>
   packet list result option" where
  "fragment_loop whole_frame connection_id source_state target_state frame_no clock
     frame_push_timestamp rtt_average throughput fragment_no next_fragment_start fragments =
   (if next_fragment_start < length whole_frame then
      (case outgoing_packet whole_frame connection_id source_state target_state frame_no
          fragment_no 0 (clock (length fragments)) frame_push_timestamp rtt_average throughput of
         Inl e \<Rightarrow> Some (Inl e)
       | Inr (packet, next_start) \<Rightarrow>
           fragment_loop whole_frame connection_id source_state target_state frame_no clock
             frame_push_timestamp rtt_average throughput (fragment_no + 1) next_start
             (fragments @ [packet]))
    else Some (Inr fragments))"

declare fragment_loop.simps [code]

primrec set_all_fragments :: "u16 \<Rightarrow> packet list \<Rightarrow> packet list result" where
  "set_all_fragments n [] = Inr []"
| "set_all_fragments n (p # ps) =
     bind_result (set_fragments_in_this_frame n p) (\<lambda>q.
     bind_result (set_all_fragments n ps) (\<lambda>qs. Inr (q # qs)))"

text \<open>\<open>fragments_.front()\<close> is undefined for the empty frame.\<close>

definition finish_outgoing ::
  "u16 \<Rightarrow> u32 \<Rightarrow> u32 \<Rightarrow> u32 \<Rightarrow> u32 \<Rightarrow> u32 \<Rightarrow> u16 \<Rightarrow> u16 \<Rightarrow> packet list \<Rightarrow> fragmented_frame result" where
  "finish_outgoing connection_id source_state target_state frame_no time_since_last
     frame_push_timestamp rtt_average throughput fragments =
   (case fragments of
      [] \<Rightarrow> Inl Undefined
    | p # ps \<Rightarrow>
        (let fragments = set_time_to_next time_since_last p # ps;
             n = word_of_nat (length fragments) in
         bind_result (set_all_fragments n fragments) (\<lambda>fragments.
         Inr \<lparr>ff_connection_id = connection_id, ff_source_state = source_state,
              ff_target_state = target_state, ff_frame_no = frame_no,
              ff_fragments_in_this_frame = n, ff_frame_push_timestamp = frame_push_timestamp,
              ff_rtt_average = rtt_average, ff_throughput = throughput,
              ff_fragments = fragments, ff_remaining_fragments = 0\<rparr>)))"

definition outgoing_frame ::
  "u16 \<Rightarrow> u32 \<Rightarrow> u32 \<Rightarrow> u32 \<Rightarrow> u32 \<Rightarrow> u32 \<Rightarrow> u16 \<Rightarrow> u16 \<Rightarrow> (nat \<Rightarrow> u32) \<Rightarrow> bytes \<Rightarrow>
   fragmented_frame result option" where
  "outgoing_frame connection_id source_state target_state frame_no time_since_last
     frame_push_timestamp rtt_average throughput clock whole_frame =
   do {
     r \<leftarrow> fragment_loop whole_frame connection_id source_state target_state frame_no clock
            frame_push_timestamp rtt_average throughput 0 0 [];
     Some (bind_result r (finish_outgoing connection_id source_state target_state frame_no
             time_since_last frame_push_timestamp rtt_average throughput))
   }"

definition sanity_check :: "fragmented_frame \<Rightarrow> packet \<Rightarrow> unit result" where
  "sanity_check f p =
     bind_result (check (\<not> pk_connection_id p \<noteq> ff_connection_id f) Runtime_error) (\<lambda>_.
     bind_result (check (\<not> pk_source_state p \<noteq> ff_source_state f) Runtime_error) (\<lambda>_.
     bind_result (check (\<not> pk_target_state p \<noteq> ff_target_state f) Runtime_error) (\<lambda>_.
     bind_result (check (\<not> pk_fragments_in_this_frame p \<noteq> ff_fragments_in_this_frame f)
                    Runtime_error) (\<lambda>_.
     bind_result (check (\<not> pk_frame_no p \<noteq> ff_frame_no f) Runtime_error) (\<lambda>_.
     check (\<not> pk_fragment_no p \<ge> ff_fragments_in_this_frame f) Runtime_error)))))"

text \<open>\<open>fragments_[ i ]\<close> is not bounds-checked; an index outside the vector is undefined.\<close>

definition add_packet :: "packet \<Rightarrow> fragmented_frame \<Rightarrow> fragmented_frame result" where
  "add_packet p f =
     bind_result (sanity_check f p) (\<lambda>_.
     (case at (ff_fragments f) (unat (pk_fragment_no p)) of
        None \<Rightarrow> Inl Undefined
      | Some old \<Rightarrow>
          if \<not> pk_valid old then
            Inr (f\<lparr>ff_remaining_fragments := ff_remaining_fragments f - 1,
                   ff_fragments := (ff_fragments f)[unat (pk_fragment_no p) := p]\<rparr>)
          else Inr f))"

definition incoming_frame :: "u16 \<Rightarrow> packet \<Rightarrow> fragmented_frame result" where
  "incoming_frame connection_id packet =
     (let f = \<lparr>ff_connection_id = connection_id, ff_source_state = pk_source_state packet,
               ff_target_state = pk_target_state packet, ff_frame_no = pk_frame_no packet,
               ff_fragments_in_this_frame = pk_fragments_in_this_frame packet,
               ff_frame_push_timestamp = pk_frame_push_timestamp packet,
               ff_rtt_average = pk_rtt_average packet, ff_throughput = pk_throughput packet,
               ff_fragments = replicate (unat (pk_fragments_in_this_frame packet)) empty_packet,
               ff_remaining_fragments = ucast (pk_fragments_in_this_frame packet)\<rparr> in
      bind_result (sanity_check f packet) (\<lambda>_. add_packet packet f))"

definition ff_complete :: "fragmented_frame \<Rightarrow> bool" where
  "ff_complete f \<longleftrightarrow> ff_remaining_fragments f = 0"

definition ff_packets :: "fragmented_frame \<Rightarrow> packet list result" where
  "ff_packets f =
     (if \<not> ff_complete f \<or> length (ff_fragments f) \<noteq> unat (ff_fragments_in_this_frame f)
      then Inl Runtime_error else Inr (ff_fragments f))"

text \<open>\<open>send\<close>: the datagrams handed to the socket, in order.\<close>

primrec packet_strings :: "packet list \<Rightarrow> bytes list result" where
  "packet_strings [] = Inr []"
| "packet_strings (p # ps) =
     bind_result (packet_to_string p) (\<lambda>s. bind_result (packet_strings ps) (\<lambda>ss. Inr (s # ss)))"

definition ff_send :: "fragmented_frame \<Rightarrow> bytes list result" where
  "ff_send f =
     bind_result (check (length (ff_fragments f) = unat (ff_fragments_in_this_frame f)) Runtime_error) (\<lambda>_.
     bind_result (check (ff_complete f) Assert_failed) (\<lambda>_.
     packet_strings (ff_fragments f)))"

definition ff_frame :: "fragmented_frame \<Rightarrow> bytes result" where
  "ff_frame f =
     (if \<not> ff_complete f then Inl Runtime_error
      else Inr (concat (map pk_payload (ff_fragments f))))"

definition ff_partial_frame :: "fragmented_frame \<Rightarrow> bytes" where
  "ff_partial_frame f = concat (map pk_payload (takeWhile pk_valid (ff_fragments f)))"

section \<open>Reassembly refines collecting fragment numbers\<close>

text \<open>The packets of one frame, in order.\<close>

definition packets_of_frame :: "packet list \<Rightarrow> bool" where
  "packets_of_frame ps \<longleftrightarrow> ps \<noteq> [] \<and> length ps < 2 ^ 16 \<and>
     (\<forall>i<length ps. packet_ok (ps ! i) \<and> unat (pk_fragment_no (ps ! i)) = i \<and>
        unat (pk_fragments_in_this_frame (ps ! i)) = length ps \<and>
        pk_connection_id (ps ! i) = pk_connection_id (hd ps) \<and>
        pk_source_state (ps ! i) = pk_source_state (hd ps) \<and>
        pk_target_state (ps ! i) = pk_target_state (hd ps) \<and>
        pk_frame_no (ps ! i) = pk_frame_no (hd ps) \<and>
        pk_frame_push_timestamp (ps ! i) = pk_frame_push_timestamp (hd ps) \<and>
        pk_rtt_average (ps ! i) = pk_rtt_average (hd ps) \<and>
        pk_throughput (ps ! i) = pk_throughput (hd ps))"

definition partial_view :: "packet list \<Rightarrow> nat set \<Rightarrow> fragmented_frame" where
  "partial_view ps I =
     \<lparr>ff_connection_id = pk_connection_id (hd ps), ff_source_state = pk_source_state (hd ps),
      ff_target_state = pk_target_state (hd ps), ff_frame_no = pk_frame_no (hd ps),
      ff_fragments_in_this_frame = word_of_nat (length ps),
      ff_frame_push_timestamp = pk_frame_push_timestamp (hd ps),
      ff_rtt_average = pk_rtt_average (hd ps), ff_throughput = pk_throughput (hd ps),
      ff_fragments = map (\<lambda>i. if i \<in> I then ps ! i else empty_packet) [0..<length ps],
      ff_remaining_fragments = word_of_nat (length ps - card I)\<rparr>"

primrec add_packets :: "packet list \<Rightarrow> fragmented_frame \<Rightarrow> fragmented_frame result" where
  "add_packets [] f = Inr f"
| "add_packets (p # ps) f = bind_result (add_packet p f) (add_packets ps)"

fun reassemble :: "u16 \<Rightarrow> packet list \<Rightarrow> fragmented_frame result" where
  "reassemble connection_id [] = Inl Logic_error"
| "reassemble connection_id (p # ps) =
     bind_result (incoming_frame connection_id p) (add_packets ps)"

lemma packets_of_frameD:
  assumes "packets_of_frame ps" and "i < length ps"
  shows "packet_ok (ps ! i)" "unat (pk_fragment_no (ps ! i)) = i"
    "pk_fragments_in_this_frame (ps ! i) = word_of_nat (length ps)"
    "pk_connection_id (ps ! i) = pk_connection_id (hd ps)"
    "pk_source_state (ps ! i) = pk_source_state (hd ps)"
    "pk_target_state (ps ! i) = pk_target_state (hd ps)"
    "pk_frame_no (ps ! i) = pk_frame_no (hd ps)"
    "pk_frame_push_timestamp (ps ! i) = pk_frame_push_timestamp (hd ps)"
    "pk_rtt_average (ps ! i) = pk_rtt_average (hd ps)"
    "pk_throughput (ps ! i) = pk_throughput (hd ps)"
  using assms unfolding packets_of_frame_def by (auto simp: word_unat_eq_iff unat_of_nat take_bit_eq_mod)

lemma count_u16: "packets_of_frame ps \<Longrightarrow> unat (word_of_nat (length ps) :: u16) = length ps"
  by (simp add: packets_of_frame_def unat_of_nat take_bit_eq_mod)

lemma empty_packet_invalid [simp]: "\<not> pk_valid empty_packet"
  by (simp add: empty_packet_def)

lemma sanity_check_view:
  assumes "packets_of_frame ps" and "i < length ps"
  shows "sanity_check (partial_view ps I) (ps ! i) = Inr ()"
proof -
  have "\<not> pk_fragment_no (ps ! i) \<ge> word_of_nat (length ps)"
    using packets_of_frameD(2) [OF assms] count_u16 [OF assms(1)] assms(2)
    by (simp add: word_le_nat_alt)
  then show ?thesis
    by (simp add: sanity_check_def partial_view_def packets_of_frameD [OF assms])
qed

lemma add_packet_view:
  assumes ps: "packets_of_frame ps" and i: "i < length ps" and I: "I \<subseteq> {..<length ps}"
  shows "add_packet (ps ! i) (partial_view ps I) = Inr (partial_view ps (insert i I))"
proof -
  let ?f = "partial_view ps I"
  have old: "at (ff_fragments ?f) (unat (pk_fragment_no (ps ! i))) =
      Some (if i \<in> I then ps ! i else empty_packet)"
    using i packets_of_frameD(2) [OF ps i] by (simp add: partial_view_def)
  have valid: "pk_valid (ps ! i)"
    using packets_of_frameD(1) [OF ps i] by (simp add: packet_ok_def)
  show ?thesis
  proof (cases "i \<in> I")
    case True
    then show ?thesis
      using old valid by (simp add: add_packet_def sanity_check_view [OF ps i] insert_absorb)
  next
    case False
    have fin: "finite I" using I finite_subset by blast
    have "card (insert i I) \<le> card {..<length ps}"
      using I i by (intro card_mono) auto
    then have c: "Suc (card I) \<le> length ps"
      using False fin by simp
    then have "(word_of_nat (length ps - card I) :: u32) - 1 = word_of_nat (length ps - card (insert i I))"
      using False fin by (simp add: of_nat_diff algebra_simps)
    moreover have "(map (\<lambda>j. if j \<in> I then ps ! j else empty_packet) [0..<length ps])[i := ps ! i] =
        map (\<lambda>j. if j \<in> insert i I then ps ! j else empty_packet) [0..<length ps]"
      using i by (intro nth_equalityI) (auto simp: nth_list_update)
    ultimately show ?thesis
      using old False packets_of_frameD(2) [OF ps i]
      unfolding add_packet_def sanity_check_view [OF ps i] by (simp add: partial_view_def)
  qed
qed

lemma incoming_frame_view:
  assumes ps: "packets_of_frame ps" and i: "i < length ps"
  shows "incoming_frame (pk_connection_id (hd ps)) (ps ! i) = Inr (partial_view ps {i})"
proof -
  have n: "unat (word_of_nat (length ps) :: u16) = length ps"
    by (rule count_u16 [OF ps])
  have "(ucast (word_of_nat (length ps) :: u16) :: u32) = word_of_nat (length ps)"
    using n by (simp add: word_unat_eq_iff unat_ucast_up unat_of_nat take_bit_eq_mod)
  moreover have "map (\<lambda>i. empty_packet) [0..<length ps] = replicate (length ps) empty_packet"
    by (simp add: map_replicate_const)
  ultimately have "incoming_frame (pk_connection_id (hd ps)) (ps ! i) =
      bind_result (sanity_check (partial_view ps {}) (ps ! i)) (\<lambda>_. add_packet (ps ! i) (partial_view ps {}))"
    by (simp add: incoming_frame_def Let_def packets_of_frameD [OF assms] n partial_view_def)
  then show ?thesis
    using add_packet_view [OF ps i, of "{}"] by (simp add: sanity_check_view [OF ps i])
qed

lemma add_packets_view:
  assumes ps: "packets_of_frame ps"
  shows "set js \<subseteq> {..<length ps} \<Longrightarrow> I \<subseteq> {..<length ps} \<Longrightarrow>
    add_packets (map ((!) ps) js) (partial_view ps I) = Inr (partial_view ps (I \<union> set js))"
proof (induction js arbitrary: I)
  case (Cons j js)
  then have "add_packet (ps ! j) (partial_view ps I) = Inr (partial_view ps (insert j I))"
    by (intro add_packet_view [OF ps]) auto
  with Cons show ?case by simp
qed simp

lemma reassemble_view:
  assumes ps: "packets_of_frame ps" and "js \<noteq> []" and "set js \<subseteq> {..<length ps}"
  shows "reassemble (pk_connection_id (hd ps)) (map ((!) ps) js) = Inr (partial_view ps (set js))"
proof -
  obtain k ks where "js = k # ks" using assms(2) by (cases js) auto
  then show ?thesis
    using assms(3) incoming_frame_view [OF ps, of k] add_packets_view [OF ps, of ks "{k}"] by simp
qed

lemma partial_view_complete:
  assumes ps: "packets_of_frame ps" and I: "I \<subseteq> {..<length ps}"
  shows "ff_complete (partial_view ps I) \<longleftrightarrow> I = {..<length ps}"
proof -
  have "card I \<le> length ps"
    using card_mono [OF _ I] by simp
  have "length ps < 2 ^ 16"
    using ps by (simp add: packets_of_frame_def)
  then have "length ps - card I < 2 ^ 32"
    by simp
  then have "unat (word_of_nat (length ps - card I) :: u32) = length ps - card I"
    by (intro unat_of_nat_lt) simp
  then have "ff_complete (partial_view ps I) \<longleftrightarrow> length ps - card I = 0"
    unfolding ff_complete_def partial_view_def fragmented_frame.select_convs word_unat_eq_iff
    by (simp only: unat_0)
  also have "\<dots> \<longleftrightarrow> card I = length ps"
    using \<open>card I \<le> length ps\<close> by linarith
  also have "\<dots> \<longleftrightarrow> I = {..<length ps}"
    using I by (metis card_lessThan card_subset_eq finite_lessThan)
  finally show ?thesis .
qed

lemma partial_view_full: "map (\<lambda>i. if i \<in> {..<length ps} then ps ! i else empty_packet) [0..<length ps] = ps"
  by (intro nth_equalityI) simp_all

lemma partial_view_prefix:
  assumes ps: "packets_of_frame ps" and "k \<le> length ps" and "{..<k} \<subseteq> I" and "k \<notin> I"
  shows "ff_partial_frame (partial_view ps I) = concat (map pk_payload (take k ps))"
proof -
  let ?g = "\<lambda>i. if i \<in> I then ps ! i else empty_packet"
  have valid: "pk_valid (ps ! i)" if "i < length ps" for i
    using packets_of_frameD(1) [OF ps that] by (simp add: packet_ok_def)
  have "[0..<length ps] = [0..<k] @ [k..<length ps]"
    using assms(2) by (metis le_add_diff_inverse upt_add_eq_append zero_le)
  moreover have "map ?g [0..<k] = take k ps"
    using assms(2,3) by (intro nth_equalityI) auto
  moreover have "takeWhile pk_valid (take k ps @ map ?g [k..<length ps]) = take k ps"
  proof (cases "k < length ps")
    case True
    then have "[k..<length ps] = k # [Suc k..<length ps]" by (rule upt_conv_Cons)
    then show ?thesis
      using valid assms(2,4) by (subst takeWhile_append2) (auto simp: in_set_conv_nth)
  next
    case False
    then show ?thesis using valid assms(2) by (auto simp: in_set_conv_nth intro!: takeWhile_eq_all_conv [THEN iffD2])
  qed
  ultimately show ?thesis
    by (simp add: ff_partial_frame_def partial_view_def)
qed

section \<open>Fragmenting a frame\<close>

text \<open>The number of fragments, and the fragments one by one.\<close>

definition fragment_count :: "bytes \<Rightarrow> nat" where
  "fragment_count whole_frame = (length whole_frame + (MAXIMUM_PAYLOAD - 1)) div MAXIMUM_PAYLOAD"

definition fragment ::
  "bytes \<Rightarrow> u16 \<Rightarrow> u32 \<Rightarrow> u32 \<Rightarrow> u32 \<Rightarrow> (nat \<Rightarrow> u32) \<Rightarrow> u32 \<Rightarrow> u16 \<Rightarrow> u16 \<Rightarrow> nat \<Rightarrow> packet" where
  "fragment whole_frame connection_id source_state target_state frame_no clock
     frame_push_timestamp rtt_average throughput i =
   \<lparr>pk_valid = True, pk_connection_id = connection_id, pk_source_state = source_state,
    pk_target_state = target_state, pk_frame_no = frame_no, pk_fragment_no = word_of_nat i,
    pk_fragments_in_this_frame = 0, pk_time_since_last = 0,
    pk_packet_send_timestamp = clock i, pk_frame_push_timestamp = frame_push_timestamp,
    pk_rtt_average = rtt_average, pk_throughput = throughput,
    pk_payload = take MAXIMUM_PAYLOAD (drop (MAXIMUM_PAYLOAD * i) whole_frame)\<rparr>"

lemma fragment_count_iff: "i < fragment_count w \<longleftrightarrow> MAXIMUM_PAYLOAD * i < length w"
  unfolding fragment_count_def MAXIMUM_PAYLOAD_def
  by (auto simp: less_eq_div_iff_mult_less_eq Suc_le_eq [symmetric])

lemma take_min_drop: "take (min (length w - k) n) (drop k w) = take n (drop k w)"
  by (simp add: min_def)

lemma outgoing_packet_fragment:
  assumes "i < fragment_count w" and "i < 2 ^ 16"
  shows "outgoing_packet w c s t f (word_of_nat i) 0 (clock i) fp rtt thr =
    Inr (fragment w c s t f clock fp rtt thr i, min (MAXIMUM_PAYLOAD * Suc i) (length w))"
proof -
  have i: "MAXIMUM_PAYLOAD * i < length w" "w \<noteq> []"
    using assms(1) unfolding fragment_count_iff by auto
  have "unat (word_of_nat i :: u16) = i"
    using assms(2) by (intro unat_of_nat_lt) simp
  then show ?thesis
    using i by (simp add: outgoing_packet_def Let_def fragment_def take_min_drop)
qed

lemma fragment_loop_returns:
  assumes count: "fragment_count w < 2 ^ 16"
  shows "i \<le> fragment_count w \<Longrightarrow>
    fragment_loop w c s t f clock fp rtt thr (word_of_nat i) (min (MAXIMUM_PAYLOAD * i) (length w))
      (map (fragment w c s t f clock fp rtt thr) [0..<i]) =
    Some (Inr (map (fragment w c s t f clock fp rtt thr) [0..<fragment_count w]))"
proof (induction "fragment_count w - i" arbitrary: i)
  case 0
  then have "i = fragment_count w" by simp
  then have "\<not> MAXIMUM_PAYLOAD * i < length w"
    using fragment_count_iff [of i w] by simp
  then show ?case
    using \<open>i = fragment_count w\<close> by (subst fragment_loop.simps) simp
next
  case (Suc n)
  then have i: "i < fragment_count w" by simp
  then have "MAXIMUM_PAYLOAD * i < length w"
    by (simp add: fragment_count_iff)
  moreover have "outgoing_packet w c s t f (word_of_nat i) 0 (clock i) fp rtt thr =
    Inr (fragment w c s t f clock fp rtt thr i, min (MAXIMUM_PAYLOAD * Suc i) (length w))"
    using i count by (intro outgoing_packet_fragment) simp_all
  moreover have "(word_of_nat i :: u16) + 1 = word_of_nat (Suc i)" by simp
  ultimately show ?case
    using Suc.hyps(1) [of "Suc i"] Suc.hyps(2) i by (subst fragment_loop.simps) (simp add: algebra_simps)
qed

lemma concat_fragments:
  "concat (map (\<lambda>i. take k (drop (k * i) w)) [0..<n]) = take (k * n) w"
proof (induction n)
  case (Suc n)
  then show ?case
    using take_add [of "k * n" k w] by (simp add: ac_simps)
qed simp

lemma set_all_fragments_ok:
  "(\<forall>p\<in>set ps. pk_fragment_no p < n) \<Longrightarrow>
   set_all_fragments n ps = Inr (map (pk_fragments_in_this_frame_update (\<lambda>_. n)) ps)"
  by (induction ps) (simp_all add: set_fragments_in_this_frame_def)

text \<open>What the outgoing constructor builds for a frame of 1 to 65535 fragments.\<close>

definition sent_fragments ::
  "bytes \<Rightarrow> u16 \<Rightarrow> u32 \<Rightarrow> u32 \<Rightarrow> u32 \<Rightarrow> u32 \<Rightarrow> (nat \<Rightarrow> u32) \<Rightarrow> u32 \<Rightarrow> u16 \<Rightarrow> u16 \<Rightarrow> packet list" where
  "sent_fragments w c s t f since clock fp rtt thr =
     map (\<lambda>i. (fragment w c s t f clock fp rtt thr i)
            \<lparr>pk_fragments_in_this_frame := word_of_nat (fragment_count w),
             pk_time_since_last := (if i = 0 then since else 0)\<rparr>) [0..<fragment_count w]"

lemma finish_outgoing_Cons:
  assumes "length (p # ps) = n"
  shows "finish_outgoing c s t f since fp rtt thr (p # ps) =
    bind_result (set_all_fragments (word_of_nat n) (set_time_to_next since p # ps)) (\<lambda>fragments.
      Inr \<lparr>ff_connection_id = c, ff_source_state = s, ff_target_state = t, ff_frame_no = f,
        ff_fragments_in_this_frame = word_of_nat n, ff_frame_push_timestamp = fp,
        ff_rtt_average = rtt, ff_throughput = thr, ff_fragments = fragments,
        ff_remaining_fragments = 0\<rparr>)"
  unfolding finish_outgoing_def list.case Let_def using assms by simp

lemma outgoing_frame_ok:
  assumes "w \<noteq> []" and "fragment_count w < 2 ^ 16"
  shows "outgoing_frame c s t f since fp rtt thr clock w =
    Some (Inr \<lparr>ff_connection_id = c, ff_source_state = s, ff_target_state = t, ff_frame_no = f,
      ff_fragments_in_this_frame = word_of_nat (fragment_count w),
      ff_frame_push_timestamp = fp, ff_rtt_average = rtt, ff_throughput = thr,
      ff_fragments = sent_fragments w c s t f since clock fp rtt thr,
      ff_remaining_fragments = 0\<rparr>)"
proof -
  let ?g = "fragment w c s t f clock fp rtt thr"
  let ?n = "fragment_count w"
  have pos: "0 < ?n" using assms(1) by (simp add: fragment_count_iff)
  then obtain m where m: "?n = Suc m" by (cases ?n) auto
  have loop: "fragment_loop w c s t f clock fp rtt thr 0 0 [] = Some (Inr (map ?g [0..<?n]))"
    using fragment_loop_returns [OF assms(2), of 0] by simp
  have head: "map ?g [0..<?n] = ?g 0 # map ?g [1..<?n]"
    unfolding m by (simp add: upt_conv_Cons del: upt_Suc)
  let ?ps = "set_time_to_next since (?g 0) # map ?g [1..<?n]"
  have lt: "pk_fragment_no (?g i) < word_of_nat ?n" if "i < ?n" for i
    using that assms(2) by (simp add: fragment_def word_less_nat_alt unat_of_nat_lt)
  have "set_all_fragments (word_of_nat ?n) ?ps =
      Inr (map (pk_fragments_in_this_frame_update (\<lambda>_. word_of_nat ?n)) ?ps)"
    using lt pos by (intro set_all_fragments_ok) (auto simp: set_time_to_next_def)
  moreover have "map (pk_fragments_in_this_frame_update (\<lambda>_. word_of_nat ?n)) ?ps =
      sent_fragments w c s t f since clock fp rtt thr"
    unfolding sent_fragments_def m
    by (simp add: upt_conv_Cons set_time_to_next_def fragment_def del: upt_Suc)
  moreover have "length (?g 0 # map ?g [1..<?n]) = ?n" using pos by simp
  note finish_outgoing_Cons [OF this, of c s t f since fp rtt thr]
  ultimately show ?thesis
    unfolding outgoing_frame_def loop head by (simp del: set_all_fragments.simps)
qed

lemma length_sent_fragments [simp]:
  "length (sent_fragments w c s t f since clock fp rtt thr) = fragment_count w"
  by (simp add: sent_fragments_def)

lemma payloads_sent_fragments:
  "concat (map pk_payload (sent_fragments w c s t f since clock fp rtt thr)) = w"
proof -
  have "map pk_payload (sent_fragments w c s t f since clock fp rtt thr) =
      map (\<lambda>i. take MAXIMUM_PAYLOAD (drop (MAXIMUM_PAYLOAD * i) w)) [0..<fragment_count w]"
    by (simp add: sent_fragments_def fragment_def)
  moreover have "length w \<le> MAXIMUM_PAYLOAD * fragment_count w"
    using fragment_count_iff [of "fragment_count w" w] by simp
  ultimately show ?thesis
    by (simp add: concat_fragments)
qed

lemma sent_fragments_nth:
  "i < fragment_count w \<Longrightarrow> sent_fragments w c s t f since clock fp rtt thr ! i =
    (fragment w c s t f clock fp rtt thr i)
      \<lparr>pk_fragments_in_this_frame := word_of_nat (fragment_count w),
       pk_time_since_last := (if i = 0 then since else 0)\<rparr>"
  by (simp add: sent_fragments_def)

lemma sent_fragments_frame:
  assumes "w \<noteq> []" and count: "fragment_count w < 2 ^ 16"
  shows "packets_of_frame (sent_fragments w c s t f since clock fp rtt thr)"
    and "pk_connection_id (hd (sent_fragments w c s t f since clock fp rtt thr)) = c"
proof -
  let ?ps = "sent_fragments w c s t f since clock fp rtt thr"
  have pos: "0 < fragment_count w" using assms(1) by (simp add: fragment_count_iff)
  have ne: "?ps \<noteq> []" using pos by (metis length_sent_fragments less_numeral_extra(3) list.size(3))
  have hd: "hd ?ps = ?ps ! 0" using ne by (rule hd_conv_nth)
  have ok: "packet_ok (?ps ! i)" if "i < fragment_count w" for i
  proof -
    have "unat (word_of_nat i :: u16) < unat (word_of_nat (fragment_count w) :: u16)"
      using that count by (simp add: unat_of_nat_lt)
    moreover have "MAXIMUM_PAYLOAD * i < length w" "MAXIMUM_PAYLOAD \<noteq> 0"
      using that by (simp_all add: fragment_count_iff) (simp add: MAXIMUM_PAYLOAD_def)
    ultimately show ?thesis
      unfolding sent_fragments_nth [OF that] packet_ok_def word_less_nat_alt fragment_def by simp
  qed
  show "packets_of_frame ?ps"
    unfolding packets_of_frame_def hd using ne count pos ok
    by (simp add: sent_fragments_nth fragment_def unat_of_nat_lt)
  show "pk_connection_id (hd ?ps) = c"
    unfolding hd using pos by (simp add: sent_fragments_nth fragment_def)
qed


section \<open>From one end of the wire to the other\<close>

primrec parse_all :: "bytes list \<Rightarrow> packet list result" where
  "parse_all [] = Inr []"
| "parse_all (b # bs) =
     bind_result (parse_packet (chunk_of b)) (\<lambda>p. bind_result (parse_all bs) (\<lambda>ps. Inr (p # ps)))"

lemma packet_strings_ok:
  "\<forall>p\<in>set ps. packet_ok p \<Longrightarrow>
   packet_strings ps = Inr (map (\<lambda>p. packet_header p @ pk_payload p) ps)"
  by (induction ps) (simp_all add: packet_to_string_ok)

lemma parse_wire:
  assumes "packet_ok p" and "length (pk_payload p) < 2 ^ 63"
  shows "parse_packet (chunk_of (packet_header p @ pk_payload p)) = Inr p"
  using assms by (intro parse_to_string) (simp_all add: packet_to_string_ok)

lemma parse_all_wire:
  assumes "\<forall>p\<in>set ps. packet_ok p \<and> length (pk_payload p) < 2 ^ 63" and "set js \<subseteq> {..<length ps}"
  shows "parse_all (map ((!) (map (\<lambda>p. packet_header p @ pk_payload p) ps)) js) = Inr (map ((!) ps) js)"
  using assms(2)
proof (induction js)
  case (Cons j js)
  then have "ps ! j \<in> set ps" by simp
  with assms(1) have "parse_packet (chunk_of (packet_header (ps ! j) @ pk_payload (ps ! j))) = Inr (ps ! j)"
    by (intro parse_wire) auto
  with Cons show ?case by simp
qed simp

lemma sent_packets_ok:
  assumes "w \<noteq> []" and "fragment_count w < 2 ^ 16"
  shows "\<forall>p\<in>set (sent_fragments w c s t f since clock fp rtt thr).
    packet_ok p \<and> length (pk_payload p) < 2 ^ 63"
proof
  fix p
  let ?ps = "sent_fragments w c s t f since clock fp rtt thr"
  assume "p \<in> set ?ps"
  then obtain i where i: "i < fragment_count w" "p = ?ps ! i"
    by (metis in_set_conv_nth length_sent_fragments)
  have "packet_ok p"
    using packets_of_frameD(1) [OF sent_fragments_frame(1) [OF assms]] i by simp
  moreover have "length (pk_payload p) \<le> 1400"
    unfolding i(2) sent_fragments_nth [OF i(1)] by (simp add: fragment_def MAXIMUM_PAYLOAD_def)
  ultimately show "packet_ok p \<and> length (pk_payload p) < 2 ^ 63"
    by simp
qed

section \<open>Acknowledgements\<close>

record ack_packet =
  ak_connection_id :: u16
  ak_frame_no :: u32
  ak_fragment_no :: u16
  ak_avg_delay :: u32
  ak_current_state :: u32
  ak_packet_send_timestamp :: u32
  ak_ack_delay :: u32
  ak_frame_one_way_delay :: u32
  ak_frame_finish_state :: u16
  ak_complete_states :: "u32 list"

definition ack_to_string :: "ack_packet \<Rightarrow> bytes" where
  "ack_to_string a =
     put_header_field16 (ak_connection_id a) @ put_header_field32 (ak_frame_no a) @
     put_header_field16 (ak_fragment_no a) @ put_header_field32 (ak_avg_delay a) @
     put_header_field32 (ak_current_state a) @
     put_header_field32 (ak_packet_send_timestamp a) @ put_header_field32 (ak_ack_delay a) @
     put_header_field32 (ak_frame_one_way_delay a) @
     put_header_field16 (ak_frame_finish_state a) @
     put_header_field32 (word_of_nat (length (ak_complete_states a))) @
     concat (map put_header_field32 (ak_complete_states a))"

text \<open>The loop over the announced number of states reads each from its offset.\<close>

primrec read_states :: "chunk \<Rightarrow> nat \<Rightarrow> nat \<Rightarrow> u32 list result" where
  "read_states str i 0 = Inr []"
| "read_states str i (Suc n) =
     bind_result (field32 str (word_of_nat (34 + i * 4))) (\<lambda>s.
     bind_result (read_states str (Suc i) n) (\<lambda>ss. Inr (s # ss)))"

definition parse_ack :: "chunk \<Rightarrow> ack_packet result" where
  "parse_ack str =
     bind_result (field16 str 0) (\<lambda>connection_id.
     bind_result (field32 str 2) (\<lambda>frame_no.
     bind_result (field16 str 6) (\<lambda>fragment_no.
     bind_result (field32 str 8) (\<lambda>avg_delay.
     bind_result (field32 str 12) (\<lambda>current_state.
     bind_result (field32 str 16) (\<lambda>packet_send_timestamp.
     bind_result (field32 str 20) (\<lambda>ack_delay.
     bind_result (field32 str 24) (\<lambda>frame_one_way_delay.
     bind_result (field16 str 28) (\<lambda>frame_finish_state.
     bind_result (field32 str 30) (\<lambda>count.
     bind_result (read_states str 0 (unat count)) (\<lambda>complete_states.
     Inr \<lparr>ak_connection_id = connection_id, ak_frame_no = frame_no,
          ak_fragment_no = fragment_no, ak_avg_delay = avg_delay,
          ak_current_state = current_state,
          ak_packet_send_timestamp = packet_send_timestamp, ak_ack_delay = ack_delay,
          ak_frame_one_way_delay = frame_one_way_delay,
          ak_frame_finish_state = frame_finish_state,
          ak_complete_states = complete_states\<rparr>)))))))))))"

lemma length_states [simp]: "length (concat (map put_header_field32 ss)) = 4 * length ss"
  by (induction ss) simp_all

lemma read_states_ok:
  assumes c: "chunk_ok c" and size: "34 + 4 * (i + length ss) < 2 ^ 64"
    and tail: "drop (34 + i * 4) (contents c) = concat (map put_header_field32 ss)"
    and len: "34 + i * 4 \<le> length (contents c)"
  shows "read_states c i (length ss) = Inr ss"
  using size tail len
proof (induction ss arbitrary: i)
  case (Cons s ss)
  let ?off = "word_of_nat (34 + i * 4) :: u64"
  have off: "unat ?off = 34 + i * 4"
    using Cons.prems(1) by (intro unat_of_nat_lt) simp
  have "field32 c ?off = Inr s"
    by (rule field32.get_drop [OF c]) (unfold off, use Cons.prems in simp_all)
  moreover have "drop (34 + Suc i * 4) (contents c) = concat (map put_header_field32 ss)"
  proof -
    have "drop (34 + Suc i * 4) (contents c) = drop 4 (drop (34 + i * 4) (contents c))"
      by (simp add: add.commute)
    then show ?thesis unfolding Cons.prems(2) by simp
  qed
  moreover have "34 + Suc i * 4 \<le> length (contents c)"
    using arg_cong [OF Cons.prems(2), of length] Cons.prems(3) by simp
  ultimately show ?case
    using Cons.IH [of "Suc i"] Cons.prems(1) by simp
qed simp

lemma ack_roundtrip:
  assumes "length (ak_complete_states a) < 2 ^ 32"
  shows "parse_ack (chunk_of (ack_to_string a)) = Inr a"
proof -
  let ?c = "chunk_of (ack_to_string a)"
  have len: "length (ack_to_string a) = 34 + 4 * length (ak_complete_states a)"
    by (simp add: ack_to_string_def)
  then have c: "chunk_ok ?c" and cont: "contents ?c = ack_to_string a"
    using assms by simp_all
  note cont' = cont [unfolded ack_to_string_def append_assoc]
  have count: "unat (word_of_nat (length (ak_complete_states a)) :: u32) = length (ak_complete_states a)"
    using assms by (intro unat_of_nat_lt) simp
  have "field16 ?c 0 = Inr (ak_connection_id a)" "field16 ?c 6 = Inr (ak_fragment_no a)"
    "field16 ?c 28 = Inr (ak_frame_finish_state a)"
    by (rule field16.get_drop [OF c]; simp add: cont' ack_to_string_def; fail)+
  moreover have "field32 ?c 2 = Inr (ak_frame_no a)" "field32 ?c 8 = Inr (ak_avg_delay a)"
    "field32 ?c 12 = Inr (ak_current_state a)" "field32 ?c 16 = Inr (ak_packet_send_timestamp a)"
    "field32 ?c 20 = Inr (ak_ack_delay a)" "field32 ?c 24 = Inr (ak_frame_one_way_delay a)"
    "field32 ?c 30 = Inr (word_of_nat (length (ak_complete_states a)))"
    by (rule field32.get_drop [OF c]; simp add: cont' ack_to_string_def; fail)+
  moreover have "read_states ?c 0 (length (ak_complete_states a)) = Inr (ak_complete_states a)"
    using assms by (intro read_states_ok [OF c]) (simp_all add: cont ack_to_string_def)
  ultimately show ?thesis
    by (simp add: parse_ack_def count)
qed

section \<open>Well-formed reassemblies\<close>

text \<open>Whatever packets arrive: the vector has the announced size and the counter counts the
  fragments that are missing from it.\<close>

definition ff_wf :: "fragmented_frame \<Rightarrow> bool" where
  "ff_wf f \<longleftrightarrow> length (ff_fragments f) = unat (ff_fragments_in_this_frame f) \<and>
     unat (ff_remaining_fragments f) = length (filter (\<lambda>p. \<not> pk_valid p) (ff_fragments f))"

lemma length_filter_update:
  "i < length xs \<Longrightarrow> P (xs ! i) \<Longrightarrow> \<not> P x \<Longrightarrow>
   Suc (length (filter P (xs[i := x]))) = length (filter P xs)"
proof (induction xs arbitrary: i)
  case (Cons y xs)
  then show ?case by (cases i) auto
qed simp

lemma sanity_check_cases:
  "sanity_check f p = Inl Runtime_error \<or>
   (sanity_check f p = Inr () \<and> pk_fragment_no p < ff_fragments_in_this_frame f)"
  by (simp add: sanity_check_def check_def not_le)

lemma add_packet_wf:
  assumes wf: "ff_wf f" and valid: "pk_valid p"
  shows "add_packet p f = Inl Runtime_error \<or> (\<exists>g. add_packet p f = Inr g \<and> ff_wf g)"
proof (cases "sanity_check f p = Inl Runtime_error")
  case True
  then show ?thesis by (simp add: add_packet_def)
next
  case False
  then have sane: "sanity_check f p = Inr ()" and "pk_fragment_no p < ff_fragments_in_this_frame f"
    using sanity_check_cases [of f p] by auto
  let ?i = "unat (pk_fragment_no p)"
  have i: "?i < length (ff_fragments f)"
    using wf \<open>pk_fragment_no p < ff_fragments_in_this_frame f\<close> by (simp add: ff_wf_def word_less_nat_alt)
  show ?thesis
  proof (cases "pk_valid (ff_fragments f ! ?i)")
    case True
    then show ?thesis using sane i wf by (simp add: add_packet_def)
  next
    case False
    let ?inv = "\<lambda>p. \<not> pk_valid p"
    have count: "Suc (length (filter ?inv ((ff_fragments f)[?i := p]))) = unat (ff_remaining_fragments f)"
      using length_filter_update [OF i, of ?inv p] False valid wf by (simp add: ff_wf_def)
    then have "unat (ff_remaining_fragments f - 1) = length (filter ?inv ((ff_fragments f)[?i := p]))"
      by (subst unat_minus_one) auto
    then show ?thesis
      using sane i wf False by (simp add: add_packet_def ff_wf_def)
  qed
qed

lemma incoming_frame_wf:
  assumes "pk_valid p"
  shows "incoming_frame c p = Inl Runtime_error \<or> (\<exists>g. incoming_frame c p = Inr g \<and> ff_wf g)"
proof -
  let ?f = "\<lparr>ff_connection_id = c, ff_source_state = pk_source_state p,
               ff_target_state = pk_target_state p, ff_frame_no = pk_frame_no p,
               ff_fragments_in_this_frame = pk_fragments_in_this_frame p,
               ff_frame_push_timestamp = pk_frame_push_timestamp p,
               ff_rtt_average = pk_rtt_average p, ff_throughput = pk_throughput p,
               ff_fragments = replicate (unat (pk_fragments_in_this_frame p)) empty_packet,
               ff_remaining_fragments = ucast (pk_fragments_in_this_frame p)\<rparr>"
  have wf: "ff_wf ?f"
    by (simp add: ff_wf_def unat_ucast_up)
  show ?thesis
    using sanity_check_cases [of ?f p] add_packet_wf [OF wf assms]
    by (auto simp: incoming_frame_def Let_def)
qed


section \<open>Properties\<close>

text \<open>C11: A frame survives fragmentation and the network.  A frame of 1 to 65535 fragments
  is cut into packets and sent; whatever subsequence of the datagrams arrives, in whatever
  order and with whatever duplicates, parsing and reassembling it succeeds, the reassembly
  is complete exactly when every fragment number has arrived, it then yields the frame, and
  the partial frame is always the part of the frame before the first missing fragment.\<close>

theorem fragmentation_reassembly:
  assumes "w \<noteq> []" and "fragment_count w < 2 ^ 16"
    and "js \<noteq> []" and "set js \<subseteq> {..<fragment_count w}"
  shows "\<exists>f ss ps g. outgoing_frame c s t n since fp rtt thr clock w = Some (Inr f) \<and>
    ff_send f = Inr ss \<and> length ss = fragment_count w \<and>
    parse_all (map ((!) ss) js) = Inr ps \<and> reassemble c ps = Inr g \<and>
    ff_complete g = (set js = {..<fragment_count w}) \<and>
    (ff_complete g \<longrightarrow> ff_frame g = Inr w) \<and>
    (\<forall>k\<le>fragment_count w. {..<k} \<subseteq> set js \<and> k \<notin> set js \<longrightarrow>
       ff_partial_frame g = take (MAXIMUM_PAYLOAD * k) w)"
proof -
  let ?ps = "sent_fragments w c s t n since clock fp rtt thr"
  let ?ss = "map (\<lambda>p. packet_header p @ pk_payload p) ?ps"
  note frame = sent_fragments_frame [OF assms(1,2)]
  note wire = sent_packets_ok [OF assms(1,2)]
  obtain f where f: "outgoing_frame c s t n since fp rtt thr clock w = Some (Inr f)"
    "ff_fragments f = ?ps" "ff_complete f" "unat (ff_fragments_in_this_frame f) = fragment_count w"
    using outgoing_frame_ok [OF assms(1,2)] assms(2) by (simp add: ff_complete_def unat_of_nat_lt)
  have send: "ff_send f = Inr ?ss"
    using wire by (simp add: ff_send_def f packet_strings_ok)
  have parse: "parse_all (map ((!) ?ss) js) = Inr (map ((!) ?ps) js)"
    using parse_all_wire [OF wire] assms(4) by simp
  have re: "reassemble c (map ((!) ?ps) js) = Inr (partial_view ?ps (set js))"
    using reassemble_view [OF frame(1) assms(3)] assms(4) frame(2) by simp
  have comp: "ff_complete (partial_view ?ps (set js)) \<longleftrightarrow> set js = {..<fragment_count w}"
    using partial_view_complete [OF frame(1)] assms(4) by simp
  have "ff_frame (partial_view ?ps (set js)) = Inr w" if "ff_complete (partial_view ?ps (set js))"
    using that comp payloads_sent_fragments partial_view_full [of ?ps]
    by (simp add: ff_frame_def) (simp add: partial_view_def)
  moreover have "ff_partial_frame (partial_view ?ps (set js)) = take (MAXIMUM_PAYLOAD * k) w"
    if "k \<le> fragment_count w" "{..<k} \<subseteq> set js" "k \<notin> set js" for k
  proof -
    have "concat (map pk_payload (take k ?ps)) = take (MAXIMUM_PAYLOAD * k) w"
      using that(1) concat_fragments [of MAXIMUM_PAYLOAD w k]
      by (simp add: sent_fragments_def fragment_def take_map take_upt comp_def)
    then show ?thesis
      using partial_view_prefix [OF frame(1) _ that(2,3)] that(1) by simp
  qed
  ultimately show ?thesis
    using f(1) send parse re comp
    by (intro exI [of _ f] exI [of _ ?ss] exI [of _ "map ((!) ?ps) js"]
        exI [of _ "partial_view ?ps (set js)"]) simp
qed

theorem fragmentation_reassembly_witness:
  "\<exists>f ss ps g. outgoing_frame 1 2 3 4 5 6 7 8 (\<lambda>_. 9) (replicate 2000 255) = Some (Inr f) \<and>
    ff_send f = Inr ss \<and> length ss = 2 \<and>
    parse_all (map ((!) ss) [1, 0, 1]) = Inr ps \<and> reassemble 1 ps = Inr g \<and>
    ff_frame g = Inr (replicate 2000 255)"
proof -
  have count: "fragment_count (replicate 2000 255) = 2"
    by (simp add: fragment_count_def MAXIMUM_PAYLOAD_def)
  have "set [1, 0, 1 :: nat] = {..<2}" by auto
  then show ?thesis
    using fragmentation_reassembly [of "replicate 2000 255" "[1, 0, 1]" 1 2 3 4 5 6 7 8 "\<lambda>_. 9"]
    unfolding count by auto
qed

text \<open>Parsing a datagram accepts exactly what the serialiser produces.  Every byte
  string is either shorter than a header and refused with \<open>out_of_range\<close>, or refused with
  \<open>runtime_error\<close>, or parsed into a packet with a payload and a fragment number below its
  fragment count, and then serialising the packet gives the same bytes again.\<close>

theorem packet_parse_classified:
  assumes "chunk_ok c"
  shows "(case parse_packet c of
      Inl e \<Rightarrow> (e = Out_of_range \<and> length (contents c) < 34) \<or>
        (e = Runtime_error \<and> 34 \<le> length (contents c))
    | Inr p \<Rightarrow> packet_ok p \<and> packet_to_string p = Inr (contents c))"
  using parse_packet_cases [OF assms] by auto

theorem packet_parse_classified_witness:
  "(case parse_packet (chunk_of (replicate 34 0)) of
      Inl e \<Rightarrow> (e = Out_of_range \<and> length (contents (chunk_of (replicate 34 0))) < 34) \<or>
        (e = Runtime_error \<and> 34 \<le> length (contents (chunk_of (replicate 34 0))))
    | Inr p \<Rightarrow> packet_ok p \<and> packet_to_string p = Inr (contents (chunk_of (replicate 34 0))))"
  by (rule packet_parse_classified) simp

text \<open>A packet survives the wire: every packet with a payload, a fragment number below
  its fragment count and any header values is serialised, and parsing the bytes yields the
  packet.\<close>

theorem packet_wire_roundtrip:
  assumes "packet_ok p" and "length (pk_payload p) < 2 ^ 63"
  shows "\<exists>s. packet_to_string p = Inr s \<and> parse_packet (chunk_of s) = Inr p"
  using parse_wire [OF assms] packet_to_string_ok [OF assms(1)] by simp

theorem packet_wire_roundtrip_witness:
  "\<exists>s. packet_to_string (empty_packet\<lparr>pk_valid := True, pk_fragments_in_this_frame := 1,
      pk_payload := [1, 2]\<rparr>) = Inr s \<and>
    parse_packet (chunk_of s) = Inr (empty_packet\<lparr>pk_valid := True,
      pk_fragments_in_this_frame := 1, pk_payload := [1, 2]\<rparr>)"
  by (rule packet_wire_roundtrip) (simp_all add: packet_ok_def empty_packet_def)

text \<open>An acknowledgement survives the wire, with its list of complete states whatever
  its length.\<close>

theorem ack_wire_roundtrip:
  assumes "length (ak_complete_states a) < 2 ^ 32"
  shows "parse_ack (chunk_of (ack_to_string a)) = Inr a"
  using ack_roundtrip [OF assms] .

theorem ack_wire_roundtrip_witness:
  "parse_ack (chunk_of (ack_to_string
     \<lparr>ak_connection_id = 1, ak_frame_no = 2, ak_fragment_no = 3, ak_avg_delay = 4,
      ak_current_state = 5, ak_packet_send_timestamp = 6, ak_ack_delay = 7,
      ak_frame_one_way_delay = 8, ak_frame_finish_state = 9, ak_complete_states = [10, 11]\<rparr>)) =
   Inr \<lparr>ak_connection_id = 1, ak_frame_no = 2, ak_fragment_no = 3, ak_avg_delay = 4,
      ak_current_state = 5, ak_packet_send_timestamp = 6, ak_ack_delay = 7,
      ak_frame_one_way_delay = 8, ak_frame_finish_state = 9, ak_complete_states = [10, 11]\<rparr>"
  by (rule ack_wire_roundtrip) simp

text \<open>Reassembly is safe against arbitrary packets.  Building a reassembly from a parsed
  packet and adding any further parsed packet either succeeds or throws \<open>runtime_error\<close>; the
  unchecked vector index is never out of range, and the counter of missing fragments always
  agrees with the vector.\<close>

theorem reassembly_safe:
  assumes "packet_ok p" and "packet_ok q"
  shows "case incoming_frame c p of
      Inl e \<Rightarrow> e = Runtime_error
    | Inr f \<Rightarrow> ff_wf f \<and> (\<forall>f'. ff_wf f' \<longrightarrow>
        (case add_packet q f' of Inl e \<Rightarrow> e = Runtime_error | Inr g \<Rightarrow> ff_wf g))"
proof -
  have "pk_valid p" "pk_valid q" using assms by (simp_all add: packet_ok_def)
  have "case add_packet q f' of Inl e \<Rightarrow> e = Runtime_error | Inr g \<Rightarrow> ff_wf g" if "ff_wf f'" for f'
    using add_packet_wf [OF that \<open>pk_valid q\<close>] by auto
  then show ?thesis
    using incoming_frame_wf [OF \<open>pk_valid p\<close>, of c] by auto
qed

theorem reassembly_safe_witness:
  "case incoming_frame 0 (empty_packet\<lparr>pk_valid := True, pk_fragments_in_this_frame := 2, pk_payload := [1]\<rparr>) of
      Inl e \<Rightarrow> e = Runtime_error
    | Inr f \<Rightarrow> ff_wf f \<and> (\<forall>f'. ff_wf f' \<longrightarrow>
        (case add_packet (empty_packet\<lparr>pk_valid := True, pk_fragments_in_this_frame := 1, pk_payload := [1]\<rparr>) f' of
           Inl e \<Rightarrow> e = Runtime_error | Inr g \<Rightarrow> ff_wf g))"
  by (rule reassembly_safe) (simp_all add: packet_ok_def empty_packet_def)

text \<open>The outgoing constructor is not defined for an empty frame: it takes the front of
  an empty vector.\<close>

theorem outgoing_empty_frame:
  "outgoing_frame c s t n since fp rtt thr clock [] = Some (Inl Undefined)"
  unfolding outgoing_frame_def by (subst fragment_loop.simps) (simp add: finish_outgoing_def)

end
