(* ===== verification/Net_Pacer.thy ===== *)
theory Net_Pacer
  imports Prelude
begin

text \<open>
  The pacer of outgoing packets, src/src/net/pacer.hh: a queue of serialised packets with
  the times at which they may leave.  Times are nanoseconds of the system clock, passed in
  as the reading the code takes.  The locale \<open>fifo\<close> is the queue contract that the sender
  relies on; the pacer is an instance of it.
\<close>

section \<open>The pacer\<close>

record scheduled_packet =
  sp_when :: int
  sp_what :: bytes

type_synonym pacer = "scheduled_packet list"

text \<open>\<open>duration_cast\<close> truncates towards zero, and the count is narrowed to an \<open>int\<close>.\<close>

definition truncate_millis :: "int \<Rightarrow> int" where
  "truncate_millis ns = (if 0 \<le> ns then ns div 1000000 else - ((- ns) div 1000000))"

definition narrow_int :: "int \<Rightarrow> int" where
  "narrow_int x = sint (word_of_int x :: u32)"

definition ms_until_due :: "int \<Rightarrow> pacer \<Rightarrow> int" where
  "ms_until_due now q =
     (case q of
        [] \<Rightarrow> 1000
      | p # _ \<Rightarrow>
          (let millis = narrow_int (truncate_millis (sp_when p - now)) in
           if millis < 0 then 0 else millis))"

definition pacer_empty :: "pacer \<Rightarrow> bool" where
  "pacer_empty q \<longleftrightarrow> q = []"

definition pacer_push :: "int \<Rightarrow> bytes \<Rightarrow> int \<Rightarrow> pacer \<Rightarrow> pacer" where
  "pacer_push now payload delay_microseconds q =
     (if pacer_empty q then q @ [\<lparr>sp_when = now, sp_what = payload\<rparr>]
      else q @ [\<lparr>sp_when = sp_when (last q) + 1000 * delay_microseconds, sp_what = payload\<rparr>])"

definition pacer_front :: "pacer \<Rightarrow> bytes result" where
  "pacer_front q = (case q of [] \<Rightarrow> Inl Undefined | p # _ \<Rightarrow> Inr (sp_what p))"

definition pacer_pop :: "pacer \<Rightarrow> pacer result" where
  "pacer_pop q = (case q of [] \<Rightarrow> Inl Undefined | _ # ps \<Rightarrow> Inr ps)"

definition pacer_size :: "pacer \<Rightarrow> nat" where
  "pacer_size q = length q"


section \<open>First in, first out\<close>

locale fifo =
  fixes items :: "'q \<Rightarrow> 'a list"
    and enq :: "'c \<Rightarrow> 'a \<Rightarrow> 'q \<Rightarrow> 'q"
    and front :: "'q \<Rightarrow> 'a result"
    and pop :: "'q \<Rightarrow> 'q result"
    and is_empty :: "'q \<Rightarrow> bool"
  assumes items_enq: "items (enq c x q) = items q @ [x]"
    and front_items: "front q = (case items q of [] \<Rightarrow> Inl Undefined | x # _ \<Rightarrow> Inr x)"
    and pop_items: "(case pop q of Inl e \<Rightarrow> e = Undefined \<and> items q = [] | Inr q' \<Rightarrow> \<exists>x. items q = x # items q')"
    and is_empty_items: "is_empty q \<longleftrightarrow> items q = []"
begin

primrec enq_all :: "('c \<times> 'a) list \<Rightarrow> 'q \<Rightarrow> 'q" where
  "enq_all [] q = q"
| "enq_all (cx # cxs) q = enq_all cxs (enq (fst cx) (snd cx) q)"

primrec drain :: "nat \<Rightarrow> 'q \<Rightarrow> ('a list \<times> 'q) result" where
  "drain 0 q = Inr ([], q)"
| "drain (Suc n) q =
     bind_result (front q) (\<lambda>x. bind_result (pop q) (\<lambda>q'.
     bind_result (drain n q') (\<lambda>(xs, q''). Inr (x # xs, q''))))"

lemma items_enq_all: "items (enq_all cxs q) = items q @ map snd cxs"
  by (induction cxs arbitrary: q) (simp_all add: items_enq)

lemma drain_items:
  "n \<le> length (items q) \<Longrightarrow>
   \<exists>q'. drain n q = Inr (take n (items q), q') \<and> items q' = drop n (items q)"
proof (induction n arbitrary: q)
  case (Suc n)
  then obtain x xs where q: "items q = x # xs" by (cases "items q") auto
  then obtain q' where q': "pop q = Inr q'" "items q' = xs"
    using pop_items [of q] by (auto split: sum.splits)
  with Suc.IH [of q'] Suc.prems q show ?case
    by (auto simp: front_items [of q])
qed simp

lemma drain_all:
  "\<exists>q'. drain (length (items q) + length cxs) (enq_all cxs q) = Inr (items q @ map snd cxs, q') \<and> is_empty q'"
  using drain_items [of "length (items q) + length cxs" "enq_all cxs q"]
  by (simp add: items_enq_all is_empty_items)

end

interpretation pacer: fifo "map sp_what" "\<lambda>(now, delay) payload. pacer_push now payload delay"
  pacer_front pacer_pop pacer_empty
  by unfold_locales
    (auto simp: pacer_push_def pacer_front_def pacer_pop_def pacer_empty_def split: list.splits)

text \<open>The queue as the sender uses it: push a list of payloads, take everything out again.\<close>

primrec push_all :: "(int \<times> int \<times> bytes) list \<Rightarrow> pacer \<Rightarrow> pacer" where
  "push_all [] q = q"
| "push_all (p # ps) q = push_all ps (pacer_push (fst p) (snd (snd p)) (fst (snd p)) q)"

primrec pop_all :: "nat \<Rightarrow> pacer \<Rightarrow> (bytes list \<times> pacer) result" where
  "pop_all 0 q = Inr ([], q)"
| "pop_all (Suc n) q =
     bind_result (pacer_front q) (\<lambda>x. bind_result (pacer_pop q) (\<lambda>q'.
     bind_result (pop_all n q') (\<lambda>(xs, q''). Inr (x # xs, q''))))"

lemma push_all_fifo: "push_all ps q = pacer.enq_all (map (\<lambda>(now, delay, x). ((now, delay), x)) ps) q"
  by (induction ps arbitrary: q) (simp_all split: prod.splits)

lemma pop_all_fifo: "pop_all n q = pacer.drain n q"
  by (induction n arbitrary: q) (simp_all del: split_paired_All)


section \<open>The schedule\<close>

definition schedule :: "pacer \<Rightarrow> int list" where
  "schedule q = map sp_when q"

definition spaced :: "int \<Rightarrow> pacer \<Rightarrow> bool" where
  "spaced delay q \<longleftrightarrow> (\<forall>i. Suc i < length q \<longrightarrow> sp_when (q ! Suc i) = sp_when (q ! i) + 1000 * delay)"

lemma pacer_push_spaced:
  assumes "spaced delay q"
  shows "spaced delay (pacer_push now payload delay q)"
  unfolding spaced_def
proof (intro allI impI)
  fix i
  assume i: "Suc i < length (pacer_push now payload delay q)"
  show "sp_when (pacer_push now payload delay q ! Suc i) =
      sp_when (pacer_push now payload delay q ! i) + 1000 * delay"
  proof (cases "Suc i < length q")
    case True
    then show ?thesis
      using assms by (auto simp: spaced_def pacer_push_def pacer_empty_def nth_append)
  next
    case False
    then have "q \<noteq> []" "Suc i = length q"
      using i by (auto simp: pacer_push_def pacer_empty_def split: if_splits)
    moreover from this(2) have "length q - Suc 0 = i" by linarith
    ultimately show ?thesis
      by (simp add: pacer_push_def pacer_empty_def nth_append last_conv_nth)
  qed
qed

lemma sorted_schedule:
  assumes "sorted (schedule q)" and "0 \<le> delay"
  shows "sorted (schedule (pacer_push now payload delay q))"
  using assms by (cases q rule: rev_cases)
    (auto simp: schedule_def pacer_push_def pacer_empty_def sorted_append)

lemma narrow_int_small: "- (2 ^ 31) \<le> x \<Longrightarrow> x < 2 ^ 31 \<Longrightarrow> narrow_int x = x"
  by (simp add: narrow_int_def signed_of_int signed_take_bit_int_eq_self)


section \<open>Properties\<close>

text \<open>The pacer neither loses nor reorders packets: whatever is in the queue and
  whatever is pushed with whatever delays, taking out as many packets as there are returns
  the old ones and then the pushed ones in order, and leaves the queue empty.\<close>

theorem pacer_fifo:
  "\<exists>q'. pop_all (pacer_size q + length ps) (push_all ps q) =
     Inr (map sp_what q @ map (snd \<circ> snd) ps, q') \<and> pacer_empty q'"
  using pacer.drain_all [of q "map (\<lambda>(now, delay, x). ((now, delay), x)) ps"]
  by (simp add: push_all_fifo pop_all_fifo pacer_size_def comp_def case_prod_unfold)

text \<open>The packets of a burst leave at a fixed distance: pushing onto a queue whose
  packets are one delay apart keeps them so, and with delays that are not negative the
  schedule stays sorted.\<close>

theorem pacer_spacing:
  assumes "spaced delay q" and "sorted (schedule q)" and "0 \<le> delay"
  shows "spaced delay (pacer_push now payload delay q) \<and>
    sorted (schedule (pacer_push now payload delay q))"
  using pacer_push_spaced [OF assms(1)] sorted_schedule [OF assms(2,3)] by simp

theorem pacer_spacing_witness:
  "spaced 500 (pacer_push 7 [1] 500 [\<lparr>sp_when = 0, sp_what = []\<rparr>]) \<and>
   sorted (schedule (pacer_push 7 [1] 500 [\<lparr>sp_when = 0, sp_what = []\<rparr>]))"
  by (rule pacer_spacing) (simp_all add: spaced_def schedule_def)

text \<open>A packet is due exactly when its time is less than a millisecond away: for times
  within 24 days of now, \<open>ms_until_due\<close> is 0 if and only if there is a packet and its time
  has come up to a millisecond, and it is never negative.\<close>

theorem pacer_due:
  assumes "\<forall>p\<in>set q. \<bar>sp_when p - now\<bar> < 2 ^ 31 * 1000000"
  shows "0 \<le> ms_until_due now q \<and>
    (ms_until_due now q = 0 \<longleftrightarrow> (\<exists>p ps. q = p # ps \<and> sp_when p - now < 1000000))"
proof (cases q)
  case (Cons p ps)
  let ?d = "sp_when p - now"
  have d: "\<bar>?d\<bar> < 2 ^ 31 * 1000000" using assms Cons by simp
  then have "- (2 ^ 31) \<le> truncate_millis ?d" "truncate_millis ?d < 2 ^ 31"
    unfolding truncate_millis_def by (auto simp: abs_less_iff)
  then have "narrow_int (truncate_millis ?d) = truncate_millis ?d"
    by (rule narrow_int_small)
  moreover have "truncate_millis ?d \<le> 0 \<longleftrightarrow> ?d < 1000000"
    unfolding truncate_millis_def by auto
  ultimately show ?thesis
    using Cons by (auto simp: ms_until_due_def Let_def)
qed (simp add: ms_until_due_def)

theorem pacer_due_witness:
  "0 \<le> ms_until_due 5 [\<lparr>sp_when = 1000004, sp_what = [1]\<rparr>] \<and>
   (ms_until_due 5 [\<lparr>sp_when = 1000004, sp_what = [1]\<rparr>] = 0 \<longleftrightarrow>
    (\<exists>p ps. [\<lparr>sp_when = 1000004, sp_what = [1]\<rparr>] = p # ps \<and> sp_when p - 5 < 1000000))"
  by (rule pacer_due) simp

end
