(* ===== verification/Sender.thy ===== *)
theory Sender
  imports Net_Packet Net_Pacer
begin

text \<open>
  The event handlers of the sender, src/src/salsify/salsify-sender.cc: a frame has arrived
  from the camera, the encoding jobs are done, an acknowledgement has arrived, and a packet
  is due to leave the pacer.  The video encoder enters through what the handlers call:
  \<open>minihash\<close> names the state of an encoder and the two \<open>encode\<close> functions run it; all are
  arguments and the theorems hold for every encoder.  So are the clock readings (\<open>cc_due\<close> says that the quantizer of the conventional mode is due
  for an update), the numbers computed in floating point (that quantizer, the period and the
  averages of the congestion control) and, for the rate control \<open>monax\<close>, its period.  An
  \<open>Inl\<close> is an exception, a failed assertion or undefined behaviour, which ends the sender.
\<close>

section \<open>Helpers\<close>

datatype operation_mode = S1 | S2 | Conventional

datatype rate_control = Origin | Monax

datatype encoder_mode = MINIMUM_SSIM | CONSTANT_QUANTIZER | TARGET_FRAME_SIZE | REENCODE

text \<open>The product with 1400 is one of 64-bit signed integers.\<close>

definition target_size :: "u32 \<Rightarrow> u64 \<Rightarrow> u64 \<Rightarrow> u32 \<Rightarrow> u64 result" where
  "target_size avg_delay last_acked last_sent max_delay =
     (let avg_delay = (if avg_delay = 0 then 1 else avg_delay);
          room = max 0 (sint (ucast (max_delay div avg_delay) - (last_sent - last_acked) :: u64)) in
      bind_result (check (1400 * room < 2 ^ 63) Undefined) (\<lambda>_. Inr (word_of_int (1400 * room))))"

definition ack_seq_no :: "ack_packet \<Rightarrow> u64 list \<Rightarrow> u64 result" where
  "ack_seq_no ack cumulative_fpf =
     (if ak_frame_no ack > 0 then
        (case at cumulative_fpf (unat (ak_frame_no ack - 1)) of
           None \<Rightarrow> Inl Undefined
         | Some x \<Rightarrow> Inr (x + ucast (ak_fragment_no ack)))
      else Inr (ucast (ak_fragment_no ack)))"

definition increment_quantizer :: "u16 \<Rightarrow> int \<Rightarrow> u8" where
  "increment_quantizer q inc = word_of_int (min 127 (max 3 (uint q + inc)))"


section \<open>State\<close>

record ('r, 'e) encode_job =
  ej_name :: string
  ej_raster :: 'r
  ej_encoder :: 'e
  ej_mode :: encoder_mode
  ej_y_ac_qi :: u8
  ej_target_size :: nat

record 'e encode_output =
  eo_encoder :: 'e
  eo_frame :: bytes
  eo_source_minihash :: u32
  eo_job_name :: string
  eo_y_ac_qi :: u8

record ('r, 'e) sender =
  sd_pacer :: pacer
  sd_avg_delay :: u32
  sd_cumulative_fpf :: "u64 list"
  sd_last_acked :: u64
  sd_skipped_count :: nat
  sd_frame_no :: u32
  sd_last_raster :: "'r option"
  sd_encode_jobs :: "('r, 'e) encode_job list"
  sd_last_quantizer :: u8
  sd_encoder_states :: "u32 list"
  sd_encoders :: "u32 \<Rightarrow> 'e option"
  sd_receiver_last_acked_state :: "u32 option"
  sd_receiver_assumed_state :: "u32 option"
  sd_receiver_complete_states :: "u32 list"
  sd_conservative_until :: int
  sd_inter_send_delay :: u32

definition MAX_SKIPPED :: nat where "MAX_SKIPPED = 3"

definition conservative_for :: int where "conservative_for = 5000000000"

definition sender_init :: "('e \<Rightarrow> u32) \<Rightarrow> int \<Rightarrow> 'e \<Rightarrow> ('r, 'e) sender" where
  "sender_init minihash now base_encoder =
     \<lparr>sd_pacer = [], sd_avg_delay = -1, sd_cumulative_fpf = [], sd_last_acked = -1,
      sd_skipped_count = 0, sd_frame_no = 0, sd_last_raster = None, sd_encode_jobs = [],
      sd_last_quantizer = 64, sd_encoder_states = [],
      sd_encoders = [minihash base_encoder \<mapsto> base_encoder],
      sd_receiver_last_acked_state = None, sd_receiver_assumed_state = None,
      sd_receiver_complete_states = [], sd_conservative_until = now, sd_inter_send_delay = 500\<rparr>"


section \<open>A frame from the camera\<close>

definition opt_get :: "'a option \<Rightarrow> 'a result" where
  "opt_get x = (case x of None \<Rightarrow> Inl Assert_failed | Some y \<Rightarrow> Inr y)"

text \<open>The loop over \<open>encoder_states\<close>; the result is what is left of the list and of the
  stored encoders.\<close>

primrec cleanup_loop ::
  "u32 \<Rightarrow> u32 option \<Rightarrow> u32 list \<Rightarrow> (u32 \<Rightarrow> 'e option) \<Rightarrow> (u32 list \<times> (u32 \<Rightarrow> 'e option)) result" where
  "cleanup_loop acked assumed [] encoders = Inr ([], encoders)"
| "cleanup_loop acked assumed (s # ss) encoders =
     (if s \<noteq> acked then
        bind_result (opt_get assumed) (\<lambda>a.
        if s \<noteq> a then
          cleanup_loop acked assumed ss (if s \<in> set ss then encoders else encoders(s := None))
        else Inr (s # ss, encoders))
      else Inr (s # ss, encoders))"

definition cleanup_encoders :: "u32 \<Rightarrow> ('r, 'e) sender \<Rightarrow> ('r, 'e) sender result" where
  "cleanup_encoders initial_state st =
     (case sd_receiver_last_acked_state st of
        Some acked \<Rightarrow>
          if acked \<noteq> initial_state \<and> sd_encoders st acked \<noteq> None then
            bind_result (cleanup_loop acked (sd_receiver_assumed_state st) (sd_encoder_states st)
                           (sd_encoders st)) (\<lambda>(states, encoders).
            Inr (st\<lparr>sd_encoder_states := states, sd_encoders := encoders\<rparr>))
          else Inr st
      | None \<Rightarrow> Inr st)"

definition known_state :: "u32 \<Rightarrow> ('r, 'e) sender \<Rightarrow> u32" where
  "known_state initial_state st =
     (if sd_receiver_complete_states st = [] then initial_state
      else last (sd_receiver_complete_states st))"

text \<open>The state to encode from; \<open>now\<close> and \<open>now'\<close> are two readings of the clock.\<close>

definition select_source ::
  "u32 \<Rightarrow> int \<Rightarrow> int \<Rightarrow> ('r, 'e) sender \<Rightarrow> (u32 \<times> ('r, 'e) sender) result" where
  "select_source initial_state now now' st =
     (if now < sd_conservative_until st then Inr (known_state initial_state st, st)
      else
        (case sd_receiver_last_acked_state st of
           None \<Rightarrow>
             (case sd_receiver_assumed_state st of
                None \<Rightarrow> Inr (initial_state, st)
              | Some s \<Rightarrow> Inr (s, st))
         | Some acked \<Rightarrow>
             if sd_encoders st acked = None then
               Inr (known_state initial_state st,
                    st\<lparr>sd_conservative_until := now' + conservative_for\<rparr>)
             else bind_result (opt_get (sd_receiver_assumed_state st)) (\<lambda>s. Inr (s, st))))"

definition encoding_jobs :: "operation_mode \<Rightarrow> u8 \<Rightarrow> u8 \<Rightarrow> 'r \<Rightarrow> 'e \<Rightarrow> ('r, 'e) encode_job list" where
  "encoding_jobs mode cc_quantizer last_quantizer raster encoder =
     (let job = (\<lambda>name q. \<lparr>ej_name = name, ej_raster = raster, ej_encoder = encoder,
                   ej_mode = CONSTANT_QUANTIZER, ej_y_ac_qi = q, ej_target_size = 0\<rparr>) in
      if mode = Conventional then [job ''frame'' cc_quantizer]
      else [job ''improve'' (increment_quantizer (ucast last_quantizer) (- 17)),
            job ''fail-small'' (increment_quantizer (ucast last_quantizer) 23)])"

text \<open>In the conventional mode, \<open>cc_due\<close> tells whether it is time to update the quantizer, for which an
  integer is divided by the average delay; \<open>cc_quantizer\<close> is the quantizer after that.\<close>

datatype outcome = Continue | Exit_failure

definition frame_handler ::
  "u32 \<Rightarrow> operation_mode \<Rightarrow> int \<Rightarrow> int \<Rightarrow> bool \<Rightarrow> u8 \<Rightarrow> 'r option \<Rightarrow> ('r, 'e) sender \<Rightarrow>
   (outcome \<times> ('r, 'e) sender) result" where
  "frame_handler initial_state mode now now' cc_due cc_quantizer next_frame st =
     (let st = st\<lparr>sd_last_raster := next_frame\<rparr> in
      case next_frame of
        None \<Rightarrow> Inr (Exit_failure, st)
      | Some raster \<Rightarrow>
          if sd_encode_jobs st \<noteq> [] then Inr (Continue, st)
          else
            bind_result (cleanup_encoders initial_state st) (\<lambda>st.
            bind_result (select_source initial_state now now' st) (\<lambda>(selected, st).
            (case sd_encoders st selected of
               None \<Rightarrow> Inl Out_of_range
             | Some encoder \<Rightarrow>
                 bind_result (check (\<not> (mode = Conventional \<and> cc_due \<and> sd_avg_delay st = 0)) Undefined) (\<lambda>_.
                 Inr (Continue, st\<lparr>sd_encode_jobs :=
                   encoding_jobs mode cc_quantizer (sd_last_quantizer st) raster encoder\<rparr>))))))"


section \<open>Encoding\<close>

definition do_encode_job ::
  "('e \<Rightarrow> u32) \<Rightarrow> ('r \<Rightarrow> u8 \<Rightarrow> 'e \<Rightarrow> (bytes \<times> 'e) result) \<Rightarrow> ('r \<Rightarrow> nat \<Rightarrow> 'e \<Rightarrow> (bytes \<times> 'e) result) \<Rightarrow>
   ('r, 'e) encode_job \<Rightarrow> 'e encode_output result" where
  "do_encode_job minihash encode_with_quantizer encode_with_target_size job =
     (let source = minihash (ej_encoder job);
          output = (\<lambda>(frame, encoder) q.
            \<lparr>eo_encoder = encoder, eo_frame = frame, eo_source_minihash = source,
             eo_job_name = ej_name job, eo_y_ac_qi = q\<rparr>) in
      case ej_mode job of
        CONSTANT_QUANTIZER \<Rightarrow>
          bind_result (encode_with_quantizer (ej_raster job) (ej_y_ac_qi job) (ej_encoder job))
            (\<lambda>r. Inr (output r (ej_y_ac_qi job)))
      | TARGET_FRAME_SIZE \<Rightarrow>
          bind_result (encode_with_target_size (ej_raster job) (ej_target_size job) (ej_encoder job))
            (\<lambda>r. Inr (output r 0))
      | _ \<Rightarrow> Inl Runtime_error)"

text \<open>The futures' \<open>get\<close>, in order; the first stored exception is thrown.\<close>

primrec collect_outputs :: "'e encode_output result list \<Rightarrow> 'e encode_output list result" where
  "collect_outputs [] = Inr []"
| "collect_outputs (r # rs) =
     bind_result r (\<lambda>x. bind_result (collect_outputs rs) (\<lambda>xs. Inr (x # xs)))"


section \<open>The encoding jobs are done\<close>

definition SIZE_MAX :: nat where "SIZE_MAX = 2 ^ 64 - 1"

primrec best_loop :: "nat \<Rightarrow> nat list \<Rightarrow> nat \<Rightarrow> nat \<times> nat \<Rightarrow> nat \<times> nat" where
  "best_loop frame_size [] i best = best"
| "best_loop frame_size (n # ns) i best =
     best_loop frame_size ns (i + 1)
       (if n \<le> frame_size \<and> frame_size - n < snd best then (i, frame_size - n) else best)"

definition best_output :: "nat \<Rightarrow> nat list \<Rightarrow> nat" where
  "best_output frame_size sizes = fst (best_loop frame_size sizes 0 (SIZE_MAX, SIZE_MAX))"

text \<open>The index of the output to send, or that the frame is skipped.  The first two outputs
  are named in a message, so there have to be two.\<close>

definition choose_output :: "operation_mode \<Rightarrow> nat \<Rightarrow> nat \<Rightarrow> 'e encode_output list \<Rightarrow> nat option result" where
  "choose_output mode frame_size skipped_count outputs =
     (if mode = Conventional then Inr (Some 0)
      else
        (let best = best_output frame_size (map (length \<circ> eo_frame) outputs) in
         bind_result (check (2 \<le> length outputs) Undefined) (\<lambda>_.
         if best = SIZE_MAX then
           if skipped_count < MAX_SKIPPED \<or> eo_job_name (last outputs) \<noteq> ''fail-small'' then Inr None
           else Inr (Some (length outputs - 1))
         else Inr (Some best))))"

definition network_capacity :: "('r, 'e) sender \<Rightarrow> nat result" where
  "network_capacity st =
     (if sd_avg_delay st \<noteq> -1 then
        (case sd_cumulative_fpf st of
           [] \<Rightarrow> Inl Undefined
         | _ \<Rightarrow> bind_result (target_size (sd_avg_delay st) (sd_last_acked st)
                   (last (sd_cumulative_fpf st)) 100000) (\<lambda>n. Inr (unat n)))
      else Inr SIZE_MAX)"

definition send_period :: "rate_control \<Rightarrow> u32 \<Rightarrow> u32 \<Rightarrow> u32" where
  "send_period control monax_period avg_delay =
     (case control of Monax \<Rightarrow> monax_period | Origin \<Rightarrow> min 2000 (max 500 (avg_delay div 5)))"

primrec push_packets :: "(nat \<Rightarrow> int) \<Rightarrow> int \<Rightarrow> nat \<Rightarrow> packet list \<Rightarrow> pacer \<Rightarrow> pacer result" where
  "push_packets clock delay k [] q = Inr q"
| "push_packets clock delay k (p # ps) q =
     bind_result (packet_to_string p) (\<lambda>s.
     push_packets clock delay (k + 1) ps (pacer_push (clock k) s delay q))"

definition record_fragments :: "fragmented_frame \<Rightarrow> ('r, 'e) sender \<Rightarrow> ('r, 'e) sender result" where
  "record_fragments ff st =
     bind_result (if sd_frame_no st > 0
        then (case at (sd_cumulative_fpf st) (unat (sd_frame_no st - 1)) of
                None \<Rightarrow> Inl Undefined
              | Some x \<Rightarrow> Inr (x + ucast (ff_fragments_in_this_frame ff)))
        else Inr (ucast (ff_fragments_in_this_frame ff))) (\<lambda>total.
     Inr (st\<lparr>sd_cumulative_fpf := sd_cumulative_fpf st @ [total]\<rparr>))"

text \<open>The inputs of a frame that is sent: the readings of the clock and the rounded averages.\<close>

record send_inputs =
  si_time_since_last :: u32
  si_push_timestamp :: u32
  si_packet_timestamps :: "nat \<Rightarrow> u32"
  si_pacer_clock :: "nat \<Rightarrow> int"
  si_rtt_average :: u16
  si_throughput :: u16
  si_monax_period :: u32

definition build_frame :: "u16 \<Rightarrow> u32 \<Rightarrow> send_inputs \<Rightarrow> u32 \<Rightarrow> 'e encode_output \<Rightarrow> fragmented_frame result option" where
  "build_frame connection_id target inp frame_no out =
     outgoing_frame connection_id (eo_source_minihash out) target frame_no (si_time_since_last inp)
       (si_push_timestamp inp) (si_rtt_average inp) (si_throughput inp) (si_packet_timestamps inp) (eo_frame out)"

definition after_build ::
  "('e \<Rightarrow> u32) \<Rightarrow> rate_control \<Rightarrow> send_inputs \<Rightarrow> 'e encode_output \<Rightarrow> fragmented_frame \<Rightarrow>
   ('r, 'e) sender \<Rightarrow> ('r, 'e) sender result" where
  "after_build minihash control inp out ff st =
     (let target = minihash (eo_encoder out);
          period = send_period control (si_monax_period inp) (sd_avg_delay st) in
      bind_result (ff_packets ff) (\<lambda>packets.
      bind_result (push_packets (si_pacer_clock inp) (narrow_int (uint period)) 0 packets (sd_pacer st)) (\<lambda>q.
      bind_result (record_fragments ff (st\<lparr>sd_last_quantizer := eo_y_ac_qi out,
          sd_inter_send_delay := period, sd_pacer := q\<rparr>)) (\<lambda>st.
      Inr (st\<lparr>sd_receiver_assumed_state := Some target,
              sd_encoders := (case sd_encoders st target of
                 Some _ \<Rightarrow> sd_encoders st | None \<Rightarrow> (sd_encoders st)(target \<mapsto> eo_encoder out)),
              sd_encoder_states := sd_encoder_states st @ [target],
              sd_skipped_count := 0, sd_frame_no := sd_frame_no st + 1\<rparr>)))))"

definition send_output ::
  "('e \<Rightarrow> u32) \<Rightarrow> u16 \<Rightarrow> rate_control \<Rightarrow> send_inputs \<Rightarrow> 'e encode_output \<Rightarrow> ('r, 'e) sender \<Rightarrow>
   ('r, 'e) sender result option" where
  "send_output minihash connection_id control inp out st =
     map_option (\<lambda>r. bind_result r (\<lambda>ff. after_build minihash control inp out ff st))
       (build_frame connection_id (minihash (eo_encoder out)) inp (sd_frame_no st) out)"

text \<open>\<open>encode_jobs\<close> is cleared on every way out of the handler.\<close>

definition encoded_handler ::
  "('e \<Rightarrow> u32) \<Rightarrow> u16 \<Rightarrow> operation_mode \<Rightarrow> rate_control \<Rightarrow> send_inputs \<Rightarrow> 'e encode_output result list \<Rightarrow>
   ('r, 'e) sender \<Rightarrow> ('r, 'e) sender result option" where
  "encoded_handler minihash connection_id mode control inp outputs st =
     (let st = st\<lparr>sd_encode_jobs := []\<rparr> in
      if outputs = [] then Some (Inr st)
      else
        (case bind_result (network_capacity st) (\<lambda>frame_size.
              bind_result (collect_outputs outputs) (\<lambda>good.
              bind_result (choose_output mode frame_size (sd_skipped_count st) good) (\<lambda>choice.
              Inr (good, choice)))) of
           Inl e \<Rightarrow> Some (Inl e)
         | Inr (good, None) \<Rightarrow> Some (Inr (st\<lparr>sd_skipped_count := sd_skipped_count st + 1\<rparr>))
         | Inr (good, Some i) \<Rightarrow> send_output minihash connection_id control inp (good ! i) st))"


section \<open>An acknowledgement\<close>

definition ack_handler :: "u16 \<Rightarrow> ack_packet \<Rightarrow> ('r, 'e) sender \<Rightarrow> ('r, 'e) sender result" where
  "ack_handler connection_id ack st =
     (if ak_connection_id ack \<noteq> connection_id then Inr st
      else
        bind_result (ack_seq_no ack (sd_cumulative_fpf st)) (\<lambda>this_ack_seq.
        if sd_last_acked st \<noteq> -1 \<and> this_ack_seq < sd_last_acked st then Inr st
        else Inr (st\<lparr>sd_last_acked := this_ack_seq, sd_avg_delay := ak_avg_delay ack,
                     sd_receiver_last_acked_state := Some (ak_current_state ack),
                     sd_receiver_complete_states := ak_complete_states ack\<rparr>)))"

definition ack_datagram_handler :: "u16 \<Rightarrow> bytes \<Rightarrow> ('r, 'e) sender \<Rightarrow> ('r, 'e) sender result" where
  "ack_datagram_handler connection_id payload st =
     bind_result (parse_ack (chunk_of payload)) (\<lambda>ack. ack_handler connection_id ack st)"


section \<open>Packets leave the pacer\<close>

text \<open>\<open>std::string::replace( pos, n, str )\<close>.\<close>

definition string_replace :: "nat \<Rightarrow> nat \<Rightarrow> bytes \<Rightarrow> bytes \<Rightarrow> bytes result" where
  "string_replace pos n str s =
     (if length s < pos then Inl Out_of_range else Inr (take pos s @ str @ drop (pos + n) s))"

definition stamp_packet :: "u32 \<Rightarrow> bytes \<Rightarrow> bytes result" where
  "stamp_packet now_ms pkt =
     bind_result (string_replace 22 4 (put_header_field32 now_ms) pkt) (\<lambda>pkt.
     bind_result (field32 (chunk_of pkt) 10) (\<lambda>_. Inr pkt))"

text \<open>The datagrams handed to the socket; the \<open>k\<close>-th iteration reads the clock twice.\<close>

primrec flush_due :: "(nat \<Rightarrow> int) \<Rightarrow> (nat \<Rightarrow> u32) \<Rightarrow> pacer \<Rightarrow> nat \<Rightarrow> (bytes list \<times> pacer) result" where
  "flush_due now stamp [] k = Inr ([], [])"
| "flush_due now stamp (p # q) k =
     (if ms_until_due (now k) (p # q) = 0 then
        bind_result (stamp_packet (stamp k) (sp_what p)) (\<lambda>d.
        bind_result (flush_due now stamp q (k + 1)) (\<lambda>(ds, q). Inr (d # ds, q)))
      else Inr ([], p # q))"

definition out_handler ::
  "int \<Rightarrow> (nat \<Rightarrow> int) \<Rightarrow> (nat \<Rightarrow> u32) \<Rightarrow> ('r, 'e) sender \<Rightarrow> (bytes list \<times> ('r, 'e) sender) result" where
  "out_handler now0 now stamp st =
     bind_result (check (ms_until_due now0 (sd_pacer st) = 0) Assert_failed) (\<lambda>_.
     bind_result (flush_due now stamp (sd_pacer st) 0) (\<lambda>(ds, q). Inr (ds, st\<lparr>sd_pacer := q\<rparr>)))"


section \<open>The stored encoders\<close>

definition states_tracked :: "('r, 'e) sender \<Rightarrow> bool" where
  "states_tracked st \<longleftrightarrow>
     (\<forall>s\<in>set (sd_encoder_states st). sd_encoders st s \<noteq> None) \<and>
     sd_receiver_assumed_state st =
       (if sd_encoder_states st = [] then None else Some (last (sd_encoder_states st)))"

text \<open>The states are the hashes of the frames sent since the oldest one kept, and there is a
  count of fragments for every frame sent.\<close>

definition sender_ok :: "u32 \<Rightarrow> ('r, 'e) sender \<Rightarrow> bool" where
  "sender_ok initial_state st \<longleftrightarrow>
     states_tracked st \<and> (sd_encoder_states st = [] \<longrightarrow> sd_encoders st initial_state \<noteq> None) \<and>
     (sd_encoder_states st = [] \<longleftrightarrow> sd_frame_no st = 0) \<and>
     length (sd_cumulative_fpf st) = unat (sd_frame_no st)"

text \<open>The counts of fragments, sums of 16-bit numbers, and what an acknowledgement made of them are small.\<close>

definition counts_ok :: "('r, 'e) sender \<Rightarrow> bool" where
  "counts_ok st \<longleftrightarrow>
     (\<forall>k<length (sd_cumulative_fpf st). unat (sd_cumulative_fpf st ! k) \<le> 65535 * (k + 1)) \<and>
     (sd_avg_delay st = -1 \<or> unat (sd_last_acked st) < 2 ^ 49)"

lemma counts_ok_init [simp]: "counts_ok (sender_init minihash now e)"
  by (simp add: counts_ok_def sender_init_def)

lemma sender_ok_init [simp]: "sender_ok (minihash e) (sender_init minihash now e)"
  by (simp add: sender_ok_def states_tracked_def sender_init_def)

lemma cleanup_loop_spec:
  assumes "states \<noteq> []" and "assumed = last states"
  shows "cleanup_loop acked (Some assumed) states encoders =
    Inr (dropWhile (\<lambda>s. s \<noteq> acked \<and> s \<noteq> assumed) states,
      \<lambda>s. if s \<in> set states - set (dropWhile (\<lambda>s. s \<noteq> acked \<and> s \<noteq> assumed) states) then None
          else encoders s)"
  using assms
proof (induction states arbitrary: encoders)
  case (Cons s ss)
  show ?case
  proof (cases "s \<noteq> acked \<and> s \<noteq> assumed")
    case False
    then show ?thesis by (auto simp: opt_get_def)
  next
    case True
    then have ss: "ss \<noteq> []" "assumed = last ss" using Cons.prems by (auto split: if_splits)
    let ?kept = "dropWhile (\<lambda>s. s \<noteq> acked \<and> s \<noteq> assumed) ss"
    have "s \<notin> set ?kept \<or> s \<in> set ss" using set_dropWhileD by fastforce
    then show ?thesis
      using True Cons.IH [OF ss, of "if s \<in> set ss then encoders else encoders(s := None)"]
      by (auto simp: opt_get_def fun_eq_iff)
  qed
qed simp

lemma last_dropWhile:
  "dropWhile P xs \<noteq> [] \<Longrightarrow> last (dropWhile P xs) = last xs"
  by (induction xs) auto

lemma dropWhile_kept: "xs \<noteq> [] \<Longrightarrow> \<not> P (last xs) \<Longrightarrow> dropWhile P xs \<noteq> []"
  by (auto simp: dropWhile_eq_Nil_conv)

text \<open>What the clean-up leaves: the states from the acknowledged one on, or from the last
  one, and the encoders of every state that is still listed.\<close>

definition cleaned :: "u32 \<Rightarrow> ('r, 'e) sender \<Rightarrow> ('r, 'e) sender" where
  "cleaned acked st =
     (let kept = dropWhile (\<lambda>s. s \<noteq> acked \<and> s \<noteq> last (sd_encoder_states st)) (sd_encoder_states st) in
      st\<lparr>sd_encoder_states := kept,
         sd_encoders := (\<lambda>s. if s \<in> set (sd_encoder_states st) - set kept then None else sd_encoders st s)\<rparr>)"

lemma cleanup_encoders_spec:
  assumes "sender_ok i st"
  shows "cleanup_encoders i st = Inr
    (case sd_receiver_last_acked_state st of
       None \<Rightarrow> st
     | Some acked \<Rightarrow> if acked \<noteq> i \<and> sd_encoders st acked \<noteq> None then cleaned acked st else st)"
proof (cases "sd_encoder_states st = []")
  case True
  then show ?thesis
    by (auto simp: cleanup_encoders_def cleaned_def split: option.splits)
next
  case False
  then have assumed: "sd_receiver_assumed_state st = Some (last (sd_encoder_states st))"
    using assms by (simp add: sender_ok_def states_tracked_def)
  show ?thesis
  proof (cases "sd_receiver_last_acked_state st")
    case (Some acked)
    show ?thesis
      unfolding cleanup_encoders_def assumed cleanup_loop_spec [OF False refl] Some option.case
        bind_result_simps prod.case
      by (simp only: cleaned_def Let_def if_distrib [of Inr])
  qed (simp add: cleanup_encoders_def)
qed

lemma cleaned_ok:
  assumes "sender_ok i st"
  shows "sender_ok i (cleaned acked st)"
proof (cases "sd_encoder_states st = []")
  case True
  then show ?thesis using assms by (simp add: cleaned_def sender_ok_def states_tracked_def)
next
  case False
  let ?P = "\<lambda>s. s \<noteq> acked \<and> s \<noteq> last (sd_encoder_states st)"
  have kept: "dropWhile ?P (sd_encoder_states st) \<noteq> []"
    using False by (intro dropWhile_kept) simp_all
  moreover have "set (dropWhile ?P (sd_encoder_states st)) \<subseteq> set (sd_encoder_states st)"
    using set_dropWhileD by fastforce
  ultimately show ?thesis
    using assms False last_dropWhile [OF kept]
    by (auto simp: cleaned_def Let_def sender_ok_def states_tracked_def)
qed

lemma cleaned_frame [simp]:
  "sd_receiver_last_acked_state (cleaned a st) = sd_receiver_last_acked_state st"
  "sd_receiver_assumed_state (cleaned a st) = sd_receiver_assumed_state st"
  "sd_receiver_complete_states (cleaned a st) = sd_receiver_complete_states st"
  "sd_conservative_until (cleaned a st) = sd_conservative_until st"
  "sd_last_quantizer (cleaned a st) = sd_last_quantizer st"
  "sd_encode_jobs (cleaned a st) = sd_encode_jobs st"
  "sd_frame_no (cleaned a st) = sd_frame_no st"
  "sd_avg_delay (cleaned a st) = sd_avg_delay st"
  by (simp_all add: cleaned_def Let_def)

lemma in_dropWhile: "x \<in> set xs \<Longrightarrow> \<not> P x \<Longrightarrow> x \<in> set (dropWhile P xs)"
  by (induction xs) auto

lemma cleaned_keeps_acked: "sd_encoders (cleaned acked st) acked = sd_encoders st acked"
  using in_dropWhile [of acked "sd_encoder_states st" "\<lambda>s. s \<noteq> acked \<and> s \<noteq> last (sd_encoder_states st)"]
  by (auto simp: cleaned_def Let_def)


section \<open>Choosing where to encode from\<close>

text \<open>What the sender believes: not told otherwise, the receiver is where the last frame sent
  leaves it.\<close>

definition believed_state :: "u32 \<Rightarrow> ('r, 'e) sender \<Rightarrow> u32" where
  "believed_state initial_state st =
     (case sd_receiver_assumed_state st of None \<Rightarrow> initial_state | Some s \<Rightarrow> s)"

lemma believed_stored:
  assumes "sender_ok i st"
  shows "sd_encoders st (believed_state i st) \<noteq> None"
  using assms last_in_set [of "sd_encoder_states st"]
  by (auto simp: believed_state_def sender_ok_def states_tracked_def split: if_splits)

lemma select_believed:
  assumes ok: "sender_ok i st" and "\<not> now < sd_conservative_until st"
    and "\<forall>a. sd_receiver_last_acked_state st = Some a \<longrightarrow> sd_encoders st a \<noteq> None \<and> sd_frame_no st \<noteq> 0"
  shows "select_source i now now' st = Inr (believed_state i st, st)"
proof (cases "sd_receiver_last_acked_state st")
  case None
  then show ?thesis using assms(2) by (simp add: select_source_def believed_state_def split: option.splits)
next
  case (Some a)
  then have a: "sd_encoders st a \<noteq> None" "sd_frame_no st \<noteq> 0" using assms(3) by auto
  then obtain s where "sd_receiver_assumed_state st = Some s"
    using ok by (auto simp: sender_ok_def states_tracked_def)
  then show ?thesis
    using Some a(1) assms(2) by (auto simp: select_source_def believed_state_def opt_get_def)
qed

lemma select_cases:
  assumes ok: "sender_ok i st"
  shows "let acked = sd_receiver_last_acked_state st;
      careful = (now < sd_conservative_until st \<or> acked \<noteq> None \<and> sd_encoders st (the acked) = None) in
    if \<not> careful \<and> acked \<noteq> None \<and> sd_frame_no st = 0 then select_source i now now' st = Inl Assert_failed
    else \<exists>u. select_source i now now' st =
      Inr (if careful then known_state i st else believed_state i st, st\<lparr>sd_conservative_until := u\<rparr>)"
proof -
  have self: "\<exists>u. st = st\<lparr>sd_conservative_until := u\<rparr>"
    by (rule exI [of _ "sd_conservative_until st"]) simp
  consider "now < sd_conservative_until st"
    | "\<not> now < sd_conservative_until st" "sd_receiver_last_acked_state st = None"
    | a where "\<not> now < sd_conservative_until st" "sd_receiver_last_acked_state st = Some a" "sd_encoders st a = None"
    | a e where "\<not> now < sd_conservative_until st" "sd_receiver_last_acked_state st = Some a" "sd_encoders st a = Some e"
    by (cases "sd_receiver_last_acked_state st"; fastforce)
  then show ?thesis
  proof cases
    case 1
    then have "select_source i now now' st = Inr (known_state i st, st)"
      by (simp add: select_source_def)
    then show ?thesis using 1 self unfolding Let_def by auto
  next
    case 2
    then have "select_source i now now' st = Inr (believed_state i st, st)"
      by (simp add: select_source_def believed_state_def split: option.splits)
    then show ?thesis using 2 self unfolding Let_def by auto
  next
    case (3 a)
    then show ?thesis unfolding Let_def by (auto simp: select_source_def)
  next
    case (4 a e)
    show ?thesis
    proof (cases "sd_frame_no st = 0")
      case True
      then have "sd_receiver_assumed_state st = None" using ok by (simp add: sender_ok_def states_tracked_def)
      then show ?thesis using 4 True by (simp add: select_source_def opt_get_def)
    next
      case False
      then have "select_source i now now' st = Inr (believed_state i st, st)"
        using 4 by (intro select_believed [OF ok]) auto
      then show ?thesis using 4 False self unfolding Let_def by auto
    qed
  qed
qed

lemma increment_quantizer_range: "3 \<le> increment_quantizer q inc" "increment_quantizer q inc \<le> 127"
proof -
  have "uint (increment_quantizer q inc) = min 127 (max 3 (uint q + inc))"
    unfolding increment_quantizer_def by (subst uint_word_of_int_eq, subst take_bit_int_eq_self) auto
  then show "3 \<le> increment_quantizer q inc" "increment_quantizer q inc \<le> 127"
    by (simp_all add: word_le_def)
qed


section \<open>Choosing what to send\<close>

text \<open>The best of a list of sizes: the first of the largest that fit.\<close>

definition best_of :: "nat \<Rightarrow> nat list \<Rightarrow> nat \<times> nat \<Rightarrow> bool" where
  "best_of frame_size sizes best \<longleftrightarrow>
     (best = (SIZE_MAX, SIZE_MAX) \<and> (\<forall>n\<in>set sizes. frame_size < n)) \<or>
     (fst best < length sizes \<and> sizes ! fst best \<le> frame_size \<and>
      snd best = frame_size - sizes ! fst best \<and>
      (\<forall>j<length sizes. sizes ! j \<le> frame_size \<longrightarrow>
         sizes ! j \<le> sizes ! fst best \<and> (sizes ! j = sizes ! fst best \<longrightarrow> fst best \<le> j)))"

lemma best_of_step:
  assumes best: "best_of fs ns b" and "fs \<le> SIZE_MAX" and "0 < n \<or> fs < SIZE_MAX"
  shows "best_of fs (ns @ [n]) (if n \<le> fs \<and> fs - n < snd b then (length ns, fs - n) else b)"
proof (cases "b = (SIZE_MAX, SIZE_MAX) \<and> (\<forall>n\<in>set ns. fs < n)")
  case True
  have "fs - n < SIZE_MAX" if "n \<le> fs"
    using that assms(2,3) by (auto simp: SIZE_MAX_def)
  moreover have none: "\<not> ns ! j \<le> fs" if "j < length ns" for j
    using True nth_mem [OF that] by (auto simp: not_le)
  have "(ns @ [n]) ! j \<le> n \<and> ((ns @ [n]) ! j = n \<longrightarrow> length ns \<le> j)"
    if "j < length (ns @ [n])" "(ns @ [n]) ! j \<le> fs" for j
    using that none [of j] by (cases "j < length ns") (auto simp: nth_append)
  ultimately show ?thesis
    using True by (cases "n \<le> fs") (auto simp: best_of_def)
next
  case False
  then have b: "fst b < length ns" "ns ! fst b \<le> fs" "snd b = fs - ns ! fst b"
    and opt: "\<And>j. j < length ns \<Longrightarrow> ns ! j \<le> fs \<Longrightarrow> ns ! j \<le> ns ! fst b \<and> (ns ! j = ns ! fst b \<longrightarrow> fst b \<le> j)"
    using best by (auto simp: best_of_def)
  show ?thesis
  proof (cases "n \<le> fs \<and> fs - n < snd b")
    case True
    then have "ns ! fst b < n" using b by linarith
    moreover have "(ns @ [n]) ! j \<le> n \<and> ((ns @ [n]) ! j = n \<longrightarrow> length ns \<le> j)"
      if "j < length (ns @ [n])" "(ns @ [n]) ! j \<le> fs" for j
      using that opt [of j] calculation by (cases "j < length ns") (auto simp: nth_append)
    ultimately show ?thesis
      using True by (simp add: best_of_def)
  next
    case False
    have "(ns @ [n]) ! j \<le> ns ! fst b \<and> ((ns @ [n]) ! j = ns ! fst b \<longrightarrow> fst b \<le> j)"
      if "j < length (ns @ [n])" "(ns @ [n]) ! j \<le> fs" for j
      using that opt [of j] b False by (cases "j < length ns") (auto simp: nth_append)
    then show ?thesis
      using False b by (auto simp: best_of_def nth_append)
  qed
qed

lemma best_loop_best:
  assumes "fs \<le> SIZE_MAX"
  shows "\<forall>n\<in>set ns. 0 < n \<or> fs < SIZE_MAX \<Longrightarrow> best_of fs ms b \<Longrightarrow>
    best_of fs (ms @ ns) (best_loop fs ns (length ms) b)"
proof (induction ns arbitrary: ms b)
  case (Cons n ns)
  have "0 < n \<or> fs < SIZE_MAX" using Cons.prems(1) by auto
  then have "best_of fs (ms @ [n]) (if n \<le> fs \<and> fs - n < snd b then (length ms, fs - n) else b)"
    by (rule best_of_step [OF Cons.prems(2) assms])
  from Cons.IH [OF _ this] Cons.prems(1) show ?case by simp
qed simp


lemma choose_output_in_range:
  assumes "2 \<le> length outputs" and "capacity \<le> SIZE_MAX" and "length outputs < SIZE_MAX"
    and "\<forall>out\<in>set outputs. eo_frame out \<noteq> []"
  shows "\<exists>choice. choose_output mode capacity skipped outputs = Inr choice \<and>
    (\<forall>k. choice = Some k \<longrightarrow> k < length outputs)"
proof -
  let ?sizes = "map (length \<circ> eo_frame) outputs"
  have "best_of capacity ?sizes (best_loop capacity ?sizes 0 (SIZE_MAX, SIZE_MAX))"
    using best_loop_best [OF assms(2), of ?sizes "[]" "(SIZE_MAX, SIZE_MAX)"] assms(4)
    by (simp add: best_of_def)
  then have "best_output capacity ?sizes = SIZE_MAX \<or> best_output capacity ?sizes < length outputs"
    unfolding best_output_def best_of_def by auto
  then show ?thesis
    using assms(1) unfolding choose_output_def by (auto simp: Let_def check_def)
qed


lemma last_count:
  assumes "counts_ok st" and "sd_cumulative_fpf st \<noteq> []"
  shows "unat (last (sd_cumulative_fpf st)) \<le> 65535 * length (sd_cumulative_fpf st)"
proof -
  let ?k = "length (sd_cumulative_fpf st) - 1"
  have "?k < length (sd_cumulative_fpf st)" "?k + 1 = length (sd_cumulative_fpf st)" using assms(2) by simp_all
  then have "unat (sd_cumulative_fpf st ! ?k) \<le> 65535 * length (sd_cumulative_fpf st)"
    using assms(1) unfolding counts_ok_def by metis
  then show ?thesis using assms(2) by (simp add: last_conv_nth)
qed

text \<open>The capacity is known unless an acknowledgement came before the first frame was sent.\<close>

lemma small_target_size:
  assumes "unat last_acked < 2 ^ 49" and "unat last_sent < 2 ^ 49"
  shows "\<exists>n. target_size avg_delay last_acked last_sent 100000 = Inr n"
proof -
  let ?b = "ucast (100000 div (if avg_delay = 0 then 1 else avg_delay) :: u32) :: u64"
  have "unat (100000 div (if avg_delay = 0 then 1 else avg_delay) :: u32) \<le> 100000"
    by (simp add: unat_div)
  then have "unat ?b \<le> 100000" by (simp add: unat_ucast_up)
  then have b: "uint ?b \<le> 100000" "0 \<le> uint ?b" unfolding uint_nat [of ?b] by linarith+
  have ab: "uint last_acked < 2 ^ 49" "uint last_sent < 2 ^ 49" "0 \<le> uint last_acked" "0 \<le> uint last_sent"
    using assms unfolding uint_nat [of last_acked] uint_nat [of last_sent]
    by (simp_all only: of_nat_less_numeral_power_cancel_iff of_nat_0_le_iff)
  let ?v = "uint ?b - (uint last_sent - uint last_acked)"
  have powers: "(2 :: int) ^ 49 = 562949953421312" "(2 :: int) ^ 50 = 1125899906842624" by simp_all
  have v: "- (2 ^ 50) \<le> ?v" "?v < 2 ^ 50" using b ab unfolding powers by linarith+
  have "?b - (last_sent - last_acked) = word_of_int ?v" by simp
  moreover have "sint (word_of_int v :: u64) = signed_take_bit 63 v" for v
    by (simp add: signed_of_int)
  ultimately have "sint (?b - (last_sent - last_acked)) = signed_take_bit 63 ?v" by (simp only:)
  also have "\<dots> = ?v" using v by (intro signed_take_bit_int_eq_self) auto
  finally have sum: "sint (?b - (last_sent - last_acked)) = ?v" .
  have "1400 * max 0 v < 2 ^ 63" if "v < 2 ^ 50" for v :: int using that by (simp add: max_def)
  from this [OF v(2)] have "1400 * max 0 (sint (?b - (last_sent - last_acked))) < 2 ^ 63" unfolding sum .
  then show ?thesis by (simp add: target_size_def Let_def check_def)
qed

lemma capacity_cases:
  assumes ok: "sender_ok i st" and counts: "counts_ok st"
  shows "if sd_avg_delay st \<noteq> -1 \<and> sd_frame_no st = 0 then network_capacity st = Inl Undefined
    else \<exists>n\<le>SIZE_MAX. network_capacity st = Inr n"
proof (cases "sd_avg_delay st = -1")
  case False
  show ?thesis
  proof (cases "sd_cumulative_fpf st = []")
    case True
    then have "sd_frame_no st = 0" using ok by (simp add: sender_ok_def unat_eq_0)
    then show ?thesis using True False by (simp add: network_capacity_def)
  next
    case ne: False
    have len: "length (sd_cumulative_fpf st) = unat (sd_frame_no st)" using ok by (simp add: sender_ok_def)
    have "unat (last (sd_cumulative_fpf st)) \<le> 65535 * length (sd_cumulative_fpf st)"
      by (rule last_count [OF counts ne])
    also have "\<dots> < 65536 * 2 ^ 32" using len unsigned_less [of "sd_frame_no st", where ?'a = nat] by simp
    finally have "unat (last (sd_cumulative_fpf st)) < 2 ^ 49" by simp
    with False counts obtain n where
      "target_size (sd_avg_delay st) (sd_last_acked st) (last (sd_cumulative_fpf st)) 100000 = Inr n"
      using small_target_size [of "sd_last_acked st" "last (sd_cumulative_fpf st)" "sd_avg_delay st"]
      unfolding counts_ok_def by blast
    moreover have "unat n \<le> SIZE_MAX" using unsigned_less [of n, where ?'a = nat] by (simp add: SIZE_MAX_def)
    moreover have "sd_frame_no st \<noteq> 0" using ne len by auto
    ultimately show ?thesis using False ne by (auto simp: network_capacity_def split: list.split)
  qed
qed (simp add: network_capacity_def)

lemma network_capacity_jobs [simp]:
  "network_capacity (st\<lparr>sd_encode_jobs := js\<rparr>) = network_capacity st"
  by (cases "sd_cumulative_fpf st") (simp_all add: network_capacity_def)


lemma output_chosen:
  assumes "length outputs = (if mode = Conventional then 1 else 2)" and "capacity \<le> SIZE_MAX"
    and "\<forall>out\<in>set outputs. eo_frame out \<noteq> []"
  shows "\<exists>choice. choose_output mode capacity skipped outputs = Inr choice \<and>
    (\<forall>k. choice = Some k \<longrightarrow> k < length outputs) \<and> (choice = None \<longrightarrow> mode \<noteq> Conventional)"
proof (cases "mode = Conventional")
  case True
  then show ?thesis using assms(1) by (simp add: choose_output_def)
next
  case False
  then have "2 \<le> length outputs" "length outputs < SIZE_MAX" using assms(1) by (simp_all add: SIZE_MAX_def)
  from choose_output_in_range [OF this(1) assms(2) this(2) assms(3)] False show ?thesis by blast
qed


section \<open>Sending\<close>

abbreviation wire :: "packet \<Rightarrow> bytes" where
  "wire p \<equiv> packet_header p @ pk_payload p"

lemma push_packets_enq:
  "\<forall>p\<in>set ps. packet_ok p \<Longrightarrow>
   push_packets clock delay k ps q =
     Inr (pacer.enq_all (map (\<lambda>(i, p). ((clock i, delay), wire p)) (zip [k..<k + length ps] ps)) q)"
proof (induction ps arbitrary: k q)
  case (Cons p ps)
  then have "packet_to_string p = Inr (wire p)" by (simp add: packet_to_string_ok)
  then show ?case
    using Cons.IH [of "Suc k"] Cons.prems by (simp add: upt_conv_Cons del: upt_Suc)
qed simp

lemma push_packets_ok:
  assumes "\<forall>p\<in>set ps. packet_ok p"
  shows "\<exists>q'. push_packets clock delay k ps q = Inr q' \<and> map sp_what q' = map sp_what q @ map wire ps"
proof -
  have "map snd (map (\<lambda>(i, p). ((clock i, delay), wire p)) (zip [k..<k + length ps] ps)) = map wire ps"
    by (rule nth_equalityI) simp_all
  then show ?thesis
    unfolding push_packets_enq [OF assms] by (auto simp: pacer.items_enq_all)
qed

lemma packets_of_frame_ok: "packets_of_frame ps \<Longrightarrow> p \<in> set ps \<Longrightarrow> packet_ok p"
  by (auto simp: packets_of_frame_def in_set_conv_nth)

lemma record_fragments_ok:
  assumes "length (sd_cumulative_fpf st) = unat (sd_frame_no st)"
  shows "\<exists>total. record_fragments ff st = Inr (st\<lparr>sd_cumulative_fpf := sd_cumulative_fpf st @ [total]\<rparr>) \<and>
    total = (if sd_frame_no st = 0 then 0 else last (sd_cumulative_fpf st)) + ucast (ff_fragments_in_this_frame ff)"
proof (cases "sd_frame_no st = 0")
  case True
  then show ?thesis by (simp add: record_fragments_def)
next
  case False
  then have "unat (sd_frame_no st - 1) = length (sd_cumulative_fpf st) - 1"
    by (simp add: assms unat_minus_one)
  moreover have "sd_cumulative_fpf st \<noteq> []" "0 < sd_frame_no st"
    using False assms by (auto simp: word_gt_0 unat_eq_0)
  ultimately show ?thesis
    using False by (simp add: record_fragments_def at_def last_conv_nth)
qed

definition sent_packets :: "u16 \<Rightarrow> u32 \<Rightarrow> send_inputs \<Rightarrow> u32 \<Rightarrow> 'e encode_output \<Rightarrow> packet list" where
  "sent_packets c target inp frame_no out =
     sent_fragments (eo_frame out) c (eo_source_minihash out) target frame_no (si_time_since_last inp)
       (si_packet_timestamps inp) (si_push_timestamp inp) (si_rtt_average inp) (si_throughput inp)"

lemma sent_packets_frame:
  assumes "eo_frame out \<noteq> []" and "fragment_count (eo_frame out) < 2 ^ 16"
  shows "packets_of_frame (sent_packets c target inp n out)"
  unfolding sent_packets_def by (rule sent_fragments_frame [OF assms])

lemma build_frame_ok:
  assumes "eo_frame out \<noteq> []" and "fragment_count (eo_frame out) < 2 ^ 16"
  shows "\<exists>ff. build_frame c target inp n out = Some (Inr ff) \<and>
    ff_packets ff = Inr (sent_packets c target inp n out) \<and>
    ff_fragments_in_this_frame ff = word_of_nat (fragment_count (eo_frame out))"
  unfolding build_frame_def outgoing_frame_ok [OF assms] using assms(2)
  by (simp add: ff_packets_def ff_complete_def unat_of_nat_lt sent_packets_def)

lemma send_output_ok:
  assumes ok: "sender_ok i st" and frame: "eo_frame out \<noteq> []" "fragment_count (eo_frame out) < 2 ^ 16"
    and no: "sd_frame_no st + 1 \<noteq> 0"
  shows "\<exists>st'. send_output minihash c control inp out st = Some (Inr st') \<and> sender_ok i st' \<and>
    map sp_what (sd_pacer st') = map sp_what (sd_pacer st) @
      map wire (sent_packets c (minihash (eo_encoder out)) inp (sd_frame_no st) out) \<and>
    sd_frame_no st' = sd_frame_no st + 1 \<and> sd_encode_jobs st' = sd_encode_jobs st \<and>
    sd_receiver_assumed_state st' = Some (minihash (eo_encoder out))"
proof -
  let ?t = "minihash (eo_encoder out)"
  obtain ff where ff: "build_frame c ?t inp (sd_frame_no st) out = Some (Inr ff)"
    "ff_packets ff = Inr (sent_packets c ?t inp (sd_frame_no st) out)"
    using build_frame_ok [OF frame] by blast
  let ?period = "send_period control (si_monax_period inp) (sd_avg_delay st)"
  have "\<forall>p\<in>set (sent_packets c ?t inp (sd_frame_no st) out). packet_ok p"
    using packets_of_frame_ok [OF sent_packets_frame [OF frame]] by blast
  from push_packets_ok [OF this, of "si_pacer_clock inp" "narrow_int (uint ?period)" 0 "sd_pacer st"]
  obtain q where q: "push_packets (si_pacer_clock inp) (narrow_int (uint ?period)) 0
      (sent_packets c ?t inp (sd_frame_no st) out) (sd_pacer st) = Inr q"
    "map sp_what q = map sp_what (sd_pacer st) @ map wire (sent_packets c ?t inp (sd_frame_no st) out)"
    by blast
  let ?st = "st\<lparr>sd_last_quantizer := eo_y_ac_qi out, sd_inter_send_delay := ?period, sd_pacer := q\<rparr>"
  have fpf: "length (sd_cumulative_fpf st) = unat (sd_frame_no st)"
    using ok by (simp add: sender_ok_def)
  then have "length (sd_cumulative_fpf ?st) = unat (sd_frame_no ?st)" by simp
  from record_fragments_ok [OF this, of ff] obtain total where
    "record_fragments ff ?st = Inr (?st\<lparr>sd_cumulative_fpf := sd_cumulative_fpf ?st @ [total]\<rparr>)" by blast
  then have "after_build minihash control inp out ff st = Inr
      (?st\<lparr>sd_cumulative_fpf := sd_cumulative_fpf st @ [total], sd_receiver_assumed_state := Some ?t,
           sd_encoders := (case sd_encoders st ?t of
              Some _ \<Rightarrow> sd_encoders st | None \<Rightarrow> (sd_encoders st)(?t \<mapsto> eo_encoder out)),
           sd_encoder_states := sd_encoder_states st @ [?t], sd_skipped_count := 0,
           sd_frame_no := sd_frame_no st + 1\<rparr>)" (is "_ = Inr ?st'")
    unfolding after_build_def Let_def ff(2) bind_result_simps q(1)
    by (simp cong: option.case_cong)
  moreover have "unat (sd_frame_no st + 1) = Suc (unat (sd_frame_no st))"
    using no unatSuc [of "sd_frame_no st"] by (simp add: add.commute)
  then have "sender_ok i ?st'"
    using ok no fpf by (auto simp: sender_ok_def states_tracked_def split: option.splits)
  ultimately show ?thesis
    using q(2) by (simp add: send_output_def ff(1))
qed


lemma ack_seq_no_cases:
  assumes "sender_ok i st"
  shows "(ack_seq_no ack (sd_cumulative_fpf st) = Inl Undefined \<longleftrightarrow> sd_frame_no st < ak_frame_no ack) \<and>
    (\<forall>e. ack_seq_no ack (sd_cumulative_fpf st) = Inl e \<longrightarrow> e = Undefined) \<and>
    (\<forall>n. ack_seq_no ack (sd_cumulative_fpf st) = Inr n \<longrightarrow> counts_ok st \<longrightarrow> unat n < 2 ^ 49)"
proof -
  have fragment: "unat (ucast (ak_fragment_no ack) :: u64) \<le> 65535"
    using unsigned_less [of "ak_fragment_no ack", where ?'a = nat] by (simp add: unat_ucast_up)
  show ?thesis
  proof (cases "ak_frame_no ack = 0")
    case True
    then show ?thesis using fragment by (simp add: ack_seq_no_def not_less)
  next
    case False
    let ?k = "unat (ak_frame_no ack - 1)"
    have "unat (ak_frame_no ack - 1) = unat (ak_frame_no ack) - 1" "0 < unat (ak_frame_no ack)"
      using False by (simp_all add: unat_minus_one unat_gt_0)
    then have out: "length (sd_cumulative_fpf st) \<le> ?k \<longleftrightarrow> sd_frame_no st < ak_frame_no ack"
      using assms by (auto simp: sender_ok_def word_less_nat_alt)
    have small: "unat (sd_cumulative_fpf st ! ?k + ucast (ak_fragment_no ack)) < 2 ^ 49"
      if "counts_ok st" "?k < length (sd_cumulative_fpf st)"
    proof -
      have "unat (sd_cumulative_fpf st ! ?k) \<le> 65535 * (?k + 1)" using that by (simp add: counts_ok_def)
      moreover have "?k < 2 ^ 32" using unsigned_less [of "ak_frame_no ack - 1", where ?'a = nat] by simp
      moreover have "unat (sd_cumulative_fpf st ! ?k + ucast (ak_fragment_no ack)) \<le>
          unat (sd_cumulative_fpf st ! ?k) + unat (ucast (ak_fragment_no ack) :: u64)"
        by (simp only: unat_word_ariths) (rule mod_less_eq_dividend)
      ultimately show ?thesis using fragment by simp
    qed
    show ?thesis
      using False out small by (auto simp: ack_seq_no_def at_def word_gt_0)
  qed
qed

lemma record_fragments_counts:
  assumes "sender_ok i st" and "counts_ok st" and "record_fragments ff st = Inr st'"
  shows "counts_ok st'"
proof -
  let ?n = "length (sd_cumulative_fpf st)"
  obtain total where st': "st' = st\<lparr>sd_cumulative_fpf := sd_cumulative_fpf st @ [total]\<rparr>"
    and total: "total = (if sd_frame_no st = 0 then 0 else last (sd_cumulative_fpf st)) + ucast (ff_fragments_in_this_frame ff)"
    using record_fragments_ok [of st ff] assms(1,3) by (auto simp: sender_ok_def)
  have len: "?n = unat (sd_frame_no st)" using assms(1) by (simp add: sender_ok_def)
  let ?last = "if sd_frame_no st = 0 then 0 else last (sd_cumulative_fpf st)"
  have "unat ?last \<le> 65535 * ?n"
  proof (cases "sd_frame_no st = 0")
    case False
    then have "sd_cumulative_fpf st \<noteq> []" using len by (auto simp: unat_eq_0)
    then show ?thesis using last_count [OF assms(2)] False by simp
  qed simp
  moreover have "unat (ucast (ff_fragments_in_this_frame ff) :: u64) \<le> 65535"
    using unsigned_less [of "ff_fragments_in_this_frame ff", where ?'a = nat] by (simp add: unat_ucast_up)
  moreover have "unat total \<le> unat ?last + unat (ucast (ff_fragments_in_this_frame ff) :: u64)"
    unfolding total by (simp only: unat_word_ariths) (rule mod_less_eq_dividend)
  ultimately have "unat total \<le> 65535 * (?n + 1)" by simp
  then show ?thesis using assms(2) by (auto simp: st' counts_ok_def nth_append less_Suc_eq)
qed

lemma send_output_counts:
  assumes "sender_ok i st" and "counts_ok st" and "send_output minihash c control inp out st = Some (Inr st')"
  shows "counts_ok st'"
proof -
  obtain ff period q st1 where ff: "record_fragments ff (st\<lparr>sd_last_quantizer := eo_y_ac_qi out, sd_inter_send_delay := period,
      sd_pacer := q\<rparr>) = Inr st1"
    and st': "sd_cumulative_fpf st' = sd_cumulative_fpf st1" "sd_avg_delay st' = sd_avg_delay st1" "sd_last_acked st' = sd_last_acked st1"
    using assms(3) by (auto simp: send_output_def after_build_def Let_def bind_result_eq_Inr)
  have "sender_ok i (st\<lparr>sd_last_quantizer := eo_y_ac_qi out, sd_inter_send_delay := period, sd_pacer := q\<rparr>)"
    "counts_ok (st\<lparr>sd_last_quantizer := eo_y_ac_qi out, sd_inter_send_delay := period, sd_pacer := q\<rparr>)"
    using assms(1,2) by (simp_all add: sender_ok_def states_tracked_def counts_ok_def)
  from record_fragments_counts [OF this ff] show ?thesis by (simp add: counts_ok_def st')
qed


section \<open>Stamping\<close>

lemma stamp_header:
  "take 22 (packet_header p) @ put_header_field32 t @ drop 26 (packet_header p) =
   packet_header (p\<lparr>pk_packet_send_timestamp := t\<rparr>)"
  by (simp add: packet_header_def)

lemma stamp_wire:
  assumes "length (pk_payload p) < 2 ^ 63"
  shows "stamp_packet t (wire p) = Inr (wire (p\<lparr>pk_packet_send_timestamp := t\<rparr>))"
proof -
  let ?p = "p\<lparr>pk_packet_send_timestamp := t\<rparr>"
  have "chunk_ok (chunk_of (wire ?p))" "contents (chunk_of (wire ?p)) = wire ?p"
    using assms by simp_all
  note parse_packet_fields(4) [OF this]
  moreover have "string_replace 22 4 (put_header_field32 t) (wire p) = Inr (wire ?p)"
    using stamp_header [of p t] by (simp add: string_replace_def)
  ultimately show ?thesis
    by (simp add: stamp_packet_def)
qed

text \<open>What leaves is the stamped front of the queue, up to the first packet that is not due.\<close>

lemma flush_due_front:
  assumes "map sp_what q = map wire ps" and "\<forall>p\<in>set ps. length (pk_payload p) < 2 ^ 63"
  shows "\<exists>n\<le>length ps. flush_due now stamp q k =
      Inr (map (\<lambda>i. wire ((ps ! i)\<lparr>pk_packet_send_timestamp := stamp (k + i)\<rparr>)) [0..<n], drop n q) \<and>
    ms_until_due (now (k + n)) (drop n q) \<noteq> 0"
  using assms
proof (induction q arbitrary: ps k)
  case Nil
  then show ?case by (simp add: ms_until_due_def)
next
  case (Cons x q)
  then obtain p ps' where ps: "ps = p # ps'" "sp_what x = wire p" "map sp_what q = map wire ps'"
    by (cases ps) auto
  show ?case
  proof (cases "ms_until_due (now k) (x # q) = 0")
    case False
    then show ?thesis by (intro exI [of _ 0]) simp
  next
    case True
    obtain n where n: "n \<le> length ps'" "flush_due now stamp q (k + 1) =
        Inr (map (\<lambda>i. wire ((ps' ! i)\<lparr>pk_packet_send_timestamp := stamp (k + 1 + i)\<rparr>)) [0..<n], drop n q)"
      "ms_until_due (now (k + 1 + n)) (drop n q) \<noteq> 0"
      using Cons.IH [OF ps(3), of "k + 1"] Cons.prems(2) ps(1) by auto
    have "stamp_packet (stamp k) (sp_what x) = Inr (wire (p\<lparr>pk_packet_send_timestamp := stamp k\<rparr>))"
      using stamp_wire [of p "stamp k"] Cons.prems(2) ps(1,2) by simp
    then show ?thesis
      using True n by (intro exI [of _ "Suc n"])
        (simp add: ps(1) upt_conv_Cons comp_def del: upt_Suc flip: map_Suc_upt)
  qed
qed


lemma out_handler_front:
  assumes "map sp_what (sd_pacer st) = map wire ps" and "\<forall>p\<in>set ps. length (pk_payload p) < 2 ^ 63"
    and "ms_until_due now0 (sd_pacer st) = 0"
  shows "\<exists>n\<le>length ps. out_handler now0 now stamp st =
      Inr (map (\<lambda>i. wire ((ps ! i)\<lparr>pk_packet_send_timestamp := stamp i\<rparr>)) [0..<n],
           st\<lparr>sd_pacer := drop n (sd_pacer st)\<rparr>) \<and>
    ms_until_due (now n) (drop n (sd_pacer st)) \<noteq> 0"
  using flush_due_front [OF assms(1,2), of now stamp 0] assms(3)
  by (auto simp: out_handler_def check_def)


section \<open>Properties\<close>

text \<open>A sender that has sent three frames and has heard of the second, and an encoding.\<close>

definition sent_three :: "(unit, u32) sender" where
  "sent_three = sender_init (\<lambda>e. e) 0 7\<lparr>sd_encoder_states := [1, 2, 3], sd_frame_no := 3,
     sd_cumulative_fpf := [1, 2, 3], sd_encoders := [7 \<mapsto> 7, 1 \<mapsto> 1, 2 \<mapsto> 2, 3 \<mapsto> 3],
     sd_receiver_assumed_state := Some 3, sd_receiver_last_acked_state := Some 2\<rparr>"

definition example_output :: "string \<Rightarrow> nat \<Rightarrow> u32 encode_output" where
  "example_output name n =
     \<lparr>eo_encoder = 8, eo_frame = replicate n 1, eo_source_minihash = 7, eo_job_name = name, eo_y_ac_qi = 20\<rparr>"

definition example_inputs :: send_inputs where
  "example_inputs =
     \<lparr>si_time_since_last = 0, si_push_timestamp = 0, si_packet_timestamps = (\<lambda>_. 0), si_pacer_clock = (\<lambda>_. 0),
      si_rtt_average = 0, si_throughput = 0, si_monax_period = 0\<rparr>"

definition example_outputs :: "u32 encode_output list" where
  "example_outputs = [example_output ''improve'' 3, example_output ''fail-small'' 1]"

definition example_ack :: "u32 \<Rightarrow> ack_packet" where
  "example_ack n =
     \<lparr>ak_connection_id = 1, ak_frame_no = n, ak_fragment_no = 0, ak_avg_delay = 0, ak_current_state = 0,
      ak_packet_send_timestamp = 0, ak_ack_delay = 0, ak_frame_one_way_delay = 0,
      ak_frame_finish_state = 0, ak_complete_states = []\<rparr>"



text \<open>The clean-up forgets exactly what the receiver can no longer refer to.  Given an
  acknowledged state whose encoder is stored, the states older than it are dropped from the list,
  but never the last one, and an encoder is dropped exactly when its state is no longer listed.\<close>

theorem cleanup_exact:
  assumes "sender_ok i st" and "sd_receiver_last_acked_state st = Some acked" and "acked \<noteq> i"
    and "sd_encoders st acked \<noteq> None"
  shows "\<exists>st'. cleanup_encoders i st = Inr st' \<and> sender_ok i st' \<and>
    sd_encoder_states st' = dropWhile (\<lambda>s. s \<noteq> acked \<and> s \<noteq> last (sd_encoder_states st)) (sd_encoder_states st) \<and>
    (\<forall>s. sd_encoders st' s =
      (if s \<in> set (sd_encoder_states st) \<and> s \<notin> set (sd_encoder_states st') then None else sd_encoders st s))"
proof -
  have "cleanup_encoders i st = Inr (cleaned acked st)"
    using cleanup_encoders_spec [OF assms(1)] assms(2-4) by simp
  then show ?thesis
    using cleaned_ok [OF assms(1), of acked] by (simp add: cleaned_def Let_def)
qed

theorem cleanup_exact_witness:
  "\<exists>st'. cleanup_encoders 7 (sent_three) = Inr st' \<and> sd_encoder_states st' = [2, 3] \<and>
    sd_encoders st' 1 = None \<and> sd_encoders st' 2 = Some 2"
proof -
  have "sender_ok 7 sent_three"
    by (simp add: sent_three_def sender_ok_def states_tracked_def sender_init_def)
  then show ?thesis
    using cleanup_exact [of 7 sent_three 2] by (auto simp: sent_three_def sender_init_def)
qed

text \<open>C39: The output chosen is the best one that fits.  In the modes of Salsify, of two or more outputs that are
  not empty the chosen one is the first of the largest that do not exceed the capacity; when none fits, the last one
  is sent if three frames have been skipped since one was sent and it is the small one, and else the frame is
  skipped.\<close>

theorem chosen_output_best:
  assumes "mode \<noteq> Conventional" and "capacity \<le> SIZE_MAX" and "2 \<le> length outputs" and "length outputs < SIZE_MAX"
    and "\<forall>out\<in>set outputs. eo_frame out \<noteq> []"
  shows "\<exists>choice. choose_output mode capacity skipped outputs = Inr choice \<and>
    (let fits = (\<lambda>j. length (eo_frame (outputs ! j)) \<le> capacity);
         size = (\<lambda>j. length (eo_frame (outputs ! j))) in
     if \<exists>j<length outputs. fits j then
       \<exists>k. choice = Some k \<and> k < length outputs \<and> fits k \<and>
         (\<forall>j<length outputs. fits j \<longrightarrow> size j \<le> size k \<and> (size j = size k \<longrightarrow> k \<le> j))
     else choice = (if MAX_SKIPPED \<le> skipped \<and> eo_job_name (last outputs) = ''fail-small''
                    then Some (length outputs - 1) else None))"
proof -
  let ?sizes = "map (length \<circ> eo_frame) outputs"
  let ?b = "best_loop capacity ?sizes 0 (SIZE_MAX, SIZE_MAX)"
  have best: "best_of capacity ?sizes ?b"
    using best_loop_best [OF assms(2), of ?sizes "[]" "(SIZE_MAX, SIZE_MAX)"] assms(5)
    by (simp add: best_of_def)
  have choice: "choose_output mode capacity skipped outputs = Inr
      (if fst ?b = SIZE_MAX then
         if skipped < MAX_SKIPPED \<or> eo_job_name (last outputs) \<noteq> ''fail-small'' then None
         else Some (length outputs - 1)
       else Some (fst ?b))"
    using assms(1,3) by (simp add: choose_output_def best_output_def check_def)
  show ?thesis
  proof (cases "\<exists>j<length outputs. length (eo_frame (outputs ! j)) \<le> capacity")
    case True
    then have "\<not> (\<forall>n\<in>set ?sizes. capacity < n)"
      by (auto simp: not_less)
    then have "fst ?b < length outputs \<and> length (eo_frame (outputs ! fst ?b)) \<le> capacity \<and>
        (\<forall>j<length outputs. length (eo_frame (outputs ! j)) \<le> capacity \<longrightarrow>
          length (eo_frame (outputs ! j)) \<le> length (eo_frame (outputs ! fst ?b)) \<and>
          (length (eo_frame (outputs ! j)) = length (eo_frame (outputs ! fst ?b)) \<longrightarrow> fst ?b \<le> j))"
      using best unfolding best_of_def by auto
    then show ?thesis
      unfolding choice using True assms(4) by (auto simp: Let_def)
  next
    case False
    then have "fst ?b = SIZE_MAX"
      using best unfolding best_of_def by auto
    then show ?thesis
      unfolding choice using False by (auto simp: Let_def)
  qed
qed

theorem chosen_output_best_witness:
  "\<exists>choice. choose_output S2 2 0 example_outputs = Inr choice \<and>
    (let fits = (\<lambda>j. length (eo_frame (example_outputs ! j)) \<le> 2);
         size = (\<lambda>j. length (eo_frame (example_outputs ! j))) in
     if \<exists>j<length example_outputs. fits j then
       \<exists>k. choice = Some k \<and> k < length example_outputs \<and> fits k \<and>
         (\<forall>j<length example_outputs. fits j \<longrightarrow> size j \<le> size k \<and> (size j = size k \<longrightarrow> k \<le> j))
     else choice = (if MAX_SKIPPED \<le> 0 \<and> eo_job_name (last example_outputs) = ''fail-small''
                    then Some (length example_outputs - 1) else None))"
  by (rule chosen_output_best) (simp_all add: example_outputs_def example_output_def SIZE_MAX_def)



text \<open>The capacity is the room left in the pipe.  While fewer than \<open>2 ^ 62\<close> packets are in
  flight, the target size is 1400 bytes for each packet the delay budget still has room for, none
  when the packets in flight use it up, and an average delay of 0 counts as 1.\<close>

theorem target_size_spec:
  assumes "last_acked \<le> last_sent" and "unat last_sent - unat last_acked < 2 ^ 62"
  shows "target_size avg_delay last_acked last_sent max_delay =
    Inr (word_of_nat (1400 * (unat max_delay div max 1 (unat avg_delay) - (unat last_sent - unat last_acked))))"
proof -
  let ?avg = "if avg_delay = 0 then 1 else avg_delay"
  let ?budget = "unat max_delay div max 1 (unat avg_delay)" and ?flight = "unat last_sent - unat last_acked"
  have avg: "unat ?avg = max 1 (unat avg_delay)"
    by (auto simp: max_def not_le unat_gt_0 Suc_le_eq)
  have budget: "unat (ucast (max_delay div ?avg) :: u64) = ?budget" "?budget < 2 ^ 32"
  proof -
    show "unat (ucast (max_delay div ?avg) :: u64) = ?budget"
      by (simp add: unat_ucast_up unat_div avg)
    have "?budget \<le> unat max_delay" by simp
    also have "\<dots> < 2 ^ 32" using unsigned_less [of max_delay, where ?'a = nat] by simp
    finally show "?budget < 2 ^ 32" .
  qed
  have flight: "unat (last_sent - last_acked) = ?flight"
    using assms(1) by (simp add: unat_sub)
  have "sint (ucast (max_delay div ?avg) - (last_sent - last_acked) :: u64) = int ?budget - int ?flight"
  proof -
    have "uint (ucast (max_delay div ?avg) :: u64) = int ?budget" "uint (last_sent - last_acked) = int ?flight"
      using budget(1) flight by (simp_all add: uint_nat)
    then have "uint (ucast (max_delay div ?avg) - (last_sent - last_acked) :: u64) = take_bit 64 (int ?budget - int ?flight)"
      unfolding uint_word_ariths(2) by (simp only: take_bit_eq_mod) simp
    then have "sint (ucast (max_delay div ?avg) - (last_sent - last_acked) :: u64) =
        signed_take_bit 63 (int ?budget - int ?flight)"
      by (simp add: sint_uint signed_take_bit_take_bit)
    also have "\<dots> = int ?budget - int ?flight"
      using budget(2) assms(2) by (intro signed_take_bit_int_eq_self) auto
    finally show ?thesis .
  qed
  then have room: "max 0 (sint (ucast (max_delay div ?avg) - (last_sent - last_acked) :: u64)) = int (?budget - ?flight)"
    by simp
  have "?budget - ?flight < 2 ^ 32" using budget(2) by (rule less_imp_diff_less)
  then have "int (?budget - ?flight) < 2 ^ 32" by (simp only: of_nat_less_numeral_power_cancel_iff)
  then have "1400 * int (?budget - ?flight) < 2 ^ 63" by simp
  then show ?thesis
    unfolding target_size_def Let_def room by (simp add: check_def)
qed

theorem target_size_spec_witness:
  "target_size 2000 (5 :: u64) 15 100000 = Inr (word_of_nat (1400 * (unat (100000 :: u32) div max 1 (unat (2000 :: u32)) - (unat (15 :: u64) - unat (5 :: u64)))))"
  by (rule target_size_spec) simp_all

text \<open>C38: Acknowledgements only move forward.  The handler fails, indexing the fragment counts out of range, exactly
  for an acknowledgement of this connection whose frame number exceeds that of the next frame to be sent; one
  for that frame itself, which has not been sent, is accepted.  Otherwise the state is left alone or the
  sequence number of the last acknowledgement does not decrease, and the invariants are kept.\<close>

theorem ack_handler_spec:
  assumes "sender_ok i st"
  shows "(ack_handler c ack st = Inl Undefined \<longleftrightarrow> ak_connection_id ack = c \<and> sd_frame_no st < ak_frame_no ack) \<and>
    (\<forall>e. ack_handler c ack st = Inl e \<longrightarrow> e = Undefined) \<and>
    (\<forall>st'. ack_handler c ack st = Inr st' \<longrightarrow> sender_ok i st' \<and> (counts_ok st \<longrightarrow> counts_ok st') \<and>
       (st' = st \<or> (sd_last_acked st = -1 \<or> sd_last_acked st \<le> sd_last_acked st') \<and>
          sd_avg_delay st' = ak_avg_delay ack \<and>
          sd_receiver_last_acked_state st' = Some (ak_current_state ack) \<and>
          sd_receiver_complete_states st' = ak_complete_states ack))"
proof -
  have keep: "sender_ok i (st\<lparr>sd_last_acked := a, sd_avg_delay := d, sd_receiver_last_acked_state := s,
      sd_receiver_complete_states := cs\<rparr>)" for a d s cs
    using assms by (simp add: sender_ok_def states_tracked_def)
  have small: "counts_ok (st\<lparr>sd_last_acked := a, sd_avg_delay := d, sd_receiver_last_acked_state := s,
      sd_receiver_complete_states := cs\<rparr>)" if "counts_ok st" "unat a < 2 ^ 49" for a d s cs
    using that by (simp add: counts_ok_def)
  show ?thesis
  proof (cases "ack_seq_no ack (sd_cumulative_fpf st)")
    case (Inl e)
    then show ?thesis using ack_seq_no_cases [OF assms, of ack] assms by (auto simp: ack_handler_def)
  next
    case (Inr n)
    then show ?thesis
      using ack_seq_no_cases [OF assms, of ack] assms keep small by (auto simp: ack_handler_def not_less)
  qed
qed

theorem ack_handler_spec_witness:
  "ack_handler 1 (example_ack 1) (sender_init (\<lambda>e. e) 0 (7 :: u32) :: (unit, u32) sender) = Inl Undefined \<and>
   (\<exists>st'. ack_handler 1 (example_ack 0) (sender_init (\<lambda>e. e) 0 (7 :: u32) :: (unit, u32) sender) = Inr st' \<and>
      sd_avg_delay st' = 0)"
proof -
  let ?st = "sender_init (\<lambda>e. e) 0 (7 :: u32) :: (unit, u32) sender"
  have ok: "sender_ok 7 ?st" using sender_ok_init [of "\<lambda>e. e" 7 0] by simp
  note 1 = conjunct1 [OF ack_handler_spec [OF ok, of 1 "example_ack 1"]]
  have "\<exists>st'. ack_handler 1 (example_ack 0) ?st = Inr st' \<and> sd_avg_delay st' = 0"
    by (simp add: ack_handler_def ack_seq_no_def example_ack_def sender_init_def)
  with 1 show ?thesis by (simp add: example_ack_def sender_init_def)
qed

text \<open>What leaves the pacer is what was queued, freshly stamped.  When the queue holds serialised
  packets and the first one is due, the handler sends the datagrams of a front part of the queue in
  order, equal to those queued except for the packet's send timestamp, and stops at the first packet
  that is not due.\<close>

theorem out_handler_stamps:
  assumes "map sp_what (sd_pacer st) = map wire ps" and "\<forall>p\<in>set ps. length (pk_payload p) < 2 ^ 63"
    and "ms_until_due now0 (sd_pacer st) = 0"
  shows "\<exists>n\<le>length ps. out_handler now0 now stamp st =
      Inr (map (\<lambda>i. wire ((ps ! i)\<lparr>pk_packet_send_timestamp := stamp i\<rparr>)) [0..<n],
           st\<lparr>sd_pacer := drop n (sd_pacer st)\<rparr>) \<and>
    ms_until_due (now n) (drop n (sd_pacer st)) \<noteq> 0"
  by (rule out_handler_front [OF assms])

theorem out_handler_stamps_witness:
  "\<exists>n\<le>1. out_handler 0 (\<lambda>_. 0) (\<lambda>_. 9) (sender_init (\<lambda>e. e) 0 (7 :: u32)
        \<lparr>sd_pacer := [\<lparr>sp_when = 0, sp_what = wire (empty_packet\<lparr>pk_payload := [1]\<rparr>)\<rparr>]\<rparr>) =
      Inr (map (\<lambda>i. wire (([empty_packet\<lparr>pk_payload := [1]\<rparr>] ! i)\<lparr>pk_packet_send_timestamp := 9\<rparr>)) [0..<n],
           sender_init (\<lambda>e. e) 0 7\<lparr>sd_pacer := drop n [\<lparr>sp_when = 0, sp_what = wire (empty_packet\<lparr>pk_payload := [1]\<rparr>)\<rparr>]\<rparr>)"
  using out_handler_stamps [of "sender_init (\<lambda>e. e) 0 (7 :: u32)\<lparr>sd_pacer :=
      [\<lparr>sp_when = 0, sp_what = wire (empty_packet\<lparr>pk_payload := [1]\<rparr>)\<rparr>]\<rparr>"
      "[empty_packet\<lparr>pk_payload := [1]\<rparr>]" 0 "\<lambda>_. 0" "\<lambda>_. 9"]
  by (auto simp: ms_until_due_def truncate_millis_def narrow_int_def)

end
