(* ===== verification/Receiver.thy ===== *)
theory Receiver
  imports Net_Packet
begin

text \<open>
  The packet handler of the receiver, src/src/salsify/salsify-receiver.cc.  The video
  decoder enters through what the handler calls: \<open>decode\<close> applies a frame to the player and
  \<open>minihash\<close> names the state it is in; both are arguments, and the theorems hold for every
  decoder.  The clock readings, the reported inter-packet delay (an average in floating
  point) and the initial contents of the uninitialised variable
  \<open>frame_push_timestamp_last\<close> are arguments too.  The throughput and loss-rate statistics,
  which are only printed, are left out.  An \<open>Inl\<close> is an exception that leaves the handler,
  which ends the receiver.
\<close>

section \<open>State\<close>

record 'd receiver =
  rv_player :: 'd
  rv_fragmented_frames :: "nat \<Rightarrow> fragmented_frame option"
  rv_next_frame_no :: nat
  rv_current_state :: u32
  rv_complete_states :: "u32 list"
  rv_decoders :: "u32 \<Rightarrow> 'd option"
  rv_frame_one_way_delay :: u32
  rv_frame_push_timestamp_last :: u32

definition receiver_init :: "('d \<Rightarrow> u32) \<Rightarrow> u32 \<Rightarrow> 'd \<Rightarrow> 'd receiver" where
  "receiver_init get_hash junk player =
     \<lparr>rv_player = player, rv_fragmented_frames = (\<lambda>_. None), rv_next_frame_no = 0,
      rv_current_state = get_hash player, rv_complete_states = [],
      rv_decoders = [get_hash player \<mapsto> player], rv_frame_one_way_delay = 0,
      rv_frame_push_timestamp_last = junk\<rparr>"


section \<open>The handler\<close>

definition enqueue_frame :: "(bytes \<Rightarrow> 'd \<Rightarrow> 'd result) \<Rightarrow> bytes \<Rightarrow> 'd \<Rightarrow> 'd result" where
  "enqueue_frame decode frame player = (if frame = [] then Inr player else decode frame player)"

text \<open>The loop that decodes what there is of the frames that are given up.\<close>

primrec skip_frames ::
  "(bytes \<Rightarrow> 'd \<Rightarrow> 'd result) \<Rightarrow> nat list \<Rightarrow> 'd receiver \<Rightarrow> 'd receiver result" where
  "skip_frames decode [] st = Inr st"
| "skip_frames decode (i # js) st =
     (case rv_fragmented_frames st i of
        None \<Rightarrow> skip_frames decode js st
      | Some f \<Rightarrow>
          bind_result (enqueue_frame decode (ff_partial_frame f) (rv_player st)) (\<lambda>player.
          skip_frames decode js
            (st\<lparr>rv_player := player,
                rv_fragmented_frames := (rv_fragmented_frames st)(i := None)\<rparr>)))"

definition give_up_frames ::
  "(bytes \<Rightarrow> 'd \<Rightarrow> 'd result) \<Rightarrow> ('d \<Rightarrow> u32) \<Rightarrow> u32 \<Rightarrow> packet \<Rightarrow> 'd receiver \<Rightarrow> 'd receiver result" where
  "give_up_frames decode minihash now_t packet st =
     (let st = st\<lparr>rv_frame_one_way_delay := now_t - rv_frame_push_timestamp_last st\<rparr>;
          frame_no = unat (pk_frame_no packet) in
      case rv_fragmented_frames st (rv_next_frame_no st) of
        None \<Rightarrow> Inl Out_of_range
      | Some _ \<Rightarrow>
          bind_result (skip_frames decode [rv_next_frame_no st..<frame_no] st) (\<lambda>st.
          Inr (st\<lparr>rv_next_frame_no := frame_no, rv_current_state := minihash (rv_player st)\<rparr>)))"

definition add_to_current :: "u16 \<Rightarrow> packet \<Rightarrow> 'd receiver \<Rightarrow> 'd receiver result" where
  "add_to_current connection_id packet st =
     (let n = unat (pk_frame_no packet) in
      bind_result (case rv_fragmented_frames st n of
          Some f \<Rightarrow> add_packet packet f
        | None \<Rightarrow> incoming_frame connection_id packet) (\<lambda>f.
      Inr (st\<lparr>rv_fragmented_frames := (rv_fragmented_frames st)(n \<mapsto> f)\<rparr>)))"

definition load_state :: "u32 \<Rightarrow> 'd receiver \<Rightarrow> 'd receiver" where
  "load_state expected st =
     (if rv_current_state st \<noteq> expected then
        (case rv_decoders st expected of
           Some d \<Rightarrow> st\<lparr>rv_player := d, rv_current_state := expected\<rparr>
         | None \<Rightarrow> st)
      else st)"

text \<open>The sender will not refer to a state older than the one this frame starts from.\<close>

definition forget_old_states :: "u32 \<Rightarrow> u32 \<Rightarrow> 'd receiver \<Rightarrow> 'd receiver result" where
  "forget_old_states initial_state expected st =
     (if rv_current_state st = expected \<and> expected \<noteq> initial_state then
        (let older = takeWhile (\<lambda>s. s \<noteq> expected) (rv_complete_states st);
             kept = dropWhile (\<lambda>s. s \<noteq> expected) (rv_complete_states st) in
         bind_result (check (kept \<noteq> []) Assert_failed) (\<lambda>_.
         Inr (st\<lparr>rv_decoders := (\<lambda>s. if s \<in> set older then None else rv_decoders st s),
                 rv_complete_states := kept\<rparr>)))
      else Inr st)"

definition save_state :: "('d \<Rightarrow> u32) \<Rightarrow> u32 \<Rightarrow> u32 \<Rightarrow> 'd receiver \<Rightarrow> 'd receiver" where
  "save_state minihash initial_state target st =
     (let current = minihash (rv_player st);
          st = st\<lparr>rv_current_state := current\<rparr> in
      if current = target \<and> current \<noteq> initial_state then
        st\<lparr>rv_decoders := (case rv_decoders st current of
             Some _ \<Rightarrow> rv_decoders st | None \<Rightarrow> (rv_decoders st)(current \<mapsto> rv_player st)),
           rv_complete_states := rv_complete_states st @ [current]\<rparr>
      else st)"

definition apply_complete_frame ::
  "(bytes \<Rightarrow> 'd \<Rightarrow> 'd result) \<Rightarrow> ('d \<Rightarrow> u32) \<Rightarrow> u32 \<Rightarrow> u32 \<Rightarrow> fragmented_frame \<Rightarrow> 'd receiver \<Rightarrow>
   'd receiver result" where
  "apply_complete_frame decode minihash initial_state now_t f st =
     bind_result (forget_old_states initial_state (ff_source_state f)
                    (load_state (ff_source_state f) st)) (\<lambda>st.
     bind_result (ff_frame f) (\<lambda>frame.
     bind_result (enqueue_frame decode frame (rv_player st)) (\<lambda>player.
     (let st = save_state minihash initial_state (ff_target_state f)
            (st\<lparr>rv_player := player,
                rv_frame_one_way_delay := now_t - rv_frame_push_timestamp_last st\<rparr>) in
      Inr (st\<lparr>rv_fragmented_frames := (rv_fragmented_frames st)(rv_next_frame_no st := None),
              rv_next_frame_no := rv_next_frame_no st + 1\<rparr>)))))"

text \<open>Applies the frame whose turn it is, if it is complete; the flag becomes the
  \<open>frame_finish_state\<close> of the acknowledgement.\<close>

definition decode_if_ready ::
  "(bytes \<Rightarrow> 'd \<Rightarrow> 'd result) \<Rightarrow> ('d \<Rightarrow> u32) \<Rightarrow> u32 \<Rightarrow> u32 \<Rightarrow> bool \<Rightarrow> 'd receiver \<Rightarrow>
   (bool \<times> 'd receiver) result" where
  "decode_if_ready decode minihash initial_state now_t finished st =
     (case rv_fragmented_frames st (rv_next_frame_no st) of
        Some f \<Rightarrow>
          if ff_complete f then
            bind_result (apply_complete_frame decode minihash initial_state now_t f st)
              (\<lambda>st. Inr (True, st))
          else Inr (finished, st)
      | None \<Rightarrow> Inr (finished, st))"

definition acknowledge :: "u16 \<Rightarrow> u32 \<Rightarrow> u32 \<Rightarrow> bool \<Rightarrow> packet \<Rightarrow> 'd receiver \<Rightarrow> ack_packet" where
  "acknowledge connection_id avg_delay ack_delay finished packet st =
     \<lparr>ak_connection_id = connection_id, ak_frame_no = pk_frame_no packet,
      ak_fragment_no = pk_fragment_no packet, ak_avg_delay = avg_delay,
      ak_current_state = rv_current_state st,
      ak_packet_send_timestamp = pk_packet_send_timestamp packet, ak_ack_delay = ack_delay,
      ak_frame_one_way_delay = rv_frame_one_way_delay st,
      ak_frame_finish_state = (if finished then 1 else 0),
      ak_complete_states = rv_complete_states st\<rparr>"

definition handle_packet ::
  "(bytes \<Rightarrow> 'd \<Rightarrow> 'd result) \<Rightarrow> ('d \<Rightarrow> u32) \<Rightarrow> u16 \<Rightarrow> u32 \<Rightarrow> u32 \<Rightarrow> u32 \<Rightarrow> u32 \<Rightarrow> packet \<Rightarrow>
   'd receiver \<Rightarrow> ('d receiver \<times> ack_packet option) result" where
  "handle_packet decode minihash connection_id initial_state now_t avg_delay ack_delay packet st =
     (if unat (pk_frame_no packet) < rv_next_frame_no st then Inr (st, None)
      else
        bind_result
          (if unat (pk_frame_no packet) > rv_next_frame_no st
           then bind_result (give_up_frames decode minihash now_t packet st) (\<lambda>st. Inr (True, st))
           else Inr (False, st)) (\<lambda>(finished, st).
        bind_result (add_to_current connection_id packet st) (\<lambda>st.
        bind_result (decode_if_ready decode minihash initial_state now_t finished st) (\<lambda>(finished, st).
        Inr (st\<lparr>rv_frame_push_timestamp_last := pk_frame_push_timestamp packet\<rparr>,
             Some (acknowledge connection_id avg_delay ack_delay finished packet st))))))"

text \<open>The handler on a datagram, the parser of the packet included.\<close>

definition handle_datagram ::
  "(bytes \<Rightarrow> 'd \<Rightarrow> 'd result) \<Rightarrow> ('d \<Rightarrow> u32) \<Rightarrow> u16 \<Rightarrow> u32 \<Rightarrow> u32 \<Rightarrow> u32 \<Rightarrow> u32 \<Rightarrow> bytes \<Rightarrow>
   'd receiver \<Rightarrow> ('d receiver \<times> ack_packet option) result" where
  "handle_datagram decode minihash connection_id initial_state now_t avg_delay ack_delay payload st =
     bind_result (parse_packet (chunk_of payload)) (\<lambda>packet.
     handle_packet decode minihash connection_id initial_state now_t avg_delay ack_delay packet st)"


section \<open>Invariant\<close>

text \<open>Reassemblies built from parsed packets yield frames that are not empty.\<close>

definition ff_full :: "fragmented_frame \<Rightarrow> bool" where
  "ff_full f \<longleftrightarrow> ff_fragments f \<noteq> [] \<and> (\<forall>p\<in>set (ff_fragments f). pk_valid p \<longrightarrow> pk_payload p \<noteq> [])"

lemma add_packet_full:
  "add_packet p f = Inr g \<Longrightarrow> ff_full f \<Longrightarrow> packet_ok p \<Longrightarrow> ff_full g"
  by (auto simp: add_packet_def bind_result_eq_Inr ff_full_def packet_ok_def
      split: option.splits if_splits dest!: set_update_subset_insert [THEN subsetD])

lemma incoming_frame_full:
  assumes "incoming_frame c p = Inr g" and "packet_ok p"
  shows "ff_full g"
proof -
  obtain f where f: "add_packet p f = Inr g"
    "ff_fragments f = replicate (unat (pk_fragments_in_this_frame p)) empty_packet"
    using assms(1) by (auto simp: incoming_frame_def Let_def bind_result_eq_Inr)
  have "pk_fragments_in_this_frame p \<noteq> 0" using assms(2) by (auto simp: packet_ok_def)
  then have "0 < unat (pk_fragments_in_this_frame p)" by (simp add: unat_gt_0)
  then have "ff_full f"
    by (auto simp: f(2) ff_full_def empty_packet_def)
  then show ?thesis using add_packet_full [OF f(1)] assms(2) by blast
qed

lemma ff_frame_nonempty:
  assumes "ff_wf f" and "ff_full f" and "ff_frame f = Inr x"
  shows "x \<noteq> []"
proof -
  have x: "ff_complete f" "x = concat (map pk_payload (ff_fragments f))"
    using assms(3) by (auto simp: ff_frame_def split: if_splits)
  have "filter (\<lambda>p. \<not> pk_valid p) (ff_fragments f) = []"
    using x(1) assms(1) by (simp add: ff_wf_def ff_complete_def)
  then have "pk_valid p" if "p \<in> set (ff_fragments f)" for p
    using that by (simp add: filter_empty_conv)
  moreover obtain p where "p \<in> set (ff_fragments f)"
    using assms(2) hd_in_set [of "ff_fragments f"] unfolding ff_full_def by blast
  ultimately show ?thesis
    using assms(2) unfolding x(2) ff_full_def by auto
qed

text \<open>The buffer holds at most the frame whose turn it is, a reassembly in progress.\<close>

definition buffer_ok :: "'d receiver \<Rightarrow> bool" where
  "buffer_ok st \<longleftrightarrow>
     (\<forall>n f. rv_fragmented_frames st n = Some f \<longrightarrow> n = rv_next_frame_no st \<and> ff_wf f \<and> ff_full f \<and> \<not> ff_complete f)"

text \<open>Every state the receiver names in its acknowledgements is one it can go back to.\<close>

definition states_ok :: "u32 \<Rightarrow> 'd receiver \<Rightarrow> bool" where
  "states_ok initial_state st \<longleftrightarrow>
     distinct (rv_complete_states st) \<and> initial_state \<notin> set (rv_complete_states st) \<and>
     (\<forall>s\<in>set (rv_complete_states st). rv_decoders st s \<noteq> None) \<and>
     rv_decoders st initial_state \<noteq> None"

lemma buffer_ok_init [simp]: "buffer_ok (receiver_init h junk p)"
  by (simp add: buffer_ok_def receiver_init_def)

lemma states_ok_init [simp]: "states_ok (h p) (receiver_init h junk p)"
  by (simp add: states_ok_def receiver_init_def)

lemma skip_frames_frame:
  "skip_frames decode js st = Inr st' \<Longrightarrow>
   rv_next_frame_no st' = rv_next_frame_no st \<and> rv_complete_states st' = rv_complete_states st \<and>
   rv_decoders st' = rv_decoders st \<and>
   rv_fragmented_frames st' = (\<lambda>n. if n \<in> set js then None else rv_fragmented_frames st n)"
proof (induction js arbitrary: st)
  case (Cons j js)
  show ?case
  proof (cases "rv_fragmented_frames st j")
    case None
    then show ?thesis using Cons by (auto simp: fun_eq_iff)
  next
    case (Some f)
    then obtain p where "skip_frames decode js
        (st\<lparr>rv_player := p, rv_fragmented_frames := (rv_fragmented_frames st)(j := None)\<rparr>) = Inr st'"
      using Cons.prems by (auto simp: bind_result_eq_Inr)
    from Cons.IH [OF this] show ?thesis by (auto simp: fun_eq_iff)
  qed
qed auto

lemma give_up_frames_frame:
  assumes "give_up_frames decode minihash now_t p st = Inr st'"
  shows "rv_next_frame_no st' = unat (pk_frame_no p)"
    and "rv_complete_states st' = rv_complete_states st" and "rv_decoders st' = rv_decoders st"
    and "rv_fragmented_frames st' = (\<lambda>n. if rv_next_frame_no st \<le> n \<and> n < unat (pk_frame_no p)
      then None else rv_fragmented_frames st n)"
    and "rv_current_state st' = minihash (rv_player st')"
  using assms by (auto simp: give_up_frames_def Let_def bind_result_eq_Inr fun_eq_iff
      dest!: skip_frames_frame split: option.splits)

lemma give_up_frames_buffer:
  assumes "give_up_frames decode minihash now_t p st = Inr st'" and "buffer_ok st"
    and "rv_next_frame_no st < unat (pk_frame_no p)"
  shows "rv_fragmented_frames st' = (\<lambda>_. None)"
proof
  fix n
  show "rv_fragmented_frames st' n = None"
    using assms(2,3) unfolding give_up_frames_frame(4) [OF assms(1)] buffer_ok_def
    by (cases "rv_fragmented_frames st n") auto
qed

text \<open>The shape of the buffer between adding the packet and decoding.\<close>

definition buffer_adding :: "'d receiver \<Rightarrow> bool" where
  "buffer_adding st \<longleftrightarrow>
     (\<forall>n f. rv_fragmented_frames st n = Some f \<longrightarrow> n = rv_next_frame_no st \<and> ff_wf f \<and> ff_full f)"

lemma add_to_current_buffer:
  assumes "add_to_current c p st = Inr st'" and "buffer_ok st" and "packet_ok p"
    and "unat (pk_frame_no p) = rv_next_frame_no st"
  shows "buffer_adding st' \<and> rv_next_frame_no st' = rv_next_frame_no st"
proof -
  let ?n = "unat (pk_frame_no p)"
  obtain f where f: "st' = st\<lparr>rv_fragmented_frames := (rv_fragmented_frames st)(?n \<mapsto> f)\<rparr>"
    "(case rv_fragmented_frames st ?n of Some g \<Rightarrow> add_packet p g | None \<Rightarrow> incoming_frame c p) = Inr f"
    using assms(1) by (auto simp: add_to_current_def Let_def bind_result_eq_Inr)
  have valid: "pk_valid p" using assms(3) by (simp add: packet_ok_def)
  have "ff_wf f \<and> ff_full f"
  proof (cases "rv_fragmented_frames st ?n")
    case None
    then have "incoming_frame c p = Inr f" using f(2) by simp
    then show ?thesis
      using incoming_frame_wf [OF valid, of c] incoming_frame_full [OF _ assms(3)] by auto
  next
    case (Some g)
    then have "add_packet p g = Inr f" "ff_wf g" "ff_full g"
      using f(2) assms(2) by (auto simp: buffer_ok_def)
    then show ?thesis
      using add_packet_wf [of g p] add_packet_full [of p g f] valid assms(3) by auto
  qed
  then show ?thesis
    using assms(2,4) unfolding f(1) buffer_adding_def buffer_ok_def by auto
qed

lemma load_state_frame [simp]:
  "rv_fragmented_frames (load_state e st) = rv_fragmented_frames st"
  "rv_next_frame_no (load_state e st) = rv_next_frame_no st"
  "rv_complete_states (load_state e st) = rv_complete_states st"
  "rv_decoders (load_state e st) = rv_decoders st"
  by (simp_all add: load_state_def split: option.splits)

lemma forget_old_states_frame:
  assumes "forget_old_states i e st = Inr st'"
  shows "rv_fragmented_frames st' = rv_fragmented_frames st \<and> rv_next_frame_no st' = rv_next_frame_no st \<and>
    rv_player st' = rv_player st \<and> rv_current_state st' = rv_current_state st"
  using assms by (auto simp: forget_old_states_def Let_def check_def split: if_splits)

lemma save_state_frame [simp]:
  "rv_fragmented_frames (save_state h i t st) = rv_fragmented_frames st"
  "rv_next_frame_no (save_state h i t st) = rv_next_frame_no st"
  "rv_player (save_state h i t st) = rv_player st"
  "rv_current_state (save_state h i t st) = h (rv_player st)"
  by (simp_all add: save_state_def Let_def)

lemma apply_complete_frame_buffer:
  assumes "apply_complete_frame decode minihash i now_t f st = Inr st'" and "buffer_adding st"
  shows "rv_fragmented_frames st' = (\<lambda>_. None) \<and> rv_next_frame_no st' = rv_next_frame_no st + 1"
proof -
  obtain st1 where st1: "forget_old_states i (ff_source_state f) (load_state (ff_source_state f) st) = Inr st1"
    "rv_fragmented_frames st' = (rv_fragmented_frames st1)(rv_next_frame_no st1 := None)"
    "rv_next_frame_no st' = rv_next_frame_no st1 + 1"
    using assms(1) by (auto simp: apply_complete_frame_def Let_def bind_result_eq_Inr)
  have "rv_fragmented_frames st1 = rv_fragmented_frames st" "rv_next_frame_no st1 = rv_next_frame_no st"
    using forget_old_states_frame [OF st1(1)] by simp_all
  then show ?thesis
    using assms(2) unfolding st1(2,3) buffer_adding_def by (auto simp: fun_eq_iff) (metis not_None_eq)
qed

lemma decode_if_ready_buffer:
  assumes "decode_if_ready decode minihash i now_t fin st = Inr (fin', st')" and "buffer_adding st"
  shows "buffer_ok st'"
proof (cases "rv_fragmented_frames st (rv_next_frame_no st)")
  case None
  then have "st' = st" using assms(1) by (simp add: decode_if_ready_def)
  then show ?thesis using None assms(2) by (auto simp: buffer_ok_def buffer_adding_def)
next
  case (Some f)
  show ?thesis
  proof (cases "ff_complete f")
    case True
    then have "apply_complete_frame decode minihash i now_t f st = Inr st'"
      using assms(1) Some by (simp add: decode_if_ready_def bind_result_eq_Inr)
    from apply_complete_frame_buffer [OF this assms(2)] show ?thesis
      by (simp add: buffer_ok_def)
  next
    case False
    then have "st' = st" using assms(1) Some by (simp add: decode_if_ready_def)
    then show ?thesis using Some False assms(2) by (auto simp: buffer_ok_def buffer_adding_def)
  qed
qed

lemma handle_packet_buffer:
  assumes step: "handle_packet decode minihash c i now_t avg delay p st = Inr (st', ack)"
    and ok: "buffer_ok st" and p: "packet_ok p"
  shows "buffer_ok st'"
proof (cases "unat (pk_frame_no p) < rv_next_frame_no st")
  case True
  then show ?thesis using step ok by (simp add: handle_packet_def)
next
  case False
  then obtain fin st1 st2 fin3 st3 where
    st1: "(if unat (pk_frame_no p) > rv_next_frame_no st
       then bind_result (give_up_frames decode minihash now_t p st) (\<lambda>st. Inr (True, st))
       else Inr (False, st)) = Inr (fin, st1)"
    and st2: "add_to_current c p st1 = Inr st2"
    and st3: "decode_if_ready decode minihash i now_t fin st2 = Inr (fin3, st3)"
    and st': "st' = st3\<lparr>rv_frame_push_timestamp_last := pk_frame_push_timestamp p\<rparr>"
    using step by (auto simp: handle_packet_def bind_result_eq_Inr split: prod.splits)
  have 1: "buffer_ok st1 \<and> rv_next_frame_no st1 = unat (pk_frame_no p)"
  proof (cases "unat (pk_frame_no p) > rv_next_frame_no st")
    case True
    then have "give_up_frames decode minihash now_t p st = Inr st1"
      using st1 by (simp add: bind_result_eq_Inr)
    then show ?thesis
      using give_up_frames_buffer [OF _ ok True] give_up_frames_frame(1) by (auto simp: buffer_ok_def)
  qed (use st1 ok False in auto)
  then have "buffer_adding st2"
    using add_to_current_buffer [OF st2] p by simp
  then have "buffer_ok st3"
    by (rule decode_if_ready_buffer [OF st3])
  then show ?thesis by (simp add: st' buffer_ok_def)
qed

section \<open>Frames that arrive completely\<close>

text \<open>A sequence of packets, each with its clock reading and reported delays.\<close>

type_synonym arrival = "u32 \<times> u32 \<times> u32 \<times> packet"

primrec handle_packets ::
  "(bytes \<Rightarrow> 'd \<Rightarrow> 'd result) \<Rightarrow> ('d \<Rightarrow> u32) \<Rightarrow> u16 \<Rightarrow> u32 \<Rightarrow> arrival list \<Rightarrow> 'd receiver \<Rightarrow> 'd receiver result" where
  "handle_packets decode minihash c i [] st = Inr st"
| "handle_packets decode minihash c i (a # as) st =
     (case a of (now_t, avg, delay, p) \<Rightarrow>
        bind_result (handle_packet decode minihash c i now_t avg delay p st) (\<lambda>(st, _).
        handle_packets decode minihash c i as st))"

text \<open>The receiver stands between two frames, in a state the sender may build on.\<close>

definition in_step :: "('d \<Rightarrow> u32) \<Rightarrow> u32 \<Rightarrow> 'd receiver \<Rightarrow> bool" where
  "in_step minihash i st \<longleftrightarrow>
     rv_fragmented_frames st = (\<lambda>_. None) \<and> rv_current_state st = minihash (rv_player st) \<and>
     (rv_current_state st = i \<or> rv_current_state st \<in> set (rv_complete_states st))"

text \<open>The receiver has collected the fragments in \<open>I\<close> of the next frame.\<close>

definition collecting :: "packet list \<Rightarrow> 'd receiver \<Rightarrow> nat set \<Rightarrow> 'd receiver \<Rightarrow> bool" where
  "collecting ps st0 I st \<longleftrightarrow>
     rv_player st = rv_player st0 \<and> rv_next_frame_no st = rv_next_frame_no st0 \<and>
     rv_current_state st = rv_current_state st0 \<and>
     rv_complete_states st = rv_complete_states st0 \<and> rv_decoders st = rv_decoders st0 \<and>
     rv_fragmented_frames st =
       (if I = {} then (\<lambda>_. None) else [rv_next_frame_no st0 \<mapsto> partial_view ps I])"

definition applied :: "('d \<Rightarrow> u32) \<Rightarrow> u32 \<Rightarrow> u32 \<Rightarrow> 'd \<Rightarrow> 'd receiver \<Rightarrow> 'd receiver \<Rightarrow> bool" where
  "applied minihash i target player st0 st \<longleftrightarrow>
     rv_player st = player \<and> rv_next_frame_no st = rv_next_frame_no st0 + 1 \<and>
     rv_fragmented_frames st = (\<lambda>_. None) \<and> rv_current_state st = minihash player \<and>
     (minihash player = target \<longrightarrow> in_step minihash i st)"

lemma add_to_current_collecting:
  assumes ps: "packets_of_frame ps" and j: "j < length ps" and I: "I \<subseteq> {..<length ps}"
    and no: "unat (pk_frame_no (hd ps)) = rv_next_frame_no st0" and st: "collecting ps st0 I st"
  shows "\<exists>st'. add_to_current (pk_connection_id (hd ps)) (ps ! j) st = Inr st' \<and>
    collecting ps st0 (insert j I) st'"
proof -
  have n: "unat (pk_frame_no (ps ! j)) = rv_next_frame_no st0"
    using no packets_of_frameD(7) [OF ps j] by simp
  have "(case rv_fragmented_frames st (rv_next_frame_no st0) of
      Some f \<Rightarrow> add_packet (ps ! j) f | None \<Rightarrow> incoming_frame (pk_connection_id (hd ps)) (ps ! j)) =
    Inr (partial_view ps (insert j I))"
    using st incoming_frame_view [OF ps j] add_packet_view [OF ps j I] by (simp add: collecting_def)
  then show ?thesis
    using st n by (auto simp: add_to_current_def Let_def collecting_def fun_eq_iff)
qed

lemma forget_current_state:
  assumes "s = i \<or> s \<in> set (rv_complete_states st)" and "rv_current_state st = s"
  shows "\<exists>st'. forget_old_states i s st = Inr st' \<and> rv_player st' = rv_player st"
proof (cases "s = i")
  case False
  then have "dropWhile (\<lambda>x. x \<noteq> s) (rv_complete_states st) \<noteq> []"
    using assms(1) by (auto simp: dropWhile_eq_Nil_conv)
  then show ?thesis
    using assms(2) False by (simp add: forget_old_states_def Let_def)
qed (simp add: forget_old_states_def)

lemma decode_collected:
  assumes ps: "packets_of_frame ps" and st: "collecting ps st0 {..<length ps} st"
    and step: "in_step minihash i st0" and src: "pk_source_state (hd ps) = rv_current_state st0"
    and dec: "decode (concat (map pk_payload ps)) (rv_player st0) = Inr player"
  shows "\<exists>st'. decode_if_ready decode minihash i now_t fin st = Inr (True, st') \<and>
    applied minihash i (pk_target_state (hd ps)) player st0 st'"
proof -
  let ?f = "partial_view ps {..<length ps}"
  let ?s = "rv_current_state st0"
  have ne: "{..<length ps} \<noteq> {}" using ps by (auto simp: packets_of_frame_def)
  have buf: "rv_fragmented_frames st (rv_next_frame_no st) = Some ?f"
    using st ne by (simp add: collecting_def)
  have comp: "ff_complete ?f" using partial_view_complete [OF ps] by simp
  then have frame: "ff_frame ?f = Inr (concat (map pk_payload ps))"
    using partial_view_full [of ps] by (simp add: ff_frame_def) (simp add: partial_view_def)
  have payload: "concat (map pk_payload ps) \<noteq> []"
    using packets_of_frameD(1) [OF ps, of 0] ps
    by (cases ps) (auto simp: packets_of_frame_def packet_ok_def)
  have srcf: "ff_source_state ?f = ?s" "ff_target_state ?f = pk_target_state (hd ps)"
    using src by (simp_all add: partial_view_def)
  have load: "load_state ?s st = st" using st by (simp add: load_state_def collecting_def)
  obtain st1 where st1: "forget_old_states i ?s st = Inr st1" "rv_player st1 = rv_player st"
    using forget_current_state [of ?s i st] step st by (auto simp: in_step_def collecting_def)
  have frame1: "rv_fragmented_frames st1 = rv_fragmented_frames st" "rv_next_frame_no st1 = rv_next_frame_no st"
    using forget_old_states_frame [OF st1(1)] by simp_all
  let ?st2 = "save_state minihash i (pk_target_state (hd ps))
      (st1\<lparr>rv_player := player, rv_frame_one_way_delay := now_t - rv_frame_push_timestamp_last st1\<rparr>)"
  let ?st3 = "?st2\<lparr>rv_fragmented_frames := (rv_fragmented_frames ?st2)(rv_next_frame_no ?st2 := None),
      rv_next_frame_no := rv_next_frame_no ?st2 + 1\<rparr>"
  have "rv_player st1 = rv_player st0"
    using st1(2) st by (simp add: collecting_def)
  then have "enqueue_frame decode (concat (map pk_payload ps)) (rv_player st1) = Inr player"
    using dec payload unfolding enqueue_frame_def by (simp only: if_False)
  then have "apply_complete_frame decode minihash i now_t ?f st = Inr ?st3"
    by (simp add: apply_complete_frame_def srcf load st1(1) frame Let_def)
  moreover have "rv_fragmented_frames ?st3 = (\<lambda>_. None)"
    using st ne by (auto simp: frame1 collecting_def fun_eq_iff)
  moreover have "minihash player = pk_target_state (hd ps) \<Longrightarrow>
      minihash player = i \<or> minihash player \<in> set (rv_complete_states ?st3)"
    by (simp add: save_state_def Let_def)
  ultimately show ?thesis
    using buf comp st by (intro exI [of _ ?st3])
      (auto simp: decode_if_ready_def applied_def in_step_def frame1 collecting_def)
qed

lemma handle_current:
  "unat (pk_frame_no p) = rv_next_frame_no st \<Longrightarrow> add_to_current c p st = Inr st1 \<Longrightarrow>
   decode_if_ready decode minihash i now_t False st1 = Inr (fin, st2) \<Longrightarrow>
   handle_packet decode minihash c i now_t avg delay p st =
     Inr (st2\<lparr>rv_frame_push_timestamp_last := pk_frame_push_timestamp p\<rparr>,
          Some (acknowledge c avg delay fin p st2))"
  by (simp add: handle_packet_def)

lemma applied_timestamp [simp]:
  "applied minihash i t pl st0 (st\<lparr>rv_frame_push_timestamp_last := x\<rparr>) = applied minihash i t pl st0 st"
  by (simp add: applied_def in_step_def)

lemma collecting_timestamp [simp]:
  "collecting ps st0 I (st\<lparr>rv_frame_push_timestamp_last := x\<rparr>) = collecting ps st0 I st"
  by (simp add: collecting_def)

text \<open>After the fragments in \<open>I\<close> the frame is applied if they are all there, else collected.\<close>

definition progressed ::
  "('d \<Rightarrow> u32) \<Rightarrow> u32 \<Rightarrow> packet list \<Rightarrow> 'd \<Rightarrow> 'd receiver \<Rightarrow> nat set \<Rightarrow> 'd receiver \<Rightarrow> bool" where
  "progressed minihash i ps player st0 I st \<longleftrightarrow>
     (if I = {..<length ps} then applied minihash i (pk_target_state (hd ps)) player st0 st
      else collecting ps st0 I st)"

lemma handle_collecting:
  assumes ps: "packets_of_frame ps" and j: "j < length ps" and I: "I \<subset> {..<length ps}"
    and no: "unat (pk_frame_no (hd ps)) = rv_next_frame_no st0"
    and st: "collecting ps st0 I st"
    and step: "in_step minihash i st0" and src: "pk_source_state (hd ps) = rv_current_state st0"
    and dec: "decode (concat (map pk_payload ps)) (rv_player st0) = Inr player"
  shows "\<exists>st' ack. handle_packet decode minihash (pk_connection_id (hd ps)) i now_t avg delay (ps ! j) st =
      Inr (st', Some ack) \<and> progressed minihash i ps player st0 (insert j I) st'"
proof -
  have n: "unat (pk_frame_no (ps ! j)) = rv_next_frame_no st"
    using no st packets_of_frameD(7) [OF ps j] by (simp add: collecting_def)
  have sub: "I \<subseteq> {..<length ps}" using I by blast
  obtain st1 where st1: "add_to_current (pk_connection_id (hd ps)) (ps ! j) st = Inr st1"
    "collecting ps st0 (insert j I) st1"
    using add_to_current_collecting [OF ps j sub no st] by blast
  have "\<exists>fin st2. decode_if_ready decode minihash i now_t False st1 = Inr (fin, st2) \<and>
      progressed minihash i ps player st0 (insert j I) st2"
  proof (cases "insert j I = {..<length ps}")
    case True
    have "collecting ps st0 {..<length ps} st1" using st1(2) by (simp only: True)
    from decode_collected [where decode = decode, OF ps this step src dec, of now_t False]
    show ?thesis unfolding progressed_def if_P [OF True] by blast
  next
    case False
    have "rv_fragmented_frames st1 (rv_next_frame_no st1) = Some (partial_view ps (insert j I))"
      using st1(2) by (simp add: collecting_def)
    moreover have "\<not> ff_complete (partial_view ps (insert j I))"
      using partial_view_complete [OF ps, of "insert j I"] False sub j by simp
    ultimately have "decode_if_ready decode minihash i now_t False st1 = Inr (False, st1)"
      by (simp add: decode_if_ready_def)
    then show ?thesis unfolding progressed_def if_not_P [OF False] using st1(2) by blast
  qed
  then obtain fin st2 where st2: "decode_if_ready decode minihash i now_t False st1 = Inr (fin, st2)"
    "progressed minihash i ps player st0 (insert j I) st2" by blast
  show ?thesis
    unfolding handle_current [OF n st1(1) st2(1)] using st2(2) by (simp add: progressed_def)
qed

lemma handle_stale:
  "unat (pk_frame_no p) < rv_next_frame_no st \<Longrightarrow>
   handle_packet decode minihash c i now_t avg delay p st = Inr (st, None)"
  by (simp add: handle_packet_def)

lemma handle_stale_packets:
  "\<forall>a\<in>set as. unat (pk_frame_no (snd (snd (snd a)))) < rv_next_frame_no st \<Longrightarrow>
   handle_packets decode minihash c i as st = Inr st"
  by (induction as) (auto simp: handle_stale split: prod.splits)

lemma handle_packets_collecting:
  assumes ps: "packets_of_frame ps" 
    and no: "unat (pk_frame_no (hd ps)) = rv_next_frame_no st0"
    and step: "in_step minihash i st0" and src: "pk_source_state (hd ps) = rv_current_state st0"
    and dec: "decode (concat (map pk_payload ps)) (rv_player st0) = Inr player"
  shows "\<lbrakk>\<forall>a\<in>set as. \<exists>j<length ps. snd (snd (snd a)) = ps ! j;
      I \<union> {j. j < length ps \<and> ps ! j \<in> (snd \<circ> snd \<circ> snd) ` set as} = {..<length ps};
      I \<subset> {..<length ps}; collecting ps st0 I st\<rbrakk> \<Longrightarrow>
    \<exists>st'. handle_packets decode minihash (pk_connection_id (hd ps)) i as st = Inr st' \<and>
      applied minihash i (pk_target_state (hd ps)) player st0 st'"
proof (induction as arbitrary: I st)
  case (Cons a as)
  obtain now_t avg delay p where a: "a = (now_t, avg, delay, p)" by (cases a)
  obtain j where j: "j < length ps" "p = ps ! j" using Cons.prems(1) a by auto
  have inj: "k = j" if "k < length ps" "ps ! k = ps ! j" for k
    using packets_of_frameD(2) [OF ps that(1)] unfolding that(2) packets_of_frameD(2) [OF ps j(1)] by (rule sym)
  have "\<exists>st1 ack. handle_packet decode minihash (pk_connection_id (hd ps)) i now_t avg delay p st =
      Inr (st1, Some ack) \<and> progressed minihash i ps player st0 (insert j I) st1"
    unfolding j(2)
    by (rule handle_collecting [where decode = decode, OF ps j(1) Cons.prems(3) no Cons.prems(4) step src dec])
  then obtain st1 ack where st1: "handle_packet decode minihash (pk_connection_id (hd ps)) i now_t avg delay p st =
      Inr (st1, Some ack)" "progressed minihash i ps player st0 (insert j I) st1"
    by blast
  show ?case
  proof (cases "insert j I = {..<length ps}")
    case True
    then have app: "applied minihash i (pk_target_state (hd ps)) player st0 st1"
      using st1(2) by (simp only: progressed_def if_True)
    have "unat (pk_frame_no (snd (snd (snd b)))) < rv_next_frame_no st1" if "b \<in> set as" for b
    proof -
      obtain k where "k < length ps" "snd (snd (snd b)) = ps ! k"
        using bspec [OF Cons.prems(1), of b] \<open>b \<in> set as\<close> by auto
      then show ?thesis
        using app no packets_of_frameD(7) [OF ps, of k] by (simp add: applied_def)
    qed
    then have "handle_packets decode minihash (pk_connection_id (hd ps)) i as st1 = Inr st1"
      by (intro handle_stale_packets) blast
    then show ?thesis using st1(1) app by (simp add: a)
  next
    case False
    then have coll: "collecting ps st0 (insert j I) st1"
      using st1(2) by (simp only: progressed_def if_False)
    have sub: "insert j I \<subset> {..<length ps}" using False j(1) Cons.prems(3) by auto
    have all: "insert j I \<union> {k. k < length ps \<and> ps ! k \<in> (snd \<circ> snd \<circ> snd) ` set as} = {..<length ps}"
    proof -
      have "{k. k < length ps \<and> ps ! k \<in> (snd \<circ> snd \<circ> snd) ` set (a # as)} \<subseteq>
          insert j {k. k < length ps \<and> ps ! k \<in> (snd \<circ> snd \<circ> snd) ` set as}"
        using inj by (auto simp: a j(2))
      then show ?thesis using Cons.prems(2) j(1) by blast
    qed
    have rest: "\<forall>b\<in>set as. \<exists>k<length ps. snd (snd (snd b)) = ps ! k"
      using Cons.prems(1) by (simp only: list.set ball_simps) blast
    from Cons.IH [OF rest all sub coll] show ?thesis
      using st1(1) by (simp only: a handle_packets.simps prod.case bind_result_simps)
  qed
qed auto


section \<open>The states on offer\<close>

lemma forget_old_states_ok:
  assumes "forget_old_states i e st = Inr st'" and "states_ok i st"
  shows "states_ok i st'" and "set (rv_complete_states st') \<subseteq> set (rv_complete_states st)"
proof -
  have *: "states_ok i st' \<and> set (rv_complete_states st') \<subseteq> set (rv_complete_states st)"
  proof (cases "rv_current_state st = e \<and> e \<noteq> i")
    case False
    then show ?thesis using assms by (auto simp: forget_old_states_def)
  next
    case True
    let ?cs = "rv_complete_states st"
    let ?old = "takeWhile (\<lambda>s. s \<noteq> e) ?cs" and ?new = "dropWhile (\<lambda>s. s \<noteq> e) ?cs"
    have "distinct (?old @ ?new)" using assms(2) by (simp add: states_ok_def)
    then have "distinct ?new" "\<And>s. s \<in> set ?new \<Longrightarrow> s \<notin> set ?old" by (auto simp del: takeWhile_dropWhile_id)
    moreover have "set ?new \<subseteq> set ?cs" "set ?old \<subseteq> set ?cs"
      using set_dropWhileD set_takeWhileD by fastforce+
    moreover have "st' = st\<lparr>rv_decoders := (\<lambda>s. if s \<in> set ?old then None else rv_decoders st s),
        rv_complete_states := ?new\<rparr>"
      using assms(1) True by (auto simp: forget_old_states_def Let_def check_def split: if_splits)
    ultimately show ?thesis
      using assms(2) unfolding states_ok_def by auto
  qed
  then show "states_ok i st'" "set (rv_complete_states st') \<subseteq> set (rv_complete_states st)" by simp_all
qed

lemma load_state_ok [simp]: "states_ok i (load_state e st) = states_ok i st"
  by (simp add: states_ok_def)

lemma save_state_ok:
  assumes "states_ok i st" and "h (rv_player st) \<notin> set (rv_complete_states st)"
  shows "states_ok i (save_state h i t st)"
  using assms by (auto simp: states_ok_def save_state_def Let_def split: option.splits)

lemma states_ok_cong:
  "states_ok i st \<Longrightarrow> rv_complete_states st' = rv_complete_states st \<Longrightarrow> rv_decoders st' = rv_decoders st \<Longrightarrow>
   states_ok i st'"
  by (simp add: states_ok_def)

lemma add_to_current_states:
  assumes "add_to_current c p st = Inr st'" and "states_ok i st"
  shows "states_ok i st' \<and> rv_complete_states st' = rv_complete_states st"
  using assms by (auto simp: add_to_current_def Let_def bind_result_eq_Inr states_ok_def)

lemma apply_complete_frame_states:
  assumes "apply_complete_frame decode minihash i now_t f st = Inr st'" and "states_ok i st"
    and "minihash (rv_player st') \<notin> set (rv_complete_states st)"
  shows "states_ok i st'"
proof -
  obtain st1 frame player where st1: "forget_old_states i (ff_source_state f) (load_state (ff_source_state f) st) = Inr st1"
    and frame: "ff_frame f = Inr frame"
    and dec: "enqueue_frame decode frame (rv_player st1) = Inr player"
    and st': "st' = (let st = save_state minihash i (ff_target_state f)
            (st1\<lparr>rv_player := player,
                rv_frame_one_way_delay := now_t - rv_frame_push_timestamp_last st1\<rparr>) in
      st\<lparr>rv_fragmented_frames := (rv_fragmented_frames st)(rv_next_frame_no st := None),
              rv_next_frame_no := rv_next_frame_no st + 1\<rparr>)"
    using assms(1) by (auto simp: apply_complete_frame_def Let_def bind_result_eq_Inr)
  have ok1: "states_ok i st1" and sub: "set (rv_complete_states st1) \<subseteq> set (rv_complete_states st)"
    using forget_old_states_ok [OF st1] assms(2) by simp_all
  have "rv_player st' = player"
    unfolding st' Let_def by (simp add: save_state_def Let_def split: option.splits)
  then have new: "minihash player \<notin> set (rv_complete_states st1)"
    using assms(3) sub by blast
  have "states_ok i (st1\<lparr>rv_player := player, rv_frame_one_way_delay := now_t - rv_frame_push_timestamp_last st1\<rparr>)"
    by (rule states_ok_cong [OF ok1]) simp_all
  from save_state_ok [OF this, of minihash "ff_target_state f"] new show ?thesis
    unfolding st' Let_def by (auto intro: states_ok_cong)
qed

lemma decode_if_ready_states:
  assumes "decode_if_ready decode minihash i now_t fin st = Inr (fin', st')" and "states_ok i st"
    and "buffer_adding st"
    and "rv_next_frame_no st' = Suc (rv_next_frame_no st) \<Longrightarrow> minihash (rv_player st') \<notin> set (rv_complete_states st)"
  shows "states_ok i st'"
proof (cases "\<exists>f. rv_fragmented_frames st (rv_next_frame_no st) = Some f \<and> ff_complete f")
  case False
  then have "st' = st" using assms(1) by (auto simp: decode_if_ready_def split: option.splits if_splits)
  then show ?thesis using assms(2) by simp
next
  case True
  then obtain f where f: "rv_fragmented_frames st (rv_next_frame_no st) = Some f" "ff_complete f" by blast
  then have "apply_complete_frame decode minihash i now_t f st = Inr st'"
    using assms(1) by (simp add: decode_if_ready_def bind_result_eq_Inr)
  from apply_complete_frame_buffer [OF this assms(3)] have "minihash (rv_player st') \<notin> set (rv_complete_states st)"
    using assms(4) by simp
  from apply_complete_frame_states [OF \<open>apply_complete_frame decode minihash i now_t f st = Inr st'\<close> assms(2) this]
  show ?thesis .
qed

text \<open>The stages of a handled packet that is not stale.\<close>

lemma handle_packet_stages:
  assumes step: "handle_packet decode minihash c i now_t avg delay p st = Inr (st', ack)"
    and ok: "buffer_ok st" and p: "packet_ok p" and "\<not> unat (pk_frame_no p) < rv_next_frame_no st"
  obtains fin st1 st2 fin3 st3 where
    "rv_complete_states st1 = rv_complete_states st" "rv_decoders st1 = rv_decoders st"
    "add_to_current c p st1 = Inr st2" "buffer_adding st2" "rv_next_frame_no st2 = unat (pk_frame_no p)"
    "decode_if_ready decode minihash i now_t fin st2 = Inr (fin3, st3)"
    "st' = st3\<lparr>rv_frame_push_timestamp_last := pk_frame_push_timestamp p\<rparr>"
    "ack = Some (acknowledge c avg delay fin3 p st3)"
proof -
  obtain fin st1 st2 fin3 st3 where
    st1: "(if unat (pk_frame_no p) > rv_next_frame_no st
       then bind_result (give_up_frames decode minihash now_t p st) (\<lambda>st. Inr (True, st))
       else Inr (False, st)) = Inr (fin, st1)"
    and st2: "add_to_current c p st1 = Inr st2"
    and st3: "decode_if_ready decode minihash i now_t fin st2 = Inr (fin3, st3)"
    and st': "st' = st3\<lparr>rv_frame_push_timestamp_last := pk_frame_push_timestamp p\<rparr>"
    and ack: "ack = Some (acknowledge c avg delay fin3 p st3)"
    using step assms(4) by (auto simp: handle_packet_def bind_result_eq_Inr split: prod.splits)
  have 1: "buffer_ok st1 \<and> rv_next_frame_no st1 = unat (pk_frame_no p) \<and>
    rv_complete_states st1 = rv_complete_states st \<and> rv_decoders st1 = rv_decoders st"
  proof (cases "unat (pk_frame_no p) > rv_next_frame_no st")
    case True
    then have "give_up_frames decode minihash now_t p st = Inr st1"
      using st1 by (simp add: bind_result_eq_Inr)
    then show ?thesis
      using give_up_frames_buffer [OF _ ok True] give_up_frames_frame(1,2,3) by (auto simp: buffer_ok_def)
  qed (use st1 ok assms(4) in auto)
  then have "buffer_adding st2" "rv_next_frame_no st2 = unat (pk_frame_no p)"
    using add_to_current_buffer [OF st2] p by simp_all
  with 1 st2 st3 st' ack show ?thesis using that by blast
qed


lemma frame_applied:
  assumes "packets_of_frame ps" and "in_step minihash i st"
    and "unat (pk_frame_no (hd ps)) = rv_next_frame_no st"
    and "pk_source_state (hd ps) = rv_current_state st"
    and "decode (concat (map pk_payload ps)) (rv_player st) = Inr player"
    and "(snd \<circ> snd \<circ> snd) ` set arrivals = set ps"
  shows "\<exists>st'. handle_packets decode minihash (pk_connection_id (hd ps)) i arrivals st = Inr st' \<and>
    rv_player st' = player \<and> rv_next_frame_no st' = rv_next_frame_no st + 1 \<and>
    rv_fragmented_frames st' = (\<lambda>_. None) \<and> rv_current_state st' = minihash player \<and>
    (minihash player = pk_target_state (hd ps) \<longrightarrow> in_step minihash i st')"
proof -
  have members: "\<forall>a\<in>set arrivals. \<exists>j<length ps. snd (snd (snd a)) = ps ! j"
  proof
    fix a assume "a \<in> set arrivals"
    then have "(snd \<circ> snd \<circ> snd) a \<in> set ps" using assms(6) by blast
    then show "\<exists>j<length ps. snd (snd (snd a)) = ps ! j" by (auto simp: in_set_conv_nth)
  qed
  have all: "{} \<union> {j. j < length ps \<and> ps ! j \<in> (snd \<circ> snd \<circ> snd) ` set arrivals} = {..<length ps}"
    unfolding assms(6) by auto
  have ne: "{} \<subset> {..<length ps}" using assms(1) by (auto simp: packets_of_frame_def)
  have coll: "collecting ps st {} st" using assms(2) by (simp add: collecting_def in_step_def)
  from handle_packets_collecting [where decode = decode, OF assms(1,3,2,4,5) members all ne coll]
  show ?thesis unfolding applied_def by blast
qed


section \<open>Properties\<close>

definition example_packet :: "u16 \<Rightarrow> packet" where
  "example_packet i = empty_packet\<lparr>pk_valid := True, pk_fragment_no := i, pk_fragments_in_this_frame := 2,
     pk_target_state := 2, pk_payload := [ucast i]\<rparr>"

text \<open>C15: Frames are applied whatever order their fragments arrive in.  Between two frames, when all
  fragments of the next frame arrive in any order and with any repetitions, and the frame starts from
  the state the receiver is in, the receiver never fails, decodes exactly the frame's bytes once, moves
  on to the next frame with an empty buffer, and, when the result is the state the sender announced,
  is again between two frames in a state it offers to the sender.\<close>

theorem frame_applied_once:
  assumes "packets_of_frame ps" and "in_step minihash i st"
    and "unat (pk_frame_no (hd ps)) = rv_next_frame_no st"
    and "pk_source_state (hd ps) = rv_current_state st"
    and "decode (concat (map pk_payload ps)) (rv_player st) = Inr player"
    and "(snd \<circ> snd \<circ> snd) ` set arrivals = set ps"
  shows "\<exists>st'. handle_packets decode minihash (pk_connection_id (hd ps)) i arrivals st = Inr st' \<and>
    rv_player st' = player \<and> rv_next_frame_no st' = rv_next_frame_no st + 1 \<and>
    rv_fragmented_frames st' = (\<lambda>_. None) \<and> rv_current_state st' = minihash player \<and>
    (minihash player = pk_target_state (hd ps) \<longrightarrow> in_step minihash i st')"
  by (rule frame_applied [where decode = decode, OF assms])

theorem frame_applied_once_witness:
  "\<exists>st'. handle_packets (\<lambda>frame d. Inr (d @ frame)) (\<lambda>d. word_of_nat (length d)) 0 0
      [(1, 0, 0, example_packet 1), (2, 0, 0, example_packet 0), (3, 0, 0, example_packet 1)]
      (receiver_init (\<lambda>d. word_of_nat (length d)) 5 []) = Inr st' \<and>
    rv_player st' = [0, 1] \<and> rv_next_frame_no st' = 1 \<and> rv_current_state st' = 2"
proof -
  let ?ps = "[example_packet 0, example_packet 1]"
  have less_two: "(\<forall>i<length ?ps. P i) \<longleftrightarrow> P 0 \<and> P 1" for P
    by (auto simp: less_Suc_eq)
  have "packets_of_frame ?ps"
    unfolding packets_of_frame_def less_two by (simp add: example_packet_def empty_packet_def packet_ok_def)
  then show ?thesis
    using frame_applied_once [of ?ps "\<lambda>d. word_of_nat (length d)" 0
        "receiver_init (\<lambda>d. word_of_nat (length d)) 5 []" "\<lambda>frame d. Inr (d @ frame)" "[0, 1]"
        "[(1, 0, 0, example_packet 1), (2, 0, 0, example_packet 0), (3, 0, 0, example_packet 1)]"]
    by (auto simp: receiver_init_def in_step_def example_packet_def empty_packet_def)
qed

text \<open>The reassembly buffer stays bounded.  Whatever packet arrives, when the handler returns the
  buffer holds nothing but at most one reassembly, of the frame whose turn it is, well formed and
  still incomplete.\<close>

theorem buffer_invariant:
  assumes "length payload < 2 ^ 64" and "handle_datagram decode minihash c i now_t avg delay payload st = Inr (st', ack)"
    and "buffer_ok st"
  shows "buffer_ok st'"
proof -
  obtain p where p: "parse_packet (chunk_of payload) = Inr p"
    "handle_packet decode minihash c i now_t avg delay p st = Inr (st', ack)"
    using assms(2) by (auto simp: handle_datagram_def bind_result_eq_Inr)
  have "packet_ok p"
    using parse_packet_cases [of "chunk_of payload"] p(1) assms(1) by auto
  then show ?thesis by (rule handle_packet_buffer [OF p(2) assms(3)])
qed

theorem buffer_invariant_witness:
  "\<exists>st' ack. handle_datagram (\<lambda>frame d. Inr (d @ frame)) (\<lambda>d. word_of_nat (length d)) 0 0 1 0 0
      (packet_header (example_packet 0) @ pk_payload (example_packet 0))
      (receiver_init (\<lambda>d. word_of_nat (length d)) 5 []) = Inr (st', ack) \<and> buffer_ok st'"
proof -
  let ?st = "receiver_init (\<lambda>d. word_of_nat (length d)) 5 ([] :: bytes)"
  have "packet_ok (example_packet 0)"
    by (simp add: example_packet_def packet_ok_def)
  then have "parse_packet (chunk_of (packet_header (example_packet 0) @ pk_payload (example_packet 0))) =
      Inr (example_packet 0)"
    by (rule parse_wire) (simp_all add: example_packet_def empty_packet_def)
  then have "\<exists>r. handle_datagram (\<lambda>frame d. Inr (d @ frame)) (\<lambda>d. word_of_nat (length d)) 0 0 1 0 0
      (packet_header (example_packet 0) @ pk_payload (example_packet 0)) ?st = Inr r"
    by (simp add: handle_datagram_def handle_packet_def add_to_current_def incoming_frame_def add_packet_def
        sanity_check_def check_def decode_if_ready_def ff_complete_def receiver_init_def Let_def
        example_packet_def empty_packet_def at_def)
  moreover have "buffer_ok st'" if "handle_datagram (\<lambda>frame d. Inr (d @ frame)) (\<lambda>d. word_of_nat (length d)) 0 0 1 0 0
      (packet_header (example_packet 0) @ pk_payload (example_packet 0)) ?st = Inr (st', ack)" for st' ack
    by (rule buffer_invariant [OF _ that buffer_ok_init]) (simp add: example_packet_def)
  ultimately show ?thesis by fast
qed

text \<open>C40: Every state an acknowledgement offers can be restored.  When a receiver that keeps the invariants, as
  a new one does, handles a parsed packet, and the frame that the packet completes, if it completes one, leaves the decoder in a state that was not on offer already, the receiver keeps a
  decoder stored for every state of the list that the acknowledgement carries, and for the initial state; the list
  stays free of repetitions and of the initial state, so that the same holds after the next packet.\<close>

theorem offered_states_restorable:
  assumes "handle_packet decode minihash c i now_t avg delay p st = Inr (st', Some ack)"
    and "buffer_ok st" and "packet_ok p" and "states_ok i st"
    and "rv_next_frame_no st' = unat (pk_frame_no p) + 1 \<Longrightarrow> minihash (rv_player st') \<notin> set (rv_complete_states st)"
  shows "states_ok i st' \<and> ak_complete_states ack = rv_complete_states st' \<and>
    (\<forall>s\<in>set (ak_complete_states ack). rv_decoders st' s \<noteq> None)"
proof -
  have fresh: "\<not> unat (pk_frame_no p) < rv_next_frame_no st"
    using assms(1) by (auto simp: handle_packet_def)
  obtain fin st1 st2 fin3 st3 where *:
    "rv_complete_states st1 = rv_complete_states st" "rv_decoders st1 = rv_decoders st"
    "add_to_current c p st1 = Inr st2" "buffer_adding st2" "rv_next_frame_no st2 = unat (pk_frame_no p)"
    "decode_if_ready decode minihash i now_t fin st2 = Inr (fin3, st3)"
    "st' = st3\<lparr>rv_frame_push_timestamp_last := pk_frame_push_timestamp p\<rparr>"
    "Some ack = Some (acknowledge c avg delay fin3 p st3)"
    by (rule handle_packet_stages [OF assms(1,2,3) fresh])
  have "states_ok i st1" by (rule states_ok_cong [OF assms(4) *(1,2)])
  then have "states_ok i st2" "rv_complete_states st2 = rv_complete_states st"
    using add_to_current_states [OF *(3)] *(1) by simp_all
  then have "states_ok i st3"
    using decode_if_ready_states [OF *(6) _ *(4)] assms(5) *(5) unfolding *(7) by simp
  then show ?thesis
    using *(8) unfolding *(7) by (simp add: states_ok_def acknowledge_def)
qed

text \<open>A receiver that has applied one frame, which led to the state 2, and the only packet of the next one.\<close>

definition one_frame_applied :: "bytes receiver" where
  "one_frame_applied = (receiver_init (\<lambda>d. word_of_nat (length d)) 5 [])
     \<lparr>rv_player := [0, 0], rv_current_state := 2, rv_next_frame_no := 1, rv_complete_states := [2],
      rv_decoders := [0 \<mapsto> [], 2 \<mapsto> [0, 0]]\<rparr>"

definition second_frame :: packet where
  "second_frame = (example_packet 0)\<lparr>pk_frame_no := 1, pk_fragments_in_this_frame := 1, pk_source_state := 2,
     pk_target_state := 3\<rparr>"

theorem offered_states_restorable_witness:
  "\<exists>st' ack. handle_packet (\<lambda>frame d. Inr (d @ frame)) (\<lambda>d. word_of_nat (length d)) 0 0 1 0 0
      second_frame one_frame_applied = Inr (st', Some ack) \<and> rv_next_frame_no st' = 2 \<and>
    ak_complete_states ack = [2, 3] \<and> rv_decoders st' 2 \<noteq> None \<and> rv_decoders st' 3 \<noteq> None"
proof -
  let ?step = "handle_packet (\<lambda>frame d. Inr (d @ frame)) (\<lambda>d. word_of_nat (length d)) 0 0 1 0 0 second_frame one_frame_applied"
  have "\<exists>st' ack. ?step = Inr (st', Some ack) \<and> rv_next_frame_no st' = 2 \<and> rv_player st' = [0, 0, 0] \<and>
      rv_complete_states st' = [2, 3]"
    by (simp add: handle_packet_def add_to_current_def incoming_frame_def add_packet_def sanity_check_def check_def
        decode_if_ready_def apply_complete_frame_def load_state_def forget_old_states_def enqueue_frame_def
        ff_frame_def ff_complete_def receiver_init_def Let_def example_packet_def empty_packet_def at_def
        one_frame_applied_def second_frame_def save_state_def)
  then obtain st' ack where step: "?step = Inr (st', Some ack)" "rv_next_frame_no st' = 2" "rv_player st' = [0, 0, 0]"
    "rv_complete_states st' = [2, 3]" by blast
  have "states_ok 0 st' \<and> ak_complete_states ack = rv_complete_states st' \<and>
      (\<forall>s\<in>set (ak_complete_states ack). rv_decoders st' s \<noteq> None)"
  proof (rule offered_states_restorable [OF step(1)])
    show "buffer_ok one_frame_applied" by (simp add: one_frame_applied_def buffer_ok_def receiver_init_def)
    show "packet_ok second_frame" by (simp add: second_frame_def example_packet_def packet_ok_def)
    show "states_ok 0 one_frame_applied" by (simp add: one_frame_applied_def states_ok_def)
    show "word_of_nat (length (rv_player st')) \<notin> set (rv_complete_states one_frame_applied)"
      unfolding step(3) by (simp add: one_frame_applied_def)
  qed
  then show ?thesis using step by (intro exI [of _ st'] exI [of _ ack]) simp
qed

text \<open>Without that the offer can be void.  When a state the receiver has completed twice is older
  than the source of the frame being applied, its decoder is dropped with the older entry of the list
  while the younger entry goes on being offered.\<close>

theorem forgotten_state_still_offered:
  assumes "rv_complete_states st = s # xs @ e # ys" and "s \<in> set ys"
    and "e \<notin> set (s # xs)" and "rv_current_state st = e" and "e \<noteq> i"
  shows "\<exists>st'. forget_old_states i e st = Inr st' \<and> s \<in> set (rv_complete_states st') \<and> rv_decoders st' s = None"
proof -
  have "takeWhile (\<lambda>x. x \<noteq> e) (s # xs @ e # ys) = s # xs" "dropWhile (\<lambda>x. x \<noteq> e) (s # xs @ e # ys) = e # ys"
    using assms(3) by (auto simp: takeWhile_append dropWhile_append takeWhile_eq_all_conv dropWhile_eq_Nil_conv)
  then show ?thesis
    using assms by (simp add: forget_old_states_def Let_def)
qed

theorem forgotten_state_still_offered_witness:
  "\<exists>st'. forget_old_states 0 8 (receiver_init (\<lambda>_. 0) 5 [1 :: u8]
      \<lparr>rv_current_state := 8, rv_complete_states := [7, 8, 7], rv_decoders := [7 \<mapsto> [1], 8 \<mapsto> [2]]\<rparr>) = Inr st' \<and>
    7 \<in> set (rv_complete_states st') \<and> rv_decoders st' 7 = None"
  by (rule forgotten_state_still_offered [of _ 7 "[]" 8 "[7]"]) simp_all

text \<open>A lost frame can end the receiver.  When no packet at all of the next frame has arrived, the
  first packet of a later frame makes the handler read a missing entry of the buffer, which throws.\<close>

theorem skipping_unseen_frame_fails:
  assumes "rv_fragmented_frames st (rv_next_frame_no st) = None"
    and "unat (pk_frame_no p) > rv_next_frame_no st"
  shows "handle_packet decode minihash c i now_t avg delay p st = Inl Out_of_range"
  using assms by (simp add: handle_packet_def give_up_frames_def)

theorem skipping_unseen_frame_fails_witness:
  "handle_packet (\<lambda>frame d. Inr (d @ frame)) (\<lambda>d. word_of_nat (length d)) 0 0 1 0 0
      (example_packet 0\<lparr>pk_frame_no := 1\<rparr>) (receiver_init (\<lambda>d. word_of_nat (length d)) 5 []) = Inl Out_of_range"
  by (rule skipping_unseen_frame_fails) (simp_all add: receiver_init_def example_packet_def)

end
