(* ===== verification/Session.thy ===== *)
theory Session
  imports Sender Receiver
begin

text \<open>
  The sender and the receiver together: one frame from the encoder's output, through the
  fragmentation, the pacer and the network, to the receiver's decoder.  The network delivers
  the datagrams in any order and as often as it likes, but at least once each.
\<close>

primrec handle_datagrams ::
  "(bytes \<Rightarrow> 'd \<Rightarrow> 'd result) \<Rightarrow> ('d \<Rightarrow> u32) \<Rightarrow> u16 \<Rightarrow> u32 \<Rightarrow> (u32 \<times> u32 \<times> u32 \<times> bytes) list \<Rightarrow>
   'd receiver \<Rightarrow> 'd receiver result" where
  "handle_datagrams decode minihash c i [] st = Inr st"
| "handle_datagrams decode minihash c i (a # as) st =
     (case a of (now_t, avg, delay, payload) \<Rightarrow>
        bind_result (handle_datagram decode minihash c i now_t avg delay payload st) (\<lambda>(st, _).
        handle_datagrams decode minihash c i as st))"

definition on_wire :: "packet \<Rightarrow> bool" where
  "on_wire p \<longleftrightarrow> packet_ok p \<and> length (pk_payload p) < 2 ^ 63"

lemma parse_on_wire: "on_wire p \<Longrightarrow> parse_packet (chunk_of (wire p)) = Inr p"
  by (simp add: on_wire_def parse_wire)

text \<open>Handling datagrams that carry packets is handling the packets.\<close>

lemma handle_datagrams_packets:
  assumes "\<forall>a\<in>set as. on_wire (snd (snd (snd a)))"
  shows "handle_datagrams decode minihash c i (map (\<lambda>(n, v, d, p). (n, v, d, wire p)) as) st =
    handle_packets decode minihash c i as st"
  using assms
  by (induction as arbitrary: st)
    (auto simp: handle_datagram_def parse_on_wire bind_result_def split: sum.splits)

lemma datagrams_of_packets:
  assumes "(snd \<circ> snd \<circ> snd) ` set bs = wire ` set ps" and "\<forall>p\<in>set ps. on_wire p"
  shows "\<exists>as. bs = map (\<lambda>(n, v, d, p). (n, v, d, wire p)) as \<and> (snd \<circ> snd \<circ> snd) ` set as = set ps"
proof -
  let ?f = "\<lambda>(n, v, d, b). (n, v, d, case parse_packet (chunk_of b) of Inr p \<Rightarrow> p | Inl _ \<Rightarrow> empty_packet)"
  have inv: "(case parse_packet (chunk_of (wire p)) of Inr p \<Rightarrow> p | Inl _ \<Rightarrow> empty_packet) = p"
    if "p \<in> set ps" for p
    using that assms(2) parse_on_wire by simp
  have wire: "\<exists>p\<in>set ps. snd (snd (snd b)) = wire p" if "b \<in> set bs" for b
  proof -
    have "(snd \<circ> snd \<circ> snd) b \<in> wire ` set ps" using that assms(1) by blast
    then show ?thesis by auto
  qed
  have "bs = map (\<lambda>(n, v, d, p). (n, v, d, wire p)) (map ?f bs)"
  proof (rule nth_equalityI)
    fix k assume k: "k < length bs"
    obtain n v d b where b: "bs ! k = (n, v, d, b)" by (cases "bs ! k")
    with wire [OF nth_mem [OF k]] obtain p where "p \<in> set ps" "b = wire p" by auto
    with inv [of p] b k show "bs ! k = map (\<lambda>(n, v, d, p). (n, v, d, wire p)) (map ?f bs) ! k" by simp
  qed simp
  moreover have "(snd \<circ> snd \<circ> snd) ` set (map ?f bs) =
      (\<lambda>b. case parse_packet (chunk_of b) of Inr p \<Rightarrow> p | Inl _ \<Rightarrow> empty_packet) ` (snd \<circ> snd \<circ> snd) ` set bs"
    by (simp add: image_image case_prod_unfold)
  then have "(snd \<circ> snd \<circ> snd) ` set (map ?f bs) = set ps"
    unfolding assms(1) using inv by (simp add: image_image)
  ultimately show ?thesis by blast
qed

definition stamped :: "(nat \<Rightarrow> u32) \<Rightarrow> packet list \<Rightarrow> packet list" where
  "stamped stamp ps = map (\<lambda>i. (ps ! i)\<lparr>pk_packet_send_timestamp := stamp i\<rparr>) [0..<length ps]"

lemma length_stamped [simp]: "length (stamped stamp ps) = length ps"
  by (simp add: stamped_def)

lemma hd_stamped: "ps \<noteq> [] \<Longrightarrow> hd (stamped stamp ps) = (hd ps)\<lparr>pk_packet_send_timestamp := stamp 0\<rparr>"
  by (cases ps) (simp_all add: stamped_def upt_conv_Cons del: upt_Suc)

lemma payloads_stamped [simp]: "map pk_payload (stamped stamp ps) = map pk_payload ps"
  by (rule nth_equalityI) (simp_all add: stamped_def)

lemma stamped_frame:
  assumes "packets_of_frame ps"
  shows "packets_of_frame (stamped stamp ps)"
proof -
  have "ps \<noteq> []" using assms by (simp add: packets_of_frame_def)
  then show ?thesis
    using assms unfolding packets_of_frame_def hd_stamped [OF \<open>ps \<noteq> []\<close>]
    by (auto simp: stamped_def packet_ok_def)
qed

lemma stamped_on_wire: "\<forall>p\<in>set ps. on_wire p \<Longrightarrow> \<forall>p\<in>set (stamped stamp ps). on_wire p"
  by (auto simp: stamped_def on_wire_def packet_ok_def)

lemma sent_packets_on_wire:
  assumes "eo_frame out \<noteq> []" and "fragment_count (eo_frame out) < 2 ^ 16"
  shows "\<forall>p\<in>set (sent_packets c t inp n out). on_wire p"
  using sent_packets_ok [OF assms] by (simp add: on_wire_def sent_packets_def)

lemma sent_packets_hd:
  assumes "eo_frame out \<noteq> []" and "fragment_count (eo_frame out) < 2 ^ 16"
  shows "pk_connection_id (hd (sent_packets c t inp n out)) = c"
    and "pk_source_state (hd (sent_packets c t inp n out)) = eo_source_minihash out"
    and "pk_target_state (hd (sent_packets c t inp n out)) = t"
    and "pk_frame_no (hd (sent_packets c t inp n out)) = n"
proof -
  have pos: "0 < fragment_count (eo_frame out)" using assms(1) by (simp add: fragment_count_iff)
  have ne: "sent_packets c t inp n out \<noteq> []"
    using sent_packets_frame [OF assms] by (simp add: packets_of_frame_def)
  note hd = hd_conv_nth [OF ne]
  show "pk_connection_id (hd (sent_packets c t inp n out)) = c"
    "pk_source_state (hd (sent_packets c t inp n out)) = eo_source_minihash out"
    "pk_target_state (hd (sent_packets c t inp n out)) = t"
    "pk_frame_no (hd (sent_packets c t inp n out)) = n"
    unfolding hd unfolding sent_packets_def using pos by (simp_all add: sent_fragments_nth fragment_def)
qed

text \<open>What the pacer lets out of a queue that was empty before the frame.\<close>

lemma pacer_emptied:
  assumes "map sp_what (sd_pacer st) = map wire ps" and "\<forall>p\<in>set ps. on_wire p"
    and "out_handler now0 now stamp st = Inr (ds, st')" and "sd_pacer st' = []"
  shows "ds = map wire (stamped stamp ps)"
proof -
  have due: "ms_until_due now0 (sd_pacer st) = 0"
    using assms(3) by (simp add: out_handler_def check_def split: if_splits)
  have "\<forall>p\<in>set ps. length (pk_payload p) < 2 ^ 63" using assms(2) by (simp add: on_wire_def)
  from out_handler_front [OF assms(1) this due, of now stamp]
  obtain n where n: "n \<le> length ps" "out_handler now0 now stamp st =
      Inr (map (\<lambda>i. wire ((ps ! i)\<lparr>pk_packet_send_timestamp := stamp i\<rparr>)) [0..<n],
           st\<lparr>sd_pacer := drop n (sd_pacer st)\<rparr>)" by blast
  have "length (sd_pacer st) = length ps" using arg_cong [OF assms(1), of length] by simp
  then have "n = length ps" using n assms(3,4) by auto
  then show ?thesis using n(2) assms(3) by (simp add: stamped_def comp_def)
qed


text \<open>One frame, with everything that holds of the sender afterwards.\<close>

lemma frame_delivered:
  assumes "sender_ok i st" and "sd_frame_no st + 1 \<noteq> 0" and "sd_pacer st = []"
    and "eo_frame out \<noteq> []" and "fragment_count (eo_frame out) < 2 ^ 16"
    and "in_step minihash i0 rv" and "rv_next_frame_no rv = unat (sd_frame_no st)"
    and "rv_current_state rv = eo_source_minihash out"
    and "decode (eo_frame out) (rv_player rv) = Inr player"
    and "minihash player = encoder_hash (eo_encoder out)"
  shows "\<exists>st1. send_output encoder_hash c control inp out st = Some (Inr st1) \<and> sender_ok i st1 \<and>
    believed_state i st1 = encoder_hash (eo_encoder out) \<and> sd_frame_no st1 = sd_frame_no st + 1 \<and>
    (\<forall>now0 now stamp ds st2 arrivals. out_handler now0 now stamp st1 = Inr (ds, st2) \<longrightarrow> sd_pacer st2 = [] \<longrightarrow>
       (snd \<circ> snd \<circ> snd) ` set arrivals = set ds \<longrightarrow>
       (\<exists>rv'. handle_datagrams decode minihash c i0 arrivals rv = Inr rv' \<and>
          rv_player rv' = player \<and> rv_next_frame_no rv' = unat (sd_frame_no st1) \<and>
          in_step minihash i0 rv' \<and> rv_current_state rv' = believed_state i st1))"
proof -
  let ?t = "encoder_hash (eo_encoder out)"
  let ?ps = "sent_packets c ?t inp (sd_frame_no st) out"
  obtain st1 where st1: "send_output encoder_hash c control inp out st = Some (Inr st1)"
    "map sp_what (sd_pacer st1) = map wire ?ps" "sd_frame_no st1 = sd_frame_no st + 1"
    "sd_receiver_assumed_state st1 = Some ?t" "sender_ok i st1"
    using send_output_ok [OF assms(1,4,5,2), of encoder_hash c control inp] assms(3) by auto
  have wire: "\<forall>p\<in>set ?ps. on_wire p" by (rule sent_packets_on_wire [OF assms(4,5)])
  have frame: "packets_of_frame ?ps" by (rule sent_packets_frame [OF assms(4,5)])
  have next_no: "unat (sd_frame_no st1) = rv_next_frame_no rv + 1"
    using assms(2,7) unatSuc [of "sd_frame_no st"] st1(3) by (simp add: add.commute)
  have "\<exists>rv'. handle_datagrams decode minihash c i0 arrivals rv = Inr rv' \<and>
      rv_player rv' = player \<and> rv_next_frame_no rv' = unat (sd_frame_no st1) \<and>
      in_step minihash i0 rv' \<and> rv_current_state rv' = believed_state i st1"
    if out: "out_handler now0 now stamp st1 = Inr (ds, st2)" "sd_pacer st2 = []"
      and arr: "(snd \<circ> snd \<circ> snd) ` set arrivals = set ds"
    for now0 now stamp ds st2 and arrivals :: "(u32 \<times> u32 \<times> u32 \<times> bytes) list"
  proof -
    let ?qs = "stamped stamp ?ps"
    have ds: "ds = map wire ?qs" by (rule pacer_emptied [OF st1(2) wire out])
    obtain as where as: "arrivals = map (\<lambda>(n, v, d, p). (n, v, d, wire p)) as"
      "(snd \<circ> snd \<circ> snd) ` set as = set ?qs"
      using datagrams_of_packets [of arrivals ?qs] arr stamped_on_wire [OF wire] unfolding ds by auto
    have handled: "handle_datagrams decode minihash c i0 arrivals rv = handle_packets decode minihash c i0 as rv"
      unfolding as(1)
    proof (rule handle_datagrams_packets, rule ballI)
      fix a assume "a \<in> set as"
      then have "(snd \<circ> snd \<circ> snd) a \<in> set ?qs" using as(2) by blast
      then show "on_wire (snd (snd (snd a)))" using stamped_on_wire [OF wire] by simp
    qed
    have ne: "?ps \<noteq> []" using frame by (simp add: packets_of_frame_def)
    note hd = sent_packets_hd [OF assms(4,5), of c ?t inp "sd_frame_no st"]
    have payloads: "concat (map pk_payload ?qs) = eo_frame out"
      by (simp add: sent_packets_def payloads_sent_fragments)
    have c: "pk_connection_id (hd ?qs) = c" by (simp add: hd_stamped [OF ne] hd)
    have "\<exists>rv'. handle_packets decode minihash (pk_connection_id (hd ?qs)) i0 as rv = Inr rv' \<and>
        rv_player rv' = player \<and> rv_next_frame_no rv' = rv_next_frame_no rv + 1 \<and>
        rv_fragmented_frames rv' = (\<lambda>_. None) \<and> rv_current_state rv' = minihash player \<and>
        (minihash player = pk_target_state (hd ?qs) \<longrightarrow> in_step minihash i0 rv')"
      using assms(7-9) as(2)
      by (intro frame_applied [OF stamped_frame [OF frame] assms(6)]) (simp_all add: hd_stamped [OF ne] hd payloads payloads [unfolded payloads_stamped])
    then show ?thesis
      unfolding handled c next_no using assms(10) st1(4)
      by (auto simp: hd_stamped [OF ne] hd believed_state_def)
  qed
  then show ?thesis using st1(1,3-5) by (auto simp: believed_state_def)
qed


section \<open>Codecs whose two ends stay together\<close>

text \<open>What the two programs rely on: an encoder that turns one state into the next and emits a frame, a
  decoder that follows it frame by frame, and names of states that the two ends agree on.\<close>

locale stateful_codec =
  fixes decode :: "bytes \<Rightarrow> 'd \<Rightarrow> 'd result" and decoder_hash :: "'d \<Rightarrow> u32" and encoder_hash :: "'e \<Rightarrow> u32"
    and emits :: "'e \<Rightarrow> bytes \<Rightarrow> 'e \<Rightarrow> bool" and follows :: "'e \<Rightarrow> 'd \<Rightarrow> bool"
  assumes emitted_size: "emits en bs en' \<Longrightarrow> bs \<noteq> [] \<and> fragment_count bs < 2 ^ 16"
    and decoded: "follows en dc \<Longrightarrow> emits en bs en' \<Longrightarrow> \<exists>dc'. decode bs dc = Inr dc' \<and> follows en' dc'"
    and same_hash: "follows en dc \<Longrightarrow> encoder_hash en = decoder_hash dc"

text \<open>Sender and receiver between two frames: nothing waits in the pacer, the receiver expects the frame
  that the sender will send, and it is in the state that the sender believes it to be in, in which its
  decoder follows the encoder \<open>en\<close>.\<close>

definition synchronised ::
  "('e \<Rightarrow> 'd \<Rightarrow> bool) \<Rightarrow> ('d \<Rightarrow> u32) \<Rightarrow> u32 \<Rightarrow> u32 \<Rightarrow> 'e \<Rightarrow> ('r, 'e) sender \<Rightarrow> 'd receiver \<Rightarrow> bool" where
  "synchronised follows decoder_hash i i0 en st rv \<longleftrightarrow>
     sender_ok i st \<and> sd_pacer st = [] \<and> in_step decoder_hash i0 rv \<and> follows en (rv_player rv) \<and>
     rv_next_frame_no rv = unat (sd_frame_no st) \<and> rv_current_state rv = believed_state i st"

lemma out_handler_frame:
  "out_handler now0 now stamp st = Inr (ds, st') \<Longrightarrow> sender_ok i st' = sender_ok i st \<and>
    sd_frame_no st' = sd_frame_no st \<and> believed_state i st' = believed_state i st"
  by (auto simp: out_handler_def bind_result_eq_Inr sender_ok_def states_tracked_def believed_state_def split: if_splits)

context stateful_codec
begin

lemma stays_synchronised:
  assumes "synchronised follows decoder_hash i i0 en st rv" and "emits en (eo_frame out) (eo_encoder out)"
    and "eo_source_minihash out = encoder_hash en" and "sd_frame_no st + 1 \<noteq> 0"
  shows "\<exists>st1. send_output encoder_hash c control inp out st = Some (Inr st1) \<and>
    (\<forall>now0 now stamp ds st2 arrivals. out_handler now0 now stamp st1 = Inr (ds, st2) \<longrightarrow> sd_pacer st2 = [] \<longrightarrow>
       (snd \<circ> snd \<circ> snd) ` set arrivals = set ds \<longrightarrow>
       (\<exists>rv'. handle_datagrams decode decoder_hash c i0 arrivals rv = Inr rv' \<and>
          synchronised follows decoder_hash i i0 (eo_encoder out) st2 rv'))"
proof -
  have inv: "sender_ok i st" "sd_pacer st = []" "in_step decoder_hash i0 rv" "follows en (rv_player rv)"
    "rv_next_frame_no rv = unat (sd_frame_no st)"
    using assms(1) by (simp_all add: synchronised_def)
  obtain player where player: "decode (eo_frame out) (rv_player rv) = Inr player" "follows (eo_encoder out) player"
    using decoded [OF inv(4) assms(2)] by blast
  have current: "rv_current_state rv = eo_source_minihash out"
    using inv(3) same_hash [OF inv(4)] assms(3) by (simp add: in_step_def)
  have "\<exists>st1. send_output encoder_hash c control inp out st = Some (Inr st1) \<and> sender_ok i st1 \<and>
    believed_state i st1 = encoder_hash (eo_encoder out) \<and> sd_frame_no st1 = sd_frame_no st + 1 \<and>
    (\<forall>now0 now stamp ds st2 arrivals. out_handler now0 now stamp st1 = Inr (ds, st2) \<longrightarrow> sd_pacer st2 = [] \<longrightarrow>
       (snd \<circ> snd \<circ> snd) ` set arrivals = set ds \<longrightarrow>
       (\<exists>rv'. handle_datagrams decode decoder_hash c i0 arrivals rv = Inr rv' \<and>
          rv_player rv' = player \<and> rv_next_frame_no rv' = unat (sd_frame_no st1) \<and>
          in_step decoder_hash i0 rv' \<and> rv_current_state rv' = believed_state i st1))"
    by (rule frame_delivered) (use inv assms(4) current player same_hash [OF player(2)] emitted_size [OF assms(2)] in simp_all)
  then obtain st1 where st1: "send_output encoder_hash c control inp out st = Some (Inr st1)" "sender_ok i st1"
      "believed_state i st1 = encoder_hash (eo_encoder out)"
    and run: "\<forall>now0 now stamp ds st2 arrivals. out_handler now0 now stamp st1 = Inr (ds, st2) \<longrightarrow> sd_pacer st2 = [] \<longrightarrow>
       (snd \<circ> snd \<circ> snd) ` set arrivals = set ds \<longrightarrow>
       (\<exists>rv'. handle_datagrams decode decoder_hash c i0 arrivals rv = Inr rv' \<and>
          rv_player rv' = player \<and> rv_next_frame_no rv' = unat (sd_frame_no st1) \<and>
          in_step decoder_hash i0 rv' \<and> rv_current_state rv' = believed_state i st1)"
    by (elim exE conjE) (rule that)
  show ?thesis
  proof (intro exI [of _ st1] conjI allI impI, rule st1(1))
    fix now0 now stamp ds st2 and arrivals :: "(u32 \<times> u32 \<times> u32 \<times> bytes) list"
    assume out: "out_handler now0 now stamp st1 = Inr (ds, st2)" "sd_pacer st2 = []"
      and "(snd \<circ> snd \<circ> snd) ` set arrivals = set ds"
    then have "\<exists>rv'. handle_datagrams decode decoder_hash c i0 arrivals rv = Inr rv' \<and>
          rv_player rv' = player \<and> rv_next_frame_no rv' = unat (sd_frame_no st1) \<and>
          in_step decoder_hash i0 rv' \<and> rv_current_state rv' = believed_state i st1"
      by (rule run [rule_format])
    then show "\<exists>rv'. handle_datagrams decode decoder_hash c i0 arrivals rv = Inr rv' \<and>
        synchronised follows decoder_hash i i0 (eo_encoder out) st2 rv'"
      using out(2) st1(2) player(2) out_handler_frame [OF out(1)] by (auto simp: synchronised_def)
  qed
qed

end


section \<open>Properties\<close>

text \<open>A frame that is sent is decoded.  When an encoding is sent through an empty pacer and the
  pacer has let everything out, a receiver that stands between two frames, is in the state the
  encoder started from and expects that frame number handles the datagrams in whatever order they
  arrive and however often they are repeated without failing; afterwards its decoder is the one that
  decoding the encoder's output yields, it expects the next frame, and, as decoding leads to the
  state the encoder announced, it is in the state the sender believes it to be in and offers it for
  further use.\<close>

theorem frame_delivery:
  assumes "sender_ok i st" and "sd_frame_no st + 1 \<noteq> 0" and "sd_pacer st = []"
    and "eo_frame out \<noteq> []" and "fragment_count (eo_frame out) < 2 ^ 16"
    and "in_step minihash i0 rv" and "rv_next_frame_no rv = unat (sd_frame_no st)"
    and "rv_current_state rv = eo_source_minihash out"
    and "decode (eo_frame out) (rv_player rv) = Inr player"
    and "minihash player = encoder_hash (eo_encoder out)"
  shows "\<exists>st1. send_output encoder_hash c control inp out st = Some (Inr st1) \<and>
    (\<forall>now0 now stamp ds st2 arrivals. out_handler now0 now stamp st1 = Inr (ds, st2) \<longrightarrow> sd_pacer st2 = [] \<longrightarrow>
       (snd \<circ> snd \<circ> snd) ` set arrivals = set ds \<longrightarrow>
       (\<exists>rv'. handle_datagrams decode minihash c i0 arrivals rv = Inr rv' \<and>
          rv_player rv' = player \<and> rv_next_frame_no rv' = unat (sd_frame_no st1) \<and>
          in_step minihash i0 rv' \<and> rv_current_state rv' = believed_state i st1))"
  using frame_delivered [where st = st and rv = rv and out = out and decode = decode and minihash = minihash and player = player
      and encoder_hash = encoder_hash and i = i and ?i0.0 = i0 and c = c and control = control and inp = inp, OF assms] by blast

theorem frame_delivery_witness:
  "\<exists>st1. send_output (\<lambda>e. e) 1 Origin example_inputs (example_output ''improve'' 3)
      (sender_init (\<lambda>e. e) 0 7 :: (unit, u32) sender) = Some (Inr st1) \<and>
    (\<forall>now0 now stamp ds st2 arrivals. out_handler now0 now stamp st1 = Inr (ds, st2) \<longrightarrow> sd_pacer st2 = [] \<longrightarrow>
       (snd \<circ> snd \<circ> snd) ` set arrivals = set ds \<longrightarrow>
       (\<exists>rv'. handle_datagrams (\<lambda>frame d. Inr (d + 1)) (\<lambda>d. d) 1 7 arrivals (receiver_init (\<lambda>d. d) 5 7) = Inr rv' \<and>
          rv_player rv' = 8 \<and> rv_next_frame_no rv' = unat (sd_frame_no st1) \<and>
          in_step (\<lambda>d. d) 7 rv' \<and> rv_current_state rv' = believed_state 7 st1))"
proof (rule frame_delivery)
  show "sender_ok 7 (sender_init (\<lambda>e. e) 0 7 :: (unit, u32) sender)"
    using sender_ok_init [of "\<lambda>e. e" 7 0] by simp
qed (simp_all add: sender_init_def receiver_init_def in_step_def example_output_def fragment_count_def
  MAXIMUM_PAYLOAD_def)

end
