(* ===== verification/Planes.thy ===== *)
theory Planes
  imports Prelude
begin

text \<open>
  The planes of a raster: \<open>TwoDStorage\<close>, \<open>TwoD\<close> and \<open>TwoDSubRange\<close> (src/src/util/2d.hh) over octets,
  and the two extensions of a plane beyond its edges, \<open>EdgeExtendedRaster\<close>
  (src/src/decoder/vp8_raster.hh) and \<open>SafeRaster\<close> (src/src/decoder/safe_raster.cc).  A plane keeps its
  pixels row by row.  The checked accessor is an option; a block of code that writes pixels is a
  function from planes to planes that may fail the accessor's assertion.
\<close>

section \<open>Storage\<close>

record plane =
  pl_width :: nat
  pl_height :: nat
  pl_data :: bytes

definition new_plane :: "nat \<Rightarrow> nat \<Rightarrow> u8 \<Rightarrow> plane" where
  "new_plane w h v = \<lparr>pl_width = w, pl_height = h, pl_data = replicate (w * h) v\<rparr>"

definition pixel_index :: "plane \<Rightarrow> nat \<Rightarrow> nat \<Rightarrow> nat" where
  "pixel_index p column row = row * pl_width p + column"

definition plane_at :: "plane \<Rightarrow> nat \<Rightarrow> nat \<Rightarrow> u8 option" where
  "plane_at p column row =
     (if column < pl_width p \<and> row < pl_height p then at (pl_data p) (pixel_index p column row) else None)"

definition plane_set :: "nat \<Rightarrow> nat \<Rightarrow> u8 \<Rightarrow> plane \<Rightarrow> plane option" where
  "plane_set column row v p =
     (if column < pl_width p \<and> row < pl_height p
      then Some (p\<lparr>pl_data := (pl_data p)[pixel_index p column row := v]\<rparr>) else None)"

text \<open>\<open>memcpy\<close> from the address of a pixel: the octets that follow it in the storage.\<close>

definition read_run :: "plane \<Rightarrow> nat \<Rightarrow> nat \<Rightarrow> nat \<Rightarrow> bytes option" where
  "read_run p column row n =
     (if column < pl_width p \<and> row < pl_height p \<and> pixel_index p column row + n \<le> length (pl_data p)
      then Some (take n (drop (pixel_index p column row) (pl_data p))) else None)"

text \<open>A list of results, unless one is missing.\<close>

primrec collect :: "('a \<Rightarrow> 'b option) \<Rightarrow> 'a list \<Rightarrow> 'b list option" where
  "collect f [] = Some []"
| "collect f (x # xs) = do { y \<leftarrow> f x; ys \<leftarrow> collect f xs; Some (y # ys) }"

text \<open>A subrange read and written as a list of rows, \<open>forall_ij\<close> visiting it row by row.\<close>

definition get_block :: "plane \<Rightarrow> nat \<Rightarrow> nat \<Rightarrow> nat \<Rightarrow> u8 list list option" where
  "get_block p column row n = collect (\<lambda>y. collect (\<lambda>x. plane_at p (column + x) (row + y)) [0..<n]) [0..<n]"

primrec put_run :: "nat \<Rightarrow> nat \<Rightarrow> u8 list \<Rightarrow> plane \<Rightarrow> plane option" where
  "put_run column row [] p = Some p"
| "put_run column row (v # vs) p = do { p \<leftarrow> plane_set column row v p; put_run (column + 1) row vs p }"

primrec put_block :: "nat \<Rightarrow> nat \<Rightarrow> u8 list list \<Rightarrow> plane \<Rightarrow> plane option" where
  "put_block column row [] p = Some p"
| "put_block column row (vs # rows) p = do { p \<leftarrow> put_run column row vs p; put_block column (row + 1) rows p }"


section \<open>Beyond the edges\<close>

definition clamp_between :: "int \<Rightarrow> int \<Rightarrow> int" where
  "clamp_between hi x = (let x = (if x < 0 then 0 else x) in if hi < x then hi else x)"

definition edge_at :: "plane \<Rightarrow> int \<Rightarrow> int \<Rightarrow> u8 option" where
  "edge_at p column row =
     plane_at p (nat (clamp_between (int (pl_width p) - 1) column)) (nat (clamp_between (int (pl_height p) - 1) row))"

definition MARGIN_WIDTH :: nat where "MARGIN_WIDTH = 256"

text \<open>\<open>copy_raster\<close>: every row of the safe raster is a row of the original, its ends repeated.\<close>

definition safe_source_row :: "nat \<Rightarrow> nat \<Rightarrow> nat" where
  "safe_source_row original_height nrow =
     (if nrow < MARGIN_WIDTH then 0
      else if MARGIN_WIDTH + original_height \<le> nrow then original_height - 1
      else nrow - MARGIN_WIDTH)"

definition safe_row :: "plane \<Rightarrow> nat \<Rightarrow> bytes option" where
  "safe_row original nrow =
     (let r = safe_source_row (pl_height original) nrow in
      do { first \<leftarrow> plane_at original 0 r;
           middle \<leftarrow> read_run original 0 r (pl_width original);
           final \<leftarrow> plane_at original (pl_width original - 1) r;
           Some (replicate MARGIN_WIDTH first @ middle @ replicate MARGIN_WIDTH final) })"

definition copy_raster :: "plane \<Rightarrow> plane option" where
  "copy_raster original =
     do { rows \<leftarrow> collect (safe_row original) [0..<pl_height original + 2 * MARGIN_WIDTH];
          Some \<lparr>pl_width = pl_width original + 2 * MARGIN_WIDTH, pl_height = pl_height original + 2 * MARGIN_WIDTH,
                pl_data = concat rows\<rparr> }"

definition safe_at :: "plane \<Rightarrow> int \<Rightarrow> int \<Rightarrow> u8 option" where
  "safe_at safe column row =
     (if 0 \<le> int MARGIN_WIDTH + column \<and> 0 \<le> int MARGIN_WIDTH + row
      then plane_at safe (nat (int MARGIN_WIDTH + column)) (nat (int MARGIN_WIDTH + row)) else None)"


section \<open>Reading and writing pixels\<close>

definition plane_valid :: "plane \<Rightarrow> bool" where
  "plane_valid p \<longleftrightarrow> 0 < pl_width p \<and> 0 < pl_height p \<and> length (pl_data p) = pl_width p * pl_height p"

lemma collect_total: "(\<And>x. x \<in> set xs \<Longrightarrow> f x = Some (g x)) \<Longrightarrow> collect f xs = Some (map g xs)"
  by (induction xs) simp_all

lemma collect_const: "(\<And>x. x \<in> set xs \<Longrightarrow> f x = Some v) \<Longrightarrow> collect f xs = Some (replicate (length xs) v)"
  by (induction xs) simp_all

lemma collect_SomeD: "collect f xs = Some ys \<Longrightarrow> length ys = length xs \<and> (\<forall>i<length xs. f (xs ! i) = Some (ys ! i))"
proof (induction xs arbitrary: ys)
  case (Cons x xs)
  then obtain z zs where "f x = Some z" "collect f xs = Some zs" "ys = z # zs"
    by (auto simp: option_bind_eq_Some)
  with Cons.IH show ?case by (auto simp: nth_Cons split: nat.splits)
qed simp

lemma collect_cong: "(\<And>x. x \<in> set xs \<Longrightarrow> f x = g x) \<Longrightarrow> collect f xs = collect g xs"
  by (induction xs) simp_all

lemma pixel_index_less:
  assumes "column < pl_width p" and "row < pl_height p"
  shows "pixel_index p column row < pl_width p * pl_height p"
proof -
  have "pixel_index p column row < (row + 1) * pl_width p" using assms(1) by (simp add: pixel_index_def)
  also have "\<dots> \<le> pl_height p * pl_width p" using assms(2) by (intro mult_right_mono) simp_all
  finally show ?thesis by (simp add: mult.commute)
qed

lemma pixel_index_inj:
  assumes "pixel_index p x y = pixel_index p x' y'" and "x < pl_width p" and "x' < pl_width p"
  shows "x = x' \<and> y = y'"
proof -
  have "(y * pl_width p + x) mod pl_width p = (y' * pl_width p + x') mod pl_width p"
    and "(y * pl_width p + x) div pl_width p = (y' * pl_width p + x') div pl_width p"
    using assms(1) by (simp_all only: pixel_index_def)
  then show ?thesis using assms(2,3) by simp
qed

lemma plane_at_in:
  assumes "plane_valid p" and "x < pl_width p" and "y < pl_height p"
  shows "plane_at p x y = Some (pl_data p ! pixel_index p x y)"
  using assms pixel_index_less [OF assms(2,3)] by (simp add: plane_at_def plane_valid_def)

lemma plane_at_SomeD: "plane_at p x y = Some v \<Longrightarrow> x < pl_width p \<and> y < pl_height p"
  by (simp add: plane_at_def split: if_splits)

lemma plane_set_spec:
  assumes p: "plane_valid p" and c: "c < pl_width p" and r: "r < pl_height p"
  obtains p' where "plane_set c r v p = Some p'" and "plane_valid p'" and "pl_width p' = pl_width p" and "pl_height p' = pl_height p"
    and "\<And>x y. plane_at p' x y = (if x = c \<and> y = r then Some v else plane_at p x y)"
proof -
  let ?p' = "p\<lparr>pl_data := (pl_data p)[pixel_index p c r := v]\<rparr>"
  have idx: "pixel_index ?p' x y = pixel_index p x y" for x y by (simp add: pixel_index_def)
  have len: "pixel_index p c r < length (pl_data p)" using pixel_index_less [OF c r] p by (simp add: plane_valid_def)
  have "plane_at ?p' x y = (if x = c \<and> y = r then Some v else plane_at p x y)" for x y
  proof (cases "x < pl_width p \<and> y < pl_height p")
    case True
    then have "pixel_index p x y < length (pl_data p)" using pixel_index_less p by (simp add: plane_valid_def)
    moreover have "x = c \<and> y = r" if "pixel_index p c r = pixel_index p x y"
      using pixel_index_inj [OF that c] True by simp
    ultimately show ?thesis using True len by (auto simp: plane_at_def idx nth_list_update)
  next
    case False
    then show ?thesis using c r by (auto simp: plane_at_def)
  qed
  moreover have "plane_valid ?p'" using p by (simp add: plane_valid_def)
  ultimately show ?thesis using that [of ?p'] c r by (simp add: plane_set_def)
qed

text \<open>What a write of pixels leaves: a plane of the same size that differs in the range written.\<close>

definition written :: "nat \<Rightarrow> nat \<Rightarrow> u8 list list \<Rightarrow> plane \<Rightarrow> plane \<Rightarrow> bool" where
  "written column row rows p p' \<longleftrightarrow>
     plane_valid p' \<and> pl_width p' = pl_width p \<and> pl_height p' = pl_height p \<and>
     (\<forall>x y. plane_at p' x y =
        (if row \<le> y \<and> y < row + length rows \<and> column \<le> x \<and> x < column + length (rows ! (y - row))
         then Some (rows ! (y - row) ! (x - column)) else plane_at p x y))"

lemma put_run_spec:
  assumes "plane_valid p" and "c + length vs \<le> pl_width p" and "r < pl_height p"
  shows "\<exists>p'. put_run c r vs p = Some p' \<and> plane_valid p' \<and> pl_width p' = pl_width p \<and> pl_height p' = pl_height p \<and>
    (\<forall>x y. plane_at p' x y = (if y = r \<and> c \<le> x \<and> x < c + length vs then Some (vs ! (x - c)) else plane_at p x y))"
  using assms
proof (induction vs arbitrary: c p)
  case (Cons v vs)
  obtain p1 where p1: "plane_set c r v p = Some p1" "plane_valid p1" "pl_width p1 = pl_width p" "pl_height p1 = pl_height p"
    "\<And>x y. plane_at p1 x y = (if x = c \<and> y = r then Some v else plane_at p x y)"
    using plane_set_spec [OF Cons.prems(1), of c r v] Cons.prems(2,3) by auto
  obtain p2 where p2: "put_run (c + 1) r vs p1 = Some p2" "plane_valid p2" "pl_width p2 = pl_width p1" "pl_height p2 = pl_height p1"
    "\<And>x y. plane_at p2 x y = (if y = r \<and> c + 1 \<le> x \<and> x < c + 1 + length vs then Some (vs ! (x - (c + 1))) else plane_at p1 x y)"
    using Cons.IH [OF p1(2), of "c + 1"] Cons.prems(2,3) p1(3,4) by auto
  have "plane_at p2 x y = (if y = r \<and> c \<le> x \<and> x < c + length (v # vs) then Some ((v # vs) ! (x - c)) else plane_at p x y)" for x y
    unfolding p2(5) p1(5) by (auto simp: nth_Cons' le_less)
  then show ?case using p1 p2 by auto
qed auto

lemma put_block_spec:
  assumes "plane_valid p" and "\<forall>vs\<in>set rows. c + length vs \<le> pl_width p" and "r + length rows \<le> pl_height p"
  shows "\<exists>p'. put_block c r rows p = Some p' \<and> written c r rows p p'"
  using assms
proof (induction rows arbitrary: r p)
  case (Cons vs rows)
  obtain p1 where p1: "put_run c r vs p = Some p1" "plane_valid p1" "pl_width p1 = pl_width p" "pl_height p1 = pl_height p"
    "\<And>x y. plane_at p1 x y = (if y = r \<and> c \<le> x \<and> x < c + length vs then Some (vs ! (x - c)) else plane_at p x y)"
    using put_run_spec [OF Cons.prems(1), of c vs r] Cons.prems(2,3) by auto
  obtain p2 where p2: "put_block c (r + 1) rows p1 = Some p2" "written c (r + 1) rows p1 p2"
    using Cons.IH [OF p1(2), of "r + 1"] Cons.prems(2,3) p1(3,4) by auto
  have "plane_at p2 x y = (if r \<le> y \<and> y < r + length (vs # rows) \<and> c \<le> x \<and> x < c + length ((vs # rows) ! (y - r))
      then Some ((vs # rows) ! (y - r) ! (x - c)) else plane_at p x y)" for x y
    using p2(2) p1(5) by (cases "y = r") (auto simp: written_def nth_Cons' le_less)
  then show ?case using p1 p2 by (auto simp: written_def)
qed (auto simp: written_def)

lemma get_block_in:
  assumes "plane_valid p" and "c + n \<le> pl_width p" and "r + n \<le> pl_height p"
  shows "get_block p c r n = Some (map (\<lambda>y. map (\<lambda>x. pl_data p ! pixel_index p (c + x) (r + y)) [0..<n]) [0..<n])"
  unfolding get_block_def using assms by (intro collect_total) (simp add: plane_at_in)

lemma plane_eqI:
  assumes "plane_valid p" and "plane_valid q" and "pl_width p = pl_width q" and "pl_height p = pl_height q"
    and at: "\<And>x y. x < pl_width p \<Longrightarrow> y < pl_height p \<Longrightarrow> plane_at p x y = plane_at q x y"
  shows "p = q"
proof -
  have "pl_data p ! i = pl_data q ! i" if "i < length (pl_data p)" for i
  proof -
    let ?x = "i mod pl_width p" and ?y = "i div pl_width p"
    have w: "0 < pl_width p" using assms(1) by (simp add: plane_valid_def)
    have "?x < pl_width p" using w by simp
    moreover have "?y < pl_height p"
      using that assms(1) by (simp add: plane_valid_def less_mult_imp_div_less mult.commute)
    moreover have "pixel_index p ?x ?y = i" "pixel_index q ?x ?y = i"
      using assms(3) by (simp_all add: pixel_index_def)
    ultimately show ?thesis using at [of ?x ?y] assms by (simp add: plane_at_in)
  qed
  then have "pl_data p = pl_data q"
    using assms(1-4) by (intro nth_equalityI) (simp_all add: plane_valid_def)
  with assms(3,4) show ?thesis by simp
qed


text \<open>The blocks of a plane are squares.\<close>

definition square :: "nat \<Rightarrow> 'a list list \<Rightarrow> bool" where
  "square sz block \<longleftrightarrow> length block = sz \<and> (\<forall>vs\<in>set block. length vs = sz)"

text \<open>What an operation on one block does to the plane.\<close>

definition only_block :: "nat \<Rightarrow> nat \<Rightarrow> nat \<Rightarrow> plane \<Rightarrow> plane \<Rightarrow> bool" where
  "only_block sz column row p q \<longleftrightarrow>
     plane_valid q \<and> pl_width q = pl_width p \<and> pl_height q = pl_height p \<and>
     (\<forall>x y. x div sz \<noteq> column \<or> y div sz \<noteq> row \<longrightarrow> plane_at q x y = plane_at p x y)"

lemma written_only_block:
  assumes w: "written (sz * column) (sz * row) block p q" and "square sz block" and "0 < sz"
  shows "only_block sz column row p q"
proof -
  have in_block: "n div sz = k" if "sz * k \<le> n" "n < sz * k + sz" for n k
    using that by (metis div_nat_eqI mult.commute add.commute mult_Suc)
  have "plane_at q x y = plane_at p x y" if "x div sz \<noteq> column \<or> y div sz \<noteq> row" for x y
  proof (cases "sz * row \<le> y \<and> y < sz * row + sz")
    case True
    then have "\<not> (sz * column \<le> x \<and> x < sz * column + sz)" using that in_block by metis
    moreover have "y - sz * row < length block" using True assms(2) by (auto simp: square_def)
    then have "length (block ! (y - sz * row)) = sz" using assms(2) nth_mem by (auto simp: square_def)
    ultimately show ?thesis using w by (auto simp: written_def)
  next
    case False
    then show ?thesis using w assms(2) by (auto simp: written_def square_def)
  qed
  then show ?thesis using w by (simp add: only_block_def written_def)
qed


section \<open>The extensions agree\<close>

lemma clamp_between_range: "0 \<le> hi \<Longrightarrow> 0 \<le> clamp_between hi x \<and> clamp_between hi x \<le> hi"
  by (simp add: clamp_between_def Let_def)

lemma clamp_between_inside: "0 \<le> x \<Longrightarrow> x \<le> hi \<Longrightarrow> clamp_between hi x = x"
  by (simp add: clamp_between_def)

lemma edge_at_total: "plane_valid p \<Longrightarrow> \<exists>v. edge_at p column row = Some v"
  using clamp_between_range [of "int (pl_width p) - 1" column] clamp_between_range [of "int (pl_height p) - 1" row]
  unfolding edge_at_def by (subst plane_at_in) (auto simp: plane_valid_def)

lemma edge_at_inside:
  "0 \<le> column \<Longrightarrow> column < int (pl_width p) \<Longrightarrow> 0 \<le> row \<Longrightarrow> row < int (pl_height p) \<Longrightarrow>
   edge_at p column row = plane_at p (nat column) (nat row)"
  by (simp add: edge_at_def clamp_between_inside)

lemma read_run_row:
  assumes "plane_valid p" and "r < pl_height p"
  shows "read_run p 0 r (pl_width p) = Some (map (\<lambda>x. pl_data p ! pixel_index p x r) [0..<pl_width p])"
proof -
  have "pixel_index p 0 r + pl_width p = (r + 1) * pl_width p" by (simp add: pixel_index_def)
  also have "\<dots> \<le> length (pl_data p)"
    using assms by (simp only: plane_valid_def mult.commute [of "pl_width p"]) (intro mult_right_mono; simp)
  finally have fits: "pixel_index p 0 r + pl_width p \<le> length (pl_data p)" .
  then have "take (pl_width p) (drop (pixel_index p 0 r) (pl_data p)) = map (\<lambda>x. pl_data p ! pixel_index p x r) [0..<pl_width p]"
    by (intro nth_equalityI) (simp_all add: pixel_index_def)
  then show ?thesis using fits assms by (simp add: read_run_def plane_valid_def)
qed

lemma safe_row_spec:
  assumes "plane_valid p" and "n < pl_height p + 2 * MARGIN_WIDTH"
  shows "\<exists>row. safe_row p n = Some row \<and> length row = pl_width p + 2 * MARGIN_WIDTH \<and>
    (\<forall>i<pl_width p + 2 * MARGIN_WIDTH. Some (row ! i) = edge_at p (int i - int MARGIN_WIDTH) (int n - int MARGIN_WIDTH))"
proof -
  let ?r = "safe_source_row (pl_height p) n" and ?w = "pl_width p"
  have r: "?r < pl_height p" "int ?r = clamp_between (int (pl_height p) - 1) (int n - int MARGIN_WIDTH)"
    using assms by (auto simp: safe_source_row_def plane_valid_def clamp_between_def)
  have w: "0 < ?w" using assms(1) by (simp add: plane_valid_def)
  let ?px = "\<lambda>x. pl_data p ! pixel_index p x ?r"
  let ?row = "replicate MARGIN_WIDTH (?px 0) @ map ?px [0..<?w] @ replicate MARGIN_WIDTH (?px (?w - 1))"
  have "safe_row p n = Some ?row"
    unfolding safe_row_def Let_def using assms(1) r(1) w by (simp add: plane_at_in read_run_row)
  moreover have "Some (?row ! i) = edge_at p (int i - int MARGIN_WIDTH) (int n - int MARGIN_WIDTH)"
    if i: "i < ?w + 2 * MARGIN_WIDTH" for i
  proof -
    have "nat (clamp_between (int (pl_height p) - 1) (int n - int MARGIN_WIDTH)) = ?r" using r(2) by simp
    moreover have "nat (clamp_between (int ?w - 1) (int i - int MARGIN_WIDTH)) =
        (if i < MARGIN_WIDTH then 0 else if i < MARGIN_WIDTH + ?w then i - MARGIN_WIDTH else ?w - 1)"
      using w by (auto simp: clamp_between_def)
    ultimately have "edge_at p (int i - int MARGIN_WIDTH) (int n - int MARGIN_WIDTH) =
        Some (?px (if i < MARGIN_WIDTH then 0 else if i < MARGIN_WIDTH + ?w then i - MARGIN_WIDTH else ?w - 1))"
      unfolding edge_at_def using assms(1) r(1) w by (auto simp: plane_at_in)
    moreover have "?row ! i = ?px (if i < MARGIN_WIDTH then 0 else if i < MARGIN_WIDTH + ?w then i - MARGIN_WIDTH else ?w - 1)"
      using i by (auto simp: nth_append)
    ultimately show ?thesis by simp
  qed
  ultimately show ?thesis by (intro exI [of _ ?row]) simp
qed

lemma concat_nth:
  "list_all (\<lambda>row. length row = n) rows \<Longrightarrow> y < length rows \<Longrightarrow> x < n \<Longrightarrow>
   length (concat rows) = length rows * n \<and> concat rows ! (y * n + x) = rows ! y ! x"
proof (induction rows arbitrary: y)
  case (Cons row rows)
  have len: "length (concat rows) = length rows * n" using Cons.prems(1)
    by (induction rows) simp_all
  show ?case
  proof (cases y)
    case 0
    then show ?thesis using Cons.prems len by (simp add: nth_append)
  next
    case (Suc y')
    then show ?thesis using Cons.prems Cons.IH [of y'] len by (simp add: nth_append)
  qed
qed simp

text \<open>Whatever lies within the margin, the safe raster holds the pixel that the edge extension
  computes.\<close>

lemma safe_raster_spec:
  assumes p: "plane_valid p"
  shows "\<exists>q. copy_raster p = Some q \<and> plane_valid q \<and>
    (\<forall>column row. - int MARGIN_WIDTH \<le> column \<and> column < int (pl_width p + MARGIN_WIDTH) \<and>
       - int MARGIN_WIDTH \<le> row \<and> row < int (pl_height p + MARGIN_WIDTH) \<longrightarrow>
       safe_at q column row = edge_at p column row)"
proof -
  let ?h = "pl_height p + 2 * MARGIN_WIDTH" and ?w = "pl_width p + 2 * MARGIN_WIDTH"
  obtain f where f: "\<And>n. n < ?h \<Longrightarrow> safe_row p n = Some (f n) \<and> length (f n) = ?w \<and>
      (\<forall>i<?w. Some (f n ! i) = edge_at p (int i - int MARGIN_WIDTH) (int n - int MARGIN_WIDTH))"
    using safe_row_spec [OF p] by metis
  let ?rows = "map f [0..<?h]"
  let ?q = "\<lparr>pl_width = ?w, pl_height = ?h, pl_data = concat ?rows\<rparr>"
  have rows: "list_all (\<lambda>row. length row = ?w) ?rows" using f by (simp add: list_all_iff)
  have pos: "0 < ?w" "0 < ?h" using p by (simp_all add: plane_valid_def)
  have ok: "plane_valid ?q" using concat_nth [OF rows, of 0 0] pos by (simp add: plane_valid_def mult.commute)
  have "copy_raster p = Some ?q"
    unfolding copy_raster_def using f by (subst collect_total [where g = f]) simp_all
  moreover have "safe_at ?q column row = edge_at p column row"
    if "- int MARGIN_WIDTH \<le> column" "column < int (pl_width p + MARGIN_WIDTH)"
       "- int MARGIN_WIDTH \<le> row" "row < int (pl_height p + MARGIN_WIDTH)" for column row
  proof -
    let ?x = "nat (int MARGIN_WIDTH + column)" and ?y = "nat (int MARGIN_WIDTH + row)"
    have xy: "?x < ?w" "?y < ?h" "int ?x - int MARGIN_WIDTH = column" "int ?y - int MARGIN_WIDTH = row" using that by linarith+
    have "safe_at ?q column row = Some (concat ?rows ! (?y * ?w + ?x))"
      using that xy(1,2) ok by (simp add: safe_at_def plane_at_in pixel_index_def)
    also have "\<dots> = Some (f ?y ! ?x)"
      using concat_nth [OF rows _ xy(1), of ?y] xy(2) by simp
    also have "\<dots> = edge_at p column row" using f [OF xy(2)] xy(1,3,4) by metis
    finally show ?thesis .
  qed
  ultimately show ?thesis using ok by blast
qed

end
