(* ===== verification/Tokens.thy ===== *)
theory Tokens
  imports Bool_Coder
begin

text \<open>
  The coefficients of a block as tokens: \<open>Block::parse_tokens\<close> (src/src/decoder/tokens.cc),
  \<open>Block::serialize_tokens\<close> and the branch statistics (src/src/encoder/serializer.cc), with
  the \<open>TokenDecoder\<close> of the value categories.  The probabilities of a block type are a table
  of its static shape, bands by contexts by nodes, and a block's coefficients a list of 16
  signed 16-bit words; the sizes are part of the types of the code, so that its checked
  \<open>at\<close> is plain indexing here.
\<close>

unbundle bit_operations_syntax

section \<open>Coefficients and their order\<close>

type_synonym coefficients = "i16 list"
type_synonym band_probs = "u8 list list list"

datatype block_type = Y_after_Y2 | Y2 | UV | Y_without_Y2

definition block_type_index :: "block_type \<Rightarrow> nat" where
  "block_type_index t = (case t of Y_after_Y2 \<Rightarrow> 0 | Y2 \<Rightarrow> 1 | UV \<Rightarrow> 2 | Y_without_Y2 \<Rightarrow> 3)"

definition coefficient_to_band :: "nat list" where
  "coefficient_to_band = [0, 1, 2, 3, 6, 4, 5, 6, 6, 6, 6, 6, 6, 6, 6, 7]"

definition zigzag :: "nat list" where
  "zigzag = [0, 1, 4, 8, 5, 2, 3, 6, 9, 12, 13, 10, 7, 11, 14, 15]"

definition first_index :: "block_type \<Rightarrow> nat" where
  "first_index t = (if t = Y_after_Y2 then 1 else 0)"

definition no_coefficients :: coefficients where
  "no_coefficients = replicate 16 0"


section \<open>Value categories\<close>

record token_decoder =
  td_base_value :: u16
  td_bit_probabilities :: "u8 list"

definition token_decoder_1 :: token_decoder where
  "token_decoder_1 = \<lparr>td_base_value = 7, td_bit_probabilities = [165, 145]\<rparr>"

definition token_decoder_2 :: token_decoder where
  "token_decoder_2 = \<lparr>td_base_value = 11, td_bit_probabilities = [173, 148, 140]\<rparr>"

definition token_decoder_3 :: token_decoder where
  "token_decoder_3 = \<lparr>td_base_value = 19, td_bit_probabilities = [176, 155, 140, 135]\<rparr>"

definition token_decoder_4 :: token_decoder where
  "token_decoder_4 = \<lparr>td_base_value = 35, td_bit_probabilities = [180, 157, 141, 134, 130]\<rparr>"

definition token_decoder_5 :: token_decoder where
  "token_decoder_5 =
     \<lparr>td_base_value = 67, td_bit_probabilities = [254, 254, 243, 230, 196, 177, 153, 140, 133, 130, 129]\<rparr>"

lemmas token_decoder_defs = token_decoder_1_def token_decoder_2_def token_decoder_3_def
  token_decoder_4_def token_decoder_5_def

definition upper_limit :: "token_decoder \<Rightarrow> u16" where
  "upper_limit td = td_base_value td + push_bit (length (td_bit_probabilities td)) 1"

primrec read_increment :: "u8 list \<Rightarrow> u16 \<Rightarrow> u16 reader" where
  "read_increment [] increment d = Some (increment, d)"
| "read_increment (p # ps) increment d =
     do { (b, d) \<leftarrow> bd_get p d; read_increment ps (push_bit 1 increment + of_bool b) d }"

definition td_decode :: "token_decoder \<Rightarrow> u16 reader" where
  "td_decode td d =
     do { (increment, d) \<leftarrow> read_increment (td_bit_probabilities td) 0 d;
          Some (td_base_value td + increment, d) }"

primrec write_increment :: "u8 list \<Rightarrow> u16 \<Rightarrow> writer" where
  "write_increment [] increment = enc_seq []"
| "write_increment (p # ps) increment =
     enc_seq [be_put (increment AND push_bit (length ps) 1 \<noteq> 0) p, write_increment ps increment]"

definition td_encode :: "token_decoder \<Rightarrow> u16 \<Rightarrow> writer" where
  "td_encode td value =
     (if value \<ge> td_base_value td
      then write_increment (td_bit_probabilities td) (value - td_base_value td) else (\<lambda>_. None))"


section \<open>Reading and writing a value\<close>

text \<open>The value categories, reached with the decision of node 3, then all values above 1, then
  what follows the decision that the coefficient is not zero up to its sign: the value and the
  context it leaves.\<close>

definition read_category :: "u8 list \<Rightarrow> u16 reader" where
  "read_category prob d =
     do { (b, d) \<leftarrow> bd_get (prob ! 6) d;
          if \<not> b then
            do { (b, d) \<leftarrow> bd_get (prob ! 7) d;
                 if \<not> b then do { (b, d) \<leftarrow> bd_get 159 d; Some (5 + of_bool b, d) }
                 else td_decode token_decoder_1 d }
          else
            do { (b, d) \<leftarrow> bd_get (prob ! 8) d;
                 if \<not> b then
                   do { (b, d) \<leftarrow> bd_get (prob ! 9) d;
                        if \<not> b then td_decode token_decoder_2 d else td_decode token_decoder_3 d }
                 else
                   do { (b, d) \<leftarrow> bd_get (prob ! 10) d;
                        if \<not> b then td_decode token_decoder_4 d else td_decode token_decoder_5 d } } }"

definition read_large :: "u8 list \<Rightarrow> u16 reader" where
  "read_large prob d =
     do { (b, d) \<leftarrow> bd_get (prob ! 3) d;
          if \<not> b then
            do { (b, d) \<leftarrow> bd_get (prob ! 4) d;
                 if \<not> b then Some (2, d)
                 else do { (b, d) \<leftarrow> bd_get (prob ! 5) d; Some (if \<not> b then 3 else 4, d) } }
          else read_category prob d }"

definition read_value :: "u8 list \<Rightarrow> (u16 \<times> nat) reader" where
  "read_value prob d =
     do { (b, d) \<leftarrow> bd_get (prob ! 2) d;
          if \<not> b then Some ((1, 1), d)
          else do { (v, d) \<leftarrow> read_large prob d; Some ((v, 2), d) } }"

definition write_category :: "u8 list \<Rightarrow> u16 \<Rightarrow> writer" where
  "write_category prob v =
     (if v < td_base_value token_decoder_1 then
        enc_seq [be_put False (prob ! 6), be_put False (prob ! 7), be_put (v = 6) 159]
      else if v < upper_limit token_decoder_1 then
        enc_seq [be_put False (prob ! 6), be_put True (prob ! 7), td_encode token_decoder_1 v]
      else if v < upper_limit token_decoder_2 then
        enc_seq [be_put True (prob ! 6), be_put False (prob ! 8), be_put False (prob ! 9), td_encode token_decoder_2 v]
      else if v < upper_limit token_decoder_3 then
        enc_seq [be_put True (prob ! 6), be_put False (prob ! 8), be_put True (prob ! 9), td_encode token_decoder_3 v]
      else if v < upper_limit token_decoder_4 then
        enc_seq [be_put True (prob ! 6), be_put True (prob ! 8), be_put False (prob ! 10), td_encode token_decoder_4 v]
      else if v < upper_limit token_decoder_5 then
        enc_seq [be_put True (prob ! 6), be_put True (prob ! 8), be_put True (prob ! 10), td_encode token_decoder_5 v]
      else (\<lambda>_. None))"

definition write_large :: "u8 list \<Rightarrow> u16 \<Rightarrow> writer" where
  "write_large prob v =
     (if v = 2 then enc_seq [be_put False (prob ! 3), be_put False (prob ! 4)]
      else if v = 3 then enc_seq [be_put False (prob ! 3), be_put True (prob ! 4), be_put False (prob ! 5)]
      else if v = 4 then enc_seq [be_put False (prob ! 3), be_put True (prob ! 4), be_put True (prob ! 5)]
      else enc_seq [be_put True (prob ! 3), write_category prob v])"

definition write_value :: "u8 list \<Rightarrow> u16 \<Rightarrow> writer" where
  "write_value prob v =
     (if v = 1 then enc_seq [be_put False (prob ! 2)]
      else enc_seq [be_put True (prob ! 2), write_large prob v])"


section \<open>A block\<close>

definition prob_at :: "band_probs \<Rightarrow> nat \<Rightarrow> nat \<Rightarrow> u8 list" where
  "prob_at probs index token_context = probs ! (coefficient_to_band ! index) ! token_context"

text \<open>The loop over the \<open>n\<close> indices from \<open>index\<close> on; the state is the coefficients and the
  flag \<open>has_nonzero_\<close>.\<close>

primrec parse_loop ::
  "band_probs \<Rightarrow> nat \<Rightarrow> nat \<Rightarrow> bool \<Rightarrow> nat \<Rightarrow> coefficients \<times> bool \<Rightarrow> (coefficients \<times> bool) reader" where
  "parse_loop probs 0 index last_was_zero token_context st d = Some (st, d)"
| "parse_loop probs (Suc n) index last_was_zero token_context st d =
     (let prob = prob_at probs index token_context in
      do { (more, d) \<leftarrow> (if \<not> last_was_zero then bd_get (prob ! 0) d else Some (True, d));
           if \<not> more then Some (st, d)
           else do { (nonzero, d) \<leftarrow> bd_get (prob ! 1) d;
                     if \<not> nonzero then parse_loop probs n (index + 1) True 0 st d
                     else do { ((value, token_context), d) \<leftarrow> read_value prob d;
                               (negative, d) \<leftarrow> bd_get 128 d;
                               parse_loop probs n (index + 1) False token_context
                                 ((fst st)[zigzag ! index := (if negative then - value else value)], True) d } } })"

definition neighbour_context :: "bool option \<Rightarrow> bool option \<Rightarrow> nat" where
  "neighbour_context above_nz left_nz =
     (case above_nz of Some b \<Rightarrow> of_bool b | None \<Rightarrow> 0) + (case left_nz of Some b \<Rightarrow> of_bool b | None \<Rightarrow> 0)"

definition parse_tokens ::
  "band_probs list \<Rightarrow> block_type \<Rightarrow> bool option \<Rightarrow> bool option \<Rightarrow> coefficients \<times> bool \<Rightarrow>
   (coefficients \<times> bool) reader" where
  "parse_tokens coeff_probs t above_nz left_nz =
     parse_loop (coeff_probs ! block_type_index t) (16 - first_index t) (first_index t) False
       (neighbour_context above_nz left_nz)"

definition coded_length :: "block_type \<Rightarrow> coefficients \<Rightarrow> nat" where
  "coded_length t coefs =
     fold (\<lambda>index len. if coefs ! (zigzag ! index) \<noteq> 0 then Suc index else len) [first_index t..<16] 0"

definition token_value :: "i16 \<Rightarrow> u16" where
  "token_value c = word_of_int \<bar>sint c\<bar>"

definition write_end :: "band_probs \<Rightarrow> nat \<Rightarrow> nat \<Rightarrow> bool \<Rightarrow> nat \<Rightarrow> writer" where
  "write_end probs len index last_was_zero token_context =
     (if last_was_zero then (\<lambda>_. None)
      else if len < 16 then be_put False (prob_at probs index token_context ! 0) else enc_seq [])"

primrec serialize_loop ::
  "band_probs \<Rightarrow> coefficients \<Rightarrow> nat \<Rightarrow> nat \<Rightarrow> nat \<Rightarrow> bool \<Rightarrow> nat \<Rightarrow> writer" where
  "serialize_loop probs coefs len 0 index last_was_zero token_context =
     write_end probs len index last_was_zero token_context"
| "serialize_loop probs coefs len (Suc n) index last_was_zero token_context =
     (let coefficient = coefs ! (zigzag ! index);
          v = token_value coefficient;
          prob = prob_at probs index token_context;
          go_on = (if \<not> last_was_zero then be_put True (prob ! 0) else enc_seq []) in
      if v = 0 then
        enc_seq [go_on, be_put False (prob ! 1), serialize_loop probs coefs len n (index + 1) True 0]
      else
        enc_seq [go_on, be_put True (prob ! 1), write_value prob v, be_put (coefficient <s 0) 128,
          serialize_loop probs coefs len n (index + 1) False (if v = 1 then 1 else 2)])"

definition serialize_tokens ::
  "band_probs list \<Rightarrow> block_type \<Rightarrow> bool option \<Rightarrow> bool option \<Rightarrow> coefficients \<Rightarrow> writer" where
  "serialize_tokens coeff_probs t above_nz left_nz coefs =
     (let len = coded_length t coefs in
      serialize_loop (coeff_probs ! block_type_index t) coefs len (len - first_index t) (first_index t) False
        (neighbour_context above_nz left_nz))"

definition calculate_has_nonzero :: "coefficients \<Rightarrow> bool" where
  "calculate_has_nonzero coefs \<longleftrightarrow> coefs \<noteq> replicate 16 0"

section \<open>Values survive\<close>

lemma and_bit_nonzero: "(x :: u16) AND push_bit n 1 \<noteq> 0 \<longleftrightarrow> bit x n"
  by (simp add: push_bit_of_1 bit_iff_and_push_bit_not_eq_0 flip: push_bit_of_1)

lemma take_bit_from_most: "take_bit (Suc n) x = push_bit n (of_bool (bit x n)) + take_bit n (x :: u16)"
proof -
  have "push_bit n (of_bool (bit x n)) AND take_bit n x = 0"
    by (rule bit_eqI) (auto simp: bit_simps)
  then have "push_bit n (of_bool (bit x n)) + take_bit n x = push_bit n (of_bool (bit x n)) OR take_bit n x"
    by (rule disjunctive_add_eq_or)
  also have "\<dots> = take_bit (Suc n) x"
    by (rule bit_eqI) (auto simp: bit_simps less_Suc_eq)
  finally show ?thesis by simp
qed

lemma increment_codes:
  "length ps \<le> 16 \<Longrightarrow>
   codes (write_increment ps inc) (read_increment ps acc) (push_bit (length ps) acc + take_bit (length ps) inc)"
proof (induction ps arbitrary: acc)
  case Nil
  then show ?case by (simp add: codes_nothing codes_done)
next
  case (Cons p ps)
  let ?n = "length ps"
  have step: "push_bit ?n (push_bit 1 acc + of_bool (bit inc ?n)) + take_bit ?n inc =
      push_bit (Suc ?n) acc + take_bit (Suc ?n) inc"
    by (simp only: push_bit_add push_bit_push_bit take_bit_from_most add.assoc) simp
  have "codes (write_increment ps inc) (read_increment ps (push_bit 1 acc + of_bool (bit inc ?n)))
      (push_bit (Suc ?n) acc + take_bit (Suc ?n) inc)"
    using Cons.IH [of "push_bit 1 acc + of_bool (bit inc ?n)"] Cons.prems unfolding step by simp
  then show ?case
    unfolding write_increment.simps read_increment.simps and_bit_nonzero
    by (intro codes_step [OF codes_put]) (simp only: codes_seq1 list.size add.right_neutral add_Suc_right)
qed

lemma td_codes:
  assumes "td_base_value td \<le> v" and "unat v < unat (td_base_value td) + 2 ^ length (td_bit_probabilities td)"
    and "length (td_bit_probabilities td) \<le> 16"
  shows "codes (td_encode td v) (td_decode td) v"
proof -
  have "unat (v - td_base_value td) < 2 ^ length (td_bit_probabilities td)"
    using assms(1,2) by (auto simp: unat_sub word_le_nat_alt)
  then have "take_bit (length (td_bit_probabilities td)) (v - td_base_value td) = v - td_base_value td"
    by (simp add: word_unat_eq_iff unsigned_take_bit_eq take_bit_nat_eq_self)
  then have "codes (write_increment (td_bit_probabilities td) (v - td_base_value td))
      (read_increment (td_bit_probabilities td) 0) (v - td_base_value td)"
    using increment_codes [OF assms(3), of "v - td_base_value td" 0] by simp
  then show ?thesis
    using assms(1) unfolding td_encode_def td_decode_def [abs_def]
    by (simp add: codes_map)
qed

lemma td_limits:
  "unat (td_base_value token_decoder_1) = 7" "unat (upper_limit token_decoder_1) = 11"
  "unat (td_base_value token_decoder_2) = 11" "unat (upper_limit token_decoder_2) = 19"
  "unat (td_base_value token_decoder_3) = 19" "unat (upper_limit token_decoder_3) = 35"
  "unat (td_base_value token_decoder_4) = 35" "unat (upper_limit token_decoder_4) = 67"
  "unat (td_base_value token_decoder_5) = 67" "unat (upper_limit token_decoder_5) = 2115"
  by (simp_all add: upper_limit_def token_decoder_defs)

lemma td_lengths:
  "length (td_bit_probabilities token_decoder_1) = 2" "length (td_bit_probabilities token_decoder_2) = 3"
  "length (td_bit_probabilities token_decoder_3) = 4" "length (td_bit_probabilities token_decoder_4) = 5"
  "length (td_bit_probabilities token_decoder_5) = 11"
  by (simp_all add: token_decoder_defs)

lemma u16_eq_iff: "(v :: u16) = w \<longleftrightarrow> unat v = unat w"
  by (simp add: word_unat_eq_iff)

lemma category_codes:
  assumes "5 \<le> unat v" and "unat v < 2115"
  shows "codes (write_category prob v) (read_category prob) v"
proof -
  have td: "codes (td_encode td v) (td_decode td) v"
    if "unat (td_base_value td) \<le> unat v" "unat v < unat (td_base_value td) + 2 ^ length (td_bit_probabilities td)"
      "length (td_bit_probabilities td) \<le> 16" for td
    using that by (intro td_codes) (simp_all add: word_le_nat_alt)
  note cat = write_category_def read_category_def [abs_def] word_less_nat_alt td_limits
  consider "unat v < 7" | "7 \<le> unat v" "unat v < 11" | "11 \<le> unat v" "unat v < 19"
    | "19 \<le> unat v" "unat v < 35" | "35 \<le> unat v" "unat v < 67" | "67 \<le> unat v" by linarith
  then show ?thesis
  proof cases
    case 1
    then have "unat v = 5 \<or> unat v = 6" using assms(1) by auto
    then have v: "5 + of_bool (v = 6) = v" by (auto simp: u16_eq_iff)
    show ?thesis
      unfolding cat using 1
      by (simp only: if_True) ((rule codes_put_step, simp only: branch_simps)+, simp only: codes_seq1, rule codes_map [OF codes_put], rule v)
  qed ((use assms(2) in \<open>simp add: cat not_less del: enc_seq.simps\<close>,
      (rule codes_put_step, simp only: branch_simps)+, simp add: codes_seq1 td td_limits td_lengths)+)
qed

lemma value_codes:
  assumes "v \<noteq> 0" and "unat v < 2115"
  shows "codes (write_value prob v) (read_value prob) (v, if v = 1 then 1 else 2)"
proof -
  have large: "codes (write_large prob v) (read_large prob) v" if "v \<noteq> 1"
  proof -
    have "unat v \<noteq> 0" "unat v \<noteq> 1" using assms(1) that by (simp_all add: u16_eq_iff)
    then consider "v = 2" | "v = 3" | "v = 4" | "5 \<le> unat v"
      by (simp add: u16_eq_iff) linarith
    then show ?thesis
    proof cases
      case 1
      show ?thesis
        unfolding write_large_def read_large_def [abs_def] 1
        by (simp del: enc_seq.simps) ((rule codes_put_step, simp only: branch_simps)+, rule codes_done [OF refl])
    next
      case 4
      then have "v \<noteq> 2" "v \<noteq> 3" "v \<noteq> 4" by auto
      then show ?thesis
        unfolding write_large_def read_large_def [abs_def] using category_codes [OF 4 assms(2)]
        by (simp del: enc_seq.simps) (rule codes_put_step, simp add: codes_seq1)
    qed (simp add: write_large_def read_large_def [abs_def] del: enc_seq.simps,
      (rule codes_put_step, simp only: branch_simps)+, rule codes_done, simp)+
  qed
  show ?thesis
  proof (cases "v = 1")
    case True
    then show ?thesis
      unfolding write_value_def read_value_def [abs_def]
      by (simp del: enc_seq.simps) (rule codes_put_step, simp only: branch_simps, rule codes_done, simp)
  next
    case False
    then have "codes (write_large prob v) (\<lambda>d. do { (v, d) \<leftarrow> read_large prob d; Some ((v, 2), d) }) (v, 2)"
      using codes_map [OF large, of "\<lambda>v. (v, 2)"] by simp
    then show ?thesis
      unfolding write_value_def read_value_def [abs_def] using False
      by (simp del: enc_seq.simps) (rule codes_put_step, simp add: codes_seq1)
  qed
qed

text \<open>Every value read is at least 1 and at most 2114, whatever the bits.\<close>

lemma increment_returns:
  "length ps + n \<le> 16 \<Longrightarrow> unat inc < 2 ^ n \<Longrightarrow>
   returns (read_increment ps inc) (\<lambda>x. unat x < 2 ^ (length ps + n))"
proof (induction ps arbitrary: inc n)
  case Nil
  then show ?case by (simp add: returns_return)
next
  case (Cons p ps)
  have "unat (push_bit 1 inc + of_bool b) < 2 ^ Suc n" for b
  proof -
    have "(2::nat) ^ n \<le> 2 ^ 15" using Cons.prems(1) by (intro power_increasing) auto
    then have "unat inc * 2 ^ 1 < 2 ^ LENGTH(16)" using Cons.prems(2) by simp
    then have "unat (push_bit 1 inc) = 2 * unat inc" by (subst unat_push_bit) simp_all
    then have "unat (push_bit 1 inc + of_bool b) = 2 * unat inc + of_bool b"
      using Cons.prems(2) \<open>(2::nat) ^ n \<le> 2 ^ 15\<close> by (simp add: unat_word_ariths)
    then show ?thesis using Cons.prems(2) by (cases b) simp_all
  qed
  then have "returns (read_increment ps (push_bit 1 inc + of_bool b)) (\<lambda>x. unat x < 2 ^ (length ps + Suc n))" for b
    using Cons.prems(1) by (intro Cons.IH) simp_all
  then show ?case
    unfolding read_increment.simps by (intro returns_bind [OF returns_get]) simp
qed

lemma td_returns:
  assumes "unat (td_base_value td) + 2 ^ length (td_bit_probabilities td) \<le> 2115" and "1 \<le> unat (td_base_value td)"
    and "length (td_bit_probabilities td) \<le> 16"
  shows "returns (td_decode td) (\<lambda>v. 1 \<le> unat v \<and> unat v \<le> 2114)"
proof -
  have "returns (read_increment (td_bit_probabilities td) 0) (\<lambda>x. unat x < 2 ^ (length (td_bit_probabilities td) + 0))"
    using assms(3) by (intro increment_returns) simp_all
  then show ?thesis
    unfolding td_decode_def [abs_def]
  proof (rule returns_bind, intro returns_return)
    fix x :: u16
    assume x: "unat x < 2 ^ (length (td_bit_probabilities td) + 0)"
    then have "unat (td_base_value td) + unat x < 2 ^ 16" using assms(1) by simp
    then have "unat (td_base_value td + x) = unat (td_base_value td) + unat x"
      by (simp add: unat_word_ariths)
    then show "1 \<le> unat (td_base_value td + x) \<and> unat (td_base_value td + x) \<le> 2114"
      using x assms(1,2) by simp
  qed
qed

lemma value_returns: "returns (read_value prob) (\<lambda>(v, c). 1 \<le> unat v \<and> unat v \<le> 2114 \<and> c \<le> 2)"
proof -
  let ?P = "\<lambda>v :: u16. 1 \<le> unat v \<and> unat v \<le> 2114"
  have td: "returns (td_decode td) ?P" if "td \<in> {token_decoder_1, token_decoder_2, token_decoder_3, token_decoder_4, token_decoder_5}" for td
    using that by (intro td_returns) (auto simp: token_decoder_defs)
  have category: "returns (read_category prob) ?P"
    unfolding read_category_def [abs_def]
    by (intro returns_bind [OF returns_get] returns_if td returns_return) simp_all
  have large: "returns (read_large prob) ?P"
    unfolding read_large_def [abs_def]
    by (intro returns_bind [OF returns_get] returns_if category returns_return) simp_all
  show ?thesis
    unfolding read_value_def [abs_def]
    by (intro returns_bind [OF returns_get] returns_if returns_bind [OF large] returns_return) simp_all
qed


section \<open>Blocks survive\<close>

lemma sint_i16: "- 32768 \<le> sint (c :: i16)" "sint (c :: i16) < 32768"
  using sint_greater_eq [of c] sint_less [of c] by simp_all

lemma unat_token_value: "unat (token_value c) = nat \<bar>sint c\<bar>"
proof -
  have "\<bar>sint c\<bar> < 2 ^ 16" "0 \<le> \<bar>sint c\<bar>" using sint_i16 [of c] by auto
  then show ?thesis
    unfolding token_value_def unat_eq_nat_uint by (simp add: uint_word_of_int)
qed

lemma token_value_eq_0: "token_value c = 0 \<longleftrightarrow> c = 0"
proof -
  have "token_value c = 0 \<longleftrightarrow> sint c = 0" by (simp add: u16_eq_iff unat_token_value)
  also have "\<dots> \<longleftrightarrow> c = 0" by (metis signed_0 signed_word_eqI)
  finally show ?thesis .
qed

lemma signed_token_value: "(if c <s 0 then - token_value c else token_value c) = c"
proof -
  have "(word_of_int (sint c) :: i16) = c" by simp
  then show ?thesis
    unfolding token_value_def word_sless_alt by (simp flip: of_int_minus)
qed

text \<open>The coefficients that \<open>n\<close> tokens from an index on leave in a block.\<close>

definition put_coefficient :: "coefficients \<Rightarrow> nat \<Rightarrow> coefficients \<times> bool \<Rightarrow> coefficients \<times> bool" where
  "put_coefficient coefs i st =
     (if coefs ! (zigzag ! i) = 0 then st else ((fst st)[zigzag ! i := coefs ! (zigzag ! i)], True))"

primrec fill :: "coefficients \<Rightarrow> nat \<Rightarrow> nat \<Rightarrow> coefficients \<times> bool \<Rightarrow> coefficients \<times> bool" where
  "fill coefs 0 i st = st"
| "fill coefs (Suc n) i st = fill coefs n (i + 1) (put_coefficient coefs i st)"

lemma end_codes:
  assumes "i + m = 16" and "len < 16 \<longleftrightarrow> i < 16"
  shows "codes (write_end probs len i False ctx) (parse_loop probs m i False ctx st) st"
proof (cases m)
  case 0
  then have "write_end probs len i False ctx = enc_seq []"
    using assms by (simp add: write_end_def del: enc_seq.simps)
  then show ?thesis
    using codes_done [OF refl, of st] by (simp only: 0 parse_loop.simps(1) [abs_def])
next
  case (Suc k)
  then have we: "write_end probs len i False ctx = be_put False (prob_at probs i ctx ! 0)"
    using assms by (simp add: write_end_def)
  show ?thesis
    unfolding Suc parse_loop.simps Let_def we branch_simps
    by (rule codes_seq1 [THEN iffD1], rule codes_put_step, simp only: branch_simps, rule codes_done [OF refl])
qed

lemma go_on_codes:
  "codes (if \<not> lwz then be_put True p else enc_seq []) (\<lambda>d. if \<not> lwz then bd_get p d else Some (True, d)) True"
  by (cases lwz) (simp_all add: codes_put codes_done del: enc_seq.simps)

lemma go_on_step:
  assumes "codes (enc_seq fs) (k True) y"
  shows "codes (enc_seq ((if \<not> lwz then be_put True p else enc_seq []) # fs))
    (\<lambda>d. do { (more, d) \<leftarrow> (if \<not> lwz then bd_get p d else Some (True, d)); k more d }) y"
  by (rule codes_step, rule go_on_codes, rule assms)

lemma loop_codes:
  assumes "n \<le> m" and "i + m = 16" and "len < 16 \<longleftrightarrow> i + n < 16" and "lwz \<longrightarrow> 0 < n"
    and "0 < n \<longrightarrow> coefs ! (zigzag ! (i + n - 1)) \<noteq> 0"
    and "\<forall>j. i \<le> j \<and> j < i + n \<longrightarrow> \<bar>sint (coefs ! (zigzag ! j))\<bar> \<le> 2114"
  shows "codes (serialize_loop probs coefs len n i lwz ctx) (parse_loop probs m i lwz ctx st) (fill coefs n i st)"
  using assms
proof (induction n arbitrary: m i lwz ctx st)
  case 0
  then show ?case by (simp add: end_codes)
next
  case (Suc n)
  obtain k where m: "m = Suc k" using Suc.prems(1) by (cases m) auto
  let ?c = "coefs ! (zigzag ! i)"
  let ?p = "prob_at probs i ctx"
  have rest: "codes (serialize_loop probs coefs len n (i + 1) lwz' ctx') (parse_loop probs k (i + 1) lwz' ctx' st')
      (fill coefs n (i + 1) st')" if "lwz' \<longrightarrow> 0 < n" for lwz' ctx' st'
    using that Suc.prems m by (intro Suc.IH) auto
  show ?case
  proof (cases "?c = 0")
    case True
    then have n: "0 < n" using Suc.prems(5) by (cases n) auto
    have v: "token_value ?c = 0" using True by (simp add: token_value_eq_0)
    show ?thesis
      unfolding m serialize_loop.simps parse_loop.simps Let_def if_P [OF v]
      by (rule go_on_step, simp only: branch_simps, rule codes_put_step, simp only: branch_simps codes_seq1)
        (use rest [of True 0 st] n True in \<open>simp add: put_coefficient_def\<close>)
  next
    case False
    then have v: "token_value ?c \<noteq> 0" by (simp add: token_value_eq_0)
    have "\<bar>sint ?c\<bar> \<le> 2114" using Suc.prems(6) by auto
    then have "unat (token_value ?c) < 2115" by (simp add: unat_token_value)
    note val = value_codes [OF v this, of ?p]
    show ?thesis
      unfolding m serialize_loop.simps parse_loop.simps Let_def if_not_P [OF v]
    proof (rule go_on_step, simp only: branch_simps, rule codes_put_step, simp only: branch_simps,
        rule codes_step [OF val], simp only: prod.case, rule codes_put_step, simp only: codes_seq1 signed_token_value)
      show "codes (serialize_loop probs coefs len n (i + 1) False (if token_value ?c = 1 then 1 else 2))
          (parse_loop probs k (i + 1) False (if token_value ?c = 1 then 1 else 2) ((fst st)[zigzag ! i := ?c], True))
          (fill coefs (Suc n) i st)"
        using rest [of False "if token_value ?c = 1 then 1 else 2" "((fst st)[zigzag ! i := ?c], True)"] False
        by (simp add: put_coefficient_def)
    qed
  qed
qed

lemma fold_last_nonzero:
  fixes P :: "nat \<Rightarrow> bool" and a b :: nat
  shows "fold (\<lambda>i len. if P i then Suc i else len) [a..<b] 0 = L \<Longrightarrow>
   (L = 0 \<and> (\<forall>j. a \<le> j \<and> j < b \<longrightarrow> \<not> P j)) \<or> (a < L \<and> L \<le> b \<and> P (L - 1) \<and> (\<forall>j. L \<le> j \<and> j < b \<longrightarrow> \<not> P j))"
proof (induction b arbitrary: L)
  case (Suc b)
  show ?case
  proof (cases "a \<le> b \<and> P b")
    case True
    then show ?thesis using Suc.prems by auto
  next
    case False
    then have "fold (\<lambda>i len. if P i then Suc i else len) [a..<b] 0 = L"
      using Suc.prems by (cases "a \<le> b") auto
    from Suc.IH [OF this] False show ?thesis by (auto simp: less_Suc_eq)
  qed
qed simp

lemma length_fill [simp]: "length (fst (fill coefs n i st)) = length (fst st)"
  by (induction n arbitrary: i st) (simp_all add: put_coefficient_def)

lemma zigzag_length [simp]: "length zigzag = 16"
  by (simp add: zigzag_def)

lemma zigzag_distinct: "distinct zigzag"
  by (simp add: zigzag_def)

lemma zigzag_set: "set zigzag = {..<16}"
proof -
  have "set zigzag \<subseteq> {..<16}" by (simp add: zigzag_def)
  moreover have "card (set zigzag) = card {..<16::nat}" by (simp add: distinct_card [OF zigzag_distinct])
  ultimately show ?thesis by (intro card_subset_eq) simp_all
qed

lemma zigzag_less [simp]: "i < 16 \<Longrightarrow> zigzag ! i < 16"
  using nth_mem [of i zigzag] by (simp add: zigzag_set)

lemma zigzag_onto: "p < 16 \<Longrightarrow> \<exists>j<16. zigzag ! j = p"
  using zigzag_set by (metis in_set_conv_nth lessThan_iff zigzag_length)

lemma zigzag_inj: "i < 16 \<Longrightarrow> j < 16 \<Longrightarrow> zigzag ! i = zigzag ! j \<longleftrightarrow> i = j"
  using nth_eq_iff_index_eq [OF zigzag_distinct] by simp

lemma zigzag_0: "zigzag ! 0 = 0"
  by (simp add: zigzag_def)

lemma fill_spec:
  assumes "i + n \<le> 16" and "length (fst st) = 16"
  shows "(\<forall>j<16. fst (fill coefs n i st) ! (zigzag ! j) =
      (if i \<le> j \<and> j < i + n \<and> coefs ! (zigzag ! j) \<noteq> 0 then coefs ! (zigzag ! j) else fst st ! (zigzag ! j))) \<and>
    (snd (fill coefs n i st) \<longleftrightarrow> snd st \<or> (\<exists>j. i \<le> j \<and> j < i + n \<and> coefs ! (zigzag ! j) \<noteq> 0))"
  using assms
proof (induction n arbitrary: i st)
  case (Suc n)
  let ?st = "put_coefficient coefs i st"
  have len: "length (fst ?st) = 16" using Suc.prems(2) by (simp add: put_coefficient_def)
  have st: "fst ?st ! (zigzag ! j) = (if j = i \<and> coefs ! (zigzag ! j) \<noteq> 0 then coefs ! (zigzag ! j) else fst st ! (zigzag ! j))"
    if "j < 16" for j
    using that Suc.prems zigzag_inj [of i j] by (auto simp: put_coefficient_def nth_list_update)
  have nz: "snd ?st \<longleftrightarrow> snd st \<or> coefs ! (zigzag ! i) \<noteq> 0" by (simp add: put_coefficient_def)
  have split: "i \<le> j \<and> j < i + Suc n \<longleftrightarrow> j = i \<or> i + 1 \<le> j \<and> j < i + 1 + n" for j by auto
  have ih: "\<forall>j<16. fst (fill coefs n (i + 1) ?st) ! (zigzag ! j) =
      (if i + 1 \<le> j \<and> j < i + 1 + n \<and> coefs ! (zigzag ! j) \<noteq> 0 then coefs ! (zigzag ! j) else fst ?st ! (zigzag ! j))"
    "snd (fill coefs n (i + 1) ?st) \<longleftrightarrow> snd ?st \<or> (\<exists>j. i + 1 \<le> j \<and> j < i + 1 + n \<and> coefs ! (zigzag ! j) \<noteq> 0)"
    using Suc.IH [of "i + 1" ?st] Suc.prems(1) len by simp_all
  show ?case
    unfolding fill.simps split [unfolded conj_assoc [symmetric]] conj_assoc [symmetric] split
    using ih st nz by (auto simp: conj_assoc)
qed auto

text \<open>A block that the tokens can carry.\<close>

definition block_ok :: "block_type \<Rightarrow> coefficients \<times> bool \<Rightarrow> bool" where
  "block_ok t b \<longleftrightarrow> length (fst b) = 16 \<and> (\<forall>c\<in>set (fst b). \<bar>sint c\<bar> \<le> 2114) \<and>
     (t = Y_after_Y2 \<longrightarrow> fst b ! 0 = 0) \<and> (snd b \<longleftrightarrow> calculate_has_nonzero (fst b))"

lemma block_codes:
  assumes ok: "block_ok t (coefs, nz)"
  shows "codes (serialize_tokens probs t a l coefs) (parse_tokens probs t a l (no_coefficients, False)) (coefs, nz)"
proof -
  let ?a = "first_index t" and ?L = "coded_length t coefs"
  let ?n = "?L - ?a"
  have a: "?a \<le> 1" by (simp add: first_index_def)
  have L: "(?L = 0 \<and> (\<forall>j. ?a \<le> j \<and> j < 16 \<longrightarrow> coefs ! (zigzag ! j) = 0)) \<or>
      (?a < ?L \<and> ?L \<le> 16 \<and> coefs ! (zigzag ! (?L - 1)) \<noteq> 0 \<and> (\<forall>j. ?L \<le> j \<and> j < 16 \<longrightarrow> coefs ! (zigzag ! j) = 0))"
    using fold_last_nonzero [of "\<lambda>i. coefs ! (zigzag ! i) \<noteq> 0" ?a 16 ?L] by (simp add: coded_length_def)
  have len: "length coefs = 16" and bound: "\<And>p. p < 16 \<Longrightarrow> \<bar>sint (coefs ! p)\<bar> \<le> 2114"
    using ok by (auto simp: block_ok_def)
  have "codes (serialize_loop (probs ! block_type_index t) coefs ?L ?n ?a False (neighbour_context a l))
      (parse_loop (probs ! block_type_index t) (16 - ?a) ?a False (neighbour_context a l) (no_coefficients, False))
      (fill coefs ?n ?a (no_coefficients, False))"
    using L a bound by (intro loop_codes) auto
  moreover have "fill coefs ?n ?a (no_coefficients, False) = (coefs, nz)"
  proof -
    let ?r = "fill coefs ?n ?a (no_coefficients, False)"
    have start: "coefs ! (zigzag ! j) = 0" if "j < ?a" for j
      using that ok zigzag_0 by (auto simp: first_index_def block_ok_def split: if_splits)
    have "?a + ?n \<le> 16" using L a by auto
    from fill_spec [OF this, of "(no_coefficients, False)" coefs]
    have spec: "\<forall>j<16. fst ?r ! (zigzag ! j) =
        (if ?a \<le> j \<and> j < ?a + ?n \<and> coefs ! (zigzag ! j) \<noteq> 0 then coefs ! (zigzag ! j) else 0)"
      "snd ?r \<longleftrightarrow> (\<exists>j. ?a \<le> j \<and> j < ?a + ?n \<and> coefs ! (zigzag ! j) \<noteq> 0)"
      by (auto simp: no_coefficients_def)
    have outside: "coefs ! (zigzag ! j) = 0" if "j < 16" "\<not> (?a \<le> j \<and> j < ?a + ?n)" for j
      using that start [of j] L by (cases "j < ?a") auto
    have "fst ?r ! (zigzag ! j) = coefs ! (zigzag ! j)" if "j < 16" for j
      using spec(1) outside [OF that] that by auto
    then have fst: "fst ?r ! p = coefs ! p" if "p < 16" for p
      using zigzag_onto [OF that] by auto
    have eq: "fst ?r = coefs"
      by (rule nth_equalityI) (simp_all add: len no_coefficients_def fst [unfolded no_coefficients_def])
    have "snd ?r \<longleftrightarrow> (\<exists>p<16. coefs ! p \<noteq> 0)"
    proof
      assume "snd ?r"
      then obtain j where "j < ?a + ?n" "coefs ! (zigzag ! j) \<noteq> 0" using spec(2) by blast
      then show "\<exists>p<16. coefs ! p \<noteq> 0"
        using \<open>?a + ?n \<le> 16\<close> by (intro exI [of _ "zigzag ! j"]) simp
    next
      assume "\<exists>p<16. coefs ! p \<noteq> 0"
      then obtain j where "j < 16" "coefs ! (zigzag ! j) \<noteq> 0" using zigzag_onto by blast
      then show "snd ?r" using outside [of j] spec(2) by blast
    qed
    also have "\<dots> \<longleftrightarrow> nz"
      using ok len by (auto simp: block_ok_def calculate_has_nonzero_def list_eq_iff_nth_eq)
    finally show ?thesis using eq by (simp add: prod_eq_iff)
  qed
  ultimately show ?thesis
    unfolding serialize_tokens_def parse_tokens_def Let_def by simp
qed

lemma sint_small_value:
  assumes "1 \<le> unat v \<and> unat v \<le> 2114"
  shows "sint (v :: i16) = int (unat v)" and "sint (- v) = - int (unat v)"
proof -
  have "uint v = int (unat v)" by (rule uint_nat)
  then have u: "0 \<le> uint v" "uint v \<le> 2114"
    using assms by linarith+
  have lower: "- (2 ^ 15) \<le> uint v" by (rule order_trans [OF _ u(1)]) simp
  have upper: "uint v < 2 ^ 15" by (rule le_less_trans [OF u(2)]) simp
  have "sint v = signed_take_bit 15 (uint v)"
    by (subst sint_uint) simp
  also have "\<dots> = uint v"
    using lower upper by (rule signed_take_bit_int_eq_self)
  finally show v: "sint v = int (unat v)" by simp
  have "uint (- v) = take_bit 16 (- uint v)"
    by (simp add: uint_word_ariths take_bit_eq_mod)
  then have "sint (- v) = signed_take_bit 15 (- uint v)"
    by (subst sint_uint) (simp add: signed_take_bit_take_bit)
  also have "\<dots> = - uint v"
  proof (rule signed_take_bit_int_eq_self)
    show "- (2 ^ 15) \<le> - uint v" using u(2) by simp
    show "- uint v < 2 ^ 15" by (rule le_less_trans [of _ 0]) (use u(1) in simp_all)
  qed
  finally show "sint (- v) = - int (unat v)" by simp
qed

text \<open>Reading a block ends on every input, in a block the tokens can carry.\<close>

lemma parse_loop_returns:
  assumes "index + n = 16" and "length (fst st) = 16" and "\<forall>c\<in>set (fst st). \<bar>sint c\<bar> \<le> 2114"
  shows "returns (parse_loop probs n index lwz ctx st) (\<lambda>(cs, nz). length cs = 16 \<and> (\<forall>c\<in>set cs. \<bar>sint c\<bar> \<le> 2114))"
  using assms
proof (induction n arbitrary: index lwz ctx st)
  case 0
  then show ?case unfolding parse_loop.simps by (intro returns_return) (cases st, simp)
next
  case (Suc n)
  let ?P = "\<lambda>(cs, nz :: bool). length cs = 16 \<and> (\<forall>c\<in>set cs. \<bar>sint (c :: i16)\<bar> \<le> 2114)"
  have more: "returns (\<lambda>d. if \<not> lwz then bd_get p d else Some (True, d)) (\<lambda>_. True)" for p
    by (intro returns_if returns_get returns_return) simp
  have store: "returns (parse_loop probs n (Suc index) lwz' ctx' ((fst st)[zigzag ! index := if neg then - v else v], True)) ?P"
    if "1 \<le> unat v \<and> unat v \<le> 2114" for neg v lwz' ctx'
  proof (rule Suc.IH)
    have "\<bar>int (unat v)\<bar> \<le> 2114" using that by linarith
    then have "\<bar>sint (if neg then - v else v)\<bar> \<le> 2114"
      unfolding if_distrib [of sint] sint_small_value [OF that] by (cases neg) simp_all
    then show "\<forall>c\<in>set (fst ((fst st)[zigzag ! index := if neg then - v else v], True)). \<bar>sint c\<bar> \<le> 2114"
      using Suc.prems(3) set_update_subset_insert [of "fst st" "zigzag ! index"] by fastforce
  qed (use Suc.prems in simp_all)
  have zero: "returns (parse_loop probs n (index + 1) True 0 st) ?P"
    using Suc.prems by (intro Suc.IH) simp_all
  show ?case
    unfolding parse_loop.simps Let_def
    by (intro returns_bind [OF more] returns_if returns_bind [OF returns_get] zero returns_return)
      (use Suc.prems in \<open>simp add: case_prod_beta\<close>, intro returns_bind [OF value_returns], clarsimp,
        intro returns_bind [OF returns_get], rule store, simp)
qed


section \<open>A macroblock\<close>

text \<open>A plane of blocks is parsed row by row; the block above and the block to the left decide
  the first context, and outside the macroblock they are those of the neighbouring macroblocks,
  if there are any.\<close>

primrec parse_row ::
  "band_probs list \<Rightarrow> block_type \<Rightarrow> bool option list \<Rightarrow> bool option \<Rightarrow> (coefficients \<times> bool) list reader" where
  "parse_row probs t [] left_nz d = Some ([], d)"
| "parse_row probs t (above_nz # as) left_nz d =
     do { (b, d) \<leftarrow> parse_tokens probs t above_nz left_nz (no_coefficients, False) d;
          (bs, d) \<leftarrow> parse_row probs t as (Some (snd b)) d;
          Some (b # bs, d) }"

primrec parse_plane ::
  "band_probs list \<Rightarrow> block_type \<Rightarrow> bool option list \<Rightarrow> bool option list \<Rightarrow>
   (coefficients \<times> bool) list list reader" where
  "parse_plane probs t above_row [] d = Some ([], d)"
| "parse_plane probs t above_row (left_nz # ls) d =
     do { (row, d) \<leftarrow> parse_row probs t above_row left_nz d;
          (rows, d) \<leftarrow> parse_plane probs t (map (Some \<circ> snd) row) ls d;
          Some (row # rows, d) }"

fun serialize_row ::
  "band_probs list \<Rightarrow> block_type \<Rightarrow> bool option list \<Rightarrow> bool option \<Rightarrow> (coefficients \<times> bool) list \<Rightarrow> writer" where
  "serialize_row probs t (above_nz # as) left_nz (b # bs) =
     enc_seq [serialize_tokens probs t above_nz left_nz (fst b), serialize_row probs t as (Some (snd b)) bs]"
| "serialize_row probs t _ left_nz _ = enc_seq []"

fun serialize_plane ::
  "band_probs list \<Rightarrow> block_type \<Rightarrow> bool option list \<Rightarrow> bool option list \<Rightarrow>
   (coefficients \<times> bool) list list \<Rightarrow> writer" where
  "serialize_plane probs t above_row (left_nz # ls) (row # rows) =
     enc_seq [serialize_row probs t above_row left_nz row, serialize_plane probs t (map (Some \<circ> snd) row) ls rows]"
| "serialize_plane probs t above_row _ _ = enc_seq []"

record neighbours =
  nb_above :: "bool option list"
  nb_left :: "bool option list"

record residue_context =
  rc_Y2 :: "bool option \<times> bool option"
  rc_Y :: neighbours
  rc_U :: neighbours
  rc_V :: neighbours

record residue =
  rs_Y2 :: "(coefficients \<times> bool) option"
  rs_Y :: "(coefficients \<times> bool) list list"
  rs_U :: "(coefficients \<times> bool) list list"
  rs_V :: "(coefficients \<times> bool) list list"

definition y_type :: "bool \<Rightarrow> block_type" where
  "y_type y2_coded = (if y2_coded then Y_after_Y2 else Y_without_Y2)"

text \<open>\<open>Macroblock::parse_tokens\<close> of a macroblock that is not skipped; a skipped one has no
  residue.  The \<open>Y2\<close> block takes part when the prediction mode has one.\<close>

definition parse_residue :: "band_probs list \<Rightarrow> bool \<Rightarrow> residue_context \<Rightarrow> residue reader" where
  "parse_residue probs y2_coded cx d =
     do { (y2, d) \<leftarrow> dec_optional (parse_tokens probs Y2 (fst (rc_Y2 cx)) (snd (rc_Y2 cx)) (no_coefficients, False)) y2_coded d;
          (y, d) \<leftarrow> parse_plane probs (y_type y2_coded) (nb_above (rc_Y cx)) (nb_left (rc_Y cx)) d;
          (u, d) \<leftarrow> parse_plane probs UV (nb_above (rc_U cx)) (nb_left (rc_U cx)) d;
          (v, d) \<leftarrow> parse_plane probs UV (nb_above (rc_V cx)) (nb_left (rc_V cx)) d;
          Some (\<lparr>rs_Y2 = y2, rs_Y = y, rs_U = u, rs_V = v\<rparr>, d) }"

definition parse_macroblock_tokens ::
  "band_probs list \<Rightarrow> bool option \<Rightarrow> bool \<Rightarrow> residue_context \<Rightarrow> residue option reader" where
  "parse_macroblock_tokens probs mb_skip_coeff y2_coded cx =
     dec_optional (parse_residue probs y2_coded cx) (\<not> (case mb_skip_coeff of None \<Rightarrow> False | Some b \<Rightarrow> b))"

definition macroblock_has_nonzero :: "residue option \<Rightarrow> bool" where
  "macroblock_has_nonzero r =
     (case r of None \<Rightarrow> False
      | Some r \<Rightarrow> (case rs_Y2 r of None \<Rightarrow> False | Some b \<Rightarrow> snd b) \<or>
          list_ex (list_ex snd) (rs_Y r) \<or> list_ex (list_ex snd) (rs_U r) \<or> list_ex (list_ex snd) (rs_V r))"

definition serialize_residue :: "band_probs list \<Rightarrow> bool \<Rightarrow> residue_context \<Rightarrow> residue \<Rightarrow> writer" where
  "serialize_residue probs y2_coded cx r =
     enc_seq
      [enc_optional (\<lambda>b. serialize_tokens probs Y2 (fst (rc_Y2 cx)) (snd (rc_Y2 cx)) (fst b)) (rs_Y2 r),
       serialize_plane probs (y_type y2_coded) (nb_above (rc_Y cx)) (nb_left (rc_Y cx)) (rs_Y r),
       serialize_plane probs UV (nb_above (rc_U cx)) (nb_left (rc_U cx)) (rs_U r),
       serialize_plane probs UV (nb_above (rc_V cx)) (nb_left (rc_V cx)) (rs_V r)]"

definition serialize_macroblock_tokens ::
  "band_probs list \<Rightarrow> bool option \<Rightarrow> bool \<Rightarrow> residue_context \<Rightarrow> residue option \<Rightarrow> writer" where
  "serialize_macroblock_tokens probs mb_skip_coeff y2_coded cx r =
     (if (case mb_skip_coeff of None \<Rightarrow> False | Some b \<Rightarrow> b) then enc_seq []
      else enc_optional (serialize_residue probs y2_coded cx) r)"

text \<open>A macroblock's residue as the format allows it: a \<open>Y2\<close> block exactly when the mode has
  one, planes of the shape of the contexts, and blocks the tokens can carry.\<close>

definition plane_ok :: "block_type \<Rightarrow> neighbours \<Rightarrow> (coefficients \<times> bool) list list \<Rightarrow> bool" where
  "plane_ok t nb rows \<longleftrightarrow> length rows = length (nb_left nb) \<and>
     (\<forall>row\<in>set rows. length row = length (nb_above nb) \<and> list_all (block_ok t) row)"

definition residue_ok :: "bool \<Rightarrow> residue_context \<Rightarrow> residue \<Rightarrow> bool" where
  "residue_ok y2_coded cx r \<longleftrightarrow>
     (rs_Y2 r \<noteq> None) = y2_coded \<and> ok_option (block_ok Y2) (rs_Y2 r) \<and>
     plane_ok (y_type y2_coded) (rc_Y cx) (rs_Y r) \<and> plane_ok UV (rc_U cx) (rs_U r) \<and> plane_ok UV (rc_V cx) (rs_V r)"

lemma row_codes:
  "length row = length above_row \<Longrightarrow> list_all (block_ok t) row \<Longrightarrow>
   codes (serialize_row probs t above_row l row) (parse_row probs t above_row l) row"
proof (induction row arbitrary: above_row l)
  case Nil
  then show ?case by (simp add: codes_done parse_row.simps(1) [abs_def] del: enc_seq.simps)
next
  case (Cons b row)
  then obtain a as where as: "above_row = a # as" "length row = length as" by (cases above_row) auto
  have "codes (serialize_tokens probs t a l (fst b)) (parse_tokens probs t a l (no_coefficients, False)) b"
    using block_codes [of t "fst b" "snd b"] Cons.prems(2) by simp
  moreover have "codes (enc_seq [serialize_row probs t as (Some (snd b)) row])
      (\<lambda>d. do { (bs, d) \<leftarrow> parse_row probs t as (Some (snd b)) d; Some (b # bs, d) }) (b # row)"
    unfolding codes_seq1 using Cons.IH [OF as(2)] Cons.prems(2) by (intro codes_map) simp_all
  ultimately show ?case
    unfolding as(1) serialize_row.simps parse_row.simps by (rule codes_step)
qed

lemma plane_codes:
  "length rows = length ls \<Longrightarrow> \<forall>row\<in>set rows. length row = length above_row \<and> list_all (block_ok t) row \<Longrightarrow>
   codes (serialize_plane probs t above_row ls rows) (parse_plane probs t above_row ls) rows"
proof (induction rows arbitrary: above_row ls)
  case Nil
  then show ?case by (simp add: codes_done parse_plane.simps(1) [abs_def] del: enc_seq.simps)
next
  case (Cons row rows)
  then obtain l ls' where ls: "ls = l # ls'" "length rows = length ls'" by (cases ls) auto
  have "codes (serialize_row probs t above_row l row) (parse_row probs t above_row l) row"
    using Cons.prems(2) by (intro row_codes) simp_all
  moreover have "codes (enc_seq [serialize_plane probs t (map (Some \<circ> snd) row) ls' rows])
      (\<lambda>d. do { (rs, d) \<leftarrow> parse_plane probs t (map (Some \<circ> snd) row) ls' d; Some (row # rs, d) }) (row # rows)"
    unfolding codes_seq1 using Cons.IH [OF ls(2), of "map (Some \<circ> snd) row"] Cons.prems(2) by (intro codes_map) simp_all
  ultimately show ?case
    unfolding ls(1) serialize_plane.simps parse_plane.simps by (rule codes_step)
qed

lemma residue_codes:
  assumes "residue_ok y2_coded cx r"
  shows "codes (serialize_residue probs y2_coded cx r) (parse_residue probs y2_coded cx) r"
proof -
  have plane: "codes (serialize_plane probs t (nb_above nb) (nb_left nb) rows)
      (parse_plane probs t (nb_above nb) (nb_left nb)) rows" if "plane_ok t nb rows" for t nb rows
    using that by (intro plane_codes) (simp_all add: plane_ok_def)
  have y2: "codes (enc_optional (\<lambda>b. serialize_tokens probs Y2 a l (fst b)) (rs_Y2 r))
      (dec_optional (parse_tokens probs Y2 a l (no_coefficients, False)) y2_coded) (rs_Y2 r)" for a l
  proof (cases "rs_Y2 r")
    case None
    then show ?thesis using assms by (simp add: residue_ok_def enc_optional_def dec_optional_def [abs_def] codes_nothing)
  next
    case (Some b)
    then have "codes (serialize_tokens probs Y2 a l (fst b)) (parse_tokens probs Y2 a l (no_coefficients, False)) b"
      using block_codes [of Y2 "fst b" "snd b"] assms by (simp add: residue_ok_def)
    then show ?thesis
      using Some assms codes_map [of _ _ b Some] by (simp add: residue_ok_def enc_optional_def dec_optional_def [abs_def])
  qed
  show ?thesis
    using assms unfolding serialize_residue_def parse_residue_def [abs_def] residue_ok_def
    by (intro codes_step [OF y2] codes_step [OF plane] codes_done) simp_all
qed

section \<open>Properties\<close>

text \<open>C16: The residue of a macroblock survives the token partition.  Whatever the probabilities and
  the neighbouring macroblocks, a residue within the range of the tokens is written without an error,
  and parsing the finished bytes in the same contexts restores every coefficient of the \<open>Y2\<close>, \<open>Y\<close>, \<open>U\<close>
  and \<open>V\<close> blocks and every flag that tells whether a block is zero.\<close>

theorem residue_roundtrip:
  assumes "residue_ok y2_coded cx r" and "mb_skip_coeff \<noteq> Some True"
  shows "\<exists>e out d'. serialize_macroblock_tokens probs mb_skip_coeff y2_coded cx (Some r) bool_encoder_init = Some e \<and>
    be_finish e = Some (out, bool_encoder_init) \<and>
    parse_macroblock_tokens probs mb_skip_coeff y2_coded cx (bool_decoder_init out complete) = Some (Some r, d')"
proof -
  have skip: "\<not> (case mb_skip_coeff of None \<Rightarrow> False | Some b \<Rightarrow> b)"
    using assms(2) by (auto split: option.splits)
  then have enc: "serialize_macroblock_tokens probs mb_skip_coeff y2_coded cx (Some r) = serialize_residue probs y2_coded cx r"
    by (simp add: serialize_macroblock_tokens_def enc_optional_def)
  have dec: "parse_macroblock_tokens probs mb_skip_coeff y2_coded cx =
      (\<lambda>d. do { (x, d) \<leftarrow> parse_residue probs y2_coded cx d; Some (Some x, d) })"
    using skip by (simp add: parse_macroblock_tokens_def dec_optional_def [abs_def])
  have "codes (serialize_macroblock_tokens probs mb_skip_coeff y2_coded cx (Some r))
      (parse_macroblock_tokens probs mb_skip_coeff y2_coded cx) (Some r)"
    unfolding enc dec by (rule codes_map [OF residue_codes [OF assms(1)]]) simp
  from this obtain e out d' where
    "serialize_macroblock_tokens probs mb_skip_coeff y2_coded cx (Some r) bool_encoder_init = Some e"
    "be_finish e = Some (out, bool_encoder_init)"
    "parse_macroblock_tokens probs mb_skip_coeff y2_coded cx (bool_decoder_init out complete) = Some (Some r, d')"
    by (rule codes_whole [where complete = complete])
  then show ?thesis by blast
qed

text \<open>A luma macroblock with one coefficient, at the corner of a frame.\<close>

definition example_residue :: residue where
  "example_residue =
     \<lparr>rs_Y2 = Some (no_coefficients[3 := - 70], True),
      rs_Y = replicate 4 (replicate 4 (no_coefficients, False)),
      rs_U = replicate 2 (replicate 2 (no_coefficients, False)),
      rs_V = replicate 2 (replicate 2 (no_coefficients, False))\<rparr>"

definition flat_probs :: "band_probs list" where
  "flat_probs = replicate 4 (replicate 8 (replicate 3 (replicate 11 128)))"

definition corner_context :: residue_context where
  "corner_context =
     \<lparr>rc_Y2 = (None, None),
      rc_Y = \<lparr>nb_above = replicate 4 None, nb_left = replicate 4 None\<rparr>,
      rc_U = \<lparr>nb_above = replicate 2 None, nb_left = replicate 2 None\<rparr>,
      rc_V = \<lparr>nb_above = replicate 2 None, nb_left = replicate 2 None\<rparr>\<rparr>"

theorem residue_roundtrip_witness:
  "\<exists>e out d'. serialize_macroblock_tokens flat_probs (Some False) True corner_context (Some example_residue) bool_encoder_init = Some e \<and>
    be_finish e = Some (out, bool_encoder_init) \<and>
    parse_macroblock_tokens flat_probs (Some False) True corner_context (bool_decoder_init out True) = Some (Some example_residue, d')"
proof (rule residue_roundtrip)
  have "\<forall>c\<in>set (no_coefficients[3 := - 70]). \<bar>sint c\<bar> \<le> 2114"
    using set_update_subset_insert [of no_coefficients 3 "- 70"] by (auto simp: no_coefficients_def)
  moreover have "no_coefficients[3 := - 70] \<noteq> replicate 16 0"
  proof
    assume "no_coefficients[3 := - 70] = replicate 16 0"
    then have "no_coefficients[3 := - 70] ! 3 = replicate 16 0 ! 3" by simp
    then show False by (simp add: no_coefficients_def)
  qed
  ultimately show "residue_ok True corner_context example_residue"
    by (simp add: residue_ok_def example_residue_def corner_context_def plane_ok_def block_ok_def y_type_def
        calculate_has_nonzero_def list_all_iff) (simp add: no_coefficients_def)
qed simp

text \<open>Parsing a block's tokens ends on every input, also a corrupt or truncated one, and every
  coefficient it yields is between -2114 and 2114, so none overflows its 16 bits.\<close>

theorem parse_tokens_bounded:
  assumes "bd_ok d"
  shows "\<exists>coefs nz d'. parse_tokens probs t above_nz left_nz (no_coefficients, False) d = Some ((coefs, nz), d') \<and>
    bd_ok d' \<and> length coefs = 16 \<and> (\<forall>c\<in>set coefs. \<bar>sint c\<bar> \<le> 2114)"
proof -
  have "returns (parse_tokens probs t above_nz left_nz (no_coefficients, False))
      (\<lambda>(cs, nz). length cs = 16 \<and> (\<forall>c\<in>set cs. \<bar>sint c\<bar> \<le> 2114))"
    unfolding parse_tokens_def
    by (rule parse_loop_returns) (auto simp: no_coefficients_def first_index_def)
  then show ?thesis using assms unfolding returns_def by fastforce
qed

theorem parse_tokens_bounded_witness:
  "\<exists>coefs nz d'. parse_tokens flat_probs Y2 None (Some True) (no_coefficients, False) (bool_decoder_init [200, 7] True) =
      Some ((coefs, nz), d') \<and>
    bd_ok d' \<and> length coefs = 16 \<and> (\<forall>c\<in>set coefs. \<bar>sint c\<bar> \<le> 2114)"
  by (rule parse_tokens_bounded) simp

end
