(* ===== verification/Transform.thy ===== *)
theory Transform
  imports Planes Tokens Frame_Header "HOL-Library.Signed_Division"
begin

text \<open>
  From coefficients to residues and back: the quantizer (src/src/decoder/quantization.cc), the inverse
  transforms (src/src/decoder/transform.cc) and the forward transforms (src/src/decoder/dct.cc), in the
  portable versions that are compiled where there is no SSE2.  The coefficients are 16-bit words and the
  intermediate values \<open>int\<close>; no operand of theirs reaches \<open>2 ^ 31\<close>, so that an unbounded integer
  represents it, and a right shift of a negative \<open>int\<close> rounds down.
\<close>

section \<open>Quantization\<close>

definition dc_qlookup :: "int list" where
  "dc_qlookup =
     [4, 5, 6, 7, 8, 9, 10, 10, 11, 12, 13, 14, 15,
      16, 17, 17, 18, 19, 20, 20, 21, 21, 22, 22, 23, 23,
      24, 25, 25, 26, 27, 28, 29, 30, 31, 32, 33, 34, 35,
      36, 37, 37, 38, 39, 40, 41, 42, 43, 44, 45, 46, 46,
      47, 48, 49, 50, 51, 52, 53, 54, 55, 56, 57, 58, 59,
      60, 61, 62, 63, 64, 65, 66, 67, 68, 69, 70, 71, 72,
      73, 74, 75, 76, 76, 77, 78, 79, 80, 81, 82, 83, 84,
      85, 86, 87, 88, 89, 91, 93, 95, 96, 98, 100, 101, 102,
      104, 106, 108, 110, 112, 114, 116, 118, 122, 124, 126, 128, 130,
      132, 134, 136, 138, 140, 143, 145, 148, 151, 154, 157]"

definition ac_qlookup :: "int list" where
  "ac_qlookup =
     [4, 5, 6, 7, 8, 9, 10, 11, 12, 13, 14, 15, 16,
      17, 18, 19, 20, 21, 22, 23, 24, 25, 26, 27, 28, 29,
      30, 31, 32, 33, 34, 35, 36, 37, 38, 39, 40, 41, 42,
      43, 44, 45, 46, 47, 48, 49, 50, 51, 52, 53, 54, 55,
      56, 57, 58, 60, 62, 64, 66, 68, 70, 72, 74, 76, 78,
      80, 82, 84, 86, 88, 90, 92, 94, 96, 98, 100, 102, 104,
      106, 108, 110, 112, 114, 116, 119, 122, 125, 128, 131, 134, 137,
      140, 143, 146, 149, 152, 155, 158, 161, 164, 167, 170, 173, 177,
      181, 185, 189, 193, 197, 201, 205, 209, 213, 217, 221, 225, 229,
      234, 239, 245, 249, 254, 259, 264, 269, 274, 279, 284]"

definition clamp_q :: "int \<Rightarrow> nat" where
  "clamp_q q = (if q < 0 then 0 else if q > 127 then 127 else nat q)"

record quantizer =
  qz_y_ac :: u16
  qz_y_dc :: u16
  qz_y2_ac :: u16
  qz_y2_dc :: u16
  qz_uv_ac :: u16
  qz_uv_dc :: u16

definition offset_of :: "int option \<Rightarrow> int" where
  "offset_of upd = (case upd of None \<Rightarrow> 0 | Some x \<Rightarrow> x)"

definition quantizer_of :: "quant_indices \<Rightarrow> quantizer" where
  "quantizer_of qi =
     (let q = (\<lambda>upd. clamp_q (uint (qi_y_ac_qi qi) + offset_of upd));
          y2_ac = ac_qlookup ! q (qi_y2_ac qi) * 155 div 100;
          uv_dc = dc_qlookup ! q (qi_uv_dc qi) in
      \<lparr>qz_y_ac = word_of_int (ac_qlookup ! q None), qz_y_dc = word_of_int (dc_qlookup ! q (qi_y_dc qi)),
       qz_y2_ac = word_of_int (if y2_ac < 8 then 8 else y2_ac),
       qz_y2_dc = word_of_int (dc_qlookup ! q (qi_y2_dc qi) * 2),
       qz_uv_ac = word_of_int (ac_qlookup ! q (qi_uv_ac qi)),
       qz_uv_dc = word_of_int (if uv_dc > 132 then 132 else uv_dc)\<rparr>)"

type_synonym factors = "u16 \<times> u16"

definition factors_y2 :: "quantizer \<Rightarrow> factors" where "factors_y2 q = (qz_y2_dc q, qz_y2_ac q)"
definition factors_y :: "quantizer \<Rightarrow> factors" where "factors_y q = (qz_y_dc q, qz_y_ac q)"
definition factors_uv :: "quantizer \<Rightarrow> factors" where "factors_uv q = (qz_uv_dc q, qz_uv_ac q)"

definition factor_at :: "factors \<Rightarrow> nat \<Rightarrow> u16" where
  "factor_at f i = (if i = 0 then fst f else snd f)"

definition dequantize :: "factors \<Rightarrow> coefficients \<Rightarrow> coefficients" where
  "dequantize f cs = map (\<lambda>i. word_of_int (sint (cs ! i) * uint (factor_at f i))) [0..<16]"

definition quantize :: "factors \<Rightarrow> coefficients \<Rightarrow> coefficients" where
  "quantize f cs = map (\<lambda>i. word_of_int (sint (cs ! i) sdiv uint (factor_at f i))) [0..<16]"


section \<open>Inverse transforms\<close>

definition clamp255 :: "int \<Rightarrow> u8" where
  "clamp255 v = (if v < 0 then 0 else if v > 255 then 255 else word_of_int v)"

definition iwht_column :: "coefficients \<Rightarrow> nat \<Rightarrow> i16 list" where
  "iwht_column cs i =
     (let c = (\<lambda>j. sint (cs ! j));
          a1 = c i + c (i + 12); b1 = c (i + 4) + c (i + 8);
          c1 = c (i + 4) - c (i + 8); d1 = c i - c (i + 12) in
      map word_of_int [a1 + b1, c1 + d1, a1 - b1, d1 - c1])"

definition iwht_row :: "i16 list \<Rightarrow> nat \<Rightarrow> i16 list" where
  "iwht_row intermediate i =
     (let v = (\<lambda>j. sint (intermediate ! (i * 4 + j)));
          a1 = v 0 + v 3; b1 = v 1 + v 2; c1 = v 1 - v 2; d1 = v 0 - v 3 in
      map (\<lambda>x. word_of_int (drop_bit 3 (x + 3))) [a1 + b1, c1 + d1, a1 - b1, d1 - c1])"

text \<open>The first coefficients of the sixteen luma blocks, row by row.\<close>

definition iwht :: "coefficients \<Rightarrow> i16 list" where
  "iwht cs =
     (let intermediate = map (\<lambda>j. iwht_column cs (j mod 4) ! (j div 4)) [0..<16] in
      concat (map (iwht_row intermediate) [0..<4]))"

definition MUL_20091 :: "int \<Rightarrow> int" where "MUL_20091 a = drop_bit 16 (a * 20091) + a"
definition MUL_35468 :: "int \<Rightarrow> int" where "MUL_35468 a = drop_bit 16 (a * 35468)"

text \<open>Both passes of the inverse cosine transform combine the values \<open>i\<close>, \<open>i + 4\<close>, \<open>i + 8\<close> and
  \<open>i + 12\<close>.\<close>

definition idct_pass :: "i16 list \<Rightarrow> nat \<Rightarrow> int list" where
  "idct_pass xs i =
     (let c = (\<lambda>j. sint (xs ! j));
          t0 = c i + c (i + 8); t1 = c i - c (i + 8);
          t2 = MUL_35468 (c (i + 4)) - MUL_20091 (c (i + 12));
          t3 = MUL_20091 (c (i + 4)) + MUL_35468 (c (i + 12)) in
      [t0 + t3, t1 + t2, t1 - t2, t0 - t3])"

definition idct_residue :: "coefficients \<Rightarrow> int list list" where
  "idct_residue cs =
     (let intermediate = map word_of_int (concat (map (idct_pass cs) [0..<4])) in
      map (\<lambda>i. map (\<lambda>t. drop_bit 3 (t + 4)) (idct_pass intermediate i)) [0..<4])"

definition add_residue_rows :: "int list list \<Rightarrow> u8 list list \<Rightarrow> u8 list list" where
  "add_residue_rows residue block = map2 (map2 (\<lambda>r v. clamp255 (uint v + r))) residue block"

text \<open>\<open>idct_add\<close> on the block of a plane whose first pixel is given.\<close>

definition idct_add :: "coefficients \<Rightarrow> nat \<Rightarrow> nat \<Rightarrow> plane \<Rightarrow> plane option" where
  "idct_add cs column row p =
     do { block \<leftarrow> get_block p column row 4;
          put_block column row (add_residue_rows (idct_residue cs) block) p }"


section \<open>Forward transforms\<close>

definition subtract_pixels :: "u8 list list \<Rightarrow> u8 list list \<Rightarrow> i16 list" where
  "subtract_pixels block prediction =
     concat (map2 (map2 (\<lambda>b p. word_of_int (uint b - uint p))) block prediction)"

definition fdct_row :: "i16 list \<Rightarrow> nat \<Rightarrow> i16 list" where
  "fdct_row input i =
     (let v = (\<lambda>j. sint (input ! (i * 4 + j)));
          a1 = (v 0 + v 3) * 8; b1 = (v 1 + v 2) * 8; c1 = (v 1 - v 2) * 8; d1 = (v 0 - v 3) * 8 in
      map word_of_int
        [a1 + b1, drop_bit 12 (c1 * 2217 + d1 * 5352 + 14500),
         a1 - b1, drop_bit 12 (d1 * 2217 - c1 * 5352 + 7500)])"

definition fdct_column :: "i16 list \<Rightarrow> nat \<Rightarrow> i16 list" where
  "fdct_column xs i =
     (let v = (\<lambda>j. sint (xs ! (i + j)));
          a1 = v 0 + v 12; b1 = v 4 + v 8; c1 = v 4 - v 8; d1 = v 0 - v 12 in
      map word_of_int
        [drop_bit 4 (a1 + b1 + 7), drop_bit 16 (c1 * 2217 + d1 * 5352 + 12000) + of_bool (d1 \<noteq> 0),
         drop_bit 4 (a1 - b1 + 7), drop_bit 16 (d1 * 2217 - c1 * 5352 + 51000)])"

definition subtract_dct :: "u8 list list \<Rightarrow> u8 list list \<Rightarrow> coefficients" where
  "subtract_dct block prediction =
     (let rows = concat (map (fdct_row (subtract_pixels block prediction)) [0..<4]) in
      map (\<lambda>j. fdct_column rows (j mod 4) ! (j div 4)) [0..<16])"

definition wht_row :: "i16 list \<Rightarrow> nat \<Rightarrow> i16 list" where
  "wht_row input i =
     (let v = (\<lambda>j. sint (input ! (i * 4 + j)));
          a1 = (v 0 + v 2) * 4; d1 = (v 1 + v 3) * 4; c1 = (v 1 - v 3) * 4; b1 = (v 0 - v 2) * 4 in
      map word_of_int [a1 + d1 + of_bool (a1 \<noteq> 0), b1 + c1, b1 - c1, a1 - d1])"

definition wht_column :: "i16 list \<Rightarrow> nat \<Rightarrow> i16 list" where
  "wht_column xs i =
     (let v = (\<lambda>j. sint (xs ! (i + j)));
          a1 = v 0 + v 8; d1 = v 4 + v 12; c1 = v 4 - v 12; b1 = v 0 - v 8 in
      map (\<lambda>x. word_of_int (drop_bit 3 (x + of_bool (x < 0) + 3))) [a1 + d1, b1 + c1, b1 - c1, a1 - d1])"

definition wht :: "i16 list \<Rightarrow> coefficients" where
  "wht input =
     (let rows = concat (map (wht_row input) [0..<4]) in
      map (\<lambda>j. wht_column rows (j mod 4) ! (j div 4)) [0..<16])"


section \<open>Quantizer factors\<close>

lemma clamp_q_bound: "clamp_q q < 128"
  by (simp add: clamp_q_def nat_less_iff)

lemma qlookup_bounds:
  assumes "i < 128"
  shows "4 \<le> dc_qlookup ! i \<and> dc_qlookup ! i \<le> 157 \<and> 4 \<le> ac_qlookup ! i \<and> ac_qlookup ! i \<le> 284"
proof -
  have "length dc_qlookup = 128" "length ac_qlookup = 128" by (simp_all add: dc_qlookup_def ac_qlookup_def)
  moreover have "list_all (\<lambda>v. 4 \<le> v \<and> v \<le> 157) dc_qlookup" by (simp add: dc_qlookup_def)
  moreover have "list_all (\<lambda>v. 4 \<le> v \<and> v \<le> 284) ac_qlookup" by (simp add: ac_qlookup_def)
  ultimately show ?thesis using assms by (simp add: list_all_length)
qed

lemma quantizer_bounds:
  "4 \<le> uint (qz_y_dc (quantizer_of qi)) \<and> uint (qz_y_dc (quantizer_of qi)) \<le> 157"
  "4 \<le> uint (qz_y_ac (quantizer_of qi)) \<and> uint (qz_y_ac (quantizer_of qi)) \<le> 284"
  "8 \<le> uint (qz_y2_dc (quantizer_of qi)) \<and> uint (qz_y2_dc (quantizer_of qi)) \<le> 314"
  "8 \<le> uint (qz_y2_ac (quantizer_of qi)) \<and> uint (qz_y2_ac (quantizer_of qi)) \<le> 440"
  "4 \<le> uint (qz_uv_dc (quantizer_of qi)) \<and> uint (qz_uv_dc (quantizer_of qi)) \<le> 132"
  "4 \<le> uint (qz_uv_ac (quantizer_of qi)) \<and> uint (qz_uv_ac (quantizer_of qi)) \<le> 284"
proof -
  define q where "q = (\<lambda>upd. clamp_q (uint (qi_y_ac_qi qi) + offset_of upd))"
  have q: "4 \<le> dc_qlookup ! q upd \<and> dc_qlookup ! q upd \<le> 157 \<and> 4 \<le> ac_qlookup ! q upd \<and> ac_qlookup ! q upd \<le> 284" for upd
    using qlookup_bounds [OF clamp_q_bound] by (simp add: q_def)
  have eq: "quantizer_of qi = (let y2_ac = ac_qlookup ! q (qi_y2_ac qi) * 155 div 100; uv_dc = dc_qlookup ! q (qi_uv_dc qi) in
      \<lparr>qz_y_ac = word_of_int (ac_qlookup ! q None), qz_y_dc = word_of_int (dc_qlookup ! q (qi_y_dc qi)),
       qz_y2_ac = word_of_int (if y2_ac < 8 then 8 else y2_ac),
       qz_y2_dc = word_of_int (dc_qlookup ! q (qi_y2_dc qi) * 2),
       qz_uv_ac = word_of_int (ac_qlookup ! q (qi_uv_ac qi)),
       qz_uv_dc = word_of_int (if uv_dc > 132 then 132 else uv_dc)\<rparr>)"
    by (simp add: quantizer_of_def q_def Let_def)
  have y2: "ac_qlookup ! q (qi_y2_ac qi) * 155 div 100 \<le> 440"
    using q [of "qi_y2_ac qi"] by linarith
  show "4 \<le> uint (qz_y_dc (quantizer_of qi)) \<and> uint (qz_y_dc (quantizer_of qi)) \<le> 157"
    using q [of "qi_y_dc qi"] by (simp add: eq Let_def uint_u16_of_int)
  show "4 \<le> uint (qz_y_ac (quantizer_of qi)) \<and> uint (qz_y_ac (quantizer_of qi)) \<le> 284"
    using q [of None] by (simp add: eq Let_def uint_u16_of_int)
  show "8 \<le> uint (qz_y2_dc (quantizer_of qi)) \<and> uint (qz_y2_dc (quantizer_of qi)) \<le> 314"
    using q [of "qi_y2_dc qi"] uint_u16_of_int [of "dc_qlookup ! q (qi_y2_dc qi) * 2"] by (simp add: eq Let_def)
  show "8 \<le> uint (qz_y2_ac (quantizer_of qi)) \<and> uint (qz_y2_ac (quantizer_of qi)) \<le> 440"
    using y2 by (simp add: eq Let_def uint_u16_of_int)
  show "4 \<le> uint (qz_uv_dc (quantizer_of qi)) \<and> uint (qz_uv_dc (quantizer_of qi)) \<le> 132"
    using q [of "qi_uv_dc qi"] by (simp add: eq Let_def uint_u16_of_int)
  show "4 \<le> uint (qz_uv_ac (quantizer_of qi)) \<and> uint (qz_uv_ac (quantizer_of qi)) \<le> 284"
    using q [of "qi_uv_ac qi"] by (simp add: eq Let_def uint_u16_of_int)
qed

text \<open>The pairs of factors a quantizer hands to the blocks.\<close>

definition factors_from :: "quantizer \<Rightarrow> factors list" where
  "factors_from q = [factors_y2 q, factors_y q, factors_uv q]"

lemma factor_bounds:
  "f \<in> set (factors_from (quantizer_of qi)) \<Longrightarrow> 4 \<le> uint (factor_at f i) \<and> uint (factor_at f i) \<le> 440"
  using quantizer_bounds [of qi]
  by (auto simp: factors_from_def factors_y2_def factors_y_def factors_uv_def factor_at_def)


section \<open>Quantization errors\<close>

lemma sdiv_error:
  fixes c f :: int
  assumes "0 < f"
  shows "\<bar>c sdiv f * f\<bar> \<le> \<bar>c\<bar> \<and> \<bar>c - c sdiv f * f\<bar> < f \<and> \<bar>c sdiv f\<bar> \<le> \<bar>c\<bar>"
proof -
  have "\<bar>c\<bar> div f \<le> \<bar>c\<bar>" using assms zdiv_mono2 [of "\<bar>c\<bar>" 1 f] by simp
  moreover have "\<bar>c\<bar> = \<bar>c\<bar> div f * f + \<bar>c\<bar> mod f" by simp
  then have "\<bar>c\<bar> div f * f \<le> \<bar>c\<bar>" "\<bar>c\<bar> - \<bar>c\<bar> div f * f < f"
    using pos_mod_sign [OF assms, of "\<bar>c\<bar>"] pos_mod_bound [OF assms, of "\<bar>c\<bar>"] by linarith+
  moreover have "0 \<le> \<bar>c\<bar> div f" using assms by (simp add: pos_imp_zdiv_nonneg_iff)
  moreover have "c sdiv f = sgn c * (\<bar>c\<bar> div f)" using assms by (simp add: signed_divide_int_def)
  ultimately show ?thesis using assms
    by (cases c "0 :: int" rule: linorder_cases) (auto simp: abs_mult)
qed

lemma requantized_coefficient:
  fixes c :: i16 and f :: u16
  assumes "0 < uint f"
  defines "d \<equiv> sint (word_of_int (sint (word_of_int (sint c sdiv uint f) :: i16) * uint f) :: i16)"
  shows "\<bar>d\<bar> \<le> \<bar>sint c\<bar> \<and> \<bar>sint c - d\<bar> < uint f \<and> (0 \<le> sint c \<longrightarrow> 0 \<le> d) \<and> (sint c \<le> 0 \<longrightarrow> d \<le> 0)"
proof -
  note e = sdiv_error [OF assms(1), of "sint c"]
  have q: "sint (word_of_int (sint c sdiv uint f) :: i16) = sint c sdiv uint f"
  proof (rule sint_i16_of_int)
    show "- 32768 \<le> sint c sdiv uint f" using e sint_i16_bounds [of c] by linarith
    show "sint c sdiv uint f < 32768"
    proof (cases "0 \<le> sint c")
      case True
      then show ?thesis using e sint_i16_bounds [of c] by linarith
    next
      case False
      then have "sint c sdiv uint f \<le> 0" using assms(1)
        by (simp add: signed_divide_int_def sgn_if pos_imp_zdiv_nonneg_iff)
      then show ?thesis by simp
    qed
  qed
  have "sint (word_of_int (sint c sdiv uint f * uint f) :: i16) = sint c sdiv uint f * uint f"
  proof (rule sint_i16_of_int)
    show "- 32768 \<le> sint c sdiv uint f * uint f" using e sint_i16_bounds [of c] by linarith
    show "sint c sdiv uint f * uint f < 32768"
    proof (cases "0 \<le> sint c")
      case True
      then show ?thesis using e sint_i16_bounds [of c] by linarith
    next
      case False
      then have "sint c sdiv uint f \<le> 0" using assms(1)
        by (simp add: signed_divide_int_def sgn_if pos_imp_zdiv_nonneg_iff)
      then have "sint c sdiv uint f * uint f \<le> 0" using assms(1) by (simp add: mult_nonpos_nonneg)
      then show ?thesis by simp
    qed
  qed
  then have "d = sint c sdiv uint f * uint f" by (simp add: d_def q)
  moreover have "(0 \<le> sint c \<longrightarrow> 0 \<le> sint c sdiv uint f * uint f) \<and> (sint c \<le> 0 \<longrightarrow> sint c sdiv uint f * uint f \<le> 0)"
    using assms(1) by (auto simp: signed_divide_int_def sgn_if pos_imp_zdiv_nonneg_iff mult_nonpos_nonneg)
  ultimately show ?thesis using e by simp
qed

lemma quantize_dequantize_nth:
  assumes "i < 16"
  shows "dequantize f (quantize f cs) ! i =
    word_of_int (sint (word_of_int (sint (cs ! i) sdiv uint (factor_at f i)) :: i16) * uint (factor_at f i))"
  using assms by (simp add: dequantize_def quantize_def)

text \<open>A coefficient that is quantized and dequantized with the factors of any quantizer loses less
  than its factor, which is between 4 and 440, and never moves away from zero.\<close>

theorem quantization_error:
  assumes "f \<in> set (factors_from (quantizer_of qi))" and "i < 16"
  shows "\<bar>sint (dequantize f (quantize f cs) ! i)\<bar> \<le> \<bar>sint (cs ! i)\<bar> \<and>
    \<bar>sint (cs ! i) - sint (dequantize f (quantize f cs) ! i)\<bar> < uint (factor_at f i) \<and>
    4 \<le> uint (factor_at f i) \<and> uint (factor_at f i) \<le> 440"
  using factor_bounds [OF assms(1), of i] requantized_coefficient [of "factor_at f i" "cs ! i"]
  by (simp add: quantize_dequantize_nth [OF assms(2)])

lemma quantization_error_witness:
  "let qi = \<lparr>qi_y_ac_qi = 127, qi_y_dc = None, qi_y2_dc = None, qi_y2_ac = Some 15, qi_uv_dc = None, qi_uv_ac = None\<rparr>;
       f = factors_y2 (quantizer_of qi); cs = (- 1000) # replicate 15 439 in
   \<bar>sint (cs ! 0) - sint (dequantize f (quantize f cs) ! 0)\<bar> < uint (factor_at f 0)"
  unfolding Let_def
  using quantization_error [of "factors_y2 (quantizer_of q)" q 0 "(- 1000) # replicate 15 439" for q]
  by (simp only: factors_from_def list.set insert_iff simp_thms zero_less_numeral)

text \<open>A coefficient whose product with the factor fits 16 bits is read back by the quantization of
  the dequantized block.\<close>

lemma quantize_dequantize_exact:
  assumes "length cs = 16" and "0 < uint (fst f)" and "0 < uint (snd f)"
    and fits: "\<And>i. i < 16 \<Longrightarrow> \<bar>sint (cs ! i) * uint (factor_at f i)\<bar> < 32768"
  shows "quantize f (dequantize f cs) = cs"
proof (rule nth_equalityI)
  fix i assume "i < length (quantize f (dequantize f cs))"
  then have i: "i < 16" by (simp add: quantize_def)
  have pos: "0 < uint (factor_at f i)" using assms(2,3) by (simp add: factor_at_def)
  have "sint (word_of_int (sint (cs ! i) * uint (factor_at f i)) :: i16) = sint (cs ! i) * uint (factor_at f i)"
    using fits [OF i] by (intro sint_i16_of_int) linarith+
  moreover have "(sint (cs ! i) * uint (factor_at f i)) sdiv uint (factor_at f i) = sint (cs ! i)"
    using pos by (auto simp: signed_divide_int_def sgn_mult abs_mult mult_sgn_abs)
  ultimately show "quantize f (dequantize f cs) ! i = cs ! i"
    using i by (simp add: quantize_def dequantize_def)
qed (simp add: quantize_def assms(1))


section \<open>Flat blocks\<close>

text \<open>A block that has only its first coefficient is added to every pixel alike.\<close>

lemma upt4: "[0..<4] = [0, 1, 2, 3 :: nat]" by (simp add: upt_rec)

lemma upt16: "[0..<16] = [0, 1, 2, 3, 4, 5, 6, 7, 8, 9, 10, 11, 12, 13, 14, 15 :: nat]" by (simp add: upt_rec)

lemma MUL_0 [simp]: "MUL_20091 0 = 0" "MUL_35468 0 = 0" by (simp_all add: MUL_20091_def MUL_35468_def)

lemma idct_dc_only: "idct_residue (dc # replicate 15 0) = replicate 4 (replicate 4 (drop_bit 3 (sint dc + 4)))"
  by (simp add: idct_residue_def idct_pass_def upt4 Let_def numeral_nat)

lemma uint_u8_bounds: "0 \<le> uint (v :: u8) \<and> uint v \<le> 255"
  using uint_lt2p [of v] by simp

lemma pixel_difference: "\<bar>uint (b :: u8) - uint (p :: u8)\<bar> \<le> 255"
  using uint_u8_bounds [of b] uint_u8_bounds [of p] by linarith

lemma uint_clamp255: "uint (clamp255 v) = (if v < 0 then 0 else if v > 255 then 255 else v)"
  by (simp add: clamp255_def uint_word_of_int)

text \<open>A block of one colour.\<close>

definition flat :: "u8 \<Rightarrow> u8 list list" where "flat v = replicate 4 (replicate 4 v)"

lemma subtract_dct_flat:
  "subtract_dct (flat b) (flat p) = [word_of_int (8 * (uint b - uint p)), 1, 0, 0] @ replicate 12 0"
proof -
  define d where "d = uint b - uint p"
  have d: "\<bar>d\<bar> \<le> 255" unfolding d_def by (rule pixel_difference)
  have input: "subtract_pixels (flat b) (flat p) = replicate 16 (word_of_int d)"
    by (simp add: subtract_pixels_def flat_def numeral_nat d_def)
  have row: "fdct_row (replicate 16 (word_of_int d)) i = [word_of_int (32 * d), 3, 0, 1]" if "i \<in> {0, 1, 2, 3}" for i
    using sint_i16_of_int [of d] d that by (auto simp: fdct_row_def Let_def nth_replicate)
  define w where "w = (word_of_int (32 * d) :: i16)"
  have w: "sint w = 32 * d" using d unfolding w_def by (intro sint_i16_of_int) linarith+
  let ?rows = "[w, 3, 0, 1, w, 3, 0, 1, w, 3, 0, 1, w, 3, 0, 1]"
  have rows: "concat (map (fdct_row (replicate 16 (word_of_int d))) [0..<4]) = ?rows"
    by (simp add: upt4 row w_def)
  have "drop_bit 4 (128 * d + 7) = 8 * d" by (simp add: drop_bit_eq_div)
  then have c0: "fdct_column ?rows 0 = [word_of_int (8 * d), 0, 0, 0]"
    by (simp add: fdct_column_def Let_def w)
  have c: "fdct_column ?rows 1 = [1, 0, 0, 0]" "fdct_column ?rows 2 = [0, 0, 0, 0]"
      "fdct_column ?rows 3 = [0, 0, 0, 0]"
    by (simp_all add: fdct_column_def Let_def)
  have z: "replicate 12 0 = [0, 0, 0, 0, 0, 0, 0, 0, 0, 0, 0, 0 :: i16]" by (simp add: numeral_nat)
  show ?thesis
    unfolding subtract_dct_def input rows Let_def d_def [symmetric] z
    by (simp add: upt16 c0 c [simplified One_nat_def [symmetric]] del: One_nat_def)
qed

lemma requantized_flat:
  assumes f: "f \<in> set (factors_from (quantizer_of qi))"
  shows "dequantize f (quantize f ([c, 1, 0, 0] @ replicate 12 0)) =
    word_of_int (sint (word_of_int (sint c sdiv uint (fst f)) :: i16) * uint (fst f)) # replicate 15 0" (is "?l = ?r # _")
proof (rule nth_equalityI)
  fix i assume "i < length ?l"
  then have i: "i < 16" by (simp add: dequantize_def)
  have one: "1 sdiv uint (snd f) = 0" using factor_bounds [OF f, of 1]
    by (simp add: signed_divide_int_def factor_at_def)
  have "([c, 1, 0, 0] @ replicate 12 0) ! i = (if i = 0 then c else if i = 1 then 1 else 0)"
    using i by (auto simp: nth_Cons' nth_append)
  then show "?l ! i = (?r # replicate 15 0) ! i"
    using i one by (simp only: quantize_dequantize_nth) (simp add: factor_at_def nth_Cons')
qed (simp add: dequantize_def)

text \<open>The reconstruction of a block of one colour from a prediction of one colour.\<close>

definition coded_flat :: "factors \<Rightarrow> u8 \<Rightarrow> u8 \<Rightarrow> u8 list list" where
  "coded_flat f b p =
     add_residue_rows (idct_residue (dequantize f (quantize f (subtract_dct (flat b) (flat p))))) (flat p)"

lemma rounded_eighth:
  fixes r d f :: int
  assumes "\<bar>r\<bar> \<le> \<bar>8 * d\<bar>" and "\<bar>8 * d - r\<bar> < f" and "0 \<le> 8 * d \<longrightarrow> 0 \<le> r" and "8 * d \<le> 0 \<longrightarrow> r \<le> 0"
  shows "(0 \<le> (r + 4) div 8 \<and> (r + 4) div 8 \<le> d \<or> d \<le> (r + 4) div 8 \<and> (r + 4) div 8 \<le> 0) \<and>
    \<bar>(r + 4) div 8 - d\<bar> \<le> (f + 3) div 8"
  using assms by (cases "0 \<le> d") (simp_all, linarith+)

lemma flat_block_error:
  assumes f: "f \<in> set (factors_from (quantizer_of qi))"
  shows "\<exists>v. coded_flat f b p = flat v \<and> \<bar>uint v - uint b\<bar> \<le> (uint (fst f) + 3) div 8"
proof -
  define d where "d = uint b - uint p"
  define c where "c = (word_of_int (8 * d) :: i16)"
  define r where "r = (word_of_int (sint (word_of_int (sint c sdiv uint (fst f)) :: i16) * uint (fst f)) :: i16)"
  define t where "t = (sint r + 4) div 8"
  define v where "v = clamp255 (uint p + t)"
  have "\<bar>d\<bar> \<le> 255" unfolding d_def by (rule pixel_difference)
  then have c: "sint c = 8 * d" unfolding c_def by (intro sint_i16_of_int) linarith+
  have pos: "0 < uint (fst f)" using factor_bounds [OF f, of 0] by (simp add: factor_at_def)
  have "coded_flat f b p = flat v"
    unfolding coded_flat_def subtract_dct_flat d_def [symmetric] c_def [symmetric] requantized_flat [OF f]
      r_def [symmetric] idct_dc_only
    by (simp add: flat_def add_residue_rows_def v_def drop_bit_eq_div numeral_nat t_def)
  moreover have "(0 \<le> t \<and> t \<le> d \<or> d \<le> t \<and> t \<le> 0) \<and> \<bar>t - d\<bar> \<le> (uint (fst f) + 3) div 8"
    using requantized_coefficient [OF pos, of c, folded r_def, unfolded c] unfolding t_def by (intro rounded_eighth) simp_all
  then have "\<bar>uint v - uint b\<bar> \<le> (uint (fst f) + 3) div 8"
    using uint_u8_bounds [of b] uint_u8_bounds [of p] by (auto simp: v_def uint_clamp255 d_def)
  ultimately show ?thesis by blast
qed

text \<open>A 4x4 block of one colour, coded against a prediction of one colour with the transform and
  the factors of a quantizer, is reconstructed as a block of one colour, at most an eighth of the DC
  factor away, and exactly when that factor is 4, the smallest one.\<close>

theorem flat_block_coding:
  assumes "f \<in> set (factors_from (quantizer_of qi))"
  shows "\<exists>v. coded_flat f b p = flat v \<and> \<bar>uint v - uint b\<bar> \<le> (uint (fst f) + 3) div 8 \<and> (uint (fst f) \<noteq> 4 \<or> v = b)"
proof -
  obtain v where v: "coded_flat f b p = flat v" "\<bar>uint v - uint b\<bar> \<le> (uint (fst f) + 3) div 8"
    using flat_block_error [OF assms] by blast
  moreover have "v = b" if "uint (fst f) = 4" using v(2) that by (simp add: word_uint_eq_iff)
  ultimately show ?thesis by blast
qed

lemma flat_block_coding_witness:
  "let qi = \<lparr>qi_y_ac_qi = 0, qi_y_dc = None, qi_y2_dc = None, qi_y2_ac = None, qi_uv_dc = None, qi_uv_ac = None\<rparr> in
   \<exists>v. coded_flat (factors_y (quantizer_of qi)) 200 17 = flat v \<and>
     \<bar>uint v - uint (200 :: u8)\<bar> \<le> (uint (fst (factors_y (quantizer_of qi))) + 3) div 8"
  unfolding Let_def
  using flat_block_coding [of "factors_y (quantizer_of q)" q 200 17 for q]
  by (simp only: factors_from_def list.set insert_iff simp_thms) blast

end
