(* ===== verification/Intra_Prediction.thy ===== *)
theory Intra_Prediction
  imports Planes Mode_Data Transform
begin

text \<open>
  Intra prediction of a square block of a plane (src/src/decoder/prediction.cc, \<open>VP8Raster::Block\<close> in
  src/src/decoder/vp8_raster.hh): the pixels around the block that its prediction is made of, the
  prediction modes of whole macroblocks and of 4x4 subblocks, in the portable versions.  A block is a
  list of rows; its place is counted in blocks.
\<close>

section \<open>Predictors\<close>

text \<open>\<open>above[ -1 ]\<close>, \<open>above\<close> (with the four pixels to the right of it for subblocks) and \<open>left\<close>.\<close>

record predictors =
  pr_corner :: u8
  pr_above :: bytes
  pr_left :: bytes

definition ROW_127 :: u8 where "ROW_127 = 127"
definition COL_129 :: u8 where "COL_129 = 129"

definition left_predictor :: "nat \<Rightarrow> plane \<Rightarrow> nat \<Rightarrow> nat \<Rightarrow> bytes option" where
  "left_predictor sz p column row =
     (if column > 0 then collect (\<lambda>i. plane_at p (sz * column - 1) (sz * row + i)) [0..<sz]
      else Some (replicate sz COL_129))"

definition above_predictor :: "nat \<Rightarrow> plane \<Rightarrow> nat \<Rightarrow> nat \<Rightarrow> bytes option" where
  "above_predictor sz p column row =
     (if row > 0 then read_run p (sz * column) (sz * row - 1) sz else Some (replicate sz ROW_127))"

definition corner_predictor :: "nat \<Rightarrow> plane \<Rightarrow> nat \<Rightarrow> nat \<Rightarrow> u8 option" where
  "corner_predictor sz p column row =
     (if column > 0 \<and> row > 0 then plane_at p (sz * column - 1) (sz * row - 1)
      else if row > 0 then Some COL_129 else Some ROW_127)"

definition above_right_predictor :: "nat \<Rightarrow> plane \<Rightarrow> nat \<Rightarrow> nat \<Rightarrow> bytes option" where
  "above_right_predictor sz p column row =
     (if row = 0 then Some (replicate sz ROW_127)
      else if sz * (column + 1) \<ge> pl_width p then
        (if row \<ge> 4 then map_option (replicate sz) (plane_at p (sz * (column + 1) - 1) (sz * (row div 4 * 4) - 1))
         else Some (replicate sz ROW_127))
      else if column mod 4 = 3 \<and> row mod 4 \<noteq> 0 then
        (if row \<ge> 4 then read_run p (sz * (column + 1)) (sz * (row div 4 * 4) - 1) sz
         else Some (replicate sz ROW_127))
      else read_run p (sz * (column + 1)) (sz * row - 1) sz)"

definition block_predictors :: "nat \<Rightarrow> plane \<Rightarrow> nat \<Rightarrow> nat \<Rightarrow> predictors option" where
  "block_predictors sz p column row =
     do { left \<leftarrow> left_predictor sz p column row;
          above \<leftarrow> above_predictor sz p column row;
          corner \<leftarrow> corner_predictor sz p column row;
          right \<leftarrow> (if sz \<noteq> 4 then Some [] else above_right_predictor sz p column row);
          Some \<lparr>pr_corner = corner, pr_above = above @ right, pr_left = left\<rparr> }"

definition east :: "predictors \<Rightarrow> nat \<Rightarrow> u8" where
  "east pr i = (if i \<le> 3 then pr_left pr ! (3 - i) else (pr_corner pr # pr_above pr) ! (i - 4))"


section \<open>Prediction modes\<close>

definition true_motion_predict :: "nat \<Rightarrow> predictors \<Rightarrow> u8 list list" where
  "true_motion_predict sz pr =
     map (\<lambda>row. map (\<lambda>column. clamp255 (uint (pr_left pr ! row) + uint (pr_above pr ! column) - uint (pr_corner pr)))
       [0..<sz]) [0..<sz]"

definition horizontal_predict :: "nat \<Rightarrow> predictors \<Rightarrow> u8 list list" where
  "horizontal_predict sz pr = map (\<lambda>row. replicate sz (pr_left pr ! row)) [0..<sz]"

definition vertical_predict :: "nat \<Rightarrow> predictors \<Rightarrow> u8 list list" where
  "vertical_predict sz pr = replicate sz (map (\<lambda>column. pr_above pr ! column) [0..<sz])"

definition log2size :: "nat \<Rightarrow> nat" where
  "log2size sz = (if sz = 4 then 2 else if sz = 8 then 3 else if sz = 16 then 4 else 0)"

text \<open>The sums of at most 32 octets fit 16 bits.\<close>

definition first_sum :: "nat \<Rightarrow> bytes \<Rightarrow> nat" where
  "first_sum sz vs = sum_list (map unat (take sz vs))"

definition dc_predict_simple :: "nat \<Rightarrow> predictors \<Rightarrow> u8 list list" where
  "dc_predict_simple sz pr =
     replicate sz (replicate sz (word_of_nat
       (drop_bit (log2size sz + 1) (first_sum sz (pr_above pr) + first_sum sz (pr_left pr) + 2 ^ log2size sz))))"

definition dc_predict :: "nat \<Rightarrow> nat \<Rightarrow> nat \<Rightarrow> predictors \<Rightarrow> u8 list list" where
  "dc_predict sz column row pr =
     (if column \<noteq> 0 \<and> row \<noteq> 0 then dc_predict_simple sz pr
      else let mean = (\<lambda>vs. word_of_nat (drop_bit (log2size sz) (first_sum sz vs + 2 ^ (log2size sz - 1)))) in
        replicate sz (replicate sz
          (if row > 0 then mean (pr_above pr) else if column > 0 then mean (pr_left pr) else 128)))"

definition intra_predict_mb :: "nat \<Rightarrow> nat \<Rightarrow> nat \<Rightarrow> mbmode \<Rightarrow> predictors \<Rightarrow> u8 list list result" where
  "intra_predict_mb sz column row mode pr =
     (case mode of
        DC_PRED \<Rightarrow> Inr (dc_predict sz column row pr)
      | V_PRED \<Rightarrow> Inr (vertical_predict sz pr)
      | H_PRED \<Rightarrow> Inr (horizontal_predict sz pr)
      | TM_PRED \<Rightarrow> Inr (true_motion_predict sz pr)
      | _ \<Rightarrow> Inl Logic_error)"

definition avg3 :: "u8 \<Rightarrow> u8 \<Rightarrow> u8 \<Rightarrow> u8" where
  "avg3 x y z = word_of_nat (drop_bit 2 (unat x + 2 * unat y + unat z + 2))"

definition avg2 :: "u8 \<Rightarrow> u8 \<Rightarrow> u8" where
  "avg2 x y = word_of_nat (drop_bit 1 (unat x + unat y + 1))"

definition vertical_smoothed_predict :: "predictors \<Rightarrow> u8 list list" where
  "vertical_smoothed_predict pr =
     (let a = (\<lambda>i. pr_above pr ! i) in
      replicate 4 [avg3 (pr_corner pr) (a 0) (a 1), avg3 (a 0) (a 1) (a 2), avg3 (a 1) (a 2) (a 3), avg3 (a 2) (a 3) (a 4)])"

definition horizontal_smoothed_predict :: "predictors \<Rightarrow> u8 list list" where
  "horizontal_smoothed_predict pr =
     (let l = (\<lambda>i. pr_left pr ! i) in
      map (replicate 4)
        [avg3 (pr_corner pr) (l 0) (l 1), avg3 (l 0) (l 1) (l 2), avg3 (l 1) (l 2) (l 3), avg3 (l 2) (l 3) (l 3)])"

definition left_down_predict :: "predictors \<Rightarrow> u8 list list" where
  "left_down_predict pr =
     (let a = (\<lambda>i. pr_above pr ! i);
          d0 = avg3 (a 0) (a 1) (a 2); d1 = avg3 (a 1) (a 2) (a 3); d2 = avg3 (a 2) (a 3) (a 4);
          d3 = avg3 (a 3) (a 4) (a 5); d4 = avg3 (a 4) (a 5) (a 6); d5 = avg3 (a 5) (a 6) (a 7);
          d6 = avg3 (a 6) (a 7) (a 7) in
      [[d0, d1, d2, d3],
       [d1, d2, d3, d4],
       [d2, d3, d4, d5],
       [d3, d4, d5, d6]])"

definition right_down_predict :: "predictors \<Rightarrow> u8 list list" where
  "right_down_predict pr =
     (let e = east pr;
          d0 = avg3 (e 0) (e 1) (e 2); d1 = avg3 (e 1) (e 2) (e 3); d2 = avg3 (e 2) (e 3) (e 4);
          d3 = avg3 (e 3) (e 4) (e 5); d4 = avg3 (e 4) (e 5) (e 6); d5 = avg3 (e 5) (e 6) (e 7);
          d6 = avg3 (e 6) (e 7) (e 8) in
      [[d3, d4, d5, d6],
       [d2, d3, d4, d5],
       [d1, d2, d3, d4],
       [d0, d1, d2, d3]])"

definition vertical_right_predict :: "predictors \<Rightarrow> u8 list list" where
  "vertical_right_predict pr =
     (let e = east pr;
          a = avg3 (e 1) (e 2) (e 3); b = avg3 (e 2) (e 3) (e 4); c = avg3 (e 3) (e 4) (e 5); d = avg2 (e 4) (e 5);
          f = avg3 (e 4) (e 5) (e 6); g = avg2 (e 5) (e 6); h = avg3 (e 5) (e 6) (e 7); i = avg2 (e 6) (e 7);
          j = avg3 (e 6) (e 7) (e 8); k = avg2 (e 7) (e 8) in
      [[d, g, i, k],
       [c, f, h, j],
       [b, d, g, i],
       [a, c, f, h]])"

definition vertical_left_predict :: "predictors \<Rightarrow> u8 list list" where
  "vertical_left_predict pr =
     (let v = (\<lambda>i. pr_above pr ! i);
          a = avg2 (v 0) (v 1); b = avg3 (v 0) (v 1) (v 2); c = avg2 (v 1) (v 2); d = avg3 (v 1) (v 2) (v 3);
          e = avg2 (v 2) (v 3); f = avg3 (v 2) (v 3) (v 4); g = avg2 (v 3) (v 4); h = avg3 (v 3) (v 4) (v 5);
          i = avg3 (v 4) (v 5) (v 6); j = avg3 (v 5) (v 6) (v 7) in
      [[a, c, e, g],
       [b, d, f, h],
       [c, e, g, i],
       [d, f, h, j]])"

definition horizontal_down_predict :: "predictors \<Rightarrow> u8 list list" where
  "horizontal_down_predict pr =
     (let e = east pr;
          a = avg2 (e 0) (e 1); b = avg3 (e 0) (e 1) (e 2); c = avg2 (e 1) (e 2); d = avg3 (e 1) (e 2) (e 3);
          f = avg2 (e 2) (e 3); g = avg3 (e 2) (e 3) (e 4); h = avg2 (e 3) (e 4); i = avg3 (e 3) (e 4) (e 5);
          j = avg3 (e 4) (e 5) (e 6); k = avg3 (e 5) (e 6) (e 7) in
      [[h, i, j, k],
       [f, g, h, i],
       [c, d, f, g],
       [a, b, c, d]])"

definition horizontal_up_predict :: "predictors \<Rightarrow> u8 list list" where
  "horizontal_up_predict pr =
     (let l = (\<lambda>i. pr_left pr ! i);
          a = avg2 (l 0) (l 1); b = avg3 (l 0) (l 1) (l 2); c = avg2 (l 1) (l 2); d = avg3 (l 1) (l 2) (l 3);
          e = avg2 (l 2) (l 3); f = avg3 (l 2) (l 3) (l 3) in
      [[a, b, c, d],
       [c, d, e, f],
       [e, f, l 3, l 3],
       [l 3, l 3, l 3, l 3]])"

definition intra_predict_b :: "bmode \<Rightarrow> predictors \<Rightarrow> u8 list list result" where
  "intra_predict_b mode pr =
     (case mode of
        B_DC_PRED \<Rightarrow> Inr (dc_predict_simple 4 pr)
      | B_TM_PRED \<Rightarrow> Inr (true_motion_predict 4 pr)
      | B_VE_PRED \<Rightarrow> Inr (vertical_smoothed_predict pr)
      | B_HE_PRED \<Rightarrow> Inr (horizontal_smoothed_predict pr)
      | B_LD_PRED \<Rightarrow> Inr (left_down_predict pr)
      | B_RD_PRED \<Rightarrow> Inr (right_down_predict pr)
      | B_VR_PRED \<Rightarrow> Inr (vertical_right_predict pr)
      | B_VL_PRED \<Rightarrow> Inr (vertical_left_predict pr)
      | B_HD_PRED \<Rightarrow> Inr (horizontal_down_predict pr)
      | B_HU_PRED \<Rightarrow> Inr (horizontal_up_predict pr)
      | _ \<Rightarrow> Inl Logic_error)"

text \<open>\<open>intra_predict\<close> of a block of a raster: the predictors are copied out before the block is
  written.\<close>

definition of_assert :: "'a option \<Rightarrow> 'a result" where
  "of_assert r = (case r of None \<Rightarrow> Inl Assert_failed | Some x \<Rightarrow> Inr x)"

definition intra_predict_block ::
  "nat \<Rightarrow> (predictors \<Rightarrow> u8 list list result) \<Rightarrow> nat \<Rightarrow> nat \<Rightarrow> plane \<Rightarrow> plane result" where
  "intra_predict_block sz predict column row p =
     bind_result (of_assert (block_predictors sz p column row)) (\<lambda>pr.
     bind_result (predict pr) (\<lambda>block.
     of_assert (put_block (sz * column) (sz * row) block p)))"


section \<open>Predicted pixels lie between the predictors\<close>

definition within :: "u8 \<Rightarrow> u8 \<Rightarrow> u8 \<Rightarrow> bool" where
  "within lo hi v \<longleftrightarrow> lo \<le> v \<and> v \<le> hi"

definition predictors_ok :: "nat \<Rightarrow> predictors \<Rightarrow> bool" where
  "predictors_ok sz pr \<longleftrightarrow>
     sz \<in> {4, 8, 16} \<and> length (pr_above pr) = (if sz = 4 then 8 else sz) \<and> length (pr_left pr) = sz"

definition predictors_within :: "u8 \<Rightarrow> u8 \<Rightarrow> predictors \<Rightarrow> bool" where
  "predictors_within lo hi pr \<longleftrightarrow>
     within lo hi (pr_corner pr) \<and> list_all (within lo hi) (pr_above pr) \<and> list_all (within lo hi) (pr_left pr)"

definition block_within :: "nat \<Rightarrow> u8 \<Rightarrow> u8 \<Rightarrow> u8 list list \<Rightarrow> bool" where
  "block_within sz lo hi block \<longleftrightarrow>
     length block = sz \<and> list_all (\<lambda>row. length row = sz \<and> list_all (within lo hi) row) block"

lemma unat_u8_small: "n < 256 \<Longrightarrow> unat (word_of_nat n :: u8) = n"
  by (simp add: unat_of_nat)

lemma within_nat: "within lo hi v \<longleftrightarrow> unat lo \<le> unat v \<and> unat v \<le> unat hi"
  by (simp add: within_def word_le_nat_alt)

lemma unat_u8_le: "unat (v :: u8) \<le> 255"
  using unat_lt2p [of v] by simp

lemma within_of_nat:
  assumes "unat lo \<le> n" and "n \<le> unat hi"
  shows "within lo hi (word_of_nat n)"
proof -
  have "n < 256" using assms(2) unat_u8_le [of hi] by linarith
  from unat_u8_small [OF this] assms show ?thesis by (simp add: within_nat)
qed

lemma within_avg3 [intro]:
  assumes "within lo hi x" and "within lo hi y" and "within lo hi z"
  shows "within lo hi (avg3 x y z)"
  unfolding avg3_def using assms by (intro within_of_nat) (auto simp: within_nat drop_bit_eq_div)

lemma within_avg2 [intro]:
  assumes "within lo hi x" and "within lo hi y"
  shows "within lo hi (avg2 x y)"
  unfolding avg2_def using assms by (intro within_of_nat) (auto simp: within_nat drop_bit_eq_div)

lemma first_sum_bounds:
  assumes "list_all (within lo hi) vs" and "sz \<le> length vs"
  shows "sz * unat lo \<le> first_sum sz vs \<and> first_sum sz vs \<le> sz * unat hi"
  using assms
proof (induction vs arbitrary: sz)
  case (Cons v vs)
  then show ?case by (cases sz) (auto simp: first_sum_def within_nat intro!: add_mono)
qed (simp add: first_sum_def)

lemma log2size_power: "sz \<in> {4, 8, 16} \<Longrightarrow> 2 ^ log2size sz = sz \<and> 2 ^ (log2size sz - 1) < sz"
  by (auto simp: log2size_def)

lemma mean_within:
  assumes "n * unat lo \<le> amount" and "amount \<le> n * unat hi" and "half < n"
  shows "within lo hi (word_of_nat ((amount + half) div n))"
proof (rule within_of_nat)
  have "n * unat lo div n \<le> (amount + half) div n" using assms(1) by (intro div_le_mono) simp
  then show "unat lo \<le> (amount + half) div n" using assms(3) by simp
  have "(amount + half) div n < unat hi + 1"
    using assms(2,3) by (intro less_mult_imp_div_less) (simp add: algebra_simps)
  then show "(amount + half) div n \<le> unat hi" by simp
qed

lemma dc_simple_within:
  assumes "predictors_ok sz pr" and "predictors_within lo hi pr"
  shows "block_within sz lo hi (dc_predict_simple sz pr)"
proof -
  have sz: "sz \<in> {4, 8, 16}" "sz \<le> length (pr_above pr)" "sz \<le> length (pr_left pr)"
    using assms(1) by (auto simp: predictors_ok_def)
  have "within lo hi (word_of_nat ((first_sum sz (pr_above pr) + first_sum sz (pr_left pr) + sz) div (2 * sz)))"
    using first_sum_bounds [of lo hi "pr_above pr" sz] first_sum_bounds [of lo hi "pr_left pr" sz] sz assms(2)
    by (intro mean_within) (auto simp: predictors_within_def)
  then show ?thesis using log2size_power [OF sz(1)]
    by (simp add: block_within_def dc_predict_simple_def drop_bit_eq_div list_all_iff power_add)
qed

lemma dc_within:
  assumes "predictors_ok sz pr" and "predictors_within lo hi pr" and "column \<noteq> 0 \<or> row \<noteq> 0 \<or> within lo hi 128"
  shows "block_within sz lo hi (dc_predict sz column row pr)"
proof (cases "column \<noteq> 0 \<and> row \<noteq> 0")
  case True
  then show ?thesis using dc_simple_within [OF assms(1,2)] by (simp add: dc_predict_def)
next
  case False
  have sz: "sz \<in> {4, 8, 16}" "sz \<le> length (pr_above pr)" "sz \<le> length (pr_left pr)"
    using assms(1) by (auto simp: predictors_ok_def)
  have mean: "within lo hi (word_of_nat ((first_sum sz vs + 2 ^ (log2size sz - 1)) div sz))"
    if "vs \<in> {pr_above pr, pr_left pr}" for vs
    using first_sum_bounds [of lo hi vs sz] sz assms(2) that log2size_power [OF sz(1)]
    by (intro mean_within) (auto simp: predictors_within_def)
  then show ?thesis using False assms(3) log2size_power [OF sz(1)]
    by (auto simp: block_within_def dc_predict_def drop_bit_eq_div list_all_iff)
qed

lemma within_nth:
  assumes "predictors_within lo hi pr"
  shows "i < length (pr_above pr) \<Longrightarrow> within lo hi (pr_above pr ! i)"
    and "i < length (pr_left pr) \<Longrightarrow> within lo hi (pr_left pr ! i)"
    and "predictors_ok 4 pr \<Longrightarrow> i < 13 \<Longrightarrow> within lo hi (east pr i)"
  using assms
  by (auto simp: predictors_within_def east_def predictors_ok_def nth_Cons' list_all_length)

lemma mb_mode_within:
  assumes ok: "predictors_ok sz pr" and w: "predictors_within lo hi pr"
    and dc: "column \<noteq> 0 \<or> row \<noteq> 0 \<or> within lo hi 128"
    and mode: "mode \<in> {DC_PRED, V_PRED, H_PRED}"
  shows "\<exists>block. intra_predict_mb sz column row mode pr = Inr block \<and> block_within sz lo hi block"
proof -
  have "block_within sz lo hi (vertical_predict sz pr)" "block_within sz lo hi (horizontal_predict sz pr)"
    using ok within_nth [OF w]
    by (auto simp: block_within_def vertical_predict_def horizontal_predict_def list_all_iff predictors_ok_def)
  with dc_within [OF ok w dc] mode show ?thesis by (auto simp: intra_predict_mb_def)
qed

lemma b_mode_within:
  assumes ok: "predictors_ok 4 pr" and w: "predictors_within lo hi pr"
    and mode: "mode \<in> {B_DC_PRED, B_VE_PRED, B_HE_PRED, B_LD_PRED, B_RD_PRED, B_VR_PRED, B_VL_PRED, B_HD_PRED, B_HU_PRED}"
  shows "\<exists>block. intra_predict_b mode pr = Inr block \<and> block_within 4 lo hi block"
proof -
  have len: "length (pr_above pr) = 8" "length (pr_left pr) = 4" using ok by (simp_all add: predictors_ok_def)
  have a: "within lo hi (pr_above pr ! i)" if "i < 8" for i using within_nth(1) [OF w] len that by simp
  have l: "within lo hi (pr_left pr ! i)" if "i < 4" for i using within_nth(2) [OF w] len that by simp
  have e: "within lo hi (east pr i)" if "i < 13" for i using within_nth(3) [OF w ok that] .
  have c: "within lo hi (pr_corner pr)" using w by (simp add: predictors_within_def)
  note defs = block_within_def Let_def
  have "block_within 4 lo hi (vertical_smoothed_predict pr)" "block_within 4 lo hi (horizontal_smoothed_predict pr)"
    "block_within 4 lo hi (left_down_predict pr)" "block_within 4 lo hi (vertical_left_predict pr)"
    "block_within 4 lo hi (horizontal_up_predict pr)"
    by (auto simp: defs vertical_smoothed_predict_def horizontal_smoothed_predict_def left_down_predict_def
        vertical_left_predict_def horizontal_up_predict_def list_all_iff intro!: within_avg3 within_avg2 a l c)
  moreover have "block_within 4 lo hi (right_down_predict pr)" "block_within 4 lo hi (vertical_right_predict pr)"
    "block_within 4 lo hi (horizontal_down_predict pr)"
    by (simp_all add: defs right_down_predict_def vertical_right_predict_def horizontal_down_predict_def e within_avg3 within_avg2)
  moreover note dc_simple_within [OF ok w]
  ultimately show ?thesis using mode by (auto simp: intra_predict_b_def)
qed

text \<open>Every averaging mode of a subblock predicts pixels that lie between the smallest and the
  largest of its predictors; on a flat neighbourhood it predicts that colour.\<close>

theorem subblock_prediction_bounded:
  assumes "predictors_ok 4 pr" and "predictors_within lo hi pr"
    and "mode \<in> {B_DC_PRED, B_VE_PRED, B_HE_PRED, B_LD_PRED, B_RD_PRED, B_VR_PRED, B_VL_PRED, B_HD_PRED, B_HU_PRED}"
  shows "\<exists>block. intra_predict_b mode pr = Inr block \<and> block_within 4 lo hi block"
  by (rule b_mode_within [OF assms])

lemma subblock_prediction_bounded_witness:
  "\<exists>block. intra_predict_b B_VR_PRED \<lparr>pr_corner = 5, pr_above = [3, 4, 5, 6, 7, 8, 9, 10], pr_left = [3, 3, 9, 12]\<rparr> = Inr block \<and>
     block_within 4 3 12 block"
  by (rule subblock_prediction_bounded) (simp_all add: predictors_ok_def predictors_within_def within_def)


section \<open>The pixels a prediction depends on\<close>

text \<open>The order of decoding: macroblocks row by row, the luma subblocks of a macroblock row by row.\<close>

definition decoded_before :: "nat \<Rightarrow> nat \<Rightarrow> nat \<Rightarrow> nat \<Rightarrow> nat \<Rightarrow> bool" where
  "decoded_before sz column row x y \<longleftrightarrow>
     (if sz = 4 then
        y div 16 < row div 4 \<or>
        y div 16 = row div 4 \<and>
          (x div 16 < column div 4 \<or>
           x div 16 = column div 4 \<and> (y div 4 < row \<or> y div 4 = row \<and> x div 4 < column))
      else y div sz < row \<or> y div sz = row \<and> x div sz < column)"

definition block_in :: "nat \<Rightarrow> plane \<Rightarrow> nat \<Rightarrow> nat \<Rightarrow> bool" where
  "block_in sz p column row \<longleftrightarrow>
     sz \<in> {4, 8, 16} \<and> plane_valid p \<and> sz dvd pl_width p \<and> sz * (column + 1) \<le> pl_width p \<and> sz * (row + 1) \<le> pl_height p"

lemma read_run_at:
  assumes ok: "plane_valid p" and x: "x + n \<le> pl_width p" "0 < n" and y: "y < pl_height p"
  shows "read_run p x y n = collect (\<lambda>i. plane_at p (x + i) y) [0..<n]"
proof -
  have "pixel_index p x y + n \<le> (y + 1) * pl_width p" using x(1) by (simp add: pixel_index_def)
  also have "\<dots> \<le> length (pl_data p)"
    using ok y by (simp only: plane_valid_def mult.commute [of "pl_width p"]) (intro mult_right_mono; simp)
  finally have fits: "pixel_index p x y + n \<le> length (pl_data p)" .
  have "collect (\<lambda>i. plane_at p (x + i) y) [0..<n] = Some (map (\<lambda>i. pl_data p ! pixel_index p (x + i) y) [0..<n])"
    using assms by (intro collect_total) (simp add: plane_at_in)
  moreover have "take n (drop (pixel_index p x y) (pl_data p)) = map (\<lambda>i. pl_data p ! pixel_index p (x + i) y) [0..<n]"
    using fits by (intro nth_equalityI) (simp_all add: pixel_index_def add.assoc)
  ultimately show ?thesis using fits x y by (simp add: read_run_def)
qed

text \<open>The predictors as a function of the pixels alone.\<close>

definition predictors_from :: "nat \<Rightarrow> (nat \<Rightarrow> nat \<Rightarrow> u8 option) \<Rightarrow> nat \<Rightarrow> nat \<Rightarrow> nat \<Rightarrow> predictors option" where
  "predictors_from sz pixel w column row =
     (let run = (\<lambda>x y. collect (\<lambda>i. pixel (x + i) y) [0..<sz]) in
      do { left \<leftarrow> (if column > 0 then collect (\<lambda>i. pixel (sz * column - 1) (sz * row + i)) [0..<sz]
             else Some (replicate sz COL_129));
           above \<leftarrow> (if row > 0 then run (sz * column) (sz * row - 1) else Some (replicate sz ROW_127));
           corner \<leftarrow> (if column > 0 \<and> row > 0 then pixel (sz * column - 1) (sz * row - 1)
             else if row > 0 then Some COL_129 else Some ROW_127);
           right \<leftarrow> (if sz \<noteq> 4 then Some []
             else if row = 0 then Some (replicate sz ROW_127)
             else if sz * (column + 1) \<ge> w then
               (if row \<ge> 4 then map_option (replicate sz) (pixel (sz * (column + 1) - 1) (sz * (row div 4 * 4) - 1))
                else Some (replicate sz ROW_127))
             else if column mod 4 = 3 \<and> row mod 4 \<noteq> 0 then
               (if row \<ge> 4 then run (sz * (column + 1)) (sz * (row div 4 * 4) - 1) else Some (replicate sz ROW_127))
             else run (sz * (column + 1)) (sz * row - 1));
           Some \<lparr>pr_corner = corner, pr_above = above @ right, pr_left = left\<rparr> })"

lemma block_predictors_from:
  assumes "block_in sz p column row"
  shows "block_predictors sz p column row = predictors_from sz (plane_at p) (pl_width p) column row"
proof -
  have p: "plane_valid p" "0 < sz" "sz * column + sz \<le> pl_width p" "sz * row + sz \<le> pl_height p" "sz dvd pl_width p"
    using assms by (auto simp: block_in_def)
  have room: "sz * (column + 1) + sz \<le> pl_width p" if "sz * (column + 1) < pl_width p"
  proof -
    obtain k where k: "pl_width p = sz * k" using p(5) by (auto simp: dvd_def)
    with that have "column + 1 < k" by (simp only: mult_less_cancel1)
    then have "sz * (column + 2) \<le> sz * k" by (intro mult_le_mono) simp_all
    then show ?thesis by (simp add: k algebra_simps)
  qed
  have rows: "sz * row - 1 < pl_height p" "sz * (row div 4 * 4) - 1 < pl_height p"
  proof -
    have "sz * (row div 4 * 4) \<le> sz * row" by (intro mult_le_mono) simp_all
    then show "sz * row - 1 < pl_height p" "sz * (row div 4 * 4) - 1 < pl_height p" using p by linarith+
  qed
  have above: "above_predictor sz p column row =
      (if row > 0 then collect (\<lambda>i. plane_at p (sz * column + i) (sz * row - 1)) [0..<sz] else Some (replicate sz ROW_127))"
    using p rows by (simp add: above_predictor_def read_run_at)
  have right: "read_run p (sz * (column + 1)) y sz = collect (\<lambda>i. plane_at p (sz * (column + 1) + i) y) [0..<sz]"
    if "sz * (column + 1) < pl_width p" "y < pl_height p" for y
    using p room [OF that(1)] that by (intro read_run_at)
  show ?thesis
    unfolding block_predictors_def predictors_from_def above above_right_predictor_def Let_def left_predictor_def corner_predictor_def
    using right rows by (simp add: not_le cong: if_cong)
qed

lemma decoded_before_macroblock:
  assumes "0 < sz" and "sz \<noteq> 4"
  shows "y < sz * row \<Longrightarrow> decoded_before sz column row x y"
    and "y div sz = row \<Longrightarrow> x < sz * column \<Longrightarrow> decoded_before sz column row x y"
  using assms by (simp_all add: decoded_before_def less_mult_imp_div_less mult.commute)

lemma decoded_before_subblock:
  shows "y < 16 * (row div 4) \<Longrightarrow> decoded_before 4 column row x y"
    and "y < 4 * row \<Longrightarrow> x < 16 * (column div 4 + 1) \<Longrightarrow> decoded_before 4 column row x y"
    and "y div 4 = row \<Longrightarrow> x < 4 * column \<Longrightarrow> decoded_before 4 column row x y"
proof -
  have sixteen: "n div 16 = n div 4 div 4" for n :: nat by (simp add: div_mult2_eq [symmetric])
  show "y < 16 * (row div 4) \<Longrightarrow> decoded_before 4 column row x y"
    by (simp add: decoded_before_def less_mult_imp_div_less)
  show "decoded_before 4 column row x y" if "y < 4 * row" "x < 16 * (column div 4 + 1)"
  proof -
    have "y div 4 < row" using that(1) by (simp add: less_mult_imp_div_less)
    moreover from this have "y div 16 \<le> row div 4" unfolding sixteen by (intro div_le_mono) simp
    moreover have "x div 16 < column div 4 + 1" using that(2) by (intro less_mult_imp_div_less) simp
    ultimately show ?thesis by (auto simp: decoded_before_def)
  qed
  show "decoded_before 4 column row x y" if "y div 4 = row" "x < 4 * column"
  proof -
    have "x div 4 < column" using that(2) by (simp add: less_mult_imp_div_less)
    moreover from this have "x div 16 \<le> column div 4" unfolding sixteen by (intro div_le_mono) simp
    ultimately show ?thesis using that(1) unfolding decoded_before_def sixteen [of y] by auto
  qed
qed

lemma predictors_from_cong:
  assumes "0 < sz" and same: "\<And>x y. decoded_before sz column row x y \<Longrightarrow> pixel x y = pixel' x y"
  shows "predictors_from sz pixel w column row = predictors_from sz pixel' w column row"
proof -
  have left: "pixel (sz * column - 1) (sz * row + i) = pixel' (sz * column - 1) (sz * row + i)" if "column > 0" "i < sz" for i
  proof -
    have at: "(sz * row + i) div sz = row" "sz * column - 1 < sz * column" using that assms(1) by simp_all
    show ?thesis
    proof (cases "sz = 4")
      case True
      show ?thesis using at unfolding True by (intro same [unfolded True] decoded_before_subblock(3))
    next
      case False
      show ?thesis using at assms(1) False by (intro same decoded_before_macroblock(2))
    qed
  qed
  have above: "pixel x (sz * row - 1) = pixel' x (sz * row - 1)" if "row > 0" "x < sz * column + sz" for x
  proof -
    have y: "sz * row - 1 < sz * row" using that(1) assms(1) by simp
    show ?thesis
    proof (cases "sz = 4")
      case True
      have "x < 16 * (column div 4 + 1)" using that(2) True by simp
      then show ?thesis using y unfolding True by (intro same [unfolded True] decoded_before_subblock(2))
    next
      case False
      then show ?thesis using y assms(1) by (intro same decoded_before_macroblock(1))
    qed
  qed
  have edge: "pixel x (sz * (row div 4 * 4) - 1) = pixel' x (sz * (row div 4 * 4) - 1)" if "sz = 4" "row \<ge> 4" for x
  proof -
    have "4 * (row div 4 * 4) - 1 < 16 * (row div 4)" using that(2) by linarith
    then show ?thesis unfolding that(1) by (intro same [unfolded that(1)] decoded_before_subblock(1))
  qed
  have right: "pixel (sz * (column + 1) + i) (sz * row - 1) = pixel' (sz * (column + 1) + i) (sz * row - 1)"
    if "sz = 4" "row > 0" "column mod 4 = 3 \<Longrightarrow> row mod 4 = 0" "i < sz" for i
  proof (cases "column mod 4 = 3")
    case True
    then have "4 * row = 16 * (row div 4)" using that(3) by presburger
    then have "4 * row - 1 < 16 * (row div 4)" using that(2) by linarith
    then show ?thesis unfolding that(1) by (intro same [unfolded that(1)] decoded_before_subblock(1))
  next
    case False
    then have "4 * (column + 1) + i < 16 * (column div 4 + 1)" using that(1,4) by presburger
    moreover have "4 * row - 1 < 4 * row" using that(2) by simp
    ultimately show ?thesis unfolding that(1) by (intro same [unfolded that(1)] decoded_before_subblock(2))
  qed
  have mid: "pixel (sz * column + i) (sz * row - 1) = pixel' (sz * column + i) (sz * row - 1)" if "row > 0" "i < sz" for i
    using above [of "sz * column + i"] that by simp
  have corner: "pixel (sz * column - 1) (sz * row - 1) = pixel' (sz * column - 1) (sz * row - 1)" if "row > 0"
    using above [of "sz * column - 1"] that assms(1) by simp
  note run = collect_cong [where xs = "[0..<sz]"]
  have leaves: "collect (\<lambda>i. pixel (sz * column - 1) (sz * row + i)) [0..<sz] = collect (\<lambda>i. pixel' (sz * column - 1) (sz * row + i)) [0..<sz]"
    if "column > 0" using left [OF that] by (intro run) simp
  have leaves': "collect (\<lambda>i. pixel (sz * column + i) (sz * row - 1)) [0..<sz] = collect (\<lambda>i. pixel' (sz * column + i) (sz * row - 1)) [0..<sz]"
    if "row > 0" using mid [OF that] by (intro run) simp
  have far: "collect (\<lambda>i. pixel (sz * (column + 1) + i) (sz * (row div 4 * 4) - 1)) [0..<sz] =
      collect (\<lambda>i. pixel' (sz * (column + 1) + i) (sz * (row div 4 * 4) - 1)) [0..<sz]"
    if "sz = 4" "row \<ge> 4" using edge [OF that] by (intro run) simp
  have near: "collect (\<lambda>i. pixel (sz * (column + 1) + i) (sz * row - 1)) [0..<sz] =
      collect (\<lambda>i. pixel' (sz * (column + 1) + i) (sz * row - 1)) [0..<sz]"
    if "sz = 4" "row > 0" "\<not> (column mod 4 = 3 \<and> row mod 4 \<noteq> 0)" using right that by (intro run) simp
  show ?thesis
    unfolding predictors_from_def Let_def
    by (intro arg_cong2 [where f = Option.bind] ext if_cong refl arg_cong [where f = "map_option (replicate sz)"]
          leaves leaves' far near corner edge) simp_all
qed

lemma predictors_causal:
  assumes p: "block_in sz p column row" and q: "block_in sz q column row" and w: "pl_width p = pl_width q"
    and same: "\<And>x y. decoded_before sz column row x y \<Longrightarrow> plane_at p x y = plane_at q x y"
  shows "block_predictors sz p column row = block_predictors sz q column row"
proof -
  have "0 < sz" using p by (auto simp: block_in_def)
  then show ?thesis using predictors_from_cong same
    unfolding block_predictors_from [OF p] block_predictors_from [OF q] w by blast
qed

text \<open>C9: The prediction of a block depends on no pixel that is decoded later: on planes that agree on
  the blocks decoded before it, its predictors are the same.\<close>

theorem intra_prediction_causal:
  assumes "block_in sz p column row" and "block_in sz q column row" and "pl_width p = pl_width q"
    and "\<And>x y. decoded_before sz column row x y \<Longrightarrow> plane_at p x y = plane_at q x y"
  shows "block_predictors sz p column row = block_predictors sz q column row"
  by (rule predictors_causal [OF assms])

lemma intra_prediction_causal_witness:
  "let p = new_plane 16 8 0; q = p\<lparr>pl_data := (pl_data p)[60 := 7]\<rparr> in
   p \<noteq> q \<and> block_predictors 8 p 1 0 = block_predictors 8 q 1 0"
proof -
  let ?p = "new_plane 16 8 0"
  let ?q = "?p\<lparr>pl_data := (pl_data ?p)[60 := 7]\<rparr>"
  have "pl_data ?p ! 60 \<noteq> pl_data ?q ! 60" by (simp add: new_plane_def)
  then have "?p \<noteq> ?q" by metis
  moreover have "plane_at ?p x y = plane_at ?q x y" if "decoded_before 8 1 0 x y" for x y
  proof -
    have "x div 8 = 0" using that by (simp add: decoded_before_def)
    then have "x < 8" by (simp add: div_eq_0_iff)
    then have "(y * 16 + x) mod 16 \<noteq> 60 mod 16" by simp
    then have "y * 16 + x \<noteq> 60" by metis
    then show ?thesis by (auto simp: plane_at_def pixel_index_def at_def new_plane_def)
  qed
  then have "block_predictors 8 ?p 1 0 = block_predictors 8 ?q 1 0"
    by (intro intra_prediction_causal) (simp_all add: block_in_def plane_valid_def new_plane_def)
  ultimately show ?thesis unfolding Let_def by (rule conjI)
qed

lemma collect_defined: "(\<And>x. x \<in> set xs \<Longrightarrow> f x \<noteq> None) \<Longrightarrow> \<exists>ys. collect f xs = Some ys \<and> length ys = length xs"
  using collect_total [of xs f "\<lambda>x. the (f x)"] by force

text \<open>No access of a prediction leaves the plane.\<close>

lemma block_predictors_defined:
  assumes "block_in sz p column row"
  shows "\<exists>pr. block_predictors sz p column row = Some pr \<and> predictors_ok sz pr"
proof -
  have p: "plane_valid p" "sz \<in> {4, 8, 16}" "0 < sz" "sz * column + sz \<le> pl_width p" "sz * row + sz \<le> pl_height p" "sz dvd pl_width p"
    using assms by (auto simp: block_in_def)
  have px: "plane_at p x y \<noteq> None" if "x < pl_width p" "y < pl_height p" for x y
    using p(1) that by (simp add: plane_at_in)
  have y: "sz * row - 1 < pl_height p" "sz * (row div 4 * 4) - 1 < pl_height p"
  proof -
    have "sz * (row div 4 * 4) \<le> sz * row" by (intro mult_le_mono) simp_all
    then show "sz * row - 1 < pl_height p" "sz * (row div 4 * 4) - 1 < pl_height p" using p by linarith+
  qed
  obtain k where k: "pl_width p = sz * k" using p(6) by (auto simp: dvd_def)
  have room: "sz * (column + 1) + i < pl_width p" if "\<not> pl_width p \<le> sz * (column + 1)" "i < sz" for i
  proof -
    have "column + 1 < k" using that(1) unfolding k not_le by (simp only: mult_less_cancel1)
    then have "sz * (column + 2) \<le> pl_width p" unfolding k by (intro mult_le_mono) simp_all
    then show ?thesis using that(2) by (simp add: algebra_simps)
  qed
  have run: "\<exists>ys. collect (\<lambda>i. plane_at p (x + i) y) [0..<sz] = Some ys \<and> length ys = sz"
    if "\<And>i. i < sz \<Longrightarrow> x + i < pl_width p" "y < pl_height p" for x y
    using collect_defined [of "[0..<sz]" "\<lambda>i. plane_at p (x + i) y"] px that by simp
  have left: "\<exists>ys. collect (\<lambda>i. plane_at p (sz * column - 1) (sz * row + i)) [0..<sz] = Some ys \<and> length ys = sz"
    using collect_defined [of "[0..<sz]" "\<lambda>i. plane_at p (sz * column - 1) (sz * row + i)"] px p by simp
  have above: "\<exists>ys. collect (\<lambda>i. plane_at p (sz * column + i) (sz * row - 1)) [0..<sz] = Some ys \<and> length ys = sz"
    using p y by (intro run) simp_all
  have far: "\<exists>v. plane_at p (sz * (column + 1) - 1) (sz * (row div 4 * 4) - 1) = Some v"
    using px [of "sz * (column + 1) - 1" "sz * (row div 4 * 4) - 1"] p y by simp
  have corner: "\<exists>v. plane_at p (sz * column - 1) (sz * row - 1) = Some v"
    using px [of "sz * column - 1" "sz * row - 1"] p y by simp
  have right: "\<exists>ys. (if sz \<noteq> 4 then Some [] else if row = 0 then Some (replicate sz ROW_127)
      else if sz * (column + 1) \<ge> pl_width p then
        (if row \<ge> 4 then map_option (replicate sz) (plane_at p (sz * (column + 1) - 1) (sz * (row div 4 * 4) - 1))
         else Some (replicate sz ROW_127))
      else if column mod 4 = 3 \<and> row mod 4 \<noteq> 0 then
        (if row \<ge> 4 then collect (\<lambda>i. plane_at p (sz * (column + 1) + i) (sz * (row div 4 * 4) - 1)) [0..<sz]
         else Some (replicate sz ROW_127))
      else collect (\<lambda>i. plane_at p (sz * (column + 1) + i) (sz * row - 1)) [0..<sz]) = Some ys \<and>
      length ys = (if sz = 4 then 4 else 0)" (is "\<exists>ys. ?right = Some ys \<and> _")
    using run [OF room y(1)] run [OF room y(2)] far by auto
  have "\<exists>l. (if column > 0 then collect (\<lambda>i. plane_at p (sz * column - 1) (sz * row + i)) [0..<sz]
      else Some (replicate sz COL_129)) = Some l \<and> length l = sz" using left by auto
  moreover have "\<exists>a. (if row > 0 then collect (\<lambda>i. plane_at p (sz * column + i) (sz * row - 1)) [0..<sz]
      else Some (replicate sz ROW_127)) = Some a \<and> length a = sz" using above by auto
  moreover have "\<exists>c. (if column > 0 \<and> row > 0 then plane_at p (sz * column - 1) (sz * row - 1)
      else if row > 0 then Some COL_129 else Some ROW_127) = Some c" using corner by auto
  ultimately show ?thesis
    using right p(2) unfolding block_predictors_from [OF assms] predictors_from_def Let_def
    by (elim exE conjE) (simp only: bind.bind_lunit predictors_ok_def, auto)
qed


section \<open>Predicting a block in place\<close>

lemma put_square:
  assumes "block_in sz p column row" and "length block = sz" and "\<forall>vs\<in>set block. length vs = sz"
  shows "\<exists>q. put_block (sz * column) (sz * row) block p = Some q \<and> written (sz * column) (sz * row) block p q"
  using assms by (intro put_block_spec) (auto simp: block_in_def algebra_simps)

lemma square_predictions:
  "square 4 (vertical_smoothed_predict pr)" "square 4 (horizontal_smoothed_predict pr)" "square 4 (left_down_predict pr)"
  "square 4 (right_down_predict pr)" "square 4 (vertical_right_predict pr)" "square 4 (vertical_left_predict pr)"
  "square 4 (horizontal_down_predict pr)" "square 4 (horizontal_up_predict pr)"
  "square sz (true_motion_predict sz pr)" "square sz (horizontal_predict sz pr)" "square sz (vertical_predict sz pr)"
  "square sz (dc_predict_simple sz pr)" "square sz (dc_predict sz column row pr)"
  by (simp_all add: square_def vertical_smoothed_predict_def horizontal_smoothed_predict_def left_down_predict_def
      right_down_predict_def vertical_right_predict_def vertical_left_predict_def horizontal_down_predict_def
      horizontal_up_predict_def true_motion_predict_def horizontal_predict_def vertical_predict_def
      dc_predict_simple_def dc_predict_def Let_def)

definition mb_intra_modes :: "mbmode set" where "mb_intra_modes = {DC_PRED, V_PRED, H_PRED, TM_PRED}"
definition b_intra_modes :: "bmode set" where
  "b_intra_modes = {B_DC_PRED, B_TM_PRED, B_VE_PRED, B_HE_PRED, B_LD_PRED, B_RD_PRED, B_VR_PRED, B_VL_PRED, B_HD_PRED, B_HU_PRED}"

lemma mb_prediction_square:
  "mode \<in> mb_intra_modes \<Longrightarrow> \<exists>block. intra_predict_mb sz column row mode pr = Inr block \<and> square sz block"
  by (auto simp: mb_intra_modes_def intra_predict_mb_def square_predictions)

lemma b_prediction_square:
  "mode \<in> b_intra_modes \<Longrightarrow> \<exists>block. intra_predict_b mode pr = Inr block \<and> square 4 block"
  by (auto simp: b_intra_modes_def intra_predict_b_def square_predictions)

lemma intra_predict_block_spec:
  assumes "block_in sz p column row" and "\<And>pr. \<exists>block. predict pr = Inr block \<and> square sz block"
  shows "\<exists>q. intra_predict_block sz predict column row p = Inr q \<and> only_block sz column row p q"
proof -
  obtain pr where pr: "block_predictors sz p column row = Some pr" using block_predictors_defined [OF assms(1)] by blast
  obtain block where block: "predict pr = Inr block" "square sz block" using assms(2) by blast
  then obtain q where q: "put_block (sz * column) (sz * row) block p = Some q" "written (sz * column) (sz * row) block p q"
    using put_square [OF assms(1), of block] by (auto simp: square_def)
  have "0 < sz" using assms(1) by (auto simp: block_in_def)
  with written_only_block [OF q(2) block(2)] show ?thesis
    by (simp add: intra_predict_block_def of_assert_def pr block(1) q(1))
qed

end
