(* ===== verification/Motion_Vectors.thy ===== *)
theory Motion_Vectors
  imports Mode_Data Prob_Data
begin

unbundle bit_operations_syntax

text \<open>
  Motion vectors: \<open>MotionVector\<close> (src/src/decoder/vp8_header_structures.hh and
  src/src/decoder/macroblock.cc), the routines that write them (src/src/encoder/serializer.cc) and
  the census of the neighbouring macroblocks' vectors, \<open>Scorer\<close> (src/src/decoder/scorer.hh).
  Components are 16-bit words; the reader and the writer of a component are an instance of the
  \<open>bit_codec\<close> calculus on the components the format can carry, and the census is shown to index
  its arrays, and the table of mode probabilities, within their bounds.
\<close>

section \<open>Vectors\<close>

record motion_vector =
  mv_y :: i16
  mv_x :: i16

definition mv_zero :: motion_vector where
  "mv_zero = \<lparr>mv_y = 0, mv_x = 0\<rparr>"

definition mv_make :: "i16 \<Rightarrow> i16 \<Rightarrow> motion_vector" where
  "mv_make x y = \<lparr>mv_y = y, mv_x = x\<rparr>"

definition mv_neg :: "motion_vector \<Rightarrow> motion_vector" where
  "mv_neg v = mv_make (- mv_x v) (- mv_y v)"

definition mv_plus :: "motion_vector \<Rightarrow> motion_vector \<Rightarrow> motion_vector" where
  "mv_plus v w = \<lparr>mv_y = mv_y v + mv_y w, mv_x = mv_x v + mv_x w\<rparr>"

definition mv_minus :: "motion_vector \<Rightarrow> motion_vector \<Rightarrow> motion_vector" where
  "mv_minus v w = mv_plus v (mv_neg w)"

definition mv_empty :: "motion_vector \<Rightarrow> bool" where
  "mv_empty v \<longleftrightarrow> mv_x v = 0 \<and> mv_y v = 0"

definition smin :: "i16 \<Rightarrow> i16 \<Rightarrow> i16" where
  "smin a b = (if b <s a then b else a)"

definition smax :: "i16 \<Rightarrow> i16 \<Rightarrow> i16" where
  "smax a b = (if a <s b then b else a)"

definition mv_clamp :: "i16 \<Rightarrow> i16 \<Rightarrow> i16 \<Rightarrow> i16 \<Rightarrow> motion_vector \<Rightarrow> motion_vector" where
  "mv_clamp to_left to_right to_top to_bottom v =
     \<lparr>mv_y = smin (smax (mv_y v) to_top) to_bottom, mv_x = smin (smax (mv_x v) to_left) to_right\<rparr>"

text \<open>The average of four luma vectors; the sums are computed as \<open>int\<close> and narrowed.\<close>

definition round_eighth :: "i16 \<Rightarrow> i16" where
  "round_eighth x =
     word_of_int (if 0 \<le> sint x then (sint x + 4) div 8 else - ((- sint x + 4) div 8))"

definition luma_to_chroma :: "motion_vector \<Rightarrow> motion_vector \<Rightarrow> motion_vector \<Rightarrow> motion_vector \<Rightarrow> motion_vector" where
  "luma_to_chroma s1 s2 s3 s4 =
     (let x = mv_x s1 + mv_x s2 + mv_x s3 + mv_x s4;
          y = mv_y s1 + mv_y s2 + mv_y s3 + mv_y s4
      in mv_make (round_eighth x) (round_eighth y))"


section \<open>Components in the bitstream\<close>

text \<open>The layout of the nineteen probabilities of a component.\<close>

definition IS_SHORT :: nat where "IS_SHORT = 0"
definition SIGN :: nat where "SIGN = 1"
definition SHORT :: nat where "SHORT = 2"
definition BITS :: nat where "BITS = SHORT + 8 - 1"
definition LONG_MV_WIDTH :: nat where "LONG_MV_WIDTH = 10"

lemmas mv_layout = IS_SHORT_def SIGN_def SHORT_def BITS_def LONG_MV_WIDTH_def

text \<open>The bits of a long component come in the order 0, 1, 2 and then from 9 down to 4; bit 3
  comes last and only when a higher bit is set.\<close>

definition long_order :: "nat list" where
  "long_order = [0..<3] @ rev [4..<LONG_MV_WIDTH]"

primrec read_bits :: "u8 list \<Rightarrow> nat list \<Rightarrow> i16 \<Rightarrow> i16 reader" where
  "read_bits probs [] x d = Some (x, d)"
| "read_bits probs (i # is) x d =
     do { p \<leftarrow> at probs (BITS + i);
          (b, d) \<leftarrow> bd_get p d;
          read_bits probs is (x + push_bit i (of_bool b)) d }"

definition read_long :: "u8 list \<Rightarrow> i16 reader" where
  "read_long probs d =
     do { (x, d) \<leftarrow> read_bits probs long_order 0 d;
          if x AND 0xFFF0 = 0 then Some (x + 8, d)
          else do { p \<leftarrow> at probs (BITS + 3);
                    (b, d) \<leftarrow> bd_get p d;
                    Some (if b then x + 8 else x, d) } }"

definition read_magnitude :: "u8 list \<Rightarrow> bool \<Rightarrow> i16 reader" where
  "read_magnitude probs large d =
     (if large then read_long probs d
      else do { (v, d) \<leftarrow> bd_tree small_mv_tree (take 7 (drop SHORT probs)) d;
                Some (word_of_int v, d) })"

definition read_sign :: "u8 list \<Rightarrow> i16 \<Rightarrow> i16 reader" where
  "read_sign probs x d =
     (if x \<noteq> 0 then
        do { p \<leftarrow> at probs SIGN;
             (b, d) \<leftarrow> bd_get p d;
             Some (if b then - x else x, d) }
      else Some (x, d))"

definition read_component :: "u8 list \<Rightarrow> i16 reader" where
  "read_component probs d =
     do { p \<leftarrow> at probs IS_SHORT;
          (large, d) \<leftarrow> bd_get p d;
          (x, d) \<leftarrow> read_magnitude probs large d;
          read_sign probs (push_bit 1 x) d }"

primrec write_bits :: "u8 list \<Rightarrow> nat list \<Rightarrow> u16 \<Rightarrow> writer" where
  "write_bits probs [] x e = Some e"
| "write_bits probs (i # is) x e =
     do { p \<leftarrow> at probs (BITS + i);
          e \<leftarrow> be_put (bit x i) p e;
          write_bits probs is x e }"

definition put_at :: "u8 list \<Rightarrow> nat \<Rightarrow> bool \<Rightarrow> writer" where
  "put_at probs i b e = do { p \<leftarrow> at probs i; be_put b p e }"

definition write_magnitude :: "u8 list \<Rightarrow> u16 \<Rightarrow> writer list" where
  "write_magnitude probs x =
     (if x < 8 then [put_at probs IS_SHORT False, enc_tree small_mv_tree (take 7 (drop SHORT probs)) (uint x)]
      else [put_at probs IS_SHORT True, write_bits probs long_order x]
           @ (if x AND 0xfff0 \<noteq> 0 then [put_at probs (BITS + 3) (bit x 3)] else []))"

definition write_component :: "u8 list \<Rightarrow> i16 \<Rightarrow> writer" where
  "write_component probs num =
     (let num_to_encode = signed_drop_bit 1 num;
          x = (word_of_int \<bar>sint num_to_encode\<bar> :: u16)
      in enc_seq (write_magnitude probs x
                  @ (if x \<noteq> 0 then [put_at probs SIGN (num_to_encode <s 0)] else [])))"

definition read_mv :: "u8 list list \<Rightarrow> motion_vector reader" where
  "read_mv probs d =
     do { py \<leftarrow> at probs 0;
          (y, d) \<leftarrow> read_component py d;
          px \<leftarrow> at probs 1;
          (x, d) \<leftarrow> read_component px d;
          Some (\<lparr>mv_y = y, mv_x = x\<rparr>, d) }"

definition write_mv :: "u8 list list \<Rightarrow> motion_vector \<Rightarrow> writer" where
  "write_mv probs v e =
     do { py \<leftarrow> at probs 0;
          e \<leftarrow> write_component py (mv_y v) e;
          px \<leftarrow> at probs 1;
          write_component px (mv_x v) e }"


section \<open>The census of the neighbours\<close>

text \<open>What the census reads of a neighbouring macroblock of an inter frame.\<close>

record census_mb =
  cm_inter_coded :: bool
  cm_base_mv :: motion_vector
  cm_flipped :: bool
  cm_split :: bool

record scorer =
  sc_flipped :: bool
  sc_scores :: "u8 list"
  sc_mvs :: "motion_vector list"
  sc_splitmv_score :: u8
  sc_index :: nat

definition scorer_init :: "bool \<Rightarrow> scorer" where
  "scorer_init flipped =
     \<lparr>sc_flipped = flipped, sc_scores = replicate 4 0, sc_mvs = replicate 4 mv_zero,
      sc_splitmv_score = 0, sc_index = 0\<rparr>"

definition add_score :: "nat \<Rightarrow> u8 \<Rightarrow> scorer \<Rightarrow> scorer option" where
  "add_score i score s =
     do { old \<leftarrow> at (sc_scores s) i;
          Some (s\<lparr>sc_scores := (sc_scores s)[i := old + score]\<rparr>) }"

definition set_mv :: "nat \<Rightarrow> motion_vector \<Rightarrow> scorer \<Rightarrow> scorer option" where
  "set_mv i v s =
     (if i < length (sc_mvs s) then Some (s\<lparr>sc_mvs := (sc_mvs s)[i := v]\<rparr>) else None)"

definition add_mv :: "u8 \<Rightarrow> motion_vector \<Rightarrow> scorer \<Rightarrow> scorer option" where
  "add_mv score mv s =
     (if mv_empty mv then add_score 0 score s
      else
        do { last_mv \<leftarrow> at (sc_mvs s) (sc_index s);
             s \<leftarrow> (if mv \<noteq> last_mv
                   then set_mv (sc_index s + 1) mv (s\<lparr>sc_index := sc_index s + 1\<rparr>)
                   else Some s);
             add_score (sc_index s) score s })"

definition add_mb :: "u8 \<Rightarrow> census_mb option \<Rightarrow> scorer \<Rightarrow> scorer option" where
  "add_mb score mb s =
     (case mb of
        None \<Rightarrow> Some s
      | Some mb \<Rightarrow>
          if cm_inter_coded mb then
            do { let mv = (if cm_flipped mb \<noteq> sc_flipped s then mv_neg (cm_base_mv mb) else cm_base_mv mb);
                 s \<leftarrow> add_mv score mv s;
                 Some (if cm_split mb then s\<lparr>sc_splitmv_score := sc_splitmv_score s + score\<rparr> else s) }
          else Some s)"

text \<open>\<open>calculate\<close>: the scores of equal vectors are joined, the two best are put in order, and
  the best vector replaces the zero vector when it scores as high.\<close>

definition join_last :: "scorer \<Rightarrow> scorer option" where
  "join_last s =
     do { s3 \<leftarrow> at (sc_scores s) 3;
          if s3 \<noteq> 0 then
            do { v \<leftarrow> at (sc_mvs s) (sc_index s);
                 w \<leftarrow> at (sc_mvs s) 1;
                 if v = w then add_score 1 s3 s else Some s }
          else Some s }"

definition order_best :: "scorer \<Rightarrow> scorer option" where
  "order_best s =
     do { s1 \<leftarrow> at (sc_scores s) 1; s2 \<leftarrow> at (sc_scores s) 2;
          v1 \<leftarrow> at (sc_mvs s) 1; v2 \<leftarrow> at (sc_mvs s) 2;
          Some (if s2 > s1
                then s\<lparr>sc_scores := (sc_scores s)[1 := s2, 2 := s1], sc_mvs := (sc_mvs s)[1 := v2, 2 := v1]\<rparr>
                else s) }"

definition promote_best :: "scorer \<Rightarrow> scorer option" where
  "promote_best s =
     do { s0 \<leftarrow> at (sc_scores s) 0; s1 \<leftarrow> at (sc_scores s) 1; v1 \<leftarrow> at (sc_mvs s) 1;
          if s1 \<ge> s0 then set_mv 0 v1 s else Some s }"

definition calculate :: "scorer \<Rightarrow> scorer option" where
  "calculate s = do { s \<leftarrow> join_last s; s \<leftarrow> order_best s; promote_best s }"

definition motion_vector_census ::
  "bool \<Rightarrow> census_mb option \<Rightarrow> census_mb option \<Rightarrow> census_mb option \<Rightarrow> scorer option" where
  "motion_vector_census flipped mb_above mb_left mb_above_left =
     do { s \<leftarrow> add_mb 2 mb_above (scorer_init flipped);
          s \<leftarrow> add_mb 2 mb_left s;
          s \<leftarrow> add_mb 1 mb_above_left s;
          calculate s }"

definition best :: "scorer \<Rightarrow> motion_vector option" where "best s = at (sc_mvs s) 0"
definition nearest :: "scorer \<Rightarrow> motion_vector option" where "nearest s = at (sc_mvs s) 1"
definition near :: "scorer \<Rightarrow> motion_vector option" where "near s = at (sc_mvs s) 2"

definition mode_contexts :: "scorer \<Rightarrow> u8 list option" where
  "mode_contexts s =
     do { s0 \<leftarrow> at (sc_scores s) 0; s1 \<leftarrow> at (sc_scores s) 1; s2 \<leftarrow> at (sc_scores s) 2;
          Some [s0, s1, s2, sc_splitmv_score s] }"

definition mv_ref_prob :: "u8 list \<Rightarrow> nat \<Rightarrow> u8 option" where
  "mv_ref_prob counts i = do { c \<leftarrow> at counts i; row \<leftarrow> at mv_counts_to_probs (unat c); at row i }"

definition mv_ref_probs :: "u8 list \<Rightarrow> u8 list option" where
  "mv_ref_probs counts =
     do { p0 \<leftarrow> mv_ref_prob counts 0; p1 \<leftarrow> mv_ref_prob counts 1;
          p2 \<leftarrow> mv_ref_prob counts 2; p3 \<leftarrow> mv_ref_prob counts 3;
          Some [p0, p1, p2, p3] }"

text \<open>\<open>Scorer::clamp\<close> keeps a vector from pointing more than a macroblock outside the frame.
  Columns and rows are \<open>unsigned int\<close>; the left and upper bounds are computed as \<open>int32_t\<close>, the
  others as \<open>uint32_t\<close>.\<close>

record mb_position =
  mp_column :: u32
  mp_row :: u32
  mp_width :: u32
  mp_height :: u32

definition low_bound :: "u32 \<Rightarrow> i16" where
  "low_bound n = word_of_int (max (sint (- push_bit 3 (n * 16) - 128)) (- 32768))"

definition high_bound :: "u32 \<Rightarrow> i16" where
  "high_bound n = ucast (min (push_bit 3 (n * 16) + 128) 32767)"

definition scorer_clamp :: "motion_vector \<Rightarrow> mb_position \<Rightarrow> motion_vector" where
  "scorer_clamp v c =
     mv_clamp (low_bound (mp_column c)) (high_bound (mp_width c - 1 - mp_column c))
       (low_bound (mp_row c)) (high_bound (mp_height c - 1 - mp_row c)) v"


section \<open>The components the format can carry\<close>

text \<open>A component is even, and half of its magnitude has at most ten bits.\<close>

definition mv_component_ok :: "i16 \<Rightarrow> bool" where
  "mv_component_ok c \<longleftrightarrow> even (sint c) \<and> \<bar>sint c\<bar> < 2048"

definition mv_ok :: "motion_vector \<Rightarrow> bool" where
  "mv_ok v \<longleftrightarrow> mv_component_ok (mv_y v) \<and> mv_component_ok (mv_x v)"

lemma at_index: "i < length xs \<Longrightarrow> at xs i = Some (xs ! i)"
  by simp

lemma codes_put_at: "i < length probs \<Longrightarrow> codes (put_at probs i b) (\<lambda>d. do { p \<leftarrow> at probs i; bd_get p d }) b"
  using codes_put [of b "probs ! i"] by (simp add: put_at_def [abs_def])

lemma put_at_eq: "i < length probs \<Longrightarrow> put_at probs i b = be_put b (probs ! i)"
  by (rule ext) (simp add: put_at_def)

text \<open>Reading a list of bit positions gathers the bits that were written.\<close>

definition gather :: "u16 \<Rightarrow> nat list \<Rightarrow> i16 \<Rightarrow> i16" where
  "gather x is acc = foldl (\<lambda>a i. a + push_bit i (of_bool (bit x i))) acc is"

lemma bits_codes:
  assumes "\<forall>i\<in>set is. BITS + i < length probs"
  shows "codes (write_bits probs is x) (read_bits probs is acc) (gather x is acc)"
  using assms
proof (induction "is" arbitrary: acc)
  case Nil
  then show ?case by (simp add: gather_def codes_nothing)
next
  case (Cons i "is")
  let ?p = "probs ! (BITS + i)" and ?acc = "acc + push_bit i (of_bool (bit x i))"
  have w: "write_bits probs (i # is) x = enc_seq [be_put (bit x i) ?p, write_bits probs is x]"
    using Cons.prems by (intro ext) (simp split: Option.bind_split)
  have r: "read_bits probs (i # is) acc
      = (\<lambda>d. do { (b, d) \<leftarrow> bd_get ?p d; read_bits probs is (acc + push_bit i (of_bool b)) d })"
    using Cons.prems by (intro ext) simp
  have "codes (enc_seq [write_bits probs is x]) (read_bits probs is ?acc) (gather x (i # is) acc)"
    using Cons.IH [of ?acc] Cons.prems by (simp add: codes_seq1 gather_def)
  then show ?case
    unfolding w r by (rule codes_put_step)
qed

lemma gather_bit:
  assumes "distinct is" and "\<forall>i\<in>set is. \<not> bit acc i"
  shows "bit (gather x is acc) j \<longleftrightarrow> bit acc j \<or> j \<in> set is \<and> bit x j"
  using assms
proof (induction "is" arbitrary: acc)
  case (Cons i "is")
  let ?b = "push_bit i (of_bool (bit x i)) :: i16"
  have b: "bit ?b j \<longleftrightarrow> j = i \<and> bit x i" for j
    by (auto simp: bit_push_bit_iff bit_of_bool_iff dest: bit_imp_le_length)
  have "acc AND ?b = 0"
    using Cons.prems(2) by (intro bit_word_eqI) (auto simp: bit_and_iff b)
  then have or: "acc + ?b = acc OR ?b"
    by (rule disjunctive_add_eq_or)
  have "bit (gather x is (acc + ?b)) j \<longleftrightarrow> bit (acc + ?b) j \<or> j \<in> set is \<and> bit x j"
    using Cons.prems by (intro Cons.IH) (auto simp: or bit_or_iff b)
  then show ?case
    by (auto simp: gather_def or bit_or_iff b)
qed (simp add: gather_def)

text \<open>Adding a bit that is clear is setting it.\<close>

lemma add_bit: "\<not> bit (a :: i16) i \<Longrightarrow> a + push_bit i (of_bool b) = a OR push_bit i (of_bool b)"
  by (intro disjunctive_add_eq_or bit_word_eqI)
     (auto simp: bit_and_iff bit_push_bit_iff bit_of_bool_iff dest: bit_imp_le_length)

lemma bit_add_bit:
  "\<not> bit (a :: i16) i \<Longrightarrow> i < 16 \<Longrightarrow> bit (a + push_bit i (of_bool b)) j \<longleftrightarrow> bit a j \<or> j = i \<and> b"
  unfolding add_bit by (auto simp: bit_or_iff bit_push_bit_iff bit_of_bool_iff)

lemma add_8: "\<not> bit (a :: i16) 3 \<Longrightarrow> bit (a + 8) j \<longleftrightarrow> bit a j \<or> j = 3"
  using bit_add_bit [of a 3 True j] by simp

lemma bit_high: "bit (0xFFF0 :: u16) j \<longleftrightarrow> 4 \<le> j \<and> j < 16"
proof -
  have "(0xFFF0 :: u16) = push_bit 4 (mask 12)"
    by (simp add: mask_eq_exp_minus_1)
  then show ?thesis
    unfolding bit_push_bit_iff bit_mask_iff by (simp only: bit_push_bit_iff bit_mask_iff) auto
qed

lemma high_bits: "(x :: u16) AND 0xFFF0 = 0 \<longleftrightarrow> (\<forall>j. 4 \<le> j \<longrightarrow> \<not> bit x j)"
proof -
  have bits: "bit (x AND 0xFFF0) j \<longleftrightarrow> bit x j \<and> 4 \<le> j" for j
    unfolding bit_and_iff bit_high using bit_imp_le_length [of x j] by auto
  have "x AND 0xFFF0 = 0 \<longleftrightarrow> (\<forall>j. \<not> bit (x AND 0xFFF0) j)"
    by (metis bit_0_eq bot_apply bot_bool_def bit_eq_iff)
  then show ?thesis
    unfolding bits by auto
qed

lemma small_bits:
  assumes "unat (x :: u16) < 2 ^ n" and "bit x j"
  shows "j < n"
proof -
  have "bit (take_bit n (unat x)) j"
    using assms bit_imp_le_length [of x j] by (simp add: take_bit_nat_eq_self bit_unsigned_iff)
  then show ?thesis by (simp add: bit_take_bit_iff)
qed

lemma small_leaf: "n < 8 \<Longrightarrow> int n \<in> set (leaves small_mv_tree)"
  unfolding leaf_values by simp arith

lemma bits_small: "(\<And>j. bit (x :: u16) j \<Longrightarrow> j < n) \<Longrightarrow> unat x < 2 ^ n"
proof -
  assume "\<And>j. bit x j \<Longrightarrow> j < n"
  then have "take_bit n x = x"
    by (intro bit_word_eqI) (auto simp: bit_take_bit_iff)
  then have "take_bit n (unat x) = unat x"
    by (metis unsigned_take_bit_eq)
  then show ?thesis by (simp add: take_bit_nat_eq_self_iff)
qed

lemma long_order_set: "set long_order = {i. i < 10 \<and> i \<noteq> 3}"
  by (auto simp: long_order_def mv_layout)

lemma long_order_distinct: "distinct long_order"
  by (auto simp: long_order_def mv_layout)

lemma gathered:
  assumes "unat x < 1024"
  shows "bit (gather x long_order 0) j \<longleftrightarrow> j \<noteq> 3 \<and> bit x j"
  using small_bits [of x 10 j] assms
  by (subst gather_bit) (auto simp: long_order_distinct long_order_set)

lemma magnitude_codes:
  assumes probs: "length probs = MV_PROB_CNT" and x: "unat x < 1024"
  shows "codes (enc_seq (write_magnitude probs x))
    (\<lambda>d. do { p \<leftarrow> at probs IS_SHORT; (large, d) \<leftarrow> bd_get p d; read_magnitude probs large d }) x"
proof -
  have len: "length probs = 19" using probs by (simp add: MV_PROB_CNT_def)
  have at: "at probs IS_SHORT = Some (probs ! IS_SHORT)" "put_at probs IS_SHORT b = be_put b (probs ! IS_SHORT)" for b
    using len by (simp_all add: put_at_eq mv_layout)
  let ?g = "gather x long_order 0"
  show ?thesis
  proof (cases "x < 8")
    case True
    then have "unat x < 8" by (simp add: word_less_nat_alt)
    then have "uint x \<in> set (leaves small_mv_tree)"
      using small_leaf [of "unat x"] by simp
    then have "codes (enc_tree small_mv_tree (take 7 (drop SHORT probs)) (uint x))
        (bd_tree small_mv_tree (take 7 (drop SHORT probs))) (uint x)"
      using len by (intro bit_codec.codec [OF small_mv_codec]) (simp_all add: mv_layout)
    from codes_map [OF this, of word_of_int x]
    have "codes (enc_seq [enc_tree small_mv_tree (take 7 (drop SHORT probs)) (uint x)]) (read_magnitude probs False) x"
      unfolding codes_seq1 by (simp add: read_magnitude_def [abs_def])
    then show ?thesis
      using True unfolding write_magnitude_def at
      by (simp only: if_True bind.bind_lunit) (rule codes_put_step)
  next
    case False
    then have big: "8 \<le> unat x" by (simp add: word_less_nat_alt)
    have g: "bit ?g j \<longleftrightarrow> j \<noteq> 3 \<and> bit x j" for j by (rule gathered [OF x])
    have high: "?g AND 0xFFF0 = 0 \<longleftrightarrow> x AND 0xFFF0 = 0"
      unfolding high_bits g by auto
    have eight: "?g + 8 = x" if "bit x 3"
      using that by (intro bit_word_eqI) (simp add: add_8 g; auto)
    have same: "?g = x" if "\<not> bit x 3"
      using that by (intro bit_word_eqI) (auto simp: g)
    let ?k = "\<lambda>g d. if g AND 0xFFF0 = 0 then Some (g + 8, d)
      else do { p \<leftarrow> at probs (BITS + 3); (b, d) \<leftarrow> bd_get p d; Some (if b then g + 8 else g, d) }"
    have three: "bit x 3" if "x AND 0xFFF0 = 0"
    proof (rule ccontr)
      assume "\<not> bit x 3"
      then have "bit x j \<Longrightarrow> j < 3" for j
        using that unfolding high_bits by (metis le_less_linear less_antisym numeral_3_eq_3 eval_nat_numeral(2) semiring_norm(26,27,28) Suc_leI le_neq_implies_less)
      then show False using bits_small [of x 3] big by simp
    qed
    then have rest: "codes (enc_seq (if x AND 0xfff0 \<noteq> 0 then [put_at probs (BITS + 3) (bit x 3)] else []))
      (?k ?g) x"
      using len eight same three codes_map [OF codes_put, of "\<lambda>b. if b then ?g + 8 else ?g" "bit x 3" x]
      by (cases "x AND 0xFFF0 = 0") (simp_all add: high codes_done put_at_eq mv_layout codes_seq1)
    have "codes (write_bits probs long_order x) (read_bits probs long_order 0) ?g"
      using len by (intro bits_codes) (auto simp: long_order_set mv_layout)
    from codes_step [where k = ?k, OF this rest]
    have "codes (enc_seq (write_bits probs long_order x # (if x AND 0xfff0 \<noteq> 0 then [put_at probs (BITS + 3) (bit x 3)] else [])))
        (read_magnitude probs True) x"
      by (simp add: read_magnitude_def [abs_def] read_long_def [abs_def])
    then show ?thesis
      using False unfolding write_magnitude_def at
      by (simp only: if_False append.simps bind.bind_lunit) (rule codes_put_step)
  qed
qed

text \<open>A component of the format and its half.\<close>

lemma sint_signed_drop: "sint (signed_drop_bit 1 (c :: i16)) = sint c div 2"
  by (simp add: sint_signed_drop_bit_eq drop_bit_eq_div)

lemma u16_of_int: "0 \<le> y \<Longrightarrow> y < 65536 \<Longrightarrow> uint (word_of_int y :: u16) = y"
  by (simp add: uint_word_of_int_eq take_bit_int_eq_self)

lemma component_half:
  assumes "mv_component_ok c"
  defines "h \<equiv> signed_drop_bit 1 c"
  defines "x \<equiv> (word_of_int \<bar>sint h\<bar> :: u16)"
  shows "unat x < 1024" and "(if h <s 0 then - push_bit 1 x else push_bit 1 x) = c"
    and "x = 0 \<longrightarrow> c = 0" and "push_bit 1 x = 0 \<longleftrightarrow> x = 0"
proof -
  obtain k where k: "sint c = 2 * k"
    using assms(1) by (auto simp: mv_component_ok_def)
  then have h: "sint h = k" "\<bar>k\<bar> < 1024"
    using assms(1) by (simp_all add: h_def sint_signed_drop mv_component_ok_def del: One_nat_def)
  have "c = word_of_int (sint c)" by simp
  then have c: "c = word_of_int (2 * k)"
    unfolding k .
  have x: "uint x = \<bar>k\<bar>"
    using h by (simp add: x_def uint_word_of_int_eq take_bit_int_eq_self)
  then show "unat x < 1024"
    using h(2) uint_nat [of x] by linarith
  have p: "push_bit 1 x = word_of_int (2 * \<bar>k\<bar>)"
    by (simp add: x_def h push_bit_eq_mult)
  show "(if h <s 0 then - push_bit 1 x else push_bit 1 x) = c"
    unfolding p c by (simp add: word_sless_alt h flip: wi_hom_neg)
  have "uint (push_bit 1 x) = 2 * \<bar>k\<bar>"
    unfolding p using h by (intro u16_of_int) simp_all
  then show "push_bit 1 x = 0 \<longleftrightarrow> x = 0"
    using x by (metis uint_0_iff mult_eq_0_iff zero_neq_numeral)
  show "x = 0 \<longrightarrow> c = 0"
    using x c by auto
qed

lemma component_codes:
  assumes probs: "length probs = MV_PROB_CNT" and c: "mv_component_ok c"
  shows "codes (write_component probs c) (read_component probs) c"
proof -
  let ?h = "signed_drop_bit 1 c"
  let ?x = "word_of_int \<bar>sint ?h\<bar> :: u16"
  let ?m = "\<lambda>d. do { p \<leftarrow> at probs IS_SHORT; (large, d) \<leftarrow> bd_get p d; read_magnitude probs large d }"
  let ?k = "\<lambda>x. read_sign probs (push_bit 1 x)"
  have sign: "SIGN < length probs"
    using probs by (simp add: mv_layout MV_PROB_CNT_def)
  note half = component_half [OF c]
  have "codes (enc_seq (if ?x \<noteq> 0 then [put_at probs SIGN (?h <s 0)] else [])) (?k ?x) c"
  proof (cases "?x = 0")
    case True
    then show ?thesis
      using half(3) by (simp add: read_sign_def [abs_def] codes_done)
  next
    case False
    then have "push_bit 1 ?x \<noteq> 0" using half(4) by simp
    moreover have "codes (be_put (?h <s 0) (probs ! SIGN))
      (\<lambda>d. do { (b, d) \<leftarrow> bd_get (probs ! SIGN) d; Some (if b then - push_bit 1 ?x else push_bit 1 ?x, d) }) c"
      by (rule codes_map [where g = "\<lambda>b. if b then - push_bit 1 ?x else push_bit 1 ?x", OF codes_put]) (rule half(2))
    ultimately show ?thesis
      using False sign by (simp add: read_sign_def [abs_def] codes_seq1 put_at_eq del: push_bit_Suc push_bit_of_Suc_0 One_nat_def)
  qed
  from codes_append [where k = ?k and m = ?m, OF magnitude_codes [OF probs half(1)] this]
  have "codes (write_component probs c) (\<lambda>d. do { (x, d) \<leftarrow> ?m d; ?k x d }) c"
    by (simp only: write_component_def Let_def)
  moreover have "read_component probs = (\<lambda>d. do { (x, d) \<leftarrow> ?m d; ?k x d })"
    by (rule ext) (simp add: read_component_def Option.bind_assoc split_def)
  ultimately show ?thesis by (simp only:)
qed

text \<open>Reading a component returns on every input, and a component of the format.\<close>

lemma read_bits_returns:
  assumes "distinct is" and "\<forall>i\<in>set is. BITS + i < length probs \<and> i < 16 \<and> \<not> bit acc i"
  shows "returns (read_bits probs is acc) (\<lambda>v. \<forall>j. bit v j \<longrightarrow> bit acc j \<or> j \<in> set is)"
  using assms
proof (induction "is" arbitrary: acc)
  case Nil
  then show ?case by (simp add: returns_return)
next
  case (Cons i "is")
  have i: "at probs (BITS + i) = Some (probs ! (BITS + i))" "i < 16" "\<not> bit acc i"
    using Cons.prems by simp_all
  show ?case
    unfolding read_bits.simps i(1) bind.bind_lunit
  proof (rule returns_bind [OF returns_get])
    fix b
    note bits = bit_add_bit [OF i(3,2), of b]
    have "returns (read_bits probs is (acc + push_bit i (of_bool b)))
        (\<lambda>v. \<forall>j. bit v j \<longrightarrow> bit (acc + push_bit i (of_bool b)) j \<or> j \<in> set is)"
      using Cons.prems by (intro Cons.IH) (auto simp: bits)
    then show "returns (read_bits probs is (acc + push_bit i (of_bool b)))
        (\<lambda>v. \<forall>j. bit v j \<longrightarrow> bit acc j \<or> j \<in> set (i # is))"
      by (rule returns_weaken) (auto simp: bits)
  qed
qed

lemma read_long_returns:
  assumes "length probs = MV_PROB_CNT"
  shows "returns (read_long probs) (\<lambda>x. unat x < 1024)"
proof -
  have len: "length probs = 19" using assms by (simp add: MV_PROB_CNT_def)
  let ?P = "\<lambda>v :: i16. \<forall>j. bit v j \<longrightarrow> j < 10 \<and> j \<noteq> 3"
  have "returns (read_bits probs long_order 0) (\<lambda>v. \<forall>j. bit v j \<longrightarrow> bit (0 :: i16) j \<or> j \<in> set long_order)"
    using len by (intro read_bits_returns) (auto simp: long_order_distinct long_order_set mv_layout)
  then have bits: "returns (read_bits probs long_order 0) ?P"
    by (rule returns_weaken) (auto simp: long_order_set)
  have ten: "unat v < 2 ^ 10" "unat (v + 8) < 2 ^ 10" if "?P v" for v
  proof -
    have "\<not> bit v 3" using that by blast
    then show "unat (v + 8) < 2 ^ 10"
      by (intro bits_small) (use that in \<open>auto simp: add_8\<close>)
    show "unat v < 2 ^ 10"
      by (rule bits_small) (use that in blast)
  qed
  have at3: "at probs (BITS + 3) = Some (probs ! (BITS + 3))"
    using len by (simp add: mv_layout)
  show ?thesis
    unfolding read_long_def [abs_def] at3 bind.bind_lunit
    by (intro returns_bind [OF bits] returns_if returns_return returns_bind [OF returns_get])
      (use ten in simp_all)
qed

lemma component_ok_of_magnitude:
  assumes "unat (x :: i16) < 1024"
  shows "mv_component_ok (push_bit 1 x)" and "mv_component_ok (- push_bit 1 x)"
proof -
  have x: "0 \<le> uint x" "uint x < 1024" using assms uint_nat [of x] by linarith+
  have small: "sint (word_of_int y :: i16) = y" if "- 32768 \<le> y" "y < 32768" for y
    using that by (subst sint_sbintrunc') (intro signed_take_bit_int_eq_self; simp)
  have "push_bit 1 x = word_of_int (2 * uint x)" "- push_bit 1 x = word_of_int (- (2 * uint x))"
    by (simp_all add: push_bit_eq_mult)
  then have "sint (push_bit 1 x) = 2 * uint x" "sint (- push_bit 1 x) = - (2 * uint x)"
    using x by (simp_all only: small)
  then show "mv_component_ok (push_bit 1 x)" "mv_component_ok (- push_bit 1 x)"
    using x by (simp_all add: mv_component_ok_def)
qed

lemma read_component_returns:
  assumes probs: "length probs = MV_PROB_CNT"
  shows "returns (read_component probs) mv_component_ok"
proof -
  have len: "length probs = 19" using probs by (simp add: MV_PROB_CNT_def)
  have at: "at probs IS_SHORT = Some (probs ! IS_SHORT)" "at probs SIGN = Some (probs ! SIGN)"
    using len by (simp_all add: mv_layout)
  have small: "returns (bd_tree small_mv_tree (take 7 (drop SHORT probs))) (\<lambda>v. v \<in> set (leaves small_mv_tree))"
    using len by (intro bit_codec.total [OF small_mv_codec]) (simp add: mv_layout)
  have leaf: "unat (word_of_int v :: i16) < 1024" if "v \<in> set (leaves small_mv_tree)" for v
    using that by (auto simp: leaf_values)
  have mag: "returns (read_magnitude probs large) (\<lambda>x. unat x < 1024)" for large
    unfolding read_magnitude_def [abs_def]
    by (intro returns_if read_long_returns [OF probs] returns_bind [OF small] returns_return leaf)
  have sign: "returns (read_sign probs (push_bit 1 x)) mv_component_ok" if "unat x < 1024" for x :: i16
    unfolding read_sign_def [abs_def] at bind.bind_lunit
    by (intro returns_if returns_bind [OF returns_get] returns_return)
      (use component_ok_of_magnitude [OF that] in auto)
  show ?thesis
    unfolding read_component_def [abs_def] at bind.bind_lunit
    by (intro returns_bind [OF returns_get] returns_bind [OF mag] sign)
qed

lemma mv_codec:
  assumes "mv_shape probs"
  shows "bit_codec (write_mv probs) (read_mv probs) mv_ok"
proof -
  have p: "at probs 0 = Some (probs ! 0)" "at probs 1 = Some (probs ! 1)"
    "length (probs ! 0) = MV_PROB_CNT" "length (probs ! 1) = MV_PROB_CNT"
    using assms shape2_nth [of 2 MV_PROB_CNT probs 0] shape2_nth [of 2 MV_PROB_CNT probs 1]
    by (simp_all add: mv_shape_def)
  have w: "write_mv probs v = enc_seq [write_component (probs ! 0) (mv_y v), write_component (probs ! 1) (mv_x v)]" for v
    by (rule ext) (simp add: write_mv_def p(1,2) split: Option.bind_split del: One_nat_def)
  have r: "read_mv probs = (\<lambda>d. do { (y, d) \<leftarrow> read_component (probs ! 0) d;
      (x, d) \<leftarrow> read_component (probs ! 1) d; Some (\<lparr>mv_y = y, mv_x = x\<rparr>, d) })"
    by (rule ext) (simp add: read_mv_def p(1,2) del: One_nat_def)
  show ?thesis
  proof
    show "codes (write_mv probs v) (read_mv probs) v" if "mv_ok v" for v
      unfolding w r using that p(3,4)
      by (intro codes_step [OF component_codes] codes_done) (simp_all add: mv_ok_def)
    show "returns (read_mv probs) mv_ok"
      unfolding r
      by (intro returns_bind [OF read_component_returns [OF p(3)]] returns_bind [OF read_component_returns [OF p(4)]] returns_return)
        (simp add: mv_ok_def)
  qed
qed


section \<open>The census stays within its arrays\<close>

text \<open>After additions of total weight \<open>w\<close>: no score exceeds \<open>w\<close>, nor does the sum of the two
  scores that \<open>calculate\<close> joins, and the index counts the distinct vectors met.\<close>

definition scorer_ok :: "nat \<Rightarrow> nat \<Rightarrow> scorer \<Rightarrow> bool" where
  "scorer_ok w n s \<longleftrightarrow>
     length (sc_scores s) = 4 \<and> length (sc_mvs s) = 4 \<and> sc_index s \<le> n \<and>
     sum_list (map unat (sc_scores s)) \<le> w \<and> unat (sc_splitmv_score s) \<le> w"

lemma unat_add_small: "unat (a :: u8) + unat b < 256 \<Longrightarrow> unat (a + b) = unat a + unat b"
  by (simp add: unat_word_ariths)

lemma sum_list_nth_update:
  "i < length xs \<Longrightarrow> sum_list (map unat (xs[i := y :: u8])) + unat (xs ! i) = sum_list (map unat xs) + unat y"
  by (induction xs arbitrary: i) (auto split: nat.splits)

lemma nth_le_sum_list: "i < length xs \<Longrightarrow> unat (xs ! i) \<le> sum_list (map unat xs)"
  by (induction xs arbitrary: i) (force simp: nth_Cons split: nat.splits)+

lemma add_score_ok:
  assumes "scorer_ok w n s" and "i < 4" and "w + unat score < 256"
  obtains t where "add_score i score s = Some t" and "scorer_ok (w + unat score) n t"
    and "sc_mvs t = sc_mvs s" "sc_splitmv_score t = sc_splitmv_score s" "sc_flipped t = sc_flipped s"
proof -
  have len: "i < length (sc_scores s)" using assms(1,2) by (simp add: scorer_ok_def)
  have "unat (sc_scores s ! i) \<le> w"
    using nth_le_sum_list [OF len] assms(1) by (simp add: scorer_ok_def)
  then have "unat (sc_scores s ! i + score) = unat (sc_scores s ! i) + unat score"
    using assms(3) by (intro unat_add_small) simp
  then have "sum_list (map unat ((sc_scores s)[i := sc_scores s ! i + score])) \<le> w + unat score"
    using sum_list_nth_update [OF len, of "sc_scores s ! i + score"] assms(1) by (simp add: scorer_ok_def)
  then show ?thesis
    using that assms(1) len by (simp add: add_score_def scorer_ok_def)
qed

lemma add_mv_ok:
  assumes ok: "scorer_ok w n s" and w: "w + unat score < 256" and n: "n < 3"
  obtains t where "add_mv score mv s = Some t" and "scorer_ok (w + unat score) (Suc n) t"
    and "sc_splitmv_score t = sc_splitmv_score s" "sc_flipped t = sc_flipped s"
proof -
  let ?t = "if mv_empty mv \<or> mv = sc_mvs s ! sc_index s then s
    else s\<lparr>sc_index := sc_index s + 1, sc_mvs := (sc_mvs s)[sc_index s + 1 := mv]\<rparr>"
  let ?i = "if mv_empty mv then 0 else sc_index ?t"
  have t: "scorer_ok w (Suc n) ?t" "sc_splitmv_score ?t = sc_splitmv_score s" "sc_flipped ?t = sc_flipped s"
    using ok by (auto simp: scorer_ok_def)
  then have "?i < 4" using n by (auto simp: scorer_ok_def)
  from add_score_ok [OF t(1) this w] obtain u where u: "add_score ?i score ?t = Some u"
    "scorer_ok (w + unat score) (Suc n) u" "sc_splitmv_score u = sc_splitmv_score ?t" "sc_flipped u = sc_flipped ?t"
    by metis
  have "sc_index s < length (sc_mvs s)" "Suc (sc_index s) < length (sc_mvs s)"
    using ok n by (simp_all add: scorer_ok_def)
  then have "add_mv score mv s = add_score ?i score ?t"
    by (auto simp: add_mv_def set_mv_def)
  then show ?thesis
    using that u t by simp
qed

lemma add_mb_ok:
  assumes ok: "scorer_ok w n s" and w: "w + unat score < 256" and n: "n < 3"
  obtains t where "add_mb score mb s = Some t" and "scorer_ok (w + unat score) (Suc n) t"
proof (cases "\<exists>m. mb = Some m \<and> cm_inter_coded m")
  case False
  then have "add_mb score mb s = Some s"
    by (auto simp: add_mb_def split: option.splits)
  moreover have "scorer_ok (w + unat score) (Suc n) s"
    using ok by (auto simp: scorer_ok_def)
  ultimately show ?thesis by (rule that)
next
  case True
  then obtain m where m: "mb = Some m" "cm_inter_coded m" by auto
  let ?mv = "if cm_flipped m \<noteq> sc_flipped s then mv_neg (cm_base_mv m) else cm_base_mv m"
  obtain t where t: "add_mv score ?mv s = Some t" "scorer_ok (w + unat score) (Suc n) t"
    "sc_splitmv_score t = sc_splitmv_score s"
    using add_mv_ok [OF ok w n] by metis
  have "unat (sc_splitmv_score t + score) = unat (sc_splitmv_score s) + unat score"
    using t(3) ok w by (simp add: scorer_ok_def unat_add_small)
  then have "scorer_ok (w + unat score) (Suc n) (t\<lparr>sc_splitmv_score := sc_splitmv_score t + score\<rparr>)"
    using t(2) ok by (simp add: scorer_ok_def)
  then show ?thesis
    using that m t(1,2) by (cases "cm_split m") (simp_all add: add_mb_def)
qed

text \<open>What \<open>calculate\<close> keeps: four scores, each at most the total weight, and four vectors.\<close>

definition scores_ok :: "nat \<Rightarrow> scorer \<Rightarrow> bool" where
  "scores_ok w s \<longleftrightarrow> length (sc_scores s) = 4 \<and> length (sc_mvs s) = 4 \<and>
     (\<forall>x\<in>set (sc_scores s). unat x \<le> w) \<and> unat (sc_splitmv_score s) \<le> w"

lemma scorer_ok_scores: "scorer_ok w n s \<Longrightarrow> scores_ok w s"
  unfolding scorer_ok_def scores_ok_def
  using nth_le_sum_list [of _ "sc_scores s"] by (auto simp: in_set_conv_nth) (metis le_trans)

lemma list_of_4: "length xs = 4 \<Longrightarrow> \<exists>a b c d. xs = [a, b, c, d]"
  by (auto simp: length_Suc_conv numeral_eq_Suc)

lemma calculate_ok:
  assumes "scorer_ok w n s" and "n \<le> 3" and "w < 256"
  obtains t where "calculate s = Some t" and "scores_ok w t"
proof -
  obtain a b c d where sc: "sc_scores s = [a, b, c, d]"
    using assms(1) list_of_4 [of "sc_scores s"] by (auto simp: scorer_ok_def)
  obtain p q r t where mv: "sc_mvs s = [p, q, r, t]"
    using assms(1) list_of_4 [of "sc_mvs s"] by (auto simp: scorer_ok_def)
  have sum: "unat a + unat b + unat c + unat d \<le> w" "unat (sc_splitmv_score s) \<le> w" "sc_index s < 4"
    using assms(1,2) sc by (simp_all add: scorer_ok_def)
  then have bd: "unat (b + d) = unat b + unat d"
    using assms(3) by (intro unat_add_small) simp
  let ?j = "if d \<noteq> 0 \<and> sc_mvs s ! sc_index s = q then s\<lparr>sc_scores := [a, b + d, c, d]\<rparr> else s"
  have u: "join_last s = Some ?j" "sc_mvs ?j = [p, q, r, t]" "scores_ok w ?j"
    using sum sc mv bd by (simp_all add: join_last_def add_score_def scores_ok_def)
  obtain e f g h where sc': "sc_scores ?j = [e, f, g, h]"
    using u(3) list_of_4 [of "sc_scores ?j"] by (auto simp: scores_ok_def)
  obtain v where v: "order_best ?j = Some v" "scores_ok w v"
    using u sc' by (auto simp: order_best_def scores_ok_def at_def)
  let ?x = "if sc_scores v ! 1 \<ge> sc_scores v ! 0 then v\<lparr>sc_mvs := (sc_mvs v)[0 := sc_mvs v ! 1]\<rparr> else v"
  have "promote_best v = Some ?x" "scores_ok w ?x"
    using v(2) by (simp_all add: promote_best_def set_mv_def scores_ok_def)
  then show ?thesis
    using that u v by (simp add: calculate_def)
qed

lemma census_ok: "\<exists>s. motion_vector_census flipped a l al = Some s \<and> scores_ok 5 s"
proof -
  have "scorer_ok 0 0 (scorer_init flipped)"
    by (simp add: scorer_init_def scorer_ok_def)
  then obtain s1 where s1: "add_mb 2 a (scorer_init flipped) = Some s1" "scorer_ok (0 + unat (2 :: u8)) (Suc 0) s1"
    by (rule add_mb_ok [where score = 2 and mb = a]) simp_all
  obtain s2 where s2: "add_mb 2 l s1 = Some s2" "scorer_ok (0 + unat (2 :: u8) + unat (2 :: u8)) (Suc (Suc 0)) s2"
    by (rule add_mb_ok [OF s1(2), where score = 2 and mb = l]) simp_all
  obtain s3 where s3: "add_mb 1 al s2 = Some s3"
    "scorer_ok (0 + unat (2 :: u8) + unat (2 :: u8) + unat (1 :: u8)) (Suc (Suc (Suc 0))) s3"
    by (rule add_mb_ok [OF s2(2), where score = 1 and mb = al]) simp_all
  have five: "0 + unat (2 :: u8) + unat (2 :: u8) + unat (1 :: u8) = 5"
    by simp
  obtain s where "calculate s3 = Some s" "scores_ok 5 s"
    by (rule calculate_ok [OF s3(2) [unfolded five]]) simp_all
  then show ?thesis
    using s1(1) s2(1) s3(1) by (simp add: motion_vector_census_def)
qed

lemma mv_counts_shape: "length mv_counts_to_probs = 6" "row \<in> set mv_counts_to_probs \<Longrightarrow> length row = 4"
  by (auto simp: mv_counts_to_probs_def)

lemma mv_ref_probs_ok:
  assumes "length counts = 4" and "\<forall>c\<in>set counts. unat c \<le> 5"
  shows "\<exists>probs. mv_ref_probs counts = Some probs \<and> length probs = 4"
proof -
  have "\<exists>p. mv_ref_prob counts i = Some p" if "i < 4" for i
  proof -
    have "counts ! i \<in> set counts" using assms(1) that by simp
    then have c: "unat (counts ! i) < 6" using assms(2) by fastforce
    then have "length (mv_counts_to_probs ! unat (counts ! i)) = 4"
      by (intro mv_counts_shape(2) nth_mem) (simp add: mv_counts_shape(1))
    then show ?thesis
      using assms(1) that c by (simp add: mv_ref_prob_def mv_counts_shape(1))
  qed
  from this [of 0] this [of 1] this [of 2] this [of 3] show ?thesis
    by (auto simp: mv_ref_probs_def)
qed

lemma census_contexts:
  assumes "scores_ok 5 s"
  shows "\<exists>counts. mode_contexts s = Some counts \<and> length counts = 4 \<and> (\<forall>c\<in>set counts. unat c \<le> 5)"
proof -
  obtain a b c d where "sc_scores s = [a, b, c, d]"
    using assms list_of_4 [of "sc_scores s"] by (auto simp: scores_ok_def)
  then show ?thesis
    using assms by (simp add: scores_ok_def mode_contexts_def)
qed


section \<open>Clamping\<close>

lemma sint_smin: "sint (smin a b) = min (sint a) (sint b)"
  by (simp add: smin_def word_sless_alt min_def)

lemma sint_smax: "sint (smax a b) = max (sint a) (sint b)"
  by (simp add: smax_def word_sless_alt max_def)

lemma sint_u32_of_int: "- 2147483648 \<le> y \<Longrightarrow> y < 2147483648 \<Longrightarrow> sint (word_of_int y :: u32) = y"
  by (subst sint_sbintrunc') (intro signed_take_bit_int_eq_self; simp)

text \<open>For the frame sizes of the format, at most 1024 macroblocks in a dimension, the bounds are
  the distances to the edges in quarter pixels times two, plus one macroblock, cut to 16 bits.\<close>

lemma unat_times_128:
  assumes "unat (n :: u32) < 2 ^ 20"
  shows "unat (push_bit 3 (n * 16)) = 128 * unat n"
proof -
  have "unat (n * 16) = unat n * 16"
    using assms by (simp add: unat_word_ariths)
  then show ?thesis
    using assms by (subst unat_push_bit) simp_all
qed

lemma high_bound_value:
  assumes "unat n < 2 ^ 20"
  shows "sint (high_bound n) = min (128 * int (unat n) + 128) 32767"
proof -
  let ?m = "min (push_bit 3 (n * 16) + 128) 32767 :: u32"
  have "unat (push_bit 3 (n * 16) + 128) = 128 * unat n + 128"
    using assms by (subst unat_add_lem [THEN iffD1]) (simp_all add: unat_times_128)
  then have m: "unat ?m = min (128 * unat n + 128) 32767"
    by (simp add: min_def word_le_nat_alt)
  have "high_bound n = word_of_int (int (unat ?m))"
    by (simp add: high_bound_def)
  then have "sint (high_bound n) = int (unat ?m)"
    unfolding m by (simp only:) (intro sint_i16_of_int; simp)
  then show ?thesis
    unfolding m by (simp only: of_nat_min of_nat_add of_nat_mult of_nat_numeral)
qed

lemma low_bound_value:
  assumes "unat n < 2 ^ 20"
  shows "sint (low_bound n) = max (- 128 * int (unat n) - 128) (- 32768)"
proof -
  have "- push_bit 3 (n * 16) - 128 = (word_of_int (- 128 * int (unat n) - 128) :: u32)"
    by (simp add: push_bit_eq_mult)
  moreover have "sint (word_of_int (- 128 * int (unat n) - 128) :: u32) = - 128 * int (unat n) - 128"
  proof -
    have "unat n < 1048576" using assms by simp
    then show ?thesis by (intro sint_u32_of_int) linarith+
  qed
  ultimately have "low_bound n = word_of_int (max (- 128 * int (unat n) - 128) (- 32768))"
    by (simp add: low_bound_def)
  then show ?thesis
    by (simp only:) (intro sint_i16_of_int max.coboundedI2 max_less_iff_conj [THEN iffD2] conjI; linarith)
qed

lemma clamp_coordinate:
  "sint l \<le> sint h \<Longrightarrow> sint l \<le> sint (smin (smax v l) h) \<and> sint (smin (smax v l) h) \<le> sint h"
  "sint l \<le> sint v \<Longrightarrow> sint v \<le> sint h \<Longrightarrow> sint (smin (smax v l) h) = sint v"
  by (simp_all add: sint_smin sint_smax)

definition position_ok :: "mb_position \<Rightarrow> bool" where
  "position_ok c \<longleftrightarrow> mp_column c < mp_width c \<and> mp_row c < mp_height c \<and>
     unat (mp_width c) \<le> 1024 \<and> unat (mp_height c) \<le> 1024"

lemma distance_to_edge:
  assumes "(c :: u32) < w" and "unat w \<le> 1024"
  shows "unat (w - 1 - c) = unat w - 1 - unat c" and "unat c < 2 ^ 20" and "unat (w - 1 - c) < 2 ^ 20"
proof -
  have c: "unat c < unat w" using assms(1) by (simp add: word_less_nat_alt)
  then have "unat (w - 1) = unat w - 1"
    by (subst unat_sub) (simp_all add: word_le_nat_alt)
  then show u: "unat (w - 1 - c) = unat w - 1 - unat c"
    using c by (subst unat_sub) (simp_all add: word_le_nat_alt)
  show "unat c < 2 ^ 20" "unat (w - 1 - c) < 2 ^ 20"
    unfolding u using c assms(2) by simp_all
qed

lemma clamp_axis:
  assumes "(c :: u32) < w" and "unat w \<le> 1024"
  defines "l \<equiv> low_bound c" and "h \<equiv> high_bound (w - 1 - c)"
  shows "- 128 \<le> 128 * int (unat c) + sint (smin (smax x l) h)"
    and "128 * int (unat c) + sint (smin (smax x l) h) \<le> 128 * int (unat w)"
    and "smin (smax (smin (smax x l) h) l) h = smin (smax x l) h"
proof -
  note d = distance_to_edge [OF assms(1,2)]
  have lt: "unat c < unat w" using assms(1) by (simp add: word_less_nat_alt)
  have l: "sint l = max (- 128 * int (unat c) - 128) (- 32768)"
    unfolding l_def by (rule low_bound_value [OF d(2)])
  have h: "sint h = min (128 * int (unat w - 1 - unat c) + 128) 32767"
    unfolding h_def using high_bound_value [OF d(3)] unfolding d(1) .
  have lh: "sint l \<le> 0" "0 \<le> sint h"
    unfolding l h by (intro max.boundedI min.boundedI; linarith)+
  note y = clamp_coordinate(1) [of l h x]
  show "- 128 \<le> 128 * int (unat c) + sint (smin (smax x l) h)"
    using y lh l by simp
  show "128 * int (unat c) + sint (smin (smax x l) h) \<le> 128 * int (unat w)"
    using y lh h lt by (simp add: of_nat_diff)
  have "sint (smin (smax (smin (smax x l) h) l) h) = sint (smin (smax x l) h)"
    using y lh by (intro clamp_coordinate(2)) simp_all
  then show "smin (smax (smin (smax x l) h) l) h = smin (smax x l) h"
    by (rule word_eq_iff_signed [THEN iffD2])
qed


section \<open>Chroma vectors\<close>

lemma round_eighth_sint:
  "sint (round_eighth x) = (if 0 \<le> sint x then (sint x + 4) div 8 else - ((- sint x + 4) div 8))"
proof -
  have "- 32768 \<le> sint x" "sint x < 32768"
    using sint_greater_eq [of x] sint_less [of x] by simp_all
  then show ?thesis
    unfolding round_eighth_def by (intro sint_i16_of_int) (auto simp: zdiv_int)
qed

text \<open>Rounding to the nearest eighth, halves away from zero.\<close>

lemma round_eighth_near: "\<bar>8 * sint (round_eighth x) - sint x\<bar> \<le> 4"
proof -
  have "\<bar>8 * ((y + 4) div 8) - y\<bar> \<le> 4" for y :: int
    by presburger
  note near = this [of "sint x"] this [of "- sint x"]
  show ?thesis
  proof (cases "0 \<le> sint x")
    case True
    then show ?thesis unfolding round_eighth_sint using near(1) by simp
  next
    case False
    then have "sint (round_eighth x) = - ((- sint x + 4) div 8)" unfolding round_eighth_sint by simp
    then show ?thesis using near(2) by linarith
  qed
qed

lemma sint_sum_small:
  assumes "\<bar>sint (a :: i16)\<bar> < 8192" "\<bar>sint b\<bar> < 8192" "\<bar>sint c\<bar> < 8192" "\<bar>sint d\<bar> < 8192"
  shows "sint (a + b + c + d) = sint a + sint b + sint c + sint d"
proof -
  have "a + b + c + d = word_of_int (sint a + sint b + sint c + sint d)"
    by simp
  then show ?thesis
    by (simp only:) (intro sint_i16_of_int; use assms in linarith)
qed


section \<open>Properties\<close>

text \<open>C25: Motion vectors survive the coder.  A vector whose components are even and less than 2048
  in magnitude is read back as it was written, for every probability table of the right shape;
  and whatever bits a decoder holds, reading a vector returns one that can be written.\<close>

theorem motion_vector_roundtrip:
  assumes "mv_shape probs" and "mv_ok v" and "bd_ok d"
  shows "(\<exists>e out d'. write_mv probs v bool_encoder_init = Some e \<and>
      be_finish e = Some (out, bool_encoder_init) \<and>
      read_mv probs (bool_decoder_init out complete) = Some (v, d')) \<and>
    (\<exists>w d'. read_mv probs d = Some (w, d') \<and> mv_ok w)"
proof
  show "\<exists>e out d'. write_mv probs v bool_encoder_init = Some e \<and>
      be_finish e = Some (out, bool_encoder_init) \<and>
      read_mv probs (bool_decoder_init out complete) = Some (v, d')"
    using bit_codec.whole [OF mv_codec [OF assms(1)] assms(2)] by metis
  show "\<exists>w d'. read_mv probs d = Some (w, d') \<and> mv_ok w"
    using bit_codec.total [OF mv_codec [OF assms(1)]] assms(3) unfolding returns_def by blast
qed

theorem motion_vector_roundtrip_witness:
  "\<exists>e out d'. write_mv k_default_mv_probs (mv_make (- 2046) 18) bool_encoder_init = Some e \<and>
      be_finish e = Some (out, bool_encoder_init) \<and>
      read_mv k_default_mv_probs (bool_decoder_init out True) = Some (mv_make (- 2046) 18, d')"
proof -
  have "mv_ok (mv_make (- 2046) 18)"
    by (simp add: mv_ok_def mv_component_ok_def mv_make_def)
  moreover have "mv_shape k_default_mv_probs" "bd_ok (bool_decoder_init [] True)"
    by simp_all
  ultimately show ?thesis
    by (intro motion_vector_roundtrip [THEN conjunct1])
qed

text \<open>The census of the neighbouring vectors never leaves its arrays.  Whatever the three
  neighbours are, the counts it arrives at are at most 5, so that the lookup of the mode
  probabilities, whose table has six rows, and the reads of the best, nearest and near vectors
  are all within bounds.\<close>

theorem census_in_bounds:
  "\<exists>s counts probs. motion_vector_census flipped mb_above mb_left mb_above_left = Some s \<and>
     mode_contexts s = Some counts \<and> list_all (\<lambda>c. c \<le> 5) counts \<and>
     mv_ref_probs counts = Some probs \<and> length probs = 4 \<and>
     best s \<noteq> None \<and> nearest s \<noteq> None \<and> near s \<noteq> None"
proof -
  obtain s where s: "motion_vector_census flipped mb_above mb_left mb_above_left = Some s" "scores_ok 5 s"
    using census_ok by blast
  obtain counts where counts: "mode_contexts s = Some counts" "length counts = 4" "\<forall>c\<in>set counts. unat c \<le> 5"
    using census_contexts [OF s(2)] by blast
  obtain probs where "mv_ref_probs counts = Some probs" "length probs = 4"
    using mv_ref_probs_ok [OF counts(2,3)] by blast
  moreover have "length (sc_mvs s) = 4"
    using s(2) by (simp add: scores_ok_def)
  ultimately show ?thesis
    using s(1) counts by (auto simp: list_all_iff word_le_nat_alt best_def nearest_def near_def)
qed

text \<open>Clamped vectors stay near the frame.  For a macroblock inside a frame of at most 1024
  macroblocks in each direction, the clamped vector moves it by at most one macroblock beyond
  each edge of the frame, and clamping again changes nothing.\<close>

theorem clamped_vector_near_frame:
  assumes "position_ok c" and "w = scorer_clamp v c"
  shows "- 128 \<le> 128 * int (unat (mp_column c)) + sint (mv_x w) \<and>
    128 * int (unat (mp_column c)) + sint (mv_x w) \<le> 128 * int (unat (mp_width c)) \<and>
    - 128 \<le> 128 * int (unat (mp_row c)) + sint (mv_y w) \<and>
    128 * int (unat (mp_row c)) + sint (mv_y w) \<le> 128 * int (unat (mp_height c)) \<and>
    scorer_clamp w c = w"
proof -
  note x = clamp_axis [of "mp_column c" "mp_width c" "mv_x v"] and y = clamp_axis [of "mp_row c" "mp_height c" "mv_y v"]
  have ok: "mp_column c < mp_width c" "unat (mp_width c) \<le> 1024" "mp_row c < mp_height c" "unat (mp_height c) \<le> 1024"
    using assms(1) by (simp_all add: position_ok_def)
  show ?thesis
    using x(1,2) [OF ok(1,2)] y(1,2) [OF ok(3,4)] x(3) [OF ok(1,2)] y(3) [OF ok(3,4)]
    by (simp_all add: assms(2) scorer_clamp_def mv_clamp_def)
qed

definition example_position :: mb_position where
  "example_position = \<lparr>mp_column = 2, mp_row = 0, mp_width = 20, mp_height = 15\<rparr>"

theorem clamped_vector_near_frame_witness:
  "scorer_clamp (mv_make (- 2000) 3) example_position = mv_make (- 384) 3 \<and>
   - 128 \<le> 128 * int (unat (mp_column example_position)) + sint (mv_x (mv_make (- 384) 3))"
proof -
  have "position_ok example_position"
    by (simp add: position_ok_def example_position_def)
  moreover have w: "scorer_clamp (mv_make (- 2000) 3) example_position = mv_make (- 384) 3"
    by code_simp
  ultimately show ?thesis
    using clamped_vector_near_frame by metis
qed

end
