(* ===== verification/Inter_Prediction.thy ===== *)
theory Inter_Prediction
  imports Intra_Prediction Motion_Vectors
begin

text \<open>
  Inter prediction of a square block (src/src/decoder/prediction.cc): the six-tap interpolation filters,
  the prediction through an accessor of the reference that extends it beyond its edges, and the
  portable fast path that walks the reference by pointers when the block and the reach of the filters
  lie inside it.  Motion vectors count eighths of a pixel of the plane they are applied to.
\<close>

section \<open>The code\<close>

definition sixtap_filters :: "int list list" where
  "sixtap_filters =
     [[0, 0, 128, 0, 0, 0],
      [0, -6, 123, 12, -1, 0],
      [2, -11, 108, 36, -8, 1],
      [0, -9, 93, 50, -6, 0],
      [3, -16, 77, 77, -16, 3],
      [0, -6, 50, 93, -9, 0],
      [1, -8, 36, 108, -11, 2],
      [0, -1, 12, 123, -6, 0]]"

definition apply_filter :: "int list \<Rightarrow> u8 list \<Rightarrow> u8" where
  "apply_filter f vs = clamp255 (drop_bit 7 (sum_list (map2 (\<lambda>v c. uint v * c) vs f) + 64))"

definition filter_down :: "nat \<Rightarrow> int list \<Rightarrow> u8 list list \<Rightarrow> u8 list list" where
  "filter_down sz f intermediate =
     map (\<lambda>row. map (\<lambda>column. apply_filter f (map (\<lambda>k. intermediate ! (row + k) ! column) [0..<6])) [0..<sz]) [0..<sz]"

definition fraction :: "i16 \<Rightarrow> nat" where
  "fraction d = nat (sint d mod 8)"

text \<open>\<open>safe_inter_predict\<close>, a template over the accessor of the reference.\<close>

definition safe_inter_predict ::
  "nat \<Rightarrow> motion_vector \<Rightarrow> (int \<Rightarrow> int \<Rightarrow> u8 option) \<Rightarrow> int \<Rightarrow> int \<Rightarrow> u8 list list option" where
  "safe_inter_predict sz mv ref source_column source_row =
     (let mx = fraction (mv_x mv); my = fraction (mv_y mv) in
      if mx = 0 \<and> my = 0 then
        collect (\<lambda>row. collect (\<lambda>column. ref (source_column + int column) (source_row + int row)) [0..<sz]) [0..<sz]
      else do {
        intermediate \<leftarrow>
          collect (\<lambda>row. collect (\<lambda>column.
            map_option (apply_filter (sixtap_filters ! mx))
              (collect (\<lambda>k. ref (source_column + int column + (int k - 2)) (source_row + int row - 2)) [0..<6]))
            [0..<sz]) [0..<sz + 5];
        Some (filter_down sz (sixtap_filters ! my) intermediate) })"

text \<open>\<open>unsafe_inter_predict\<close>: \<open>start\<close> is the address of the first pixel read, rows are a stride apart.\<close>

definition address :: "plane \<Rightarrow> int \<Rightarrow> int \<Rightarrow> nat option" where
  "address p column row =
     (if 0 \<le> column \<and> column < int (pl_width p) \<and> 0 \<le> row \<and> row < int (pl_height p)
      then Some (pixel_index p (nat column) (nat row)) else None)"

definition unsafe_inter_predict ::
  "nat \<Rightarrow> motion_vector \<Rightarrow> plane \<Rightarrow> nat \<Rightarrow> int \<Rightarrow> int \<Rightarrow> u8 list list option" where
  "unsafe_inter_predict sz mv ref stride source_column source_row =
     (let mx = fraction (mv_x mv); my = fraction (mv_y mv) in
      if stride \<noteq> pl_width ref then None
      else if mx = 0 \<and> my = 0 then do {
        start \<leftarrow> address ref source_column source_row;
        collect (\<lambda>row. collect (\<lambda>column. at (pl_data ref) (start + row * stride + column)) [0..<sz]) [0..<sz] }
      else do {
        start \<leftarrow> address ref (source_column - 2) (source_row - 2);
        intermediate \<leftarrow>
          collect (\<lambda>row. collect (\<lambda>column.
            map_option (apply_filter (sixtap_filters ! mx))
              (collect (\<lambda>k. at (pl_data ref) (start + row * stride + column + k)) [0..<6]))
            [0..<sz]) [0..<sz + 5];
        Some (filter_down sz (sixtap_filters ! my) intermediate) })"

definition source_of :: "nat \<Rightarrow> nat \<Rightarrow> i16 \<Rightarrow> int" where
  "source_of sz position d = int (position * sz) + drop_bit 3 (sint d)"

definition near_edge :: "nat \<Rightarrow> plane \<Rightarrow> int \<Rightarrow> int \<Rightarrow> bool" where
  "near_edge sz ref source_column source_row \<longleftrightarrow>
     source_column - 2 < 0 \<or> source_column + int sz + 3 > int (pl_width ref) \<or>
     source_row - 2 < 0 \<or> source_row + int sz + 3 > int (pl_height ref)"

definition inter_predict_rows :: "nat \<Rightarrow> motion_vector \<Rightarrow> plane \<Rightarrow> nat \<Rightarrow> nat \<Rightarrow> nat \<Rightarrow> u8 list list option" where
  "inter_predict_rows sz mv ref stride column row =
     (let source_column = source_of sz column (mv_x mv); source_row = source_of sz row (mv_y mv) in
      if near_edge sz ref source_column source_row
      then safe_inter_predict sz mv (edge_at ref) source_column source_row
      else unsafe_inter_predict sz mv ref stride source_column source_row)"

definition inter_predict :: "nat \<Rightarrow> motion_vector \<Rightarrow> plane \<Rightarrow> nat \<Rightarrow> nat \<Rightarrow> plane \<Rightarrow> plane result" where
  "inter_predict sz mv ref column row p =
     bind_result (of_assert (inter_predict_rows sz mv ref (pl_width p) column row)) (\<lambda>block.
     of_assert (put_block (sz * column) (sz * row) block p))"


section \<open>References\<close>

text \<open>The contract of an accessor: it shows a plane, its edges extended, as far as it reaches.\<close>

locale reference_raster =
  fixes read :: "'r \<Rightarrow> int \<Rightarrow> int \<Rightarrow> u8 option"
    and represents :: "'r \<Rightarrow> plane \<Rightarrow> bool"
    and reaches :: "plane \<Rightarrow> int \<Rightarrow> int \<Rightarrow> bool"
  assumes reads: "represents r p \<Longrightarrow> reaches p column row \<Longrightarrow> read r column row = edge_at p column row"
    and represented: "represents r p \<Longrightarrow> plane_valid p"
begin

lemma window:
  assumes "represents r p"
    and "\<And>i j. - 2 \<le> i \<Longrightarrow> i < int sz + 3 \<Longrightarrow> - 2 \<le> j \<Longrightarrow> j < int sz + 3 \<Longrightarrow> reaches p (column + i) (row + j)"
  shows "safe_inter_predict sz mv (read r) column row = safe_inter_predict sz mv (edge_at p) column row"
proof -
  have whole: "read r (column + int x) (row + int y) = edge_at p (column + int x) (row + int y)" if "x < sz" "y < sz" for x y
    using that by (intro reads [OF assms(1)] assms(2)) simp_all
  have taps: "read r (column + int x + (int k - 2)) (row + int y - 2) = edge_at p (column + int x + (int k - 2)) (row + int y - 2)"
    if "x < sz" "y < sz + 5" "k < 6" for x y k
    using reads [OF assms(1) assms(2), of "int x + (int k - 2)" "int y - 2"] that by (simp add: add.assoc add_diff_eq)
  show ?thesis
    unfolding safe_inter_predict_def Let_def
    by (intro if_cong refl arg_cong2 [where f = Option.bind] collect_cong arg_cong [where f = "map_option _"])
       (simp_all add: whole taps)
qed

end

text \<open>The three ways of reading a reference: clamped coordinates, the copy with margins, and pixels of
  the plane itself.\<close>

definition within_margin :: "plane \<Rightarrow> int \<Rightarrow> int \<Rightarrow> bool" where
  "within_margin p column row \<longleftrightarrow>
     - int MARGIN_WIDTH \<le> column \<and> column < int (pl_width p + MARGIN_WIDTH) \<and>
     - int MARGIN_WIDTH \<le> row \<and> row < int (pl_height p + MARGIN_WIDTH)"

definition within_plane :: "plane \<Rightarrow> int \<Rightarrow> int \<Rightarrow> bool" where
  "within_plane p column row \<longleftrightarrow> 0 \<le> column \<and> column < int (pl_width p) \<and> 0 \<le> row \<and> row < int (pl_height p)"

interpretation edge_raster: reference_raster edge_at "\<lambda>r p. r = p \<and> plane_valid p" "\<lambda>p column row. True"
  by unfold_locales auto

interpretation safe_raster: reference_raster safe_at "\<lambda>q p. plane_valid p \<and> copy_raster p = Some q" within_margin
proof
  fix q p column row
  assume "plane_valid p \<and> copy_raster p = Some q" and "within_margin p column row"
  then show "safe_at q column row = edge_at p column row"
    using safe_raster_spec [of p] by (auto simp: within_margin_def)
qed simp

interpretation direct: reference_raster "\<lambda>p column row. bind (address p column row) (at (pl_data p))"
  "\<lambda>r p. r = p \<and> plane_valid p" within_plane
  by unfold_locales (auto simp: within_plane_def address_def edge_at_inside plane_at_def)


section \<open>The fast path\<close>

lemma address_offset:
  assumes "0 \<le> column" and "0 \<le> row" and "column + int x < int (pl_width p)" and "row + int y < int (pl_height p)"
  shows "address p (column + int x) (row + int y) = Some (pixel_index p (nat column) (nat row) + y * pl_width p + x)"
  using assms by (simp add: address_def pixel_index_def nat_add_distrib algebra_simps)

lemma unsafe_is_direct:
  assumes "\<not> near_edge sz p column row"
  shows "unsafe_inter_predict sz mv p (pl_width p) column row =
    safe_inter_predict sz mv (\<lambda>x y. bind (address p x y) (at (pl_data p))) column row"
proof -
  have far: "2 \<le> column" "column + int sz + 3 \<le> int (pl_width p)" "2 \<le> row" "row + int sz + 3 \<le> int (pl_height p)"
    using assms by (simp_all add: near_edge_def)
  have start: "address p column row = Some (pixel_index p (nat column) (nat row))"
    "address p (column - 2) (row - 2) = Some (pixel_index p (nat (column - 2)) (nat (row - 2)))"
    using far by (simp_all add: address_def)
  have whole: "address p (column + int x) (row + int y) = Some (pixel_index p (nat column) (nat row) + y * pl_width p + x)"
    if "x < sz" "y < sz" for x y
    using far that by (intro address_offset) linarith+
  have taps: "address p (column + int x + (int k - 2)) (row + int y - 2) =
      Some (pixel_index p (nat (column - 2)) (nat (row - 2)) + y * pl_width p + x + k)"
    if "x < sz" "y < sz + 5" "k < 6" for x y k
    using address_offset [of "column - 2" "row - 2" "x + k" p y] far that by (simp add: algebra_simps)
  have rows: "collect (\<lambda>row'. collect (\<lambda>x. at (pl_data p) (pixel_index p (nat column) (nat row) + row' * pl_width p + x)) [0..<sz]) [0..<sz] =
      collect (\<lambda>y. collect (\<lambda>x. bind (address p (column + int x) (row + int y)) (at (pl_data p))) [0..<sz]) [0..<sz]"
    by (intro collect_cong) (simp add: whole)
  have columns: "collect (\<lambda>y. collect (\<lambda>x. map_option f
        (collect (\<lambda>k. at (pl_data p) (pixel_index p (nat (column - 2)) (nat (row - 2)) + y * pl_width p + x + k)) [0..<6]))
        [0..<sz]) [0..<sz + 5] =
      collect (\<lambda>y. collect (\<lambda>x. map_option f
        (collect (\<lambda>k. bind (address p (column + int x + (int k - 2)) (row + int y - 2)) (at (pl_data p))) [0..<6]))
        [0..<sz]) [0..<sz + 5]" for f
    by (intro collect_cong arg_cong [where f = "map_option f"]) (simp add: taps)
  show ?thesis
    unfolding unsafe_inter_predict_def safe_inter_predict_def Let_def start bind.bind_lunit rows columns by simp
qed

lemma inter_predict_rows_edge:
  assumes "plane_valid ref"
  shows "inter_predict_rows sz mv ref (pl_width ref) column row =
    safe_inter_predict sz mv (edge_at ref) (source_of sz column (mv_x mv)) (source_of sz row (mv_y mv))"
proof (cases "near_edge sz ref (source_of sz column (mv_x mv)) (source_of sz row (mv_y mv))")
  case True
  then show ?thesis by (simp add: inter_predict_rows_def)
next
  case False
  let ?c = "source_of sz column (mv_x mv)" and ?r = "source_of sz row (mv_y mv)"
  have "safe_inter_predict sz mv (\<lambda>x y. bind (address ref x y) (at (pl_data ref))) ?c ?r =
      safe_inter_predict sz mv (edge_at ref) ?c ?r"
    using False assms by (intro direct.window) (auto simp: near_edge_def within_plane_def)
  then show ?thesis using False unsafe_is_direct [OF False, of mv] by (simp add: inter_predict_rows_def)
qed

text \<open>C8: Predicting from a reference of the same width, the fast path that walks the reference by
  pointers gives the block that the filters give on the reference with its edges extended, whatever
  the motion vector.\<close>

theorem inter_prediction_paths_agree:
  assumes "plane_valid ref" and "pl_width p = pl_width ref"
  shows "inter_predict sz mv ref column row p =
    bind_result (of_assert (safe_inter_predict sz mv (edge_at ref) (source_of sz column (mv_x mv)) (source_of sz row (mv_y mv))))
      (\<lambda>block. of_assert (put_block (sz * column) (sz * row) block p))"
  using inter_predict_rows_edge [OF assms(1), of sz mv column row] by (simp add: inter_predict_def assms(2))

lemma inter_prediction_paths_agree_witness:
  "let ref = new_plane 32 32 7; p = new_plane 32 32 0; mv = \<lparr>mv_y = 3, mv_x = - 9\<rparr> in
   inter_predict 8 mv ref 1 1 p =
     bind_result (of_assert (safe_inter_predict 8 mv (edge_at ref) (source_of 8 1 (mv_x mv)) (source_of 8 1 (mv_y mv))))
       (\<lambda>block. of_assert (put_block (8 * 1) (8 * 1) block p))"
  unfolding Let_def by (rule inter_prediction_paths_agree) (simp_all add: plane_valid_def new_plane_def)


section \<open>What is predicted\<close>

lemma safe_inter_predict_total:
  assumes "\<And>x y. \<exists>v. ref x y = Some v"
  shows "\<exists>block. safe_inter_predict sz mv ref column row = Some block \<and> square sz block"
proof -
  obtain g where g: "\<And>x y. ref x y = Some (g x y)" using assms by metis
  show ?thesis
    by (auto simp: safe_inter_predict_def Let_def collect_total [where g = "\<lambda>y. _ y"] g collect_total square_def filter_down_def)
qed

lemma inter_predict_spec:
  assumes "plane_valid ref" and "pl_width p = pl_width ref" and "block_in sz p column row"
  shows "\<exists>q. inter_predict sz mv ref column row p = Inr q \<and> only_block sz column row p q"
proof -
  obtain block where block: "inter_predict_rows sz mv ref (pl_width ref) column row = Some block" "square sz block"
    unfolding inter_predict_rows_edge [OF assms(1)]
    using edge_at_total [OF assms(1)] safe_inter_predict_total [where ref = "edge_at ref" and sz = sz and mv = mv and column = "source_of sz column (mv_x mv)" and row = "source_of sz row (mv_y mv)"]
    by blast
  then obtain q where q: "put_block (sz * column) (sz * row) block p = Some q" "written (sz * column) (sz * row) block p q"
    using put_square [OF assms(3), of block] by (auto simp: square_def)
  have "0 < sz" using assms(3) by (auto simp: block_in_def)
  with written_only_block [OF q(2) block(2)] show ?thesis
    by (simp add: inter_predict_def of_assert_def assms(2) block(1) q(1))
qed

lemma fraction_less: "fraction d < 8"
  by (simp add: fraction_def nat_less_iff)

lemma filter_gain: "i < 8 \<Longrightarrow> length (sixtap_filters ! i) = 6 \<and> sum_list (sixtap_filters ! i) = 128"
proof -
  assume "i < 8"
  moreover have "length sixtap_filters = 8" by (simp add: sixtap_filters_def)
  moreover have "list_all (\<lambda>f. length f = 6 \<and> sum_list f = 128) sixtap_filters" by (simp add: sixtap_filters_def)
  ultimately show ?thesis by (simp add: list_all_length)
qed

lemma map2_replicate: "length xs = n \<Longrightarrow> map2 f (replicate n v) xs = map (f v) xs"
  by (induction xs arbitrary: n) auto

lemma apply_filter_const:
  assumes "i < 8"
  shows "apply_filter (sixtap_filters ! i) (replicate 6 v) = v"
proof -
  have "(\<Sum>c\<leftarrow>sixtap_filters ! i. uint v * c) = uint v * 128"
    using filter_gain [OF assms] by (simp add: sum_list_const_mult)
  then have "apply_filter (sixtap_filters ! i) (replicate 6 v) = clamp255 ((uint v * 128 + 64) div 128)"
    using filter_gain [OF assms] by (simp add: apply_filter_def map2_replicate drop_bit_eq_div)
  moreover have "(uint v * 128 + 64) div 128 = uint v" by simp
  ultimately show ?thesis using uint_u8_bounds [of v] by (simp add: clamp255_def)
qed

lemma replicate_upt: "map (\<lambda>i. v) [0..<n] = replicate n v"
  by (simp add: map_replicate_const)

lemma flat_inter_prediction:
  assumes "\<And>i j. - 2 \<le> i \<Longrightarrow> i < int sz + 3 \<Longrightarrow> - 2 \<le> j \<Longrightarrow> j < int sz + 3 \<Longrightarrow> ref (column + i) (row + j) = Some v"
  shows "safe_inter_predict sz mv ref column row = Some (replicate sz (replicate sz v))"
proof -
  have "ref (column + int x) (row + int y) = Some v" if "x < sz" "y < sz" for x y
    using assms [of "int x" "int y"] that by simp
  then have "collect (\<lambda>x. ref (column + int x) (row + int y)) [0..<sz] = Some (replicate sz v)" if "y < sz" for y
    using collect_const [of "[0..<sz]" "\<lambda>x. ref (column + int x) (row + int y)" v] that by simp
  then have whole: "collect (\<lambda>y. collect (\<lambda>x. ref (column + int x) (row + int y)) [0..<sz]) [0..<sz] = Some (replicate sz (replicate sz v))"
    using collect_const [of "[0..<sz]" "\<lambda>y. collect (\<lambda>x. ref (column + int x) (row + int y)) [0..<sz]" "replicate sz v"] by simp
  have taps: "collect (\<lambda>k. ref (column + int x + (int k - 2)) (row + int y - 2)) [0..<6] = Some (replicate 6 v)"
    if "x < sz" "y < sz + 5" for x y
  proof -
    have "ref (column + int x + (int k - 2)) (row + int y - 2) = Some v" if "k < 6" for k
      using assms [of "int x + (int k - 2)" "int y - 2"] \<open>x < sz\<close> \<open>y < sz + 5\<close> that by (simp add: add.assoc add_diff_eq)
    then show ?thesis using collect_const [of "[0..<6]" "\<lambda>k. ref (column + int x + (int k - 2)) (row + int y - 2)" v] by simp
  qed
  have "collect (\<lambda>y. collect (\<lambda>x. map_option (apply_filter (sixtap_filters ! fraction (mv_x mv)))
      (collect (\<lambda>k. ref (column + int x + (int k - 2)) (row + int y - 2)) [0..<6])) [0..<sz]) [0..<sz + 5] =
      Some (replicate (sz + 5) (replicate sz v))"
  proof -
    have "collect (\<lambda>x. map_option (apply_filter (sixtap_filters ! fraction (mv_x mv)))
        (collect (\<lambda>k. ref (column + int x + (int k - 2)) (row + int y - 2)) [0..<6])) [0..<sz] = Some (replicate sz v)"
      if "y < sz + 5" for y
      by (rule collect_const [of "[0..<sz]", simplified length_upt diff_zero])
        (use that in \<open>simp add: taps apply_filter_const [OF fraction_less]\<close>)
    then show ?thesis by (intro collect_const [of "[0..<sz + 5]", simplified length_upt diff_zero]) simp
  qed
  moreover have "filter_down sz (sixtap_filters ! fraction (mv_y mv)) (replicate (sz + 5) (replicate sz v)) = replicate sz (replicate sz v)"
  proof -
    have "map (\<lambda>k. replicate (sz + 5) (replicate sz v) ! (y + k) ! x) [0..<6] = replicate 6 v" if "x < sz" "y < sz" for x y
      using that by (intro nth_equalityI) simp_all
    then show ?thesis
      by (auto simp: filter_down_def apply_filter_const [OF fraction_less] intro!: nth_equalityI)
  qed
  ultimately show ?thesis unfolding safe_inter_predict_def Let_def whole by simp
qed

text \<open>Interpolation keeps flat regions: where the reach of the filters shows one colour, every
  motion vector predicts that colour.\<close>

theorem flat_region_predicted:
  assumes "plane_valid ref"
    and "\<And>i j. - 2 \<le> i \<Longrightarrow> i < int sz + 3 \<Longrightarrow> - 2 \<le> j \<Longrightarrow> j < int sz + 3 \<Longrightarrow>
      edge_at ref (source_of sz column (mv_x mv) + i) (source_of sz row (mv_y mv) + j) = Some v"
  shows "inter_predict_rows sz mv ref (pl_width ref) column row = Some (replicate sz (replicate sz v))"
  unfolding inter_predict_rows_edge [OF assms(1)] by (rule flat_inter_prediction) (rule assms(2))

lemma new_plane_edge: "0 < w \<Longrightarrow> 0 < h \<Longrightarrow> edge_at (new_plane w h v) column row = Some v"
proof -
  assume "0 < w" "0 < h"
  then have "plane_valid (new_plane w h v)" by (simp add: plane_valid_def new_plane_def)
  from edge_at_total [OF this, of column row] show ?thesis
    by (auto simp: edge_at_def plane_at_def at_def new_plane_def split: if_splits)
qed

lemma flat_region_predicted_witness:
  "inter_predict_rows 4 \<lparr>mv_y = 5, mv_x = - 300\<rparr> (new_plane 48 32 9) 48 3 2 = Some (replicate 4 (replicate 4 9))"
  using flat_region_predicted [of "new_plane 48 32 9" 4 3 "\<lparr>mv_y = 5, mv_x = - 300\<rparr>" 2 9]
  by (simp add: new_plane_edge plane_valid_def) (simp add: new_plane_def)

end
