(* ===== verification/Frame_Chunk.thy ===== *)
theory Frame_Chunk
  imports Byte_Chunk
begin

unbundle bit_operations_syntax

text \<open>
  The uncompressed part of a VP8 frame.  \<open>UncompressedChunk\<close>
  (src/src/decoder/uncompressed_chunk.cc) splits the bytes of a frame into the first
  partition and the DCT partitions; \<open>make_frame\<close> (src/src/encoder/serializer.cc) lays them
  out.  The constructor catches its own \<open>out_of_range\<close> exceptions and then goes on with the
  members assigned so far, so the model of its \<open>try\<close> block carries the object along: a step
  that throws returns the exception and the object as it is at that moment.
\<close>

section \<open>The frame tag\<close>

datatype corruption_level = NO_CORRUPTION | CORRUPTED_RESIDUES | CORRUPTED_FIRST_PARTITION | CORRUPTED_FRAME

datatype reconstruction_filter_type = Bicubic | Bilinear | No_reconstruction_filter

datatype loop_filter_type = Normal | Simple | NoFilter

record uncompressed_chunk =
  uc_key_frame :: bool
  uc_reconstruction_filter :: reconstruction_filter_type
  uc_loop_filter :: loop_filter_type
  uc_show_frame :: bool
  uc_experimental :: bool
  uc_first_partition :: chunk
  uc_rest :: chunk
  uc_corruption_level :: corruption_level

definition uncompressed_init :: uncompressed_chunk where
  "uncompressed_init =
     \<lparr>uc_key_frame = False, uc_reconstruction_filter = Bicubic, uc_loop_filter = Normal,
      uc_show_frame = False, uc_experimental = False, uc_first_partition = chunk_of [],
      uc_rest = chunk_of [], uc_corruption_level = NO_CORRUPTION\<rparr>"

type_synonym attempt = "error option \<times> uncompressed_chunk"

definition try_bind :: "'a result \<Rightarrow> uncompressed_chunk \<Rightarrow> ('a \<Rightarrow> attempt) \<Rightarrow> attempt" where
  "try_bind r u k = (case r of Inl e \<Rightarrow> (Some e, u) | Inr x \<Rightarrow> k x)"

definition start_code :: bytes where
  "start_code = [0x9d, 0x01, 0x2a]"

definition set_version :: "u8 \<Rightarrow> uncompressed_chunk \<Rightarrow> uncompressed_chunk result" where
  "set_version version u =
     (if version = 0 then
        Inr (u\<lparr>uc_reconstruction_filter := Bicubic, uc_loop_filter := Normal, uc_experimental := False\<rparr>)
      else if version = 4 then
        Inr (u\<lparr>uc_reconstruction_filter := Bicubic, uc_loop_filter := Normal, uc_experimental := True\<rparr>)
      else if version = 6 then
        Inr (u\<lparr>uc_reconstruction_filter := Bicubic, uc_loop_filter := NoFilter, uc_experimental := True\<rparr>)
      else Inl Unsupported)"

text \<open>The rest of the \<open>try\<close> block: the partitions and, for a key frame, the start code and the
  dimensions.\<close>

definition first_partition_offset :: "uncompressed_chunk \<Rightarrow> u32" where
  "first_partition_offset u = (if uc_key_frame u then 10 else 3)"

definition split_partitions :: "chunk \<Rightarrow> bool \<Rightarrow> u32 \<Rightarrow> uncompressed_chunk \<Rightarrow> attempt" where
  "split_partitions frame accept_partial first_partition_length u =
     (let offset = first_partition_offset u in
      if ck_size frame \<le> ucast (offset + first_partition_length) then
        if accept_partial then
          (let u = u\<lparr>uc_corruption_level := CORRUPTED_FIRST_PARTITION\<rparr> in
           try_bind (chunk_sub frame (ucast offset) (ck_size frame - ucast offset)) u (\<lambda>part.
           (None, u\<lparr>uc_first_partition := part\<rparr>)))
        else (Some Invalid, u)
      else
        try_bind (chunk_sub frame (ucast offset) (ucast first_partition_length)) u (\<lambda>part.
        (let u = u\<lparr>uc_first_partition := part\<rparr> in
         try_bind (chunk_sub frame (ucast (offset + first_partition_length))
                     (ck_size frame - ucast offset - ucast first_partition_length)) u (\<lambda>rest.
         (None, u\<lparr>uc_rest := rest\<rparr>)))))"

definition check_key_frame :: "chunk \<Rightarrow> u16 \<Rightarrow> u16 \<Rightarrow> uncompressed_chunk \<Rightarrow> attempt" where
  "check_key_frame frame expected_width expected_height u =
     try_bind (bind_result (chunk_sub frame 3 3) chunk_to_string) u (\<lambda>code.
     if code \<noteq> start_code then (Some Invalid, u)
     else
       try_bind (chunk_sub frame 6 4) u (\<lambda>sizes.
       try_bind (chunk_bits sizes 14 2) u (\<lambda>horizontal_scale.
       try_bind (chunk_bits sizes 30 2) u (\<lambda>vertical_scale.
       try_bind (chunk_bits sizes 0 14) u (\<lambda>frame_width.
       try_bind (chunk_bits sizes 16 14) u (\<lambda>frame_height.
       if (ucast frame_width :: u16) \<noteq> expected_width \<or> (ucast frame_height :: u16) \<noteq> expected_height
          \<or> (ucast horizontal_scale :: u8) \<noteq> 0 \<or> (ucast vertical_scale :: u8) \<noteq> 0
       then (Some Unsupported, u) else (None, u)))))))"

definition try_frame :: "chunk \<Rightarrow> u16 \<Rightarrow> u16 \<Rightarrow> bool \<Rightarrow> attempt" where
  "try_frame frame expected_width expected_height accept_partial =
     (let u = uncompressed_init in
      try_bind (chunk_bits frame 0 1) u (\<lambda>inter_frame.
      let u = u\<lparr>uc_key_frame := (inter_frame = 0)\<rparr> in
      try_bind (chunk_bits frame 4 1) u (\<lambda>show.
      let u = u\<lparr>uc_show_frame := (show \<noteq> 0)\<rparr> in
      try_bind (chunk_bits frame 1 3) u (\<lambda>version.
      try_bind (set_version (ucast version) u) u (\<lambda>u.
      try_bind (chunk_bits frame 5 19) u (\<lambda>first_partition_length.
      case split_partitions frame accept_partial (ucast first_partition_length) u of
        (Some e, u) \<Rightarrow> (Some e, u)
      | (None, u) \<Rightarrow>
          if uc_key_frame u then check_key_frame frame expected_width expected_height u
          else (None, u)))))))"

definition parse_uncompressed :: "chunk \<Rightarrow> u16 \<Rightarrow> u16 \<Rightarrow> bool \<Rightarrow> uncompressed_chunk result" where
  "parse_uncompressed frame expected_width expected_height accept_partial =
     (case try_frame frame expected_width expected_height accept_partial of
        (None, u) \<Rightarrow> Inr u
      | (Some e, u) \<Rightarrow>
          if e = Out_of_range then
            if accept_partial then
              Inr (u\<lparr>uc_corruption_level := CORRUPTED_FRAME, uc_key_frame := False,
                     uc_reconstruction_filter := Bicubic, uc_loop_filter := Normal,
                     uc_experimental := False\<rparr>)
            else Inl Invalid
          else Inl e)"

text \<open>\<open>dct_partitions\<close>: the lengths of all partitions but the last, then the partitions.  Its
  loop compares a \<open>uint8_t\<close> with the \<open>int\<close> \<open>num - 1\<close>, so it reads no length for \<open>num = 0\<close>.\<close>

primrec read_lengths :: "nat \<Rightarrow> chunk \<Rightarrow> (u32 list \<times> chunk) result" where
  "read_lengths 0 rest = Inr ([], rest)"
| "read_lengths (Suc n) rest =
     bind_result (chunk_bits rest 0 24) (\<lambda>len.
     bind_result (chunk_from rest 3) (\<lambda>rest.
     bind_result (read_lengths n rest) (\<lambda>(lens, rest).
     Inr (ucast len # lens, rest))))"

primrec cut_partitions :: "u32 list \<Rightarrow> chunk \<Rightarrow> (chunk list \<times> chunk) result" where
  "cut_partitions [] rest = Inr ([], rest)"
| "cut_partitions (len # lens) rest =
     bind_result (chunk_sub rest 0 (ucast len)) (\<lambda>part.
     bind_result (chunk_from rest (ucast len)) (\<lambda>rest.
     bind_result (cut_partitions lens rest) (\<lambda>(parts, rest).
     Inr (part # parts, rest))))"

definition dct_partitions :: "uncompressed_chunk \<Rightarrow> u8 \<Rightarrow> chunk list result" where
  "dct_partitions u num =
     bind_result (read_lengths (unat num - 1) (uc_rest u)) (\<lambda>(lens, rest).
     bind_result (cut_partitions lens rest) (\<lambda>(parts, rest).
     Inr (parts @ [rest])))"


section \<open>Laying out a frame\<close>

definition tag_byte :: "bool \<Rightarrow> bool \<Rightarrow> bool \<Rightarrow> bool \<Rightarrow> u32 \<Rightarrow> u8" where
  "tag_byte key_frame show_frame experimental reference_update first_partition_length =
     ucast ((of_bool (\<not> key_frame) OR push_bit 2 (of_bool reference_update) OR
             push_bit 3 (of_bool experimental) OR push_bit 4 (of_bool show_frame) OR
             push_bit 5 (first_partition_length AND 0x7)) :: u32)"

definition frame_tag :: "bool \<Rightarrow> bool \<Rightarrow> bool \<Rightarrow> bool \<Rightarrow> u32 \<Rightarrow> bytes" where
  "frame_tag key_frame show_frame experimental reference_update first_partition_length =
     [tag_byte key_frame show_frame experimental reference_update first_partition_length,
      ucast (drop_bit 3 (first_partition_length AND 0x7f8)),
      ucast (drop_bit 11 (first_partition_length AND 0x7f800))]"

definition dimension_bytes :: "u16 \<Rightarrow> bytes" where
  "dimension_bytes n = [ucast (n AND 0xff), ucast (drop_bit 8 (n AND 0x3f00))]"

definition length_bytes :: "bytes \<Rightarrow> bytes" where
  "length_bytes part =
     (let len = (word_of_nat (length part) :: u32) in
      [ucast (len AND 0xff), ucast (drop_bit 8 (len AND 0xff00)), ucast (drop_bit 16 (len AND 0xff0000))])"

definition make_frame ::
  "bool \<Rightarrow> bool \<Rightarrow> bool \<Rightarrow> bool \<Rightarrow> u16 \<Rightarrow> u16 \<Rightarrow> bytes \<Rightarrow> bytes list \<Rightarrow> bytes result" where
  "make_frame key_frame show_frame experimental reference_update width height first_partition partitions =
     (if 16383 < width \<or> 16383 < height then Inl Invalid
      else if partitions = [] then Inl Invalid
      else
        Inr (frame_tag key_frame show_frame experimental reference_update (word_of_nat (length first_partition))
             @ (if key_frame then start_code @ dimension_bytes width @ dimension_bytes height else [])
             @ first_partition
             @ concat (map length_bytes (butlast partitions))
             @ concat partitions))"


section \<open>Reading bits of a chunk\<close>


lemma bit_unat_u8: "bit (unat (b :: u8)) j \<longleftrightarrow> bit b j"
  by (auto simp: bit_unsigned_iff dest: bit_imp_le_length)

lemma le_nat_or: "le_nat (b # bs) = unat b OR push_bit 8 (le_nat bs)"
proof -
  have "unat b AND push_bit 8 (le_nat bs) = 0"
    by (rule bit_eqI) (auto simp: bit_and_iff bit_push_bit_iff bit_unat_u8 dest: bit_imp_le_length)
  then show ?thesis
    by (simp add: disjunctive_add_eq_or [symmetric] push_bit_eq_mult mult.commute)
qed

lemma bit_le_nat: "bit (le_nat bs) j \<longleftrightarrow> j div 8 < length bs \<and> bit (bs ! (j div 8)) (j mod 8)"
proof (induction bs arbitrary: j)
  case (Cons b bs)
  show ?case
  proof (cases "j < 8")
    case True
    then show ?thesis
      by (simp add: le_nat_or bit_or_iff bit_push_bit_iff bit_unat_u8 del: le_nat.simps)
  next
    case False
    then have "\<not> bit (unat b) j"
      by (auto simp: bit_unat_u8 dest: bit_imp_le_length)
    then show ?thesis
      using False Cons.IH [of "j - 8"]
      by (simp add: le_nat_or bit_or_iff bit_push_bit_iff le_div_geq le_mod_geq del: le_nat.simps)
  qed
qed simp

text \<open>Up to 32 bits, the octets or-ed together are the little-endian number, whatever the sign
  extension of the octet at position 3 adds above.\<close>

lemma or_octets_bits:
  assumes "i + length bs \<le> 4"
  shows "\<exists>w. or_octets i bs v = Inr w \<and>
           (\<forall>j<32. bit w j \<longleftrightarrow> bit v j \<or> bit (push_bit (8 * i) (le_nat bs)) j)"
  using assms
proof (induction bs arbitrary: i v)
  case (Cons b bs)
  let ?s = "scast (push_bit (8 * i) (ucast b :: 32 word)) :: u64"
  have s: "bit ?s j \<longleftrightarrow> 8 * i \<le> j \<and> bit b (j - 8 * i)" if "j < 32" for j
    using that by (cases "j = 31") (auto simp: bit_simps min_def dest: bit_imp_le_length)
  obtain w where w: "or_octets (Suc i) bs (v OR ?s) = Inr w"
    and bits: "\<forall>j<32. bit w j \<longleftrightarrow> bit (v OR ?s) j \<or> bit (push_bit (8 * Suc i) (le_nat bs)) j"
    using Cons.IH [of "Suc i" "v OR ?s"] Cons.prems by auto
  have "bit w j \<longleftrightarrow> bit v j \<or> bit (push_bit (8 * i) (le_nat (b # bs))) j" if "j < 32" for j
    using that bits s [OF that]
    by (auto simp: le_nat_or bit_or_iff bit_push_bit_iff bit_unat_u8 algebra_simps simp del: le_nat.simps)
  moreover have "i < 4" using Cons.prems by simp
  ultimately show ?case using w by auto
qed simp

lemma bit_mask_ok: "n < 32 \<Longrightarrow> bit_mask (word_of_nat n) = Inr (mask n)"
proof -
  assume n: "n < 32"
  then have u: "unat (word_of_nat n :: u64) = n"
    by (simp add: unat_of_nat take_bit_nat_eq_self)
  have "(scast (mask n :: 32 word) :: u64) = mask n"
    using n by (intro bit_word_eqI) (auto simp: bit_simps min_def)
  then show ?thesis
    using n u by (simp add: bit_mask_def word_le_nat_alt word_less_nat_alt mask_eq_exp_minus_1 push_bit_eq_mult)
qed


lemma unat_byte_len:
  assumes "0 < len" and "off + len \<le> 32"
  shows "unat (1 + ((word_of_nat off + word_of_nat len - 1) div 8) :: u64) = Suc ((off + len - 1) div 8)"
proof -
  have "(word_of_nat off + word_of_nat len - 1 :: u64) = word_of_nat (off + len - 1)"
    using assms(1) by (simp add: of_nat_diff)
  moreover have "unat (word_of_nat (off + len - 1) :: u64) = off + len - 1"
    using assms(2) by (intro unat_of_nat_lt) simp
  ultimately have "unat ((word_of_nat off + word_of_nat len - 1 :: u64) div 8) = (off + len - 1) div 8"
    by (simp only: unat_div) simp
  moreover have "Suc ((off + len - 1) div 8) < 2 ^ 64"
    using assms(2) by simp
  ultimately show ?thesis
    by (subst unat_add_lem [THEN iffD1]) simp_all
qed

lemma bits_of_octets:
  assumes sum: "off + len \<le> 32" and n: "Suc ((off + len - 1) div 8) = n"
    and bits: "\<forall>j<32. bit (w :: u64) j \<longleftrightarrow> bit (le_nat (take n bs)) j"
  shows "drop_bit off w AND mask len = word_of_nat (take_bit len (drop_bit off (le_nat bs)))"
proof (rule bit_word_eqI)
  fix j
  assume "j < LENGTH(64)"
  then have j: "j < 64" by simp
  show "bit (drop_bit off w AND mask len) j
      = bit (word_of_nat (take_bit len (drop_bit off (le_nat bs))) :: u64) j"
  proof (cases "j < len")
    case True
    have "off + j < 32" using True sum by simp
    moreover have "(off + j) div 8 < n"
      using True n div_le_mono [of "off + j" "off + len - 1" 8] by simp
    ultimately show ?thesis
      using True j bits by (simp add: bit_simps bit_le_nat)
  next
    case False
    then show ?thesis using j by (simp add: bit_simps)
  qed
qed

lemma read_memory_in:
  assumes "chunk_ok c" and "n \<le> length (contents c)"
  shows "read_memory c n = Inr (take n (contents c))"
proof -
  have n: "n \<le> unat (ck_size c)"
    using assms by (simp add: length_contents)
  then have "n \<le> length (ck_data c)"
    using assms(1) by (simp add: chunk_ok_def)
  then show ?thesis
    using n by (simp add: read_memory_def contents_def min_absorb1)
qed

lemma chunk_bits_in:
  fixes off len :: nat
  assumes ok: "chunk_ok c" and len: "0 < len" "len < 32" and sum: "off + len \<le> 32"
    and fits: "(off + len - 1) div 8 < length (contents c)"
  shows "chunk_bits c (word_of_nat off) (word_of_nat len)
       = Inr (word_of_nat (take_bit len (drop_bit off (le_nat (contents c)))))"
proof -
  let ?n = "Suc ((off + len - 1) div 8)"
  have bl: "unat (1 + ((word_of_nat off + word_of_nat len - 1) div 8) :: u64) = ?n"
    using len(1) sum by (rule unat_byte_len)
  have n4: "?n \<le> 4" using sum by simp
  have size: "unat (ck_size c) = length (contents c)"
    using ok by (simp add: length_contents)
  have mem: "read_memory c ?n = Inr (take ?n (contents c))"
    using fits by (intro read_memory_in [OF ok]) simp
  obtain w where w: "or_octets 0 (take ?n (contents c)) 0 = Inr w"
    and bits: "\<forall>j<32. bit w j \<longleftrightarrow> bit (le_nat (take ?n (contents c))) j"
    using or_octets_bits [of 0 "take ?n (contents c)" 0] n4 by (auto simp: min.coboundedI2)
  have off: "unat (word_of_nat off :: u64) = off"
    using sum by (intro unat_of_nat_lt) simp
  then have "(word_of_nat off :: u64) < 64"
    using sum by (simp only: word_less_nat_alt) simp
  then show ?thesis
    unfolding chunk_bits_def Let_def bounds_check_def word_le_nat_alt bl off mem
      bind_result_simps w bit_mask_ok [OF len(2)] bits_of_octets [OF sum refl bits]
    using size fits n4 by simp
qed

lemma chunk_bits_out:
  assumes "chunk_ok c" and "0 < len" and "off + len \<le> 32" and "length (contents c) \<le> (off + len - 1) div 8"
  shows "chunk_bits c (word_of_nat off) (word_of_nat len) = Inl Out_of_range"
proof -
  have "unat (ck_size c) < unat (1 + ((word_of_nat off + word_of_nat len - 1) div 8) :: u64)"
    unfolding unat_byte_len [OF assms(2,3)] using assms(1,4) by (simp add: length_contents)
  then show ?thesis
    unfolding chunk_bits_def Let_def bounds_check_def by (simp add: word_le_nat_alt)
qed

definition field :: "nat \<Rightarrow> nat \<Rightarrow> bytes \<Rightarrow> nat" where
  "field off len bs = take_bit len (drop_bit off (le_nat bs))"

lemma field_append:
  "off + len \<le> 8 * length xs \<Longrightarrow> field off len (xs @ ys) = field off len xs"
  unfolding field_def
  by (rule bit_eqI) (auto simp: bit_take_bit_iff bit_drop_bit_eq bit_le_nat nth_append)

lemma field_arith: "field off len bs = le_nat bs div 2 ^ off mod 2 ^ len"
  by (simp add: field_def take_bit_eq_mod drop_bit_eq_div)

lemma field_less: "field off len bs < 2 ^ len"
  by (simp add: field_arith)

text \<open>The fields the constructor reads, on a chunk that has them.\<close>

lemma chunk_field:
  "\<lbrakk>chunk_ok c; 0 < len; len < 32; off + len \<le> 32; (off + len - 1) div 8 < length (contents c)\<rbrakk>
   \<Longrightarrow> chunk_bits c (word_of_nat off) (word_of_nat len) = Inr (word_of_nat (field off len (contents c)))"
  by (simp add: chunk_bits_in field_def)

lemma tag_fields:
  assumes "chunk_ok c" and "3 \<le> length (contents c)"
  shows "chunk_bits c 0 1 = Inr (word_of_nat (field 0 1 (contents c)))"
    and "chunk_bits c 4 1 = Inr (word_of_nat (field 4 1 (contents c)))"
    and "chunk_bits c 1 3 = Inr (word_of_nat (field 1 3 (contents c)))"
    and "chunk_bits c 5 19 = Inr (word_of_nat (field 5 19 (contents c)))"
    and "chunk_bits c 0 24 = Inr (word_of_nat (field 0 24 (contents c)))"
proof -
  have "0 < length (contents c)" "2 < length (contents c)"
    using assms(2) by linarith+
  then show "chunk_bits c 0 1 = Inr (word_of_nat (field 0 1 (contents c)))"
    and "chunk_bits c 4 1 = Inr (word_of_nat (field 4 1 (contents c)))"
    and "chunk_bits c 1 3 = Inr (word_of_nat (field 1 3 (contents c)))"
    and "chunk_bits c 5 19 = Inr (word_of_nat (field 5 19 (contents c)))"
    and "chunk_bits c 0 24 = Inr (word_of_nat (field 0 24 (contents c)))"
    using chunk_field [OF assms(1), of 1 0] chunk_field [OF assms(1), of 1 4] chunk_field [OF assms(1), of 3 1]
      chunk_field [OF assms(1), of 19 5] chunk_field [OF assms(1), of 24 0]
    by simp_all
qed

lemma size_fields:
  assumes "chunk_ok c" and "4 \<le> length (contents c)"
  shows "chunk_bits c 14 2 = Inr (word_of_nat (field 14 2 (contents c)))"
    and "chunk_bits c 30 2 = Inr (word_of_nat (field 30 2 (contents c)))"
    and "chunk_bits c 0 14 = Inr (word_of_nat (field 0 14 (contents c)))"
    and "chunk_bits c 16 14 = Inr (word_of_nat (field 16 14 (contents c)))"
proof -
  have "1 < length (contents c)" "3 < length (contents c)"
    using assms(2) by linarith+
  then show "chunk_bits c 14 2 = Inr (word_of_nat (field 14 2 (contents c)))"
    and "chunk_bits c 30 2 = Inr (word_of_nat (field 30 2 (contents c)))"
    and "chunk_bits c 0 14 = Inr (word_of_nat (field 0 14 (contents c)))"
    and "chunk_bits c 16 14 = Inr (word_of_nat (field 16 14 (contents c)))"
    using chunk_field [OF assms(1), of 2 14] chunk_field [OF assms(1), of 2 30] chunk_field [OF assms(1), of 14 0]
      chunk_field [OF assms(1), of 14 16]
    by simp_all
qed

text \<open>The bytes that \<open>make_frame\<close> writes, as numbers.\<close>

lemma narrow_bytes:
  "(ucast (drop_bit 3 (L AND 0x7f8 :: u32)) :: u8) = ucast (drop_bit 3 L)"
  "(ucast (drop_bit 11 (L AND 0x7f800 :: u32)) :: u8) = ucast (drop_bit 11 L)"
  "(ucast (w AND 0xff :: u32) :: u8) = ucast w"
  "(ucast (n AND 0xff :: u16) :: u8) = ucast n"
  "(ucast (drop_bit 8 (w AND 0xff00 :: u32)) :: u8) = ucast (drop_bit 8 w)"
  "(ucast (drop_bit 16 (w AND 0xff0000 :: u32)) :: u8) = ucast (drop_bit 16 w)"
proof -
  have m: "(0xff :: u32) = mask 8" "(0xff :: u16) = mask 8"
    by (simp_all add: mask_eq_exp_minus_1)
  have "(ucast (x AND 0xff :: u32) :: u8) = ucast x" for x
    unfolding m by (rule bit_word_eqI) (simp add: bit_simps)
  then show "(ucast (drop_bit 3 (L AND 0x7f8 :: u32)) :: u8) = ucast (drop_bit 3 L)"
    "(ucast (drop_bit 11 (L AND 0x7f800 :: u32)) :: u8) = ucast (drop_bit 11 L)"
    "(ucast (w AND 0xff :: u32) :: u8) = ucast w"
    "(ucast (drop_bit 8 (w AND 0xff00 :: u32)) :: u8) = ucast (drop_bit 8 w)"
    "(ucast (drop_bit 16 (w AND 0xff0000 :: u32)) :: u8) = ucast (drop_bit 16 w)"
    by (simp_all add: drop_bit_and)
  show "(ucast (n AND 0xff :: u16) :: u8) = ucast n"
    unfolding m by (rule bit_word_eqI) (simp add: bit_simps)
qed

lemma unat_narrow: "unat (ucast (w :: 'a::len word) :: u8) = unat w mod 256"
  by (simp add: unsigned_ucast_eq take_bit_eq_mod)

lemma u8_eqI: "unat (a :: u8) = unat b \<Longrightarrow> a = b"
  by (simp add: word_unat_eq_iff)

lemma length_bytes_eq: "length_bytes part = nat_le 3 (length part)"
proof -
  have "length part mod 2 ^ 32 div 2 ^ k mod 256 = length part div 2 ^ k mod 256" if "k + 8 \<le> 32" for k
  proof -
    have "take_bit 8 (drop_bit k (take_bit 32 x)) = take_bit 8 (drop_bit k x)" for x :: nat
      using that by (intro bit_eqI) (auto simp: bit_simps)
    from this [of "length part"] show ?thesis
      by (simp add: take_bit_eq_mod drop_bit_eq_div)
  qed
  note shift = this [of 0] this [of 8] this [of 16]
  show ?thesis
    using shift
    by (simp add: length_bytes_def Let_def narrow_bytes numeral_3_eq_3 div_mult2_eq [symmetric])
       (intro conjI u8_eqI; simp add: unat_narrow unat_drop_bit unat_of_nat take_bit_eq_mod unat_of_nat_mod8)
qed

lemma dimension_bytes_eq:
  assumes "n \<le> 16383"
  shows "dimension_bytes n = nat_le 2 (unat n)"
proof -
  have "unat n < 2 ^ 14" using assms by (simp add: word_le_nat_alt)
  have m: "(0x3f :: u16) = mask 6" by (simp add: mask_eq_exp_minus_1)
  have "unat (drop_bit 8 (n AND 0x3f00)) = unat n div 256"
    using \<open>unat n < 2 ^ 14\<close>
    by (simp add: drop_bit_and m flip: take_bit_eq_mask)
       (simp add: unsigned_take_bit_eq unat_mod unat_drop_bit take_bit_eq_mod)
  then show ?thesis
    using \<open>unat n < 2 ^ 14\<close>
    by (simp add: dimension_bytes_def narrow_bytes numeral_2_eq_2)
       (intro conjI u8_eqI; simp add: unat_narrow unat_of_nat take_bit_eq_mod)
qed

lemma length_frame_tag [simp]: "length (frame_tag k s e r L) = 3"
  by (simp add: frame_tag_def)

lemma tag_byte_bit:
  "j < 8 \<Longrightarrow> bit (tag_byte k s e r L) j \<longleftrightarrow>
     j = 0 \<and> \<not> k \<or> j = 2 \<and> r \<or> j = 3 \<and> e \<or> j = 4 \<and> s \<or> 5 \<le> j \<and> bit L (j - 5)"
proof -
  have m: "(7 :: u32) = mask 3" by (simp add: mask_eq_exp_minus_1)
  show "j < 8 \<Longrightarrow> ?thesis"
    unfolding tag_byte_def m
    by (simp only: bit_unsigned_iff bit_or_iff bit_push_bit_iff bit_and_iff bit_mask_iff bit_of_bool_iff) auto
qed

lemma frame_tag_bit: "j < 8 \<Longrightarrow> bit (le_nat (frame_tag k s e r L)) j \<longleftrightarrow> bit (tag_byte k s e r L) j"
  unfolding bit_le_nat by (simp add: frame_tag_def)

lemma frame_tag_bits:
  shows "bit (le_nat (frame_tag k s e r L)) 0 \<longleftrightarrow> \<not> k"
    and "bit (le_nat (frame_tag k s e r L)) 1 \<longleftrightarrow> False"
    and "bit (le_nat (frame_tag k s e r L)) 2 \<longleftrightarrow> r"
    and "bit (le_nat (frame_tag k s e r L)) 3 \<longleftrightarrow> e"
    and "bit (le_nat (frame_tag k s e r L)) 4 \<longleftrightarrow> s"
  by (simp_all add: frame_tag_bit tag_byte_bit del: One_nat_def)

lemma frame_tag_length_bits:
  assumes "j < 19"
  shows "bit (le_nat (frame_tag k s e r L)) (5 + j) \<longleftrightarrow> bit L j"
proof -
  consider "j < 3" | "3 \<le> j" "j < 11" | "11 \<le> j" using assms by linarith
  then show ?thesis
  proof cases
    case 1
    then show ?thesis
      by (simp only: frame_tag_bit tag_byte_bit) simp
  next
    case 2
    then obtain i where i: "j = 3 + i" "i < 8"
      using le_Suc_ex [of 3 j] by auto
    then have d: "(5 + j) div 8 = 1" "(5 + j) mod 8 = i" by simp_all
    have "bit (ucast (drop_bit 3 L) :: u8) i \<longleftrightarrow> bit L j"
      using i by (simp add: bit_simps add.commute)
    then show ?thesis
      unfolding bit_le_nat d by (simp add: frame_tag_def narrow_bytes)
  next
    case 3
    then obtain i where i: "j = 11 + i" "i < 8"
      using assms le_Suc_ex [of 11 j] by auto
    then have d: "(5 + j) div 8 = 2" "(5 + j) mod 8 = i" by (simp_all add: mod_add_eq [symmetric, of 16])
    have "bit (ucast (drop_bit 11 L) :: u8) i \<longleftrightarrow> bit L j"
      using i by (simp add: bit_simps add.commute)
    then show ?thesis
      unfolding bit_le_nat d by (simp add: frame_tag_def narrow_bytes nth_Cons')
  qed
qed

lemma take_bit_3: "take_bit 3 (x :: nat) = of_bool (bit x 0) + 2 * of_bool (bit x 1) + 4 * of_bool (bit x 2)"
proof -
  have "x mod (2 * (2 * 2)) = x mod 2 + 2 * (x div 2 mod 2) + 4 * (x div 4 mod 2)"
    by (simp only: mod_mult2_eq) (simp add: div_mult2_eq [symmetric])
  then show ?thesis
    by (simp add: take_bit_eq_mod bit_iff_odd flip: mod_2_eq_odd)
qed

lemma field_one: "field j 1 bs = of_bool (bit (le_nat bs) j)"
  by (simp add: field_def bit_iff_odd drop_bit_eq_div mod_2_eq_odd)

lemma frame_tag_fields:
  shows "field 0 1 (frame_tag k s e r L) = of_bool (\<not> k)"
    and "field 4 1 (frame_tag k s e r L) = of_bool s"
    and "field 1 3 (frame_tag k s e r L) = 2 * of_bool r + 4 * of_bool e"
    and "field 5 19 (frame_tag k s e r L) = unat L mod 2 ^ 19"
proof -
  have b: "bit (drop_bit 1 x) 0 = bit x 1" "bit (drop_bit 1 x) 1 = bit x 2" "bit (drop_bit 1 x) 2 = bit x 3" for x :: nat
    by (simp_all add: bit_drop_bit_eq numeral_2_eq_2 numeral_3_eq_3)
  show "field 0 1 (frame_tag k s e r L) = of_bool (\<not> k)" "field 4 1 (frame_tag k s e r L) = of_bool s"
    unfolding field_one frame_tag_bits by simp_all
  show "field 1 3 (frame_tag k s e r L) = 2 * of_bool r + 4 * of_bool e"
    unfolding field_def take_bit_3 b frame_tag_bits by simp
  have "field 5 19 (frame_tag k s e r L) = take_bit 19 (unat L)"
    unfolding field_def
    by (rule bit_eqI) (auto simp: bit_take_bit_iff bit_drop_bit_eq frame_tag_length_bits bit_unsigned_iff dest: bit_imp_le_length)
  then show "field 5 19 (frame_tag k s e r L) = unat L mod 2 ^ 19"
    by (simp add: take_bit_eq_mod)
qed



section \<open>Parsing what was laid out\<close>

lemma try_bind_simps [simp]:
  "try_bind (Inl e) u k = (Some e, u)"
  "try_bind (Inr x) u k = k x"
  by (simp_all add: try_bind_def)

text \<open>The start code and the dimensions of a key frame.\<close>

lemma check_key_frame_ok:
  assumes ok: "chunk_ok c" and c: "contents c = tag @ start_code @ dimension_bytes w @ dimension_bytes h @ rest"
    and tag: "length tag = 3" and w: "w \<le> 16383" and h: "h \<le> 16383"
  shows "check_key_frame c w h u = (None, u)"
proof -
  have lens: "length (start_code) = 3" "length (dimension_bytes w) = 2" "length (dimension_bytes h) = 2"
    by (simp_all add: start_code_def dimension_bytes_def)
  obtain sc where sc: "chunk_sub c 3 3 = Inr sc" "chunk_ok sc" "contents sc = start_code"
    using chunk_sub_in [OF ok, of 3 3] c tag lens by auto
  obtain sz where sz: "chunk_sub c 6 4 = Inr sz" "chunk_ok sz" "contents sz = dimension_bytes w @ dimension_bytes h"
    using chunk_sub_in [OF ok, of 6 4] c tag lens by auto
  have wh: "unat w < 2 ^ 14" "unat h < 2 ^ 14"
    using w h by (simp_all add: word_le_nat_alt)
  have le: "le_nat (contents sz) = unat w + 65536 * unat h"
    using w h wh lens by (simp add: sz le_nat_append dimension_bytes_eq power2_eq_square)
  have "unat w + 65536 * unat h < 2 ^ 30"
    using wh by simp
  moreover have low: "(unat w + 65536 * unat h) div 2 ^ 14 mod 2 ^ 2 = 0" "(unat w + 65536 * unat h) mod 2 ^ 14 = unat w"
    using div_mult_self2 [of "2 ^ 14" "unat w" "4 * unat h"] mod_mult_self2 [of "unat w" "2 ^ 14" "4 * unat h"] wh
    by simp_all
  ultimately have f: "field 14 2 (contents sz) = 0" "field 30 2 (contents sz) = 0"
    "field 0 14 (contents sz) = unat w" "field 16 14 (contents sz) = unat h"
    unfolding field_arith le using wh low by simp_all
  have "4 \<le> length (contents sz)"
    using sz(3) lens by simp
  note sizes = size_fields [OF sz(2) this]
  have through: "(ucast (ucast x :: u64) :: u16) = x" for x :: u16
    by (rule bit_word_eqI) (simp add: bit_simps)
  show ?thesis
    by (simp add: check_key_frame_def sc chunk_to_string_ok sz(1) sizes f through)
qed

lemma unat_length:
  "length bs < 2 ^ 19 \<Longrightarrow> unat (word_of_nat (length bs) :: u32) = length bs"
  "length bs < 2 ^ 19 \<Longrightarrow> unat (word_of_nat (length bs) :: u64) = length bs"
  by (simp_all add: unat_of_nat take_bit_nat_eq_self)

lemma split_partitions_ok:
  assumes ok: "chunk_ok c" and c: "contents c = pre @ part @ rest"
    and pre: "length pre = unat (first_partition_offset u)" and part: "length part < 2 ^ 19" and rest: "rest \<noteq> []"
  obtains fp rs where "split_partitions c accept_partial (word_of_nat (length part)) u
      = (None, u\<lparr>uc_first_partition := fp, uc_rest := rs\<rparr>)"
    and "chunk_ok fp" "contents fp = part" "chunk_ok rs" "contents rs = rest"
proof -
  let ?o = "first_partition_offset u" and ?l = "word_of_nat (length part) :: u32"
  have pre10: "length pre \<le> 10"
    unfolding pre by (simp add: first_partition_offset_def)
  have o: "unat (ucast ?o :: u64) = length pre"
    using pre by (simp add: unat_ucast_up)
  have l: "unat (ucast ?l :: u64) = length part"
    using part by (simp add: unat_ucast_up unat_length)
  have "unat (?o + ?l) = length pre + length part"
    using part pre10 by (subst unat_add_lem [THEN iffD1]) (simp_all add: pre [symmetric] unat_length)
  then have ol: "unat (ucast (?o + ?l) :: u64) = length pre + length part"
    by (simp add: unat_ucast_up)
  have size: "unat (ck_size c) = length pre + length part + length rest"
    using length_contents [OF ok] c by simp
  have longer: "\<not> ck_size c \<le> ucast (?o + ?l)"
    using rest by (simp add: word_le_nat_alt size ol)
  have "unat (ck_size c - ucast ?o) = length part + length rest"
    by (subst unat_sub) (simp_all add: word_le_nat_alt size o)
  then have remaining: "unat (ck_size c - ucast ?o - ucast ?l) = length rest"
    by (subst unat_sub) (simp_all add: word_le_nat_alt l)
  obtain fp where fp: "chunk_sub c (ucast ?o) (ucast ?l) = Inr fp" "chunk_ok fp" "contents fp = part"
    using chunk_sub_in [OF ok, of "ucast ?o" "ucast ?l"] c o l by auto
  obtain rs where rs: "chunk_sub c (ucast (?o + ?l)) (ck_size c - ucast ?o - ucast ?l) = Inr rs"
    "chunk_ok rs" "contents rs = rest"
    using chunk_sub_in [OF ok, of "ucast (?o + ?l)" "ck_size c - ucast ?o - ucast ?l"] c ol remaining by auto
  show ?thesis
    using that longer fp rs by (simp add: split_partitions_def Let_def)
qed

text \<open>The DCT partitions.\<close>

lemma read_lengths_ok:
  assumes "chunk_ok c" and "contents c = concat (map length_bytes parts) @ rest"
    and "\<forall>part \<in> set parts. length part < 2 ^ 24"
  shows "\<exists>d. read_lengths (length parts) c = Inr (map (word_of_nat \<circ> length) parts, d)
           \<and> chunk_ok d \<and> contents d = rest"
  using assms
proof (induction parts arbitrary: c)
  case (Cons part parts)
  let ?more = "concat (map length_bytes parts) @ rest"
  have c: "contents c = length_bytes part @ ?more"
    using Cons.prems(2) by simp
  have three: "length (length_bytes part) = 3"
    by (simp add: length_bytes_eq)
  obtain d where d: "chunk_from c 3 = Inr d" "chunk_ok d" "contents d = ?more"
    using chunk_from_in [OF Cons.prems(1), of 3] c three by auto
  have len: "length part < 2 ^ 24"
    using Cons.prems(3) by simp
  have "field 0 24 (contents c) = length part"
    unfolding c by (subst field_append) (use three len in \<open>simp_all add: field_arith length_bytes_eq\<close>)
  then have bits: "chunk_bits c 0 24 = Inr (word_of_nat (length part))"
    using tag_fields(5) [OF Cons.prems(1)] c three by simp
  have narrow: "(ucast (word_of_nat (length part) :: u64) :: u32) = word_of_nat (length part)"
    using len by (intro word_unat_eq_iff [THEN iffD2]) (simp add: unsigned_ucast_eq unat_of_nat take_bit_nat_eq_self)
  show ?case
    using Cons.IH [OF d(2,3)] Cons.prems(3) by (auto simp: d(1) bits narrow)
qed simp

lemma cut_partitions_ok:
  assumes "chunk_ok c" and "contents c = concat parts @ rest"
    and "\<forall>part \<in> set parts. length part < 2 ^ 24"
  shows "\<exists>ps d. cut_partitions (map (word_of_nat \<circ> length) parts) c = Inr (ps, d)
           \<and> list_all chunk_ok ps \<and> map contents ps = parts \<and> chunk_ok d \<and> contents d = rest"
  using assms
proof (induction parts arbitrary: c)
  case (Cons part parts)
  let ?l = "ucast (word_of_nat (length part) :: u32) :: u64"
  have c: "contents c = part @ concat parts @ rest"
    using Cons.prems(2) by simp
  have l: "unat ?l = length part"
    using Cons.prems(3) by (simp add: unat_ucast_up unat_of_nat take_bit_nat_eq_self)
  obtain p where p: "chunk_sub c 0 ?l = Inr p" "chunk_ok p" "contents p = part"
    using chunk_sub_in [OF Cons.prems(1), of 0 ?l] c l by auto
  obtain d where d: "chunk_from c ?l = Inr d" "chunk_ok d" "contents d = concat parts @ rest"
    using chunk_from_in [OF Cons.prems(1), of ?l] c l by auto
  show ?case
    using Cons.IH [OF d(2,3)] Cons.prems(3) by (auto simp: d(1) p)
qed simp

lemma dct_partitions_ok:
  assumes ok: "chunk_ok (uc_rest u)" and parts: "parts \<noteq> []" "length parts < 256"
    and small: "\<forall>part \<in> set (butlast parts). length part < 2 ^ 24"
    and rest: "contents (uc_rest u) = concat (map length_bytes (butlast parts)) @ concat parts"
  shows "\<exists>ps. dct_partitions u (word_of_nat (length parts)) = Inr ps
           \<and> list_all chunk_ok ps \<and> map contents ps = parts"
proof -
  have n: "unat (word_of_nat (length parts) :: u8) - 1 = length (butlast parts)"
    using parts by (simp add: unat_of_nat take_bit_nat_eq_self)
  obtain d where d: "read_lengths (length (butlast parts)) (uc_rest u)
      = Inr (map (word_of_nat \<circ> length) (butlast parts), d)" "chunk_ok d" "contents d = concat parts"
    using read_lengths_ok [OF ok rest small] by auto
  have "concat parts = concat (butlast parts) @ last parts"
    using parts(1) by (metis append_butlast_last_id concat.simps concat_append append_Nil2)
  then obtain ps e where e: "cut_partitions (map (word_of_nat \<circ> length) (butlast parts)) d = Inr (ps, e)"
    "list_all chunk_ok ps" "map contents ps = butlast parts" "chunk_ok e" "contents e = last parts"
    using cut_partitions_ok [OF d(2) _ small] d(3) by auto
  show ?thesis
    unfolding dct_partitions_def n using d(1) e parts(1) by (simp add: append_butlast_last_id)
qed

lemma make_frame_parsed:
  assumes frame: "make_frame key show experimental update w h part parts = Inr bs"
    and update: "update \<longrightarrow> experimental"
    and part: "length part < 2 ^ 19" and rest: "parts \<noteq> [[]]"
    and parts: "length parts < 256" "\<forall>p \<in> set (butlast parts). length p < 2 ^ 24"
    and bs: "length bs < 2 ^ 64"
  shows "\<exists>u ps. parse_uncompressed (chunk_of bs) w h accept_partial = Inr u
    \<and> uc_key_frame u = key \<and> uc_show_frame u = show \<and> uc_experimental u = experimental
    \<and> uc_loop_filter u = (if update then NoFilter else Normal) \<and> uc_corruption_level u = NO_CORRUPTION
    \<and> contents (uc_first_partition u) = part
    \<and> dct_partitions u (word_of_nat (length parts)) = Inr ps \<and> map contents ps = parts"
proof -
  let ?L = "word_of_nat (length part) :: u32"
  let ?tag = "frame_tag key show experimental update ?L"
  let ?dims = "if key then start_code @ dimension_bytes w @ dimension_bytes h else []"
  let ?rest = "concat (map length_bytes (butlast parts)) @ concat parts"
  have wh: "w \<le> 16383" "h \<le> 16383" and ne: "parts \<noteq> []" and bs_eq: "bs = ?tag @ ?dims @ part @ ?rest"
    using frame by (auto simp: make_frame_def split: if_splits)
  let ?c = "chunk_of bs"
  have ok: "chunk_ok ?c" and c: "contents ?c = ?tag @ ?dims @ part @ ?rest"
    using bs by (simp_all, simp add: bs_eq)
  have L: "unat ?L mod 2 ^ 19 = length part"
    using part by (simp add: unat_of_nat take_bit_nat_eq_self)
  have three: "3 \<le> length (contents ?c)"
    unfolding c by simp
  have tag: "off + n \<le> 24 \<Longrightarrow> field off n (contents ?c) = field off n ?tag" for off n
    unfolding c by (rule field_append) simp
  have fields: "field 0 1 (contents ?c) = of_bool (\<not> key)" "field 4 1 (contents ?c) = of_bool show"
    "field 1 3 (contents ?c) = 2 * of_bool update + 4 * of_bool experimental"
    "field 5 19 (contents ?c) = length part"
    by (subst tag; simp only: frame_tag_fields L; simp)+
  note bits = tag_fields [OF ok three, unfolded fields]
  let ?u = "uncompressed_init\<lparr>uc_key_frame := key, uc_show_frame := show, uc_reconstruction_filter := Bicubic,
    uc_loop_filter := (if update then NoFilter else Normal), uc_experimental := experimental\<rparr>"
  have version: "set_version (ucast (word_of_nat (2 * of_bool update + 4 * of_bool experimental) :: u64))
      (uncompressed_init\<lparr>uc_key_frame := key, uc_show_frame := show\<rparr>) = Inr ?u"
    using update by (cases update; cases experimental) (simp_all add: set_version_def uncompressed_init_def)
  have rest_ne: "?rest \<noteq> []"
  proof (cases "butlast parts = []")
    case True
    then obtain p where "parts = [p]" using ne by (cases parts) (auto split: if_splits)
    then show ?thesis using rest by simp
  next
    case False
    then show ?thesis by (cases "butlast parts") (auto simp: length_bytes_eq numeral_3_eq_3)
  qed
  have pre: "length (?tag @ ?dims) = unat (first_partition_offset ?u)"
    by (simp add: first_partition_offset_def start_code_def dimension_bytes_def uncompressed_init_def)
  have c': "contents ?c = (?tag @ ?dims) @ part @ ?rest"
    using c by (simp only: append_assoc)
  obtain fp rs where split: "split_partitions ?c accept_partial ?L ?u = (None, ?u\<lparr>uc_first_partition := fp, uc_rest := rs\<rparr>)"
    and fp: "chunk_ok fp" "contents fp = part" and rs: "chunk_ok rs" "contents rs = ?rest"
    by (rule split_partitions_ok [OF ok c' pre part rest_ne, where accept_partial = accept_partial])
  let ?v = "?u\<lparr>uc_first_partition := fp, uc_rest := rs\<rparr>"
  have narrow: "(ucast (word_of_nat (length part) :: u64) :: u32) = ?L"
    using part by (intro word_unat_eq_iff [THEN iffD2]) (simp add: unsigned_ucast_eq unat_of_nat take_bit_nat_eq_self)
  have key_ok: "key \<longrightarrow> check_key_frame ?c w h ?v = (None, ?v)"
    using check_key_frame_ok [OF ok _ length_frame_tag wh] c by simp
  have tried: "try_frame ?c w h accept_partial = (None, ?v)"
    unfolding try_frame_def Let_def bits try_bind_simps of_nat_of_bool of_bool_eq_0_iff not_not version narrow split
    using key_ok by (simp add: uncompressed_init_def)
  obtain ps where ps: "dct_partitions ?v (word_of_nat (length parts)) = Inr ps" "map contents ps = parts"
    using dct_partitions_ok [of ?v parts] ne parts rs by auto
  show ?thesis
    using tried fp(2) ps by (auto simp: parse_uncompressed_def uncompressed_init_def)
qed


section \<open>Every frame is accepted or rejected\<close>

text \<open>What the partitions are when the split succeeds, and how it fails.\<close>

lemma split_partitions_cases:
  assumes ok: "chunk_ok c" and L: "unat L < 2 ^ 19" and start: "uc_corruption_level u = NO_CORRUPTION"
    "contents (uc_rest u) = []" "chunk_ok (uc_rest u)"
  shows "case split_partitions c accept_partial L u of
      (Some e, v) \<Rightarrow> e = Invalid \<or>
        e = Out_of_range \<and> length (contents c) < unat (first_partition_offset u) \<and> uc_show_frame v = uc_show_frame u
        \<and> v = u\<lparr>uc_corruption_level := CORRUPTED_FIRST_PARTITION\<rparr>
    | (None, v) \<Rightarrow> uc_key_frame v = uc_key_frame u \<and> unat (first_partition_offset u) \<le> length (contents c)
        \<and> chunk_ok (uc_first_partition v) \<and> chunk_ok (uc_rest v)
        \<and> contents c = take (unat (first_partition_offset u)) (contents c)
            @ contents (uc_first_partition v) @ contents (uc_rest v)
        \<and> uc_corruption_level v = (if contents (uc_rest v) = [] then CORRUPTED_FIRST_PARTITION else NO_CORRUPTION)
        \<and> (contents (uc_rest v) = [] \<longrightarrow> accept_partial)"
proof -
  let ?o = "first_partition_offset u" and ?n = "length (contents c)"
  have o10: "unat ?o \<le> 10" by (simp add: first_partition_offset_def)
  have size: "unat (ck_size c) = ?n" using length_contents [OF ok] by simp
  have o: "unat (ucast ?o :: u64) = unat ?o" and l: "unat (ucast L :: u64) = unat L"
    by (simp_all add: unat_ucast_up)
  have "unat (?o + L) = unat ?o + unat L"
    using L o10 by (subst unat_add_lem [THEN iffD1]) simp_all
  then have ol: "unat (ucast (?o + L) :: u64) = unat ?o + unat L"
    by (simp add: unat_ucast_up)
  show ?thesis
  proof (cases "ck_size c \<le> ucast (?o + L)")
    case short: True
    show ?thesis
    proof (cases "unat ?o \<le> ?n")
      case True
      then have diff: "unat (ck_size c - ucast ?o) = ?n - unat ?o"
        by (subst unat_sub) (simp_all add: word_le_nat_alt size o)
      obtain fp where "chunk_sub c (ucast ?o) (ck_size c - ucast ?o) = Inr fp" "chunk_ok fp"
        "contents fp = drop (unat ?o) (contents c)"
        using chunk_sub_in [OF ok, of "ucast ?o" "ck_size c - ucast ?o"] True by (auto simp: o diff)
      then show ?thesis
        using short start True by (auto simp: split_partitions_def Let_def)
    next
      case False
      then have "chunk_sub c (ucast ?o) (ck_size c - ucast ?o) = Inl Out_of_range"
        by (simp add: chunk_sub_def bounds_check_def word_le_nat_alt size o)
      then show ?thesis
        using short False by (auto simp: split_partitions_def Let_def)
    qed
  next
    case False
    then have long: "unat ?o + unat L < ?n"
      by (simp add: word_le_nat_alt size ol)
    have "unat (ck_size c - ucast ?o) = ?n - unat ?o"
      using long by (subst unat_sub) (simp_all add: word_le_nat_alt size o)
    then have remaining: "unat (ck_size c - ucast ?o - ucast L) = ?n - unat ?o - unat L"
      using long by (subst unat_sub) (simp_all add: word_le_nat_alt l)
    obtain fp where fp: "chunk_sub c (ucast ?o) (ucast L) = Inr fp" "chunk_ok fp"
      "contents fp = take (unat L) (drop (unat ?o) (contents c))"
      using chunk_sub_in [OF ok, of "ucast ?o" "ucast L"] long by (auto simp: o l)
    obtain rs where rs: "chunk_sub c (ucast (?o + L)) (ck_size c - ucast ?o - ucast L) = Inr rs" "chunk_ok rs"
      "contents rs = drop (unat ?o + unat L) (contents c)"
      using chunk_sub_in [OF ok, of "ucast (?o + L)" "ck_size c - ucast ?o - ucast L"] long
      by (auto simp: ol remaining)
    have "contents c = take (unat ?o) (contents c) @ contents fp @ contents rs"
      unfolding fp(3) rs(3) by (metis append_take_drop_id drop_drop add.commute)
    then show ?thesis
      using False fp rs start long by (auto simp: split_partitions_def Let_def)
  qed
qed

lemma check_key_frame_cases:
  assumes ok: "chunk_ok c" and n: "10 \<le> length (contents c)"
  shows "check_key_frame c w h u \<in> {(None, u), (Some Invalid, u), (Some Unsupported, u)}"
proof -
  obtain sc where sc: "chunk_sub c 3 3 = Inr sc" "chunk_ok sc"
    by (rule chunk_sub_in [OF ok, of 3 3]) (use n in simp_all)
  obtain sz where sz: "chunk_sub c 6 4 = Inr sz" "chunk_ok sz" "contents sz = take 4 (drop 6 (contents c))"
    by (rule chunk_sub_in [OF ok, of 6 4]) (use n in simp_all)
  have "4 \<le> length (contents sz)"
    unfolding sz(3) using n by simp
  note sizes = size_fields [OF sz(2) this]
  show ?thesis
    unfolding check_key_frame_def sc(1) sz(1) sizes bind_result_simps chunk_to_string_ok [OF sc(2)] try_bind_simps
    by simp
qed

lemma set_version_cases:
  "set_version x u = Inl Unsupported \<or>
   (\<exists>v. set_version x u = Inr v \<and> uc_key_frame v = uc_key_frame u \<and> uc_corruption_level v = uc_corruption_level u
      \<and> uc_first_partition v = uc_first_partition u \<and> uc_rest v = uc_rest u)"
  by (simp add: set_version_def)

text \<open>Where the constructor ends, by what the bytes are.\<close>

lemma try_frame_cases:
  assumes ok: "chunk_ok c"
  shows "case try_frame c w h accept_partial of
      (Some e, v) \<Rightarrow> e \<in> {Invalid, Unsupported} \<or>
        e = Out_of_range \<and> (length (contents c) < 3 \<or> length (contents c) < 10 \<and> \<not> bit (hd (contents c)) 0)
        \<and> contents (uc_first_partition v) = [] \<and> contents (uc_rest v) = [] \<and> chunk_ok (uc_rest v)
    | (None, v) \<Rightarrow> \<exists>tag. contents c = tag @ contents (uc_first_partition v) @ contents (uc_rest v)
        \<and> chunk_ok (uc_first_partition v) \<and> chunk_ok (uc_rest v)
        \<and> length tag = (if uc_key_frame v then 10 else 3) \<and> uc_key_frame v = (\<not> bit (hd (contents c)) 0)
        \<and> uc_corruption_level v = (if contents (uc_rest v) = [] then CORRUPTED_FIRST_PARTITION else NO_CORRUPTION)
        \<and> (contents (uc_rest v) = [] \<longrightarrow> accept_partial)"
proof -
  let ?bs = "contents c"
  have empty: "contents (uc_first_partition uncompressed_init) = []" "contents (uc_rest uncompressed_init) = []"
    "chunk_ok (uc_rest uncompressed_init)"
    by (simp_all add: uncompressed_init_def)
  consider "?bs = []" | "?bs \<noteq> []" "length ?bs < 3" | "3 \<le> length ?bs" by linarith
  then show ?thesis
  proof cases
    case 1
    then have "chunk_bits c 0 1 = Inl Out_of_range"
      using chunk_bits_out [OF ok, of 1 0] by simp
    then show ?thesis
      using 1 empty by (simp add: try_frame_def)
  next
    case 2
    then have "chunk_bits c 0 1 = Inr (word_of_nat (field 0 1 ?bs))" "chunk_bits c 4 1 = Inr (word_of_nat (field 4 1 ?bs))"
      "chunk_bits c 1 3 = Inr (word_of_nat (field 1 3 ?bs))"
      using chunk_field [OF ok, of 1 0] chunk_field [OF ok, of 1 4] chunk_field [OF ok, of 3 1] by simp_all
    moreover have "chunk_bits c 5 19 = Inl Out_of_range"
      using chunk_bits_out [OF ok, of 19 5] 2 by simp
    ultimately show ?thesis
      using 2 empty by (simp add: try_frame_def Let_def set_version_def)
  next
    case 3
    note bits = tag_fields [OF ok 3]
    let ?k = "\<not> bit (hd ?bs) 0" and ?L = "ucast (word_of_nat (field 5 19 ?bs) :: u64) :: u32"
    let ?u = "uncompressed_init\<lparr>uc_key_frame := ?k, uc_show_frame := (word_of_nat (field 4 1 ?bs) :: u64) \<noteq> 0\<rparr>"
    have key: "(word_of_nat (field 0 1 ?bs) :: u64) = 0 \<longleftrightarrow> ?k"
      unfolding field_one bit_le_nat using 3 by (cases ?bs) simp_all
    show ?thesis
    proof (cases "set_version (ucast (word_of_nat (field 1 3 ?bs) :: u64)) ?u")
      case (Inl e)
      then have "e = Unsupported"
        using set_version_cases [of _ ?u] by (metis sum.inject(1) sum.distinct(1))
      then show ?thesis
        unfolding try_frame_def Let_def bits try_bind_simps key Inl by simp
    next
      case (Inr u)
      then have u: "uc_key_frame u = ?k" "uc_corruption_level u = NO_CORRUPTION" "contents (uc_first_partition u) = []"
        "contents (uc_rest u) = []" "chunk_ok (uc_rest u)"
        using set_version_cases [of "ucast (word_of_nat (field 1 3 ?bs) :: u64)" ?u]
        by (auto simp: uncompressed_init_def)
      have L: "unat ?L < 2 ^ 19"
        using field_less [of 5 19 ?bs] by (simp add: unsigned_ucast_eq unat_of_nat take_bit_nat_eq_self)
      have tried: "try_frame c w h accept_partial =
          (case split_partitions c accept_partial ?L u of
             (Some e, u) \<Rightarrow> (Some e, u)
           | (None, u) \<Rightarrow> if uc_key_frame u then check_key_frame c w h u else (None, u))"
        unfolding try_frame_def Let_def bits try_bind_simps key Inr by simp
      have offset: "unat (first_partition_offset u) = (if ?k then 10 else 3)"
        by (simp add: first_partition_offset_def u)
      obtain r v where split: "split_partitions c accept_partial ?L u = (r, v)" by force
      note cases = split_partitions_cases [OF ok L u(2,4,5), of accept_partial, unfolded split prod.case offset]
      show ?thesis
      proof (cases r)
        case (Some e)
        then show ?thesis
          using cases u by (auto simp: tried split split: if_splits)
      next
        case None
        have "uc_key_frame v \<Longrightarrow> check_key_frame c w h v \<in> {(None, v), (Some Invalid, v), (Some Unsupported, v)}"
          using cases None u by (intro check_key_frame_cases [OF ok]) (auto split: if_splits)
        moreover have "\<exists>tag. contents c = tag @ contents (uc_first_partition v) @ contents (uc_rest v)
            \<and> length tag = (if uc_key_frame v then 10 else 3)"
          using cases None u by (intro exI [of _ "take (if ?k then 10 else 3) ?bs"]) auto
        ultimately show ?thesis
          using cases None u by (auto simp: tried split)
      qed
    qed
  qed
qed


section \<open>Properties\<close>

text \<open>C23: Round trip of the frame layout.  A frame that \<open>make_frame\<close> lays out is split by
  \<open>UncompressedChunk\<close> and \<open>dct_partitions\<close> into the flags, the first partition and the DCT
  partitions it was made of, whether or not partial frames are accepted, provided that the
  partitions fit the 19- and 24-bit length fields, that something follows the first partition,
  and that the version bits are one of the three the parser knows.\<close>

theorem frame_chunk_roundtrip:
  assumes "make_frame key show experimental update w h part parts = Inr bs"
    and "update \<longrightarrow> experimental"
    and "length part < 2 ^ 19" and "parts \<noteq> [[]]"
    and "length parts < 256" and "\<forall>p \<in> set (butlast parts). length p < 2 ^ 24"
    and "length bs < 2 ^ 64"
  shows "\<exists>u ps. parse_uncompressed (chunk_of bs) w h accept_partial = Inr u
    \<and> uc_key_frame u = key \<and> uc_show_frame u = show \<and> uc_experimental u = experimental
    \<and> uc_loop_filter u = (if update then NoFilter else Normal) \<and> uc_corruption_level u = NO_CORRUPTION
    \<and> contents (uc_first_partition u) = part
    \<and> dct_partitions u (word_of_nat (length parts)) = Inr ps \<and> map contents ps = parts"
  using assms by (rule make_frame_parsed)

definition example_frame :: bytes where
  "example_frame = projr (make_frame True True False False 320 240 [1, 2, 3] [[4, 5], [], [6]])"

theorem frame_chunk_roundtrip_witness:
  "\<exists>u ps. parse_uncompressed (chunk_of example_frame) 320 240 False = Inr u
    \<and> uc_key_frame u \<and> uc_show_frame u \<and> \<not> uc_experimental u
    \<and> uc_loop_filter u = Normal \<and> uc_corruption_level u = NO_CORRUPTION
    \<and> contents (uc_first_partition u) = [1, 2, 3]
    \<and> dct_partitions u 3 = Inr ps \<and> map contents ps = [[4, 5], [], [6]]"
proof -
  have "make_frame True True False False 320 240 [1, 2, 3] [[4, 5], [], [6]] = Inr example_frame"
    by (simp add: example_frame_def make_frame_def)
  moreover have "length example_frame < 2 ^ 64"
    by (simp add: example_frame_def make_frame_def start_code_def dimension_bytes_def length_bytes_def Let_def)
  ultimately show ?thesis
    using frame_chunk_roundtrip [of True True False False 320 240 "[1, 2, 3]" "[[4, 5], [], [6]]" example_frame False]
    by simp
qed

text \<open>Every byte string is accepted or rejected in one of the documented ways.  The
  constructor throws nothing but \<open>Invalid\<close> and \<open>Unsupported\<close>, and without \<open>accept_partial\<close> an
  accepted frame is complete.  In an accepted frame the partitions are well-formed views, and the
  corruption level says which part is missing: a complete frame is its tag, the first partition
  and a nonempty rest; a frame without a rest ends inside the first partition; and a corrupted
  frame is too short for its tag, counts as an inter frame and has no partitions at all.\<close>

theorem parse_uncompressed_classified:
  assumes "chunk_ok c"
  shows "case parse_uncompressed c w h accept_partial of
      Inl e \<Rightarrow> e \<in> {Invalid, Unsupported}
    | Inr u \<Rightarrow> (accept_partial \<or> uc_corruption_level u = NO_CORRUPTION) \<and>
        (case uc_corruption_level u of
           CORRUPTED_FRAME \<Rightarrow> (length (contents c) < 3 \<or> length (contents c) < 10 \<and> \<not> bit (hd (contents c)) 0)
             \<and> \<not> uc_key_frame u \<and> contents (uc_first_partition u) = [] \<and> contents (uc_rest u) = []
         | CORRUPTED_RESIDUES \<Rightarrow> False
         | level \<Rightarrow> chunk_ok (uc_first_partition u) \<and> chunk_ok (uc_rest u)
             \<and> uc_key_frame u = (\<not> bit (hd (contents c)) 0)
             \<and> (contents (uc_rest u) = [] \<longleftrightarrow> level = CORRUPTED_FIRST_PARTITION)
             \<and> (\<exists>tag. length tag = (if uc_key_frame u then 10 else 3)
                  \<and> contents c = tag @ contents (uc_first_partition u) @ contents (uc_rest u)))"
proof -
  obtain r v where r: "try_frame c w h accept_partial = (r, v)" by force
  show ?thesis
  proof (cases r)
    case None
    then show ?thesis
      using try_frame_cases [OF assms, where w = w and h = h and accept_partial = accept_partial] unfolding r parse_uncompressed_def
      by (cases "contents (uc_rest v) = []") auto
  next
    case (Some e)
    then show ?thesis
      using try_frame_cases [OF assms, where w = w and h = h and accept_partial = accept_partial] unfolding r parse_uncompressed_def
      by auto
  qed
qed

theorem parse_uncompressed_classified_witness:
  "parse_uncompressed (chunk_of [0x11, 7]) 320 240 False = Inl Invalid \<and>
   (case parse_uncompressed (chunk_of [0x11, 7]) 320 240 True of
      Inl e \<Rightarrow> False | Inr u \<Rightarrow> uc_corruption_level u = CORRUPTED_FRAME \<and> contents (uc_first_partition u) = [])"
proof -
  have "chunk_ok (chunk_of [0x11, 7])" by simp
  note spec = parse_uncompressed_classified [OF this, where w = 320 and h = 240 and accept_partial = True]
  have "parse_uncompressed (chunk_of [0x11, 7]) 320 240 False = Inl Invalid" by code_simp
  moreover have "of_result (parse_uncompressed (chunk_of [0x11, 7]) 320 240 True) \<bind> Some \<circ> uc_corruption_level = Some CORRUPTED_FRAME"
    by code_simp
  ultimately show ?thesis
    using spec by (auto split: sum.splits)
qed

end
