(* ===== verification/Decoder_State.thy ===== *)
theory Decoder_State
  imports Frame_Header Mode_Data
begin

text \<open>
  The state a decoder carries from frame to frame: \<open>ProbabilityTables\<close>, \<open>FilterAdjustments\<close>,
  \<open>Segmentation\<close>, \<open>DecoderState\<close> and \<open>References\<close> (src/src/decoder/decoder.hh, decoder.cc,
  decoder_state.hh, probability_tables.cc), how the header of a frame changes it, and its hash.
  \<open>boost::hash_combine\<close> is a parameter, and so is the range that the hash of the filter adjustments
  takes between two arrays.  A raster is what the state needs of it: an object that
  is handed on by reference.
\<close>

type_synonym i8 = "8 word"

section \<open>Probability tables\<close>

record probability_tables =
  pt_coeff_probs :: "u8 list list list list"
  pt_y_mode_probs :: "u8 list"
  pt_uv_mode_probs :: "u8 list"
  pt_mv_probs :: "u8 list list"

definition default_probability_tables :: probability_tables where
  "default_probability_tables =
     \<lparr>pt_coeff_probs = k_default_coeff_probs, pt_y_mode_probs = k_default_y_mode_probs,
      pt_uv_mode_probs = k_default_uv_mode_probs, pt_mv_probs = k_default_mv_probs\<rparr>"

text \<open>The update loops run over all positions of the table and replace an entry whose update is
  present.\<close>

definition override :: "'a option \<Rightarrow> 'a \<Rightarrow> 'a" where
  "override upd old = (case upd of None \<Rightarrow> old | Some x \<Rightarrow> x)"

definition coeff_prob_update :: "u8 option list list list list \<Rightarrow> probability_tables \<Rightarrow> probability_tables" where
  "coeff_prob_update upds pt =
     pt\<lparr>pt_coeff_probs := map2 (map2 (map2 (map2 override))) upds (pt_coeff_probs pt)\<rparr>"

definition mv_prob_update :: "u8 option list list \<Rightarrow> probability_tables \<Rightarrow> probability_tables" where
  "mv_prob_update upds pt =
     pt\<lparr>pt_mv_probs := map2 (map2 (\<lambda>upd. override (map_option read_half_prob upd))) upds (pt_mv_probs pt)\<rparr>"

definition probability_tables_update :: "inter_frame_header \<Rightarrow> probability_tables \<Rightarrow> probability_tables" where
  "probability_tables_update h pt =
     (let pt = coeff_prob_update (ih_token_prob_update h) pt;
          pt = pt\<lparr>pt_y_mode_probs := override (ih_intra_16x16_prob h) (pt_y_mode_probs pt)\<rparr>;
          pt = pt\<lparr>pt_uv_mode_probs := override (ih_intra_chroma_prob h) (pt_uv_mode_probs pt)\<rparr>
      in mv_prob_update (ih_mv_prob_update h) pt)"


section \<open>Filter adjustments and segmentation\<close>

definition get_or :: "'a \<Rightarrow> 'a option \<Rightarrow> 'a" where
  "get_or v0 x = (case x of None \<Rightarrow> v0 | Some v \<Rightarrow> v)"

definition num_reference_frames :: nat where "num_reference_frames = 4"
definition num_segments :: nat where "num_segments = 4"

record filter_adjustments =
  fa_ref_adjustments :: "i8 list"
  fa_mode_adjustments :: "i8 list"

definition filter_adjustments_init :: filter_adjustments where
  "filter_adjustments_init =
     \<lparr>fa_ref_adjustments = replicate num_reference_frames 0, fa_mode_adjustments = replicate 4 0\<rparr>"

definition new_adjustments :: "int option list \<Rightarrow> i8 list" where
  "new_adjustments = map (\<lambda>upd. word_of_int (get_or 0 upd))"

text \<open>\<open>FilterAdjustments::update\<close>; the argument is the header's \<open>mode_lf_adjustments\<close>.  Every
  adjustment is replaced, by 0 where the header has no value for it.\<close>

definition filter_adjustments_update ::
  "mode_ref_lf_delta_update option option \<Rightarrow> filter_adjustments \<Rightarrow> filter_adjustments result" where
  "filter_adjustments_update adjustments fa =
     (case adjustments of
        None \<Rightarrow> Inl Assert_failed
      | Some None \<Rightarrow> Inr fa
      | Some (Some u) \<Rightarrow>
          Inr \<lparr>fa_ref_adjustments = new_adjustments (ru_ref_update u),
               fa_mode_adjustments = new_adjustments (ru_mode_update u)\<rparr>)"

record segmentation =
  sg_absolute :: bool
  sg_quantizer :: "i8 list"
  sg_filter :: "i8 list"
  sg_width :: nat
  sg_height :: nat
  sg_map :: bytes

definition segmentation_init :: "nat \<Rightarrow> nat \<Rightarrow> segmentation" where
  "segmentation_init w h =
     \<lparr>sg_absolute = False, sg_quantizer = replicate num_segments 0, sg_filter = replicate num_segments 0,
      sg_width = w, sg_height = h, sg_map = replicate (w * h) 3\<rparr>"

definition segmentation_update :: "update_segmentation option \<Rightarrow> segmentation \<Rightarrow> segmentation result" where
  "segmentation_update upd sg =
     (case upd of
        None \<Rightarrow> Inl Assert_failed
      | Some u \<Rightarrow>
          (case us_segment_feature_data u of
             None \<Rightarrow> Inr sg
           | Some f \<Rightarrow>
               Inr (sg\<lparr>sg_absolute := sf_segment_feature_mode f,
                       sg_quantizer := new_adjustments (sf_quantizer_update f),
                       sg_filter := new_adjustments (sf_loop_filter_update f)\<rparr>)))"

text \<open>\<open>Macroblock::update_segmentation\<close> for a macroblock at a position of the map.\<close>

definition map_index :: "segmentation \<Rightarrow> nat \<Rightarrow> nat \<Rightarrow> nat option" where
  "map_index sg column row =
     (if column < sg_width sg \<and> row < sg_height sg then Some (row * sg_width sg + column) else None)"

definition mb_update_segmentation :: "nat \<Rightarrow> nat \<Rightarrow> u8 option \<Rightarrow> segmentation \<Rightarrow> (u8 \<times> segmentation) option" where
  "mb_update_segmentation column row upd sg =
     do { i \<leftarrow> map_index sg column row;
          let m = (case upd of None \<Rightarrow> sg_map sg | Some s \<Rightarrow> (sg_map sg)[i := s]);
          segment_id \<leftarrow> at m i;
          Some (segment_id, sg\<lparr>sg_map := m\<rparr>) }"


section \<open>The decoder state and a frame's header\<close>

record decoder_state =
  ds_width :: u16
  ds_height :: u16
  ds_probability_tables :: probability_tables
  ds_segmentation :: "segmentation option"
  ds_filter_adjustments :: "filter_adjustments option"

definition decoder_state_init :: "u16 \<Rightarrow> u16 \<Rightarrow> decoder_state" where
  "decoder_state_init w h =
     \<lparr>ds_width = w, ds_height = h, ds_probability_tables = default_probability_tables,
      ds_segmentation = None, ds_filter_adjustments = None\<rparr>"

text \<open>\<open>Optional\<close>'s constructor and \<open>initialize\<close> build the object and update it from the header.\<close>

definition new_filter_adjustments :: "mode_ref_lf_delta_update option option \<Rightarrow> filter_adjustments result" where
  "new_filter_adjustments adjustments = filter_adjustments_update adjustments filter_adjustments_init"

definition new_segmentation :: "update_segmentation option \<Rightarrow> u16 \<Rightarrow> u16 \<Rightarrow> segmentation result" where
  "new_segmentation upd w h =
     bind_result (check (0 < w \<and> 0 < h) Assert_failed) (\<lambda>_.
     segmentation_update upd (segmentation_init (unat w) (unat h)))"

definition optional_result :: "bool \<Rightarrow> 'a result \<Rightarrow> 'a option result" where
  "optional_result present r = (if present then bind_result r (\<lambda>x. Inr (Some x)) else Inr None)"

definition decoder_state_of_key_header :: "key_frame_header \<Rightarrow> u16 \<Rightarrow> u16 \<Rightarrow> decoder_state result" where
  "decoder_state_of_key_header h w ht =
     bind_result (optional_result (kh_update_segmentation h \<noteq> None)
                   (new_segmentation (kh_update_segmentation h) w ht)) (\<lambda>sg.
     bind_result (optional_result (kh_mode_lf_adjustments h \<noteq> None)
                   (new_filter_adjustments (kh_mode_lf_adjustments h))) (\<lambda>fa.
     Inr ((decoder_state_init w ht)\<lparr>ds_segmentation := sg, ds_filter_adjustments := fa\<rparr>)))"

text \<open>\<open>parse_and_apply\<close> up to the macroblocks: the header of the frame changes the persistent
  state and yields the probability tables the frame is decoded with.\<close>

definition apply_key_header :: "key_frame_header \<Rightarrow> decoder_state \<Rightarrow> (decoder_state \<times> probability_tables) result" where
  "apply_key_header h st =
     bind_result (decoder_state_of_key_header h (ds_width st) (ds_height st)) (\<lambda>st.
     let frame_probability_tables = coeff_prob_update (kh_token_prob_update h) (ds_probability_tables st)
     in Inr (if kh_refresh_entropy_probs h then st\<lparr>ds_probability_tables := frame_probability_tables\<rparr> else st,
             frame_probability_tables))"

definition apply_filter_adjustments :: "inter_frame_header \<Rightarrow> decoder_state \<Rightarrow> decoder_state result" where
  "apply_filter_adjustments h st =
     (case ih_mode_lf_adjustments h of
        None \<Rightarrow> Inr (st\<lparr>ds_filter_adjustments := None\<rparr>)
      | Some _ \<Rightarrow>
          bind_result
            (case ds_filter_adjustments st of
               Some fa \<Rightarrow> filter_adjustments_update (ih_mode_lf_adjustments h) fa
             | None \<Rightarrow> new_filter_adjustments (ih_mode_lf_adjustments h))
            (\<lambda>fa. Inr (st\<lparr>ds_filter_adjustments := Some fa\<rparr>)))"

definition apply_segmentation :: "inter_frame_header \<Rightarrow> decoder_state \<Rightarrow> decoder_state result" where
  "apply_segmentation h st =
     (case ih_update_segmentation h of
        None \<Rightarrow> Inr (st\<lparr>ds_segmentation := None\<rparr>)
      | Some _ \<Rightarrow>
          bind_result
            (case ds_segmentation st of
               Some sg \<Rightarrow> segmentation_update (ih_update_segmentation h) sg
             | None \<Rightarrow> new_segmentation (ih_update_segmentation h) (ds_width st) (ds_height st))
            (\<lambda>sg. Inr (st\<lparr>ds_segmentation := Some sg\<rparr>)))"

definition apply_inter_header :: "inter_frame_header \<Rightarrow> decoder_state \<Rightarrow> (decoder_state \<times> probability_tables) result" where
  "apply_inter_header h st =
     (let frame_probability_tables = probability_tables_update h (ds_probability_tables st);
          st = (if ih_refresh_entropy_probs h then st\<lparr>ds_probability_tables := frame_probability_tables\<rparr> else st)
      in bind_result (apply_filter_adjustments h st) (\<lambda>st.
         bind_result (apply_segmentation h st) (\<lambda>st.
         Inr (st, frame_probability_tables))))"


section \<open>References\<close>

record 'r references =
  rf_last :: 'r
  rf_golden :: 'r
  rf_alternative :: 'r

definition references_of :: "'r \<Rightarrow> 'r references" where
  "references_of raster = \<lparr>rf_last = raster, rf_golden = raster, rf_alternative = raster\<rparr>"

definition key_copy_to :: "'r \<Rightarrow> 'r references \<Rightarrow> 'r references" where
  "key_copy_to raster refs = refs\<lparr>rf_last := raster, rf_golden := raster, rf_alternative := raster\<rparr>"

definition copy_to_alternate :: "u8 option \<Rightarrow> 'r references \<Rightarrow> 'r references" where
  "copy_to_alternate c refs =
     (case c of
        None \<Rightarrow> refs
      | Some n \<Rightarrow> if n = 1 then refs\<lparr>rf_alternative := rf_last refs\<rparr>
                  else if n = 2 then refs\<lparr>rf_alternative := rf_golden refs\<rparr> else refs)"

definition copy_to_golden :: "u8 option \<Rightarrow> 'r references \<Rightarrow> 'r references" where
  "copy_to_golden c refs =
     (case c of
        None \<Rightarrow> refs
      | Some n \<Rightarrow> if n = 1 then refs\<lparr>rf_golden := rf_last refs\<rparr>
                  else if n = 2 then refs\<lparr>rf_golden := rf_alternative refs\<rparr> else refs)"

definition inter_copy_to :: "inter_frame_header \<Rightarrow> 'r \<Rightarrow> 'r references \<Rightarrow> 'r references" where
  "inter_copy_to h raster refs =
     (let refs = copy_to_alternate (ih_copy_buffer_to_alternate h) refs;
          refs = copy_to_golden (ih_copy_buffer_to_golden h) refs;
          refs = (if ih_refresh_golden_frame h then refs\<lparr>rf_golden := raster\<rparr> else refs);
          refs = (if ih_refresh_alternate_frame h then refs\<lparr>rf_alternative := raster\<rparr> else refs)
      in if ih_refresh_last h then refs\<lparr>rf_last := raster\<rparr> else refs)"

definition references_at :: "'r references \<Rightarrow> reference_frame \<Rightarrow> 'r result" where
  "references_at refs f =
     (case f of
        LAST_FRAME \<Rightarrow> Inr (rf_last refs)
      | GOLDEN_FRAME \<Rightarrow> Inr (rf_golden refs)
      | ALTREF_FRAME \<Rightarrow> Inr (rf_alternative refs)
      | _ \<Rightarrow> Inl Logic_error)"


section \<open>Hashes\<close>

text \<open>\<open>hash_combine\<close> mixes the hash of a value, given as a number, into a running hash.
  \<open>FilterAdjustments::hash\<close> takes its second range from the beginning of the mode adjustments to
  the end of the reference adjustments, that is, between two arrays.  The standard does not define what
  such a range holds: it is a parameter, like \<open>boost::hash_combine\<close>, and may depend on the adjustments
  in any way.  It is empty where a compiler places the second array right behind the first.\<close>

record hashing =
  hs_combine :: "u64 \<Rightarrow> u64 \<Rightarrow> u64"
  hs_between_arrays :: "filter_adjustments \<Rightarrow> i8 list"

definition hash_range :: "(u64 \<Rightarrow> u64 \<Rightarrow> u64) \<Rightarrow> u64 \<Rightarrow> u8 list \<Rightarrow> u64" where
  "hash_range combine seed xs = foldl (\<lambda>s x. combine s (ucast x)) seed xs"

definition signed_range :: "(u64 \<Rightarrow> u64 \<Rightarrow> u64) \<Rightarrow> u64 \<Rightarrow> i8 list \<Rightarrow> u64" where
  "signed_range combine seed xs = foldl (\<lambda>s x. combine s (scast x)) seed xs"

definition probability_tables_hash :: "(u64 \<Rightarrow> u64 \<Rightarrow> u64) \<Rightarrow> probability_tables \<Rightarrow> u64" where
  "probability_tables_hash combine pt =
     (let v = foldl (foldl (foldl (hash_range combine))) 0 (pt_coeff_probs pt);
          v = hash_range combine v (pt_y_mode_probs pt);
          v = hash_range combine v (pt_uv_mode_probs pt)
      in foldl (hash_range combine) v (pt_mv_probs pt))"

definition filter_adjustments_hash :: "hashing \<Rightarrow> filter_adjustments \<Rightarrow> u64" where
  "filter_adjustments_hash hs fa =
     (let v = signed_range (hs_combine hs) 0 (fa_ref_adjustments fa)
      in signed_range (hs_combine hs) v (hs_between_arrays hs fa))"

definition segmentation_hash :: "(u64 \<Rightarrow> u64 \<Rightarrow> u64) \<Rightarrow> segmentation \<Rightarrow> u64" where
  "segmentation_hash combine sg =
     (let v = combine 0 (of_bool (sg_absolute sg));
          v = signed_range combine v (sg_quantizer sg);
          v = signed_range combine v (sg_filter sg)
      in hash_range combine v (sg_map sg))"

definition decoder_state_hash :: "hashing \<Rightarrow> decoder_state \<Rightarrow> u64" where
  "decoder_state_hash hs st =
     (let combine = hs_combine hs;
          v = combine 0 (ucast (ds_width st));
          v = combine v (ucast (ds_height st));
          v = combine v (probability_tables_hash combine (ds_probability_tables st));
          v = (case ds_segmentation st of None \<Rightarrow> v | Some sg \<Rightarrow> combine v (segmentation_hash combine sg))
      in case ds_filter_adjustments st of None \<Rightarrow> v | Some fa \<Rightarrow> combine v (filter_adjustments_hash hs fa))"

definition decoder_hash :: "hashing \<Rightarrow> ('r \<Rightarrow> u64) \<Rightarrow> decoder_state \<Rightarrow> 'r references \<Rightarrow> u64" where
  "decoder_hash hs raster_hash st refs =
     (let combine = hs_combine hs;
          v = combine 0 (decoder_state_hash hs st);
          v = combine v (raster_hash (rf_last refs));
          v = combine v (raster_hash (rf_golden refs))
      in combine v (raster_hash (rf_alternative refs)))"

definition minihash :: "hashing \<Rightarrow> ('r \<Rightarrow> u64) \<Rightarrow> decoder_state \<Rightarrow> 'r references \<Rightarrow> u32" where
  "minihash hs raster_hash st refs = ucast (decoder_hash hs raster_hash st refs)"


section \<open>Shapes\<close>

definition probability_tables_ok :: "probability_tables \<Rightarrow> bool" where
  "probability_tables_ok pt \<longleftrightarrow>
     coeff_shape (pt_coeff_probs pt) \<and> length (pt_y_mode_probs pt) = 4 \<and> length (pt_uv_mode_probs pt) = 3 \<and>
     mv_shape (pt_mv_probs pt)"

definition filter_adjustments_ok :: "filter_adjustments \<Rightarrow> bool" where
  "filter_adjustments_ok fa \<longleftrightarrow>
     length (fa_ref_adjustments fa) = num_reference_frames \<and> length (fa_mode_adjustments fa) = 4"

definition segmentation_ok :: "u16 \<Rightarrow> u16 \<Rightarrow> segmentation \<Rightarrow> bool" where
  "segmentation_ok w h sg \<longleftrightarrow>
     length (sg_quantizer sg) = num_segments \<and> length (sg_filter sg) = num_segments \<and>
     sg_width sg = unat w \<and> sg_height sg = unat h \<and> length (sg_map sg) = unat w * unat h \<and>
     (\<forall>s\<in>set (sg_map sg). s < 4)"

definition decoder_state_ok :: "decoder_state \<Rightarrow> bool" where
  "decoder_state_ok st \<longleftrightarrow>
     0 < ds_width st \<and> 0 < ds_height st \<and> probability_tables_ok (ds_probability_tables st) \<and>
     (\<forall>sg. ds_segmentation st = Some sg \<longrightarrow> segmentation_ok (ds_width st) (ds_height st) sg) \<and>
     (\<forall>fa. ds_filter_adjustments st = Some fa \<longrightarrow> filter_adjustments_ok fa)"

lemmas state_shapes = probability_tables_ok_def filter_adjustments_ok_def segmentation_ok_def decoder_state_ok_def

lemma map2_shape2: "shape2 m n xs \<Longrightarrow> shape2 m n ys \<Longrightarrow> shape2 m n (map2 (map2 f) xs ys)"
  by (auto simp: shape2_def list_all_iff set_zip)

lemma default_tables_ok [simp]: "probability_tables_ok default_probability_tables"
  by (simp add: probability_tables_ok_def default_probability_tables_def k_default_y_mode_probs_def
      k_default_uv_mode_probs_def)

lemma updates_shapes:
  "token_prob_updates_ok upds \<Longrightarrow> coeff_shape upds"
  "mv_prob_updates_ok mv \<Longrightarrow> mv_shape mv"
  by (simp_all add: token_prob_updates_ok_def mv_prob_updates_ok_def ok_array_def coeff_shape_def mv_shape_def
      shape2_def list_all_iff)

lemma map2_coeff_shape:
  assumes "coeff_shape xs" and "coeff_shape ys"
  shows "coeff_shape (map2 (map2 (map2 (map2 f))) xs ys)"
proof -
  have "length b = COEF_BANDS \<and> list_all (shape2 PREV_COEF_CONTEXTS ENTROPY_NODES) b"
    if "b \<in> set (map2 (map2 (map2 (map2 f))) xs ys)" for b
  proof -
    obtain u v where "u \<in> set xs" "v \<in> set ys" and b: "b = map2 (map2 (map2 f)) u v"
      using \<open>b \<in> _\<close> by (auto dest: set_zip_leftD set_zip_rightD)
    then have u: "length u = COEF_BANDS" "list_all (shape2 PREV_COEF_CONTEXTS ENTROPY_NODES) u"
      and v: "length v = COEF_BANDS" "list_all (shape2 PREV_COEF_CONTEXTS ENTROPY_NODES) v"
      using assms by (auto simp: coeff_shape_def list_all_iff)
    have "shape2 PREV_COEF_CONTEXTS ENTROPY_NODES c" if "c \<in> set b" for c
    proof -
      obtain d e where "d \<in> set u" "e \<in> set v" "c = map2 (map2 f) d e"
        using \<open>c \<in> _\<close> unfolding b by (auto dest: set_zip_leftD set_zip_rightD)
      then show ?thesis
        using u(2) v(2) by (auto simp: list_all_iff intro: map2_shape2)
    qed
    then show ?thesis
      using u v by (simp add: b list_all_iff)
  qed
  then show ?thesis
    using assms by (auto simp: coeff_shape_def list_all_iff)
qed

lemma coeff_prob_update_ok:
  "token_prob_updates_ok upds \<Longrightarrow> probability_tables_ok pt \<Longrightarrow> probability_tables_ok (coeff_prob_update upds pt)"
  by (simp add: coeff_prob_update_def probability_tables_ok_def map2_coeff_shape updates_shapes)

lemma mv_prob_update_ok:
  "mv_prob_updates_ok upds \<Longrightarrow> probability_tables_ok pt \<Longrightarrow> probability_tables_ok (mv_prob_update upds pt)"
  using updates_shapes(2) [of upds]
  by (auto simp: mv_prob_update_def probability_tables_ok_def mv_shape_def intro!: map2_shape2)

lemma probability_tables_update_ok:
  assumes "inter_frame_header_ok h" and "probability_tables_ok pt"
  shows "probability_tables_ok (probability_tables_update h pt)"
proof -
  have h: "token_prob_updates_ok (ih_token_prob_update h)" "mv_prob_updates_ok (ih_mv_prob_update h)"
    "\<And>ps. ih_intra_16x16_prob h = Some ps \<Longrightarrow> length ps = 4"
    "\<And>ps. ih_intra_chroma_prob h = Some ps \<Longrightarrow> length ps = 3"
    using assms(1) by (auto simp: inter_frame_header_ok_def ok_array_def)
  have "probability_tables_ok (coeff_prob_update (ih_token_prob_update h) pt)"
    by (rule coeff_prob_update_ok [OF h(1) assms(2)])
  then show ?thesis
    unfolding probability_tables_update_def Let_def using h(3,4)
    by (intro mv_prob_update_ok [OF h(2)])
       (auto simp: probability_tables_ok_def override_def split: option.splits)
qed

text \<open>A header of the format never fails the assertions, and keeps the shapes.\<close>

lemma filter_adjustments_update_ok:
  assumes "ok_option (ok_option mode_ref_lf_delta_update_ok) (Some upd)" and "filter_adjustments_ok fa"
  shows "\<exists>fa'. filter_adjustments_update (Some upd) fa = Inr fa' \<and> filter_adjustments_ok fa'"
  using assms
  by (auto simp: filter_adjustments_update_def filter_adjustments_ok_def mode_ref_lf_delta_update_ok_def
      ok_array_def new_adjustments_def num_reference_frames_def split: option.splits)

lemma segmentation_update_ok:
  assumes "update_segmentation_ok upd" and "segmentation_ok w h sg"
  shows "\<exists>sg'. segmentation_update (Some upd) sg = Inr sg' \<and> segmentation_ok w h sg'"
  using assms
  by (auto simp: segmentation_update_def segmentation_ok_def update_segmentation_ok_def segment_feature_data_ok_def
      ok_array_def new_adjustments_def num_segments_def split: option.splits)

lemma new_objects_ok:
  "filter_adjustments_ok filter_adjustments_init"
  "segmentation_ok w h (segmentation_init (unat w) (unat h))"
  by (simp_all add: filter_adjustments_ok_def filter_adjustments_init_def segmentation_ok_def segmentation_init_def)

lemma optional_new_ok:
  assumes "ok_option update_segmentation_ok us" and "ok_option (ok_option mode_ref_lf_delta_update_ok) lf"
    and "0 < w" and "0 < h"
  shows "\<exists>sg. optional_result (us \<noteq> None) (new_segmentation us w h) = Inr sg \<and>
      (\<forall>x. sg = Some x \<longrightarrow> segmentation_ok w h x)"
    and "\<exists>fa. optional_result (lf \<noteq> None) (new_filter_adjustments lf) = Inr fa \<and>
      (\<forall>x. fa = Some x \<longrightarrow> filter_adjustments_ok x)"
proof -
  show "\<exists>sg. optional_result (us \<noteq> None) (new_segmentation us w h) = Inr sg \<and>
      (\<forall>x. sg = Some x \<longrightarrow> segmentation_ok w h x)"
  proof (cases us)
    case (Some u)
    then show ?thesis
      using segmentation_update_ok [OF _ new_objects_ok(2), of u w h] assms
      by (auto simp: optional_result_def new_segmentation_def)
  qed (simp add: optional_result_def)
  show "\<exists>fa. optional_result (lf \<noteq> None) (new_filter_adjustments lf) = Inr fa \<and>
      (\<forall>x. fa = Some x \<longrightarrow> filter_adjustments_ok x)"
  proof (cases lf)
    case (Some u)
    then show ?thesis
      using filter_adjustments_update_ok [OF _ new_objects_ok(1), of u] assms(2)
      by (auto simp: optional_result_def new_filter_adjustments_def)
  qed (simp add: optional_result_def)
qed

lemma key_header_ok:
  assumes "key_frame_header_ok h" and dims: "0 < ds_width st" "0 < ds_height st"
  shows "\<exists>st' pt. apply_key_header h st = Inr (st', pt) \<and> decoder_state_ok st' \<and> probability_tables_ok pt
    \<and> ds_width st' = ds_width st \<and> ds_height st' = ds_height st"
proof -
  have h: "ok_option update_segmentation_ok (kh_update_segmentation h)"
    "ok_option (ok_option mode_ref_lf_delta_update_ok) (kh_mode_lf_adjustments h)"
    "token_prob_updates_ok (kh_token_prob_update h)"
    using assms(1) by (simp_all add: key_frame_header_ok_def)
  obtain sg where sg: "optional_result (kh_update_segmentation h \<noteq> None)
      (new_segmentation (kh_update_segmentation h) (ds_width st) (ds_height st)) = Inr sg"
    "\<forall>x. sg = Some x \<longrightarrow> segmentation_ok (ds_width st) (ds_height st) x"
    using optional_new_ok(1) [OF h(1,2) dims] by blast
  obtain fa where fa: "optional_result (kh_mode_lf_adjustments h \<noteq> None)
      (new_filter_adjustments (kh_mode_lf_adjustments h)) = Inr fa"
    "\<forall>x. fa = Some x \<longrightarrow> filter_adjustments_ok x"
    using optional_new_ok(2) [OF h(1,2) dims] by blast
  have "probability_tables_ok (coeff_prob_update (kh_token_prob_update h) default_probability_tables)"
    by (rule coeff_prob_update_ok [OF h(3) default_tables_ok])
  then show ?thesis
    unfolding apply_key_header_def decoder_state_of_key_header_def sg(1) fa(1) bind_result_simps Let_def
    using sg(2) fa(2) dims by (simp add: decoder_state_init_def decoder_state_ok_def)
qed

lemma inter_header_ok:
  assumes "inter_frame_header_ok h" and "decoder_state_ok st"
  shows "\<exists>st' pt. apply_inter_header h st = Inr (st', pt) \<and> decoder_state_ok st' \<and> probability_tables_ok pt
    \<and> ds_width st' = ds_width st \<and> ds_height st' = ds_height st"
proof -
  let ?pt = "probability_tables_update h (ds_probability_tables st)"
  let ?st = "if ih_refresh_entropy_probs h then st\<lparr>ds_probability_tables := ?pt\<rparr> else st"
  have h: "ok_option update_segmentation_ok (ih_update_segmentation h)"
    "ok_option (ok_option mode_ref_lf_delta_update_ok) (ih_mode_lf_adjustments h)"
    using assms(1) by (simp_all add: inter_frame_header_ok_def)
  have pt: "probability_tables_ok ?pt"
    using assms probability_tables_update_ok by (simp add: decoder_state_ok_def)
  then have st: "decoder_state_ok ?st" "ds_width ?st = ds_width st" "ds_height ?st = ds_height st"
    using assms(2) by (simp_all add: decoder_state_ok_def)
  have "\<exists>s. apply_filter_adjustments h ?st = Inr s \<and> decoder_state_ok s \<and> ds_width s = ds_width st \<and> ds_height s = ds_height st"
  proof (cases "ih_mode_lf_adjustments h")
    case None
    then show ?thesis
      using st by (simp add: apply_filter_adjustments_def decoder_state_ok_def)
  next
    case (Some u)
    have "\<exists>fa. (case ds_filter_adjustments ?st of Some fa \<Rightarrow> filter_adjustments_update (ih_mode_lf_adjustments h) fa
        | None \<Rightarrow> new_filter_adjustments (ih_mode_lf_adjustments h)) = Inr fa \<and> filter_adjustments_ok fa"
      using filter_adjustments_update_ok [of u] h(2) Some st(1) new_objects_ok(1)
      by (simp add: new_filter_adjustments_def decoder_state_ok_def split: option.splits)
    then obtain fa where fa: "(case ds_filter_adjustments ?st of
          Some fa \<Rightarrow> filter_adjustments_update (ih_mode_lf_adjustments h) fa
        | None \<Rightarrow> new_filter_adjustments (ih_mode_lf_adjustments h)) = Inr fa" "filter_adjustments_ok fa"
      by blast
    have "apply_filter_adjustments h ?st = Inr (?st\<lparr>ds_filter_adjustments := Some fa\<rparr>)"
      unfolding apply_filter_adjustments_def fa(1) by (simp add: Some)
    then show ?thesis
      using st fa(2) by (simp add: decoder_state_ok_def)
  qed
  then obtain s where s: "apply_filter_adjustments h ?st = Inr s" "decoder_state_ok s"
    "ds_width s = ds_width st" "ds_height s = ds_height st" by blast
  have "\<exists>t. apply_segmentation h s = Inr t \<and> decoder_state_ok t \<and> ds_width t = ds_width st \<and> ds_height t = ds_height st"
  proof (cases "ih_update_segmentation h")
    case None
    then show ?thesis
      using s by (simp add: apply_segmentation_def decoder_state_ok_def)
  next
    case (Some u)
    have "\<exists>sg. (case ds_segmentation s of Some sg \<Rightarrow> segmentation_update (ih_update_segmentation h) sg
        | None \<Rightarrow> new_segmentation (ih_update_segmentation h) (ds_width s) (ds_height s)) = Inr sg
        \<and> segmentation_ok (ds_width s) (ds_height s) sg"
      using segmentation_update_ok [of u "ds_width s" "ds_height s"] h(1) Some s(2) new_objects_ok(2)
      by (simp add: new_segmentation_def decoder_state_ok_def split: option.splits)
    then obtain sg where sg: "(case ds_segmentation s of
          Some sg \<Rightarrow> segmentation_update (ih_update_segmentation h) sg
        | None \<Rightarrow> new_segmentation (ih_update_segmentation h) (ds_width s) (ds_height s)) = Inr sg"
      "segmentation_ok (ds_width s) (ds_height s) sg"
      by blast
    have "apply_segmentation h s = Inr (s\<lparr>ds_segmentation := Some sg\<rparr>)"
      unfolding apply_segmentation_def sg(1) by (simp add: Some)
    then show ?thesis
      using s sg(2) by (simp add: decoder_state_ok_def)
  qed
  then show ?thesis
    using pt s(1) by (auto simp: apply_inter_header_def Let_def)
qed


section \<open>Properties\<close>

text \<open>C26: The decoder state stays well formed.  Applying the header of a key frame to any state with
  dimensions, and the header of an inter frame to a well-formed state, never fails an assertion:
  it yields a well-formed state of the same dimensions and frame tables of the right shape.\<close>

theorem header_application_type:
  assumes "key_frame_header_ok k" and "inter_frame_header_ok h" and "decoder_state_ok st"
  shows "(\<exists>st' pt. apply_key_header k st = Inr (st', pt) \<and> decoder_state_ok st' \<and> probability_tables_ok pt
      \<and> ds_width st' = ds_width st \<and> ds_height st' = ds_height st) \<and>
    (\<exists>st' pt. apply_inter_header h st = Inr (st', pt) \<and> decoder_state_ok st' \<and> probability_tables_ok pt
      \<and> ds_width st' = ds_width st \<and> ds_height st' = ds_height st)"
  using key_header_ok [OF assms(1)] inter_header_ok [OF assms(2,3)] assms(3)
  by (simp add: decoder_state_ok_def)

text \<open>A key-frame and an inter-frame header without any update.\<close>

definition no_token_updates :: "u8 option list list list list" where
  "no_token_updates =
     replicate BLOCK_TYPES (replicate COEF_BANDS (replicate PREV_COEF_CONTEXTS (replicate ENTROPY_NODES None)))"

definition plain_quant_indices :: quant_indices where
  "plain_quant_indices =
     \<lparr>qi_y_ac_qi = 20, qi_y_dc = None, qi_y2_dc = None, qi_y2_ac = None, qi_uv_dc = None, qi_uv_ac = None\<rparr>"

definition plain_key_header :: key_frame_header where
  "plain_key_header =
     \<lparr>kh_color_space = False, kh_clamping_type = False, kh_update_segmentation = None, kh_filter_type = False,
      kh_loop_filter_level = 0, kh_sharpness_level = 0, kh_mode_lf_adjustments = Some None,
      kh_log2_number_of_dct_partitions = 0, kh_quant_indices = plain_quant_indices,
      kh_refresh_entropy_probs = True, kh_token_prob_update = no_token_updates, kh_prob_skip_false = None\<rparr>"

definition plain_inter_header :: inter_frame_header where
  "plain_inter_header =
     \<lparr>ih_update_segmentation =
        Some \<lparr>us_update_mb_segmentation_map = False, us_segment_feature_data = None, us_mb_segmentation_map = None\<rparr>,
      ih_filter_type = False, ih_loop_filter_level = 0, ih_sharpness_level = 0, ih_mode_lf_adjustments = None,
      ih_log2_number_of_dct_partitions = 0, ih_quant_indices = plain_quant_indices,
      ih_refresh_golden_frame = False, ih_refresh_alternate_frame = False,
      ih_copy_buffer_to_golden = Some 2, ih_copy_buffer_to_alternate = Some 2,
      ih_sign_bias_golden = False, ih_sign_bias_alternate = False, ih_refresh_entropy_probs = False,
      ih_refresh_last = True, ih_token_prob_update = no_token_updates, ih_prob_skip_false = None,
      ih_prob_inter = 1, ih_prob_references_last = 1, ih_prob_references_golden = 1,
      ih_intra_16x16_prob = Some [1, 2, 3, 4], ih_intra_chroma_prob = None,
      ih_mv_prob_update = replicate 2 (replicate MV_PROB_CNT None)\<rparr>"

lemma plain_headers_ok [simp]: "key_frame_header_ok plain_key_header" "inter_frame_header_ok plain_inter_header"
proof -
  have tokens: "token_prob_updates_ok no_token_updates"
    by (simp add: token_prob_updates_ok_def no_token_updates_def ok_array_def list_all_iff)
  have mvs: "mv_prob_updates_ok (replicate 2 (replicate MV_PROB_CNT None))"
    by (simp add: mv_prob_updates_ok_def ok_array_def list_all_iff)
  show "key_frame_header_ok plain_key_header"
    using tokens
    by (simp add: key_frame_header_ok_def plain_key_header_def quant_indices_ok_def plain_quant_indices_def unsigned_ok_def)
  show "inter_frame_header_ok plain_inter_header"
    using tokens mvs
    by (simp add: inter_frame_header_ok_def plain_inter_header_def quant_indices_ok_def plain_quant_indices_def
        unsigned_ok_def update_segmentation_ok_def ok_array_def)
qed

lemma initial_state_ok: "0 < w \<Longrightarrow> 0 < h \<Longrightarrow> decoder_state_ok (decoder_state_init w h)"
  by (simp add: decoder_state_ok_def decoder_state_init_def)

theorem header_application_type_witness:
  "\<exists>st' pt. apply_inter_header plain_inter_header (decoder_state_init 320 240) = Inr (st', pt) \<and>
     decoder_state_ok st' \<and> probability_tables_ok pt \<and> ds_width st' = 320 \<and> ds_height st' = 240"
  using header_application_type [OF plain_headers_ok initial_state_ok, of 320 240]
  by (simp add: decoder_state_init_def)

text \<open>C30: A key frame is a point of random access.  The state after the header of a key frame, and the
  tables the frame is decoded with, depend on the state before it only through the dimensions;
  and a frame that does not refresh the entropy probabilities leaves the persistent tables as
  they were (for a key frame: the default ones), whatever updates its header carries.\<close>

theorem key_frame_resets_state:
  assumes "ds_width st = ds_width st2" and "ds_height st = ds_height st2"
  shows "apply_key_header k st = apply_key_header k st2 \<and>
    (\<forall>st' pt. \<not> kh_refresh_entropy_probs k \<longrightarrow> apply_key_header k st = Inr (st', pt) \<longrightarrow>
       ds_probability_tables st' = default_probability_tables) \<and>
    (\<forall>st' pt. \<not> ih_refresh_entropy_probs h \<longrightarrow> apply_inter_header h st = Inr (st', pt) \<longrightarrow>
       ds_probability_tables st' = ds_probability_tables st)"
proof (intro conjI allI impI)
  show "apply_key_header k st = apply_key_header k st2"
    by (simp add: apply_key_header_def assms)
next
  fix st' pt
  assume "\<not> kh_refresh_entropy_probs k" and "apply_key_header k st = Inr (st', pt)"
  then show "ds_probability_tables st' = default_probability_tables"
    by (auto simp: apply_key_header_def decoder_state_of_key_header_def bind_result_eq_Inr Let_def decoder_state_init_def)
next
  fix st' pt
  assume "\<not> ih_refresh_entropy_probs h" and "apply_inter_header h st = Inr (st', pt)"
  then show "ds_probability_tables st' = ds_probability_tables st"
    by (auto simp: apply_inter_header_def apply_filter_adjustments_def apply_segmentation_def bind_result_eq_Inr Let_def
        split: option.splits)
qed

theorem key_frame_resets_state_witness:
  "apply_key_header plain_key_header (decoder_state_init 320 240) =
     apply_key_header plain_key_header
       ((decoder_state_init 320 240)\<lparr>ds_segmentation := Some (segmentation_init 320 240)\<rparr>) \<and>
   (\<exists>st' pt. apply_inter_header plain_inter_header (decoder_state_init 320 240) = Inr (st', pt) \<and>
      ds_probability_tables st' = default_probability_tables)"
proof -
  let ?st = "decoder_state_init 320 240"
  have "\<not> ih_refresh_entropy_probs plain_inter_header"
    by (simp add: plain_inter_header_def)
  moreover have "ds_probability_tables ?st = default_probability_tables"
    by (simp add: decoder_state_init_def)
  moreover obtain st' pt where "apply_inter_header plain_inter_header ?st = Inr (st', pt)"
    using inter_header_ok [OF plain_headers_ok(2) initial_state_ok, of 320 240] by auto
  ultimately show ?thesis
    using key_frame_resets_state [of ?st "?st\<lparr>ds_segmentation := Some (segmentation_init 320 240)\<rparr>"
      plain_key_header plain_inter_header] by auto
qed

text \<open>C33: The references after an inter frame.  Each of the three is the new raster if the header
  refreshes it.  Otherwise the last reference is kept; the alternate one is copied as the header
  says from the references before the frame; and the golden one is copied from the last reference
  or from the alternate reference as already copied, so that two copies that name each other
  leave the golden reference alone instead of exchanging the two.\<close>

theorem inter_references_spec:
  "rf_last (inter_copy_to h raster refs) = (if ih_refresh_last h then raster else rf_last refs) \<and>
   rf_alternative (inter_copy_to h raster refs) =
     (if ih_refresh_alternate_frame h then raster
      else if ih_copy_buffer_to_alternate h = Some 1 then rf_last refs
      else if ih_copy_buffer_to_alternate h = Some 2 then rf_golden refs
      else rf_alternative refs) \<and>
   rf_golden (inter_copy_to h raster refs) =
     (if ih_refresh_golden_frame h then raster
      else if ih_copy_buffer_to_golden h = Some 1 then rf_last refs
      else if ih_copy_buffer_to_golden h = Some 2 then
        (if ih_copy_buffer_to_alternate h = Some 1 then rf_last refs
         else if ih_copy_buffer_to_alternate h = Some 2 then rf_golden refs
         else rf_alternative refs)
      else rf_golden refs)"
  by (auto simp: inter_copy_to_def copy_to_alternate_def copy_to_golden_def Let_def split: option.splits)

end
