(* ===== verification/Loop_Filter.thy ===== *)
theory Loop_Filter
  imports Planes Frame_Chunk Mode_Data Decoder_State Transform
begin

text \<open>
  The in-loop deblocking filter (src/src/decoder/loopfilter.cc and loopfilter_filters.hh): the filters
  of one line of pixels across an edge, the limits derived from level and sharpness, and the filter of a
  macroblock in the portable version.  The registers of the line filters are signed octets; intermediate
  sums are \<open>int\<close> and cut where the code stores them in a signed char.
\<close>

section \<open>One line across an edge\<close>

definition signed_char_clamp :: "int \<Rightarrow> i8" where
  "signed_char_clamp t = word_of_int (let t = (if t < - 128 then - 128 else t) in if t > 127 then 127 else t)"

definition distance :: "u8 \<Rightarrow> u8 \<Rightarrow> int" where
  "distance a b = \<bar>uint a - uint b\<bar>"

text \<open>The pixels of a line are \<open>p3 p2 p1 p0 q0 q1 q2 q3\<close>, the edge in the middle.  The mask is \<open>- 1\<close>
  where the line is to be filtered and \<open>0\<close> elsewhere.\<close>

definition filter_mask :: "u8 \<Rightarrow> u8 \<Rightarrow> u8 list \<Rightarrow> i8" where
  "filter_mask limit blimit v =
     (let over = (\<lambda>i. distance (v ! i) (v ! (i + 1)) > uint limit) in
      of_bool (over 0 \<or> over 1 \<or> over 2 \<or> over 4 \<or> over 5 \<or> over 6 \<or>
        distance (v ! 3) (v ! 4) * 2 + distance (v ! 2) (v ! 5) div 2 > uint blimit) - 1)"

definition hevmask :: "u8 \<Rightarrow> u8 list \<Rightarrow> i8" where
  "hevmask thresh v =
     - of_bool (distance (v ! 2) (v ! 3) > uint thresh \<or> distance (v ! 5) (v ! 4) > uint thresh)"

definition flip :: "u8 \<Rightarrow> i8" where "flip v = v XOR 0x80"

definition filter_line :: "i8 \<Rightarrow> i8 \<Rightarrow> u8 list \<Rightarrow> u8 list" where
  "filter_line msk hev v =
     (let ps1 = flip (v ! 2); ps0 = flip (v ! 3); qs0 = flip (v ! 4); qs1 = flip (v ! 5);
          filter_value = signed_char_clamp (sint ps1 - sint qs1) AND hev;
          filter_value = signed_char_clamp (sint filter_value + 3 * (sint qs0 - sint ps0)) AND msk;
          filter1 = signed_drop_bit 3 (signed_char_clamp (sint filter_value + 4));
          filter2 = signed_drop_bit 3 (signed_char_clamp (sint filter_value + 3));
          oq0 = flip (signed_char_clamp (sint qs0 - sint filter1));
          op0 = flip (signed_char_clamp (sint ps0 + sint filter2));
          filter_value = signed_drop_bit 1 (filter1 + 1) AND NOT hev;
          oq1 = flip (signed_char_clamp (sint qs1 - sint filter_value));
          op1 = flip (signed_char_clamp (sint ps1 + sint filter_value)) in
      [v ! 0, v ! 1, op1, op0, oq0, oq1, v ! 6, v ! 7])"

definition tap :: "int \<Rightarrow> i8 \<Rightarrow> i8" where
  "tap weight f = signed_char_clamp (drop_bit 7 (63 + sint f * weight))"

definition mbfilter_line :: "i8 \<Rightarrow> i8 \<Rightarrow> u8 list \<Rightarrow> u8 list" where
  "mbfilter_line msk hev v =
     (let ps2 = flip (v ! 1); ps1 = flip (v ! 2); ps0 = flip (v ! 3);
          qs0 = flip (v ! 4); qs1 = flip (v ! 5); qs2 = flip (v ! 6);
          filter_value = signed_char_clamp (sint ps1 - sint qs1);
          filter_value = signed_char_clamp (sint filter_value + 3 * (sint qs0 - sint ps0)) AND msk;
          narrow = filter_value AND hev;
          filter1 = signed_drop_bit 3 (signed_char_clamp (sint narrow + 4));
          filter2 = signed_drop_bit 3 (signed_char_clamp (sint narrow + 3));
          qs0 = signed_char_clamp (sint qs0 - sint filter1);
          ps0 = signed_char_clamp (sint ps0 + sint filter2);
          wide = filter_value AND NOT hev;
          u = tap 27 wide;
          oq0 = flip (signed_char_clamp (sint qs0 - sint u)); op0 = flip (signed_char_clamp (sint ps0 + sint u));
          u = tap 18 wide;
          oq1 = flip (signed_char_clamp (sint qs1 - sint u)); op1 = flip (signed_char_clamp (sint ps1 + sint u));
          u = tap 9 wide;
          oq2 = flip (signed_char_clamp (sint qs2 - sint u)); op2 = flip (signed_char_clamp (sint ps2 + sint u)) in
      [v ! 0, op2, op1, op0, oq0, oq1, oq2, v ! 7])"


section \<open>Parameters\<close>

record filter_parameters =
  fl_type :: loop_filter_type
  fl_level :: int
  fl_sharpness :: u8

definition filter_parameters_of :: "bool \<Rightarrow> u8 \<Rightarrow> u8 \<Rightarrow> filter_parameters" where
  "filter_parameters_of use_simple_filter level sharpness =
     \<lparr>fl_type = (if use_simple_filter then Simple else Normal), fl_level = uint level, fl_sharpness = sharpness\<rparr>"

definition mode_adjustment :: "i8 list \<Rightarrow> reference_frame \<Rightarrow> mbmode \<Rightarrow> i8" where
  "mode_adjustment mode_adjustments reference y_mode =
     (if reference = CURRENT_FRAME then (if y_mode = B_PRED then mode_adjustments ! 0 else 0)
      else if y_mode = ZEROMV then mode_adjustments ! 1
      else if y_mode = SPLITMV then mode_adjustments ! 3
      else mode_adjustments ! 2)"

definition adjust_filter :: "filter_adjustments \<Rightarrow> reference_frame \<Rightarrow> mbmode \<Rightarrow> filter_parameters \<Rightarrow> filter_parameters" where
  "adjust_filter fa reference y_mode fp =
     fp\<lparr>fl_level := fl_level fp + (sint (fa_ref_adjustments fa ! nat (reference_frame_num reference)) +
       sint (mode_adjustment (fa_mode_adjustments fa) reference y_mode))\<rparr>"

definition clamp63 :: "int \<Rightarrow> u8" where
  "clamp63 input = (if input > 63 then 63 else if input < 0 then 0 else word_of_int input)"

text \<open>A loop filter; the simple one has the three limits, the normal one the threshold as well.\<close>

record simple_loop_filter =
  lf_interior_limit :: u8
  lf_macroblock_limit :: u8
  lf_subblock_limit :: u8
  lf_level :: u8

definition interior_limit_of :: "u8 \<Rightarrow> u8 \<Rightarrow> u8" where
  "interior_limit_of level sharpness =
     (let limit = level;
          limit = (if sharpness \<noteq> 0 then
             (let limit = drop_bit (if sharpness > 4 then 2 else 1) limit in
              if uint limit > 9 - uint sharpness then word_of_int (9 - uint sharpness) else limit)
           else limit) in
      if limit < 1 then 1 else limit)"

definition simple_loop_filter_of :: "filter_parameters \<Rightarrow> simple_loop_filter" where
  "simple_loop_filter_of fp =
     (let level = clamp63 (fl_level fp); interior = interior_limit_of level (fl_sharpness fp) in
      \<lparr>lf_interior_limit = interior,
       lf_macroblock_limit = word_of_int ((uint level + 2) * 2 + uint interior),
       lf_subblock_limit = word_of_int (uint level * 2 + uint interior),
       lf_level = level\<rparr>)"

definition hev_threshold :: "bool \<Rightarrow> u8 \<Rightarrow> u8" where
  "hev_threshold key_frame level =
     of_bool (level \<ge> 15) + of_bool (level \<ge> 40) + of_bool (level \<ge> 20 \<and> \<not> key_frame)"


section \<open>The edges of a macroblock\<close>

text \<open>A line through memory: eight octets, \<open>step\<close> apart, the fifth at \<open>central\<close>.\<close>

definition line_address :: "nat \<Rightarrow> nat \<Rightarrow> nat \<Rightarrow> nat" where
  "line_address central step k = central + k * step - 4 * step"

definition update_line :: "(u8 list \<Rightarrow> u8 list) \<Rightarrow> nat \<Rightarrow> nat \<Rightarrow> plane \<Rightarrow> plane option" where
  "update_line f central step p =
     (if 4 * step \<le> central then
        do { v \<leftarrow> collect (\<lambda>k. at (pl_data p) (line_address central step k)) [0..<8];
             Some (p\<lparr>pl_data := fold (\<lambda>k data. data[line_address central step k := f v ! k]) [0..<8] (pl_data p)\<rparr>) }
      else None)"

primrec each :: "('a \<Rightarrow> plane \<Rightarrow> plane option) \<Rightarrow> 'a list \<Rightarrow> plane \<Rightarrow> plane option" where
  "each f [] p = Some p"
| "each f (x # xs) p = do { p \<leftarrow> f x p; each f xs p }"

record loop_filter =
  nf_simple :: simple_loop_filter
  nf_hev_threshold :: u8

definition normal_loop_filter_of :: "bool \<Rightarrow> filter_parameters \<Rightarrow> loop_filter" where
  "normal_loop_filter_of key_frame fp =
     (let s = simple_loop_filter_of fp in \<lparr>nf_simple = s, nf_hev_threshold = hev_threshold key_frame (lf_level s)\<rparr>)"

definition mb_edge :: "loop_filter \<Rightarrow> u8 list \<Rightarrow> u8 list" where
  "mb_edge f v =
     mbfilter_line (filter_mask (lf_interior_limit (nf_simple f)) (lf_macroblock_limit (nf_simple f)) v)
       (hevmask (nf_hev_threshold f) v) v"

definition sb_edge :: "loop_filter \<Rightarrow> u8 list \<Rightarrow> u8 list" where
  "sb_edge f v =
     filter_line (filter_mask (lf_interior_limit (nf_simple f)) (lf_subblock_limit (nf_simple f)) v)
       (hevmask (nf_hev_threshold f) v) v"

text \<open>The block of a plane at a place counted in blocks; \<open>block.at\<close> asserts its range, the pixels around
  it are reached by pointer arithmetic.\<close>

definition line_at :: "(u8 list \<Rightarrow> u8 list) \<Rightarrow> nat \<Rightarrow> nat \<Rightarrow> nat \<Rightarrow> plane \<Rightarrow> plane option" where
  "line_at f step x y p =
     (if x < pl_width p \<and> y < pl_height p then update_line f (pixel_index p x y) step p else None)"

definition filter_mb_vertical :: "loop_filter \<Rightarrow> nat \<Rightarrow> nat \<Rightarrow> nat \<Rightarrow> plane \<Rightarrow> plane option" where
  "filter_mb_vertical f sz column row =
     each (\<lambda>i. line_at (mb_edge f) 1 (sz * column) (sz * row + i)) [0..<sz]"

definition filter_mb_horizontal :: "loop_filter \<Rightarrow> nat \<Rightarrow> nat \<Rightarrow> nat \<Rightarrow> plane \<Rightarrow> plane option" where
  "filter_mb_horizontal f sz column row p =
     each (\<lambda>i. line_at (mb_edge f) (pl_width p) (sz * column + i) (sz * row)) [0..<sz] p"

definition centers :: "nat \<Rightarrow> nat list" where
  "centers sz = filter (\<lambda>c. 4 dvd c) [4..<sz]"

definition filter_sb_vertical :: "loop_filter \<Rightarrow> nat \<Rightarrow> nat \<Rightarrow> nat \<Rightarrow> plane \<Rightarrow> plane option" where
  "filter_sb_vertical f sz column row =
     each (\<lambda>center. each (\<lambda>i. line_at (sb_edge f) 1 (sz * column + center) (sz * row + i)) [0..<sz]) (centers sz)"

definition filter_sb_horizontal :: "loop_filter \<Rightarrow> nat \<Rightarrow> nat \<Rightarrow> nat \<Rightarrow> plane \<Rightarrow> plane option" where
  "filter_sb_horizontal f sz column row p =
     each (\<lambda>center. each (\<lambda>i. line_at (sb_edge f) (pl_width p) (sz * column + i) (sz * row + center)) [0..<sz]) (centers sz) p"

text \<open>The three planes of a raster, and an operation on the block of a macroblock in each.\<close>

record planes =
  rp_Y :: plane
  rp_U :: plane
  rp_V :: plane

definition on_planes :: "(nat \<Rightarrow> plane \<Rightarrow> plane option) \<Rightarrow> planes \<Rightarrow> planes option" where
  "on_planes f r =
     do { y \<leftarrow> f 16 (rp_Y r); u \<leftarrow> f 8 (rp_U r); v \<leftarrow> f 8 (rp_V r); Some \<lparr>rp_Y = y, rp_U = u, rp_V = v\<rparr> }"

definition normal_filter :: "loop_filter \<Rightarrow> bool \<Rightarrow> nat \<Rightarrow> nat \<Rightarrow> planes \<Rightarrow> planes option" where
  "normal_filter f skip_subblock_edges column row r =
     do { r \<leftarrow> (if column > 0 then on_planes (\<lambda>sz. filter_mb_vertical f sz column row) r else Some r);
          r \<leftarrow> (if \<not> skip_subblock_edges then on_planes (\<lambda>sz. filter_sb_vertical f sz column row) r else Some r);
          r \<leftarrow> (if row > 0 then on_planes (\<lambda>sz. filter_mb_horizontal f sz column row) r else Some r);
          (if \<not> skip_subblock_edges then on_planes (\<lambda>sz. filter_sb_horizontal f sz column row) r else Some r) }"


section \<open>Lines are changed within bounds\<close>

lemma sint_i8_bounds: "- 128 \<le> sint (c :: i8) \<and> sint c \<le> 127"
  using sint_ge [of c] sint_lt [of c] by simp

lemma sint_i8_of_int: "- 128 \<le> y \<Longrightarrow> y \<le> 127 \<Longrightarrow> sint (word_of_int y :: i8) = y"
  by (subst sint_sbintrunc') (intro signed_take_bit_int_eq_self; simp)

lemma sint_clamp: "sint (signed_char_clamp t) = (if t < - 128 then - 128 else if t > 127 then 127 else t)"
  by (simp add: signed_char_clamp_def Let_def sint_i8_of_int)

lemma clamp_sint [simp]: "signed_char_clamp (sint c) = c"
  using sint_i8_bounds [of c] by (simp add: signed_char_clamp_def)

lemma flip_flip [simp]: "flip (flip v) = v"
  by (simp add: flip_def xor.assoc)

lemma sint_flip: "sint (flip v) = uint v - 128"
proof -
  have "\<forall>n<256. sint (flip (word_of_nat n)) = int n - 128"
    unfolding flip_def by code_simp
  moreover have "unat v < 256" using unat_lt2p [of v] by simp
  ultimately have "sint (flip (word_of_nat (unat v))) = int (unat v) - 128" by blast
  then show ?thesis by simp
qed

lemma sint_shift3: "sint (signed_drop_bit n (c :: i8)) = drop_bit n (sint c)"
  by (simp add: sint_signed_drop_bit_eq)

lemma mask_cases: "filter_mask limit blimit v \<in> {0, - 1}"
proof -
  have "of_bool b - 1 \<in> {0, - 1 :: i8}" for b by (cases b) simp_all
  then show ?thesis unfolding filter_mask_def Let_def .
qed

lemma hev_cases: "hevmask thresh v \<in> {0, - 1}"
proof -
  have "- of_bool b \<in> {0, - 1 :: i8}" for b by (cases b) simp_all
  then show ?thesis unfolding hevmask_def .
qed

lemma uint_flip: "uint (flip c) = sint c + 128"
  using sint_flip [of "flip c"] by simp

lemma moved_pixel:
  "\<bar>uint (flip (signed_char_clamp (sint (flip v) + d))) - uint v\<bar> \<le> \<bar>d\<bar>"
  "\<bar>uint (flip (signed_char_clamp (sint (flip v) - d))) - uint v\<bar> \<le> \<bar>d\<bar>"
  using sint_i8_bounds [of "flip v"] sint_flip [of v] by (auto simp: uint_flip sint_clamp)

lemma eighth_bound: "\<bar>sint (signed_drop_bit 3 (c :: i8))\<bar> \<le> 16"
proof -
  have "- 16 \<le> sint c div 8" "sint c div 8 \<le> 15" using sint_i8_bounds [of c] by linarith+
  then show ?thesis by (simp add: sint_shift3 drop_bit_eq_div)
qed

lemma half_bound:
  "\<bar>sint (c :: i8)\<bar> \<le> 16 \<Longrightarrow> \<bar>sint (signed_drop_bit 1 (c + 1))\<bar> \<le> 8"
proof -
  assume c: "\<bar>sint c\<bar> \<le> 16"
  have "c + 1 = word_of_int (sint c + 1)" by simp
  then have "sint (c + 1) = sint c + 1" using c sint_i8_of_int [of "sint c + 1"] by simp
  moreover have "\<bar>(sint c + 1) div 2\<bar> \<le> 8" using c by linarith
  ultimately show ?thesis by (simp add: sint_shift3 drop_bit_eq_div)
qed

lemma tap_bound: "0 \<le> w \<Longrightarrow> w \<le> 27 \<Longrightarrow> \<bar>sint (tap w f)\<bar> \<le> 27"
proof -
  assume w: "0 \<le> w" "w \<le> 27"
  have "- 128 * w \<le> sint f * w" "sint f * w \<le> 127 * w"
    using sint_i8_bounds [of f] w by (simp_all only: mult_right_mono)
  then have "- 3456 \<le> sint f * w" "sint f * w \<le> 3429" using w by linarith+
  then have "- 27 \<le> (63 + sint f * w) div 128" "(63 + sint f * w) div 128 \<le> 27" by linarith+
  then show ?thesis by (simp add: tap_def sint_clamp drop_bit_eq_div)
qed

lemma tap_0: "tap w 0 = 0"
  by (simp add: tap_def signed_char_clamp_def)

text \<open>What the filter of a line may do: move no pixel by more than \<open>n\<close>, and the outermost ones not at
  all.\<close>

definition moved_at_most :: "int \<Rightarrow> u8 list \<Rightarrow> u8 list \<Rightarrow> bool" where
  "moved_at_most n v w \<longleftrightarrow> length w = 8 \<and> list_all2 (\<lambda>a b. \<bar>uint b - uint a\<bar> \<le> n) v w \<and> w ! 0 = v ! 0 \<and> w ! 7 = v ! 7"

lemma eight: "length v = 8 \<Longrightarrow> v = [v ! 0, v ! 1, v ! 2, v ! 3, v ! 4, v ! 5, v ! 6, v ! 7]"
  by (intro nth_equalityI) (auto simp: nth_Cons' less_Suc_eq numeral_eq_Suc)

lemma movedI:
  assumes "length v = 8" and "0 \<le> n"
    and "\<bar>uint a - uint (v ! 1)\<bar> \<le> n" "\<bar>uint b - uint (v ! 2)\<bar> \<le> n" "\<bar>uint c - uint (v ! 3)\<bar> \<le> n"
    and "\<bar>uint d - uint (v ! 4)\<bar> \<le> n" "\<bar>uint e - uint (v ! 5)\<bar> \<le> n" "\<bar>uint f - uint (v ! 6)\<bar> \<le> n"
  shows "moved_at_most n v [v ! 0, a, b, c, d, e, f, v ! 7]"
  unfolding moved_at_most_def by (subst (1) eight [OF assms(1)]) (use assms in simp)

lemma filter_line_bound:
  assumes "length v = 8" and hev: "hev \<in> {0, - 1}"
  shows "moved_at_most 16 v (filter_line msk hev v)"
proof -
  have outer: "\<bar>sint (signed_drop_bit 1 (signed_drop_bit 3 (c :: i8) + 1) AND NOT hev)\<bar> \<le> 16" for c
    using half_bound [OF eighth_bound, of c] hev by auto
  show ?thesis
    unfolding filter_line_def Let_def
    by (intro movedI assms(1))
       (simp_all del: One_nat_def add: order.trans [OF moved_pixel(1) eighth_bound] order.trans [OF moved_pixel(2) eighth_bound]
          order.trans [OF moved_pixel(1) outer] order.trans [OF moved_pixel(2) outer])
qed

lemma mbfilter_line_bound:
  assumes "length v = 8" and hev: "hev \<in> {0, - 1}"
  shows "moved_at_most 27 v (mbfilter_line msk hev v)"
proof -
  have taps: "\<bar>sint (tap 27 f)\<bar> \<le> 27" "\<bar>sint (tap 18 f)\<bar> \<le> 27" "\<bar>sint (tap 9 f)\<bar> \<le> 27" for f
    by (simp_all add: tap_bound)
  note near = order.trans [OF moved_pixel(1) eighth_bound] order.trans [OF moved_pixel(2) eighth_bound]
  note wide = order.trans [OF moved_pixel(1) taps(1)] order.trans [OF moved_pixel(2) taps(1)]
    order.trans [OF moved_pixel(1) taps(2)] order.trans [OF moved_pixel(2) taps(2)]
    order.trans [OF moved_pixel(1) taps(3)] order.trans [OF moved_pixel(2) taps(3)]
  consider "hev = 0" | "hev = - 1" using hev by blast
  then show ?thesis
  proof cases
    case 1
    have zero: "signed_drop_bit 3 (signed_char_clamp (sint (0 :: i8) + 4)) = (0 :: i8)"
      "signed_drop_bit 3 (signed_char_clamp (sint (0 :: i8) + 3)) = (0 :: i8)" by code_simp+
    show ?thesis
      unfolding mbfilter_line_def Let_def 1 and_zero_eq zero
      by (intro movedI assms(1)) (simp_all add: wide)
  next
    case 2
    show ?thesis
      unfolding mbfilter_line_def Let_def 2
      by (intro movedI assms(1)) (simp_all add: tap_0 order.trans [OF near(1)] order.trans [OF near(2)])
  qed
qed

lemma filter_line_off:
  assumes "length v = 8"
  shows "filter_line 0 hev v = v" and "hev \<in> {0, - 1} \<Longrightarrow> mbfilter_line 0 hev v = v"
proof -
  have zero: "signed_drop_bit 3 (signed_char_clamp (sint (0 :: i8) + 4)) = (0 :: i8)"
    "signed_drop_bit 3 (signed_char_clamp (sint (0 :: i8) + 3)) = (0 :: i8)" "signed_drop_bit 1 (0 + 1) = (0 :: i8)"
    by code_simp+
  show "filter_line 0 hev v = v"
    unfolding filter_line_def Let_def and_zero_eq zero by (simp add: eight [OF assms, symmetric] del: One_nat_def)
  show "hev \<in> {0, - 1} \<Longrightarrow> mbfilter_line 0 hev v = v"
    unfolding mbfilter_line_def Let_def and_zero_eq zero_and_eq zero tap_0 by (simp add: eight [OF assms, symmetric] del: One_nat_def)
qed

text \<open>C22: On any line across an edge the deblocking filters move no pixel by more than 27, those of the
  subblock edges by no more than 16, leave the outermost pixels alone, and leave the whole line alone
  where neighbouring pixels differ by more than the limits.\<close>

theorem deblocking_bounded:
  assumes "length v = 8"
  shows "moved_at_most 27 v (mb_edge f v) \<and> moved_at_most 16 v (sb_edge f v) \<and>
    (filter_mask (lf_interior_limit (nf_simple f)) (lf_macroblock_limit (nf_simple f)) v \<noteq> 0 \<or> mb_edge f v = v) \<and>
    (filter_mask (lf_interior_limit (nf_simple f)) (lf_subblock_limit (nf_simple f)) v \<noteq> 0 \<or> sb_edge f v = v)"
  using mbfilter_line_bound [OF assms hev_cases] filter_line_bound [OF assms hev_cases]
    filter_line_off [OF assms] hev_cases
  by (auto simp: mb_edge_def sb_edge_def)

lemma deblocking_bounded_witness:
  "moved_at_most 27 [10, 10, 12, 12, 18, 19, 19, 20] (mb_edge
     (normal_loop_filter_of True \<lparr>fl_type = Normal, fl_level = 32, fl_sharpness = 0\<rparr>) [10, 10, 12, 12, 18, 19, 19, 20])"
  using deblocking_bounded [of "[10, 10, 12, 12, 18, 19, 19, 20]"] by simp

text \<open>The limits of a filter fit their octets, for every level and the sharpness of any header.\<close>

lemma uint_u8_of_int: "0 \<le> v \<Longrightarrow> v < 256 \<Longrightarrow> uint (word_of_int v :: u8) = v"
  by (simp add: uint_word_of_int)

lemma uint_clamp63: "uint (clamp63 n) = (if n > 63 then 63 else if n < 0 then 0 else n)"
  by (simp add: clamp63_def uint_u8_of_int)

lemma interior_limit_bounds:
  assumes "uint level \<le> 63" and "uint sharpness \<le> 7"
  shows "1 \<le> uint (interior_limit_of level sharpness) \<and> uint (interior_limit_of level sharpness) \<le> 63"
proof -
  define cut where "cut = (if sharpness \<noteq> 0 then
      (let limit = drop_bit (if sharpness > 4 then 2 else 1) level in
        if uint limit > 9 - uint sharpness then word_of_int (9 - uint sharpness) else limit) else level)"
  have "uint (drop_bit n level) \<le> 63" for n
  proof -
    have "unat (drop_bit n level) \<le> unat level" unfolding unat_drop_bit_eq by (simp add: drop_bit_eq_div)
    then show ?thesis using assms(1) unfolding uint_nat by linarith
  qed
  moreover have "uint (word_of_int (9 - uint sharpness) :: u8) = 9 - uint sharpness"
    by (intro uint_u8_of_int) (use assms(2) uint_ge_0 [of sharpness] in linarith)+
  moreover have "- uint sharpness \<le> 54" using uint_ge_0 [of sharpness] by linarith
  ultimately have "uint cut \<le> 63" using assms by (simp add: cut_def Let_def)
  moreover have "interior_limit_of level sharpness = (if cut < 1 then 1 else cut)"
    by (simp add: interior_limit_of_def cut_def Let_def)
  ultimately show ?thesis by (auto simp: word_less_def not_less)
qed

lemma limits_fit:
  assumes "uint (fl_sharpness fp) \<le> 7"
  shows "uint (lf_macroblock_limit (simple_loop_filter_of fp)) =
      (uint (clamp63 (fl_level fp)) + 2) * 2 + uint (interior_limit_of (clamp63 (fl_level fp)) (fl_sharpness fp)) \<and>
    uint (lf_subblock_limit (simple_loop_filter_of fp)) =
      uint (clamp63 (fl_level fp)) * 2 + uint (interior_limit_of (clamp63 (fl_level fp)) (fl_sharpness fp)) \<and>
    1 \<le> uint (lf_interior_limit (simple_loop_filter_of fp)) \<and> uint (lf_interior_limit (simple_loop_filter_of fp)) \<le> 63"
proof -
  have "uint (clamp63 (fl_level fp)) \<le> 63" "0 \<le> uint (clamp63 (fl_level fp))" by (simp_all add: uint_clamp63)
  note b = this interior_limit_bounds [OF this(1) assms]
  show ?thesis
    unfolding simple_loop_filter_of_def Let_def simple_loop_filter.simps
    using b uint_u8_of_int [of "(uint (clamp63 (fl_level fp)) + 2) * 2 + uint (interior_limit_of (clamp63 (fl_level fp)) (fl_sharpness fp))"]
      uint_u8_of_int [of "uint (clamp63 (fl_level fp)) * 2 + uint (interior_limit_of (clamp63 (fl_level fp)) (fl_sharpness fp))"]
    by (simp del: of_int_add of_int_mult)
qed


section \<open>What the filter of a macroblock touches\<close>

definition same_outside :: "(nat \<Rightarrow> nat \<Rightarrow> bool) \<Rightarrow> plane \<Rightarrow> plane \<Rightarrow> bool" where
  "same_outside touched p q \<longleftrightarrow>
     plane_valid q \<and> pl_width q = pl_width p \<and> pl_height q = pl_height p \<and>
     (\<forall>x y. \<not> touched x y \<longrightarrow> plane_at q x y = plane_at p x y)"

lemma same_outside_refl: "plane_valid p \<Longrightarrow> same_outside t p p"
  by (simp add: same_outside_def)

lemma same_outside_trans: "same_outside t p q \<Longrightarrow> same_outside t q r \<Longrightarrow> same_outside t p r"
  by (simp add: same_outside_def)

lemma each_same_outside:
  assumes "plane_valid p"
    and "\<And>x q. x \<in> set xs \<Longrightarrow> same_outside t p q \<Longrightarrow> \<exists>q'. f x q = Some q' \<and> same_outside t q q'"
  shows "\<exists>q. each f xs p = Some q \<and> same_outside t p q"
proof -
  have "\<exists>q'. each f xs q = Some q' \<and> same_outside t p q'" if "same_outside t p q" for q
    using that assms(2)
  proof (induction xs arbitrary: q)
    case (Cons x xs)
    obtain q1 where q1: "f x q = Some q1" "same_outside t q q1" using Cons.prems by auto
    have "same_outside t p q1" using Cons.prems(1) q1(2) by (rule same_outside_trans)
    from Cons.IH [OF this] Cons.prems(2) q1(1) show ?case by auto
  qed simp
  from this [OF same_outside_refl [OF assms(1)]] show ?thesis .
qed

lemma fold_updates_keep:
  "i < length data \<Longrightarrow> (\<And>k. k \<in> set ks \<Longrightarrow> a k = i \<Longrightarrow> w k = data ! i) \<Longrightarrow>
   length (fold (\<lambda>k data. data[a k := w k]) ks data) = length data \<and> fold (\<lambda>k data. data[a k := w k]) ks data ! i = data ! i"
proof (induction ks arbitrary: data)
  case (Cons k ks)
  have "data[a k := w k] ! i = data ! i"
    using Cons.prems(1) Cons.prems(2) [of k] by (cases "a k = i") simp_all
  with Cons.IH [of "data[a k := w k]"] Cons.prems show ?case by auto
qed simp

lemma fold_updates_length: "length (fold (\<lambda>k data. data[a k := w k]) ks data) = length data"
  by (induction ks arbitrary: data) simp_all

definition keeps_ends :: "(u8 list \<Rightarrow> u8 list) \<Rightarrow> bool" where
  "keeps_ends f \<longleftrightarrow> (\<forall>v. length v = 8 \<longrightarrow> length (f v) = 8 \<and> f v ! 0 = v ! 0 \<and> f v ! 7 = v ! 7)"

lemma edges_keep_ends: "keeps_ends (mb_edge f)" "keeps_ends (sb_edge f)"
  using mbfilter_line_bound [OF _ hev_cases] filter_line_bound [OF _ hev_cases]
  by (auto simp: keeps_ends_def moved_at_most_def mb_edge_def sb_edge_def)

text \<open>A line whose addresses are those of eight pixels of the plane changes at most the inner six.\<close>

lemma update_line_spec:
  assumes p: "plane_valid p" and f: "keeps_ends f" and inside: "4 * step \<le> central"
    and px: "\<And>k. k < 8 \<Longrightarrow> line_address central step k = pixel_index p (X k) (Y k) \<and> X k < pl_width p \<and> Y k < pl_height p"
    and t: "\<And>k. 0 < k \<Longrightarrow> k < 7 \<Longrightarrow> t (X k) (Y k)"
  shows "\<exists>q. update_line f central step p = Some q \<and> same_outside t p q"
proof -
  define v where "v = map (\<lambda>k. pl_data p ! line_address central step k) [0..<8]"
  define data where "data = fold (\<lambda>k data. data[line_address central step k := f v ! k]) [0..<8] (pl_data p)"
  define q where "q = p\<lparr>pl_data := data\<rparr>"
  have addr: "line_address central step k < length (pl_data p)" if "k < 8" for k
    using px [OF that] pixel_index_less [of "X k" p "Y k"] p by (simp add: plane_valid_def)
  have "collect (\<lambda>k. at (pl_data p) (line_address central step k)) [0..<8] = Some v"
    unfolding v_def using addr by (intro collect_total) simp
  then have q: "update_line f central step p = Some q"
    using inside by (simp add: update_line_def q_def data_def)
  have ends: "f v ! 0 = pl_data p ! line_address central step 0" "f v ! 7 = pl_data p ! line_address central step 7"
    using f by (simp_all add: keeps_ends_def v_def)
  have idx: "pixel_index q x y = pixel_index p x y" for x y by (simp add: pixel_index_def q_def)
  have "plane_valid q" using p by (simp add: plane_valid_def q_def data_def fold_updates_length)
  moreover have "plane_at q x y = plane_at p x y" if "\<not> t x y" for x y
  proof (cases "x < pl_width p \<and> y < pl_height p")
    case True
    have i: "pixel_index p x y < length (pl_data p)" using True pixel_index_less p by (simp add: plane_valid_def)
    have "f v ! k = pl_data p ! pixel_index p x y" if "k \<in> set [0..<8]" "line_address central step k = pixel_index p x y" for k
    proof -
      have "X k = x \<and> Y k = y" using pixel_index_inj [of p "X k" "Y k" x y] px [of k] that True by simp
      with t [of k] \<open>\<not> t x y\<close> that(1) have "k = 0 \<or> k = 7" by (cases "0 < k \<and> k < 7") auto
      then show ?thesis using ends that(2) by auto
    qed
    from fold_updates_keep [where a = "line_address central step" and w = "\<lambda>k. f v ! k" and ks = "[0..<8]", OF i this] have "data ! pixel_index p x y = pl_data p ! pixel_index p x y" "length data = length (pl_data p)"
      unfolding data_def by blast+
    moreover have "pl_data q = data" "pl_width q = pl_width p" "pl_height q = pl_height p" by (simp_all add: q_def)
    ultimately show ?thesis using True i by (simp add: plane_at_def idx at_def)
  next
    case False
    then show ?thesis by (auto simp: plane_at_def q_def)
  qed
  ultimately have "same_outside t p q" by (simp add: same_outside_def q_def)
  with q show ?thesis by blast
qed

lemma line_at_vertical:
  assumes "plane_valid p" and "keeps_ends f" and x: "4 \<le> x" "x + 4 \<le> pl_width p" and y: "y < pl_height p"
    and t: "\<And>i. x \<le> i + 3 \<Longrightarrow> i < x + 3 \<Longrightarrow> t i y"
  shows "\<exists>q. line_at f 1 x y p = Some q \<and> same_outside t p q"
proof -
  have "\<exists>q. update_line f (pixel_index p x y) 1 p = Some q \<and> same_outside t p q"
  proof (rule update_line_spec [OF assms(1,2), where X = "\<lambda>k. x + k - 4" and Y = "\<lambda>k. y"])
    show "t (x + k - 4) y" if "0 < k" "k < 7" for k using that x by (intro t) linarith+
  qed (use x y in \<open>auto simp: line_address_def pixel_index_def\<close>)
  then show ?thesis using x y by (simp add: line_at_def)
qed

lemma line_at_horizontal:
  assumes p: "plane_valid p" and "keeps_ends f" and w: "w = pl_width p" and x: "x < pl_width p"
    and y: "4 \<le> y" "y + 4 \<le> pl_height p"
    and t: "\<And>i. y \<le> i + 3 \<Longrightarrow> i < y + 3 \<Longrightarrow> t x i"
  shows "\<exists>q. line_at f w x y p = Some q \<and> same_outside t p q"
proof -
  have up: "4 * w \<le> y * w" using y by (intro mult_right_mono) simp_all
  have "\<exists>q. update_line f (pixel_index p x y) w p = Some q \<and> same_outside t p q"
  proof (rule update_line_spec [OF p assms(2), where X = "\<lambda>k. x" and Y = "\<lambda>k. y + k - 4"])
    show "4 * w \<le> pixel_index p x y" unfolding pixel_index_def using up [unfolded w] unfolding w by (rule trans_le_add1)
    show "t x (y + k - 4)" if "0 < k" "k < 7" for k using that y by (intro t) linarith+
    show "line_address (pixel_index p x y) w k = pixel_index p x (y + k - 4) \<and> x < pl_width p \<and> y + k - 4 < pl_height p"
      if "k < 8" for k
    proof -
      have "(y + k - 4) * w = y * w + k * w - 4 * w" by (simp add: diff_mult_distrib add_mult_distrib)
      moreover have "4 * w \<le> y * w + k * w" using up by (rule trans_le_add1)
      ultimately have "line_address (pixel_index p x y) w k = pixel_index p x (y + k - 4)"
        unfolding line_address_def pixel_index_def w by linarith
      then show ?thesis using that x y by auto
    qed
  qed
  then show ?thesis using x y by (simp add: line_at_def)
qed

text \<open>The reach of the filter of a macroblock: its block and three pixels to the left of it and above.\<close>

definition reach :: "nat \<Rightarrow> nat \<Rightarrow> nat \<Rightarrow> nat \<Rightarrow> nat \<Rightarrow> bool" where
  "reach sz column row x y \<longleftrightarrow>
     sz * column \<le> x + 3 \<and> x < sz * column + sz \<and> sz * row \<le> y + 3 \<and> y < sz * row + sz"

definition block_fits :: "nat \<Rightarrow> nat \<Rightarrow> nat \<Rightarrow> plane \<Rightarrow> bool" where
  "block_fits sz column row p \<longleftrightarrow>
     sz \<in> {8, 16} \<and> plane_valid p \<and> sz * column + sz \<le> pl_width p \<and> sz * row + sz \<le> pl_height p"

lemma block_fits_same: "block_fits sz column row p \<Longrightarrow> same_outside t p q \<Longrightarrow> block_fits sz column row q"
  by (simp add: block_fits_def same_outside_def)

lemma centersD: "c \<in> set (centers sz) \<Longrightarrow> sz \<in> {8, 16} \<Longrightarrow> 4 \<le> c \<and> c + 4 \<le> sz"
  by (auto simp: centers_def dvd_def)

lemma times_position: "0 < k \<Longrightarrow> sz \<in> {8, 16} \<Longrightarrow> 8 \<le> sz * (k :: nat)"
  by auto

lemma edge_filters_touch:
  assumes b: "block_fits sz column row p"
  shows "0 < column \<Longrightarrow> \<exists>q. filter_mb_vertical f sz column row p = Some q \<and> same_outside (reach sz column row) p q"
    and "\<exists>q. filter_sb_vertical f sz column row p = Some q \<and> same_outside (reach sz column row) p q"
    and "0 < row \<Longrightarrow> \<exists>q. filter_mb_horizontal f sz column row p = Some q \<and> same_outside (reach sz column row) p q"
    and "\<exists>q. filter_sb_horizontal f sz column row p = Some q \<and> same_outside (reach sz column row) p q"
proof -
  let ?t = "reach sz column row"
  have valid: "plane_valid p" and sz: "sz \<in> {8, 16}" "8 \<le> sz" using b by (auto simp: block_fits_def)
  have fits: "plane_valid q \<and> pl_width q = pl_width p \<and> sz * column + sz \<le> pl_width q \<and> sz * row + sz \<le> pl_height q"
    if "same_outside t p q" for t q
    using that b by (simp add: same_outside_def block_fits_def)
  show "\<exists>q. filter_mb_vertical f sz column row p = Some q \<and> same_outside ?t p q" if "0 < column"
    unfolding filter_mb_vertical_def
  proof (rule each_same_outside [OF valid])
    fix i q assume i: "i \<in> set [0..<sz]" and q: "same_outside ?t p q"
    show "\<exists>q'. line_at (mb_edge f) 1 (sz * column) (sz * row + i) q = Some q' \<and> same_outside ?t q q'"
      using fits [OF q] times_position [OF that sz(1)] sz(2) i
      by (intro line_at_vertical edges_keep_ends) (auto simp: reach_def)
  qed
  show "\<exists>q. filter_mb_horizontal f sz column row p = Some q \<and> same_outside ?t p q" if "0 < row"
    unfolding filter_mb_horizontal_def
  proof (rule each_same_outside [OF valid])
    fix i q assume i: "i \<in> set [0..<sz]" and q: "same_outside ?t p q"
    show "\<exists>q'. line_at (mb_edge f) (pl_width p) (sz * column + i) (sz * row) q = Some q' \<and> same_outside ?t q q'"
      using fits [OF q] times_position [OF that sz(1)] sz(2) i
      by (intro line_at_horizontal edges_keep_ends) (auto simp: reach_def)
  qed
  show "\<exists>q. filter_sb_vertical f sz column row p = Some q \<and> same_outside ?t p q"
    unfolding filter_sb_vertical_def
  proof (rule each_same_outside [OF valid], rule each_same_outside)
    fix c q assume c: "c \<in> set (centers sz)" and q: "same_outside ?t p q"
    show "plane_valid q" using fits [OF q] by simp
    fix i q' assume i: "i \<in> set [0..<sz]" and q': "same_outside ?t q q'"
    show "\<exists>r. line_at (sb_edge f) 1 (sz * column + c) (sz * row + i) q' = Some r \<and> same_outside ?t q' r"
      using fits [OF same_outside_trans [OF q q']] i centersD [OF c sz(1)]
      by (intro line_at_vertical edges_keep_ends) (auto simp: reach_def)
  qed
  show "\<exists>q. filter_sb_horizontal f sz column row p = Some q \<and> same_outside ?t p q"
    unfolding filter_sb_horizontal_def
  proof (rule each_same_outside [OF valid], rule each_same_outside)
    fix c q assume c: "c \<in> set (centers sz)" and q: "same_outside ?t p q"
    show "plane_valid q" using fits [OF q] by simp
    fix i q' assume i: "i \<in> set [0..<sz]" and q': "same_outside ?t q q'"
    show "\<exists>r. line_at (sb_edge f) (pl_width p) (sz * column + i) (sz * row + c) q' = Some r \<and> same_outside ?t q' r"
      using fits [OF same_outside_trans [OF q q']] i centersD [OF c sz(1)]
      by (intro line_at_horizontal edges_keep_ends) (auto simp: reach_def)
  qed
qed

text \<open>No parameter of a header makes a limit of the loop filter wrap: for every level and a
  sharpness of 3 bits, the edge limits are those of the standard as integers, between 1 and 193, and the
  interior limit is between 1 and 63.\<close>

theorem loop_filter_limits:
  assumes "uint (fl_sharpness fp) \<le> 7"
  shows "uint (lf_macroblock_limit (simple_loop_filter_of fp)) =
      (uint (clamp63 (fl_level fp)) + 2) * 2 + uint (lf_interior_limit (simple_loop_filter_of fp)) \<and>
    uint (lf_subblock_limit (simple_loop_filter_of fp)) =
      uint (clamp63 (fl_level fp)) * 2 + uint (lf_interior_limit (simple_loop_filter_of fp)) \<and>
    1 \<le> uint (lf_interior_limit (simple_loop_filter_of fp)) \<and> uint (lf_interior_limit (simple_loop_filter_of fp)) \<le> 63"
  using limits_fit [OF assms] by (simp add: simple_loop_filter_of_def Let_def)

lemma loop_filter_limits_witness:
  "uint (lf_macroblock_limit (simple_loop_filter_of \<lparr>fl_type = Normal, fl_level = 90, fl_sharpness = 7\<rparr>)) =
     (uint (clamp63 90) + 2) * 2 + uint (lf_interior_limit (simple_loop_filter_of \<lparr>fl_type = Normal, fl_level = 90, fl_sharpness = 7\<rparr>))"
  using loop_filter_limits [of "\<lparr>fl_type = Normal, fl_level = 90, fl_sharpness = 7\<rparr>"] by simp

definition planes_fit :: "nat \<Rightarrow> nat \<Rightarrow> planes \<Rightarrow> bool" where
  "planes_fit column row r \<longleftrightarrow>
     block_fits 16 column row (rp_Y r) \<and> block_fits 8 column row (rp_U r) \<and> block_fits 8 column row (rp_V r)"

definition planes_reached :: "nat \<Rightarrow> nat \<Rightarrow> planes \<Rightarrow> planes \<Rightarrow> bool" where
  "planes_reached column row r s \<longleftrightarrow>
     same_outside (reach 16 column row) (rp_Y r) (rp_Y s) \<and>
     same_outside (reach 8 column row) (rp_U r) (rp_U s) \<and> same_outside (reach 8 column row) (rp_V r) (rp_V s)"

lemma on_planes_reached:
  assumes "planes_fit column row r"
    and "\<And>sz p. block_fits sz column row p \<Longrightarrow> \<exists>q. g sz p = Some q \<and> same_outside (reach sz column row) p q"
  shows "\<exists>s. on_planes g r = Some s \<and> planes_fit column row s \<and> planes_reached column row r s"
proof -
  obtain y u v where q: "g 16 (rp_Y r) = Some y" "same_outside (reach 16 column row) (rp_Y r) y"
    "g 8 (rp_U r) = Some u" "same_outside (reach 8 column row) (rp_U r) u"
    "g 8 (rp_V r) = Some v" "same_outside (reach 8 column row) (rp_V r) v"
    using assms(2) assms(1) unfolding planes_fit_def by meson
  then show ?thesis using assms(1) block_fits_same
    by (auto simp: on_planes_def planes_fit_def planes_reached_def)
qed

lemma planes_reached_trans: "planes_reached c w r s \<Longrightarrow> planes_reached c w s t \<Longrightarrow> planes_reached c w r t"
  by (auto simp: planes_reached_def intro: same_outside_trans)

lemma planes_reached_refl: "planes_fit c w r \<Longrightarrow> planes_reached c w r r"
  by (simp add: planes_reached_def planes_fit_def block_fits_def same_outside_refl)

lemma edge_pass:
  assumes "planes_fit c w r"
    and "\<And>sz p. b \<Longrightarrow> block_fits sz c w p \<Longrightarrow> \<exists>q. g sz p = Some q \<and> same_outside (reach sz c w) p q"
  obtains s where "(if b then on_planes g r else Some r) = Some s" "planes_fit c w s" "planes_reached c w r s"
  using assms on_planes_reached [of c w r g] planes_reached_refl [of c w r] by (cases b) auto

lemma normal_filter_reached:
  assumes fit: "planes_fit column row r"
  shows "\<exists>s. normal_filter f skip column row r = Some s \<and> planes_fit column row s \<and> planes_reached column row r s"
proof -
  obtain r1 where r1: "(if column > 0 then on_planes (\<lambda>sz. filter_mb_vertical f sz column row) r else Some r) = Some r1"
    "planes_fit column row r1" "planes_reached column row r r1"
    using edge_pass [OF fit, where b = "column > 0" and g = "\<lambda>sz. filter_mb_vertical f sz column row"] edge_filters_touch(1) by metis
  obtain r2 where r2: "(if \<not> skip then on_planes (\<lambda>sz. filter_sb_vertical f sz column row) r1 else Some r1) = Some r2"
    "planes_fit column row r2" "planes_reached column row r1 r2"
    using edge_pass [OF r1(2), where b = "\<not> skip" and g = "\<lambda>sz. filter_sb_vertical f sz column row"] edge_filters_touch(2) by metis
  obtain r3 where r3: "(if row > 0 then on_planes (\<lambda>sz. filter_mb_horizontal f sz column row) r2 else Some r2) = Some r3"
    "planes_fit column row r3" "planes_reached column row r2 r3"
    using edge_pass [OF r2(2), where b = "row > 0" and g = "\<lambda>sz. filter_mb_horizontal f sz column row"] edge_filters_touch(3) by metis
  obtain r4 where r4: "(if \<not> skip then on_planes (\<lambda>sz. filter_sb_horizontal f sz column row) r3 else Some r3) = Some r4"
    "planes_fit column row r4" "planes_reached column row r3 r4"
    using edge_pass [OF r3(2), where b = "\<not> skip" and g = "\<lambda>sz. filter_sb_horizontal f sz column row"] edge_filters_touch(4) by metis
  show ?thesis
    unfolding normal_filter_def r1(1) bind.bind_lunit r2(1) r3(1) r4(1)
    using r4(2) planes_reached_trans [OF planes_reached_trans [OF planes_reached_trans [OF r1(3) r2(3)] r3(3)] r4(3)] by blast
qed

text \<open>C10: The loop filter of a macroblock inside the raster reads and writes no memory outside its planes,
  and changes no pixel but those of the macroblock and of the three rows above and three columns left of
  it, in each plane.\<close>

theorem loop_filter_confined:
  assumes "planes_fit column row r"
  shows "\<exists>s. normal_filter f skip column row r = Some s \<and> planes_reached column row r s"
  using normal_filter_reached [OF assms] by blast

lemma loop_filter_confined_witness:
  "let r = \<lparr>rp_Y = new_plane 32 32 9, rp_U = new_plane 16 16 8, rp_V = new_plane 16 16 7\<rparr>;
       f = normal_loop_filter_of True \<lparr>fl_type = Normal, fl_level = 32, fl_sharpness = 3\<rparr> in
   \<exists>s. normal_filter f False 1 1 r = Some s \<and> planes_reached 1 1 r s"
  unfolding Let_def
  by (rule loop_filter_confined) (simp add: planes_fit_def block_fits_def plane_valid_def new_plane_def)

end
