(* ===== verification/Macroblock_Modes.thy ===== *)
theory Macroblock_Modes
  imports Motion_Vectors Decoder_State
begin

text \<open>
  The header and the prediction modes of a macroblock: the constructor of \<open>Macroblock\<close> and
  \<open>decode_prediction_modes\<close> (src/src/decoder/macroblock.cc), \<open>Macroblock::serialize\<close> and
  \<open>encode_prediction_modes\<close> (src/src/encoder/serializer.cc).

  A macroblock holds its own range of the blocks of the frame: the sixteen luma blocks, row by
  row, and the motion vectors of the four chroma blocks.  What a block sees above and to the
  left of it, \<open>block.context()\<close>, is a block of the same macroblock or of a neighbour.  The two
  kinds of frames share the record; they differ in the type of the header.
\<close>

section \<open>Blocks and macroblocks\<close>

record y_block =
  yb_mode :: bmode
  yb_mv :: motion_vector
  yb_without_Y2 :: bool

record 'h macroblock =
  mb_segment_id_update :: "u8 option"
  mb_skip_coeff :: "bool option"
  mb_header :: 'h
  mb_y_mode :: mbmode
  mb_y2_coded :: bool
  mb_Y :: "y_block list"
  mb_uv_mode :: mbmode
  mb_uv_mvs :: "motion_vector list"

record 'h mb_context =
  cx_position :: mb_position
  cx_above :: "'h macroblock option"
  cx_left :: "'h macroblock option"
  cx_above_left :: "'h macroblock option"

record inter_mb_header =
  imh_is_inter :: bool
  imh_ref_frame_sel1 :: "bool option"
  imh_ref_frame_sel2 :: "bool option"
  imh_flipped :: bool
  imh_partition_id :: "int option"

text \<open>A cell is the position of a luma block in its macroblock, as column and row.\<close>

type_synonym cell = "nat \<times> nat"

definition cell_index :: "cell \<Rightarrow> nat" where
  "cell_index c = 4 * snd c + fst c"

definition subblocks :: "cell list" where
  "subblocks = [(0, 0), (1, 0), (2, 0), (3, 0), (0, 1), (1, 1), (2, 1), (3, 1),
                (0, 2), (1, 2), (2, 2), (3, 2), (0, 3), (1, 3), (2, 3), (3, 3)]"

definition fresh_block :: y_block where
  "fresh_block = \<lparr>yb_mode = B_DC_PRED, yb_mv = mv_zero, yb_without_Y2 = False\<rparr>"

definition fresh_macroblock :: "u8 option \<Rightarrow> bool option \<Rightarrow> 'h \<Rightarrow> 'h macroblock" where
  "fresh_macroblock segment_id_update skip_coeff header =
     \<lparr>mb_segment_id_update = segment_id_update, mb_skip_coeff = skip_coeff, mb_header = header,
      mb_y_mode = DC_PRED, mb_y2_coded = True, mb_Y = replicate 16 fresh_block,
      mb_uv_mode = DC_PRED, mb_uv_mvs = replicate 4 mv_zero\<rparr>"

definition block_at :: "y_block list \<Rightarrow> cell \<Rightarrow> y_block option" where
  "block_at ys c = at ys (cell_index c)"

definition block_above :: "'h mb_context \<Rightarrow> y_block list \<Rightarrow> cell \<Rightarrow> y_block option" where
  "block_above cx ys c =
     (if snd c > 0 then block_at ys (fst c, snd c - 1)
      else case cx_above cx of None \<Rightarrow> None | Some mb \<Rightarrow> block_at (mb_Y mb) (fst c, 3))"

definition block_left :: "'h mb_context \<Rightarrow> y_block list \<Rightarrow> cell \<Rightarrow> y_block option" where
  "block_left cx ys c =
     (if fst c > 0 then block_at ys (fst c - 1, snd c)
      else case cx_left cx of None \<Rightarrow> None | Some mb \<Rightarrow> block_at (mb_Y mb) (3, snd c))"

definition set_y_mode :: "mbmode \<Rightarrow> 'h macroblock \<Rightarrow> 'h macroblock" where
  "set_y_mode y mb =
     mb\<lparr>mb_y_mode := y, mb_y2_coded := (if y = B_PRED \<or> y = SPLITMV then False else mb_y2_coded mb)\<rparr>"

fun implied_subblock_mode :: "mbmode \<Rightarrow> bmode option" where
  "implied_subblock_mode DC_PRED = Some B_DC_PRED"
| "implied_subblock_mode V_PRED = Some B_VE_PRED"
| "implied_subblock_mode H_PRED = Some B_HE_PRED"
| "implied_subblock_mode TM_PRED = Some B_TM_PRED"
| "implied_subblock_mode _ = None"

text \<open>The blocks of a macroblock are read partition by partition: the first block of a partition
  is read and copied to the others.  \<open>Y_.forall\<close> visits the blocks one by one.\<close>

definition copy_block :: "y_block \<Rightarrow> cell list \<Rightarrow> y_block list \<Rightarrow> y_block list" where
  "copy_block b part ys = foldl (\<lambda>ys c. ys[cell_index c := b]) ys part"

primrec read_parts ::
  "(y_block list \<Rightarrow> cell \<Rightarrow> y_block reader) \<Rightarrow> cell list list \<Rightarrow> y_block list \<Rightarrow> y_block list reader" where
  "read_parts step [] ys d = Some (ys, d)"
| "read_parts step (part # parts) ys d =
     (if part = [] then None
      else do { (b, d) \<leftarrow> step ys (hd part) d;
                read_parts step parts (copy_block b part ys) d })"

definition write_parts :: "(y_block list \<Rightarrow> cell \<Rightarrow> writer) \<Rightarrow> cell list list \<Rightarrow> y_block list \<Rightarrow> writer" where
  "write_parts put parts ys = enc_seq (map (\<lambda>part. put ys (hd part)) parts)"

definition each_subblock :: "cell list list" where
  "each_subblock = map (\<lambda>c. [c]) subblocks"


section \<open>Modes of a key frame\<close>

definition kf_b_probs :: "'h mb_context \<Rightarrow> y_block list \<Rightarrow> cell \<Rightarrow> u8 list option" where
  "kf_b_probs cx ys c =
     (let mode_of = (\<lambda>b. case b of None \<Rightarrow> B_DC_PRED | Some b \<Rightarrow> yb_mode b) in
      do { row \<leftarrow> at kf_b_mode_probs (nat (bmode_num (mode_of (block_above cx ys c))));
           at row (nat (bmode_num (mode_of (block_left cx ys c)))) })"

definition read_kf_block :: "'h mb_context \<Rightarrow> mbmode \<Rightarrow> y_block list \<Rightarrow> cell \<Rightarrow> y_block reader" where
  "read_kf_block cx y ys c d =
     do { b \<leftarrow> block_at ys c;
          if y = B_PRED then
            do { probs \<leftarrow> kf_b_probs cx ys c;
                 (m, d) \<leftarrow> dec_symbol bmode_of b_mode_tree probs d;
                 Some (b\<lparr>yb_mode := m, yb_without_Y2 := True\<rparr>, d) }
          else do { m \<leftarrow> implied_subblock_mode y; Some (b\<lparr>yb_mode := m\<rparr>, d) } }"

definition write_kf_block :: "'h mb_context \<Rightarrow> y_block list \<Rightarrow> cell \<Rightarrow> writer" where
  "write_kf_block cx ys c e =
     do { b \<leftarrow> block_at ys c;
          probs \<leftarrow> kf_b_probs cx ys c;
          enc_symbol bmode_num b_mode_tree probs (yb_mode b) e }"

definition kf_decode_prediction_modes :: "'h mb_context \<Rightarrow> 'h macroblock \<Rightarrow> 'h macroblock reader" where
  "kf_decode_prediction_modes cx mb d =
     do { (y, d) \<leftarrow> dec_symbol mbmode_of kf_y_mode_tree kf_y_mode_probs d;
          (ys, d) \<leftarrow> read_parts (read_kf_block cx y) each_subblock (mb_Y mb) d;
          (uv, d) \<leftarrow> dec_symbol mbmode_of uv_mode_tree kf_uv_mode_probs d;
          Some ((set_y_mode y mb)\<lparr>mb_Y := ys, mb_uv_mode := uv\<rparr>, d) }"

definition kf_encode_prediction_modes :: "'h mb_context \<Rightarrow> 'h macroblock \<Rightarrow> writer" where
  "kf_encode_prediction_modes cx mb =
     enc_seq
       [enc_symbol mbmode_num kf_y_mode_tree kf_y_mode_probs (mb_y_mode mb),
        (if mb_y_mode mb = B_PRED then write_parts (write_kf_block cx) each_subblock (mb_Y mb) else enc_seq []),
        enc_symbol mbmode_num uv_mode_tree kf_uv_mode_probs (mb_uv_mode mb)]"


section \<open>The header of an inter-frame macroblock\<close>

definition imh_reference :: "inter_mb_header \<Rightarrow> reference_frame option" where
  "imh_reference h =
     (if \<not> imh_is_inter h then Some CURRENT_FRAME
      else do { sel1 \<leftarrow> imh_ref_frame_sel1 h;
                if \<not> sel1 then Some LAST_FRAME
                else do { sel2 \<leftarrow> imh_ref_frame_sel2 h;
                          Some (if \<not> sel2 then GOLDEN_FRAME else ALTREF_FRAME) } })"

definition imh_set_reference :: "reference_frame \<Rightarrow> inter_mb_header \<Rightarrow> inter_mb_header" where
  "imh_set_reference ref h =
     (let h = h\<lparr>imh_is_inter := True, imh_ref_frame_sel1 := None, imh_ref_frame_sel2 := None\<rparr> in
      case ref of
        CURRENT_FRAME \<Rightarrow> h\<lparr>imh_is_inter := False\<rparr>
      | LAST_FRAME \<Rightarrow> h\<lparr>imh_ref_frame_sel1 := Some False\<rparr>
      | GOLDEN_FRAME \<Rightarrow> h\<lparr>imh_ref_frame_sel1 := Some True, imh_ref_frame_sel2 := Some False\<rparr>
      | ALTREF_FRAME \<Rightarrow> h\<lparr>imh_ref_frame_sel1 := Some True, imh_ref_frame_sel2 := Some True\<rparr>)"

text \<open>The header that error concealment supplies when the data has run out.\<close>

definition imh_concealed :: inter_mb_header where
  "imh_concealed =
     \<lparr>imh_is_inter = True, imh_ref_frame_sel1 = Some False, imh_ref_frame_sel2 = None,
      imh_flipped = False, imh_partition_id = None\<rparr>"

definition flipped_for :: "inter_frame_header \<Rightarrow> inter_mb_header \<Rightarrow> bool option" where
  "flipped_for fh h =
     do { ref \<leftarrow> imh_reference h;
          Some (ref = GOLDEN_FRAME \<and> ih_sign_bias_golden fh \<or> ref = ALTREF_FRAME \<and> ih_sign_bias_alternate fh) }"

definition read_inter_mb_header :: "inter_frame_header \<Rightarrow> inter_mb_header reader" where
  "read_inter_mb_header fh d =
     do { (is_inter, d) \<leftarrow> bd_get (ih_prob_inter fh) d;
          (sel1, d) \<leftarrow> dec_optional (bd_get (ih_prob_references_last fh)) is_inter d;
          (sel2, d) \<leftarrow> dec_optional (bd_get (ih_prob_references_golden fh)) (get_or False sel1) d;
          let h = \<lparr>imh_is_inter = is_inter, imh_ref_frame_sel1 = sel1, imh_ref_frame_sel2 = sel2,
                   imh_flipped = False, imh_partition_id = None\<rparr>;
          flipped \<leftarrow> flipped_for fh h;
          Some (h\<lparr>imh_flipped := flipped\<rparr>, d) }"

definition write_inter_mb_header :: "inter_frame_header \<Rightarrow> inter_mb_header \<Rightarrow> writer" where
  "write_inter_mb_header fh h =
     enc_seq
       [be_put (imh_is_inter h) (ih_prob_inter fh),
        enc_optional (\<lambda>b. be_put b (ih_prob_references_last fh)) (imh_ref_frame_sel1 h),
        enc_optional (\<lambda>b. be_put b (ih_prob_references_golden fh)) (imh_ref_frame_sel2 h)]"


section \<open>Modes of an inter frame\<close>

definition read_intra_block :: "mbmode \<Rightarrow> y_block list \<Rightarrow> cell \<Rightarrow> y_block reader" where
  "read_intra_block y ys c d =
     do { b \<leftarrow> block_at ys c;
          if y = B_PRED then
            do { (m, d) \<leftarrow> dec_symbol bmode_of b_mode_tree invariant_b_mode_probs d;
                 Some (b\<lparr>yb_mode := m, yb_without_Y2 := True\<rparr>, d) }
          else do { m \<leftarrow> implied_subblock_mode y; Some (b\<lparr>yb_mode := m\<rparr>, d) } }"

definition write_intra_block :: "y_block list \<Rightarrow> cell \<Rightarrow> writer" where
  "write_intra_block ys c e =
     do { b \<leftarrow> block_at ys c; enc_symbol bmode_num b_mode_tree invariant_b_mode_probs (yb_mode b) e }"

definition context_mv :: "y_block option \<Rightarrow> motion_vector" where
  "context_mv b = (case b of None \<Rightarrow> mv_zero | Some b \<Rightarrow> yb_mv b)"

definition submv_ref_index :: "motion_vector \<Rightarrow> motion_vector \<Rightarrow> nat" where
  "submv_ref_index left_mv above_mv =
     (if left_mv = above_mv \<and> mv_empty left_mv then 4
      else if left_mv = above_mv then 3
      else if mv_empty above_mv then 2
      else if mv_empty left_mv then 1
      else 0)"

definition read_subblock_inter_prediction ::
  "'h mb_context \<Rightarrow> motion_vector \<Rightarrow> u8 list list \<Rightarrow> y_block list \<Rightarrow> cell \<Rightarrow> y_block reader" where
  "read_subblock_inter_prediction cx best_mv mv_probs ys c d =
     (let left_mv = context_mv (block_left cx ys c);
          above_mv = context_mv (block_above cx ys c) in
      do { b \<leftarrow> block_at ys c;
           probs \<leftarrow> at submv_ref_probs2 (submv_ref_index left_mv above_mv);
           (m, d) \<leftarrow> dec_symbol bmode_of submv_ref_tree probs d;
           let b = b\<lparr>yb_mode := m, yb_without_Y2 := True\<rparr>;
           case m of
             LEFT4X4 \<Rightarrow> Some (b\<lparr>yb_mv := left_mv\<rparr>, d)
           | ABOVE4X4 \<Rightarrow> Some (b\<lparr>yb_mv := above_mv\<rparr>, d)
           | ZERO4X4 \<Rightarrow> if mv_empty (yb_mv b) then Some (b, d) else None
           | NEW4X4 \<Rightarrow> do { (mv, d) \<leftarrow> read_mv mv_probs d; Some (b\<lparr>yb_mv := mv_plus mv best_mv\<rparr>, d) }
           | _ \<Rightarrow> None })"

definition write_subblock_inter_prediction ::
  "'h mb_context \<Rightarrow> motion_vector \<Rightarrow> u8 list list \<Rightarrow> y_block list \<Rightarrow> cell \<Rightarrow> writer" where
  "write_subblock_inter_prediction cx best_mv mv_probs ys c e =
     (let left_mv = context_mv (block_left cx ys c);
          above_mv = context_mv (block_above cx ys c) in
      do { b \<leftarrow> block_at ys c;
           probs \<leftarrow> at submv_ref_probs2 (submv_ref_index left_mv above_mv);
           enc_seq
             ([enc_symbol bmode_num submv_ref_tree probs (yb_mode b)]
              @ (if yb_mode b = NEW4X4 then [write_mv mv_probs (mv_minus (yb_mv b) best_mv)] else [])) e })"

text \<open>What the census sees of a neighbour; its base vector is that of its last block.\<close>

definition base_motion_vector :: "'h macroblock \<Rightarrow> motion_vector option" where
  "base_motion_vector mb = map_option yb_mv (block_at (mb_Y mb) (3, 3))"

definition census_view :: "inter_mb_header macroblock \<Rightarrow> census_mb option" where
  "census_view mb =
     do { mv \<leftarrow> base_motion_vector mb;
          Some \<lparr>cm_inter_coded = imh_is_inter (mb_header mb), cm_base_mv = mv,
                cm_flipped = imh_flipped (mb_header mb), cm_split = (mb_y_mode mb = SPLITMV)\<rparr> }"

definition census_neighbour :: "inter_mb_header macroblock option \<Rightarrow> census_mb option option" where
  "census_neighbour n = (case n of None \<Rightarrow> Some None | Some mb \<Rightarrow> map_option Some (census_view mb))"

definition census_at :: "inter_mb_header mb_context \<Rightarrow> bool \<Rightarrow> scorer option" where
  "census_at cx flipped =
     do { a \<leftarrow> census_neighbour (cx_above cx);
          l \<leftarrow> census_neighbour (cx_left cx);
          al \<leftarrow> census_neighbour (cx_above_left cx);
          motion_vector_census flipped a l al }"

definition set_base_motion_vector :: "motion_vector \<Rightarrow> 'h macroblock \<Rightarrow> 'h macroblock" where
  "set_base_motion_vector mv mb = mb\<lparr>mb_Y := (mb_Y mb)[15 := ((mb_Y mb) ! 15)\<lparr>yb_mv := mv\<rparr>]\<rparr>"

definition read_inter_motion ::
  "inter_mb_header mb_context \<Rightarrow> u8 list list \<Rightarrow> scorer \<Rightarrow> inter_mb_header macroblock \<Rightarrow>
   inter_mb_header macroblock reader" where
  "read_inter_motion cx mv_probs census mb d =
     (case mb_y_mode mb of
        NEARESTMV \<Rightarrow> do { v \<leftarrow> nearest census;
                          Some (set_base_motion_vector (scorer_clamp v (cx_position cx)) mb, d) }
      | NEARMV \<Rightarrow> do { v \<leftarrow> near census;
                       Some (set_base_motion_vector (scorer_clamp v (cx_position cx)) mb, d) }
      | ZEROMV \<Rightarrow> Some (set_base_motion_vector mv_zero mb, d)
      | NEWMV \<Rightarrow> do { (mv, d) \<leftarrow> read_mv mv_probs d;
                      v \<leftarrow> best census;
                      Some (set_base_motion_vector (mv_plus mv (scorer_clamp v (cx_position cx))) mb, d) }
      | SPLITMV \<Rightarrow> do { (pid, d) \<leftarrow> bd_tree split_mv_tree split_mv_probs d;
                        parts \<leftarrow> at mv_partitions (nat pid);
                        v \<leftarrow> best census;
                        (ys, d) \<leftarrow> read_parts
                          (read_subblock_inter_prediction cx (scorer_clamp v (cx_position cx)) mv_probs)
                          parts (mb_Y mb) d;
                        Some (mb\<lparr>mb_header := (mb_header mb)\<lparr>imh_partition_id := Some pid\<rparr>, mb_Y := ys\<rparr>, d) }
      | _ \<Rightarrow> None)"

text \<open>The vectors of the luma blocks, unless they are split, and of the chroma blocks follow
  from those that were read.\<close>

definition spread_base :: "'h macroblock \<Rightarrow> 'h macroblock option" where
  "spread_base mb =
     (if mb_y_mode mb \<noteq> SPLITMV then
        do { mv \<leftarrow> base_motion_vector mb; Some (mb\<lparr>mb_Y := map (\<lambda>b. b\<lparr>yb_mv := mv\<rparr>) (mb_Y mb)\<rparr>) }
      else Some mb)"

definition chroma_vector :: "y_block list \<Rightarrow> cell \<Rightarrow> motion_vector option" where
  "chroma_vector ys c =
     (let column = fst c; row = snd c in
      do { s1 \<leftarrow> block_at ys (column * 2, row * 2);
           s2 \<leftarrow> block_at ys (column * 2 + 1, row * 2);
           s3 \<leftarrow> block_at ys (column * 2, row * 2 + 1);
           s4 \<leftarrow> block_at ys (column * 2 + 1, row * 2 + 1);
           Some (luma_to_chroma (yb_mv s1) (yb_mv s2) (yb_mv s3) (yb_mv s4)) })"

definition chroma_vectors :: "y_block list \<Rightarrow> motion_vector list option" where
  "chroma_vectors ys =
     do { a \<leftarrow> chroma_vector ys (0, 0); b \<leftarrow> chroma_vector ys (1, 0);
          c \<leftarrow> chroma_vector ys (0, 1); d \<leftarrow> chroma_vector ys (1, 1); Some [a, b, c, d] }"

definition derive_vectors :: "inter_mb_header macroblock \<Rightarrow> inter_mb_header macroblock option" where
  "derive_vectors mb =
     (if imh_is_inter (mb_header mb) then
        do { mb \<leftarrow> spread_base mb; uv \<leftarrow> chroma_vectors (mb_Y mb); Some (mb\<lparr>mb_uv_mvs := uv\<rparr>) }
      else Some mb)"

definition read_inter_intra_modes ::
  "probability_tables \<Rightarrow> inter_mb_header macroblock \<Rightarrow> inter_mb_header macroblock reader" where
  "read_inter_intra_modes pt mb d =
     do { (y, d) \<leftarrow> dec_symbol mbmode_of y_mode_tree (pt_y_mode_probs pt) d;
          (ys, d) \<leftarrow> read_parts (read_intra_block y) each_subblock (mb_Y mb) d;
          (uv, d) \<leftarrow> dec_symbol mbmode_of uv_mode_tree (pt_uv_mode_probs pt) d;
          Some ((set_y_mode y mb)\<lparr>mb_Y := ys, mb_uv_mode := uv\<rparr>, d) }"

definition read_inter_inter_modes ::
  "inter_mb_header mb_context \<Rightarrow> probability_tables \<Rightarrow> bool \<Rightarrow> inter_mb_header macroblock \<Rightarrow>
   inter_mb_header macroblock reader" where
  "read_inter_inter_modes cx pt error_concealment mb d =
     do { census \<leftarrow> census_at cx (imh_flipped (mb_header mb));
          counts \<leftarrow> mode_contexts census;
          probs \<leftarrow> mv_ref_probs counts;
          (mb, d) \<leftarrow> (if \<not> (error_concealment \<and> \<not> bd_valid d)
                      then do { (y, d) \<leftarrow> dec_symbol mbmode_of mv_ref_tree probs d; Some (set_y_mode y mb, d) }
                      else Some (mb, d));
          read_inter_motion cx (pt_mv_probs pt) census mb d }"

definition inter_decode_prediction_modes ::
  "inter_mb_header mb_context \<Rightarrow> probability_tables \<Rightarrow> bool \<Rightarrow> inter_mb_header macroblock \<Rightarrow>
   inter_mb_header macroblock reader" where
  "inter_decode_prediction_modes cx pt error_concealment mb d =
     (let mb = (if error_concealment \<and> \<not> bd_valid d
                then set_y_mode ZEROMV (mb\<lparr>mb_header := (mb_header mb)\<lparr>imh_is_inter := True\<rparr>\<rparr>)
                else mb) in
      do { (mb, d) \<leftarrow> (if \<not> imh_is_inter (mb_header mb) then read_inter_intra_modes pt mb d
                       else read_inter_inter_modes cx pt error_concealment mb d);
           mb \<leftarrow> derive_vectors mb;
           Some (mb, d) })"

definition write_inter_motion ::
  "inter_mb_header mb_context \<Rightarrow> u8 list list \<Rightarrow> scorer \<Rightarrow> inter_mb_header macroblock \<Rightarrow> writer" where
  "write_inter_motion cx mv_probs census mb e =
     (if mb_y_mode mb = NEWMV then
        do { base \<leftarrow> base_motion_vector mb;
             v \<leftarrow> best census;
             write_mv mv_probs (mv_minus base (scorer_clamp v (cx_position cx))) e }
      else if mb_y_mode mb = SPLITMV then
        do { pid \<leftarrow> imh_partition_id (mb_header mb);
             e \<leftarrow> enc_tree split_mv_tree split_mv_probs pid e;
             parts \<leftarrow> at mv_partitions (nat pid);
             v \<leftarrow> best census;
             write_parts (write_subblock_inter_prediction cx (scorer_clamp v (cx_position cx)) mv_probs)
               parts (mb_Y mb) e }
      else Some e)"

definition inter_encode_prediction_modes ::
  "inter_mb_header mb_context \<Rightarrow> probability_tables \<Rightarrow> inter_mb_header macroblock \<Rightarrow> writer" where
  "inter_encode_prediction_modes cx pt mb e =
     (if \<not> imh_is_inter (mb_header mb) then
        enc_seq
          [enc_symbol mbmode_num y_mode_tree (pt_y_mode_probs pt) (mb_y_mode mb),
           (if mb_y_mode mb = B_PRED then write_parts write_intra_block each_subblock (mb_Y mb) else enc_seq []),
           enc_symbol mbmode_num uv_mode_tree (pt_uv_mode_probs pt) (mb_uv_mode mb)] e
      else
        do { census \<leftarrow> census_at cx (imh_flipped (mb_header mb));
             counts \<leftarrow> mode_contexts census;
             probs \<leftarrow> mv_ref_probs counts;
             e \<leftarrow> enc_symbol mbmode_num mv_ref_tree probs (mb_y_mode mb) e;
             write_inter_motion cx (pt_mv_probs pt) census mb e })"


section \<open>A whole macroblock\<close>

text \<open>The parts of the frame header that a macroblock is read with.\<close>

record 'fh frame_params =
  fp_header :: 'fh
  fp_update_map :: bool
  fp_prob_skip_false :: "u8 option"
  fp_tree_probs :: "u8 list"

definition updates_map :: "update_segmentation option \<Rightarrow> bool" where
  "updates_map us = (case us of None \<Rightarrow> False | Some us \<Rightarrow> us_update_mb_segmentation_map us)"

text \<open>\<open>BoolDecoder::zero_decoder()\<close> has no bytes; whatever its registers, it answers every
  question with zero, so that its state, which outlives the macroblock, makes no difference.\<close>

definition zero_decoder :: bool_decoder where
  "zero_decoder = bool_decoder_init [] True"

definition concealing :: "bool \<Rightarrow> 'a reader \<Rightarrow> 'a reader" where
  "concealing error_concealment rd d =
     (if error_concealment \<and> \<not> bd_valid d then do { (x, _) \<leftarrow> rd zero_decoder; Some (x, d) } else rd d)"

definition dec_segment_id :: "u8 list \<Rightarrow> u8 reader" where
  "dec_segment_id probs d = do { (v, d) \<leftarrow> bd_tree segment_id_tree probs d; Some (word_of_int v, d) }"

definition enc_segment_id :: "u8 list \<Rightarrow> u8 \<Rightarrow> writer" where
  "enc_segment_id probs s = enc_tree segment_id_tree probs (uint s)"

definition read_macroblock ::
  "'h reader \<Rightarrow> 'h \<Rightarrow> ('h macroblock \<Rightarrow> 'h macroblock reader) \<Rightarrow> 'fh frame_params \<Rightarrow> bool \<Rightarrow>
   'h macroblock reader" where
  "read_macroblock read_header concealed_header decode_modes fp error_concealment d =
     do { (segment_id_update, d) \<leftarrow>
            concealing error_concealment (dec_optional (dec_segment_id (fp_tree_probs fp)) (fp_update_map fp)) d;
          (skip_coeff, d) \<leftarrow>
            concealing error_concealment
              (dec_optional (bd_get (get_or 0 (fp_prob_skip_false fp))) (fp_prob_skip_false fp \<noteq> None)) d;
          (header, d) \<leftarrow>
            (if error_concealment \<and> \<not> bd_valid d then Some (concealed_header, d) else read_header d);
          decode_modes (fresh_macroblock segment_id_update skip_coeff header) d }"

definition write_macroblock ::
  "('h \<Rightarrow> writer) \<Rightarrow> ('h macroblock \<Rightarrow> writer) \<Rightarrow> 'fh frame_params \<Rightarrow> 'h macroblock \<Rightarrow> writer" where
  "write_macroblock write_header encode_modes fp mb e =
     do { e \<leftarrow> enc_optional (enc_segment_id (fp_tree_probs fp)) (mb_segment_id_update mb) e;
          _ \<leftarrow> (if mb_skip_coeff mb \<noteq> None \<and> fp_prob_skip_false fp = None then None else Some ());
          enc_seq
            [enc_optional (\<lambda>b. be_put b (get_or 0 (fp_prob_skip_false fp))) (mb_skip_coeff mb),
             write_header (mb_header mb),
             encode_modes mb] e }"

definition read_key_mb ::
  "key_frame_header frame_params \<Rightarrow> bool \<Rightarrow> unit mb_context \<Rightarrow> unit macroblock reader" where
  "read_key_mb fp error_concealment cx =
     read_macroblock (\<lambda>d. Some ((), d)) () (kf_decode_prediction_modes cx) fp error_concealment"

definition write_key_mb :: "key_frame_header frame_params \<Rightarrow> unit mb_context \<Rightarrow> unit macroblock \<Rightarrow> writer" where
  "write_key_mb fp cx = write_macroblock (\<lambda>_. enc_seq []) (kf_encode_prediction_modes cx) fp"

definition read_inter_mb ::
  "inter_frame_header frame_params \<Rightarrow> probability_tables \<Rightarrow> bool \<Rightarrow> inter_mb_header mb_context \<Rightarrow>
   inter_mb_header macroblock reader" where
  "read_inter_mb fp pt error_concealment cx =
     read_macroblock (read_inter_mb_header (fp_header fp)) imh_concealed
       (inter_decode_prediction_modes cx pt error_concealment) fp error_concealment"

definition write_inter_mb ::
  "inter_frame_header frame_params \<Rightarrow> probability_tables \<Rightarrow> inter_mb_header mb_context \<Rightarrow>
   inter_mb_header macroblock \<Rightarrow> writer" where
  "write_inter_mb fp pt cx =
     write_macroblock (write_inter_mb_header (fp_header fp)) (inter_encode_prediction_modes cx pt) fp"


section \<open>Reading blocks in partitions\<close>

text \<open>The cells of the same macroblock that a cell looks at, and a check that a list of partitions
  visits them before it: the cells that the first block of a partition looks at lie outside this
  and the later partitions, and the partitions are disjoint.\<close>

definition inner_neighbours :: "cell \<Rightarrow> cell list" where
  "inner_neighbours c =
     (if snd c > 0 then [(fst c, snd c - 1)] else []) @ (if fst c > 0 then [(fst c - 1, snd c)] else [])"

definition cell_ok :: "cell \<Rightarrow> bool" where
  "cell_ok c \<longleftrightarrow> fst c < 4 \<and> snd c < 4"

fun parts_ok :: "cell list list \<Rightarrow> bool" where
  "parts_ok [] \<longleftrightarrow> True"
| "parts_ok (part # parts) \<longleftrightarrow>
     part \<noteq> [] \<and> list_all cell_ok part \<and>
     list_all (\<lambda>c. \<not> List.member (concat (part # parts)) c) (inner_neighbours (hd part)) \<and>
     list_all (\<lambda>c. \<not> List.member (concat parts) c) part \<and> parts_ok parts"

definition covers :: "cell list list \<Rightarrow> bool" where
  "covers parts \<longleftrightarrow> list_all (List.member (concat parts)) subblocks"

lemma mv_partitions_ok: "list_all parts_ok mv_partitions" "list_all covers mv_partitions"
  by code_simp+

lemma each_subblock_ok: "parts_ok each_subblock" "covers each_subblock"
  by code_simp+

lemma cell_index_less: "cell_ok c \<Longrightarrow> cell_index c < 16"
  by (simp add: cell_ok_def cell_index_def)

lemma cell_index_inj: "cell_ok c \<Longrightarrow> cell_ok c' \<Longrightarrow> cell_index c = cell_index c' \<Longrightarrow> c = c'"
proof -
  assume "cell_ok c" and "cell_ok c'" and "cell_index c = cell_index c'"
  then have "fst c < 4" "fst c' < 4" "4 * snd c + fst c = 4 * snd c' + fst c'"
    by (simp_all add: cell_ok_def cell_index_def)
  then have "fst c = fst c'" "snd c = snd c'" by presburger+
  then show ?thesis by (simp add: prod_eq_iff)
qed

lemma subblocks_set: "c \<in> set subblocks \<longleftrightarrow> cell_ok c"
proof -
  have *: "n < 4 \<longleftrightarrow> n = 0 \<or> n = 1 \<or> n = 2 \<or> n = (3::nat)" for n by linarith
  show ?thesis
    by (cases c) (auto simp: subblocks_def cell_ok_def *)
qed

lemma inner_neighbours_ok: "cell_ok c \<Longrightarrow> n \<in> set (inner_neighbours c) \<Longrightarrow> cell_ok n"
  by (auto simp: inner_neighbours_def cell_ok_def split: if_splits)

definition same_at :: "y_block list \<Rightarrow> y_block list \<Rightarrow> cell \<Rightarrow> bool" where
  "same_at ys ys' c \<longleftrightarrow> ys ! cell_index c = ys' ! cell_index c"

lemma copy_block_nth:
  "list_all cell_ok part \<Longrightarrow> cell_ok c \<Longrightarrow> length ys = 16 \<Longrightarrow>
   length (copy_block b part ys) = 16 \<and>
   copy_block b part ys ! cell_index c = (if c \<in> set part then b else ys ! cell_index c)"
proof (induction part arbitrary: ys)
  case (Cons p part)
  let ?ys = "ys[cell_index p := b]"
  have "copy_block b (p # part) ys = copy_block b part ?ys"
    by (simp add: copy_block_def)
  moreover have upd: "?ys ! cell_index c = (if c = p then b else ys ! cell_index c)"
  proof (cases "c = p")
    case False
    then have "cell_index p \<noteq> cell_index c"
      using cell_index_inj [of p c] Cons.prems by auto
    with False show ?thesis by simp
  qed (use Cons.prems cell_index_less [of p] in simp)
  moreover have "length (copy_block b part ?ys) = 16 \<and>
      copy_block b part ?ys ! cell_index c = (if c \<in> set part then b else ?ys ! cell_index c)"
    using Cons.prems by (intro Cons.IH) simp_all
  ultimately show ?case by (simp only: upd) auto
qed (simp add: copy_block_def)

lemma copy_block_all:
  assumes "P b" and "list_all P ys"
  shows "list_all P (copy_block b part ys)"
  using assms(2)
proof (induction part arbitrary: ys)
  case (Cons p part)
  have "list_all P (ys[cell_index p := b])"
    using Cons.prems assms(1) by (auto simp: list_all_iff dest: set_update_subset_insert [THEN subsetD])
  then show ?case
    using Cons.IH by (simp add: copy_block_def)
qed (simp add: copy_block_def)

lemma parts_ok_Cons:
  "parts_ok (part # parts) \<longleftrightarrow>
     part \<noteq> [] \<and> (\<forall>c\<in>set part. cell_ok c) \<and>
     (\<forall>c\<in>set (inner_neighbours (hd part)). c \<notin> set (concat (part # parts))) \<and>
     (\<forall>c\<in>set part. c \<notin> set (concat parts)) \<and> parts_ok parts"
  by (simp only: parts_ok.simps list_all_iff List.member_iff)

declare parts_ok.simps(2) [simp del]

lemma parts_ok_cells: "parts_ok parts \<Longrightarrow> c \<in> set (concat parts) \<Longrightarrow> cell_ok c"
proof (induction parts)
  case (Cons part parts)
  then show ?case
    unfolding parts_ok_Cons concat.simps set_append by blast
qed simp

lemma parts_ok_step:
  assumes "parts_ok (part # parts)"
  shows "part \<noteq> []" "list_all cell_ok part" "hd part \<in> set part" "cell_ok (hd part)" "parts_ok parts"
    "c \<in> set (inner_neighbours (hd part)) \<Longrightarrow> cell_ok c \<and> c \<notin> set (concat (part # parts))"
    "c \<in> set part \<Longrightarrow> c \<notin> set (concat parts)"
proof -
  note parts = assms [unfolded parts_ok_Cons]
  show "part \<noteq> []" "parts_ok parts" using parts by blast+
  show 1: "hd part \<in> set part" using parts by (meson list.set_sel(1))
  show "list_all cell_ok part" using parts unfolding list_all_iff by blast
  show 2: "cell_ok (hd part)" using 1 parts by blast
  show "c \<in> set part \<Longrightarrow> c \<notin> set (concat parts)" using parts by blast
  show "c \<in> set (inner_neighbours (hd part)) \<Longrightarrow> cell_ok c \<and> c \<notin> set (concat (part # parts))"
    using parts inner_neighbours_ok [OF 2] by blast
qed

text \<open>The contract of the reader and the writer of one block: they look at no cells but the
  inner neighbours, the reader finds the block fresh, and what it returns satisfies \<open>good\<close> in
  every list of blocks that holds it there.  \<open>safe\<close> is what the reader needs of the blocks it
  looks at.\<close>

locale block_codec =
  fixes put :: "y_block list \<Rightarrow> cell \<Rightarrow> writer"
    and step :: "y_block list \<Rightarrow> cell \<Rightarrow> y_block reader"
    and safe :: "y_block \<Rightarrow> bool"
    and good :: "y_block list \<Rightarrow> cell \<Rightarrow> bool"
  assumes codec: "\<lbrakk>cell_ok c; length ys = 16; length ys0 = 16; good ys c; list_all safe ys;
      \<forall>n\<in>set (inner_neighbours c). same_at ys0 ys n; ys0 ! cell_index c = fresh_block\<rbrakk> \<Longrightarrow>
      codes (put ys c) (step ys0 c) (ys ! cell_index c)"
    and total: "\<lbrakk>cell_ok c; length ys0 = 16; list_all safe ys0; ys0 ! cell_index c = fresh_block\<rbrakk> \<Longrightarrow>
      returns (step ys0 c) (\<lambda>b. safe b \<and> (\<forall>ys. length ys = 16 \<longrightarrow>
        (\<forall>n\<in>set (inner_neighbours c). same_at ys0 ys n) \<longrightarrow> ys ! cell_index c = b \<longrightarrow> good ys c))"
begin

definition parts_good :: "cell list list \<Rightarrow> y_block list \<Rightarrow> bool" where
  "parts_good parts ys \<longleftrightarrow>
     (\<forall>part\<in>set parts. good ys (hd part) \<and> (\<forall>c\<in>set part. ys ! cell_index c = ys ! cell_index (hd part)))"

lemma parts_code:
  assumes "parts_ok parts" and "length ys = 16" and "length ys0 = 16" and "parts_good parts ys"
    and "list_all safe ys"
    and "\<forall>c. cell_ok c \<longrightarrow> c \<notin> set (concat parts) \<longrightarrow> same_at ys0 ys c"
    and "\<forall>c\<in>set (concat parts). ys0 ! cell_index c = fresh_block"
  shows "codes (write_parts put parts ys) (read_parts step parts ys0) ys"
  using assms
proof (induction parts arbitrary: ys0)
  case Nil
  have "ys0 ! i = ys ! i" if "i < 16" for i
  proof -
    have "cell_ok (i mod 4, i div 4)" "cell_index (i mod 4, i div 4) = i"
      using that by (simp_all add: cell_ok_def cell_index_def)
    with Nil.prems(6) show ?thesis by (metis concat.simps(1) empty_iff list.set(1) same_at_def)
  qed
  then have "ys0 = ys"
    using Nil.prems(2,3) by (intro nth_equalityI) simp_all
  then show ?case
    by (simp add: write_parts_def codes_nothing)
next
  case (Cons part parts)
  let ?c = "hd part"
  let ?b = "ys ! cell_index ?c"
  let ?ys0 = "copy_block ?b part ys0"
  note part = parts_ok_step [OF Cons.prems(1)]
  have step: "codes (put ys ?c) (step ys0 ?c) ?b"
  proof (rule codec)
    show "good ys ?c" using Cons.prems(4) by (simp add: parts_good_def)
    show "\<forall>n\<in>set (inner_neighbours ?c). same_at ys0 ys n"
      using Cons.prems(6) part(6) by blast
    show "ys0 ! cell_index ?c = fresh_block" using Cons.prems(7) part(3) by simp
  qed (use part(4) Cons.prems(2-5) in simp_all)
  have copied: "length ?ys0 = 16"
    "cell_ok c \<Longrightarrow> ?ys0 ! cell_index c = (if c \<in> set part then ?b else ys0 ! cell_index c)" for c
    using copy_block_nth [OF part(2) _ Cons.prems(3)] part(4) by blast+
  have ih: "codes (write_parts put parts ys) (read_parts step parts ?ys0) ys"
  proof (rule Cons.IH)
    show "parts_good parts ys" using Cons.prems(4) by (simp add: parts_good_def)
    show "\<forall>c. cell_ok c \<longrightarrow> c \<notin> set (concat parts) \<longrightarrow> same_at ?ys0 ys c"
    proof (intro allI impI)
      fix c
      assume c: "cell_ok c" "c \<notin> set (concat parts)"
      show "same_at ?ys0 ys c"
      proof (cases "c \<in> set part")
        case True
        then have "ys ! cell_index c = ?b"
          using Cons.prems(4) by (simp add: parts_good_def)
        with True show ?thesis by (simp add: same_at_def copied(2) c(1))
      next
        case False
        then have "c \<notin> set (concat (part # parts))" using c(2) by simp
        then have "same_at ys0 ys c" using Cons.prems(6) c(1) by blast
        with False show ?thesis by (simp add: same_at_def copied(2) c(1))
      qed
    qed
    show "\<forall>c\<in>set (concat parts). ?ys0 ! cell_index c = fresh_block"
    proof
      fix c
      assume c: "c \<in> set (concat parts)"
      then have "c \<notin> set part" and "cell_ok c"
        using part(7) parts_ok_cells [OF part(5)] by blast+
      then show "?ys0 ! cell_index c = fresh_block"
        using Cons.prems(7) c by (simp add: copied(2))
    qed
  qed (use Cons.prems(2-5) part(5) copied(1) in simp_all)
  have "codes (enc_seq (put ys ?c # map (\<lambda>part. put ys (hd part)) parts))
      (\<lambda>d. do { (b, d) \<leftarrow> step ys0 ?c d; read_parts step parts (copy_block b part ys0) d }) ys"
    using ih unfolding write_parts_def
    by (intro codes_step [where k = "\<lambda>b. read_parts step parts (copy_block b part ys0)", OF step]) simp
  moreover have "read_parts step (part # parts) ys0
      = (\<lambda>d. do { (b, d) \<leftarrow> step ys0 ?c d; read_parts step parts (copy_block b part ys0) d })"
    using part(1) by (intro ext) simp
  ultimately show ?case
    unfolding write_parts_def list.map by (simp only:)
qed

definition parts_result :: "cell list list \<Rightarrow> y_block list \<Rightarrow> y_block list \<Rightarrow> bool" where
  "parts_result parts ys0 ys \<longleftrightarrow>
     length ys = 16 \<and> list_all safe ys \<and> parts_good parts ys \<and>
     (\<forall>c. cell_ok c \<longrightarrow> c \<notin> set (concat parts) \<longrightarrow> same_at ys0 ys c)"

lemma parts_total:
  assumes "parts_ok parts" and "length ys0 = 16" and "list_all safe ys0"
    and "\<forall>c\<in>set (concat parts). ys0 ! cell_index c = fresh_block"
  shows "returns (read_parts step parts ys0) (parts_result parts ys0)"
  using assms
proof (induction parts arbitrary: ys0)
  case Nil
  then show ?case
    unfolding read_parts.simps
    by (intro returns_return) (simp add: parts_result_def parts_good_def same_at_def)
next
  case (Cons part parts)
  let ?c = "hd part"
  let ?P = "\<lambda>b. safe b \<and> (\<forall>ys. length ys = 16 \<longrightarrow> (\<forall>n\<in>set (inner_neighbours ?c). same_at ys0 ys n) \<longrightarrow>
    ys ! cell_index ?c = b \<longrightarrow> good ys ?c)"
  note part = parts_ok_step [OF Cons.prems(1)]
  have step: "returns (step ys0 ?c) ?P"
  proof (rule total)
    show "ys0 ! cell_index ?c = fresh_block" using Cons.prems(4) part(3) by simp
  qed (use part(4) Cons.prems(2,3) in simp_all)
  have rest: "returns (read_parts step parts (copy_block b part ys0)) (parts_result (part # parts) ys0)"
    if b: "?P b" for b
  proof -
    let ?ys0 = "copy_block b part ys0"
    have copied: "length ?ys0 = 16"
      "cell_ok c \<Longrightarrow> ?ys0 ! cell_index c = (if c \<in> set part then b else ys0 ! cell_index c)" for c
      using copy_block_nth [OF part(2) _ Cons.prems(2)] part(4) by blast+
    have "returns (read_parts step parts ?ys0) (parts_result parts ?ys0)"
    proof (rule Cons.IH)
      show "list_all safe ?ys0" using copy_block_all b Cons.prems(3) by blast
      show "\<forall>c\<in>set (concat parts). ?ys0 ! cell_index c = fresh_block"
      proof
        fix c
        assume c: "c \<in> set (concat parts)"
        then have "c \<notin> set part" and "cell_ok c"
          using part(7) parts_ok_cells [OF part(5)] by blast+
        then show "?ys0 ! cell_index c = fresh_block"
          using Cons.prems(4) c by (simp add: copied(2))
      qed
    qed (use part(5) copied(1) in simp_all)
    moreover have "parts_result (part # parts) ys0 ys" if res: "parts_result parts ?ys0 ys" for ys
    proof -
      have ys: "length ys = 16" "list_all safe ys" "parts_good parts ys"
        and same: "\<And>c. cell_ok c \<Longrightarrow> c \<notin> set (concat parts) \<Longrightarrow> ys ! cell_index c = ?ys0 ! cell_index c"
        using res unfolding parts_result_def same_at_def by metis+
      have in_part: "ys ! cell_index c = b" if "c \<in> set part" for c
        using same [of c] part(2,7) that copied(2) [of c] unfolding list_all_iff by simp
      have out: "ys ! cell_index c = ys0 ! cell_index c" if "cell_ok c" "c \<notin> set (concat (part # parts))" for c
        using same [of c] that copied(2) [of c] by simp
      have "good ys ?c"
        using b ys(1) in_part [OF part(3)] out part(6) unfolding same_at_def by metis
      then show ?thesis
        using ys in_part part(3) out unfolding parts_result_def parts_good_def same_at_def by simp
    qed
    ultimately show ?thesis by (rule returns_weaken)
  qed
  have "read_parts step (part # parts) ys0
      = (\<lambda>d. do { (b, d) \<leftarrow> step ys0 ?c d; read_parts step parts (copy_block b part ys0) d })"
    using part(1) by (intro ext) simp
  then show ?case
    using returns_bind [where f = "\<lambda>b. read_parts step parts (copy_block b part ys0)", OF step rest] by simp
qed

end



section \<open>The three kinds of blocks\<close>

lemma block_context_same:
  assumes "cell_ok c" and "length ys = 16" and "length ys0 = 16"
    and "\<forall>n\<in>set (inner_neighbours c). same_at ys0 ys n"
  shows "block_above cx ys0 c = block_above cx ys c" "block_left cx ys0 c = block_left cx ys c"
proof -
  have above: "ys0 ! cell_index (fst c, snd c - 1) = ys ! cell_index (fst c, snd c - 1)" if "0 < snd c"
    using assms(4) that by (simp add: inner_neighbours_def same_at_def)
  have left: "ys0 ! cell_index (fst c - 1, snd c) = ys ! cell_index (fst c - 1, snd c)" if "0 < fst c"
    using assms(4) that by (simp add: inner_neighbours_def same_at_def)
  show "block_above cx ys0 c = block_above cx ys c"
    using above assms(2,3) by (simp add: block_above_def block_at_def at_def)
  show "block_left cx ys0 c = block_left cx ys c"
    using left assms(2,3) by (simp add: block_left_def block_at_def at_def)
qed

lemma block_at_cell: "cell_ok c \<Longrightarrow> length ys = 16 \<Longrightarrow> block_at ys c = Some (ys ! cell_index c)"
  using cell_index_less [of c] by (simp add: block_at_def)

definition intra_block :: "y_block \<Rightarrow> bool" where
  "intra_block b \<longleftrightarrow> in_tree bmode_num b_mode_tree (yb_mode b)"

definition neighbour_blocks :: "(y_block \<Rightarrow> bool) \<Rightarrow> 'h mb_context \<Rightarrow> bool" where
  "neighbour_blocks P cx \<longleftrightarrow>
     (\<forall>mb. cx_above cx = Some mb \<or> cx_left cx = Some mb \<longrightarrow> length (mb_Y mb) = 16 \<and> list_all P (mb_Y mb))"

lemma context_block:
  assumes "neighbour_blocks P cx" and "list_all P ys" and "block_above cx ys c = Some b \<or> block_left cx ys c = Some b"
  shows "P b"
  using assms
  by (auto simp: neighbour_blocks_def block_above_def block_left_def block_at_def at_def list_all_length
      split: if_splits option.splits)

lemma fresh_intra [simp]: "intra_block fresh_block"
  by (simp add: intra_block_def fresh_block_def in_tree_def leaf_values)

lemma kf_b_mode_table: "length kf_b_mode_probs = 10"
  "list_all (\<lambda>row. length row = 10 \<and> list_all (\<lambda>probs. length probs = 9) row) kf_b_mode_probs"
  by (simp_all add: kf_b_mode_probs_def)

lemma intra_mode_num: "in_tree bmode_num b_mode_tree m \<Longrightarrow> nat (bmode_num m) < 10"
  by (auto simp: in_tree_def leaf_values)

lemma kf_b_probs_ok:
  assumes "neighbour_blocks intra_block cx" and "list_all intra_block ys"
  obtains probs where "kf_b_probs cx ys c = Some probs" and "length probs = 9"
proof -
  let ?mode = "\<lambda>b. case b of None \<Rightarrow> B_DC_PRED | Some b \<Rightarrow> yb_mode b"
  have mode: "nat (bmode_num (?mode b)) < 10" if "b = block_above cx ys c \<or> b = block_left cx ys c" for b
  proof (cases b)
    case (Some x)
    with that have "intra_block x" using context_block [OF assms, of c x] by metis
    with Some show ?thesis using intra_mode_num by (simp add: intra_block_def)
  qed simp
  let ?i = "nat (bmode_num (?mode (block_above cx ys c)))" and ?j = "nat (bmode_num (?mode (block_left cx ys c)))"
  have row: "length (kf_b_mode_probs ! i) = 10 \<and> (\<forall>j<10. length (kf_b_mode_probs ! i ! j) = 9)" if "i < 10" for i
    using kf_b_mode_table that by (simp add: list_all_length)
  have "kf_b_probs cx ys c = Some (kf_b_mode_probs ! ?i ! ?j)"
    using mode row kf_b_mode_table(1) by (simp add: kf_b_probs_def Let_def)
  then show ?thesis
    using that row mode by blast
qed

text \<open>What the blocks of an intra-coded macroblock are, given its mode.\<close>

definition intra_good :: "mbmode \<Rightarrow> y_block list \<Rightarrow> cell \<Rightarrow> bool" where
  "intra_good y ys c \<longleftrightarrow>
     (let b = ys ! cell_index c in
      yb_mv b = mv_zero \<and>
      (if y = B_PRED then intra_block b \<and> yb_without_Y2 b
       else implied_subblock_mode y = Some (yb_mode b) \<and> \<not> yb_without_Y2 b))"

lemma implied_intra: "implied_subblock_mode y = Some m \<Longrightarrow> in_tree bmode_num b_mode_tree m"
  by (cases y) (auto simp: in_tree_def leaf_values)

lemma intra_mode_cases:
  assumes "in_tree mbmode_num kf_y_mode_tree y \<or> in_tree mbmode_num y_mode_tree y" and "y \<noteq> B_PRED"
  obtains m where "implied_subblock_mode y = Some m"
  using assms by (cases y) (auto simp: in_tree_def leaf_values)

lemma symbol_block_codec:
  assumes c: "cell_ok c" "length ys0 = 16" "ys0 ! cell_index c = fresh_block" and probs: "length probs = 9"
  shows "length ys = 16 \<Longrightarrow> intra_good B_PRED ys c \<Longrightarrow>
      codes (enc_symbol bmode_num b_mode_tree probs (yb_mode (ys ! cell_index c)))
        (\<lambda>d. do { (m, d) \<leftarrow> dec_symbol bmode_of b_mode_tree probs d;
                  Some (fresh_block\<lparr>yb_mode := m, yb_without_Y2 := True\<rparr>, d) }) (ys ! cell_index c)"
    and "returns (\<lambda>d. do { (m, d) \<leftarrow> dec_symbol bmode_of b_mode_tree probs d;
                  Some (fresh_block\<lparr>yb_mode := m, yb_without_Y2 := True\<rparr>, d) })
        (\<lambda>b. intra_block b \<and> (\<forall>ys. ys ! cell_index c = b \<longrightarrow> intra_good B_PRED ys c))"
proof -
  note codec = b_mode_codec [OF probs]
  show "codes (enc_symbol bmode_num b_mode_tree probs (yb_mode (ys ! cell_index c)))
      (\<lambda>d. do { (m, d) \<leftarrow> dec_symbol bmode_of b_mode_tree probs d;
                Some (fresh_block\<lparr>yb_mode := m, yb_without_Y2 := True\<rparr>, d) }) (ys ! cell_index c)"
    if "length ys = 16" and "intra_good B_PRED ys c"
    using that
    by (intro codes_map [where g = "\<lambda>m. fresh_block\<lparr>yb_mode := m, yb_without_Y2 := True\<rparr>", OF bit_codec.codec [OF codec]])
      (auto simp: intra_good_def intra_block_def Let_def fresh_block_def)
  show "returns (\<lambda>d. do { (m, d) \<leftarrow> dec_symbol bmode_of b_mode_tree probs d;
        Some (fresh_block\<lparr>yb_mode := m, yb_without_Y2 := True\<rparr>, d) })
      (\<lambda>b. intra_block b \<and> (\<forall>ys. ys ! cell_index c = b \<longrightarrow> intra_good B_PRED ys c))"
    by (rule returns_bind [OF bit_codec.total [OF codec]], rule returns_return)
      (simp add: intra_good_def intra_block_def Let_def fresh_block_def)
qed


text \<open>A macroblock with a single mode writes nothing for its blocks.\<close>

definition put_if :: "bool \<Rightarrow> (y_block list \<Rightarrow> cell \<Rightarrow> writer) \<Rightarrow> y_block list \<Rightarrow> cell \<Rightarrow> writer" where
  "put_if present put ys c = (if present then put ys c else enc_seq [])"

lemma write_parts_if:
  "write_parts (put_if present put) parts ys = (if present then write_parts put parts ys else enc_seq [])"
proof -
  have "enc_seq (map (\<lambda>part. put_if False put ys (hd part)) parts) = enc_seq []"
    by (rule ext, induction parts) (simp_all add: put_if_def)
  then show ?thesis
    by (simp add: write_parts_def put_if_def del: enc_seq.simps)
qed

lemma implied_block_codec:
  assumes "implied_subblock_mode y = Some m" and "y \<noteq> B_PRED"
  shows "intra_good y ys c \<Longrightarrow>
      codes (enc_seq []) (\<lambda>d. Some (fresh_block\<lparr>yb_mode := m\<rparr>, d)) (ys ! cell_index c)"
    and "returns (\<lambda>d. Some (fresh_block\<lparr>yb_mode := m\<rparr>, d))
      (\<lambda>b. intra_block b \<and> (\<forall>ys. ys ! cell_index c = b \<longrightarrow> intra_good y ys c))"
proof -
  show "codes (enc_seq []) (\<lambda>d. Some (fresh_block\<lparr>yb_mode := m\<rparr>, d)) (ys ! cell_index c)" if "intra_good y ys c"
    using that assms by (intro codes_done) (auto simp: intra_good_def Let_def fresh_block_def)
  show "returns (\<lambda>d. Some (fresh_block\<lparr>yb_mode := m\<rparr>, d))
      (\<lambda>b. intra_block b \<and> (\<forall>ys. ys ! cell_index c = b \<longrightarrow> intra_good y ys c))"
    using assms implied_intra [OF assms(1)]
    by (intro returns_return) (simp add: intra_good_def intra_block_def Let_def fresh_block_def)
qed

lemma kf_block_codec:
  assumes cx: "neighbour_blocks intra_block cx" and y: "in_tree mbmode_num kf_y_mode_tree y"
  shows "block_codec (put_if (y = B_PRED) (write_kf_block cx)) (read_kf_block cx y) intra_block (intra_good y)"
proof (cases "y = B_PRED")
  case True
  let ?k = "\<lambda>probs d. do { (m, d) \<leftarrow> dec_symbol bmode_of b_mode_tree probs d;
    Some (fresh_block\<lparr>yb_mode := m, yb_without_Y2 := True\<rparr>, d) }"
  have read: "\<exists>probs. kf_b_probs cx ys0 c = Some probs \<and> length probs = 9 \<and> read_kf_block cx y ys0 c = ?k probs"
    if c: "cell_ok c" "length ys0 = 16" "list_all intra_block ys0" "ys0 ! cell_index c = fresh_block" for ys0 c
  proof -
    obtain probs where "kf_b_probs cx ys0 c = Some probs" "length probs = 9"
      using kf_b_probs_ok [OF cx c(3)] .
    moreover from this(1) have "read_kf_block cx y ys0 c = ?k probs"
      using c True by (intro ext) (simp add: read_kf_block_def block_at_cell)
    ultimately show ?thesis by blast
  qed
  show ?thesis
  proof
    fix c ys ys0
    assume c: "cell_ok c" "length ys = 16" "length ys0 = 16" "intra_good y ys c" "list_all intra_block ys"
      "\<forall>n\<in>set (inner_neighbours c). same_at ys0 ys n" "ys0 ! cell_index c = fresh_block"
    obtain probs where probs: "kf_b_probs cx ys c = Some probs" "length probs = 9"
      using kf_b_probs_ok [OF cx c(5)] .
    then have "kf_b_probs cx ys0 c = Some probs"
      by (simp add: kf_b_probs_def block_context_same [OF c(1,2,3,6)])
    then have "read_kf_block cx y ys0 c = ?k probs"
      using c True by (intro ext) (simp add: read_kf_block_def block_at_cell)
    moreover have "put_if (y = B_PRED) (write_kf_block cx) ys c
        = enc_symbol bmode_num b_mode_tree probs (yb_mode (ys ! cell_index c))"
      using True c probs by (intro ext) (simp add: put_if_def write_kf_block_def block_at_cell)
    ultimately show "codes (put_if (y = B_PRED) (write_kf_block cx) ys c) (read_kf_block cx y ys0 c) (ys ! cell_index c)"
      using symbol_block_codec(1) [OF c(1,3,7) probs(2) c(2)] c(4) True by simp
  next
    fix c ys0
    assume c: "cell_ok c" "length ys0 = 16" "list_all intra_block ys0" "ys0 ! cell_index c = fresh_block"
    obtain probs where "length probs = 9" "read_kf_block cx y ys0 c = ?k probs"
      using read [OF c] by blast
    then show "returns (read_kf_block cx y ys0 c) (\<lambda>b. intra_block b \<and> (\<forall>ys. length ys = 16 \<longrightarrow>
        (\<forall>n\<in>set (inner_neighbours c). same_at ys0 ys n) \<longrightarrow> ys ! cell_index c = b \<longrightarrow> intra_good y ys c))"
      using returns_weaken [OF symbol_block_codec(2) [OF c(1,2,4)]] True by simp
  qed
next
  case False
  obtain m where m: "implied_subblock_mode y = Some m"
    using intra_mode_cases y False by metis
  have read: "read_kf_block cx y ys0 c = (\<lambda>d. Some (fresh_block\<lparr>yb_mode := m\<rparr>, d))"
    if "cell_ok c" "length ys0 = 16" "ys0 ! cell_index c = fresh_block" for ys0 c
    using that m False by (intro ext) (simp add: read_kf_block_def block_at_cell)
  show ?thesis
  proof
    fix c ys ys0
    assume c: "cell_ok c" "length ys = 16" "length ys0 = 16" "intra_good y ys c" "list_all intra_block ys"
      "\<forall>n\<in>set (inner_neighbours c). same_at ys0 ys n" "ys0 ! cell_index c = fresh_block"
    show "codes (put_if (y = B_PRED) (write_kf_block cx) ys c) (read_kf_block cx y ys0 c) (ys ! cell_index c)"
      using implied_block_codec(1) [OF m False c(4)] read [OF c(1,3,7)] False by (simp add: put_if_def)
  next
    fix c ys0
    assume c: "cell_ok c" "length ys0 = 16" "list_all intra_block ys0" "ys0 ! cell_index c = fresh_block"
    show "returns (read_kf_block cx y ys0 c) (\<lambda>b. intra_block b \<and> (\<forall>ys. length ys = 16 \<longrightarrow>
        (\<forall>n\<in>set (inner_neighbours c). same_at ys0 ys n) \<longrightarrow> ys ! cell_index c = b \<longrightarrow> intra_good y ys c))"
      using returns_weaken [OF implied_block_codec(2) [OF m False, where c = c]] read [OF c(1,2,4)] by simp
  qed
qed


lemma intra_block_codec:
  assumes y: "in_tree mbmode_num y_mode_tree y"
  shows "block_codec (put_if (y = B_PRED) write_intra_block) (read_intra_block y) intra_block (intra_good y)"
proof (cases "y = B_PRED")
  case True
  have read: "read_intra_block y ys0 c = (\<lambda>d. do {
      (m, d) \<leftarrow> dec_symbol bmode_of b_mode_tree invariant_b_mode_probs d;
      Some (fresh_block\<lparr>yb_mode := m, yb_without_Y2 := True\<rparr>, d) })"
    if "cell_ok c" "length ys0 = 16" "ys0 ! cell_index c = fresh_block" for ys0 c
    using that True by (intro ext) (simp add: read_intra_block_def block_at_cell)
  show ?thesis
  proof
    fix c ys ys0
    assume c: "cell_ok c" "length ys = 16" "length ys0 = 16" "intra_good y ys c" "list_all intra_block ys"
      "\<forall>n\<in>set (inner_neighbours c). same_at ys0 ys n" "ys0 ! cell_index c = fresh_block"
    have "put_if (y = B_PRED) write_intra_block ys c
        = enc_symbol bmode_num b_mode_tree invariant_b_mode_probs (yb_mode (ys ! cell_index c))"
      using True c by (intro ext) (simp add: put_if_def write_intra_block_def block_at_cell)
    then show "codes (put_if (y = B_PRED) write_intra_block ys c) (read_intra_block y ys0 c) (ys ! cell_index c)"
      using symbol_block_codec(1) [OF c(1,3,7) _ c(2), of invariant_b_mode_probs] c(4) True read [OF c(1,3,7)] by simp
  next
    fix c ys0
    assume c: "cell_ok c" "length ys0 = 16" "list_all intra_block ys0" "ys0 ! cell_index c = fresh_block"
    show "returns (read_intra_block y ys0 c) (\<lambda>b. intra_block b \<and> (\<forall>ys. length ys = 16 \<longrightarrow>
        (\<forall>n\<in>set (inner_neighbours c). same_at ys0 ys n) \<longrightarrow> ys ! cell_index c = b \<longrightarrow> intra_good y ys c))"
      using returns_weaken [OF symbol_block_codec(2) [OF c(1,2,4), of invariant_b_mode_probs]] True read [OF c(1,2,4)]
      by simp
  qed
next
  case False
  obtain m where m: "implied_subblock_mode y = Some m"
    using intra_mode_cases y False by metis
  have read: "read_intra_block y ys0 c = (\<lambda>d. Some (fresh_block\<lparr>yb_mode := m\<rparr>, d))"
    if "cell_ok c" "length ys0 = 16" "ys0 ! cell_index c = fresh_block" for ys0 c
    using that m False by (intro ext) (simp add: read_intra_block_def block_at_cell)
  show ?thesis
  proof
    fix c ys ys0
    assume c: "cell_ok c" "length ys = 16" "length ys0 = 16" "intra_good y ys c" "list_all intra_block ys"
      "\<forall>n\<in>set (inner_neighbours c). same_at ys0 ys n" "ys0 ! cell_index c = fresh_block"
    show "codes (put_if (y = B_PRED) write_intra_block ys c) (read_intra_block y ys0 c) (ys ! cell_index c)"
      using implied_block_codec(1) [OF m False c(4)] read [OF c(1,3,7)] False by (simp add: put_if_def)
  next
    fix c ys0
    assume c: "cell_ok c" "length ys0 = 16" "list_all intra_block ys0" "ys0 ! cell_index c = fresh_block"
    show "returns (read_intra_block y ys0 c) (\<lambda>b. intra_block b \<and> (\<forall>ys. length ys = 16 \<longrightarrow>
        (\<forall>n\<in>set (inner_neighbours c). same_at ys0 ys n) \<longrightarrow> ys ! cell_index c = b \<longrightarrow> intra_good y ys c))"
      using returns_weaken [OF implied_block_codec(2) [OF m False, where c = c]] read [OF c(1,2,4)] by simp
  qed
qed

interpretation intra_subblocks: block_codec "put_if True write_intra_block" "read_intra_block B_PRED" intra_block
  "intra_good B_PRED"
  using intra_block_codec [of B_PRED] by (simp add: in_tree_def leaf_values)

text \<open>A block of a split macroblock: its vector is the one its mode stands for, or differs from
  the best vector of the census by a vector the format can carry.\<close>

definition split_good :: "'h mb_context \<Rightarrow> motion_vector \<Rightarrow> y_block list \<Rightarrow> cell \<Rightarrow> bool" where
  "split_good cx best_mv ys c \<longleftrightarrow>
     (let b = ys ! cell_index c in
      yb_without_Y2 b \<and>
      (case yb_mode b of
         LEFT4X4 \<Rightarrow> yb_mv b = context_mv (block_left cx ys c)
       | ABOVE4X4 \<Rightarrow> yb_mv b = context_mv (block_above cx ys c)
       | ZERO4X4 \<Rightarrow> yb_mv b = mv_zero
       | NEW4X4 \<Rightarrow> mv_ok (mv_minus (yb_mv b) best_mv)
       | _ \<Rightarrow> False))"

lemma mv_plus_minus [simp]: "mv_plus (mv_minus v w) w = v" "mv_minus (mv_plus v w) w = v"
  by (simp_all add: mv_plus_def mv_minus_def mv_neg_def mv_make_def)

lemma submv_ref_row: "length (submv_ref_probs2 ! submv_ref_index l a) = 3 \<and> submv_ref_index l a < length submv_ref_probs2"
  by (simp add: submv_ref_index_def submv_ref_probs2_def)

lemma submv_ref_modes: "in_tree bmode_num submv_ref_tree m \<longleftrightarrow> m \<in> {LEFT4X4, ABOVE4X4, ZERO4X4, NEW4X4}"
  by (cases m) (simp_all add: in_tree_def leaf_values)

definition finish_split ::
  "motion_vector \<Rightarrow> motion_vector \<Rightarrow> motion_vector \<Rightarrow> u8 list list \<Rightarrow> bmode \<Rightarrow> y_block reader" where
  "finish_split left_mv above_mv best_mv mv_probs m d =
     (let b = fresh_block\<lparr>yb_mode := m, yb_without_Y2 := True\<rparr> in
      case m of
        LEFT4X4 \<Rightarrow> Some (b\<lparr>yb_mv := left_mv\<rparr>, d)
      | ABOVE4X4 \<Rightarrow> Some (b\<lparr>yb_mv := above_mv\<rparr>, d)
      | ZERO4X4 \<Rightarrow> if mv_empty (yb_mv b) then Some (b, d) else None
      | NEW4X4 \<Rightarrow> do { (mv, d) \<leftarrow> read_mv mv_probs d; Some (b\<lparr>yb_mv := mv_plus mv best_mv\<rparr>, d) }
      | _ \<Rightarrow> None)"

lemma read_split_eq:
  assumes "cell_ok c" "length ys0 = 16" "ys0 ! cell_index c = fresh_block"
  shows "read_subblock_inter_prediction cx best_mv mv_probs ys0 c =
    (let l = context_mv (block_left cx ys0 c); a = context_mv (block_above cx ys0 c) in
     (\<lambda>d. do { (m, d) \<leftarrow> dec_symbol bmode_of submv_ref_tree (submv_ref_probs2 ! submv_ref_index l a) d;
               finish_split l a best_mv mv_probs m d }))"
  using assms submv_ref_row
  by (intro ext) (simp add: read_subblock_inter_prediction_def block_at_cell finish_split_def Let_def)

lemma write_split_eq:
  assumes "cell_ok c" "length ys = 16"
  shows "write_subblock_inter_prediction cx best_mv mv_probs ys c =
    (let l = context_mv (block_left cx ys c); a = context_mv (block_above cx ys c); b = ys ! cell_index c in
     enc_seq ([enc_symbol bmode_num submv_ref_tree (submv_ref_probs2 ! submv_ref_index l a) (yb_mode b)]
       @ (if yb_mode b = NEW4X4 then [write_mv mv_probs (mv_minus (yb_mv b) best_mv)] else [])))"
  using assms submv_ref_row
  by (intro ext) (simp add: write_subblock_inter_prediction_def block_at_cell Let_def)

lemma split_block_codec:
  assumes probs: "mv_shape mv_probs"
  shows "block_codec (write_subblock_inter_prediction cx best_mv mv_probs)
    (read_subblock_inter_prediction cx best_mv mv_probs) (\<lambda>_. True) (split_good cx best_mv)"
proof
  note mv = mv_codec [OF probs]
  fix c ys ys0
  assume c: "cell_ok c" "length ys = 16" "length ys0 = 16" "split_good cx best_mv ys c" "list_all (\<lambda>_. True) ys"
    "\<forall>n\<in>set (inner_neighbours c). same_at ys0 ys n" "ys0 ! cell_index c = fresh_block"
  let ?l = "context_mv (block_left cx ys c)" and ?a = "context_mv (block_above cx ys c)"
  let ?b = "ys ! cell_index c"
  let ?probs = "submv_ref_probs2 ! submv_ref_index ?l ?a"
  have mode: "in_tree bmode_num submv_ref_tree (yb_mode ?b)"
    using c(4) by (auto simp: split_good_def submv_ref_modes Let_def split: bmode.splits)
  have finish: "codes (enc_seq (if yb_mode ?b = NEW4X4 then [write_mv mv_probs (mv_minus (yb_mv ?b) best_mv)] else []))
      (finish_split ?l ?a best_mv mv_probs (yb_mode ?b)) ?b"
  proof (cases "yb_mode ?b = NEW4X4")
    case True
    let ?g = "\<lambda>mv. fresh_block\<lparr>yb_mode := NEW4X4, yb_without_Y2 := True, yb_mv := mv_plus mv best_mv\<rparr>"
    have "codes (write_mv mv_probs (mv_minus (yb_mv ?b) best_mv))
        (\<lambda>d. do { (mv, d) \<leftarrow> read_mv mv_probs d; Some (?g mv, d) }) ?b"
      using c(4) True by (intro codes_map [where g = ?g, OF bit_codec.codec [OF mv]])
        (auto simp: split_good_def Let_def fresh_block_def)
    moreover have "finish_split ?l ?a best_mv mv_probs NEW4X4
        = (\<lambda>d. do { (mv, d) \<leftarrow> read_mv mv_probs d; Some (?g mv, d) })"
      by (intro ext) (simp add: finish_split_def Let_def)
    ultimately show ?thesis using True by (simp add: codes_seq1)
  next
    case False
    have "finish_split ?l ?a best_mv mv_probs (yb_mode ?b) = (\<lambda>d. Some (?b, d))"
      using c(4) False
      by (intro ext) (auto simp: finish_split_def split_good_def Let_def fresh_block_def mv_empty_def mv_zero_def
          split: bmode.splits)
    then show ?thesis using False by (simp add: codes_done del: enc_seq.simps)
  qed
  have "codes (enc_symbol bmode_num submv_ref_tree ?probs (yb_mode ?b)) (dec_symbol bmode_of submv_ref_tree ?probs) (yb_mode ?b)"
    using bit_codec.codec [OF submv_ref_codec mode] submv_ref_row by blast
  then show "codes (write_subblock_inter_prediction cx best_mv mv_probs ys c)
      (read_subblock_inter_prediction cx best_mv mv_probs ys0 c) ?b"
    unfolding write_split_eq [OF c(1,2)] read_split_eq [OF c(1,3,7)] block_context_same [OF c(1,2,3,6)] Let_def
      append.simps
    by (rule codes_step [where k = "finish_split ?l ?a best_mv mv_probs"]) (rule finish)
next
  note mv = mv_codec [OF probs]
  fix c ys0
  assume c: "cell_ok c" "length ys0 = 16" "list_all (\<lambda>_. True) ys0" "ys0 ! cell_index c = fresh_block"
  let ?l = "context_mv (block_left cx ys0 c)" and ?a = "context_mv (block_above cx ys0 c)"
  let ?Q = "\<lambda>b. True \<and> (\<forall>ys. length ys = 16 \<longrightarrow> (\<forall>n\<in>set (inner_neighbours c). same_at ys0 ys n) \<longrightarrow>
    ys ! cell_index c = b \<longrightarrow> split_good cx best_mv ys c)"
  let ?R = "\<lambda>b. yb_without_Y2 b \<and> (case yb_mode b of
     LEFT4X4 \<Rightarrow> yb_mv b = ?l | ABOVE4X4 \<Rightarrow> yb_mv b = ?a | ZERO4X4 \<Rightarrow> yb_mv b = mv_zero
   | NEW4X4 \<Rightarrow> mv_ok (mv_minus (yb_mv b) best_mv) | _ \<Rightarrow> False)"
  have finish: "returns (finish_split ?l ?a best_mv mv_probs m) ?R" if "in_tree bmode_num submv_ref_tree m" for m
  proof (cases "m = NEW4X4")
    case True
    let ?g = "\<lambda>mv. fresh_block\<lparr>yb_mode := NEW4X4, yb_without_Y2 := True, yb_mv := mv_plus mv best_mv\<rparr>"
    have "returns (\<lambda>d. do { (mv, d) \<leftarrow> read_mv mv_probs d; Some (?g mv, d) }) ?R"
      by (rule returns_bind [OF bit_codec.total [OF mv]], rule returns_return) (simp add: fresh_block_def)
    then show ?thesis
      using True by (simp add: finish_split_def [abs_def] Let_def)
  next
    case False
    have "\<exists>b. finish_split ?l ?a best_mv mv_probs m = (\<lambda>d. Some (b, d)) \<and> ?R b"
      using that False
      by (auto simp: submv_ref_modes finish_split_def [abs_def] Let_def fresh_block_def mv_empty_def mv_zero_def)
    then show ?thesis by (auto intro: returns_return)
  qed
  have "?Q b" if R: "?R b" for b
  proof (intro conjI TrueI allI impI)
    fix ys
    assume ys: "length ys = 16" "\<forall>n\<in>set (inner_neighbours c). same_at ys0 ys n" "ys ! cell_index c = b"
    show "split_good cx best_mv ys c"
      using R unfolding block_context_same [OF c(1) ys(1) c(2) ys(2)] split_good_def Let_def ys(3) .
  qed
  moreover have "returns (read_subblock_inter_prediction cx best_mv mv_probs ys0 c) ?R"
    unfolding read_split_eq [OF c(1,2,4)] Let_def
    by (rule returns_bind [OF bit_codec.total [OF submv_ref_codec] finish]) (use submv_ref_row in blast)
  ultimately show "returns (read_subblock_inter_prediction cx best_mv mv_probs ys0 c) ?Q"
    by (rule returns_weaken [rotated])
qed

end
