(* ===== verification/Reconstruction.thy ===== *)
theory Reconstruction
  imports Inter_Prediction Loop_Filter Macroblock_Modes Tokens
begin

text \<open>
  From the modes and coefficients of a macroblock to its pixels (\<open>apply_walsh\<close>, \<open>reconstruct_intra\<close>,
  \<open>reconstruct_inter\<close> and \<open>loopfilter\<close> of src/src/decoder/macroblock.cc).  The raster is the record of
  its three planes; a macroblock is at a column and row counted in macroblocks, the subblocks of its luma
  and chroma blocks are visited row by row.
\<close>

section \<open>The code\<close>

primrec each_result :: "('a \<Rightarrow> 's \<Rightarrow> 's result) \<Rightarrow> 'a list \<Rightarrow> 's \<Rightarrow> 's result" where
  "each_result f [] p = Inr p"
| "each_result f (x # xs) p = bind_result (f x p) (each_result f xs)"

text \<open>\<open>forall_ij\<close> of \<open>n\<close> by \<open>n\<close> subblocks: the index of a subblock in its macroblock.\<close>

definition over_subblocks :: "nat \<Rightarrow> (nat \<Rightarrow> nat \<Rightarrow> plane \<Rightarrow> plane result) \<Rightarrow> plane \<Rightarrow> plane result" where
  "over_subblocks n f = each_result (\<lambda>i. f (i mod n) (i div n)) [0..<n * n]"

text \<open>\<open>Block::dequantize\<close> followed by \<open>idct_add\<close> of the coefficients onto a 4x4 block.\<close>

definition add_block :: "coefficients \<Rightarrow> nat \<Rightarrow> nat \<Rightarrow> plane \<Rightarrow> plane result" where
  "add_block cs column row p = of_assert (idct_add cs (4 * column) (4 * row) p)"

definition add_residues :: "nat \<Rightarrow> factors \<Rightarrow> (coefficients \<times> bool) list list \<Rightarrow> nat \<Rightarrow> nat \<Rightarrow> plane \<Rightarrow> plane result" where
  "add_residues n f blocks column row =
     over_subblocks n (\<lambda>c r. add_block (dequantize f (fst (blocks ! r ! c))) (n * column + c) (n * row + r))"

definition apply_walsh :: "quantizer \<Rightarrow> residue \<Rightarrow> nat \<Rightarrow> nat \<Rightarrow> plane \<Rightarrow> plane result" where
  "apply_walsh q rs column row p =
     bind_result (of_assert (rs_Y2 rs)) (\<lambda>y2.
     let dcs = iwht (dequantize (factors_y2 q) (fst y2)) in
     over_subblocks 4 (\<lambda>c r.
       add_block ((dequantize (factors_y q) (fst (rs_Y rs ! r ! c)))[0 := dcs ! (4 * r + c)]) (4 * column + c) (4 * row + r)) p)"

text \<open>What is done where the macroblock has coefficients.\<close>

definition where_nonzero :: "residue option \<Rightarrow> (residue \<Rightarrow> plane \<Rightarrow> plane result) \<Rightarrow> plane \<Rightarrow> plane result" where
  "where_nonzero rs f p =
     (if macroblock_has_nonzero rs then (case rs of None \<Rightarrow> Inr p | Some r \<Rightarrow> f r p) else Inr p)"

definition luma_intra_subblock :: "quantizer \<Rightarrow> 'h macroblock \<Rightarrow> residue option \<Rightarrow> nat \<Rightarrow> nat \<Rightarrow> nat \<Rightarrow> nat \<Rightarrow> plane \<Rightarrow> plane result" where
  "luma_intra_subblock q mb rs column row c r p =
     bind_result (intra_predict_block 4 (intra_predict_b (yb_mode (mb_Y mb ! (4 * r + c)))) (4 * column + c) (4 * row + r) p)
       (where_nonzero rs (\<lambda>rs. add_block (dequantize (factors_y q) (fst (rs_Y rs ! r ! c))) (4 * column + c) (4 * row + r)))"

definition reconstruct_intra :: "quantizer \<Rightarrow> 'h macroblock \<Rightarrow> residue option \<Rightarrow> nat \<Rightarrow> nat \<Rightarrow> planes \<Rightarrow> planes result" where
  "reconstruct_intra q mb rs column row s =
     bind_result (intra_predict_block 8 (intra_predict_mb 8 column row (mb_uv_mode mb)) column row (rp_U s)) (\<lambda>u.
     bind_result (intra_predict_block 8 (intra_predict_mb 8 column row (mb_uv_mode mb)) column row (rp_V s)) (\<lambda>v.
     bind_result (where_nonzero rs (\<lambda>rs. add_residues 2 (factors_uv q) (rs_U rs) column row) u) (\<lambda>u.
     bind_result (where_nonzero rs (\<lambda>rs. add_residues 2 (factors_uv q) (rs_V rs) column row) v) (\<lambda>v.
     bind_result
       (if mb_y_mode mb = B_PRED then over_subblocks 4 (luma_intra_subblock q mb rs column row) (rp_Y s)
        else bind_result (intra_predict_block 16 (intra_predict_mb 16 column row (mb_y_mode mb)) column row (rp_Y s))
          (where_nonzero rs (\<lambda>rs. apply_walsh q rs column row))) (\<lambda>y.
     Inr \<lparr>rp_Y = y, rp_U = u, rp_V = v\<rparr>)))))"

definition reconstruct_inter ::
  "quantizer \<Rightarrow> planes references \<Rightarrow> inter_mb_header macroblock \<Rightarrow> residue option \<Rightarrow> nat \<Rightarrow> nat \<Rightarrow> planes \<Rightarrow> planes result" where
  "reconstruct_inter q refs mb rs column row s =
     bind_result (of_assert (imh_reference (mb_header mb))) (\<lambda>frame.
     bind_result (references_at refs frame) (\<lambda>ref.
     if mb_y_mode mb = SPLITMV then
       bind_result (over_subblocks 4 (\<lambda>c r. inter_predict 4 (yb_mv (mb_Y mb ! (4 * r + c))) (rp_Y ref) (4 * column + c) (4 * row + r)) (rp_Y s)) (\<lambda>y.
       bind_result (over_subblocks 2 (\<lambda>c r. inter_predict 4 (mb_uv_mvs mb ! (2 * r + c)) (rp_U ref) (2 * column + c) (2 * row + r)) (rp_U s)) (\<lambda>u.
       bind_result (over_subblocks 2 (\<lambda>c r. inter_predict 4 (mb_uv_mvs mb ! (2 * r + c)) (rp_V ref) (2 * column + c) (2 * row + r)) (rp_V s)) (\<lambda>v.
       bind_result (where_nonzero rs (\<lambda>rs. add_residues 4 (factors_y q) (rs_Y rs) column row) y) (\<lambda>y.
       bind_result (where_nonzero rs (\<lambda>rs. add_residues 2 (factors_uv q) (rs_U rs) column row) u) (\<lambda>u.
       bind_result (where_nonzero rs (\<lambda>rs. add_residues 2 (factors_uv q) (rs_V rs) column row) v) (\<lambda>v.
       Inr \<lparr>rp_Y = y, rp_U = u, rp_V = v\<rparr>))))))
     else
       bind_result (of_assert (base_motion_vector mb)) (\<lambda>mv.
       bind_result (inter_predict 16 mv (rp_Y ref) column row (rp_Y s)) (\<lambda>y.
       bind_result (inter_predict 8 (mb_uv_mvs mb ! 0) (rp_U ref) column row (rp_U s)) (\<lambda>u.
       bind_result (inter_predict 8 (mb_uv_mvs mb ! 0) (rp_V ref) column row (rp_V s)) (\<lambda>v.
       bind_result (where_nonzero rs (\<lambda>rs. apply_walsh q rs column row) y) (\<lambda>y.
       bind_result (where_nonzero rs (\<lambda>rs. add_residues 2 (factors_uv q) (rs_U rs) column row) u) (\<lambda>u.
       bind_result (where_nonzero rs (\<lambda>rs. add_residues 2 (factors_uv q) (rs_V rs) column row) v) (\<lambda>v.
       Inr \<lparr>rp_Y = y, rp_U = u, rp_V = v\<rparr>)))))))))"

text \<open>\<open>Macroblock::loopfilter\<close>; \<open>reference\<close> is the reference of the macroblock's header, which is only
  looked at where there are adjustments.\<close>

definition skip_subblock_edges :: "'h macroblock \<Rightarrow> residue option \<Rightarrow> bool" where
  "skip_subblock_edges mb rs \<longleftrightarrow> mb_y2_coded mb \<and> \<not> macroblock_has_nonzero rs"

definition mb_loopfilter ::
  "bool \<Rightarrow> filter_adjustments option \<Rightarrow> filter_parameters \<Rightarrow> reference_frame option \<Rightarrow> 'h macroblock \<Rightarrow> residue option \<Rightarrow>
   nat \<Rightarrow> nat \<Rightarrow> planes \<Rightarrow> planes result" where
  "mb_loopfilter key_frame adjustments fp reference mb rs column row s =
     bind_result
       (case adjustments of None \<Rightarrow> Inr fp
        | Some fa \<Rightarrow> bind_result (of_assert reference) (\<lambda>frame. Inr (adjust_filter fa frame (mb_y_mode mb) fp))) (\<lambda>fp.
     if fl_level fp \<le> 0 then Inr s
     else case fl_type fp of
       Normal \<Rightarrow> of_assert (normal_filter (normal_loop_filter_of key_frame fp) (skip_subblock_edges mb rs) column row s)
     | Simple \<Rightarrow> Inl Unsupported
     | NoFilter \<Rightarrow> Inl Logic_error)"


section \<open>Agreement of two planes\<close>

text \<open>Two planes of the same size that agree on a set of pixels, and operations that succeed on both and
  extend the agreement from one set to another.\<close>

definition agree :: "nat \<Rightarrow> nat \<Rightarrow> (nat \<times> nat) set \<Rightarrow> plane \<Rightarrow> plane \<Rightarrow> bool" where
  "agree w h A p q \<longleftrightarrow>
     plane_valid p \<and> plane_valid q \<and> pl_width p = w \<and> pl_width q = w \<and> pl_height p = h \<and> pl_height q = h \<and>
     (\<forall>(x, y)\<in>A. plane_at p x y = plane_at q x y)"

definition extends :: "nat \<Rightarrow> nat \<Rightarrow> (nat \<times> nat) set \<Rightarrow> (nat \<times> nat) set \<Rightarrow> (plane \<Rightarrow> plane result) \<Rightarrow> bool" where
  "extends w h A B f \<longleftrightarrow> (\<forall>p q. agree w h A p q \<longrightarrow> (\<exists>p' q'. f p = Inr p' \<and> f q = Inr q' \<and> agree w h B p' q'))"

lemma extendsD: "extends w h A B f \<Longrightarrow> agree w h A p q \<Longrightarrow> \<exists>p' q'. f p = Inr p' \<and> f q = Inr q' \<and> agree w h B p' q'"
  by (simp add: extends_def)

lemma agree_mono: "agree w h A p q \<Longrightarrow> B \<subseteq> A \<Longrightarrow> agree w h B p q"
  by (auto simp: agree_def)

lemma extends_mono: "extends w h A B f \<Longrightarrow> A \<subseteq> A' \<Longrightarrow> B' \<subseteq> B \<Longrightarrow> extends w h A' B' f"
  unfolding extends_def by (meson agree_mono)

lemma extends_id: "extends w h A A Inr"
  by (simp add: extends_def)

lemma extends_bind:
  assumes "extends w h A B f" and "extends w h B C g"
  shows "extends w h A C (\<lambda>p. bind_result (f p) g)"
  unfolding extends_def
proof (intro allI impI)
  fix p q assume "agree w h A p q"
  from extendsD [OF assms(1) this] obtain p1 q1 where f: "f p = Inr p1" "f q = Inr q1" "agree w h B p1 q1" by blast
  from extendsD [OF assms(2) f(3)] f show "\<exists>p' q'. bind_result (f p) g = Inr p' \<and> bind_result (f q) g = Inr q' \<and> agree w h C p' q'"
    by auto
qed

lemma extends_each:
  assumes "\<And>i. i < n \<Longrightarrow> extends w h (A i) (A (Suc i)) (f i)"
  shows "extends w h (A 0) (A n) (each_result f [0..<n])"
  using assms
proof (induction n arbitrary: A f)
  case 0
  then show ?case by (simp add: extends_id [unfolded extends_def] extends_def)
next
  case (Suc n)
  have shift: "[0..<Suc n] = 0 # map Suc [0..<n]" by (simp only: upt_conv_Cons zero_less_Suc map_Suc_upt)
  have mapped: "each_result f (map Suc xs) = each_result (\<lambda>i. f (Suc i)) xs" for xs
    by (induction xs) (auto intro!: ext)
  have "extends w h (A (Suc 0)) (A (Suc n)) (each_result (\<lambda>i. f (Suc i)) [0..<n])"
    using Suc.IH [of "\<lambda>i. A (Suc i)" "\<lambda>i. f (Suc i)"] Suc.prems by simp
  with Suc.prems [of 0] show ?case
    unfolding shift each_result.simps mapped by (intro extends_bind) simp_all
qed

lemma extends_subblocks:
  assumes "\<And>i. i < n * n \<Longrightarrow> extends w h (A i) (A (Suc i)) (f (i mod n) (i div n))"
  shows "extends w h (A 0) (A (n * n)) (over_subblocks n f)"
  unfolding over_subblocks_def using assms by (rule extends_each)

text \<open>The pixels of a block.\<close>

definition block_of :: "nat \<Rightarrow> nat \<Rightarrow> nat \<Rightarrow> (nat \<times> nat) set" where
  "block_of sz column row = {(x, y). x div sz = column \<and> y div sz = row}"

lemma block_of_range:
  "0 < sz \<Longrightarrow> (x, y) \<in> block_of sz column row \<longleftrightarrow>
     sz * column \<le> x \<and> x < sz * column + sz \<and> sz * row \<le> y \<and> y < sz * row + sz"
  using dividend_less_times_div [of sz x] dividend_less_times_div [of sz y]
  by (auto simp: block_of_def mult.commute intro!: div_nat_eqI)

definition fits :: "nat \<Rightarrow> nat \<Rightarrow> nat \<Rightarrow> nat \<Rightarrow> nat \<Rightarrow> bool" where
  "fits sz w h column row \<longleftrightarrow> sz \<in> {4, 8, 16} \<and> sz dvd w \<and> sz * (column + 1) \<le> w \<and> sz * (row + 1) \<le> h"

lemma fits_pos: "fits sz w h column row \<Longrightarrow> 0 < sz"
  by (auto simp: fits_def)

lemma fits_block_in:
  "fits sz w h column row \<Longrightarrow> plane_valid p \<Longrightarrow> pl_width p = w \<Longrightarrow> pl_height p = h \<Longrightarrow> block_in sz p column row"
  by (auto simp: fits_def block_in_def)

lemma put_same_block:
  assumes a: "agree w h A p q" and fit: "fits sz w h column row" and sq: "square sz block"
  shows "\<exists>p' q'. put_block (sz * column) (sz * row) block p = Some p' \<and> put_block (sz * column) (sz * row) block q = Some q' \<and>
    agree w h (A \<union> block_of sz column row) p' q'"
proof -
  have in_p: "block_in sz p column row" and in_q: "block_in sz q column row"
    using a fits_block_in [OF fit] by (simp_all add: agree_def)
  have rows: "length block = sz" "\<forall>vs\<in>set block. length vs = sz" using sq by (simp_all add: square_def)
  obtain p' where p': "put_block (sz * column) (sz * row) block p = Some p'" "written (sz * column) (sz * row) block p p'"
    using put_square [OF in_p rows] by blast
  obtain q' where q': "put_block (sz * column) (sz * row) block q = Some q'" "written (sz * column) (sz * row) block q q'"
    using put_square [OF in_q rows] by blast
  have "plane_at p' x y = plane_at q' x y" if "(x, y) \<in> A \<union> block_of sz column row" for x y
  proof (cases "(x, y) \<in> block_of sz column row")
    case True
    then have r: "sz * row \<le> y \<and> y < sz * row + length block" "sz * column \<le> x \<and> x < sz * column + sz"
      using block_of_range [OF fits_pos [OF fit]] rows(1) by simp_all
    moreover have "length (block ! (y - sz * row)) = sz" using r rows by (intro bspec [OF rows(2)] nth_mem) linarith
    ultimately show ?thesis using p'(2) q'(2) by (simp add: written_def)
  next
    case False
    then have "plane_at p x y = plane_at q x y" using that a by (auto simp: agree_def)
    then show ?thesis using p'(2) q'(2) by (simp add: written_def)
  qed
  moreover have "plane_valid p' \<and> pl_width p' = w \<and> pl_height p' = h" "plane_valid q' \<and> pl_width q' = w \<and> pl_height q' = h"
    using a p'(2) q'(2) unfolding written_def agree_def by metis+
  ultimately have "agree w h (A \<union> block_of sz column row) p' q'" unfolding agree_def by blast
  with p'(1) q'(1) show ?thesis by blast
qed

lemma extends_intra:
  assumes fit: "fits sz w h column row" and before: "{(x, y). decoded_before sz column row x y} \<subseteq> A"
    and predict: "\<And>pr. \<exists>block. predict pr = Inr block \<and> square sz block"
  shows "extends w h A (A \<union> block_of sz column row) (intra_predict_block sz predict column row)"
  unfolding extends_def
proof (intro allI impI)
  fix p q assume a: "agree w h A p q"
  have in_p: "block_in sz p column row" and in_q: "block_in sz q column row"
    using a fits_block_in [OF fit] by (simp_all add: agree_def)
  obtain pr where p: "block_predictors sz p column row = Some pr" using block_predictors_defined [OF in_p] by blast
  have "block_predictors sz p column row = block_predictors sz q column row"
  proof (rule predictors_causal [OF in_p in_q])
    show "pl_width p = pl_width q" using a by (simp add: agree_def)
    show "plane_at p x y = plane_at q x y" if "decoded_before sz column row x y" for x y
      using that before a by (auto simp: agree_def)
  qed
  then have q: "block_predictors sz q column row = Some pr" using p by simp
  obtain block where block: "predict pr = Inr block" "square sz block" using predict by blast
  show "\<exists>p' q'. intra_predict_block sz predict column row p = Inr p' \<and>
      intra_predict_block sz predict column row q = Inr q' \<and> agree w h (A \<union> block_of sz column row) p' q'"
    using put_same_block [OF a fit block(2)] by (auto simp: intra_predict_block_def of_assert_def p q block(1))
qed

lemma extends_inter:
  assumes fit: "fits sz w h column row" and ref: "plane_valid ref" "pl_width ref = w"
  shows "extends w h A (A \<union> block_of sz column row) (inter_predict sz mv ref column row)"
  unfolding extends_def
proof (intro allI impI)
  fix p q assume a: "agree w h A p q"
  obtain block where block: "inter_predict_rows sz mv ref (pl_width ref) column row = Some block" "square sz block"
    unfolding inter_predict_rows_edge [OF ref(1)]
    using edge_at_total [OF ref(1)] safe_inter_predict_total [where ref = "edge_at ref" and sz = sz and mv = mv and
        column = "source_of sz column (mv_x mv)" and row = "source_of sz row (mv_y mv)"]
    by blast
  then show "\<exists>p' q'. inter_predict sz mv ref column row p = Inr p' \<and>
      inter_predict sz mv ref column row q = Inr q' \<and> agree w h (A \<union> block_of sz column row) p' q'"
    using put_same_block [OF a fit, of block] a ref(2) by (auto simp: inter_predict_def of_assert_def agree_def)
qed

lemma square_residue: "square 4 (idct_residue cs)"
  by (simp add: square_def idct_residue_def idct_pass_def Let_def)

lemma square_added: "square 4 rs \<Longrightarrow> square 4 block \<Longrightarrow> square 4 (add_residue_rows rs block)"
  by (auto simp: square_def add_residue_rows_def set_zip dest: nth_mem)

lemma extends_add_block:
  assumes fit: "fits 4 w h column row" and inside: "block_of 4 column row \<subseteq> A"
  shows "extends w h A A (add_block cs column row)"
  unfolding extends_def
proof (intro allI impI)
  fix p q assume a: "agree w h A p q"
  have in_p: "block_in 4 p column row" using a fits_block_in [OF fit] by (simp add: agree_def)
  have "plane_at p (4 * column + x) (4 * row + y) = plane_at q (4 * column + x) (4 * row + y)" if "x < 4" "y < 4" for x y
  proof -
    have "(4 * column + x, 4 * row + y) \<in> block_of 4 column row" using that by (simp add: block_of_range)
    then show ?thesis using inside a by (auto simp: agree_def)
  qed
  then have same: "get_block p (4 * column) (4 * row) 4 = get_block q (4 * column) (4 * row) 4"
    unfolding get_block_def by (intro collect_cong) simp
  obtain block where block: "get_block p (4 * column) (4 * row) 4 = Some block" "square 4 block"
    using get_block_in [of p "4 * column" 4 "4 * row"] in_p by (auto simp: block_in_def square_def)
  have "square 4 (add_residue_rows (idct_residue cs) block)" by (intro square_added square_residue block(2))
  from put_same_block [OF a fit this] obtain p' q' where
    "put_block (4 * column) (4 * row) (add_residue_rows (idct_residue cs) block) p = Some p'"
    "put_block (4 * column) (4 * row) (add_residue_rows (idct_residue cs) block) q = Some q'"
    "agree w h (A \<union> block_of 4 column row) p' q'" by blast
  moreover from this(3) have "agree w h A p' q'" by (rule agree_mono) blast
  ultimately show "\<exists>p' q'. add_block cs column row p = Inr p' \<and> add_block cs column row q = Inr q' \<and> agree w h A p' q'"
    using block(1) same by (simp add: add_block_def idct_add_def of_assert_def)
qed


section \<open>The macroblocks decoded so far\<close>

text \<open>The pixels of the first \<open>k\<close> macroblocks of a plane with \<open>w\<close> macroblocks in a row; whatever is right of
  the plane is counted in.\<close>

definition decoded :: "nat \<Rightarrow> nat \<Rightarrow> nat \<Rightarrow> (nat \<times> nat) set" where
  "decoded sz w k = {(x, y). w \<le> x div sz \<or> (y div sz) * w + x div sz < k}"

text \<open>The first \<open>i\<close> of the \<open>n\<close> by \<open>n\<close> subblocks of a macroblock.\<close>

definition subblocks_of :: "nat \<Rightarrow> nat \<Rightarrow> nat \<Rightarrow> nat \<Rightarrow> (nat \<times> nat) set" where
  "subblocks_of n c r i =
     {(x, y). x div 4 div n = c \<and> y div 4 div n = r \<and> (y div 4 mod n) * n + x div 4 mod n < i}"

lemma row_major_inj:
  assumes "a * w + b = c * w + (d :: nat)" and "b < w" and "d < w"
  shows "a = c \<and> b = d"
proof -
  have "(a * w + b) div w = a" "(c * w + d) div w = c" using assms(2,3) by simp_all
  with assms(1) show ?thesis by simp
qed

lemma decoded_Suc:
  assumes "c < w"
  shows "decoded sz w (Suc (r * w + c)) \<subseteq> decoded sz w (r * w + c) \<union> block_of sz c r"
proof
  fix z assume z: "z \<in> decoded sz w (Suc (r * w + c))"
  obtain x y where xy: "z = (x, y)" by (cases z)
  show "z \<in> decoded sz w (r * w + c) \<union> block_of sz c r"
  proof (cases "x div sz < w \<and> (y div sz) * w + x div sz = r * w + c")
    case True
    then have "y div sz = r \<and> x div sz = c" using assms by (intro row_major_inj) simp_all
    then show ?thesis by (simp add: xy block_of_def)
  next
    case False
    then show ?thesis using z by (auto simp: xy decoded_def)
  qed
qed

lemma row_major_less: "y < r \<Longrightarrow> x < w \<Longrightarrow> y * w + x < r * w + (c :: nat)"
proof -
  assume "y < r" "x < w"
  then have "y * w + x < (y + 1) * w" by simp
  also have "\<dots> \<le> r * w" using \<open>y < r\<close> by (intro mult_right_mono) simp_all
  finally show ?thesis by simp
qed

lemma row_major_before: "y < r \<or> y = r \<and> x < c \<Longrightarrow> w \<le> x \<or> y * w + x < r * w + (c :: nat)"
  using row_major_less [of y r x w c] by (cases "x < w") auto

lemma before_decoded:
  assumes "sz \<in> {8, 16}" and "c < w"
  shows "{(x, y). decoded_before sz c r x y} \<subseteq> decoded sz w (r * w + c)"
proof (clarify)
  fix x y
  assume "decoded_before sz c r x y"
  then have "y div sz < r \<or> y div sz = r \<and> x div sz < c" using assms(1) by (auto simp: decoded_before_def)
  from row_major_before [OF this, of w] show "(x, y) \<in> decoded sz w (r * w + c)" by (simp add: decoded_def)
qed

lemma subblock_step:
  assumes "0 < n"
  shows "subblocks_of n c r (Suc i) \<subseteq> subblocks_of n c r i \<union> block_of 4 (n * c + i mod n) (n * r + i div n)"
proof
  fix z assume z: "z \<in> subblocks_of n c r (Suc i)"
  obtain x y where xy: "z = (x, y)" by (cases z)
  show "z \<in> subblocks_of n c r i \<union> block_of 4 (n * c + i mod n) (n * r + i div n)"
  proof (cases "(y div 4 mod n) * n + x div 4 mod n = i")
    case True
    then have "i div n = y div 4 mod n" "i mod n = x div 4 mod n" using assms by (auto simp flip: True)
    moreover have "x div 4 = n * (x div 4 div n) + x div 4 mod n" "y div 4 = n * (y div 4 div n) + y div 4 mod n" by simp_all
    ultimately show ?thesis using z by (auto simp: xy subblocks_of_def block_of_def)
  next
    case False
    then show ?thesis using z by (auto simp: xy subblocks_of_def)
  qed
qed

lemma subblocks_all:
  assumes "0 < n"
  shows "block_of (4 * n) c r \<subseteq> subblocks_of n c r (n * n)"
proof -
  have "(y div 4 mod n) * n + x div 4 mod n < n * n" for x y :: nat
    using row_major_less [of "y div 4 mod n" n "x div 4 mod n" n 0] assms by simp
  then show ?thesis by (auto simp: block_of_def subblocks_of_def div_mult2_eq)
qed

lemma subblock_inside:
  assumes "0 < n" and "i < n * n"
  shows "block_of 4 (n * c + i mod n) (n * r + i div n) \<subseteq> block_of (4 * n) c r"
  using assms by (auto simp: block_of_def div_mult2_eq less_mult_imp_div_less)

lemma subblock_fits:
  assumes "fits (4 * n) w h c r" and "n \<in> {2, 4}" and "i < n * n"
  shows "fits 4 w h (n * c + i mod n) (n * r + i div n)"
proof -
  have le: "4 * (n * a + b + 1) \<le> 4 * n * (a + 1)" if "b < n" for a b
  proof -
    have "n * a + b + 1 \<le> n * (a + 1)" using that by simp
    then have "4 * (n * a + b + 1) \<le> 4 * (n * (a + 1))" by (rule mult_le_mono2)
    then show ?thesis by (simp only: mult.assoc)
  qed
  have "i mod n < n" "i div n < n" using assms(2,3) by (auto simp: less_mult_imp_div_less)
  with le assms(1) have "4 * (n * c + i mod n + 1) \<le> w" "4 * (n * r + i div n + 1) \<le> h"
    unfolding fits_def by (meson order_trans)+
  moreover have "4 dvd w" using assms(1,2) by (auto simp: fits_def elim: dvd_trans [rotated])
  ultimately show ?thesis unfolding fits_def by blast
qed

lemma before_subblock:
  assumes "c < w" and "i < 16"
  shows "{(x, y). decoded_before 4 (4 * c + i mod 4) (4 * r + i div 4) x y} \<subseteq> decoded 16 w (r * w + c) \<union> subblocks_of 4 c r i"
proof (clarify)
  fix x y
  assume before: "decoded_before 4 (4 * c + i mod 4) (4 * r + i div 4) x y" and new: "(x, y) \<notin> subblocks_of 4 c r i"
  have "i div 4 < 4" using assms(2) by simp
  then have here: "(4 * r + i div 4) div 4 = r" "(4 * c + i mod 4) div 4 = c" by simp_all
  have sixteen: "m div 16 = m div 4 div 4" for m :: nat by (simp add: div_mult2_eq [symmetric])
  show "(x, y) \<in> decoded 16 w (r * w + c)"
  proof (cases "y div 16 = r \<and> x div 16 = c")
    case True
    have "x div 4 = 4 * c + x div 4 mod 4" "y div 4 = 4 * r + y div 4 mod 4"
      using True mult_div_mod_eq [of 4 "x div 4"] mult_div_mod_eq [of 4 "y div 4"] unfolding sixteen by simp_all
    moreover have "y div 4 < 4 * r + i div 4 \<or> y div 4 = 4 * r + i div 4 \<and> x div 4 < 4 * c + i mod 4"
      using before True here by (auto simp: decoded_before_def)
    ultimately have "y div 4 mod 4 < i div 4 \<or> y div 4 mod 4 = i div 4 \<and> x div 4 mod 4 < i mod 4" by linarith
    moreover have "x div 4 mod 4 < 4" "i = 4 * (i div 4) + i mod 4" by simp_all
    ultimately have "(y div 4 mod 4) * 4 + x div 4 mod 4 < i" by linarith
    then show ?thesis using new True unfolding sixteen by (simp add: subblocks_of_def)
  next
    case False
    then have "y div 16 < r \<or> y div 16 = r \<and> x div 16 < c" using before here by (auto simp: decoded_before_def)
    from row_major_before [OF this, of w] show ?thesis by (simp add: decoded_def)
  qed
qed


section \<open>A macroblock completes its block of every plane\<close>

lemma extends_where_nonzero:
  "(\<And>r. rs = Some r \<Longrightarrow> extends w h A A (f r)) \<Longrightarrow> extends w h A A (where_nonzero rs f)"
  unfolding where_nonzero_def using extends_id [of w h A, unfolded extends_def]
  by (cases rs; cases "macroblock_has_nonzero rs") (simp_all add: extends_def)

lemma extends_over_same:
  assumes n: "n \<in> {2, 4}" and fit: "fits (4 * n) w h c r" and inside: "block_of (4 * n) c r \<subseteq> A"
  shows "extends w h A A (over_subblocks n (\<lambda>i j. add_block (cs i j) (n * c + i) (n * r + j)))"
proof (rule extends_subblocks [where A = "\<lambda>_. A"])
  fix i assume i: "i < n * n"
  have pos: "0 < n" using n by auto
  show "extends w h A A (add_block (cs (i mod n) (i div n)) (n * c + i mod n) (n * r + i div n))"
    by (rule extends_add_block [OF subblock_fits [OF fit n i] order_trans [OF subblock_inside [OF pos i] inside]])
qed

lemma extends_add_residues:
  "n \<in> {2, 4} \<Longrightarrow> fits (4 * n) w h c r \<Longrightarrow> block_of (4 * n) c r \<subseteq> A \<Longrightarrow> extends w h A A (add_residues n f blocks c r)"
  unfolding add_residues_def by (rule extends_over_same)

lemma extends_apply_walsh:
  assumes "fits 16 w h c r" and "block_of 16 c r \<subseteq> A" and "rs_Y2 rs \<noteq> None"
  shows "extends w h A A (apply_walsh q rs c r)"
proof -
  obtain y2 where y2: "rs_Y2 rs = Some y2" using assms(3) by auto
  have "apply_walsh q rs c r = over_subblocks 4 (\<lambda>i j. add_block
      ((dequantize (factors_y q) (fst (rs_Y rs ! j ! i)))[0 := iwht (dequantize (factors_y2 q) (fst y2)) ! (4 * j + i)])
      (4 * c + i) (4 * r + j))"
    by (rule ext) (simp add: apply_walsh_def y2 of_assert_def Let_def)
  then show ?thesis using extends_over_same [of 4 w h c r A] assms(1,2) by simp
qed

text \<open>A sequence of subblocks, each completed in turn, completes the block.\<close>

lemma extends_over_new:
  assumes n: "n \<in> {2, 4}"
    and step: "\<And>i. i < n * n \<Longrightarrow> extends w h (A \<union> subblocks_of n c r i)
      (A \<union> subblocks_of n c r i \<union> block_of 4 (n * c + i mod n) (n * r + i div n)) (f (i mod n) (i div n))"
  shows "extends w h A (A \<union> block_of (4 * n) c r) (over_subblocks n f)"
proof -
  have pos: "0 < n" using n by auto
  have "extends w h (A \<union> subblocks_of n c r 0) (A \<union> subblocks_of n c r (n * n)) (over_subblocks n f)"
  proof (rule extends_subblocks)
    fix i assume "i < n * n"
    from step [OF this] show "extends w h (A \<union> subblocks_of n c r i) (A \<union> subblocks_of n c r (Suc i)) (f (i mod n) (i div n))"
      by (rule extends_mono) (use subblock_step [OF pos, of c r i] in auto)
  qed
  then show ?thesis
    by (rule extends_mono) (use subblocks_all [OF pos, of c r] in \<open>auto simp: subblocks_of_def\<close>)
qed

lemma extends_inter_subblocks:
  assumes n: "n \<in> {2, 4}" and fit: "fits (4 * n) w h c r" and ref: "plane_valid ref" "pl_width ref = w"
  shows "extends w h A (A \<union> block_of (4 * n) c r) (over_subblocks n (\<lambda>i j. inter_predict 4 (mv i j) ref (n * c + i) (n * r + j)))"
  by (rule extends_over_new [OF n]) (rule extends_inter [OF subblock_fits [OF fit n] ref])

text \<open>The residues are added to the block that was just predicted.\<close>

lemma extends_then_residues:
  assumes "extends w h A (A \<union> B) f" and "\<And>r. rs = Some r \<Longrightarrow> extends w h (A \<union> B) (A \<union> B) (g r)"
  shows "extends w h A (A \<union> B) (\<lambda>p. bind_result (f p) (where_nonzero rs g))"
  by (rule extends_bind [OF assms(1)]) (rule extends_where_nonzero, rule assms(2))

definition residue_fits :: "'h macroblock \<Rightarrow> residue option \<Rightarrow> bool" where
  "residue_fits mb rs \<longleftrightarrow> (\<forall>r. rs = Some r \<longrightarrow> mb_y_mode mb \<in> {B_PRED, SPLITMV} \<or> rs_Y2 r \<noteq> None)"

definition intra_fits :: "'h macroblock \<Rightarrow> bool" where
  "intra_fits mb \<longleftrightarrow> mb_uv_mode mb \<in> mb_intra_modes \<and>
     (if mb_y_mode mb = B_PRED then (\<forall>i<16. yb_mode (mb_Y mb ! i) \<in> b_intra_modes) else mb_y_mode mb \<in> mb_intra_modes)"

lemma luma_subblocks:
  assumes fit: "fits 16 (16 * w) h c r" and c: "c < w"
    and modes: "\<forall>i<16. yb_mode (mb_Y mb ! i) \<in> b_intra_modes"
  shows "extends (16 * w) h (decoded 16 w (r * w + c)) (decoded 16 w (r * w + c) \<union> block_of 16 c r)
    (over_subblocks 4 (luma_intra_subblock q mb rs c r))"
proof -
  let ?A = "decoded 16 w (r * w + c)"
  have "extends (16 * w) h ?A (?A \<union> block_of (4 * 4) c r) (over_subblocks 4 (luma_intra_subblock q mb rs c r))"
  proof (rule extends_over_new)
    fix i :: nat assume i: "i < 4 * 4"
    let ?B = "block_of 4 (4 * c + i mod 4) (4 * r + i div 4)"
    have sub: "fits 4 (16 * w) h (4 * c + i mod 4) (4 * r + i div 4)"
      using subblock_fits [of 4 "16 * w" h c r i] fit i by simp
    have mode: "\<exists>block. intra_predict_b (yb_mode (mb_Y mb ! (4 * (i div 4) + i mod 4))) pr = Inr block \<and> square 4 block" for pr
      using modes i by (intro b_prediction_square) simp
    have "extends (16 * w) h (?A \<union> subblocks_of 4 c r i) (?A \<union> subblocks_of 4 c r i \<union> ?B)
        (intra_predict_block 4 (intra_predict_b (yb_mode (mb_Y mb ! (4 * (i div 4) + i mod 4)))) (4 * c + i mod 4) (4 * r + i div 4))"
      using before_subblock [OF c, of i r] i by (intro extends_intra [OF sub] mode) simp
    then show "extends (16 * w) h (?A \<union> subblocks_of 4 c r i) (?A \<union> subblocks_of 4 c r i \<union> ?B)
        (luma_intra_subblock q mb rs c r (i mod 4) (i div 4))"
      unfolding luma_intra_subblock_def [abs_def]
      by (rule extends_then_residues) (rule extends_add_block [OF sub], blast)
  qed simp
  then show ?thesis by simp
qed

definition planes_agree :: "nat \<Rightarrow> nat \<Rightarrow> nat \<Rightarrow> planes \<Rightarrow> planes \<Rightarrow> bool" where
  "planes_agree w h k s t \<longleftrightarrow>
     agree (16 * w) (16 * h) (decoded 16 w k) (rp_Y s) (rp_Y t) \<and>
     agree (8 * w) (8 * h) (decoded 8 w k) (rp_U s) (rp_U t) \<and>
     agree (8 * w) (8 * h) (decoded 8 w k) (rp_V s) (rp_V t)"

definition completes :: "nat \<Rightarrow> nat \<Rightarrow> nat \<Rightarrow> (planes \<Rightarrow> planes result) \<Rightarrow> bool" where
  "completes w h k f \<longleftrightarrow>
     (\<forall>s t. planes_agree w h k s t \<longrightarrow> (\<exists>s' t'. f s = Inr s' \<and> f t = Inr t' \<and> planes_agree w h (Suc k) s' t'))"

lemma completes_planes:
  assumes "extends (16 * w) (16 * h) (decoded 16 w k) (decoded 16 w (Suc k)) fy"
    and "extends (8 * w) (8 * h) (decoded 8 w k) (decoded 8 w (Suc k)) fu"
    and "extends (8 * w) (8 * h) (decoded 8 w k) (decoded 8 w (Suc k)) fv"
    and "\<And>s y u v. fy (rp_Y s) = Inr y \<Longrightarrow> fu (rp_U s) = Inr u \<Longrightarrow> fv (rp_V s) = Inr v \<Longrightarrow>
      f s = Inr \<lparr>rp_Y = y, rp_U = u, rp_V = v\<rparr>"
  shows "completes w h k f"
  unfolding completes_def
proof (intro allI impI)
  fix s t assume a: "planes_agree w h k s t"
  obtain y y' where y: "fy (rp_Y s) = Inr y" "fy (rp_Y t) = Inr y'" "agree (16 * w) (16 * h) (decoded 16 w (Suc k)) y y'"
    using extendsD [OF assms(1)] a unfolding planes_agree_def by blast
  obtain u u' where u: "fu (rp_U s) = Inr u" "fu (rp_U t) = Inr u'" "agree (8 * w) (8 * h) (decoded 8 w (Suc k)) u u'"
    using extendsD [OF assms(2)] a unfolding planes_agree_def by blast
  obtain v v' where v: "fv (rp_V s) = Inr v" "fv (rp_V t) = Inr v'" "agree (8 * w) (8 * h) (decoded 8 w (Suc k)) v v'"
    using extendsD [OF assms(3)] a unfolding planes_agree_def by blast
  show "\<exists>s' t'. f s = Inr s' \<and> f t = Inr t' \<and> planes_agree w h (Suc k) s' t'"
    using assms(4) [OF y(1) u(1) v(1)] assms(4) [OF y(2) u(2) v(2)] y(3) u(3) v(3) by (simp add: planes_agree_def)
qed

lemma macroblock_fits:
  assumes "c < w" and "r < h"
  shows "fits 16 (16 * w) (16 * h) c r" and "fits 8 (8 * w) (8 * h) c r"
  using assms by (simp_all add: fits_def)

text \<open>The last step of a plane's pipeline, seen as the macroblocks completed.\<close>

lemma extends_decoded:
  "extends w' h' (decoded sz w (r * w + c)) (decoded sz w (r * w + c) \<union> block_of sz c r) f \<Longrightarrow> c < w \<Longrightarrow>
   extends w' h' (decoded sz w (r * w + c)) (decoded sz w (Suc (r * w + c))) f"
  by (erule extends_mono) (simp_all add: decoded_Suc)

lemma chroma_residues:
  assumes "fits 8 (8 * w) (8 * h) c r"
    and "extends (8 * w) (8 * h) A (A \<union> block_of 8 c r) f"
  shows "extends (8 * w) (8 * h) A (A \<union> block_of 8 c r) (\<lambda>p. bind_result (f p) (where_nonzero rs (\<lambda>rs. add_residues 2 q (plane rs) c r)))"
  using extends_add_residues [of 2 "8 * w" "8 * h" c r] assms by (intro extends_then_residues) simp_all

lemma reconstruct_intra_completes:
  assumes c: "c < w" and r: "r < h" and mb: "intra_fits mb" and rs: "residue_fits mb rs"
  shows "completes w h (r * w + c) (reconstruct_intra q mb rs c r)"
proof -
  note fit = macroblock_fits [OF c r]
  let ?Y = "if mb_y_mode mb = B_PRED then over_subblocks 4 (luma_intra_subblock q mb rs c r)
    else (\<lambda>p. bind_result (intra_predict_block 16 (intra_predict_mb 16 c r (mb_y_mode mb)) c r p)
      (where_nonzero rs (\<lambda>rs. apply_walsh q rs c r)))"
  let ?C = "\<lambda>plane p. bind_result (intra_predict_block 8 (intra_predict_mb 8 c r (mb_uv_mode mb)) c r p)
    (where_nonzero rs (\<lambda>rs. add_residues 2 (factors_uv q) (plane rs) c r))"
  have "extends (16 * w) (16 * h) (decoded 16 w (r * w + c)) (decoded 16 w (r * w + c) \<union> block_of 16 c r) ?Y"
  proof (cases "mb_y_mode mb = B_PRED")
    case True
    then show ?thesis using mb by (simp add: intra_fits_def luma_subblocks [OF fit(1) c])
  next
    case False
    then have mode: "mb_y_mode mb \<in> mb_intra_modes" using mb by (simp add: intra_fits_def)
    then have "rs_Y2 r' \<noteq> None" if "rs = Some r'" for r'
      using rs False that by (auto simp: residue_fits_def mb_intra_modes_def)
    then show ?thesis
      using False mb_prediction_square [OF mode] before_decoded [of 16 c w r] c
      by (simp, intro extends_then_residues extends_intra [OF fit(1)] extends_apply_walsh [OF fit(1)]) auto
  qed
  moreover have "extends (8 * w) (8 * h) (decoded 8 w (r * w + c)) (decoded 8 w (r * w + c) \<union> block_of 8 c r) (?C plane)" for plane
    using mb mb_prediction_square [of "mb_uv_mode mb"] before_decoded [of 8 c w r] c
    by (intro chroma_residues [OF fit(2)] extends_intra [OF fit(2)]) (auto simp: intra_fits_def)
  ultimately show ?thesis
  proof (intro completes_planes [where fy = ?Y and fu = "?C rs_U" and fv = "?C rs_V"] extends_decoded c)
    fix s :: planes and y u v
    assume "?Y (rp_Y s) = Inr y" and "?C rs_U (rp_U s) = Inr u" and "?C rs_V (rp_V s) = Inr v"
    then show "reconstruct_intra q mb rs c r s = Inr \<lparr>rp_Y = y, rp_U = u, rp_V = v\<rparr>"
      unfolding reconstruct_intra_def by (auto simp: bind_result_eq_Inr split: if_splits)
  qed
qed

text \<open>A raster of the size of the frame, and references of that size.\<close>

definition planes_sized :: "nat \<Rightarrow> nat \<Rightarrow> planes \<Rightarrow> bool" where
  "planes_sized w h s \<longleftrightarrow>
     plane_valid (rp_Y s) \<and> pl_width (rp_Y s) = 16 * w \<and> pl_height (rp_Y s) = 16 * h \<and>
     plane_valid (rp_U s) \<and> pl_width (rp_U s) = 8 * w \<and> pl_height (rp_U s) = 8 * h \<and>
     plane_valid (rp_V s) \<and> pl_width (rp_V s) = 8 * w \<and> pl_height (rp_V s) = 8 * h"

definition references_sized :: "nat \<Rightarrow> nat \<Rightarrow> planes references \<Rightarrow> bool" where
  "references_sized w h refs \<longleftrightarrow>
     planes_sized w h (rf_last refs) \<and> planes_sized w h (rf_golden refs) \<and> planes_sized w h (rf_alternative refs)"

definition inter_fits :: "inter_mb_header macroblock \<Rightarrow> bool" where
  "inter_fits mb \<longleftrightarrow> imh_reference (mb_header mb) \<in> {Some LAST_FRAME, Some GOLDEN_FRAME, Some ALTREF_FRAME} \<and>
     base_motion_vector mb \<noteq> None \<and> mb_y_mode mb \<noteq> B_PRED"

lemma reference_sized:
  assumes "references_sized w h refs" and "inter_fits mb"
  obtains frame ref where "imh_reference (mb_header mb) = Some frame" "references_at refs frame = Inr ref" "planes_sized w h ref"
  using assms by (auto simp: references_sized_def inter_fits_def references_at_def)

lemma reconstruct_inter_completes:
  assumes c: "c < w" and r: "r < h" and mb: "inter_fits mb" and rs: "residue_fits mb rs" and refs: "references_sized w h refs"
  shows "completes w h (r * w + c) (reconstruct_inter q refs mb rs c r)"
proof -
  note fit = macroblock_fits [OF c r]
  obtain frame ref where ref: "imh_reference (mb_header mb) = Some frame" "references_at refs frame = Inr ref" "planes_sized w h ref"
    using reference_sized [OF refs mb] .
  obtain mv where mv: "base_motion_vector mb = Some mv" using mb by (auto simp: inter_fits_def)
  have sized: "plane_valid (rp_Y ref)" "pl_width (rp_Y ref) = 16 * w" "plane_valid (rp_U ref)" "pl_width (rp_U ref) = 8 * w"
    "plane_valid (rp_V ref)" "pl_width (rp_V ref) = 8 * w" using ref(3) by (simp_all add: planes_sized_def)
  show ?thesis
  proof (cases "mb_y_mode mb = SPLITMV")
    case True
    let ?Y = "\<lambda>p. bind_result (over_subblocks 4 (\<lambda>i j. inter_predict 4 (yb_mv (mb_Y mb ! (4 * j + i))) (rp_Y ref) (4 * c + i) (4 * r + j)) p)
      (where_nonzero rs (\<lambda>rs. add_residues 4 (factors_y q) (rs_Y rs) c r))"
    let ?C = "\<lambda>ref plane p. bind_result (over_subblocks 2 (\<lambda>i j. inter_predict 4 (mb_uv_mvs mb ! (2 * j + i)) ref (2 * c + i) (2 * r + j)) p)
      (where_nonzero rs (\<lambda>rs. add_residues 2 (factors_uv q) (plane rs) c r))"
    have "extends (16 * w) (16 * h) (decoded 16 w (r * w + c)) (decoded 16 w (r * w + c) \<union> block_of 16 c r) ?Y"
      using extends_inter_subblocks [of 4 "16 * w" "16 * h" c r "rp_Y ref"] extends_add_residues [of 4 "16 * w" "16 * h" c r] fit sized
      by (intro extends_then_residues) simp_all
    moreover have "extends (8 * w) (8 * h) (decoded 8 w (r * w + c)) (decoded 8 w (r * w + c) \<union> block_of 8 c r) (?C p plane)"
      if "plane_valid p" "pl_width p = 8 * w" for p plane
      using extends_inter_subblocks [of 2 "8 * w" "8 * h" c r p] fit that by (intro chroma_residues [OF fit(2)]) simp_all
    ultimately show ?thesis
    proof (intro completes_planes [where fy = ?Y and fu = "?C (rp_U ref) rs_U" and fv = "?C (rp_V ref) rs_V"] extends_decoded c)
      fix s :: planes and y u v
      assume "?Y (rp_Y s) = Inr y" and "?C (rp_U ref) rs_U (rp_U s) = Inr u" and "?C (rp_V ref) rs_V (rp_V s) = Inr v"
      then show "reconstruct_inter q refs mb rs c r s = Inr \<lparr>rp_Y = y, rp_U = u, rp_V = v\<rparr>"
        unfolding reconstruct_inter_def ref(1) of_assert_def by (auto simp: ref(2) True bind_result_eq_Inr)
    qed (use sized in simp_all)
  next
    case False
    let ?Y = "\<lambda>p. bind_result (inter_predict 16 mv (rp_Y ref) c r p) (where_nonzero rs (\<lambda>rs. apply_walsh q rs c r))"
    let ?C = "\<lambda>ref plane p. bind_result (inter_predict 8 (mb_uv_mvs mb ! 0) ref c r p)
      (where_nonzero rs (\<lambda>rs. add_residues 2 (factors_uv q) (plane rs) c r))"
    have "rs_Y2 r' \<noteq> None" if "rs = Some r'" for r'
      using rs False that mb by (auto simp: residue_fits_def inter_fits_def)
    then have "extends (16 * w) (16 * h) (decoded 16 w (r * w + c)) (decoded 16 w (r * w + c) \<union> block_of 16 c r) ?Y"
      using extends_inter [OF fit(1), of "rp_Y ref"] extends_apply_walsh [OF fit(1)] sized by (intro extends_then_residues) simp_all
    moreover have "extends (8 * w) (8 * h) (decoded 8 w (r * w + c)) (decoded 8 w (r * w + c) \<union> block_of 8 c r) (?C p plane)"
      if "plane_valid p" "pl_width p = 8 * w" for p plane
      using extends_inter [OF fit(2) that] by (intro chroma_residues [OF fit(2)])
    ultimately show ?thesis
    proof (intro completes_planes [where fy = ?Y and fu = "?C (rp_U ref) rs_U" and fv = "?C (rp_V ref) rs_V"] extends_decoded c)
      fix s :: planes and y u v
      assume "?Y (rp_Y s) = Inr y" and "?C (rp_U ref) rs_U (rp_U s) = Inr u" and "?C (rp_V ref) rs_V (rp_V s) = Inr v"
      then show "reconstruct_inter q refs mb rs c r s = Inr \<lparr>rp_Y = y, rp_U = u, rp_V = v\<rparr>"
        unfolding reconstruct_inter_def ref(1) of_assert_def by (auto simp: ref(2) False mv bind_result_eq_Inr)
    qed (use sized in simp_all)
  qed
qed

end
