(* ===== verification/State_Store.thy ===== *)
theory State_Store
  imports Decoder_State
begin

text \<open>
  Storing a decoder: \<open>EncoderStateSerializer\<close> and \<open>EncoderStateDeserializer\<close>
  (src/src/decoder/enc_state_serializer.hh) and the \<open>serialize\<close> and \<open>deserialize\<close> members of the
  decoder and of the parts of its state (src/src/decoder/decoder.cc, probability_tables.cc).  The
  serializer is the bytes written so far; a length that is known only at the end is patched into
  its place.  The deserializer is the bytes that are still to be read; a failing assertion and the
  end of the input are errors.
\<close>

section \<open>The serializer\<close>

datatype tag = PROB_TABLE | FILT_ADJ | SEGM_ABS | SEGM_REL | DECODER_STATE | OPT_EMPTY | OPT_FULL
  | REFERENCES | REF_LAST | REF_GOLD | REF_ALT | DECODER

primrec tag_num :: "tag \<Rightarrow> u8" where
  "tag_num PROB_TABLE = 0"
| "tag_num FILT_ADJ = 1"
| "tag_num SEGM_ABS = 2"
| "tag_num SEGM_REL = 3"
| "tag_num DECODER_STATE = 4"
| "tag_num OPT_EMPTY = 5"
| "tag_num OPT_FULL = 6"
| "tag_num REFERENCES = 7"
| "tag_num REF_LAST = 8"
| "tag_num REF_GOLD = 9"
| "tag_num REF_ALT = 10"
| "tag_num DECODER = 11"

lemma tag_num_inject [simp]: "tag_num s = tag_num t \<longleftrightarrow> s = t"
  by (cases s; cases t) simp_all

definition put_tag :: "tag \<Rightarrow> bytes \<Rightarrow> bytes" where
  "put_tag t out = out @ [tag_num t]"

definition put_u16 :: "u16 \<Rightarrow> bytes \<Rightarrow> bytes" where
  "put_u16 n out = out @ nat_le 2 (unat n)"

definition put_u32 :: "u32 \<Rightarrow> bytes \<Rightarrow> bytes" where
  "put_u32 n out = out @ nat_le 4 (unat n)"

text \<open>A loop of \<open>put\<close> calls for single octets.\<close>

definition put_octets :: "u8 list \<Rightarrow> bytes \<Rightarrow> bytes" where
  "put_octets xs out = out @ xs"

definition patch_u32 :: "u32 \<Rightarrow> nat \<Rightarrow> bytes \<Rightarrow> bytes result" where
  "patch_u32 n offset out =
     (if offset + 4 \<le> length out then Inr (take offset out @ nat_le 4 (unat n) @ drop (offset + 4) out)
      else Inl Out_of_range)"

definition tables_length :: u32 where
  "tables_length =
     word_of_nat (BLOCK_TYPES * COEF_BANDS * PREV_COEF_CONTEXTS * ENTROPY_NODES + 4 + 3 + 2 * MV_PROB_CNT)"

text \<open>Each \<open>serialize\<close> returns the length it wrote.\<close>

definition serialize_tables :: "probability_tables \<Rightarrow> bytes \<Rightarrow> u32 \<times> bytes" where
  "serialize_tables pt out =
     (let out = put_tag PROB_TABLE out;
          out = put_u32 tables_length out;
          out = put_octets (concat (concat (concat (pt_coeff_probs pt)))) out;
          out = put_octets (pt_y_mode_probs pt) out;
          out = put_octets (pt_uv_mode_probs pt) out;
          out = put_octets (concat (pt_mv_probs pt)) out
      in (tables_length + 5, out))"

definition adjustments_length :: u32 where
  "adjustments_length = word_of_nat (num_reference_frames + 4)"

definition serialize_adjustments :: "filter_adjustments \<Rightarrow> bytes \<Rightarrow> u32 \<times> bytes" where
  "serialize_adjustments fa out =
     (let out = put_tag FILT_ADJ out;
          out = put_u32 adjustments_length out;
          out = put_octets (fa_ref_adjustments fa) out;
          out = put_octets (fa_mode_adjustments fa) out
      in (adjustments_length + 5, out))"

definition segmentation_length :: "nat \<Rightarrow> nat \<Rightarrow> u32" where
  "segmentation_length w h = word_of_nat (4 + num_segments + num_segments + w * h)"

definition serialize_segmentation :: "segmentation \<Rightarrow> bytes \<Rightarrow> u32 \<times> bytes" where
  "serialize_segmentation sg out =
     (let len = segmentation_length (sg_width sg) (sg_height sg);
          out = put_tag (if sg_absolute sg then SEGM_ABS else SEGM_REL) out;
          out = put_u32 len out;
          out = put_u16 (word_of_nat (sg_width sg)) out;
          out = put_u16 (word_of_nat (sg_height sg)) out;
          out = put_octets (sg_quantizer sg) out;
          out = put_octets (sg_filter sg) out;
          out = put_octets (sg_map sg) out
      in (len + 5, out))"

definition serialize_optional :: "('a \<Rightarrow> bytes \<Rightarrow> u32 \<times> bytes) \<Rightarrow> 'a option \<Rightarrow> bytes \<Rightarrow> u32 \<times> bytes" where
  "serialize_optional f x out =
     (case x of
        None \<Rightarrow> (0, put_tag OPT_EMPTY out)
      | Some y \<Rightarrow> f y (put_tag OPT_FULL out))"

definition serialize_state :: "decoder_state \<Rightarrow> bytes \<Rightarrow> (u32 \<times> bytes) result" where
  "serialize_state st out =
     (let out = put_tag DECODER_STATE out;
          len = 4;
          placeholder = length out;
          out = put_u32 len out;
          out = put_u16 (ds_width st) out;
          out = put_u16 (ds_height st) out;
          (l, out) = serialize_tables (ds_probability_tables st) out;
          len = len + l;
          (l, out) = serialize_optional serialize_segmentation (ds_segmentation st) out;
          len = len + l + 1;
          (l, out) = serialize_optional serialize_adjustments (ds_filter_adjustments st) out;
          len = len + l + 1
      in bind_result (patch_u32 len placeholder out) (\<lambda>out. Inr (len + 5, out)))"

text \<open>A raster: its display size and its three planes, whose size is the display size rounded up
  to whole macroblocks.\<close>

record raster =
  ra_display_width :: u16
  ra_display_height :: u16
  ra_Y :: bytes
  ra_U :: bytes
  ra_V :: bytes

definition macroblock_dimension :: "nat \<Rightarrow> nat" where
  "macroblock_dimension num = (num + 15) div 16"

definition padded :: "u16 \<Rightarrow> nat" where
  "padded n = (16 * macroblock_dimension (unat n)) mod 2 ^ 16"

definition raster_length :: "u16 \<Rightarrow> u16 \<Rightarrow> u32" where
  "raster_length w h =
     word_of_nat (padded w * padded h + 2 * (padded w div 2) * (padded h div 2))"

definition serialize_raster :: "tag \<Rightarrow> raster \<Rightarrow> bytes \<Rightarrow> u32 \<times> bytes" where
  "serialize_raster t r out =
     (let len = raster_length (ra_display_width r) (ra_display_height r);
          out = put_tag t out;
          out = put_u32 len out;
          out = put_octets (ra_Y r) out;
          out = put_octets (ra_U r) out;
          out = put_octets (ra_V r) out
      in (len + 5, out))"

text \<open>Only the last reference is stored.\<close>

definition serialize_references :: "raster references \<Rightarrow> bytes \<Rightarrow> (u32 \<times> bytes) result" where
  "serialize_references refs out =
     (let out = put_tag REFERENCES out;
          len = 4;
          placeholder = length out;
          out = put_u32 len out;
          out = put_u16 (ra_display_width (rf_last refs)) out;
          out = put_u16 (ra_display_height (rf_last refs)) out;
          (l, out) = serialize_raster REF_LAST (rf_last refs) out;
          len = len + l
      in bind_result (patch_u32 len placeholder out) (\<lambda>out. Inr (len + 5, out)))"

definition serialize_decoder :: "decoder_state \<Rightarrow> raster references \<Rightarrow> bytes \<Rightarrow> (u32 \<times> bytes) result" where
  "serialize_decoder st refs out =
     (let out = put_tag DECODER out;
          len = 0;
          placeholder = length out;
          out = put_u32 len out
      in bind_result (serialize_state st out) (\<lambda>(l, out).
         let len = len + l
         in bind_result (serialize_references refs out) (\<lambda>(l, out).
            let len = len + l
            in bind_result (patch_u32 len placeholder out) (\<lambda>out. Inr (len + 5, out)))))"


section \<open>The deserializer\<close>

type_synonym 'a deserializer = "bytes \<Rightarrow> ('a \<times> bytes) result"

definition get_octets :: "nat \<Rightarrow> bytes deserializer" where
  "get_octets n bs = (if n \<le> length bs then Inr (take n bs, drop n bs) else Inl Out_of_range)"

definition get_octet :: "u8 deserializer" where
  "get_octet bs = (case bs of [] \<Rightarrow> Inl Out_of_range | b # bs \<Rightarrow> Inr (b, bs))"

definition peek_octet :: "bytes \<Rightarrow> u8 result" where
  "peek_octet bs = (case bs of [] \<Rightarrow> Inl Out_of_range | b # _ \<Rightarrow> Inr b)"

definition get_u16 :: "u16 deserializer" where
  "get_u16 bs = bind_result (get_octets 2 bs) (\<lambda>(xs, bs). Inr (word_of_nat (le_nat xs), bs))"

definition get_u32 :: "u32 deserializer" where
  "get_u32 bs = bind_result (get_octets 4 bs) (\<lambda>(xs, bs). Inr (word_of_nat (le_nat xs), bs))"

definition expect_tag :: "tag \<Rightarrow> unit deserializer" where
  "expect_tag t bs =
     bind_result (get_octet bs) (\<lambda>(b, bs).
     bind_result (check (b = tag_num t) Assert_failed) (\<lambda>_. Inr ((), bs)))"

text \<open>Loops that read a table of octets.\<close>

primrec get_array :: "'a deserializer \<Rightarrow> nat \<Rightarrow> 'a list deserializer" where
  "get_array f 0 bs = Inr ([], bs)"
| "get_array f (Suc n) bs =
     bind_result (f bs) (\<lambda>(x, bs).
     bind_result (get_array f n bs) (\<lambda>(xs, bs). Inr (x # xs, bs)))"

definition deserialize_tables :: "probability_tables deserializer" where
  "deserialize_tables bs =
     bind_result (expect_tag PROB_TABLE bs) (\<lambda>(_, bs).
     bind_result (get_u32 bs) (\<lambda>(len, bs).
     bind_result (check (len = tables_length) Assert_failed) (\<lambda>_.
     bind_result (get_array (get_array (get_array (get_array get_octet ENTROPY_NODES) PREV_COEF_CONTEXTS) COEF_BANDS)
                    BLOCK_TYPES bs) (\<lambda>(coeff, bs).
     bind_result (get_array get_octet 4 bs) (\<lambda>(y, bs).
     bind_result (get_array get_octet 3 bs) (\<lambda>(uv, bs).
     bind_result (get_array (get_array get_octet MV_PROB_CNT) 2 bs) (\<lambda>(mv, bs).
     Inr (\<lparr>pt_coeff_probs = coeff, pt_y_mode_probs = y, pt_uv_mode_probs = uv, pt_mv_probs = mv\<rparr>, bs))))))))"

definition deserialize_adjustments :: "filter_adjustments deserializer" where
  "deserialize_adjustments bs =
     bind_result (expect_tag FILT_ADJ bs) (\<lambda>(_, bs).
     bind_result (get_u32 bs) (\<lambda>(len, bs).
     bind_result (check (len = adjustments_length) Assert_failed) (\<lambda>_.
     bind_result (get_array get_octet num_reference_frames bs) (\<lambda>(r, bs).
     bind_result (get_array get_octet 4 bs) (\<lambda>(m, bs).
     Inr (\<lparr>fa_ref_adjustments = r, fa_mode_adjustments = m\<rparr>, bs))))))"

definition deserialize_segmentation :: "segmentation deserializer" where
  "deserialize_segmentation bs =
     bind_result (get_octet bs) (\<lambda>(t, bs).
     bind_result (check (t = tag_num SEGM_ABS \<or> t = tag_num SEGM_REL) Assert_failed) (\<lambda>_.
     bind_result (get_u32 bs) (\<lambda>(len, bs).
     bind_result (get_u16 bs) (\<lambda>(w, bs).
     bind_result (get_u16 bs) (\<lambda>(h, bs).
     bind_result (check (len = segmentation_length (unat w) (unat h)) Assert_failed) (\<lambda>_.
     bind_result (check (0 < w \<and> 0 < h) Assert_failed) (\<lambda>_.
     bind_result (get_array get_octet num_segments bs) (\<lambda>(q, bs).
     bind_result (get_array get_octet num_segments bs) (\<lambda>(f, bs).
     bind_result (get_array get_octet (unat w * unat h) bs) (\<lambda>(m, bs).
     Inr (\<lparr>sg_absolute = (t = tag_num SEGM_ABS), sg_quantizer = q, sg_filter = f,
            sg_width = unat w, sg_height = unat h, sg_map = m\<rparr>, bs)))))))))))"

definition deserialize_optional :: "'a deserializer \<Rightarrow> 'a option deserializer" where
  "deserialize_optional f bs =
     bind_result (get_octet bs) (\<lambda>(t, bs).
     if t = tag_num OPT_FULL then bind_result (f bs) (\<lambda>(x, bs). Inr (Some x, bs)) else Inr (None, bs))"

definition deserialize_state :: "decoder_state deserializer" where
  "deserialize_state bs =
     bind_result (expect_tag DECODER_STATE bs) (\<lambda>(_, bs).
     bind_result (get_u32 bs) (\<lambda>(len, bs).
     bind_result (check (unat len \<le> length bs) Assert_failed) (\<lambda>_.
     bind_result (get_u16 bs) (\<lambda>(w, bs).
     bind_result (get_u16 bs) (\<lambda>(h, bs).
     bind_result (deserialize_tables bs) (\<lambda>(pt, bs).
     bind_result (deserialize_optional deserialize_segmentation bs) (\<lambda>(sg, bs).
     bind_result (deserialize_optional deserialize_adjustments bs) (\<lambda>(fa, bs).
     Inr (\<lparr>ds_width = w, ds_height = h, ds_probability_tables = pt, ds_segmentation = sg,
            ds_filter_adjustments = fa\<rparr>, bs)))))))))"

text \<open>\<open>get_ref\<close> fills a raster that the pool hands out; the contents it has are an argument.  If the
  tag is another one, the raster is returned as it is.\<close>

definition get_ref :: "tag \<Rightarrow> u16 \<Rightarrow> u16 \<Rightarrow> raster \<Rightarrow> raster deserializer" where
  "get_ref t w h pooled bs =
     bind_result (check (0 < w \<and> 0 < h) Assert_failed) (\<lambda>_.
     bind_result (peek_octet bs) (\<lambda>b.
     if b = tag_num t then
       bind_result (expect_tag t bs) (\<lambda>(_, bs).
       bind_result (get_u32 bs) (\<lambda>(len, bs).
       bind_result (check (len = raster_length w h) Assert_failed) (\<lambda>_.
       bind_result (get_array get_octet (padded w * padded h) bs) (\<lambda>(y, bs).
       bind_result (get_array get_octet ((padded w div 2) * (padded h div 2)) bs) (\<lambda>(u, bs).
       bind_result (get_array get_octet ((padded w div 2) * (padded h div 2)) bs) (\<lambda>(v, bs).
       Inr (\<lparr>ra_display_width = w, ra_display_height = h, ra_Y = y, ra_U = u, ra_V = v\<rparr>, bs)))))))
     else Inr (pooled, bs)))"

definition deserialize_references :: "raster \<Rightarrow> raster references deserializer" where
  "deserialize_references pooled bs =
     bind_result (expect_tag REFERENCES bs) (\<lambda>(_, bs).
     bind_result (get_u32 bs) (\<lambda>(len, bs).
     bind_result (check (unat len \<le> length bs) Assert_failed) (\<lambda>_.
     bind_result (get_u16 bs) (\<lambda>(w, bs).
     bind_result (get_u16 bs) (\<lambda>(h, bs).
     bind_result (get_ref REF_LAST w h pooled bs) (\<lambda>(r, bs).
     Inr (references_of r, bs)))))))"

definition deserialize_decoder :: "raster \<Rightarrow> bytes \<Rightarrow> (decoder_state \<times> raster references) result" where
  "deserialize_decoder pooled bs =
     bind_result (expect_tag DECODER bs) (\<lambda>(_, bs).
     bind_result (get_u32 bs) (\<lambda>(len, bs).
     bind_result (check (unat len = length bs) Assert_failed) (\<lambda>_.
     bind_result (deserialize_state bs) (\<lambda>(st, bs).
     bind_result (deserialize_references pooled bs) (\<lambda>(refs, bs).
     bind_result (check (bs = []) Assert_failed) (\<lambda>_.
     Inr (st, refs)))))))"


section \<open>What a reader and the bytes it reads promise\<close>

definition loads :: "'a deserializer \<Rightarrow> bytes \<Rightarrow> 'a \<Rightarrow> bool" where
  "loads f b x \<longleftrightarrow> (\<forall>rest. f (b @ rest) = Inr (x, rest))"

lemma loads_return: "x = y \<Longrightarrow> loads (\<lambda>bs. Inr (x, bs)) [] y"
  by (simp add: loads_def)

lemma loads_bind:
  "loads f b x \<Longrightarrow> loads (k x) c y \<Longrightarrow> loads (\<lambda>bs. bind_result (f bs) (\<lambda>(x, bs). k x bs)) (b @ c) y"
  by (simp add: loads_def)

lemma loads_bind_last:
  "loads f b x \<Longrightarrow> g x = y \<Longrightarrow> loads (\<lambda>bs. bind_result (f bs) (\<lambda>(x, bs). Inr (g x, bs))) b y"
  by (simp add: loads_def)

lemma loads_check:
  "\<lbrakk>\<And>rest. P (b @ rest); loads k b y\<rbrakk> \<Longrightarrow> loads (\<lambda>bs. bind_result (check (P bs) e) (\<lambda>_. k bs)) b y"
  by (simp add: loads_def)

lemma loads_octet: "loads get_octet [b] b"
  by (simp add: loads_def get_octet_def)

lemma loads_tag: "loads (expect_tag t) [tag_num t] ()"
  by (simp add: loads_def get_octet_def expect_tag_def)

lemma loads_u16: "loads get_u16 (nat_le 2 (unat n)) n"
  using unat_lt2p [of n] by (simp add: loads_def get_u16_def get_octets_def)

lemma loads_u32: "loads get_u32 (nat_le 4 (unat n)) n"
  using unat_lt2p [of n] by (simp add: loads_def get_u32_def get_octets_def)

text \<open>A part of the state that is stored: its bytes, its reader and the values it is stored for.\<close>

locale storable =
  fixes store :: "'a \<Rightarrow> bytes"
    and load :: "'a deserializer"
    and ok :: "'a \<Rightarrow> bool"
  assumes stored: "ok x \<Longrightarrow> loads load (store x) x"
begin

lemma array:
  assumes "length xs = n" and "list_all ok xs"
  shows "loads (get_array load n) (concat (map store xs)) xs"
  using assms
proof (induction xs arbitrary: n)
  case Nil
  then show ?case by (simp add: loads_def)
next
  case (Cons x xs)
  then obtain m where n: "n = Suc m" by auto
  have more: "loads (get_array load m) (concat (map store xs)) xs" and first: "loads load (store x) x"
    using Cons n stored by simp_all
  show ?case
    unfolding n get_array.simps list.map concat.simps
    by (rule loads_bind [OF first], rule loads_bind_last [OF more]) simp
qed

lemma optional:
  assumes "\<forall>y. x = Some y \<longrightarrow> ok y"
  shows "loads (deserialize_optional load)
    (case x of None \<Rightarrow> [tag_num OPT_EMPTY] | Some y \<Rightarrow> tag_num OPT_FULL # store y) x"
proof (cases x)
  case None
  then show ?thesis
    by (simp add: loads_def deserialize_optional_def get_octet_def)
next
  case (Some y)
  then show ?thesis
    using assms stored [of y] by (simp add: loads_def deserialize_optional_def get_octet_def)
qed

end

interpretation octet: storable "\<lambda>b. [b]" get_octet "\<lambda>_. True"
  by unfold_locales (rule loads_octet)

lemma octets: "length xs = n \<Longrightarrow> loads (get_array get_octet n) xs xs"
  using octet.array [of xs n] by (simp add: list_all_iff)

lemma octet_rows: "storable (\<lambda>xs. xs) (get_array get_octet n) (\<lambda>xs. length xs = n)"
  by unfold_locales (rule octets)

lemma octet_matrix: "shape2 m n xs \<Longrightarrow> loads (get_array (get_array get_octet n) m) (concat xs) xs"
  using storable.array [OF octet_rows, of xs m n] by (simp add: shape2_def)

lemma octet_matrices:
  "storable concat (get_array (get_array get_octet n) m) (shape2 m n)"
  by unfold_locales (rule octet_matrix)

definition planes_ok :: "nat \<Rightarrow> nat \<Rightarrow> nat \<Rightarrow> u8 list list list \<Rightarrow> bool" where
  "planes_ok k m n xs \<longleftrightarrow> length xs = k \<and> list_all (shape2 m n) xs"

lemma concat_concats:
  "concat (map concat xs) = concat (concat xs)"
  "concat (map (\<lambda>ys. concat (concat ys)) zs) = concat (concat (concat zs))"
  by (induction xs, simp_all) (induction zs, simp_all)

lemma octet_planes:
  "storable (\<lambda>xs. concat (concat xs)) (get_array (get_array (get_array get_octet n) m) k) (planes_ok k m n)"
  using storable.array [OF octet_matrices]
  by unfold_locales (simp add: planes_ok_def concat_concats)

lemma octet_table:
  "coeff_shape xs \<Longrightarrow>
   loads (get_array (get_array (get_array (get_array get_octet ENTROPY_NODES) PREV_COEF_CONTEXTS) COEF_BANDS) BLOCK_TYPES)
     (concat (concat (concat xs))) xs"
  using storable.array [OF octet_planes, of xs BLOCK_TYPES COEF_BANDS PREV_COEF_CONTEXTS ENTROPY_NODES]
  by (simp add: coeff_shape_def planes_ok_def [abs_def] concat_concats)


section \<open>The parts of the state\<close>

definition tables_bytes :: "probability_tables \<Rightarrow> bytes" where
  "tables_bytes pt =
     tag_num PROB_TABLE # nat_le 4 (unat tables_length) @ concat (concat (concat (pt_coeff_probs pt)))
       @ pt_y_mode_probs pt @ pt_uv_mode_probs pt @ concat (pt_mv_probs pt)"

definition adjustments_bytes :: "filter_adjustments \<Rightarrow> bytes" where
  "adjustments_bytes fa =
     tag_num FILT_ADJ # nat_le 4 (unat adjustments_length) @ fa_ref_adjustments fa @ fa_mode_adjustments fa"

definition segmentation_bytes :: "segmentation \<Rightarrow> bytes" where
  "segmentation_bytes sg =
     tag_num (if sg_absolute sg then SEGM_ABS else SEGM_REL)
       # nat_le 4 (unat (segmentation_length (sg_width sg) (sg_height sg)))
       @ nat_le 2 (unat (word_of_nat (sg_width sg) :: u16)) @ nat_le 2 (unat (word_of_nat (sg_height sg) :: u16))
       @ sg_quantizer sg @ sg_filter sg @ sg_map sg"

lemmas put_defs = put_tag_def put_u16_def put_u32_def put_octets_def

lemma length_concat_rows: "\<forall>ys\<in>set xs. length ys = n \<Longrightarrow> length (concat xs) = length xs * n"
  by (induction xs) simp_all

lemma length_coeff: "coeff_shape xs \<Longrightarrow> length (concat (concat (concat xs))) = 1056"
proof -
  assume xs: "coeff_shape xs"
  have "length (concat xs) = BLOCK_TYPES * COEF_BANDS"
    using xs length_concat_rows [of xs COEF_BANDS] by (simp add: coeff_shape_def list_all_iff)
  moreover have rows: "\<forall>ys\<in>set (concat xs). length ys = PREV_COEF_CONTEXTS \<and> (\<forall>zs\<in>set ys. length zs = ENTROPY_NODES)"
    using xs by (auto simp: coeff_shape_def list_all_iff shape2_def)
  ultimately have "length (concat (concat xs)) = BLOCK_TYPES * COEF_BANDS * PREV_COEF_CONTEXTS"
    using length_concat_rows [of "concat xs" PREV_COEF_CONTEXTS] by simp
  moreover have "\<forall>zs\<in>set (concat (concat xs)). length zs = ENTROPY_NODES"
    using rows by auto
  ultimately show ?thesis
    using length_concat_rows [of "concat (concat xs)" ENTROPY_NODES] by (simp add: size_defs)
qed

lemma length_mv: "mv_shape xs \<Longrightarrow> length (concat xs) = 38"
  using length_concat_rows [of xs MV_PROB_CNT] by (simp add: mv_shape_def shape2_def list_all_iff MV_PROB_CNT_def)

lemma tables_length_value: "tables_length = 1101"
  by (simp add: tables_length_def size_defs)

lemma tables_stored:
  "probability_tables_ok pt \<Longrightarrow> serialize_tables pt out = (word_of_nat (length (tables_bytes pt)), out @ tables_bytes pt)"
  by (simp add: serialize_tables_def put_defs Let_def tables_bytes_def length_coeff length_mv probability_tables_ok_def
      tables_length_value)

interpretation tables: storable tables_bytes deserialize_tables probability_tables_ok
proof
  fix pt
  assume pt: "probability_tables_ok pt"
  note parts = octet_table octets octet_matrix
  have "loads deserialize_tables
      ([tag_num PROB_TABLE] @ nat_le 4 (unat tables_length) @ concat (concat (concat (pt_coeff_probs pt)))
       @ pt_y_mode_probs pt @ pt_uv_mode_probs pt @ concat (pt_mv_probs pt)) pt"
    unfolding deserialize_tables_def [abs_def]
    by (rule loads_bind [OF loads_tag], rule loads_bind [OF loads_u32], rule loads_check, simp,
        rule loads_bind [OF octet_table], use pt in \<open>simp add: probability_tables_ok_def\<close>,
        rule loads_bind [OF octets], use pt in \<open>simp add: probability_tables_ok_def\<close>,
        rule loads_bind [OF octets], use pt in \<open>simp add: probability_tables_ok_def\<close>,
        rule loads_bind_last [OF octet_matrix], use pt in \<open>simp add: probability_tables_ok_def mv_shape_def\<close>, simp)
  then show "loads deserialize_tables (tables_bytes pt) pt"
    by (simp add: tables_bytes_def)
qed

lemma adjustments_stored:
  "filter_adjustments_ok fa \<Longrightarrow>
   serialize_adjustments fa out = (word_of_nat (length (adjustments_bytes fa)), out @ adjustments_bytes fa)"
  by (simp add: serialize_adjustments_def put_defs Let_def adjustments_bytes_def filter_adjustments_ok_def
      adjustments_length_def num_reference_frames_def)

interpretation adjustments: storable adjustments_bytes deserialize_adjustments filter_adjustments_ok
proof
  fix fa
  assume fa: "filter_adjustments_ok fa"
  have "loads deserialize_adjustments
      ([tag_num FILT_ADJ] @ nat_le 4 (unat adjustments_length) @ fa_ref_adjustments fa @ fa_mode_adjustments fa) fa"
    unfolding deserialize_adjustments_def [abs_def]
    by (rule loads_bind [OF loads_tag], rule loads_bind [OF loads_u32], rule loads_check, simp,
        rule loads_bind [OF octets], use fa in \<open>simp add: filter_adjustments_ok_def\<close>,
        rule loads_bind_last [OF octets], use fa in \<open>simp add: filter_adjustments_ok_def\<close>, simp)
  then show "loads deserialize_adjustments (adjustments_bytes fa) fa"
    by (simp add: adjustments_bytes_def)
qed

lemma segmentation_stored:
  "segmentation_ok w h sg \<Longrightarrow>
   serialize_segmentation sg out = (word_of_nat (length (segmentation_bytes sg)), out @ segmentation_bytes sg)"
  by (simp add: serialize_segmentation_def put_defs Let_def segmentation_bytes_def segmentation_ok_def
      segmentation_length_def num_segments_def)

lemma segmentation_loads:
  assumes "0 < w" "0 < h"
  shows "storable segmentation_bytes deserialize_segmentation (segmentation_ok w h)"
proof
  fix sg
  assume sg: "segmentation_ok w h sg"
  let ?t = "tag_num (if sg_absolute sg then SEGM_ABS else SEGM_REL)"
  have dims: "sg_width sg = unat w" "sg_height sg = unat h"
    using sg by (simp_all add: segmentation_ok_def)
  have "loads deserialize_segmentation
      ([?t] @ nat_le 4 (unat (segmentation_length (unat w) (unat h))) @ nat_le 2 (unat w) @ nat_le 2 (unat h)
       @ sg_quantizer sg @ sg_filter sg @ sg_map sg) sg"
    unfolding deserialize_segmentation_def [abs_def]
    by (rule loads_bind [OF loads_octet], rule loads_check, simp,
        rule loads_bind [OF loads_u32], rule loads_bind [OF loads_u16], rule loads_bind [OF loads_u16],
        rule loads_check, simp, rule loads_check, simp add: assms,
        rule loads_bind [OF octets], use sg in \<open>simp add: segmentation_ok_def\<close>,
        rule loads_bind [OF octets], use sg in \<open>simp add: segmentation_ok_def\<close>,
        rule loads_bind_last [OF octets], use sg in \<open>simp add: segmentation_ok_def\<close>,
        use dims in simp)
  then show "loads deserialize_segmentation (segmentation_bytes sg) sg"
    by (simp add: segmentation_bytes_def dims)
qed


section \<open>The whole decoder\<close>

definition optional_bytes :: "('a \<Rightarrow> bytes) \<Rightarrow> 'a option \<Rightarrow> bytes" where
  "optional_bytes f x = (case x of None \<Rightarrow> [tag_num OPT_EMPTY] | Some y \<Rightarrow> tag_num OPT_FULL # f y)"

definition state_body :: "decoder_state \<Rightarrow> bytes" where
  "state_body st =
     nat_le 2 (unat (ds_width st)) @ nat_le 2 (unat (ds_height st)) @ tables_bytes (ds_probability_tables st)
       @ optional_bytes segmentation_bytes (ds_segmentation st)
       @ optional_bytes adjustments_bytes (ds_filter_adjustments st)"

definition framed :: "tag \<Rightarrow> bytes \<Rightarrow> bytes" where
  "framed t body = tag_num t # nat_le 4 (unat (word_of_nat (length body) :: u32)) @ body"

definition state_bytes :: "decoder_state \<Rightarrow> bytes" where
  "state_bytes st = framed DECODER_STATE (state_body st)"

lemma patch_framed:
  assumes "length old = 4" and "len = word_of_nat (length body)"
  shows "patch_u32 len (length (put_tag t out)) (put_tag t out @ old @ body) = Inr (out @ framed t body)"
  using assms by (simp add: patch_u32_def put_tag_def framed_def)

lemma optional_stored:
  assumes "\<And>y out. x = Some y \<Longrightarrow> f y out = (word_of_nat (length (b y)), out @ b y)"
  shows "serialize_optional f x out = (word_of_nat (length (optional_bytes b x)) - 1, out @ optional_bytes b x)"
  using assms by (cases x) (simp_all add: serialize_optional_def optional_bytes_def put_tag_def)

lemma state_stored:
  assumes "decoder_state_ok st"
  shows "serialize_state st out = Inr (word_of_nat (length (state_bytes st)), out @ state_bytes st)"
proof -
  have ok: "probability_tables_ok (ds_probability_tables st)"
    "\<And>sg. ds_segmentation st = Some sg \<Longrightarrow> segmentation_ok (ds_width st) (ds_height st) sg"
    "\<And>fa. ds_filter_adjustments st = Some fa \<Longrightarrow> filter_adjustments_ok fa"
    using assms by (simp_all add: decoder_state_ok_def)
  have sg: "serialize_optional serialize_segmentation (ds_segmentation st) o1
      = (word_of_nat (length (optional_bytes segmentation_bytes (ds_segmentation st))) - 1,
         o1 @ optional_bytes segmentation_bytes (ds_segmentation st))" for o1
    by (rule optional_stored) (rule segmentation_stored [OF ok(2)])
  have fa: "serialize_optional serialize_adjustments (ds_filter_adjustments st) o1
      = (word_of_nat (length (optional_bytes adjustments_bytes (ds_filter_adjustments st))) - 1,
         o1 @ optional_bytes adjustments_bytes (ds_filter_adjustments st))" for o1
    by (rule optional_stored) (rule adjustments_stored [OF ok(3)])
  show ?thesis
    unfolding serialize_state_def Let_def tables_stored [OF ok(1)] prod.case sg fa
    by (simp add: put_u16_def put_u32_def patch_framed state_bytes_def state_body_def framed_def algebra_simps)
qed

lemma state_loads:
  assumes ok: "decoder_state_ok st" and size: "length (state_body st) < 2 ^ 32"
  shows "loads deserialize_state (state_bytes st) st"
proof -
  have dims: "0 < ds_width st" "0 < ds_height st" and pt: "probability_tables_ok (ds_probability_tables st)"
    using ok by (simp_all add: decoder_state_ok_def)
  have sg: "loads (deserialize_optional deserialize_segmentation) (optional_bytes segmentation_bytes (ds_segmentation st))
      (ds_segmentation st)"
    unfolding optional_bytes_def
    by (rule storable.optional [OF segmentation_loads [OF dims]]) (use ok in \<open>simp add: decoder_state_ok_def\<close>)
  have fa: "loads (deserialize_optional deserialize_adjustments) (optional_bytes adjustments_bytes (ds_filter_adjustments st))
      (ds_filter_adjustments st)"
    unfolding optional_bytes_def
    by (rule adjustments.optional) (use ok in \<open>simp add: decoder_state_ok_def\<close>)
  have "unat (word_of_nat (length (state_body st)) :: u32) = length (state_body st)"
    using size by (simp add: unat_of_nat take_bit_nat_eq_self)
  then have "loads deserialize_state ([tag_num DECODER_STATE] @ nat_le 4 (unat (word_of_nat (length (state_body st)) :: u32))
      @ state_body st) st"
    unfolding deserialize_state_def [abs_def]
    by (intro loads_bind [OF loads_tag] loads_bind [OF loads_u32] loads_check) (simp, unfold state_body_def,
        rule loads_bind [OF loads_u16], rule loads_bind [OF loads_u16], rule loads_bind [OF tables.stored [OF pt]],
        rule loads_bind [OF sg], rule loads_bind_last [OF fa], simp)
  then show ?thesis
    by (simp add: state_bytes_def framed_def)
qed

definition raster_ok :: "raster \<Rightarrow> bool" where
  "raster_ok r \<longleftrightarrow>
     0 < ra_display_width r \<and> 0 < ra_display_height r \<and>
     length (ra_Y r) = padded (ra_display_width r) * padded (ra_display_height r) \<and>
     length (ra_U r) = (padded (ra_display_width r) div 2) * (padded (ra_display_height r) div 2) \<and>
     length (ra_V r) = (padded (ra_display_width r) div 2) * (padded (ra_display_height r) div 2)"

definition raster_bytes :: "tag \<Rightarrow> raster \<Rightarrow> bytes" where
  "raster_bytes t r =
     tag_num t # nat_le 4 (unat (raster_length (ra_display_width r) (ra_display_height r)))
       @ ra_Y r @ ra_U r @ ra_V r"

lemma raster_stored:
  "raster_ok r \<Longrightarrow> serialize_raster t r out = (word_of_nat (length (raster_bytes t r)), out @ raster_bytes t r)"
  by (simp add: serialize_raster_def put_defs Let_def raster_bytes_def raster_ok_def raster_length_def)

lemma raster_loads:
  assumes "raster_ok r"
  shows "loads (get_ref t (ra_display_width r) (ra_display_height r) pooled) (raster_bytes t r) r"
proof -
  let ?w = "ra_display_width r" and ?h = "ra_display_height r"
  let ?k = "\<lambda>bs. bind_result (expect_tag t bs) (\<lambda>(_, bs).
       bind_result (get_u32 bs) (\<lambda>(len, bs).
       bind_result (check (len = raster_length ?w ?h) Assert_failed) (\<lambda>_.
       bind_result (get_array get_octet (padded ?w * padded ?h) bs) (\<lambda>(y, bs).
       bind_result (get_array get_octet ((padded ?w div 2) * (padded ?h div 2)) bs) (\<lambda>(u, bs).
       bind_result (get_array get_octet ((padded ?w div 2) * (padded ?h div 2)) bs) (\<lambda>(v, bs).
       Inr (\<lparr>ra_display_width = ?w, ra_display_height = ?h, ra_Y = y, ra_U = u, ra_V = v\<rparr>, bs)))))))"
  have "loads ?k ([tag_num t] @ nat_le 4 (unat (raster_length ?w ?h)) @ ra_Y r @ ra_U r @ ra_V r) r"
    by (rule loads_bind [OF loads_tag], rule loads_bind [OF loads_u32], rule loads_check, simp,
        rule loads_bind [OF octets], use assms in \<open>simp add: raster_ok_def\<close>,
        rule loads_bind [OF octets], use assms in \<open>simp add: raster_ok_def\<close>,
        rule loads_bind_last [OF octets], use assms in \<open>simp add: raster_ok_def\<close>, simp)
  moreover have "get_ref t ?w ?h pooled (raster_bytes t r @ rest) = ?k (raster_bytes t r @ rest)" for rest
    using assms by (simp add: get_ref_def raster_ok_def raster_bytes_def peek_octet_def)
  ultimately show ?thesis
    by (simp add: loads_def raster_bytes_def)
qed

definition references_body :: "raster references \<Rightarrow> bytes" where
  "references_body refs =
     nat_le 2 (unat (ra_display_width (rf_last refs))) @ nat_le 2 (unat (ra_display_height (rf_last refs)))
       @ raster_bytes REF_LAST (rf_last refs)"

lemma references_stored:
  assumes "raster_ok (rf_last refs)"
  shows "serialize_references refs out
    = Inr (word_of_nat (length (framed REFERENCES (references_body refs))), out @ framed REFERENCES (references_body refs))"
  unfolding serialize_references_def Let_def raster_stored [OF assms] prod.case
  by (simp add: put_u16_def put_u32_def patch_framed references_body_def framed_def add_ac)

lemma references_loads:
  assumes ok: "raster_ok (rf_last refs)" and size: "length (references_body refs) < 2 ^ 32"
  shows "loads (deserialize_references pooled) (framed REFERENCES (references_body refs)) (references_of (rf_last refs))"
proof -
  have "unat (word_of_nat (length (references_body refs)) :: u32) = length (references_body refs)"
    using size by (simp add: unat_of_nat take_bit_nat_eq_self)
  then have "loads (deserialize_references pooled)
      ([tag_num REFERENCES] @ nat_le 4 (unat (word_of_nat (length (references_body refs)) :: u32)) @ references_body refs)
      (references_of (rf_last refs))"
    unfolding deserialize_references_def [abs_def]
    by (intro loads_bind [OF loads_tag] loads_bind [OF loads_u32] loads_check) (simp, unfold references_body_def,
        rule loads_bind [OF loads_u16], rule loads_bind [OF loads_u16],
        rule loads_bind_last [OF raster_loads [OF ok]], simp)
  then show ?thesis
    by (simp add: framed_def)
qed

definition decoder_bytes :: "decoder_state \<Rightarrow> raster references \<Rightarrow> bytes" where
  "decoder_bytes st refs = framed DECODER (state_bytes st @ framed REFERENCES (references_body refs))"

lemma decoder_stored:
  assumes "decoder_state_ok st" and "raster_ok (rf_last refs)"
  shows "serialize_decoder st refs out = Inr (word_of_nat (length (decoder_bytes st refs)), out @ decoder_bytes st refs)"
  unfolding serialize_decoder_def Let_def state_stored [OF assms(1)] references_stored [OF assms(2)] bind_result_simps prod.case
  by (simp add: put_u32_def patch_framed decoder_bytes_def framed_def add_ac)

lemma decoder_loads:
  assumes st: "decoder_state_ok st" and refs: "raster_ok (rf_last refs)" and size: "length (decoder_bytes st refs) < 2 ^ 32"
  shows "deserialize_decoder pooled (decoder_bytes st refs) = Inr (st, references_of (rf_last refs))"
proof -
  let ?a = "state_bytes st" and ?b = "framed REFERENCES (references_body refs)"
  define body where "body = ?a @ ?b"
  have bytes: "decoder_bytes st refs = framed DECODER body"
    by (simp add: decoder_bytes_def body_def)
  have "length (state_body st) < 2 ^ 32" "length (references_body refs) < 2 ^ 32" "length body < 2 ^ 32"
    using size by (simp_all add: decoder_bytes_def body_def framed_def state_bytes_def)
  note parts = state_loads [OF st this(1)] references_loads [OF refs this(2)] and total = this(3)
  have "unat (word_of_nat (length body) :: u32) = length body"
    using total by (intro unat_of_nat_lt) simp
  moreover have "deserialize_state body = Inr (st, ?b)"
    using parts(1) unfolding loads_def body_def by blast
  moreover have "deserialize_references pooled ?b = Inr (references_of (rf_last refs), [])"
    using parts(2) unfolding loads_def by (metis append_Nil2)
  moreover have "expect_tag DECODER (framed DECODER body) = Inr ((), nat_le 4 (unat (word_of_nat (length body) :: u32)) @ body)"
    by (simp add: framed_def expect_tag_def get_octet_def)
  moreover have "get_u32 (nat_le 4 (unat (word_of_nat (length body) :: u32)) @ body) = Inr (word_of_nat (length body), body)"
    using loads_u32 unfolding loads_def by blast
  ultimately show ?thesis
    unfolding bytes by (simp add: deserialize_decoder_def)
qed

section \<open>Properties\<close>

text \<open>C29: A stored decoder is restored.  Storing a decoder whose state is well formed succeeds, and
  reading the bytes back gives the same state, with the last reference restored exactly and
  standing in for the golden and alternate references, which are not stored.  Every length field
  is checked on the way, so the patched lengths are the true ones.\<close>

theorem decoder_store_roundtrip:
  assumes "decoder_state_ok st" and "raster_ok (rf_last refs)"
    and "serialize_decoder st refs [] = Inr (len, out)" and "length out < 2 ^ 32"
  shows "unat len = length out \<and> deserialize_decoder pooled out = Inr (st, references_of (rf_last refs))"
proof -
  have out: "out = decoder_bytes st refs" and len: "len = word_of_nat (length out)"
    using decoder_stored [OF assms(1,2), of "[]"] assms(3) by simp_all
  show ?thesis
    using decoder_loads [OF assms(1,2)] assms(4) unfolding len
    by (simp add: out unat_of_nat take_bit_nat_eq_self)
qed

definition tiny_raster :: "u8 \<Rightarrow> raster" where
  "tiny_raster v =
     \<lparr>ra_display_width = 16, ra_display_height = 16, ra_Y = replicate 256 v, ra_U = replicate 64 v, ra_V = replicate 64 v\<rparr>"

theorem decoder_store_roundtrip_witness:
  "\<exists>len out. serialize_decoder (decoder_state_init 16 16) (references_of (tiny_raster 7)) [] = Inr (len, out) \<and>
     deserialize_decoder (tiny_raster 0) out = Inr (decoder_state_init 16 16, references_of (tiny_raster 7))"
proof -
  let ?st = "decoder_state_init 16 16" and ?refs = "references_of (tiny_raster 7)"
  have ok: "decoder_state_ok ?st" "raster_ok (rf_last ?refs)"
    by (simp_all add: initial_state_ok references_of_def raster_ok_def tiny_raster_def padded_def macroblock_dimension_def)
  have "length (decoder_bytes ?st ?refs) < 2 ^ 32"
    by (simp add: decoder_bytes_def framed_def state_bytes_def state_body_def tables_bytes_def length_coeff length_mv
        optional_bytes_def references_body_def references_of_def raster_bytes_def tiny_raster_def
        decoder_state_init_def default_probability_tables_def)
  then show ?thesis
    using decoder_stored [OF ok, of "[]"] decoder_store_roundtrip [OF ok, of _ _ "tiny_raster 0"]
    by (simp add: references_of_def)
qed

end
