(* ===== verification/Raster_Pool.thy ===== *)
theory Raster_Pool
  imports Reconstruction State_Store
begin

text \<open>
  Rasters and the pool that recycles them (\<open>VP8Raster\<close>, \<open>HashCachedRaster\<close>, \<open>RasterPool\<close> and the
  deleter and the two handles of src/src/decoder/raster_handle.cc).  A raster belongs to the pool while
  it is unused, to one mutable handle while a frame is decoded into it, and then to the immutable handles
  that share it; the last handle returns it to the pool.
\<close>

section \<open>The code\<close>

record cached_raster =
  hr_display_width :: u16
  hr_display_height :: u16
  hr_planes :: planes
  hr_frozen_hash :: "u64 option"

text \<open>The members of a raster are built before its constructor compares the sizes.\<close>

definition new_raster :: "u16 \<Rightarrow> u16 \<Rightarrow> cached_raster result" where
  "new_raster w h =
     bind_result (check (0 < padded w \<and> 0 < padded h) Assert_failed) (\<lambda>_.
     bind_result (check (unat w \<le> padded w) Invalid) (\<lambda>_.
     bind_result (check (unat h \<le> padded h) Invalid) (\<lambda>_.
     Inr \<lparr>hr_display_width = w, hr_display_height = h,
          hr_planes = \<lparr>rp_Y = new_plane (padded w) (padded h) 0,
                       rp_U = new_plane (padded w div 2) (padded h div 2) 0,
                       rp_V = new_plane (padded w div 2) (padded h div 2) 0\<rparr>,
          hr_frozen_hash = None\<rparr>)))"

definition raw_hash :: "(u64 \<Rightarrow> u64 \<Rightarrow> u64) \<Rightarrow> planes \<Rightarrow> u64" where
  "raw_hash combine s =
     (let v = hash_range combine 0 (pl_data (rp_Y s));
          v = hash_range combine v (pl_data (rp_U s))
      in hash_range combine v (pl_data (rp_V s)))"

definition raster_hash :: "(u64 \<Rightarrow> u64 \<Rightarrow> u64) \<Rightarrow> cached_raster \<Rightarrow> u64 \<times> cached_raster" where
  "raster_hash combine r =
     (case hr_frozen_hash r of
        Some v \<Rightarrow> (v, r)
      | None \<Rightarrow> let v = raw_hash combine (hr_planes r) in (v, r\<lparr>hr_frozen_hash := Some v\<rparr>))"

text \<open>\<open>make_raster\<close> and \<open>free_raster\<close>; the queue's front is the head of the list.  The deleter resets the
  cached hash.\<close>

definition make_raster :: "bool \<Rightarrow> u16 \<Rightarrow> u16 \<Rightarrow> cached_raster list \<Rightarrow> cached_raster list \<times> cached_raster result" where
  "make_raster allow_resize w h unused =
     (case unused of
        [] \<Rightarrow> ([], new_raster w h)
      | r # rest \<Rightarrow>
          if hr_display_width r \<noteq> w \<or> hr_display_height r \<noteq> h then
            if allow_resize then ([], new_raster w h) else (unused, Inl Unsupported)
          else (rest, Inr r))"

definition free_raster :: "cached_raster \<Rightarrow> cached_raster list \<Rightarrow> cached_raster list" where
  "free_raster r unused = unused @ [r\<lparr>hr_frozen_hash := None\<rparr>]"

text \<open>The constructors of the handles, which assert that the hash of what is decoded into is not
  cached.\<close>

definition mutable_handle :: "bool \<Rightarrow> u16 \<Rightarrow> u16 \<Rightarrow> cached_raster list \<Rightarrow> cached_raster list \<times> cached_raster result" where
  "mutable_handle allow_resize w h unused =
     (case make_raster allow_resize w h unused of
        (unused, Inl e) \<Rightarrow> (unused, Inl e)
      | (unused, Inr r) \<Rightarrow> (unused, bind_result (check (hr_frozen_hash r = None) Assert_failed) (\<lambda>_. Inr r)))"

definition immutable_handle :: "cached_raster \<Rightarrow> cached_raster result" where
  "immutable_handle r = bind_result (check (hr_frozen_hash r = None) Assert_failed) (\<lambda>_. Inr r)"


section \<open>The lives of rasters\<close>

text \<open>All rasters of the process: unused ones, those a mutable handle owns, and those that immutable
  handles share.  The pixels of a mutable one change; a failing constructor or the end of a handle's life
  returns a raster.\<close>

record rasters =
  rs_unused :: "cached_raster list"
  rs_mutable :: "cached_raster list"
  rs_shared :: "cached_raster list"

definition same_size :: "planes \<Rightarrow> planes \<Rightarrow> bool" where
  "same_size s t \<longleftrightarrow>
     pl_width (rp_Y s) = pl_width (rp_Y t) \<and> pl_height (rp_Y s) = pl_height (rp_Y t) \<and>
     length (pl_data (rp_Y s)) = length (pl_data (rp_Y t)) \<and>
     pl_width (rp_U s) = pl_width (rp_U t) \<and> pl_height (rp_U s) = pl_height (rp_U t) \<and>
     length (pl_data (rp_U s)) = length (pl_data (rp_U t)) \<and>
     pl_width (rp_V s) = pl_width (rp_V t) \<and> pl_height (rp_V s) = pl_height (rp_V t) \<and>
     length (pl_data (rp_V s)) = length (pl_data (rp_V t))"

inductive raster_step :: "(u64 \<Rightarrow> u64 \<Rightarrow> u64) \<Rightarrow> bool \<Rightarrow> rasters \<Rightarrow> rasters \<Rightarrow> bool" for combine allow_resize where
  Acquire: "mutable_handle allow_resize w h (rs_unused s) = (unused, Inr r) \<Longrightarrow>
    raster_step combine allow_resize s (s\<lparr>rs_unused := unused, rs_mutable := r # rs_mutable s\<rparr>)"
| Acquire_fails: "mutable_handle allow_resize w h (rs_unused s) = (unused, Inl e) \<Longrightarrow>
    raster_step combine allow_resize s (s\<lparr>rs_unused := unused\<rparr>)"
| Draw: "rs_mutable s = rs @ r # rs' \<Longrightarrow> same_size p (hr_planes r) \<Longrightarrow>
    raster_step combine allow_resize s (s\<lparr>rs_mutable := rs @ r\<lparr>hr_planes := p\<rparr> # rs'\<rparr>)"
| Abandon: "rs_mutable s = rs @ r # rs' \<Longrightarrow>
    raster_step combine allow_resize s (s\<lparr>rs_mutable := rs @ rs', rs_unused := free_raster r (rs_unused s)\<rparr>)"
| Share: "rs_mutable s = rs @ r # rs' \<Longrightarrow> immutable_handle r = Inr r' \<Longrightarrow>
    raster_step combine allow_resize s (s\<lparr>rs_mutable := rs @ rs', rs_shared := r' # rs_shared s\<rparr>)"
| Hash: "rs_shared s = rs @ r # rs' \<Longrightarrow> raster_hash combine r = (v, r') \<Longrightarrow>
    raster_step combine allow_resize s (s\<lparr>rs_shared := rs @ r' # rs'\<rparr>)"
| Release: "rs_shared s = rs @ r # rs' \<Longrightarrow>
    raster_step combine allow_resize s (s\<lparr>rs_shared := rs @ rs', rs_unused := free_raster r (rs_unused s)\<rparr>)"

definition no_rasters :: rasters where
  "no_rasters = \<lparr>rs_unused = [], rs_mutable = [], rs_shared = []\<rparr>"


section \<open>What a raster is\<close>

text \<open>A raster whose planes have the size its display size determines.\<close>

definition raster_sized :: "cached_raster \<Rightarrow> bool" where
  "raster_sized r \<longleftrightarrow>
     (let w = macroblock_dimension (unat (hr_display_width r)); h = macroblock_dimension (unat (hr_display_height r)) in
      0 < w \<and> 0 < h \<and> w < 4096 \<and> h < 4096 \<and> planes_sized w h (hr_planes r))"

lemma padded_dimension:
  "0 < padded n \<Longrightarrow> 0 < macroblock_dimension (unat n) \<and> macroblock_dimension (unat n) < 4096 \<and>
     padded n = 16 * macroblock_dimension (unat n)"
proof -
  assume pos: "0 < padded n"
  have "unat n \<le> 65535" using unat_lt2p [of n] by simp
  then have "macroblock_dimension (unat n) \<le> 4096" unfolding macroblock_dimension_def by simp
  moreover have "macroblock_dimension (unat n) \<noteq> 4096" and "macroblock_dimension (unat n) \<noteq> 0"
    using pos by (auto simp: padded_def)
  ultimately show ?thesis by (simp add: padded_def)
qed

lemma new_plane_valid: "0 < w \<Longrightarrow> 0 < h \<Longrightarrow> plane_valid (new_plane w h v) \<and> pl_width (new_plane w h v) = w \<and> pl_height (new_plane w h v) = h"
  by (simp add: plane_valid_def new_plane_def)

lemma new_raster_sized:
  assumes "new_raster w h = Inr r"
  shows "raster_sized r \<and> hr_frozen_hash r = None \<and> hr_display_width r = w \<and> hr_display_height r = h"
proof -
  have pos: "0 < padded w" "0 < padded h" using assms by (auto simp: new_raster_def bind_result_eq_Inr)
  note w = padded_dimension [OF pos(1)] and h = padded_dimension [OF pos(2)]
  have "planes_sized (macroblock_dimension (unat w)) (macroblock_dimension (unat h)) (hr_planes r)"
    using assms w h by (auto simp: new_raster_def bind_result_eq_Inr planes_sized_def new_plane_valid)
  then show ?thesis using assms w h by (auto simp: new_raster_def bind_result_eq_Inr raster_sized_def Let_def)
qed

definition unused_ok :: "cached_raster list \<Rightarrow> bool" where
  "unused_ok rs \<longleftrightarrow> (\<forall>r\<in>set rs. raster_sized r \<and> hr_frozen_hash r = None)"

lemma mutable_handle_ok:
  assumes "unused_ok unused" and "mutable_handle allow_resize w h unused = (unused', res)"
  shows "unused_ok unused' \<and>
    (case res of Inr r \<Rightarrow> raster_sized r \<and> hr_frozen_hash r = None \<and> hr_display_width r = w \<and> hr_display_height r = h | Inl e \<Rightarrow> True)"
proof (cases res)
  case (Inl e)
  then show ?thesis
    using assms by (auto simp: mutable_handle_def make_raster_def unused_ok_def split: list.splits if_splits sum.splits)
next
  case (Inr r)
  then have made: "make_raster allow_resize w h unused = (unused', Inr r)"
    using assms(2) by (auto simp: mutable_handle_def bind_result_eq_Inr split: prod.splits sum.splits)
  show ?thesis
  proof (cases unused)
    case Nil
    then show ?thesis using made Inr by (auto simp: make_raster_def unused_ok_def dest: new_raster_sized)
  next
    case (Cons r' rest)
    then show ?thesis
      using made Inr assms(1) by (auto simp: make_raster_def unused_ok_def dest: new_raster_sized split: if_splits)
  qed
qed

lemma free_raster_ok: "unused_ok unused \<Longrightarrow> raster_sized r \<Longrightarrow> unused_ok (free_raster r unused)"
  by (simp add: unused_ok_def free_raster_def raster_sized_def)

definition rasters_ok :: "(u64 \<Rightarrow> u64 \<Rightarrow> u64) \<Rightarrow> rasters \<Rightarrow> bool" where
  "rasters_ok combine s \<longleftrightarrow>
     unused_ok (rs_unused s) \<and> unused_ok (rs_mutable s) \<and>
     (\<forall>r\<in>set (rs_shared s). raster_sized r \<and> hr_frozen_hash r \<in> {None, Some (raw_hash combine (hr_planes r))})"

lemma same_size_sized: "same_size p q \<Longrightarrow> planes_sized w h q \<Longrightarrow> planes_sized w h p"
  by (simp add: same_size_def planes_sized_def plane_valid_def)

lemma raster_step_ok:
  "raster_step combine allow_resize s t \<Longrightarrow> rasters_ok combine s \<Longrightarrow> rasters_ok combine t"
proof (induction rule: raster_step.induct)
  case (Acquire w h s unused r)
  then show ?case using mutable_handle_ok [OF _ Acquire.hyps] by (simp add: rasters_ok_def unused_ok_def)
next
  case (Acquire_fails w h s unused e)
  then show ?case using mutable_handle_ok [OF _ Acquire_fails.hyps] by (simp add: rasters_ok_def)
next
  case (Draw s rs r rs' p)
  then show ?case by (auto simp: rasters_ok_def unused_ok_def raster_sized_def Let_def same_size_sized)
next
  case (Abandon s rs r rs')
  then have "raster_sized r" by (simp add: rasters_ok_def unused_ok_def)
  with Abandon have "unused_ok (free_raster r (rs_unused s))" by (simp add: rasters_ok_def free_raster_ok)
  with Abandon show ?case by (simp add: rasters_ok_def) (simp add: unused_ok_def)
next
  case (Share s rs r rs' r')
  then show ?case by (auto simp: rasters_ok_def unused_ok_def immutable_handle_def bind_result_eq_Inr)
next
  case (Hash s rs r rs' v r')
  then show ?case by (auto simp: rasters_ok_def raster_hash_def raster_sized_def Let_def split: option.splits)
next
  case (Release s rs r rs')
  then show ?case by (simp add: rasters_ok_def free_raster_ok)
qed

lemma rasters_reachable_ok: "(raster_step combine allow_resize)\<^sup>*\<^sup>* no_rasters s \<Longrightarrow> rasters_ok combine s"
proof (induction rule: rtranclp_induct)
  case base
  then show ?case by (simp add: no_rasters_def rasters_ok_def unused_ok_def)
qed (rule raster_step_ok)


section \<open>Properties\<close>

text \<open>C17: A cached hash is never stale.  However frames are decoded, shared, hashed, abandoned and their
  rasters recycled, the hash of a shared raster is the hash of the pixels it holds, no unused raster or
  one being decoded into has a hash, and so the assertions of the handles hold.\<close>

theorem cached_hash_fresh:
  assumes "(raster_step combine allow_resize)\<^sup>*\<^sup>* no_rasters s"
  shows "(\<forall>r\<in>set (rs_shared s). fst (raster_hash combine r) = raw_hash combine (hr_planes r)) \<and>
    (\<forall>r\<in>set (rs_mutable s). immutable_handle r = Inr r) \<and>
    (\<forall>w h. snd (mutable_handle allow_resize w h (rs_unused s)) = snd (make_raster allow_resize w h (rs_unused s)))"
proof -
  have ok: "rasters_ok combine s" using rasters_reachable_ok [OF assms] .
  have "snd (mutable_handle allow_resize w h (rs_unused s)) = snd (make_raster allow_resize w h (rs_unused s))" for w h
  proof -
    obtain unused res where m: "make_raster allow_resize w h (rs_unused s) = (unused, res)" by fastforce
    have none: "hr_frozen_hash r = None" if "res = Inr r" for r
      using m ok that new_raster_sized unfolding make_raster_def rasters_ok_def unused_ok_def
      by (auto split: list.splits if_splits)
    show ?thesis
    proof (cases res)
      case (Inr r)
      then show ?thesis using m none [OF Inr] by (simp add: mutable_handle_def)
    qed (simp add: mutable_handle_def m)
  qed
  moreover have "fst (raster_hash combine r) = raw_hash combine (hr_planes r)" if "r \<in> set (rs_shared s)" for r
    using ok that by (auto simp: rasters_ok_def raster_hash_def Let_def split: option.splits)
  moreover have "immutable_handle r = Inr r" if "r \<in> set (rs_mutable s)" for r
  proof -
    have "hr_frozen_hash r = None" using ok that by (auto simp: rasters_ok_def unused_ok_def)
    then show ?thesis by (simp add: immutable_handle_def)
  qed
  ultimately show ?thesis by blast
qed

theorem cached_hash_fresh_witness:
  "\<exists>s r. (raster_step (+) False)\<^sup>*\<^sup>* no_rasters s \<and> rs_shared s = [r] \<and> hr_frozen_hash r \<noteq> None \<and>
     fst (raster_hash (+) r) = raw_hash (+) (hr_planes r)"
proof -
  obtain r where r: "new_raster 16 16 = Inr r"
    by (simp add: new_raster_def padded_def macroblock_dimension_def)
  have none: "hr_frozen_hash r = None" using new_raster_sized [OF r] by simp
  let ?r = "snd (raster_hash (+) r)"
  let ?s1 = "no_rasters\<lparr>rs_unused := [], rs_mutable := [r]\<rparr>"
  let ?s2 = "?s1\<lparr>rs_mutable := [] @ [], rs_shared := [r]\<rparr>"
  let ?s3 = "?s2\<lparr>rs_shared := [] @ ?r # []\<rparr>"
  have "raster_step (+) False no_rasters (no_rasters\<lparr>rs_unused := [], rs_mutable := r # rs_mutable no_rasters\<rparr>)"
    by (rule raster_step.Acquire [where w = 16 and h = 16])
      (simp add: mutable_handle_def make_raster_def no_rasters_def r none)
  then have 1: "raster_step (+) False no_rasters ?s1" by (simp add: no_rasters_def)
  have "raster_step (+) False ?s1 (?s1\<lparr>rs_mutable := [] @ [], rs_shared := r # rs_shared ?s1\<rparr>)"
    by (rule raster_step.Share [where r = r]) (simp_all add: immutable_handle_def none)
  then have 2: "raster_step (+) False ?s1 ?s2" by (simp add: no_rasters_def)
  have 3: "raster_step (+) False ?s2 ?s3" by (rule raster_step.Hash [where r = r and v = "fst (raster_hash (+) r)"]) simp_all
  have reach: "(raster_step (+) False)\<^sup>*\<^sup>* no_rasters ?s3"
    using 1 2 3 by (meson rtranclp.rtrancl_into_rtrancl rtranclp.rtrancl_refl)
  have "rs_shared ?s3 = [?r]" "hr_frozen_hash ?r \<noteq> None"
    by (simp_all add: raster_hash_def none Let_def)
  then show ?thesis using reach cached_hash_fresh [OF reach] by fastforce
qed

end
