(* ===== verification/Macroblock_Coding.thy ===== *)
theory Macroblock_Coding
  imports Macroblock_Modes
begin

text \<open>
  Macroblocks survive the coder: what \<open>Macroblock::serialize\<close> writes, the constructor of
  \<open>Macroblock\<close> reads back, in key frames and in inter frames, and whatever the decoder holds, the
  macroblock it reads is one that can be written.  The well-formedness predicates say exactly
  which macroblocks the format can carry, given their neighbours.
\<close>

section \<open>The frame of a macroblock\<close>

definition core_ok :: "'fh frame_params \<Rightarrow> 'h macroblock \<Rightarrow> bool" where
  "core_ok fp mb \<longleftrightarrow>
     ok_option (in_tree uint segment_id_tree) (mb_segment_id_update mb) \<and>
     (mb_segment_id_update mb \<noteq> None) = fp_update_map fp \<and>
     (mb_skip_coeff mb \<noteq> None) = (fp_prob_skip_false fp \<noteq> None)"

lemma segment_symbol_codec:
  assumes "length probs = 3"
  shows "bit_codec (enc_segment_id probs) (dec_segment_id probs) (in_tree uint segment_id_tree)"
proof
  note codec = segment_id_codec [OF assms]
  show "codes (enc_segment_id probs s) (dec_segment_id probs) s" if "in_tree uint segment_id_tree s" for s
    unfolding enc_segment_id_def dec_segment_id_def [abs_def]
    using that by (intro codes_map [where g = word_of_int, OF bit_codec.codec [OF codec]]) (simp_all add: in_tree_def)
  have "in_tree uint segment_id_tree (word_of_int v :: u8)" if "v \<in> set (leaves segment_id_tree)" for v
    using that by (auto simp: in_tree_def leaf_values)
  then show "returns (dec_segment_id probs) (in_tree uint segment_id_tree)"
    unfolding dec_segment_id_def [abs_def]
    by (intro returns_bind [OF bit_codec.total [OF codec]] returns_return)
qed

lemma put_codec: "bit_codec (\<lambda>b. be_put b p) (bd_get p) (\<lambda>_. True)"
  by unfold_locales (simp_all add: codes_put returns_get)

lemma concealing_off [simp]: "concealing False rd = rd"
  by (rule ext) (simp add: concealing_def)

lemma macroblock_codec:
  fixes core :: "'h \<Rightarrow> 'h"
  assumes header: "bit_codec wh rh hok" and core: "\<And>h. wh (core h) = wh h"
    and probs: "length (fp_tree_probs fp) = 3"
    and modes: "\<And>seg skip h. hok h \<Longrightarrow> bit_codec enc_modes (dec_modes (fresh_macroblock seg skip h))
      (\<lambda>mb. modes_ok mb \<and> mb_segment_id_update mb = seg \<and> mb_skip_coeff mb = skip \<and> core (mb_header mb) = h)"
  shows "bit_codec (write_macroblock wh enc_modes fp) (read_macroblock rh ch dec_modes fp False)
    (\<lambda>mb. core_ok fp mb \<and> hok (core (mb_header mb)) \<and> modes_ok mb)"
proof
  note seg = bit_codec.optional [OF segment_symbol_codec [OF probs], of "fp_update_map fp"]
  note skip = bit_codec.optional [OF put_codec, of "get_or 0 (fp_prob_skip_false fp)" "fp_prob_skip_false fp \<noteq> None"]
  let ?k3 = "\<lambda>s k h. dec_modes (fresh_macroblock s k h)"
  let ?k2 = "\<lambda>s k d. do { (h, d) \<leftarrow> rh d; ?k3 s k h d }"
  let ?k1 = "\<lambda>s d. do { (k, d) \<leftarrow> dec_optional (bd_get (get_or 0 (fp_prob_skip_false fp))) (fp_prob_skip_false fp \<noteq> None) d;
    ?k2 s k d }"
  have read: "read_macroblock rh ch dec_modes fp False =
      (\<lambda>d. do { (s, d) \<leftarrow> dec_optional (dec_segment_id (fp_tree_probs fp)) (fp_update_map fp) d; ?k1 s d })"
    by (intro ext) (simp add: read_macroblock_def)
  {
    fix mb
    assume ok: "core_ok fp mb \<and> hok (core (mb_header mb)) \<and> modes_ok mb"
    let ?s = "mb_segment_id_update mb" and ?k = "mb_skip_coeff mb" and ?h = "core (mb_header mb)"
    have wr: "write_macroblock wh enc_modes fp mb =
        enc_seq [enc_optional (enc_segment_id (fp_tree_probs fp)) ?s,
          enc_optional (\<lambda>b. be_put b (get_or 0 (fp_prob_skip_false fp))) ?k, wh ?h, enc_modes mb]"
    proof -
      have "\<not> (?k \<noteq> None \<and> fp_prob_skip_false fp = None)"
        using ok unfolding core_ok_def by blast
      then have "(if ?k \<noteq> None \<and> fp_prob_skip_false fp = None then None else Some ()) = Some ()"
        by (simp only: if_False)
      then show ?thesis
        unfolding write_macroblock_def core by (intro ext) (simp only: enc_seq.simps bind.bind_lunit)
    qed
    have 1: "codes (enc_optional (enc_segment_id (fp_tree_probs fp)) ?s)
        (dec_optional (dec_segment_id (fp_tree_probs fp)) (fp_update_map fp)) ?s"
      using ok by (intro bit_codec.codec [OF seg]) (simp add: core_ok_def)
    have 2: "codes (enc_optional (\<lambda>b. be_put b (get_or 0 (fp_prob_skip_false fp))) ?k)
        (dec_optional (bd_get (get_or 0 (fp_prob_skip_false fp))) (fp_prob_skip_false fp \<noteq> None)) ?k"
      using ok by (intro bit_codec.codec [OF skip]) (simp add: core_ok_def ok_option_def split: option.splits)
    have 3: "codes (wh ?h) rh ?h"
      using ok by (intro bit_codec.codec [OF header]) simp
    have 4: "codes (enc_seq [enc_modes mb]) (?k3 ?s ?k ?h) mb"
      unfolding codes_seq1 using ok by (intro bit_codec.codec [OF modes]) simp_all
    show "codes (write_macroblock wh enc_modes fp mb) (read_macroblock rh ch dec_modes fp False) mb"
      unfolding read wr
      by (rule codes_step [where k = ?k1, OF 1], rule codes_step [where k = "?k2 ?s", OF 2],
          rule codes_step [where k = "?k3 ?s ?k", OF 3], rule 4)
  }
  have result: "returns (?k3 s k h) (\<lambda>mb. core_ok fp mb \<and> hok (core (mb_header mb)) \<and> modes_ok mb)"
    if "ok_option (in_tree uint segment_id_tree) s \<and> (s \<noteq> None) = fp_update_map fp"
      and "ok_option (\<lambda>_. True) k \<and> (k \<noteq> None) = (fp_prob_skip_false fp \<noteq> None)" and "hok h" for s k h
    using that by (intro returns_weaken [OF bit_codec.total [OF modes [OF that(3)]]]) (auto simp: core_ok_def)
  show "returns (read_macroblock rh ch dec_modes fp False) (\<lambda>mb. core_ok fp mb \<and> hok (core (mb_header mb)) \<and> modes_ok mb)"
    unfolding read
    by (rule returns_bind [where f = ?k1, OF bit_codec.total [OF seg]],
        rule returns_bind [where f = "?k2 _", OF bit_codec.total [OF skip]],
        rule returns_bind [where f = "?k3 _ _", OF bit_codec.total [OF header]], rule result)
qed


section \<open>Intra-coded macroblocks\<close>

definition blocks_intra :: "mbmode \<Rightarrow> y_block list \<Rightarrow> bool" where
  "blocks_intra y ys \<longleftrightarrow>
     length ys = 16 \<and> list_all intra_block ys \<and> list_all (intra_good y ys) subblocks"

lemma each_subblock_cells: "set (concat each_subblock) = set subblocks"
  by (simp add: each_subblock_def)

text \<open>All sixteen blocks, from the contract of one.\<close>

lemma all_blocks_codec:
  assumes "block_codec put step intra_block (intra_good y)"
  shows "blocks_intra y ys \<Longrightarrow>
      codes (write_parts put each_subblock ys) (read_parts step each_subblock (replicate 16 fresh_block)) ys"
    and "returns (read_parts step each_subblock (replicate 16 fresh_block)) (blocks_intra y)"
proof -
  note code = block_codec.parts_code [OF assms] and total = block_codec.parts_total [OF assms]
  have fresh: "\<forall>c\<in>set (concat each_subblock). replicate 16 fresh_block ! cell_index c = fresh_block"
    unfolding each_subblock_cells using cell_index_less subblocks_set by simp
  have outside: "\<forall>c. cell_ok c \<longrightarrow> c \<notin> set (concat each_subblock) \<longrightarrow> P c" for P
  proof (intro allI impI)
    fix c
    assume "cell_ok c" and "c \<notin> set (concat each_subblock)"
    then have False using subblocks_set [of c] each_subblock_cells by blast
    then show "P c" ..
  qed
  have good: "block_codec.parts_good (intra_good y) each_subblock ys \<longleftrightarrow> list_all (intra_good y ys) subblocks" for ys
    unfolding block_codec.parts_good_def [OF assms] by (simp add: each_subblock_def list_all_iff)
  show "codes (write_parts put each_subblock ys) (read_parts step each_subblock (replicate 16 fresh_block)) ys"
    if "blocks_intra y ys"
    using that by (intro code each_subblock_ok fresh outside) (simp_all add: blocks_intra_def good)
  have "returns (read_parts step each_subblock (replicate 16 fresh_block))
      (block_codec.parts_result intra_block (intra_good y) each_subblock (replicate 16 fresh_block))"
    by (intro total each_subblock_ok fresh) (simp_all add: list_all_iff)
  then show "returns (read_parts step each_subblock (replicate 16 fresh_block)) (blocks_intra y)"
    by (rule returns_weaken) (simp add: block_codec.parts_result_def [OF assms] blocks_intra_def good)
qed

lemma blocks_intra_all: "blocks_intra y ys \<Longrightarrow> length ys = 16 \<and> list_all intra_block ys"
  by (simp add: blocks_intra_def)

lemma fresh_macroblock_simps [simp]:
  "mb_segment_id_update (fresh_macroblock s k h) = s" "mb_skip_coeff (fresh_macroblock s k h) = k"
  "mb_header (fresh_macroblock s k h) = h" "mb_Y (fresh_macroblock s k h) = replicate 16 fresh_block"
  by (simp_all add: fresh_macroblock_def)

lemma set_y_mode_simps [simp]:
  "mb_segment_id_update (set_y_mode y mb) = mb_segment_id_update mb"
  "mb_skip_coeff (set_y_mode y mb) = mb_skip_coeff mb" "mb_header (set_y_mode y mb) = mb_header mb"
  "mb_y_mode (set_y_mode y mb) = y" "mb_Y (set_y_mode y mb) = mb_Y mb" "mb_uv_mode (set_y_mode y mb) = mb_uv_mode mb"
  "mb_uv_mvs (set_y_mode y mb) = mb_uv_mvs mb"
  by (simp_all add: set_y_mode_def)

text \<open>The macroblock that three reads determine.\<close>

definition intra_macroblock ::
  "u8 option \<Rightarrow> bool option \<Rightarrow> 'h \<Rightarrow> mbmode \<Rightarrow> y_block list \<Rightarrow> mbmode \<Rightarrow> 'h macroblock" where
  "intra_macroblock s k h y ys uv = (set_y_mode y (fresh_macroblock s k h))\<lparr>mb_Y := ys, mb_uv_mode := uv\<rparr>"

lemma intra_macroblock_simps [simp]:
  "mb_segment_id_update (intra_macroblock s k h y ys uv) = s" "mb_skip_coeff (intra_macroblock s k h y ys uv) = k"
  "mb_header (intra_macroblock s k h y ys uv) = h" "mb_y_mode (intra_macroblock s k h y ys uv) = y"
  "mb_Y (intra_macroblock s k h y ys uv) = ys" "mb_uv_mode (intra_macroblock s k h y ys uv) = uv"
  "mb_uv_mvs (intra_macroblock s k h y ys uv) = replicate 4 mv_zero"
  "mb_y2_coded (intra_macroblock s k h y ys uv) = (y \<noteq> B_PRED \<and> y \<noteq> SPLITMV)"
  by (simp_all add: intra_macroblock_def fresh_macroblock_def set_y_mode_def)

lemma intra_macroblock_eq:
  assumes "mb_uv_mvs mb = replicate 4 mv_zero" "mb_y2_coded mb = (mb_y_mode mb \<noteq> B_PRED)" "mb_y_mode mb \<noteq> SPLITMV"
  shows "intra_macroblock (mb_segment_id_update mb) (mb_skip_coeff mb) (mb_header mb) (mb_y_mode mb) (mb_Y mb)
    (mb_uv_mode mb) = mb"
  using assms by (cases mb) (simp add: intra_macroblock_def fresh_macroblock_def set_y_mode_def)

text \<open>The shape that the intra modes of both kinds of frame share: the mode, the blocks, the
  chroma mode.\<close>

definition intra_modes_ok :: "(mbmode \<Rightarrow> bool) \<Rightarrow> 'h macroblock \<Rightarrow> bool" where
  "intra_modes_ok y_ok mb \<longleftrightarrow>
     y_ok (mb_y_mode mb) \<and> mb_y2_coded mb = (mb_y_mode mb \<noteq> B_PRED) \<and>
     blocks_intra (mb_y_mode mb) (mb_Y mb) \<and>
     in_tree mbmode_num uv_mode_tree (mb_uv_mode mb) \<and> mb_uv_mvs mb = replicate 4 mv_zero"

lemma intra_modes_codec:
  assumes y: "bit_codec wy ry y_ok" and not_split: "\<not> y_ok SPLITMV"
    and blocks: "\<And>y. y_ok y \<Longrightarrow> block_codec (put_if (y = B_PRED) put) (step y) intra_block (intra_good y)"
    and uv: "bit_codec wuv ruv (in_tree mbmode_num uv_mode_tree)"
  shows "bit_codec
      (\<lambda>mb. enc_seq [wy (mb_y_mode mb),
        (if mb_y_mode mb = B_PRED then write_parts put each_subblock (mb_Y mb) else enc_seq []), wuv (mb_uv_mode mb)])
      (\<lambda>d. do { (y, d) \<leftarrow> ry d; (ys, d) \<leftarrow> read_parts (step y) each_subblock (replicate 16 fresh_block) d;
                (uv, d) \<leftarrow> ruv d; Some (intra_macroblock s k h y ys uv, d) })
      (\<lambda>mb. intra_modes_ok y_ok mb \<and> mb_segment_id_update mb = s \<and> mb_skip_coeff mb = k \<and> mb_header mb = h)"
proof
  let ?k2 = "\<lambda>y ys d. do { (uv, d) \<leftarrow> ruv d; Some (intra_macroblock s k h y ys uv, d) }"
  let ?k1 = "\<lambda>y d. do { (ys, d) \<leftarrow> read_parts (step y) each_subblock (replicate 16 fresh_block) d; ?k2 y ys d }"
  {
    fix mb :: "'a macroblock"
    assume ok: "intra_modes_ok y_ok mb \<and> mb_segment_id_update mb = s \<and> mb_skip_coeff mb = k \<and> mb_header mb = h"
    let ?y = "mb_y_mode mb"
    have 1: "codes (wy ?y) ry ?y" and y_ok: "y_ok ?y"
      using ok by (simp_all add: intra_modes_ok_def bit_codec.codec [OF y])
    have 2: "codes (if ?y = B_PRED then write_parts put each_subblock (mb_Y mb) else enc_seq [])
        (read_parts (step ?y) each_subblock (replicate 16 fresh_block)) (mb_Y mb)"
      using all_blocks_codec(1) [OF blocks [OF y_ok]] ok unfolding write_parts_if intra_modes_ok_def by blast
    have "intra_macroblock s k h ?y (mb_Y mb) (mb_uv_mode mb) = mb"
      using ok intra_macroblock_eq [of mb] not_split unfolding intra_modes_ok_def by metis
    then have 3: "codes (enc_seq [wuv (mb_uv_mode mb)]) (?k2 ?y (mb_Y mb)) mb"
      unfolding codes_seq1 using ok
      by (intro codes_map [where g = "intra_macroblock s k h ?y (mb_Y mb)", OF bit_codec.codec [OF uv]])
        (simp_all add: intra_modes_ok_def)
    show "codes (enc_seq [wy ?y, (if ?y = B_PRED then write_parts put each_subblock (mb_Y mb) else enc_seq []),
        wuv (mb_uv_mode mb)]) (\<lambda>d. do { (y, d) \<leftarrow> ry d; ?k1 y d }) mb"
      by (rule codes_step [where k = ?k1, OF 1], rule codes_step [where k = "?k2 ?y", OF 2], rule 3)
  }
  show "returns (\<lambda>d. do { (y, d) \<leftarrow> ry d; ?k1 y d })
      (\<lambda>mb. intra_modes_ok y_ok mb \<and> mb_segment_id_update mb = s \<and> mb_skip_coeff mb = k \<and> mb_header mb = h)"
  proof (rule returns_bind [where f = ?k1, OF bit_codec.total [OF y]])
    fix y
    assume "y_ok y"
    then show "returns (?k1 y)
        (\<lambda>mb. intra_modes_ok y_ok mb \<and> mb_segment_id_update mb = s \<and> mb_skip_coeff mb = k \<and> mb_header mb = h)"
      using not_split
      by (intro returns_bind [where f = "?k2 y", OF all_blocks_codec(2) [OF blocks]]
          returns_bind [OF bit_codec.total [OF uv]] returns_return)
        (auto simp: intra_modes_ok_def)
  qed
qed


section \<open>Macroblocks of a key frame\<close>

definition key_mb_ok :: "'fh frame_params \<Rightarrow> unit macroblock \<Rightarrow> bool" where
  "key_mb_ok fp mb \<longleftrightarrow> core_ok fp mb \<and> intra_modes_ok (in_tree mbmode_num kf_y_mode_tree) mb"

lemma not_split_intra: "\<not> in_tree mbmode_num kf_y_mode_tree SPLITMV" "\<not> in_tree mbmode_num y_mode_tree SPLITMV"
  by (simp_all add: in_tree_def leaf_values)

lemma key_modes_codec:
  assumes "neighbour_blocks intra_block cx"
  shows "bit_codec (kf_encode_prediction_modes cx) (kf_decode_prediction_modes cx (fresh_macroblock s k h))
    (\<lambda>mb. intra_modes_ok (in_tree mbmode_num kf_y_mode_tree) mb \<and> mb_segment_id_update mb = s \<and>
       mb_skip_coeff mb = k \<and> mb_header mb = h)"
  using intra_modes_codec [OF kf_y_mode.bit_codec_axioms not_split_intra(1) kf_block_codec [OF assms]
      kf_uv_mode.bit_codec_axioms, of s k h]
  unfolding kf_encode_prediction_modes_def [abs_def] kf_decode_prediction_modes_def [abs_def]
    intra_macroblock_def fresh_macroblock_simps .

lemma key_mb_codec:
  assumes "neighbour_blocks intra_block cx" and "length (fp_tree_probs fp) = 3"
  shows "bit_codec (write_key_mb fp cx) (read_key_mb fp False cx) (key_mb_ok fp)"
proof -
  have header: "bit_codec (\<lambda>_. enc_seq []) (\<lambda>d. Some ((), d)) (\<lambda>_ :: unit. True)"
    by unfold_locales (simp_all add: codes_done returns_return del: enc_seq.simps)
  have "bit_codec (write_macroblock (\<lambda>_. enc_seq []) (kf_encode_prediction_modes cx) fp)
      (read_macroblock (\<lambda>d. Some ((), d)) () (kf_decode_prediction_modes cx) fp False)
      (\<lambda>mb. core_ok fp mb \<and> True \<and> intra_modes_ok (in_tree mbmode_num kf_y_mode_tree) mb)"
    by (rule macroblock_codec [where core = "\<lambda>h. h", OF header refl assms(2)]) (rule key_modes_codec [OF assms(1)])
  then show ?thesis
    unfolding write_key_mb_def [abs_def] read_key_mb_def key_mb_ok_def [abs_def] by simp
qed


section \<open>The header of an inter-frame macroblock\<close>

definition imh_core :: "inter_mb_header \<Rightarrow> inter_mb_header" where
  "imh_core h = h\<lparr>imh_partition_id := None\<rparr>"

definition imh_ok :: "inter_frame_header \<Rightarrow> inter_mb_header \<Rightarrow> bool" where
  "imh_ok fh h \<longleftrightarrow>
     (imh_ref_frame_sel1 h \<noteq> None) = imh_is_inter h \<and>
     (imh_ref_frame_sel2 h \<noteq> None) = get_or False (imh_ref_frame_sel1 h) \<and>
     flipped_for fh h = Some (imh_flipped h) \<and> imh_partition_id h = None"

lemma write_header_core: "write_inter_mb_header fh (imh_core h) = write_inter_mb_header fh h"
  by (simp add: write_inter_mb_header_def imh_core_def)

lemma flipped_for_fields [simp]:
  "flipped_for fh (h\<lparr>imh_flipped := f\<rparr>) = flipped_for fh h"
  "flipped_for fh (h\<lparr>imh_partition_id := p\<rparr>) = flipped_for fh h"
  by (simp_all add: flipped_for_def imh_reference_def cong: if_cong)

lemma reference_known:
  "(s1 \<noteq> None) = i \<Longrightarrow> (s2 \<noteq> None) = get_or False s1 \<Longrightarrow>
   \<exists>f. \<forall>f0. flipped_for fh \<lparr>imh_is_inter = i, imh_ref_frame_sel1 = s1, imh_ref_frame_sel2 = s2,
      imh_flipped = f0, imh_partition_id = None\<rparr> = Some f"
  by (cases s1; cases s2) (auto simp: flipped_for_def imh_reference_def get_or_def)

lemma inter_header_codec: "bit_codec (write_inter_mb_header fh) (read_inter_mb_header fh) (imh_ok fh)"
proof
  let ?p1 = "ih_prob_references_last fh" and ?p2 = "ih_prob_references_golden fh"
  note sel = bit_codec.optional [OF put_codec]
  let ?h = "\<lambda>i s1 s2. \<lparr>imh_is_inter = i, imh_ref_frame_sel1 = s1, imh_ref_frame_sel2 = s2, imh_flipped = False,
    imh_partition_id = None\<rparr>"
  let ?k3 = "\<lambda>i s1 s2 d. do { let h = ?h i s1 s2; flipped \<leftarrow> flipped_for fh h; Some (h\<lparr>imh_flipped := flipped\<rparr>, d) }"
  let ?k2 = "\<lambda>i s1 d. do { (s2, d) \<leftarrow> dec_optional (bd_get ?p2) (get_or False s1) d; ?k3 i s1 s2 d }"
  let ?k1 = "\<lambda>i d. do { (s1, d) \<leftarrow> dec_optional (bd_get ?p1) i d; ?k2 i s1 d }"
  have rd: "read_inter_mb_header fh = (\<lambda>d. do { (i, d) \<leftarrow> bd_get (ih_prob_inter fh) d; ?k1 i d })"
    by (intro ext) (simp only: read_inter_mb_header_def)
  {
    fix h
    assume ok: "imh_ok fh h"
    let ?i = "imh_is_inter h" and ?s1 = "imh_ref_frame_sel1 h" and ?s2 = "imh_ref_frame_sel2 h"
    have 1: "codes (enc_optional (\<lambda>b. be_put b ?p1) ?s1) (dec_optional (bd_get ?p1) ?i) ?s1"
      using ok by (intro bit_codec.codec [OF sel]) (simp add: imh_ok_def ok_option_def split: option.splits)
    have 2: "codes (enc_optional (\<lambda>b. be_put b ?p2) ?s2) (dec_optional (bd_get ?p2) (get_or False ?s1)) ?s2"
      using ok by (intro bit_codec.codec [OF sel]) (simp add: imh_ok_def ok_option_def split: option.splits)
    have h: "?h ?i ?s1 ?s2 = h\<lparr>imh_flipped := False\<rparr>"
      using ok by (cases h) (simp add: imh_ok_def)
    have k3: "?k3 ?i ?s1 ?s2 = (\<lambda>d. Some (h, d))"
      unfolding h using ok by (intro ext) (simp add: imh_ok_def Let_def)
    have 3: "codes (enc_seq []) (?k3 ?i ?s1 ?s2) h"
      unfolding k3 by (rule codes_done [OF refl])
    show "codes (write_inter_mb_header fh h) (read_inter_mb_header fh) h"
      unfolding rd write_inter_mb_header_def
      by (rule codes_put_step, rule codes_step [where k = "?k2 ?i", OF 1], rule codes_step [where k = "?k3 ?i ?s1", OF 2],
          rule 3)
  }
  have result: "returns (?k3 i s1 s2) (imh_ok fh)"
    if s1: "ok_option (\<lambda>_. True) s1 \<and> (s1 \<noteq> None) = i"
      and s2: "ok_option (\<lambda>_. True) s2 \<and> (s2 \<noteq> None) = get_or False s1" for i s1 s2
  proof -
    obtain f where "\<forall>f0. flipped_for fh ((?h i s1 s2)\<lparr>imh_flipped := f0\<rparr>) = Some f"
      using reference_known [of s1 i s2 fh] s1 s2 by auto
    then show ?thesis
      using s1 s2 by (simp add: Let_def returns_def imh_ok_def)
  qed
  show "returns (read_inter_mb_header fh) (imh_ok fh)"
    unfolding rd
    by (rule returns_bind [where f = ?k1, OF returns_get], rule returns_bind [where f = "?k2 _", OF bit_codec.total [OF sel]],
        rule returns_bind [where f = "?k3 _ _", OF bit_codec.total [OF sel]], rule result)
qed


section \<open>Motion of an inter-frame macroblock\<close>

definition neighbours_16 :: "'h mb_context \<Rightarrow> bool" where
  "neighbours_16 cx \<longleftrightarrow>
     (\<forall>mb. cx_above cx = Some mb \<or> cx_left cx = Some mb \<or> cx_above_left cx = Some mb \<longrightarrow> length (mb_Y mb) = 16)"

lemma census_neighbour_ok: "(\<And>mb. n = Some mb \<Longrightarrow> length (mb_Y mb) = 16) \<Longrightarrow> \<exists>v. census_neighbour n = Some v"
  by (cases n) (simp_all add: census_neighbour_def census_view_def base_motion_vector_def block_at_def cell_index_def)

lemma census_at_ok:
  assumes "neighbours_16 cx"
  obtains census counts probs where "census_at cx flipped = Some census" and "mode_contexts census = Some counts"
    and "mv_ref_probs counts = Some probs" and "length probs = 4" and "length (sc_mvs census) = 4"
proof -
  obtain a l al where "census_neighbour (cx_above cx) = Some a" "census_neighbour (cx_left cx) = Some l"
    "census_neighbour (cx_above_left cx) = Some al"
    using census_neighbour_ok assms unfolding neighbours_16_def by metis
  moreover obtain census where census: "motion_vector_census flipped a l al = Some census" "scores_ok 5 census"
    using census_ok by blast
  moreover obtain counts where counts: "mode_contexts census = Some counts" "length counts = 4" "\<forall>c\<in>set counts. unat c \<le> 5"
    using census_contexts [OF census(2)] by blast
  moreover obtain probs where "mv_ref_probs counts = Some probs" "length probs = 4"
    using mv_ref_probs_ok [OF counts(2,3)] by blast
  moreover have "length (sc_mvs census) = 4"
    using census(2) by (simp add: scores_ok_def)
  ultimately show ?thesis
    using that by (simp add: census_at_def)
qed

text \<open>The vector that a mode stands for, clamped.\<close>

definition mode_vector :: "'h mb_context \<Rightarrow> scorer \<Rightarrow> nat \<Rightarrow> motion_vector" where
  "mode_vector cx census i = scorer_clamp (sc_mvs census ! i) (cx_position cx)"

definition moving_blocks :: "motion_vector \<Rightarrow> y_block list" where
  "moving_blocks mv = replicate 16 (fresh_block\<lparr>yb_mv := mv\<rparr>)"

definition split_blocks_ok :: "'h mb_context \<Rightarrow> motion_vector \<Rightarrow> cell list list \<Rightarrow> y_block list \<Rightarrow> bool" where
  "split_blocks_ok cx best_mv parts ys \<longleftrightarrow>
     length ys = 16 \<and>
     list_all (\<lambda>part. split_good cx best_mv ys (hd part) \<and>
       list_all (\<lambda>c. ys ! cell_index c = ys ! cell_index (hd part)) part) parts"

definition base_of :: "'h macroblock \<Rightarrow> motion_vector" where
  "base_of mb = yb_mv (mb_Y mb ! 15)"

definition motion_ok :: "inter_mb_header mb_context \<Rightarrow> scorer \<Rightarrow> inter_mb_header macroblock \<Rightarrow> bool" where
  "motion_ok cx census mb \<longleftrightarrow>
     (if mb_y_mode mb = SPLITMV then
        (case imh_partition_id (mb_header mb) of
           None \<Rightarrow> False
         | Some pid \<Rightarrow> List.member (leaves split_mv_tree) pid \<and>
             split_blocks_ok cx (mode_vector cx census 0) (mv_partitions ! nat pid) (mb_Y mb))
      else
        imh_partition_id (mb_header mb) = None \<and> mb_Y mb = moving_blocks (base_of mb) \<and>
        (case mb_y_mode mb of
           NEARESTMV \<Rightarrow> base_of mb = mode_vector cx census 1
         | NEARMV \<Rightarrow> base_of mb = mode_vector cx census 2
         | ZEROMV \<Rightarrow> base_of mb = mv_zero
         | NEWMV \<Rightarrow> mv_ok (mv_minus (base_of mb) (mode_vector cx census 0))
         | _ \<Rightarrow> False))"

text \<open>The macroblock before its derived vectors are filled in.\<close>

definition underived :: "'h macroblock \<Rightarrow> 'h macroblock" where
  "underived mb =
     (if mb_y_mode mb = SPLITMV then mb\<lparr>mb_uv_mvs := replicate 4 mv_zero\<rparr>
      else set_base_motion_vector (base_of mb) (mb\<lparr>mb_Y := replicate 16 fresh_block, mb_uv_mvs := replicate 4 mv_zero\<rparr>))"

definition inter_coded_ok :: "inter_mb_header mb_context \<Rightarrow> inter_mb_header macroblock \<Rightarrow> bool" where
  "inter_coded_ok cx mb \<longleftrightarrow>
     in_tree mbmode_num mv_ref_tree (mb_y_mode mb) \<and> mb_y2_coded mb = (mb_y_mode mb \<noteq> SPLITMV) \<and>
     mb_uv_mode mb = DC_PRED \<and> chroma_vectors (mb_Y mb) = Some (mb_uv_mvs mb) \<and>
     (case census_at cx (imh_flipped (mb_header mb)) of None \<Rightarrow> False | Some census \<Rightarrow> motion_ok cx census mb)"

definition started :: "u8 option \<Rightarrow> bool option \<Rightarrow> 'h \<Rightarrow> mbmode \<Rightarrow> 'h macroblock" where
  "started s k h y = set_y_mode y (fresh_macroblock s k h)"

lemma mv_ref_modes: "in_tree mbmode_num mv_ref_tree y \<longleftrightarrow> y \<in> {NEARESTMV, NEARMV, ZEROMV, NEWMV, SPLITMV}"
  by (cases y) (simp_all add: in_tree_def leaf_values)

lemma chroma_vectors_ok: "length ys = 16 \<Longrightarrow> \<exists>uv. chroma_vectors ys = Some uv"
  by (simp add: chroma_vectors_def chroma_vector_def block_at_def cell_index_def Let_def)

lemma spread_started:
  assumes "y \<noteq> SPLITMV"
  shows "spread_base (set_base_motion_vector v (started s k h y)) = Some ((started s k h y)\<lparr>mb_Y := moving_blocks v\<rparr>)"
proof -
  have "map (\<lambda>b. b\<lparr>yb_mv := v\<rparr>) ((replicate 16 fresh_block)[15 := fresh_block\<lparr>yb_mv := v\<rparr>]) = moving_blocks v"
    by (simp add: moving_blocks_def numeral_eq_Suc)
  moreover have "mb_Y (set_base_motion_vector v (started s k h y)) = (replicate 16 fresh_block)[15 := fresh_block\<lparr>yb_mv := v\<rparr>]"
    by (simp add: set_base_motion_vector_def started_def)
  ultimately show ?thesis
    using assms
    by (simp add: spread_base_def base_motion_vector_def block_at_def cell_index_def set_base_motion_vector_def
        started_def set_y_mode_def fresh_macroblock_def)
qed


lemma derive_started:
  assumes "y \<noteq> SPLITMV" and "imh_is_inter h" and "chroma_vectors (moving_blocks v) = Some uv"
  shows "derive_vectors (set_base_motion_vector v (started s k h y)) =
    Some ((started s k h y)\<lparr>mb_Y := moving_blocks v, mb_uv_mvs := uv\<rparr>)"
proof -
  have "mb_header (set_base_motion_vector v (started s k h y)) = h"
    by (simp add: set_base_motion_vector_def started_def)
  then show ?thesis
    using assms by (simp add: derive_vectors_def spread_started)
qed

lemma started_simps [simp]:
  "mb_segment_id_update (started s k h y) = s" "mb_skip_coeff (started s k h y) = k" "mb_header (started s k h y) = h"
  "mb_y_mode (started s k h y) = y" "mb_Y (started s k h y) = replicate 16 fresh_block"
  "mb_uv_mode (started s k h y) = DC_PRED" "mb_uv_mvs (started s k h y) = replicate 4 mv_zero"
  "mb_y2_coded (started s k h y) = (y \<noteq> B_PRED \<and> y \<noteq> SPLITMV)"
  by (simp_all add: started_def fresh_macroblock_def set_y_mode_def)

lemma underived_uniform:
  assumes "inter_coded_ok cx mb" and "mb_y_mode mb \<noteq> SPLITMV"
  shows "underived mb =
      set_base_motion_vector (base_of mb) (started (mb_segment_id_update mb) (mb_skip_coeff mb) (mb_header mb) (mb_y_mode mb))"
proof -
  have "mb_y_mode mb \<noteq> B_PRED" and "mb_y2_coded mb" "mb_uv_mode mb = DC_PRED"
    using assms by (auto simp: inter_coded_ok_def mv_ref_modes)
  then have "mb\<lparr>mb_Y := replicate 16 fresh_block, mb_uv_mvs := replicate 4 mv_zero\<rparr>
      = started (mb_segment_id_update mb) (mb_skip_coeff mb) (mb_header mb) (mb_y_mode mb)"
    using assms(2) by (cases mb) (simp add: started_def fresh_macroblock_def set_y_mode_def)
  then show ?thesis
    using assms(2) by (simp add: underived_def)
qed

lemma underived_split:
  assumes "inter_coded_ok cx mb" and "mb_y_mode mb = SPLITMV" and "imh_partition_id (mb_header mb) = Some pid"
  shows "underived mb =
      (started (mb_segment_id_update mb) (mb_skip_coeff mb) (imh_core (mb_header mb)) SPLITMV)
        \<lparr>mb_header := (imh_core (mb_header mb))\<lparr>imh_partition_id := Some pid\<rparr>, mb_Y := mb_Y mb\<rparr>"
proof -
  have "(imh_core (mb_header mb))\<lparr>imh_partition_id := Some pid\<rparr> = mb_header mb"
    using assms(3) by (cases "mb_header mb") (simp add: imh_core_def)
  moreover have "\<not> mb_y2_coded mb" "mb_uv_mode mb = DC_PRED"
    using assms by (auto simp: inter_coded_ok_def)
  ultimately show ?thesis
    using assms(2) by (cases mb) (simp add: underived_def started_def fresh_macroblock_def set_y_mode_def)
qed

lemma derive_underived:
  assumes "inter_coded_ok cx mb" and "imh_is_inter (mb_header mb)"
  shows "derive_vectors (underived mb) = Some mb"
proof (cases "mb_y_mode mb = SPLITMV")
  case True
  then show ?thesis
    using assms by (simp add: underived_def derive_vectors_def spread_base_def inter_coded_ok_def)
next
  case False
  obtain census where "motion_ok cx census mb"
    using assms(1) by (auto simp: inter_coded_ok_def split: option.splits)
  then have Y: "mb_Y mb = moving_blocks (base_of mb)"
    using False by (simp add: motion_ok_def)
  have chroma: "chroma_vectors (moving_blocks (base_of mb)) = Some (mb_uv_mvs mb)"
    using assms(1) unfolding inter_coded_ok_def Y [symmetric] by blast
  have "(started (mb_segment_id_update mb) (mb_skip_coeff mb) (mb_header mb) (mb_y_mode mb))
      \<lparr>mb_Y := mb_Y mb, mb_uv_mvs := mb_uv_mvs mb\<rparr> = mb"
    using assms(1) False
    by (cases mb) (auto simp: inter_coded_ok_def mv_ref_modes started_def fresh_macroblock_def set_y_mode_def)
  then show ?thesis
    using derive_started [OF False assms(2) chroma] underived_uniform [OF assms(1) False] Y by simp
qed

text \<open>Reading and writing the motion.\<close>

definition split_reader ::
  "inter_mb_header mb_context \<Rightarrow> u8 list list \<Rightarrow> motion_vector \<Rightarrow> inter_mb_header macroblock \<Rightarrow> int \<Rightarrow>
   inter_mb_header macroblock reader" where
  "split_reader cx mv_probs v mb pid d =
     do { (ys, d) \<leftarrow> read_parts (read_subblock_inter_prediction cx v mv_probs) (mv_partitions ! nat pid) (mb_Y mb) d;
          Some (mb\<lparr>mb_header := (mb_header mb)\<lparr>imh_partition_id := Some pid\<rparr>, mb_Y := ys\<rparr>, d) }"

lemma partition_index: "pid \<in> set (leaves split_mv_tree) \<Longrightarrow> nat pid < length mv_partitions"
  by (auto simp: leaf_values mv_partitions_def)

lemma partition_ok:
  assumes "pid \<in> set (leaves split_mv_tree)"
  shows "parts_ok (mv_partitions ! nat pid)" and "set (concat (mv_partitions ! nat pid)) = set subblocks"
proof -
  have "mv_partitions ! nat pid \<in> set mv_partitions" using partition_index [OF assms] by simp
  then have "parts_ok (mv_partitions ! nat pid)" "covers (mv_partitions ! nat pid)"
    using mv_partitions_ok unfolding list_all_iff by blast+
  then show "parts_ok (mv_partitions ! nat pid)" "set (concat (mv_partitions ! nat pid)) = set subblocks"
    using parts_ok_cells [of "mv_partitions ! nat pid"] subblocks_set
    unfolding covers_def list_all_iff List.member_iff by blast+
qed

lemma split_parts_codec:
  assumes "mv_shape mv_probs" and "pid \<in> set (leaves split_mv_tree)"
  shows "split_blocks_ok cx v (mv_partitions ! nat pid) ys \<Longrightarrow>
      codes (write_parts (write_subblock_inter_prediction cx v mv_probs) (mv_partitions ! nat pid) ys)
        (read_parts (read_subblock_inter_prediction cx v mv_probs) (mv_partitions ! nat pid) (replicate 16 fresh_block)) ys"
    and "returns (read_parts (read_subblock_inter_prediction cx v mv_probs) (mv_partitions ! nat pid) (replicate 16 fresh_block))
        (split_blocks_ok cx v (mv_partitions ! nat pid))"
proof -
  let ?parts = "mv_partitions ! nat pid"
  note bc = split_block_codec [OF assms(1), of cx v]
  note code = block_codec.parts_code [OF bc] and total = block_codec.parts_total [OF bc]
  note parts = partition_ok [OF assms(2)]
  have fresh: "\<forall>c\<in>set (concat ?parts). replicate 16 fresh_block ! cell_index c = fresh_block"
    unfolding parts(2) using cell_index_less subblocks_set by simp
  have outside: "\<forall>c. cell_ok c \<longrightarrow> c \<notin> set (concat ?parts) \<longrightarrow> P c" for P
    using subblocks_set parts(2) by metis
  have good: "length ys = 16 \<and> block_codec.parts_good (split_good cx v) ?parts ys \<longleftrightarrow> split_blocks_ok cx v ?parts ys" for ys
    unfolding block_codec.parts_good_def [OF bc] by (simp add: split_blocks_ok_def list_all_iff)
  show "codes (write_parts (write_subblock_inter_prediction cx v mv_probs) ?parts ys)
      (read_parts (read_subblock_inter_prediction cx v mv_probs) ?parts (replicate 16 fresh_block)) ys"
    if "split_blocks_ok cx v ?parts ys"
    using that good [of ys] by (intro code parts(1) fresh outside) (simp_all add: list_all_iff)
  have "returns (read_parts (read_subblock_inter_prediction cx v mv_probs) ?parts (replicate 16 fresh_block))
      (block_codec.parts_result (\<lambda>_. True) (split_good cx v) ?parts (replicate 16 fresh_block))"
    by (intro total parts(1) fresh) (simp_all add: list_all_iff)
  then show "returns (read_parts (read_subblock_inter_prediction cx v mv_probs) ?parts (replicate 16 fresh_block))
      (split_blocks_ok cx v ?parts)"
    by (rule returns_weaken) (use good in \<open>auto simp: block_codec.parts_result_def [OF bc]\<close>)
qed


lemma census_vectors:
  "length (sc_mvs census) = 4 \<Longrightarrow>
   best census = Some (sc_mvs census ! 0) \<and> nearest census = Some (sc_mvs census ! 1) \<and> near census = Some (sc_mvs census ! 2)"
  by (simp add: best_def nearest_def near_def)

lemma read_motion_known:
  assumes "length (sc_mvs census) = 4"
  shows "read_inter_motion cx mv_probs census (started s k h NEARESTMV)
      = (\<lambda>d. Some (set_base_motion_vector (mode_vector cx census 1) (started s k h NEARESTMV), d))"
    and "read_inter_motion cx mv_probs census (started s k h NEARMV)
      = (\<lambda>d. Some (set_base_motion_vector (mode_vector cx census 2) (started s k h NEARMV), d))"
    and "read_inter_motion cx mv_probs census (started s k h ZEROMV)
      = (\<lambda>d. Some (set_base_motion_vector mv_zero (started s k h ZEROMV), d))"
    and "read_inter_motion cx mv_probs census (started s k h NEWMV)
      = (\<lambda>d. do { (mv, d) \<leftarrow> read_mv mv_probs d;
          Some (set_base_motion_vector (mv_plus mv (mode_vector cx census 0)) (started s k h NEWMV), d) })"
  using census_vectors [OF assms]
  by (intro ext; simp add: read_inter_motion_def mode_vector_def)+

lemma read_motion_split:
  assumes "length (sc_mvs census) = 4"
  shows "read_inter_motion cx mv_probs census (started s k h SPLITMV) =
    (\<lambda>d. do { (pid, d) \<leftarrow> bd_tree split_mv_tree split_mv_probs d;
              parts \<leftarrow> at mv_partitions (nat pid);
              (ys, d) \<leftarrow> read_parts (read_subblock_inter_prediction cx (mode_vector cx census 0) mv_probs) parts
                 (replicate 16 fresh_block) d;
              Some ((started s k h SPLITMV)\<lparr>mb_header := h\<lparr>imh_partition_id := Some pid\<rparr>, mb_Y := ys\<rparr>, d) })"
  using census_vectors [OF assms]
  by (intro ext) (simp add: read_inter_motion_def mode_vector_def)

lemma mode_of_inter: "inter_coded_ok cx mb \<Longrightarrow> mb_y_mode mb \<in> {NEARESTMV, NEARMV, ZEROMV, NEWMV, SPLITMV}"
  by (simp add: inter_coded_ok_def mv_ref_modes)

lemma core_uniform: "imh_partition_id h = None \<Longrightarrow> imh_core h = h"
  by (cases h) (simp add: imh_core_def)

lemma motion_codes:
  assumes probs: "mv_shape mv_probs" and ok: "inter_coded_ok cx mb"
    and census: "census_at cx (imh_flipped (mb_header mb)) = Some census" "length (sc_mvs census) = 4"
  shows "codes (write_inter_motion cx mv_probs census mb)
    (read_inter_motion cx mv_probs census
       (started (mb_segment_id_update mb) (mb_skip_coeff mb) (imh_core (mb_header mb)) (mb_y_mode mb))) (underived mb)"
proof -
  note census_vectors = census_vectors [OF census(2)]
  have motion: "motion_ok cx census mb"
    using ok census(1) by (simp add: inter_coded_ok_def)
  show ?thesis
  proof (cases "mb_y_mode mb = SPLITMV")
    case False
    then have Y: "mb_Y mb = moving_blocks (base_of mb)" and core: "imh_core (mb_header mb) = mb_header mb"
      and cases: "case mb_y_mode mb of NEARESTMV \<Rightarrow> base_of mb = mode_vector cx census 1
         | NEARMV \<Rightarrow> base_of mb = mode_vector cx census 2 | ZEROMV \<Rightarrow> base_of mb = mv_zero
         | NEWMV \<Rightarrow> mv_ok (mv_minus (base_of mb) (mode_vector cx census 0)) | _ \<Rightarrow> False"
      using motion by (simp_all add: motion_ok_def core_uniform)
    note under = underived_uniform [OF ok False]
    show ?thesis
    proof (cases "mb_y_mode mb = NEWMV")
      case True
      let ?g = "\<lambda>mv. set_base_motion_vector (mv_plus mv (mode_vector cx census 0))
        (started (mb_segment_id_update mb) (mb_skip_coeff mb) (mb_header mb) NEWMV)"
      have "length (mb_Y mb) = 16"
        by (subst Y) (simp add: moving_blocks_def)
      then have "base_motion_vector mb = Some (base_of mb)"
        unfolding base_motion_vector_def base_of_def by (simp add: block_at_def cell_index_def)
      then have "write_inter_motion cx mv_probs census mb = write_mv mv_probs (mv_minus (base_of mb) (mode_vector cx census 0))"
        using True census_vectors by (intro ext) (simp add: write_inter_motion_def mode_vector_def)
      moreover have "codes (write_mv mv_probs (mv_minus (base_of mb) (mode_vector cx census 0)))
          (\<lambda>d. do { (mv, d) \<leftarrow> read_mv mv_probs d; Some (?g mv, d) }) (underived mb)"
        using cases True
        by (intro codes_map [where g = ?g, OF bit_codec.codec [OF mv_codec [OF probs]]]) (simp_all add: under)
      ultimately show ?thesis
        unfolding core True read_motion_known(4) [OF census(2)] by simp
    next
      case new: False
      have "write_inter_motion cx mv_probs census mb = Some"
        using False new by (intro ext) (simp add: write_inter_motion_def)
      moreover have "read_inter_motion cx mv_probs census
          (started (mb_segment_id_update mb) (mb_skip_coeff mb) (imh_core (mb_header mb)) (mb_y_mode mb))
          = (\<lambda>d. Some (underived mb, d))"
        using mode_of_inter [OF ok] False new cases
        by (auto simp: under core read_motion_known [OF census(2)])
      ultimately show ?thesis by (simp add: codes_nothing)
    qed
  next
    case True
    obtain pid where pid: "imh_partition_id (mb_header mb) = Some pid" "pid \<in> set (leaves split_mv_tree)"
      and blocks: "split_blocks_ok cx (mode_vector cx census 0) (mv_partitions ! nat pid) (mb_Y mb)"
      using motion True by (auto simp: motion_ok_def List.member_iff split: option.splits)
    let ?v = "mode_vector cx census 0" and ?parts = "mv_partitions ! nat pid"
    let ?h = "imh_core (mb_header mb)"
    let ?g = "\<lambda>pid ys. (started (mb_segment_id_update mb) (mb_skip_coeff mb) ?h SPLITMV)
      \<lparr>mb_header := ?h\<lparr>imh_partition_id := Some pid\<rparr>, mb_Y := ys\<rparr>"
    let ?k = "\<lambda>pid d. do { parts \<leftarrow> at mv_partitions (nat pid);
        (ys, d) \<leftarrow> read_parts (read_subblock_inter_prediction cx ?v mv_probs) parts (replicate 16 fresh_block) d;
        Some (?g pid ys, d) }"
    have wr: "write_inter_motion cx mv_probs census mb = enc_seq [enc_tree split_mv_tree split_mv_probs pid,
        write_parts (write_subblock_inter_prediction cx ?v mv_probs) ?parts (mb_Y mb)]"
      using True pid(1) partition_index [OF pid(2)] census_vectors
      by (intro ext) (simp add: write_inter_motion_def mode_vector_def split: Option.bind_split)
    have "?k pid = (\<lambda>d. do { (ys, d) \<leftarrow> read_parts (read_subblock_inter_prediction cx ?v mv_probs) ?parts
        (replicate 16 fresh_block) d; Some (?g pid ys, d) })"
      using partition_index [OF pid(2)] by (intro ext) simp
    moreover have "codes (write_parts (write_subblock_inter_prediction cx ?v mv_probs) ?parts (mb_Y mb)) \<dots> (underived mb)"
      using underived_split [OF ok True pid(1)]
      by (intro codes_map [where g = "?g pid", OF split_parts_codec(1) [OF probs pid(2) blocks]]) simp
    ultimately have "codes (enc_seq [write_parts (write_subblock_inter_prediction cx ?v mv_probs) ?parts (mb_Y mb)])
        (?k pid) (underived mb)"
      unfolding codes_seq1 by (simp only:)
    then show ?thesis
      unfolding True wr read_motion_split [OF census(2)]
      by (rule codes_step [where k = ?k, OF split_mv.codec [OF pid(2)]])
  qed
qed


definition derives_ok ::
  "inter_mb_header mb_context \<Rightarrow> u8 option \<Rightarrow> bool option \<Rightarrow> inter_mb_header \<Rightarrow> inter_mb_header macroblock \<Rightarrow> bool" where
  "derives_ok cx s k h mb0 \<longleftrightarrow>
     (\<exists>mb. derive_vectors mb0 = Some mb \<and> inter_coded_ok cx mb \<and>
        mb_segment_id_update mb = s \<and> mb_skip_coeff mb = k \<and> imh_core (mb_header mb) = h \<and>
        imh_is_inter (mb_header mb))"

lemma base_of_moving: "base_of (mb\<lparr>mb_Y := moving_blocks v, mb_uv_mvs := uv\<rparr>) = v"
  by (simp add: base_of_def moving_blocks_def)

lemma uniform_derives:
  assumes h: "imh_is_inter h" "imh_partition_id h = None" and census: "census_at cx (imh_flipped h) = Some census"
    and y: "in_tree mbmode_num mv_ref_tree y" "y \<noteq> SPLITMV"
    and v: "case y of NEARESTMV \<Rightarrow> v = mode_vector cx census 1 | NEARMV \<Rightarrow> v = mode_vector cx census 2
      | ZEROMV \<Rightarrow> v = mv_zero | NEWMV \<Rightarrow> mv_ok (mv_minus v (mode_vector cx census 0)) | _ \<Rightarrow> False"
  shows "derives_ok cx s k h (set_base_motion_vector v (started s k h y))"
proof -
  obtain uv where uv: "chroma_vectors (moving_blocks v) = Some uv"
    using chroma_vectors_ok [of "moving_blocks v"] by (auto simp: moving_blocks_def)
  let ?mb = "(started s k h y)\<lparr>mb_Y := moving_blocks v, mb_uv_mvs := uv\<rparr>"
  have "motion_ok cx census ?mb"
    using h(2) y(2) v unfolding motion_ok_def base_of_moving by simp
  then have "inter_coded_ok cx ?mb"
    using y census uv by (auto simp: inter_coded_ok_def mv_ref_modes)
  then show ?thesis
    using derive_started [OF y(2) h(1) uv] h core_uniform [OF h(2)] by (simp add: derives_ok_def)
qed

lemma split_derives:
  assumes h: "imh_is_inter h" "imh_partition_id h = None" and census: "census_at cx (imh_flipped h) = Some census"
    and pid: "pid \<in> set (leaves split_mv_tree)"
    and blocks: "split_blocks_ok cx (mode_vector cx census 0) (mv_partitions ! nat pid) ys"
  shows "derives_ok cx s k h ((started s k h SPLITMV)\<lparr>mb_header := h\<lparr>imh_partition_id := Some pid\<rparr>, mb_Y := ys\<rparr>)"
proof -
  let ?mb0 = "(started s k h SPLITMV)\<lparr>mb_header := h\<lparr>imh_partition_id := Some pid\<rparr>, mb_Y := ys\<rparr>"
  obtain uv where uv: "chroma_vectors ys = Some uv"
    using chroma_vectors_ok [of ys] blocks by (auto simp: split_blocks_ok_def)
  have "motion_ok cx census (?mb0\<lparr>mb_uv_mvs := uv\<rparr>)"
    using pid blocks by (simp add: motion_ok_def List.member_iff)
  then have "inter_coded_ok cx (?mb0\<lparr>mb_uv_mvs := uv\<rparr>)"
    using census uv by (simp add: inter_coded_ok_def mv_ref_modes)
  moreover have "derive_vectors ?mb0 = Some (?mb0\<lparr>mb_uv_mvs := uv\<rparr>)"
    using h(1) uv by (simp add: derive_vectors_def spread_base_def)
  moreover have "imh_core (h\<lparr>imh_partition_id := Some pid\<rparr>) = h"
    using h(2) by (cases h) (simp add: imh_core_def)
  ultimately show ?thesis
    using h(1) by (simp add: derives_ok_def)
qed

lemma motion_total:
  assumes probs: "mv_shape mv_probs" and h: "imh_is_inter h" "imh_partition_id h = None"
    and census: "census_at cx (imh_flipped h) = Some census" "length (sc_mvs census) = 4"
    and y: "in_tree mbmode_num mv_ref_tree y"
  shows "returns (read_inter_motion cx mv_probs census (started s k h y)) (derives_ok cx s k h)"
proof -
  note uniform = uniform_derives [OF h census(1)] and read = read_motion_known [OF census(2)]
  have modes: "in_tree mbmode_num mv_ref_tree NEARESTMV" "in_tree mbmode_num mv_ref_tree NEARMV"
    "in_tree mbmode_num mv_ref_tree ZEROMV" "in_tree mbmode_num mv_ref_tree NEWMV"
    by (simp_all add: mv_ref_modes)
  consider "y = NEARESTMV" | "y = NEARMV" | "y = ZEROMV" | "y = NEWMV" | "y = SPLITMV"
    using y by (auto simp: mv_ref_modes)
  then show ?thesis
  proof cases
    case 1
    show ?thesis unfolding 1 read(1) by (intro returns_return uniform modes) simp_all
  next
    case 2
    show ?thesis unfolding 2 read(2) by (intro returns_return uniform modes) simp_all
  next
    case 3
    show ?thesis unfolding 3 read(3) by (intro returns_return uniform modes) simp_all
  next
    case 4
    show ?thesis
      unfolding 4 read(4)
      by (intro returns_bind [OF bit_codec.total [OF mv_codec [OF probs]]] returns_return uniform modes) simp_all
  next
    case 5
    let ?v = "mode_vector cx census 0"
    let ?k = "\<lambda>pid d. do { parts \<leftarrow> at mv_partitions (nat pid);
        (ys, d) \<leftarrow> read_parts (read_subblock_inter_prediction cx ?v mv_probs) parts (replicate 16 fresh_block) d;
        Some ((started s k h SPLITMV)\<lparr>mb_header := h\<lparr>imh_partition_id := Some pid\<rparr>, mb_Y := ys\<rparr>, d) }"
    have "returns (?k pid) (derives_ok cx s k h)" if pid: "pid \<in> set (leaves split_mv_tree)" for pid
    proof -
      have "?k pid = (\<lambda>d. do { (ys, d) \<leftarrow> read_parts (read_subblock_inter_prediction cx ?v mv_probs)
            (mv_partitions ! nat pid) (replicate 16 fresh_block) d;
          Some ((started s k h SPLITMV)\<lparr>mb_header := h\<lparr>imh_partition_id := Some pid\<rparr>, mb_Y := ys\<rparr>, d) })"
        using partition_index [OF pid] by (intro ext) simp
      moreover have "returns \<dots> (derives_ok cx s k h)"
        by (rule returns_bind [OF split_parts_codec(2) [OF probs pid]], rule returns_return)
          (rule split_derives [OF h census(1) pid])
      ultimately show ?thesis by (simp only:)
    qed
    then show ?thesis
      unfolding 5 read_motion_split [OF census(2)]
      by (intro returns_bind [where f = ?k, OF split_mv.total])
  qed
qed



section \<open>Macroblocks of an inter frame\<close>

lemma codes_post:
  assumes "codes f m x" and "g x = Some y"
  shows "codes f (\<lambda>d. do { (a, d) \<leftarrow> m d; b \<leftarrow> g a; Some (b, d) }) y"
proof -
  obtain ps where "writes f ps" "reads m ps x"
    using assms(1) by (auto simp: codes_def)
  moreover have "reads (\<lambda>d. do { b \<leftarrow> g x; Some (b, d) }) [] y"
    using assms(2) by (simp add: reads_return)
  ultimately have "reads (\<lambda>d. do { (a, d) \<leftarrow> m d; b \<leftarrow> g a; Some (b, d) }) (ps @ []) y"
    by (intro reads_bind [where f = "\<lambda>a d. do { b \<leftarrow> g a; Some (b, d) }"])
  with \<open>writes f ps\<close> show ?thesis by (intro codesI [where ps = ps]) simp_all
qed

lemma returns_post:
  assumes "returns m (\<lambda>x. \<exists>y. g x = Some y \<and> P y)"
  shows "returns (\<lambda>d. do { (a, d) \<leftarrow> m d; b \<leftarrow> g a; Some (b, d) }) P"
proof (rule returns_bind [OF assms])
  fix x
  assume "\<exists>y. g x = Some y \<and> P y"
  then obtain y where "g x = Some y" "P y" by blast
  then show "returns (\<lambda>d. do { b \<leftarrow> g x; Some (b, d) }) P"
    by (simp add: returns_return)
qed

definition inter_modes_ok :: "inter_mb_header mb_context \<Rightarrow> inter_mb_header macroblock \<Rightarrow> bool" where
  "inter_modes_ok cx mb \<longleftrightarrow>
     (if imh_is_inter (mb_header mb) then inter_coded_ok cx mb
      else intra_modes_ok (in_tree mbmode_num y_mode_tree) mb \<and> imh_partition_id (mb_header mb) = None)"

lemma inter_intra_codec:
  assumes "probability_tables_ok pt"
  shows "bit_codec
      (\<lambda>mb. enc_seq [enc_symbol mbmode_num y_mode_tree (pt_y_mode_probs pt) (mb_y_mode mb),
           (if mb_y_mode mb = B_PRED then write_parts write_intra_block each_subblock (mb_Y mb) else enc_seq []),
           enc_symbol mbmode_num uv_mode_tree (pt_uv_mode_probs pt) (mb_uv_mode mb)])
      (read_inter_intra_modes pt (fresh_macroblock s k h))
      (\<lambda>mb. intra_modes_ok (in_tree mbmode_num y_mode_tree) mb \<and> mb_segment_id_update mb = s \<and>
         mb_skip_coeff mb = k \<and> mb_header mb = h)"
proof -
  have pt: "length (pt_y_mode_probs pt) = 4" "length (pt_uv_mode_probs pt) = 3"
    using assms by (simp_all add: probability_tables_ok_def)
  show ?thesis
    using intra_modes_codec [OF y_mode_codec [OF pt(1)] not_split_intra(2) intra_block_codec uv_mode_codec [OF pt(2)],
        of s k h]
    unfolding read_inter_intra_modes_def [abs_def] intra_macroblock_def fresh_macroblock_simps .
qed

lemma inter_modes_codec:
  assumes cx: "neighbours_16 cx" and pt: "probability_tables_ok pt" and h: "imh_ok fh h"
  shows "bit_codec (inter_encode_prediction_modes cx pt) (inter_decode_prediction_modes cx pt False (fresh_macroblock s k h))
    (\<lambda>mb. inter_modes_ok cx mb \<and> mb_segment_id_update mb = s \<and> mb_skip_coeff mb = k \<and> imh_core (mb_header mb) = h)"
proof -
  have mv: "mv_shape (pt_mv_probs pt)" using pt by (simp add: probability_tables_ok_def)
  have hp: "imh_partition_id h = None" using h by (simp add: imh_ok_def)
  have core_fields: "imh_is_inter (imh_core x) = imh_is_inter x" "imh_flipped (imh_core x) = imh_flipped x" for x
    by (simp_all add: imh_core_def)
  show ?thesis
  proof (cases "imh_is_inter h")
    case False
    note codec = inter_intra_codec [OF pt, of s k h]
    have rd: "inter_decode_prediction_modes cx pt False (fresh_macroblock s k h) = (\<lambda>d. do {
        (mb, d) \<leftarrow> read_inter_intra_modes pt (fresh_macroblock s k h) d; mb \<leftarrow> derive_vectors mb; Some (mb, d) })"
      using False by (intro ext) (simp add: inter_decode_prediction_modes_def)
    have derive: "derive_vectors mb = Some mb" if "mb_header mb = h" for mb
      using that False by (simp add: derive_vectors_def)
    show ?thesis
    proof
      fix mb
      assume ok: "inter_modes_ok cx mb \<and> mb_segment_id_update mb = s \<and> mb_skip_coeff mb = k \<and> imh_core (mb_header mb) = h"
      then have "\<not> imh_is_inter (mb_header mb)" using False core_fields by metis
      with ok have mb: "intra_modes_ok (in_tree mbmode_num y_mode_tree) mb" "mb_header mb = h"
        using core_uniform [of "mb_header mb"] by (auto simp: inter_modes_ok_def)
      show "codes (inter_encode_prediction_modes cx pt mb)
          (inter_decode_prediction_modes cx pt False (fresh_macroblock s k h)) mb"
        unfolding rd inter_encode_prediction_modes_def [abs_def] mb(2)
        using ok mb False by (simp only: if_True not_False_eq_True)
          (intro codes_post [OF bit_codec.codec [OF codec] derive]; simp)
    next
      show "returns (inter_decode_prediction_modes cx pt False (fresh_macroblock s k h))
        (\<lambda>mb. inter_modes_ok cx mb \<and> mb_segment_id_update mb = s \<and> mb_skip_coeff mb = k \<and> imh_core (mb_header mb) = h)"
        unfolding rd
        by (intro returns_post returns_weaken [OF bit_codec.total [OF codec]])
          (use False hp derive core_uniform in \<open>auto simp: inter_modes_ok_def\<close>)
    qed
  next
    case True
    obtain census counts probs where census: "census_at cx (imh_flipped h) = Some census"
      "mode_contexts census = Some counts" "mv_ref_probs counts = Some probs" "length probs = 4" "length (sc_mvs census) = 4"
      using census_at_ok [OF cx] by metis
    note mode_codec = mv_ref_codec [OF census(4)]
    let ?k = "\<lambda>y. read_inter_motion cx (pt_mv_probs pt) census (started s k h y)"
    let ?m = "\<lambda>d. do { (y, d) \<leftarrow> dec_symbol mbmode_of mv_ref_tree probs d; ?k y d }"
    have m: "read_inter_inter_modes cx pt False (fresh_macroblock s k h) = ?m"
    proof (rule ext)
      fix d
      show "read_inter_inter_modes cx pt False (fresh_macroblock s k h) d = ?m d"
        by (cases "dec_symbol mbmode_of mv_ref_tree probs d")
          (auto simp: read_inter_inter_modes_def census started_def)
    qed
    have "inter_decode_prediction_modes cx pt False (fresh_macroblock s k h) = (\<lambda>d. do {
        (mb, d) \<leftarrow> read_inter_inter_modes cx pt False (fresh_macroblock s k h) d;
        mb \<leftarrow> derive_vectors mb; Some (mb, d) })"
      using True by (intro ext) (simp add: inter_decode_prediction_modes_def)
    note rd = this [unfolded m]
    show ?thesis
    proof
      fix mb
      assume ok: "inter_modes_ok cx mb \<and> mb_segment_id_update mb = s \<and> mb_skip_coeff mb = k \<and> imh_core (mb_header mb) = h"
      then have inter: "imh_is_inter (mb_header mb)" and flipped: "imh_flipped (mb_header mb) = imh_flipped h"
        using True core_fields by metis+
      with ok have mb: "inter_coded_ok cx mb" by (simp add: inter_modes_ok_def)
      let ?y = "mb_y_mode mb"
      have y: "in_tree mbmode_num mv_ref_tree ?y" using mb by (simp add: inter_coded_ok_def)
      have wr: "inter_encode_prediction_modes cx pt mb
          = enc_seq [enc_symbol mbmode_num mv_ref_tree probs ?y, write_inter_motion cx (pt_mv_probs pt) census mb]"
        using inter census flipped by (intro ext) (simp add: inter_encode_prediction_modes_def split: Option.bind_split)
      have "codes (write_inter_motion cx (pt_mv_probs pt) census mb) (?k ?y) (underived mb)"
        using motion_codes [OF mv mb _ census(5)] census(1) flipped ok by simp
      then have "codes (enc_seq [enc_symbol mbmode_num mv_ref_tree probs ?y, write_inter_motion cx (pt_mv_probs pt) census mb])
          ?m (underived mb)"
        by (intro codes_step [where k = ?k, OF bit_codec.codec [OF mode_codec y]]) (simp only: codes_seq1)
      from codes_post [where g = derive_vectors, OF this derive_underived [OF mb inter]]
      show "codes (inter_encode_prediction_modes cx pt mb)
          (inter_decode_prediction_modes cx pt False (fresh_macroblock s k h)) mb"
        unfolding rd wr .
    next
      have "returns ?m (derives_ok cx s k h)"
        by (intro returns_bind [where f = ?k, OF bit_codec.total [OF mode_codec]] motion_total mv True hp census)
      then show "returns (inter_decode_prediction_modes cx pt False (fresh_macroblock s k h))
        (\<lambda>mb. inter_modes_ok cx mb \<and> mb_segment_id_update mb = s \<and> mb_skip_coeff mb = k \<and> imh_core (mb_header mb) = h)"
        unfolding rd
        by (intro returns_post) (erule returns_weaken, auto simp: derives_ok_def inter_modes_ok_def)
    qed
  qed
qed

definition inter_mb_ok ::
  "inter_frame_header frame_params \<Rightarrow> inter_mb_header mb_context \<Rightarrow> inter_mb_header macroblock \<Rightarrow> bool" where
  "inter_mb_ok fp cx mb \<longleftrightarrow>
     core_ok fp mb \<and> imh_ok (fp_header fp) (imh_core (mb_header mb)) \<and> inter_modes_ok cx mb"

lemma inter_mb_codec:
  assumes "neighbours_16 cx" and "probability_tables_ok pt" and "length (fp_tree_probs fp) = 3"
  shows "bit_codec (write_inter_mb fp pt cx) (read_inter_mb fp pt False cx) (inter_mb_ok fp cx)"
  unfolding write_inter_mb_def [abs_def] read_inter_mb_def inter_mb_ok_def [abs_def]
  by (rule macroblock_codec [where core = imh_core, OF inter_header_codec write_header_core assms(3)])
    (rule inter_modes_codec [OF assms(1,2)])

end
