(* ===== verification/Frame_Modes.thy ===== *)
theory Frame_Modes
  imports Macroblock_Coding
begin

text \<open>
  The first partition of a frame: the frame header, then the header and the modes of every
  macroblock.  \<open>parse_macroblock_headers\<close> (src/src/decoder/frame.cc) constructs the macroblocks row
  by row, each in the context of those constructed before it; \<open>serialize_first_partition\<close>
  (src/src/encoder/serializer.cc) writes them in the same order.  The macroblocks of a frame are a
  list in that order.  The locale \<open>macroblock_contract\<close> is what the frame relies on; key frames and
  inter frames provide it.
\<close>

section \<open>The macroblocks of a frame\<close>

definition mb_column :: "nat \<Rightarrow> nat \<Rightarrow> nat" where "mb_column w k = k mod w"
definition mb_row :: "nat \<Rightarrow> nat \<Rightarrow> nat" where "mb_row w k = k div w"

text \<open>\<open>TwoDStorage::Context\<close>: a neighbour is missing at the upper and the left edge, where the
  unsigned position wraps around and lies outside the storage.\<close>

definition context_of :: "nat \<Rightarrow> nat \<Rightarrow> 'h macroblock list \<Rightarrow> nat \<Rightarrow> 'h mb_context" where
  "context_of w h ms k =
     (let column = mb_column w k; row = mb_row w k in
      \<lparr>cx_position = \<lparr>mp_column = word_of_nat column, mp_row = word_of_nat row,
                      mp_width = word_of_nat w, mp_height = word_of_nat h\<rparr>,
       cx_above = (if row > 0 then Some (ms ! (k - w)) else None),
       cx_left = (if column > 0 then Some (ms ! (k - 1)) else None),
       cx_above_left = (if row > 0 \<and> column > 0 then Some (ms ! (k - w - 1)) else None)\<rparr>)"

primrec read_macroblocks ::
  "('h mb_context \<Rightarrow> 'h macroblock reader) \<Rightarrow> nat \<Rightarrow> nat \<Rightarrow> nat \<Rightarrow> 'h macroblock list \<Rightarrow> 'h macroblock list reader" where
  "read_macroblocks get w h 0 ms d = Some (ms, d)"
| "read_macroblocks get w h (Suc n) ms d =
     do { (mb, d) \<leftarrow> get (context_of w h ms (length ms)) d;
          read_macroblocks get w h n (ms @ [mb]) d }"

definition write_macroblocks ::
  "('h mb_context \<Rightarrow> 'h macroblock \<Rightarrow> writer) \<Rightarrow> nat \<Rightarrow> nat \<Rightarrow> 'h macroblock list \<Rightarrow> writer" where
  "write_macroblocks put w h ms = enc_seq (map (\<lambda>k. put (context_of w h ms k) (ms ! k)) [0..<length ms])"

text \<open>\<open>calculate_mb_segment_tree_probs\<close>; without a map the array is not initialised and not read.\<close>

definition segment_tree_probs :: "update_segmentation option \<Rightarrow> u8 list" where
  "segment_tree_probs us =
     (case us of
        None \<Rightarrow> [0, 0, 0]
      | Some us \<Rightarrow> (case us_mb_segmentation_map us of
                      None \<Rightarrow> [0, 0, 0] | Some m \<Rightarrow> map (\<lambda>i. get_or 255 (m ! i)) [0..<3]))"

definition key_params :: "key_frame_header \<Rightarrow> key_frame_header frame_params" where
  "key_params h =
     \<lparr>fp_header = h, fp_update_map = updates_map (kh_update_segmentation h),
      fp_prob_skip_false = kh_prob_skip_false h, fp_tree_probs = segment_tree_probs (kh_update_segmentation h)\<rparr>"

definition inter_params :: "inter_frame_header \<Rightarrow> inter_frame_header frame_params" where
  "inter_params h =
     \<lparr>fp_header = h, fp_update_map = updates_map (ih_update_segmentation h),
      fp_prob_skip_false = ih_prob_skip_false h, fp_tree_probs = segment_tree_probs (ih_update_segmentation h)\<rparr>"

text \<open>\<open>parse_macroblock_headers\<close> of a frame of \<open>w\<close> by \<open>h\<close> macroblocks, and
  \<open>serialize_first_partition\<close>.\<close>

definition parse_key_macroblocks :: "key_frame_header \<Rightarrow> nat \<Rightarrow> nat \<Rightarrow> bool \<Rightarrow> unit macroblock list reader" where
  "parse_key_macroblocks hdr w h error_concealment =
     read_macroblocks (read_key_mb (key_params hdr) error_concealment) w h (w * h) []"

definition parse_inter_macroblocks ::
  "inter_frame_header \<Rightarrow> probability_tables \<Rightarrow> nat \<Rightarrow> nat \<Rightarrow> bool \<Rightarrow> inter_mb_header macroblock list reader" where
  "parse_inter_macroblocks hdr pt w h error_concealment =
     read_macroblocks (read_inter_mb (inter_params hdr) pt error_concealment) w h (w * h) []"

definition finished :: "writer \<Rightarrow> bytes option" where
  "finished wr = do { e \<leftarrow> wr bool_encoder_init; (out, e) \<leftarrow> be_finish e; Some out }"

definition serialize_key_first_partition ::
  "key_frame_header \<Rightarrow> nat \<Rightarrow> nat \<Rightarrow> unit macroblock list \<Rightarrow> bytes option" where
  "serialize_key_first_partition hdr w h ms =
     finished (enc_seq [enc_key_frame_header hdr, write_macroblocks (write_key_mb (key_params hdr)) w h ms])"

definition serialize_inter_first_partition ::
  "inter_frame_header \<Rightarrow> probability_tables \<Rightarrow> nat \<Rightarrow> nat \<Rightarrow> inter_mb_header macroblock list \<Rightarrow> bytes option" where
  "serialize_inter_first_partition hdr pt w h ms =
     finished (enc_seq [enc_inter_frame_header hdr, write_macroblocks (write_inter_mb (inter_params hdr) pt) w h ms])"


section \<open>What a frame needs of its macroblocks\<close>

definition neighbours_shaped :: "('h macroblock \<Rightarrow> bool) \<Rightarrow> 'h mb_context \<Rightarrow> bool" where
  "neighbours_shaped shape cx \<longleftrightarrow>
     (\<forall>mb. cx_above cx = Some mb \<or> cx_left cx = Some mb \<or> cx_above_left cx = Some mb \<longrightarrow> shape mb)"

definition frame_ok :: "('h mb_context \<Rightarrow> 'h macroblock \<Rightarrow> bool) \<Rightarrow> nat \<Rightarrow> nat \<Rightarrow> 'h macroblock list \<Rightarrow> bool" where
  "frame_ok ok w h ms \<longleftrightarrow> (\<forall>k<length ms. ok (context_of w h ms k) (ms ! k))"

lemma context_of_prefix:
  assumes "\<forall>i<k. i < length ms \<and> i < length ms' \<and> ms ! i = ms' ! i"
  shows "context_of w h ms k = context_of w h ms' k"
proof -
  have "k \<noteq> 0" "0 < w" if "0 < mb_row w k" using that by (auto simp: mb_row_def intro: Nat.gr0I)
  moreover have "k \<noteq> 0" if "0 < mb_column w k" using that by (auto simp: mb_column_def intro: Nat.gr0I)
  ultimately show ?thesis
    using assms by (simp add: context_of_def Let_def)
qed

lemma context_shaped:
  assumes "list_all shape ms" and "k \<le> length ms" and "0 < w"
  shows "neighbours_shaped shape (context_of w h ms k)"
proof -
  have "k - w < length ms" "k - w - 1 < length ms" if "0 < mb_row w k"
    using that assms(2,3) by (auto simp: mb_row_def div_greater_zero_iff)
  moreover have "k - 1 < length ms" if "0 < mb_column w k"
    using that assms(2) by (cases k) (simp_all add: mb_column_def)
  ultimately show ?thesis
    using assms(1) unfolding list_all_length
    by (auto simp: neighbours_shaped_def context_of_def Let_def split: if_splits)
qed

locale macroblock_contract =
  fixes put :: "'h mb_context \<Rightarrow> 'h macroblock \<Rightarrow> writer"
    and get :: "'h mb_context \<Rightarrow> 'h macroblock reader"
    and ok :: "'h mb_context \<Rightarrow> 'h macroblock \<Rightarrow> bool"
    and shape :: "'h macroblock \<Rightarrow> bool"
  assumes mb_codec: "neighbours_shaped shape cx \<Longrightarrow> bit_codec (put cx) (get cx) (ok cx)"
    and ok_shape: "ok cx mb \<Longrightarrow> shape mb"
begin

lemma frame_shaped: "frame_ok ok w h ms \<Longrightarrow> list_all shape ms"
  using ok_shape by (auto simp: frame_ok_def list_all_length)

lemma macroblocks_code_from:
  assumes "frame_ok ok w h ms" and "0 < w" and "k \<le> length ms"
  shows "codes (enc_seq (map (\<lambda>k. put (context_of w h ms k) (ms ! k)) [k..<length ms]))
    (read_macroblocks get w h (length ms - k) (take k ms)) ms"
  using assms(3)
proof (induction "length ms - k" arbitrary: k)
  case 0
  then show ?case by (simp add: codes_done del: enc_seq.simps)
next
  case (Suc n)
  then have k: "k < length ms" "length ms - k = Suc n" "length ms - Suc k = n" by linarith+
  let ?cx = "context_of w h ms k"
  have "context_of w h (take k ms) (length (take k ms)) = ?cx"
    using k(1) by (simp add: context_of_prefix)
  then have rd: "read_macroblocks get w h (Suc n) (take k ms) =
      (\<lambda>d. do { (mb, d) \<leftarrow> get ?cx d; read_macroblocks get w h n (take k ms @ [mb]) d })"
    by (intro ext) simp
  have "codes (put ?cx (ms ! k)) (get ?cx) (ms ! k)"
    using context_shaped [OF frame_shaped [OF assms(1)], of k w h] assms k(1)
    by (intro bit_codec.codec [OF mb_codec]) (simp_all add: frame_ok_def)
  moreover have "codes (enc_seq (map (\<lambda>k. put (context_of w h ms k) (ms ! k)) [Suc k..<length ms]))
      (read_macroblocks get w h n (take k ms @ [ms ! k])) ms"
    using Suc.hyps(1) [of "Suc k"] k by (simp add: take_Suc_conv_app_nth)
  ultimately show ?case
    unfolding k(2) rd upt_conv_Cons [OF k(1)] list.map
    by (rule codes_step [where k = "\<lambda>mb. read_macroblocks get w h n (take k ms @ [mb])"])
qed

lemma macroblocks_code:
  assumes "frame_ok ok w h ms" and "0 < w" and "length ms = w * h"
  shows "codes (write_macroblocks put w h ms) (read_macroblocks get w h (w * h) []) ms"
  using macroblocks_code_from [OF assms(1,2), of 0] assms(3) by (simp add: write_macroblocks_def)

lemma macroblocks_total_from:
  assumes "0 < w" and "frame_ok ok w h ms"
  shows "returns (read_macroblocks get w h n ms) (\<lambda>ms'. frame_ok ok w h ms' \<and> length ms' = length ms + n)"
  using assms(2)
proof (induction n arbitrary: ms)
  case 0
  then show ?case by (simp add: returns_def)
next
  case (Suc n)
  let ?cx = "context_of w h ms (length ms)"
  have "neighbours_shaped shape ?cx"
    using context_shaped [OF frame_shaped [OF Suc.prems]] assms(1) by simp
  note total = bit_codec.total [OF mb_codec [OF this]]
  have rest: "returns (read_macroblocks get w h n (ms @ [mb]))
      (\<lambda>ms'. frame_ok ok w h ms' \<and> length ms' = length ms + Suc n)" if "ok ?cx mb" for mb
  proof -
    have "ok (context_of w h (ms @ [mb]) k) ((ms @ [mb]) ! k)" if "k < Suc (length ms)" for k
    proof -
      have "context_of w h (ms @ [mb]) k = context_of w h ms k"
        using that by (intro context_of_prefix) (simp add: nth_append)
      then show ?thesis
        using Suc.prems \<open>ok ?cx mb\<close> that by (auto simp: frame_ok_def nth_append less_Suc_eq)
    qed
    then have "frame_ok ok w h (ms @ [mb])" by (simp add: frame_ok_def)
    from Suc.IH [OF this] show ?thesis by simp
  qed
  show ?case
    unfolding read_macroblocks.simps
    by (rule returns_bind [where f = "\<lambda>mb. read_macroblocks get w h n (ms @ [mb])", OF total rest])
qed

lemma macroblocks_codec:
  assumes "0 < w"
  shows "bit_codec (write_macroblocks put w h) (read_macroblocks get w h (w * h) [])
    (\<lambda>ms. frame_ok ok w h ms \<and> length ms = w * h)"
  using macroblocks_code [OF _ assms] macroblocks_total_from [OF assms, of h "[]" "w * h"]
  by unfold_locales (simp_all add: frame_ok_def)

end


section \<open>Key frames and inter frames\<close>

lemma segment_tree_probs_length [simp]: "length (segment_tree_probs us) = 3"
  by (simp add: segment_tree_probs_def split: option.splits)

definition key_shape :: "'h macroblock \<Rightarrow> bool" where
  "key_shape mb \<longleftrightarrow> length (mb_Y mb) = 16 \<and> list_all intra_block (mb_Y mb)"

definition inter_shape :: "'h macroblock \<Rightarrow> bool" where
  "inter_shape mb \<longleftrightarrow> length (mb_Y mb) = 16"

interpretation key_frames: macroblock_contract "write_key_mb (key_params hdr)" "read_key_mb (key_params hdr) False"
  "\<lambda>_. key_mb_ok (key_params hdr)" key_shape for hdr
proof (rule macroblock_contract.intro)
  fix cx :: "unit mb_context"
  assume "neighbours_shaped key_shape cx"
  then have "neighbour_blocks intra_block cx"
    by (auto simp: neighbours_shaped_def neighbour_blocks_def key_shape_def)
  then show "bit_codec (write_key_mb (key_params hdr) cx) (read_key_mb (key_params hdr) False cx) (key_mb_ok (key_params hdr))"
    by (rule key_mb_codec) (simp add: key_params_def)
next
  fix cx :: "unit mb_context" and mb
  assume "key_mb_ok (key_params hdr) mb"
  then show "key_shape mb"
    by (simp add: key_mb_ok_def intra_modes_ok_def blocks_intra_def key_shape_def)
qed

lemma inter_modes_shape: "inter_modes_ok cx mb \<Longrightarrow> inter_shape mb"
  by (auto simp: inter_modes_ok_def intra_modes_ok_def blocks_intra_def inter_shape_def
      inter_coded_ok_def motion_ok_def split_blocks_ok_def split: if_splits option.splits)
    (metis length_replicate moving_blocks_def)

lemma inter_mb_shape: "inter_mb_ok fp cx mb \<Longrightarrow> inter_shape mb"
  by (auto simp: inter_mb_ok_def intro: inter_modes_shape)

lemma inter_frames:
  assumes "probability_tables_ok pt"
  shows "macroblock_contract (write_inter_mb (inter_params hdr) pt) (read_inter_mb (inter_params hdr) pt False)
    (inter_mb_ok (inter_params hdr)) inter_shape"
proof (rule macroblock_contract.intro)
  fix cx :: "inter_mb_header mb_context"
  assume "neighbours_shaped inter_shape cx"
  then have "neighbours_16 cx"
    by (auto simp: neighbours_shaped_def neighbours_16_def inter_shape_def)
  then show "bit_codec (write_inter_mb (inter_params hdr) pt cx) (read_inter_mb (inter_params hdr) pt False cx)
      (inter_mb_ok (inter_params hdr) cx)"
    by (rule inter_mb_codec [OF _ assms]) (simp add: inter_params_def)
qed (rule inter_mb_shape)

lemma default_inter_frames:
  "macroblock_contract (write_inter_mb (inter_params hdr) default_probability_tables)
    (read_inter_mb (inter_params hdr) default_probability_tables False) (inter_mb_ok (inter_params hdr)) inter_shape"
  by (rule inter_frames) (rule default_tables_ok)


section \<open>The first partition\<close>

definition key_macroblocks_ok :: "key_frame_header \<Rightarrow> nat \<Rightarrow> nat \<Rightarrow> unit macroblock list \<Rightarrow> bool" where
  "key_macroblocks_ok hdr w h ms \<longleftrightarrow> list_all (key_mb_ok (key_params hdr)) ms \<and> length ms = w * h"

definition inter_macroblocks_ok :: "inter_frame_header \<Rightarrow> nat \<Rightarrow> nat \<Rightarrow> inter_mb_header macroblock list \<Rightarrow> bool" where
  "inter_macroblocks_ok hdr w h ms \<longleftrightarrow> frame_ok (inter_mb_ok (inter_params hdr)) w h ms \<and> length ms = w * h"

lemma key_macroblocks_codec:
  assumes "0 < w"
  shows "bit_codec (write_macroblocks (write_key_mb (key_params hdr)) w h) (parse_key_macroblocks hdr w h False)
    (key_macroblocks_ok hdr w h)"
proof -
  have "frame_ok (\<lambda>_. key_mb_ok (key_params hdr)) w h = list_all (key_mb_ok (key_params hdr))"
    by (intro ext) (simp add: frame_ok_def list_all_length)
  then show ?thesis
    using key_frames.macroblocks_codec [OF assms, of hdr h]
    unfolding parse_key_macroblocks_def [abs_def] key_macroblocks_ok_def [abs_def] by simp
qed

lemma inter_macroblocks_codec:
  assumes "0 < w" and "probability_tables_ok pt"
  shows "bit_codec (write_macroblocks (write_inter_mb (inter_params hdr) pt) w h) (parse_inter_macroblocks hdr pt w h False)
    (inter_macroblocks_ok hdr w h)"
  using macroblock_contract.macroblocks_codec [OF inter_frames [OF assms(2)] assms(1), of hdr h]
  unfolding parse_inter_macroblocks_def [abs_def] inter_macroblocks_ok_def [abs_def] .

lemma codes_pair:
  assumes "codes f m x" and "codes g (k x) y"
  shows "codes (enc_seq [f, g]) (\<lambda>d. do { (a, d) \<leftarrow> m d; (b, d) \<leftarrow> k a d; Some ((a, b), d) }) (x, y)"
proof -
  have "codes (enc_seq [g]) (\<lambda>d. do { (b, d) \<leftarrow> k x d; Some ((x, b), d) }) (x, y)"
    unfolding codes_seq1 by (rule codes_map [where g = "\<lambda>b. (x, b)", OF assms(2) refl])
  then show ?thesis
    by (rule codes_step [where k = "\<lambda>a d. do { (b, d) \<leftarrow> k a d; Some ((a, b), d) }", OF assms(1)])
qed

text \<open>Two consecutive elements of a finished partition.\<close>

lemma finished_pair:
  assumes "codes f m x" and "codes g (k x) y"
  obtains out d d' where "finished (enc_seq [f, g]) = Some out" and "m (bool_decoder_init out complete) = Some (x, d)"
    and "k x d = Some (y, d')"
proof -
  obtain e out d' where e: "enc_seq [f, g] bool_encoder_init = Some e" "be_finish e = Some (out, bool_encoder_init)"
    and d: "(do { (a, d) \<leftarrow> m (bool_decoder_init out complete); (b, d) \<leftarrow> k a d; Some ((a, b), d) }) = Some ((x, y), d')"
    using codes_whole [OF codes_pair [where k = k, OF assms], of complete] .
  from d obtain d1 where "m (bool_decoder_init out complete) = Some (x, d1)" "k x d1 = Some (y, d')"
    by (auto simp: option_bind_eq_Some)
  moreover have "finished (enc_seq [f, g]) = Some out"
    using e by (simp add: finished_def del: enc_seq.simps)
  ultimately show ?thesis using that by blast
qed



section \<open>Error concealment\<close>

text \<open>With error concealment the macroblocks are read from whatever data there is.  What is read then
  need not have been written by anyone, but it still is a frame of macroblocks.\<close>

definition modes_consistent :: "inter_mb_header macroblock \<Rightarrow> bool" where
  "modes_consistent mb \<longleftrightarrow>
     mb_y2_coded mb = (mb_y_mode mb \<notin> {B_PRED, SPLITMV}) \<and>
     (if imh_is_inter (mb_header mb) then in_tree mbmode_num mv_ref_tree (mb_y_mode mb)
      else intra_modes_ok (in_tree mbmode_num y_mode_tree) mb)"

text \<open>Only without error concealment is there always a reference frame to predict from.\<close>

definition readable_mb :: "bool \<Rightarrow> inter_mb_header macroblock \<Rightarrow> bool" where
  "readable_mb ec mb \<longleftrightarrow>
     inter_shape mb \<and> ok_option (in_tree uint segment_id_tree) (mb_segment_id_update mb) \<and> modes_consistent mb \<and>
     (ec \<or> imh_reference (mb_header mb) \<noteq> None)"

lemma inter_modes_consistent: "inter_modes_ok cx mb \<Longrightarrow> modes_consistent mb"
  using not_split_intra(2)
  by (auto simp: inter_modes_ok_def modes_consistent_def inter_coded_ok_def intra_modes_ok_def mv_ref_modes split: if_splits)

lemma header_reference: "imh_ok fh (imh_core h) \<Longrightarrow> imh_reference h \<noteq> None"
proof -
  assume ok: "imh_ok fh (imh_core h)"
  have "imh_reference (imh_core h) = imh_reference h" by (simp add: imh_reference_def imh_core_def cong: if_cong)
  with ok show ?thesis by (cases "imh_reference h") (auto simp: imh_ok_def flipped_for_def)
qed

lemma macroblocks_return:
  assumes mb: "\<And>cx. neighbours_shaped shape cx \<Longrightarrow> returns (get cx) shape" and "0 < w" and "list_all shape ms"
  shows "returns (read_macroblocks get w h n ms) (\<lambda>ms'. list_all shape ms' \<and> length ms' = length ms + n)"
  using assms(3)
proof (induction n arbitrary: ms)
  case 0
  then show ?case by (simp add: returns_def)
next
  case (Suc n)
  have rest: "returns (read_macroblocks get w h n (ms @ [mb])) (\<lambda>ms'. list_all shape ms' \<and> length ms' = length ms + Suc n)"
    if "shape mb" for mb
    using Suc.IH [of "ms @ [mb]"] Suc.prems that by simp
  have "returns (get (context_of w h ms (length ms))) shape"
    using context_shaped [OF Suc.prems order_refl assms(2)] by (rule mb)
  then show ?case
    unfolding read_macroblocks.simps by (rule returns_bind [where f = "\<lambda>mb. read_macroblocks get w h n (ms @ [mb])", OF _ rest])
qed

lemma concealing_returns: "returns rd P \<Longrightarrow> returns (concealing ec rd) P"
  unfolding returns_def concealing_def zero_decoder_def by (metis bind.bind_lunit bool_decoder_init_ok old.prod.case)

lemma concealed_header_ok: "imh_ok fh imh_concealed"
  by (simp add: imh_ok_def imh_concealed_def flipped_for_def imh_reference_def get_or_def)

lemma concealed_vectors:
  assumes "length (mb_Y mb) = 16" and "mb_y_mode mb = ZEROMV"
  obtains mb' where "derive_vectors (set_base_motion_vector mv mb) = Some mb'"
    and "length (mb_Y mb') = 16" and "mb_segment_id_update mb' = mb_segment_id_update mb"
    and "mb_y_mode mb' = mb_y_mode mb" and "mb_y2_coded mb' = mb_y2_coded mb" and "mb_header mb' = mb_header mb"
proof -
  let ?mb = "set_base_motion_vector mv mb"
  have len: "length (mb_Y ?mb) = 16" using assms(1) by (simp add: set_base_motion_vector_def)
  then have "base_motion_vector ?mb = Some (yb_mv (mb_Y ?mb ! 15))"
    by (simp add: base_motion_vector_def block_at_def cell_index_def)
  then obtain mb1 where mb1: "spread_base ?mb = Some mb1" "length (mb_Y mb1) = 16"
      "mb_segment_id_update mb1 = mb_segment_id_update mb" "mb_y_mode mb1 = mb_y_mode mb"
      "mb_y2_coded mb1 = mb_y2_coded mb" "mb_header mb1 = mb_header mb"
    using len assms(2) by (auto simp: spread_base_def) (simp add: set_base_motion_vector_def)
  moreover obtain uv where "chroma_vectors (mb_Y mb1) = Some uv"
    using chroma_vectors_ok [OF mb1(2)] by blast
  moreover have "mb_segment_id_update ?mb = mb_segment_id_update mb" "mb_y_mode ?mb = mb_y_mode mb"
    "mb_y2_coded ?mb = mb_y2_coded mb" "mb_header ?mb = mb_header mb" by (simp_all add: set_base_motion_vector_def)
  ultimately show ?thesis
    using that [of ?mb] that [of "mb1\<lparr>mb_uv_mvs := uv\<rparr>"] len
    by (cases "imh_is_inter (mb_header ?mb)") (simp_all add: derive_vectors_def)
qed

text \<open>What the modes are once the data has run out.\<close>

lemma concealed_modes:
  assumes cx: "neighbours_16 cx" and over: "\<not> bd_valid d"
  obtains mb where "inter_decode_prediction_modes cx pt True (fresh_macroblock s k h) d = Some (mb, d)"
    and "length (mb_Y mb) = 16" and "mb_segment_id_update mb = s" and "mb_y_mode mb = ZEROMV" and "mb_y2_coded mb"
    and "mb_header mb = h\<lparr>imh_is_inter := True\<rparr>"
proof -
  let ?mb = "set_y_mode ZEROMV (fresh_macroblock s k h\<lparr>mb_header := h\<lparr>imh_is_inter := True\<rparr>\<rparr>)"
  obtain census counts probs where census: "census_at cx (imh_flipped h) = Some census"
    "mode_contexts census = Some counts" "mv_ref_probs counts = Some probs"
    using census_at_ok [OF cx] by metis
  have fields: "length (mb_Y ?mb) = 16" "mb_y_mode ?mb = ZEROMV" "mb_segment_id_update ?mb = s"
    "imh_is_inter (mb_header ?mb)" "mb_y2_coded ?mb" "imh_flipped (mb_header ?mb) = imh_flipped h"
    "mb_header ?mb = h\<lparr>imh_is_inter := True\<rparr>"
    by (simp_all add: set_y_mode_def fresh_macroblock_def)
  obtain mb' where mb': "derive_vectors (set_base_motion_vector mv_zero ?mb) = Some mb'" "length (mb_Y mb') = 16"
    "mb_segment_id_update mb' = mb_segment_id_update ?mb" "mb_y_mode mb' = mb_y_mode ?mb"
    "mb_y2_coded mb' = mb_y2_coded ?mb" "mb_header mb' = mb_header ?mb"
    by (rule concealed_vectors [OF fields(1,2)])
  have "inter_decode_prediction_modes cx pt True (fresh_macroblock s k h) d = Some (mb', d)"
    using over fields(2,4,6) census mb'(1)
    by (simp add: inter_decode_prediction_modes_def read_inter_inter_modes_def read_inter_motion_def Let_def)
  then show ?thesis using mb'(2-6) fields by (intro that) simp_all
qed

lemma concealed_modes_return:
  assumes cx: "neighbours_16 cx" and pt: "probability_tables_ok pt" and h: "imh_ok fh h"
  shows "returns (inter_decode_prediction_modes cx pt ec (fresh_macroblock s k h))
    (\<lambda>mb. inter_shape mb \<and> mb_segment_id_update mb = s \<and> modes_consistent mb \<and> (ec \<or> imh_reference (mb_header mb) \<noteq> None))"
  unfolding returns_def
proof (intro allI impI)
  fix d
  assume d: "bd_ok d"
  show "\<exists>mb d'. inter_decode_prediction_modes cx pt ec (fresh_macroblock s k h) d = Some (mb, d') \<and> bd_ok d' \<and>
      bd_complete_chunk d' = bd_complete_chunk d \<and> inter_shape mb \<and> mb_segment_id_update mb = s \<and> modes_consistent mb \<and> (ec \<or> imh_reference (mb_header mb) \<noteq> None)"
  proof (cases "ec \<and> \<not> bd_valid d")
    case True
    obtain mb where mb: "inter_decode_prediction_modes cx pt ec (fresh_macroblock s k h) d = Some (mb, d)"
      "length (mb_Y mb) = 16" "mb_segment_id_update mb = s" "mb_y_mode mb = ZEROMV" "mb_y2_coded mb"
      "mb_header mb = h\<lparr>imh_is_inter := True\<rparr>"
      using concealed_modes [OF cx, of d] True by metis
    then have "modes_consistent mb" by (simp add: modes_consistent_def mv_ref_modes)
    then show ?thesis using True d mb by (simp add: inter_shape_def)
  next
    case False
    have same: "inter_decode_prediction_modes cx pt ec (fresh_macroblock s k h) d
        = inter_decode_prediction_modes cx pt False (fresh_macroblock s k h) d"
      using False by (auto simp: inter_decode_prediction_modes_def read_inter_inter_modes_def Let_def)
    obtain mb d' where read: "inter_decode_prediction_modes cx pt False (fresh_macroblock s k h) d = Some (mb, d')"
      "bd_ok d'" "bd_complete_chunk d' = bd_complete_chunk d" and modes: "inter_modes_ok cx mb"
      and rest: "mb_segment_id_update mb = s" "imh_core (mb_header mb) = h"
      using bit_codec.total [OF inter_modes_codec [OF cx pt h, of s k]] d unfolding returns_def by metis
    then show ?thesis
      unfolding same using inter_modes_shape [OF modes] inter_modes_consistent [OF modes] rest header_reference [of fh] h by auto
  qed
qed

lemma concealed_mb_returns:
  assumes cx: "neighbours_16 cx" and pt: "probability_tables_ok pt" and probs: "length (fp_tree_probs fp) = 3"
  shows "returns (read_inter_mb fp pt ec cx) (readable_mb ec)"
proof -
  note seg = bit_codec.total [OF bit_codec.optional [OF segment_symbol_codec [OF probs], of "fp_update_map fp"]]
  note skip = bit_codec.total [OF bit_codec.optional [OF put_codec, of "get_or 0 (fp_prob_skip_false fp)" "fp_prob_skip_false fp \<noteq> None"]]
  have header: "returns (\<lambda>d. if ec \<and> \<not> bd_valid d then Some (imh_concealed, d) else read_inter_mb_header (fp_header fp) d)
      (imh_ok (fp_header fp))"
    using bit_codec.total [OF inter_header_codec, of "fp_header fp"] concealed_header_ok by (auto simp: returns_def)
  let ?k3 = "\<lambda>s k h. inter_decode_prediction_modes cx pt ec (fresh_macroblock s k h)"
  let ?k2 = "\<lambda>s k d. do { (h, d) \<leftarrow> (if ec \<and> \<not> bd_valid d then Some (imh_concealed, d)
    else read_inter_mb_header (fp_header fp) d); ?k3 s k h d }"
  let ?k1 = "\<lambda>s d. do { (k, d) \<leftarrow> concealing ec (dec_optional (bd_get (get_or 0 (fp_prob_skip_false fp))) (fp_prob_skip_false fp \<noteq> None)) d;
    ?k2 s k d }"
  have read: "read_inter_mb fp pt ec cx =
      (\<lambda>d. do { (s, d) \<leftarrow> concealing ec (dec_optional (dec_segment_id (fp_tree_probs fp)) (fp_update_map fp)) d; ?k1 s d })"
    by (intro ext) (simp add: read_inter_mb_def read_macroblock_def)
  have result: "returns (?k3 s k h) (readable_mb ec)"
    if "ok_option (in_tree uint segment_id_tree) s \<and> (s \<noteq> None) = fp_update_map fp" and "imh_ok (fp_header fp) h" for s k h
    using that by (intro returns_weaken [OF concealed_modes_return [OF cx pt that(2)]]) (simp add: readable_mb_def)
  show ?thesis
    unfolding read
    by (rule returns_bind [where f = ?k1, OF concealing_returns [OF seg]],
        rule returns_bind [where f = "?k2 _", OF concealing_returns [OF skip]],
        rule returns_bind [where f = "?k3 _ _", OF header], rule result)
qed

lemma parse_inter_macroblocks_returns:
  assumes "probability_tables_ok pt" and "0 < w"
  shows "returns (parse_inter_macroblocks hdr pt w h ec) (\<lambda>ms. list_all (readable_mb ec) ms \<and> length ms = w * h)"
proof -
  have "returns (read_inter_mb (inter_params hdr) pt ec cx) (readable_mb ec)" if "neighbours_shaped (readable_mb ec) cx" for cx
    using that by (intro concealed_mb_returns assms(1))
      (auto simp: neighbours_shaped_def neighbours_16_def readable_mb_def inter_shape_def inter_params_def)
  from macroblocks_return [where get = "read_inter_mb (inter_params hdr) pt ec", OF this assms(2)]
  show ?thesis unfolding parse_inter_macroblocks_def [abs_def] by (rule returns_weaken) simp_all
qed

text \<open>Error concealment never comes to anything.  \<open>parse_and_apply\<close> asks for it just where it tells the decoder
  of the first partition that its chunk is complete, and such a decoder stays valid, so that no macroblock is
  ever concealed.\<close>

lemma complete_valid: "bd_ok d \<Longrightarrow> bd_complete_chunk d \<Longrightarrow> bd_valid d"
  by (simp add: bd_ok_def)

lemma unconcealed_modes:
  "bd_valid d \<Longrightarrow> inter_decode_prediction_modes cx pt ec mb d = inter_decode_prediction_modes cx pt False mb d"
  by (simp add: inter_decode_prediction_modes_def read_inter_inter_modes_def)

lemma unconcealed_mb:
  assumes probs: "length (fp_tree_probs fp) = 3" and d: "bd_ok d" "bd_complete_chunk d"
  shows "read_inter_mb fp pt ec cx d = read_inter_mb fp pt False cx d"
proof -
  note seg = bit_codec.total [OF bit_codec.optional [OF segment_symbol_codec [OF probs], of "fp_update_map fp"]]
  note skip = bit_codec.total [OF bit_codec.optional [OF put_codec, of "get_or 0 (fp_prob_skip_false fp)" "fp_prob_skip_false fp \<noteq> None"]]
  note header = bit_codec.total [OF inter_header_codec, of "fp_header fp"]
  obtain s d1 where 1: "dec_optional (dec_segment_id (fp_tree_probs fp)) (fp_update_map fp) d = Some (s, d1)"
    "bd_ok d1" "bd_complete_chunk d1"
    using seg d unfolding returns_def by blast
  obtain k d2 where 2: "dec_optional (bd_get (get_or 0 (fp_prob_skip_false fp))) (fp_prob_skip_false fp \<noteq> None) d1 = Some (k, d2)"
    "bd_ok d2" "bd_complete_chunk d2"
    using skip 1(2,3) unfolding returns_def by blast
  obtain h d3 where 3: "read_inter_mb_header (fp_header fp) d2 = Some (h, d3)" "bd_ok d3" "bd_complete_chunk d3"
    using header 2(2,3) unfolding returns_def by blast
  have valid: "bd_valid d" "bd_valid d1" "bd_valid d2" "bd_valid d3"
    using d 1(2,3) 2(2,3) 3(2,3) by (simp_all only: complete_valid)
  show ?thesis
    by (simp add: read_inter_mb_def read_macroblock_def concealing_def valid 1(1) 2(1) 3(1) unconcealed_modes [of d3 _ _ ec]
        del: not_None_eq)
qed

lemma read_macroblocks_same:
  assumes same: "\<And>cx d. bd_ok d \<Longrightarrow> bd_complete_chunk d \<Longrightarrow> get cx d = get' cx d"
    and mb: "\<And>cx. neighbours_shaped shape cx \<Longrightarrow> returns (get' cx) shape" and "0 < w"
  shows "list_all shape ms \<Longrightarrow> bd_ok d \<Longrightarrow> bd_complete_chunk d \<Longrightarrow>
    read_macroblocks get w h n ms d = read_macroblocks get' w h n ms d"
proof (induction n arbitrary: ms d)
  case (Suc n)
  let ?cx = "context_of w h ms (length ms)"
  obtain x d' where x: "get' ?cx d = Some (x, d')" "bd_ok d'" "bd_complete_chunk d'" "shape x"
    using mb [OF context_shaped [OF Suc.prems(1) order_refl assms(3)]] Suc.prems(2,3) unfolding returns_def by blast
  have "read_macroblocks get w h n (ms @ [x]) d' = read_macroblocks get' w h n (ms @ [x]) d'"
    using Suc.prems(1) x by (intro Suc.IH) simp_all
  then show ?case using same [OF Suc.prems(2,3), of ?cx] x(1) by simp
qed simp

lemma unconcealed_macroblocks:
  assumes "probability_tables_ok pt" and "0 < w" and "bd_ok d" and "bd_complete_chunk d"
  shows "parse_inter_macroblocks hdr pt w h ec d = parse_inter_macroblocks hdr pt w h False d"
proof -
  have probs: "length (fp_tree_probs (inter_params hdr)) = 3" by (simp add: inter_params_def)
  have "returns (read_inter_mb (inter_params hdr) pt False cx) (readable_mb False)" if "neighbours_shaped (readable_mb False) cx" for cx
    using that by (intro concealed_mb_returns assms(1))
      (auto simp: neighbours_shaped_def neighbours_16_def readable_mb_def inter_shape_def inter_params_def)
  from read_macroblocks_same [where get = "read_inter_mb (inter_params hdr) pt ec", OF unconcealed_mb [OF probs] this assms(2)]
  show ?thesis unfolding parse_inter_macroblocks_def using assms(3,4) by simp
qed

end
