(* ===== verification/Frame_Tokens.thy ===== *)
theory Frame_Tokens
  imports Tokens Frame_Modes
begin

text \<open>
  The DCT partitions of a frame: \<open>relink_y2_blocks\<close> and \<open>parse_tokens\<close> of \<open>Frame\<close>
  (src/src/decoder/frame.cc), \<open>serialize_tokens\<close> of \<open>Frame\<close> (src/src/encoder/serializer.cc).  The
  macroblock rows take turns in the partitions, each with a coder of its own; the contexts of a
  macroblock come from the macroblocks above and to the left, and for its \<open>Y2\<close> block from the
  nearest ones that have a \<open>Y2\<close> block.
\<close>

section \<open>Linking the Y2 blocks\<close>

text \<open>The pointers \<open>above\<close> and \<open>left\<close> of a \<open>Y2\<close> block, as indices of macroblocks.\<close>

type_synonym links = "nat option \<times> nat option"

primrec relink_loop :: "nat \<Rightarrow> bool list \<Rightarrow> nat \<Rightarrow> nat option list \<Rightarrow> nat option list \<Rightarrow> links list" where
  "relink_loop w [] k above_coded left_coded = []"
| "relink_loop w (coded # cs) k above_coded left_coded =
     (let column = mb_column w k; row = mb_row w k in
      (above_coded ! column, left_coded ! row)
      # relink_loop w cs (k + 1)
          (if coded then above_coded[column := Some k] else above_coded)
          (if coded then left_coded[row := Some k] else left_coded))"

definition relink_y2_blocks :: "nat \<Rightarrow> nat \<Rightarrow> bool list \<Rightarrow> links list" where
  "relink_y2_blocks w h coded = relink_loop w coded 0 (replicate w None) (replicate h None)"


section \<open>The contexts of a macroblock's tokens\<close>

definition y2_nonzero :: "residue option \<Rightarrow> bool" where
  "y2_nonzero r = (case r of None \<Rightarrow> False | Some r \<Rightarrow> (case rs_Y2 r of None \<Rightarrow> False | Some b \<Rightarrow> snd b))"

definition bottom_nonzero :: "nat \<Rightarrow> (residue \<Rightarrow> (coefficients \<times> bool) list list) \<Rightarrow> residue option \<Rightarrow> bool option list" where
  "bottom_nonzero n plane r =
     (case r of None \<Rightarrow> replicate n (Some False) | Some r \<Rightarrow> map (Some \<circ> snd) (last (plane r)))"

definition right_nonzero :: "nat \<Rightarrow> (residue \<Rightarrow> (coefficients \<times> bool) list list) \<Rightarrow> residue option \<Rightarrow> bool option list" where
  "right_nonzero n plane r =
     (case r of None \<Rightarrow> replicate n (Some False) | Some r \<Rightarrow> map (Some \<circ> snd \<circ> last) (plane r))"

definition neighbours_of ::
  "nat \<Rightarrow> (residue \<Rightarrow> (coefficients \<times> bool) list list) \<Rightarrow> nat \<Rightarrow> residue option list \<Rightarrow> nat \<Rightarrow> neighbours" where
  "neighbours_of n plane w rs k =
     \<lparr>nb_above = (if mb_row w k > 0 then bottom_nonzero n plane (rs ! (k - w)) else replicate n None),
      nb_left = (if mb_column w k > 0 then right_nonzero n plane (rs ! (k - 1)) else replicate n None)\<rparr>"

definition residue_context_of :: "nat \<Rightarrow> links list \<Rightarrow> residue option list \<Rightarrow> nat \<Rightarrow> residue_context" where
  "residue_context_of w links rs k =
     \<lparr>rc_Y2 = (map_option (\<lambda>j. y2_nonzero (rs ! j)) (fst (links ! k)), map_option (\<lambda>j. y2_nonzero (rs ! j)) (snd (links ! k))),
      rc_Y = neighbours_of 4 rs_Y w rs k, rc_U = neighbours_of 2 rs_U w rs k, rc_V = neighbours_of 2 rs_V w rs k\<rparr>"


section \<open>The partitions\<close>

text \<open>What the tokens need of a macroblock's header: its skip flag and whether it has a \<open>Y2\<close>
  block.\<close>

type_synonym token_view = "bool option \<times> bool"

definition token_view :: "'h macroblock \<Rightarrow> token_view" where
  "token_view mb = (mb_skip_coeff mb, mb_y2_coded mb)"

primrec parse_token_mbs ::
  "band_probs list \<Rightarrow> nat \<Rightarrow> links list \<Rightarrow> token_view list \<Rightarrow> residue option list \<Rightarrow> bool_decoder list \<Rightarrow>
   (residue option list \<times> bool_decoder list) option" where
  "parse_token_mbs probs w links [] rs ds = Some (rs, ds)"
| "parse_token_mbs probs w links (v # vs) rs ds =
     (let k = length rs; i = mb_row w k mod length ds in
      do { d \<leftarrow> at ds i;
           (r, d) \<leftarrow> parse_macroblock_tokens probs (fst v) (snd v) (residue_context_of w links rs k) d;
           parse_token_mbs probs w links vs (rs @ [r]) (ds[i := d]) })"

definition parse_frame_tokens ::
  "band_probs list \<Rightarrow> nat \<Rightarrow> nat \<Rightarrow> token_view list \<Rightarrow> bytes list \<Rightarrow> residue option list option" where
  "parse_frame_tokens probs w h views partitions =
     (let links = relink_y2_blocks w h (map snd views);
          ds = map (\<lambda>chunk. bool_decoder_init chunk True) partitions in
      do { (rs, ds) \<leftarrow> parse_token_mbs probs w links views [] ds; Some rs })"

primrec put_token_mbs ::
  "band_probs list \<Rightarrow> nat \<Rightarrow> links list \<Rightarrow> residue option list \<Rightarrow> token_view list \<Rightarrow> nat \<Rightarrow> bool_encoder list \<Rightarrow>
   bool_encoder list option" where
  "put_token_mbs probs w links rs [] k es = Some es"
| "put_token_mbs probs w links rs (v # vs) k es =
     (let i = mb_row w k mod length es in
      do { e \<leftarrow> at es i;
           e \<leftarrow> serialize_macroblock_tokens probs (fst v) (snd v) (residue_context_of w links rs k) (rs ! k) e;
           put_token_mbs probs w links rs vs (k + 1) (es[i := e]) })"

primrec finish_all :: "bool_encoder list \<Rightarrow> bytes list option" where
  "finish_all [] = Some []"
| "finish_all (e # es) =
     do { (out, e) \<leftarrow> be_finish e; outs \<leftarrow> finish_all es; Some (out # outs) }"

definition serialize_frame_tokens ::
  "band_probs list \<Rightarrow> nat \<Rightarrow> nat \<Rightarrow> nat \<Rightarrow> token_view list \<Rightarrow> residue option list \<Rightarrow> bytes list option" where
  "serialize_frame_tokens probs w h count views rs =
     (let links = relink_y2_blocks w h (map snd views) in
      do { es \<leftarrow> put_token_mbs probs w links rs views 0 (replicate count bool_encoder_init);
           finish_all es })"


section \<open>The links\<close>

definition nearest_above :: "nat \<Rightarrow> bool list \<Rightarrow> nat \<Rightarrow> nat option" where
  "nearest_above w coded k =
     find (\<lambda>j. mb_column w j = mb_column w k \<and> coded ! j) (rev [0..<k])"

definition nearest_left :: "nat \<Rightarrow> bool list \<Rightarrow> nat \<Rightarrow> nat option" where
  "nearest_left w coded k =
     find (\<lambda>j. mb_row w j = mb_row w k \<and> coded ! j) (rev [0..<k])"

lemma find_rev_Suc: "find P (rev [0..<Suc k]) = (if P k then Some k else find P (rev [0..<k]))"
  by simp

lemma relink_loop_spec:
  assumes "0 < w" and "k + length cs = w * h" and "length coded = w * h" and "drop k coded = cs"
    and "length as = w" and "length ls = h"
    and "\<forall>c<w. as ! c = find (\<lambda>j. mb_column w j = c \<and> coded ! j) (rev [0..<k])"
    and "\<forall>r<h. ls ! r = find (\<lambda>j. mb_row w j = r \<and> coded ! j) (rev [0..<k])"
  shows "relink_loop w cs k as ls = map (\<lambda>k. (nearest_above w coded k, nearest_left w coded k)) [k..<w * h]"
  using assms
proof (induction cs arbitrary: k as ls)
  case Nil
  then show ?case by simp
next
  case (Cons c cs)
  have k: "k < w * h" "coded ! k = c" "drop (Suc k) coded = cs"
  proof -
    show "k < w * h" using Cons.prems(2) by simp
    show "coded ! k = c" using Cons.prems(4) by (rule nth_via_drop)
    show "drop (Suc k) coded = cs" using Cons.prems(4) by (metis drop_Suc tl_drop list.sel(3))
  qed
  have col: "mb_column w k < w" and row: "mb_row w k < h"
    using Cons.prems(1) k(1) by (simp_all add: mb_column_def mb_row_def less_mult_imp_div_less mult.commute)
  let ?as = "if c then as[mb_column w k := Some k] else as" and ?ls = "if c then ls[mb_row w k := Some k] else ls"
  have "relink_loop w cs (k + 1) ?as ?ls
      = map (\<lambda>k. (nearest_above w coded k, nearest_left w coded k)) [k + 1..<w * h]"
  proof (rule Cons.IH)
    show "\<forall>c<w. ?as ! c = find (\<lambda>j. mb_column w j = c \<and> coded ! j) (rev [0..<k + 1])"
      using Cons.prems(5,7) k(2) col unfolding Suc_eq_plus1 [symmetric] find_rev_Suc
      by (auto simp: nth_list_update)
    show "\<forall>r<h. ?ls ! r = find (\<lambda>j. mb_row w j = r \<and> coded ! j) (rev [0..<k + 1])"
      using Cons.prems(6,8) k(2) row unfolding Suc_eq_plus1 [symmetric] find_rev_Suc
      by (auto simp: nth_list_update)
  qed (use Cons.prems k in simp_all)
  moreover have "as ! mb_column w k = nearest_above w coded k" "ls ! mb_row w k = nearest_left w coded k"
    using Cons.prems(7,8) col row by (simp_all add: nearest_above_def nearest_left_def)
  ultimately show ?case
    using upt_conv_Cons [OF k(1)] by (simp add: Let_def)
qed

lemma relink_all:
  assumes "0 < w" and "length coded = w * h"
  shows "relink_y2_blocks w h coded = map (\<lambda>k. (nearest_above w coded k, nearest_left w coded k)) [0..<w * h]"
  unfolding relink_y2_blocks_def using assms by (intro relink_loop_spec) simp_all

lemma relink_spec:
  assumes "0 < w" and "length coded = w * h" and "k < w * h"
  shows "relink_y2_blocks w h coded ! k = (nearest_above w coded k, nearest_left w coded k)"
  using relink_all [OF assms(1,2)] assms(3) by simp

lemma find_rev_less: "find P (rev [0..<k]) = Some j \<Longrightarrow> j < k"
  by (auto simp: find_Some_iff rev_nth)

lemma relink_earlier:
  assumes "0 < w" and "length coded = w * h" and "k < w * h"
  shows "fst (relink_y2_blocks w h coded ! k) = Some j \<Longrightarrow> j < k"
    and "snd (relink_y2_blocks w h coded ! k) = Some j \<Longrightarrow> j < k"
  unfolding relink_spec [OF assms] by (auto simp: nearest_above_def nearest_left_def dest: find_rev_less)



section \<open>The bits of each partition\<close>

definition skipped :: "bool option \<Rightarrow> bool" where
  "skipped skip = (case skip of None \<Rightarrow> False | Some b \<Rightarrow> b)"

definition token_mb_ok :: "token_view \<Rightarrow> residue_context \<Rightarrow> residue option \<Rightarrow> bool" where
  "token_mb_ok v cx r \<longleftrightarrow> (r = None) = skipped (fst v) \<and> ok_option (residue_ok (snd v) cx) r"

definition frame_tokens_ok :: "nat \<Rightarrow> nat \<Rightarrow> token_view list \<Rightarrow> residue option list \<Rightarrow> bool" where
  "frame_tokens_ok w h views rs \<longleftrightarrow>
     length views = w * h \<and> length rs = w * h \<and>
     (\<forall>k<w * h. token_mb_ok (views ! k) (residue_context_of w (relink_y2_blocks w h (map snd views)) rs k) (rs ! k))"

lemma token_mb_codes:
  assumes "token_mb_ok v cx r"
  shows "codes (serialize_macroblock_tokens probs (fst v) (snd v) cx r)
    (parse_macroblock_tokens probs (fst v) (snd v) cx) r"
proof (cases "skipped (fst v)")
  case True
  then have "serialize_macroblock_tokens probs (fst v) (snd v) cx r = enc_seq []"
    "parse_macroblock_tokens probs (fst v) (snd v) cx = (\<lambda>d. Some (None, d))" "r = None"
    using assms
    by (auto simp: serialize_macroblock_tokens_def parse_macroblock_tokens_def dec_optional_def [abs_def] skipped_def
        token_mb_ok_def simp del: enc_seq.simps)
  then show ?thesis by (simp add: codes_done del: enc_seq.simps)
next
  case False
  then obtain x where x: "r = Some x" "residue_ok (snd v) cx x"
    using assms by (auto simp: token_mb_ok_def)
  have "serialize_macroblock_tokens probs (fst v) (snd v) cx r = serialize_residue probs (snd v) cx x"
    using False x(1) by (simp add: serialize_macroblock_tokens_def skipped_def enc_optional_def)
  moreover have "parse_macroblock_tokens probs (fst v) (snd v) cx =
      (\<lambda>d. do { (x, d) \<leftarrow> parse_residue probs (snd v) cx d; Some (Some x, d) })"
    using False by (intro ext) (simp add: parse_macroblock_tokens_def dec_optional_def skipped_def)
  ultimately show ?thesis
    using codes_map [where g = Some, OF residue_codes [OF x(2)] refl] x(1) by simp
qed

lemma residue_context_prefix:
  assumes "0 < w" and "length coded = w * h" and "k < w * h" and "k \<le> length rs"
  shows "residue_context_of w (relink_y2_blocks w h coded) (take k rs) k
    = residue_context_of w (relink_y2_blocks w h coded) rs k"
proof -
  have "take k rs ! (k - w) = rs ! (k - w)" if "0 < mb_row w k"
    using that assms(1) by (intro nth_take) (auto simp: mb_row_def div_greater_zero_iff)
  moreover have "take k rs ! (k - 1) = rs ! (k - 1)" if "0 < mb_column w k"
    using that by (intro nth_take) (cases k, auto simp: mb_column_def)
  ultimately have planes: "neighbours_of n plane w (take k rs) k = neighbours_of n plane w rs k" for n plane
    by (simp add: neighbours_of_def)
  have links: "map_option (\<lambda>j. y2_nonzero (take k rs ! j)) l = map_option (\<lambda>j. y2_nonzero (rs ! j)) l"
    if "\<And>j. l = Some j \<Longrightarrow> j < k" for l
    using that by (cases l) simp_all
  show ?thesis
    unfolding residue_context_of_def planes
    using links [of "fst (relink_y2_blocks w h coded ! k)"] links [of "snd (relink_y2_blocks w h coded ! k)"]
      relink_earlier [OF assms(1-3)] by simp
qed

text \<open>\<open>part_bits\<close>: the bits that the macroblocks from \<open>k\<close> on put into partition \<open>i\<close> of \<open>count\<close>, when
  macroblock \<open>j\<close> puts the bits \<open>bits j\<close>.\<close>

definition part_bits :: "nat \<Rightarrow> nat \<Rightarrow> (nat \<Rightarrow> (bool \<times> u8) list) \<Rightarrow> nat \<Rightarrow> nat \<Rightarrow> nat \<Rightarrow> (bool \<times> u8) list" where
  "part_bits w count bits n k i = concat (map bits (filter (\<lambda>j. mb_row w j mod count = i) [k..<n]))"

lemma part_bits_step:
  "k < n \<Longrightarrow> part_bits w count bits n k i =
     (if mb_row w k mod count = i then bits k @ part_bits w count bits n (Suc k) i else part_bits w count bits n (Suc k) i)"
  by (simp add: part_bits_def upt_conv_Cons)

lemma part_bits_end: "part_bits w count bits n n i = []"
  by (simp add: part_bits_def)

lemma put_token_mbs_bits:
  assumes "\<And>j. j < n \<Longrightarrow> writes (serialize_macroblock_tokens probs (fst (views ! j)) (snd (views ! j))
      (residue_context_of w links rs j) (rs ! j)) (bits j)"
    and "length views = n" and "length es = count" and "length fs = count" and "0 < count" and "k \<le> n"
    and "\<forall>i<count. be_put_many (part_bits w count bits n k i) (es ! i) = Some (fs ! i)"
  shows "put_token_mbs probs w links rs (drop k views) k es = Some fs"
  using assms(3,6,7)
proof (induction "n - k" arbitrary: k es)
  case 0
  then have "\<forall>i<count. es ! i = fs ! i" "k = n" by (simp_all add: part_bits_end)
  then have "es = fs" using 0 assms(4) by (intro nth_equalityI) simp_all
  then show ?case using \<open>k = n\<close> assms(2) by simp
next
  case (Suc m)
  then have k: "k < n" by simp
  let ?i = "mb_row w k mod count"
  have i: "?i < count" using assms(5) by simp
  let ?enc = "serialize_macroblock_tokens probs (fst (views ! k)) (snd (views ! k)) (residue_context_of w links rs k) (rs ! k)"
  have "be_put_many (bits k @ part_bits w count bits n (Suc k) ?i) (es ! ?i) = Some (fs ! ?i)"
    using Suc.prems(3) [rule_format, OF i] by (simp add: part_bits_step [OF k])
  then obtain e where e: "be_put_many (bits k) (es ! ?i) = Some e" "be_put_many (part_bits w count bits n (Suc k) ?i) e = Some (fs ! ?i)"
    by (auto simp: be_put_many_append option_bind_eq_Some)
  have "put_token_mbs probs w links rs (drop (Suc k) views) (Suc k) (es[?i := e]) = Some fs"
  proof (rule Suc.hyps(1))
    show "\<forall>i<count. be_put_many (part_bits w count bits n (Suc k) i) (es[?i := e] ! i) = Some (fs ! i)"
    proof (intro allI impI)
      fix i
      assume "i < count"
      then show "be_put_many (part_bits w count bits n (Suc k) i) (es[?i := e] ! i) = Some (fs ! i)"
        using Suc.prems(1,3) e(2) part_bits_step [OF k, of w count bits i] by (cases "i = ?i") auto
    qed
  qed (use Suc.hyps(2) Suc.prems k in simp_all)
  moreover have "?enc (es ! ?i) = Some e"
    using assms(1) [OF k] e(1) by (simp add: writes_def)
  ultimately show ?case
    using Suc.prems(1) i k assms(2) Cons_nth_drop_Suc [of k views, symmetric] by (simp add: Let_def)
qed

lemma parse_token_mbs_bits:
  assumes "\<And>j. j < n \<Longrightarrow> reads (parse_macroblock_tokens probs (fst (views ! j)) (snd (views ! j))
      (residue_context_of w links (take j rs) j)) (bits j) (rs ! j)"
    and "length views = n" and "length rs = n" and "length ds = count" and "0 < count" and "k \<le> n"
    and "\<forall>i<count. yields (ds ! i) (part_bits w count bits n k i)"
  shows "\<exists>ds'. parse_token_mbs probs w links (drop k views) (take k rs) ds = Some (rs, ds')"
  using assms(4,6,7)
proof (induction "n - k" arbitrary: k ds)
  case 0
  then show ?case using assms(2,3) by simp
next
  case (Suc m)
  then have k: "k < n" by simp
  let ?i = "mb_row w k mod count"
  have i: "?i < count" using assms(5) by simp
  let ?dec = "parse_macroblock_tokens probs (fst (views ! k)) (snd (views ! k)) (residue_context_of w links (take k rs) k)"
  have "yields (ds ! ?i) (bits k @ part_bits w count bits n (Suc k) ?i)"
    using Suc.prems(3) [rule_format, OF i] by (simp add: part_bits_step [OF k])
  then obtain d where d: "?dec (ds ! ?i) = Some (rs ! k, d)" "yields d (part_bits w count bits n (Suc k) ?i)"
    using assms(1) [OF k] unfolding reads_def by blast
  have "\<exists>ds'. parse_token_mbs probs w links (drop (Suc k) views) (take (Suc k) rs) (ds[?i := d]) = Some (rs, ds')"
  proof (rule Suc.hyps(1))
    show "\<forall>i<count. yields (ds[?i := d] ! i) (part_bits w count bits n (Suc k) i)"
    proof (intro allI impI)
      fix i
      assume "i < count"
      then show "yields (ds[?i := d] ! i) (part_bits w count bits n (Suc k) i)"
        using Suc.prems(1,3) d(2) part_bits_step [OF k, of w count bits i] by (cases "i = ?i") auto
    qed
  qed (use Suc.hyps(2) Suc.prems k in simp_all)
  then show ?case
    using Suc.prems(1) i k d(1) assms(2,3) Cons_nth_drop_Suc [of k views, symmetric]
    by (simp add: Let_def take_Suc_conv_app_nth)
qed


lemma finish_all_outs:
  "length fs = length outs \<Longrightarrow> \<forall>i<length fs. be_finish (fs ! i) = Some (outs ! i, bool_encoder_init) \<Longrightarrow>
   finish_all fs = Some outs"
proof (induction fs arbitrary: outs)
  case (Cons f fs)
  then obtain out outs' where outs: "outs = out # outs'" by (cases outs) auto
  have "finish_all fs = Some outs'"
    using Cons.prems unfolding outs by (intro Cons.IH) auto
  moreover have "be_finish f = Some (out, bool_encoder_init)"
    using Cons.prems(2) unfolding outs by auto
  ultimately show ?case by (simp add: outs)
qed simp

text \<open>The tokens of a frame survive, for any number of partitions.\<close>

lemma frame_tokens_roundtrip:
  assumes ok: "frame_tokens_ok w h views rs" and "0 < w" and "0 < count"
  shows "\<exists>outs. serialize_frame_tokens probs w h count views rs = Some outs \<and> length outs = count \<and> [] \<notin> set outs \<and>
    parse_frame_tokens probs w h views outs = Some rs"
proof -
  let ?n = "w * h" and ?links = "relink_y2_blocks w h (map snd views)"
  let ?enc = "\<lambda>j. serialize_macroblock_tokens probs (fst (views ! j)) (snd (views ! j)) (residue_context_of w ?links rs j) (rs ! j)"
  let ?dec = "\<lambda>j. parse_macroblock_tokens probs (fst (views ! j)) (snd (views ! j)) (residue_context_of w ?links (take j rs) j)"
  have len: "length views = ?n" "length rs = ?n" using ok by (simp_all add: frame_tokens_ok_def)
  have "\<exists>ps. writes (?enc j) ps \<and> reads (?dec j) ps (rs ! j)" if "j < ?n" for j
  proof -
    have "residue_context_of w ?links (take j rs) j = residue_context_of w ?links rs j"
      using assms(2) len that by (intro residue_context_prefix) simp_all
    moreover have "codes (?enc j) (parse_macroblock_tokens probs (fst (views ! j)) (snd (views ! j)) (residue_context_of w ?links rs j)) (rs ! j)"
      using ok that by (intro token_mb_codes) (simp add: frame_tokens_ok_def)
    ultimately show ?thesis by (simp add: codes_def)
  qed
  then obtain bits where bits: "\<And>j. j < ?n \<Longrightarrow> writes (?enc j) (bits j)" "\<And>j. j < ?n \<Longrightarrow> reads (?dec j) (bits j) (rs ! j)"
    by metis
  have "\<exists>e out. be_put_many ps bool_encoder_init = Some e \<and> be_finish e = Some (out, bool_encoder_init) \<and>
      yields (bool_decoder_init out True) ps \<and> out \<noteq> []" for ps
    using put_many_finish by metis
  then obtain enc out where eo: "\<And>ps. be_put_many ps bool_encoder_init = Some (enc ps)"
    "\<And>ps. be_finish (enc ps) = Some (out ps, bool_encoder_init)" "\<And>ps. yields (bool_decoder_init (out ps) True) ps"
    "\<And>ps. [] \<noteq> out ps"
    by metis
  let ?ps = "part_bits w count bits ?n 0"
  let ?fs = "map (\<lambda>i. enc (?ps i)) [0..<count]" and ?outs = "map (\<lambda>i. out (?ps i)) [0..<count]"
  have "put_token_mbs probs w ?links rs (drop 0 views) 0 (replicate count bool_encoder_init) = Some ?fs"
    using len assms(3) eo(1) by (intro put_token_mbs_bits [where bits = bits and n = ?n and count = count] bits(1)) simp_all
  moreover have "finish_all ?fs = Some ?outs"
    using eo(2) by (intro finish_all_outs) simp_all
  moreover have "\<exists>ds'. parse_token_mbs probs w ?links (drop 0 views) (take 0 rs) (map (\<lambda>chunk. bool_decoder_init chunk True) ?outs) = Some (rs, ds')"
    using len assms(3) eo(3) by (intro parse_token_mbs_bits [where bits = bits and n = ?n and count = count] bits(2)) simp_all
  ultimately show ?thesis
    using eo(4) by (intro exI [of _ ?outs]) (auto simp: serialize_frame_tokens_def parse_frame_tokens_def)
qed


section \<open>Parsing tokens always ends\<close>

lemma parse_row_returns: "returns (parse_row probs t as l) (\<lambda>_. True)"
proof (induction as arbitrary: l)
  case Nil
  then show ?case by (simp add: returns_def)
next
  case (Cons a as)
  have "returns (parse_tokens probs t a l (no_coefficients, False)) (\<lambda>_. True)"
    unfolding parse_tokens_def
    by (rule returns_weaken [OF parse_loop_returns]) (auto simp: no_coefficients_def first_index_def)
  then show ?case
    unfolding parse_row.simps by (intro returns_bind [OF _ returns_bind [OF Cons.IH]] returns_return TrueI)
qed

lemma parse_plane_returns: "returns (parse_plane probs t as ls) (\<lambda>_. True)"
proof (induction ls arbitrary: as)
  case Nil
  then show ?case by (simp add: returns_def)
next
  case (Cons l ls)
  show ?case
    unfolding parse_plane.simps
    by (intro returns_bind [OF parse_row_returns] returns_bind [OF Cons.IH] returns_return TrueI)
qed

text \<open>A macroblock's residue has a \<open>Y2\<close> block when its prediction mode does.\<close>

definition y2_agrees :: "bool \<Rightarrow> residue option \<Rightarrow> bool" where
  "y2_agrees coded r \<longleftrightarrow> ok_option (\<lambda>x. (rs_Y2 x \<noteq> None) = coded) r"

lemma dec_optional_returns: "returns rd (\<lambda>_. True) \<Longrightarrow> returns (dec_optional rd b) (\<lambda>x. (x \<noteq> None) = b)"
  unfolding dec_optional_def [abs_def]
  by (cases b) (simp_all, intro returns_bind [where P = "\<lambda>_. True"] returns_return, simp_all add: returns_return)

lemma parse_macroblock_tokens_returns: "returns (parse_macroblock_tokens probs skip coded cx) (y2_agrees coded)"
proof -
  have "returns (parse_tokens probs Y2 a l (no_coefficients, False)) (\<lambda>_. True)" for a l
    unfolding parse_tokens_def
    by (rule returns_weaken [OF parse_loop_returns]) (auto simp: no_coefficients_def first_index_def)
  note y2 = dec_optional_returns [OF this]
  have "returns (parse_residue probs coded cx) (\<lambda>r. (rs_Y2 r \<noteq> None) = coded)"
    unfolding parse_residue_def [abs_def]
    by (intro returns_bind [OF y2] returns_bind [OF parse_plane_returns] returns_return) simp
  then show ?thesis
    unfolding parse_macroblock_tokens_def dec_optional_def [abs_def]
    by (intro returns_if returns_bind returns_return) (simp_all add: y2_agrees_def)
qed

lemma parse_token_mbs_returns:
  "ds \<noteq> [] \<Longrightarrow> list_all bd_ok ds \<Longrightarrow>
   \<exists>rs' ds'. parse_token_mbs probs w links vs rs ds = Some (rs @ rs', ds') \<and> list_all2 (\<lambda>v. y2_agrees (snd v)) vs rs'"
proof (induction vs arbitrary: rs ds)
  case (Cons v vs)
  let ?i = "mb_row w (length rs) mod length ds"
  have i: "?i < length ds" using Cons.prems(1) by simp
  then have "bd_ok (ds ! ?i)" using Cons.prems(2) by (simp add: list_all_length)
  then obtain r d where d: "parse_macroblock_tokens probs (fst v) (snd v) (residue_context_of w links rs (length rs)) (ds ! ?i) = Some (r, d)"
    "bd_ok d" "y2_agrees (snd v) r"
    using parse_macroblock_tokens_returns unfolding returns_def by blast
  have "\<exists>rs' ds'. parse_token_mbs probs w links vs (rs @ [r]) (ds[?i := d]) = Some ((rs @ [r]) @ rs', ds') \<and>
      list_all2 (\<lambda>v. y2_agrees (snd v)) vs rs'"
    using Cons.prems d(2) by (intro Cons.IH) (auto simp: list_all_length nth_list_update)
  then obtain rs' ds' where "parse_token_mbs probs w links vs (rs @ [r]) (ds[?i := d]) = Some (rs @ r # rs', ds')"
    "list_all2 (\<lambda>v. y2_agrees (snd v)) vs rs'" by auto
  then show ?case using i d(1,3) by (intro exI [of _ "r # rs'"] exI [of _ ds']) (simp add: Let_def)
qed simp

lemma parse_frame_tokens_returns:
  "partitions \<noteq> [] \<Longrightarrow> \<exists>rs. parse_frame_tokens probs w h views partitions = Some rs \<and> list_all2 (\<lambda>v. y2_agrees (snd v)) views rs"
  using parse_token_mbs_returns [of "map (\<lambda>chunk. bool_decoder_init chunk True) partitions" probs w
    "relink_y2_blocks w h (map snd views)" views "[]"]
  by (auto simp: parse_frame_tokens_def list_all_iff)


section \<open>Properties\<close>

text \<open>C14: The single pass of \<open>relink_y2_blocks\<close>, which remembers one block for each column and row, is
  equivalent to a search: the block above of a macroblock is the last one of its column before it that
  has a \<open>Y2\<close> block, however many macroblocks without one lie between, and the block to the left the
  last one of its row.\<close>

theorem y2_links_equivalent:
  assumes "0 < w" and "length coded = w * h"
  shows "relink_y2_blocks w h coded = map (\<lambda>k. (nearest_above w coded k, nearest_left w coded k)) [0..<w * h]"
  using assms by (rule relink_all)

theorem y2_links_equivalent_witness:
  "relink_y2_blocks 2 3 [True, True, False, True, True, False] =
     map (\<lambda>k. (nearest_above 2 [True, True, False, True, True, False] k, nearest_left 2 [True, True, False, True, True, False] k)) [0..<6] \<and>
   relink_y2_blocks 2 3 [True, True, False, True, True, False] ! 4 = (Some 0, None)"
proof
  show "relink_y2_blocks 2 3 [True, True, False, True, True, False] =
     map (\<lambda>k. (nearest_above 2 [True, True, False, True, True, False] k, nearest_left 2 [True, True, False, True, True, False] k)) [0..<6]"
    using y2_links_equivalent [of 2 "[True, True, False, True, True, False]" 3] by simp
  show "relink_y2_blocks 2 3 [True, True, False, True, True, False] ! 4 = (Some 0, None)" by code_simp
qed

end
