(* ===== verification/Frame_Codec.thy ===== *)
theory Frame_Codec
  imports Frame_Chunk Frame_Tokens State_Store
begin

text \<open>
  Whole frames: \<open>KeyFrame::serialize\<close> and \<open>InterFrame::serialize\<close>
  (src/src/encoder/serializer.cc) and \<open>DecoderState::parse_and_apply\<close>
  (src/src/decoder/decoder_state.hh), composed of the frame layout, the headers, the macroblocks
  and the tokens.  \<open>parse_and_apply\<close> changes the decoder state before it knows that the frame can be
  read to its end, so that its model returns a state along with a result, also when it throws.
\<close>

section \<open>Frames\<close>

record ('h, 'm) frame =
  fr_show :: bool
  fr_width :: u16
  fr_height :: u16
  fr_header :: 'h
  fr_macroblocks :: "'m macroblock list"
  fr_segment_ids :: bytes
  fr_residues :: "residue option list"

type_synonym key_frame = "(key_frame_header, unit) frame"
type_synonym inter_frame = "(inter_frame_header, inter_mb_header) frame"

definition columns_of :: "u16 \<Rightarrow> nat" where "columns_of width = macroblock_dimension (unat width)"
definition rows_of :: "u16 \<Rightarrow> nat" where "rows_of height = macroblock_dimension (unat height)"

definition dct_partition_count :: "u8 \<Rightarrow> u8" where
  "dct_partition_count log2_number = push_bit (unat log2_number) 1"

definition result_of :: "error \<Rightarrow> 'a option \<Rightarrow> 'a result" where
  "result_of e x = (case x of None \<Rightarrow> Inl e | Some x \<Rightarrow> Inr x)"

text \<open>A step that may throw, with the state that the exception leaves behind.\<close>

definition keeping :: "'s \<Rightarrow> 'a result \<Rightarrow> ('a \<Rightarrow> 's \<times> 'b result) \<Rightarrow> 's \<times> 'b result" where
  "keeping st r k = (case r of Inl e \<Rightarrow> (st, Inl e) | Inr x \<Rightarrow> k x)"


section \<open>Writing a frame\<close>

definition serialize_key_frame :: "probability_tables \<Rightarrow> key_frame \<Rightarrow> bytes result" where
  "serialize_key_frame tables fr =
     (let hdr = fr_header fr; w = columns_of (fr_width fr); h = rows_of (fr_height fr);
          tables = coeff_prob_update (kh_token_prob_update hdr) tables in
      bind_result (result_of Undefined (serialize_key_first_partition hdr w h (fr_macroblocks fr))) (\<lambda>part.
      bind_result (result_of Undefined
        (serialize_frame_tokens (pt_coeff_probs tables) w h (unat (dct_partition_count (kh_log2_number_of_dct_partitions hdr)))
          (map token_view (fr_macroblocks fr)) (fr_residues fr))) (\<lambda>parts.
      make_frame True (fr_show fr) False False (fr_width fr) (fr_height fr) part parts)))"

definition serialize_inter_frame :: "probability_tables \<Rightarrow> inter_frame \<Rightarrow> bytes result" where
  "serialize_inter_frame tables fr =
     (let hdr = fr_header fr; w = columns_of (fr_width fr); h = rows_of (fr_height fr);
          tables = probability_tables_update hdr tables in
      bind_result (result_of Undefined (serialize_inter_first_partition hdr tables w h (fr_macroblocks fr))) (\<lambda>part.
      bind_result (result_of Undefined
        (serialize_frame_tokens (pt_coeff_probs tables) w h (unat (dct_partition_count (ih_log2_number_of_dct_partitions hdr)))
          (map token_view (fr_macroblocks fr)) (fr_residues fr))) (\<lambda>parts.
      make_frame False (fr_show fr) False False (fr_width fr) (fr_height fr) part parts)))"


section \<open>Reading a frame\<close>

text \<open>\<open>Frame::update_segmentation\<close>: the macroblocks in their order, each storing and caching its
  segment.\<close>

primrec update_map :: "nat \<Rightarrow> 'm macroblock list \<Rightarrow> nat \<Rightarrow> segmentation \<Rightarrow> (bytes \<times> segmentation) option" where
  "update_map w [] k sg = Some ([], sg)"
| "update_map w (mb # ms) k sg =
     do { (segment_id, sg) \<leftarrow> mb_update_segmentation (mb_column w k) (mb_row w k) (mb_segment_id_update mb) sg;
          (ids, sg) \<leftarrow> update_map w ms (k + 1) sg;
          Some (segment_id # ids, sg) }"

definition frame_update_segmentation :: "nat \<Rightarrow> 'm macroblock list \<Rightarrow> decoder_state \<Rightarrow> (bytes \<times> decoder_state) option" where
  "frame_update_segmentation w ms st =
     (case ds_segmentation st of
        None \<Rightarrow> Some (replicate (length ms) 0, st)
      | Some sg \<Rightarrow> do { (ids, sg) \<leftarrow> update_map w ms 0 sg; Some (ids, st\<lparr>ds_segmentation := Some sg\<rparr>) })"

definition headers_corrupted :: "corruption_level \<Rightarrow> bool" where
  "headers_corrupted level \<longleftrightarrow> level = CORRUPTED_FIRST_PARTITION \<or> level = CORRUPTED_FRAME"

definition first_partition_decoder :: "uncompressed_chunk \<Rightarrow> bool_decoder" where
  "first_partition_decoder uc =
     bool_decoder_init (contents (uc_first_partition uc)) (headers_corrupted (uc_corruption_level uc))"

text \<open>What both kinds of frames do after their macroblock headers.\<close>

definition parse_residues ::
  "uncompressed_chunk \<Rightarrow> decoder_state \<Rightarrow> probability_tables \<Rightarrow> 'h \<Rightarrow> u8 \<Rightarrow> 'm macroblock list \<Rightarrow>
   decoder_state \<times> ('h, 'm) frame result" where
  "parse_residues uc st tables hdr log2_number ms =
     (let w = columns_of (ds_width st); h = rows_of (ds_height st) in
      keeping st (result_of Assert_failed (frame_update_segmentation w ms st)) (\<lambda>(ids, st).
      keeping st (dct_partitions uc (dct_partition_count log2_number)) (\<lambda>parts.
      keeping st (result_of Undefined
        (parse_frame_tokens (pt_coeff_probs tables) w h (map token_view ms) (map contents parts))) (\<lambda>rs.
      (st, Inr \<lparr>fr_show = uc_show_frame uc, fr_width = ds_width st, fr_height = ds_height st, fr_header = hdr,
                fr_macroblocks = ms, fr_segment_ids = ids, fr_residues = rs\<rparr>)))))"

definition parse_and_apply_key :: "uncompressed_chunk \<Rightarrow> decoder_state \<Rightarrow> decoder_state \<times> key_frame result" where
  "parse_and_apply_key uc st =
     keeping st (check (uc_key_frame uc) Assert_failed) (\<lambda>_.
     keeping st (check (\<not> uc_experimental uc) Invalid) (\<lambda>_.
     keeping st (check (0 < ds_width st \<and> 0 < ds_height st) Assert_failed) (\<lambda>_.
     keeping st (read_key_frame_header (first_partition_decoder uc)) (\<lambda>(hdr, d).
     keeping st (apply_key_header hdr st) (\<lambda>(st, tables).
     keeping st (result_of Undefined
       (parse_key_macroblocks hdr (columns_of (ds_width st)) (rows_of (ds_height st)) False d)) (\<lambda>(ms, d).
     parse_residues uc st tables hdr (kh_log2_number_of_dct_partitions hdr) ms))))))"

definition parse_and_apply_inter :: "uncompressed_chunk \<Rightarrow> decoder_state \<Rightarrow> decoder_state \<times> inter_frame result" where
  "parse_and_apply_inter uc st =
     keeping st (check (\<not> uc_key_frame uc) Assert_failed) (\<lambda>_.
     keeping st (check (0 < ds_width st \<and> 0 < ds_height st) Assert_failed) (\<lambda>_.
     keeping st (read_inter_frame_header (first_partition_decoder uc)) (\<lambda>(hdr, d).
     keeping st (apply_inter_header hdr st) (\<lambda>(st, tables).
     keeping st (result_of Undefined
       (parse_inter_macroblocks hdr tables (columns_of (ds_width st)) (rows_of (ds_height st))
         (headers_corrupted (uc_corruption_level uc)) d)) (\<lambda>(ms, d).
     parse_residues uc st tables hdr (ih_log2_number_of_dct_partitions hdr) ms)))))"


section \<open>Steps that keep a state\<close>

lemma keeping_simps [simp]:
  "keeping st (Inr x) k = k x"
  "keeping st (Inl e) k = (st, Inl e)"
  by (simp_all add: keeping_def)

lemma result_of_simps [simp]:
  "result_of e (Some x) = Inr x"
  "result_of e None = Inl e"
  by (simp_all add: result_of_def)

lemma dimension_bounds:
  assumes "0 < (n :: u16)"
  shows "0 < macroblock_dimension (unat n)" and "macroblock_dimension (unat n) \<le> unat n"
proof -
  have "0 < unat n" using assms by (simp add: unat_gt_0)
  then show "0 < macroblock_dimension (unat n)" "macroblock_dimension (unat n) \<le> unat n"
    unfolding macroblock_dimension_def by linarith+
qed

lemmas frame_dimensions = columns_of_def rows_of_def dimension_bounds

lemma partition_count:
  assumes "unsigned_ok 2 n"
  shows "0 < unat (dct_partition_count n)" and "unat (dct_partition_count n) < 256"
proof -
  have "unat n < 4" using assms by (simp add: unsigned_ok_def)
  then have "unat n = 0 \<or> unat n = 1 \<or> unat n = 2 \<or> unat n = 3" by linarith
  then show "0 < unat (dct_partition_count n)"
    by (auto simp: dct_partition_count_def)
  show "unat (dct_partition_count n) < 256"
    using unsigned_less [of "dct_partition_count n"] by simp
qed


section \<open>The segmentation map\<close>

definition segment_ok :: "'m macroblock \<Rightarrow> bool" where
  "segment_ok mb \<longleftrightarrow> ok_option (\<lambda>s. s < 4) (mb_segment_id_update mb)"

lemma mb_update_ok:
  assumes sg: "segmentation_ok W H sg" and pos: "column < unat W" "row < unat H" and upd: "ok_option (\<lambda>s. s < 4) upd"
  shows "\<exists>i sg'. mb_update_segmentation column row upd sg = Some (i, sg') \<and> i < 4 \<and> segmentation_ok W H sg'"
proof -
  let ?i = "row * unat W + column"
  let ?m = "case upd of None \<Rightarrow> sg_map sg | Some s \<Rightarrow> (sg_map sg)[?i := s]"
  have "?i < (row + 1) * unat W" using pos(1) by simp
  also have "\<dots> \<le> unat H * unat W" using pos(2) by (intro mult_right_mono) simp_all
  finally have i: "?i < length (sg_map sg)" using sg by (simp add: segmentation_ok_def mult.commute)
  have m: "length ?m = length (sg_map sg)" "\<forall>s\<in>set ?m. s < 4"
    using sg upd by (auto simp: segmentation_ok_def split: option.splits dest!: set_update_subset_insert [THEN subsetD])
  then have "?m ! ?i < 4" "at ?m ?i = Some (?m ! ?i)" using i by simp_all
  moreover have "segmentation_ok W H (sg\<lparr>sg_map := ?m\<rparr>)"
    using sg m by (simp add: segmentation_ok_def)
  ultimately show ?thesis
    using sg pos by (simp add: mb_update_segmentation_def map_index_def segmentation_ok_def Let_def)
qed

lemma update_map_ok:
  assumes "segmentation_ok W H sg" and "list_all segment_ok ms" and "0 < w" and "k + length ms \<le> w * h"
    and "w \<le> unat W" and "h \<le> unat H"
  shows "\<exists>ids sg'. update_map w ms k sg = Some (ids, sg') \<and> length ids = length ms \<and> list_all (\<lambda>s. s < 4) ids \<and>
    segmentation_ok W H sg'"
  using assms(1,2,4)
proof (induction ms arbitrary: k sg)
  case (Cons mb ms)
  have "k < w * h" using Cons.prems(3) by simp
  then have "mb_row w k < h" by (simp add: mb_row_def less_mult_imp_div_less mult.commute)
  moreover have "mb_column w k < w" using assms(3) by (simp add: mb_column_def)
  ultimately have pos: "mb_column w k < unat W" "mb_row w k < unat H" using assms(5,6) by linarith+
  have "ok_option (\<lambda>s. s < 4) (mb_segment_id_update mb)" using Cons.prems(2) by (simp add: segment_ok_def)
  from mb_update_ok [OF Cons.prems(1) pos this] obtain i sg1 where
    1: "mb_update_segmentation (mb_column w k) (mb_row w k) (mb_segment_id_update mb) sg = Some (i, sg1)"
      "i < 4" "segmentation_ok W H sg1" by blast
  have "\<exists>ids sg'. update_map w ms (k + 1) sg1 = Some (ids, sg') \<and> length ids = length ms \<and> list_all (\<lambda>s. s < 4) ids \<and>
      segmentation_ok W H sg'"
    using Cons.prems by (intro Cons.IH 1(3)) simp_all
  then show ?case using 1(1,2) by auto
qed simp

lemma frame_update_ok:
  assumes st: "decoder_state_ok st" and ms: "list_all segment_ok ms" "length ms = columns_of (ds_width st) * rows_of (ds_height st)"
  shows "\<exists>ids st'. frame_update_segmentation (columns_of (ds_width st)) ms st = Some (ids, st') \<and> length ids = length ms \<and>
    list_all (\<lambda>s. s < 4) ids \<and> decoder_state_ok st' \<and> ds_width st' = ds_width st \<and> ds_height st' = ds_height st"
proof (cases "ds_segmentation st")
  case None
  then show ?thesis using st by (simp add: frame_update_segmentation_def list_all_iff)
next
  case (Some sg)
  have dims: "0 < ds_width st" "0 < ds_height st" and sg: "segmentation_ok (ds_width st) (ds_height st) sg"
    using st Some by (simp_all add: decoder_state_ok_def)
  have "\<exists>ids sg'. update_map (columns_of (ds_width st)) ms 0 sg = Some (ids, sg') \<and> length ids = length ms \<and>
      list_all (\<lambda>s. s < 4) ids \<and> segmentation_ok (ds_width st) (ds_height st) sg'"
    using ms dims by (intro update_map_ok [where h = "rows_of (ds_height st)"] sg) (simp_all add: frame_dimensions)
  then show ?thesis using st Some by (auto simp: frame_update_segmentation_def decoder_state_ok_def)
qed

lemma segment_codes: "in_tree uint segment_id_tree s \<Longrightarrow> s < (4 :: u8)"
  by (auto simp: in_tree_def leaf_values word_less_alt)

lemma core_segment_ok: "core_ok fp mb \<Longrightarrow> segment_ok mb"
  by (auto simp: core_ok_def segment_ok_def segment_codes split: option.splits)


section \<open>A frame survives\<close>

definition frame_shape_ok :: "('h, 'm) frame \<Rightarrow> bool" where
  "frame_shape_ok fr \<longleftrightarrow>
     0 < fr_width fr \<and> fr_width fr \<le> 16383 \<and> 0 < fr_height fr \<and> fr_height fr \<le> 16383 \<and>
     frame_tokens_ok (columns_of (fr_width fr)) (rows_of (fr_height fr)) (map token_view (fr_macroblocks fr)) (fr_residues fr)"

definition key_frame_ok :: "key_frame \<Rightarrow> bool" where
  "key_frame_ok fr \<longleftrightarrow>
     frame_shape_ok fr \<and> key_frame_header_ok (fr_header fr) \<and> key_frame_header_supported (fr_header fr) = Inr () \<and>
     key_macroblocks_ok (fr_header fr) (columns_of (fr_width fr)) (rows_of (fr_height fr)) (fr_macroblocks fr)"

definition inter_frame_ok :: "inter_frame \<Rightarrow> bool" where
  "inter_frame_ok fr \<longleftrightarrow>
     frame_shape_ok fr \<and> inter_frame_header_ok (fr_header fr) \<and> inter_frame_header_supported (fr_header fr) = Inr () \<and>
     inter_macroblocks_ok (fr_header fr) (columns_of (fr_width fr)) (rows_of (fr_height fr)) (fr_macroblocks fr)"

lemma length_concat_member: "x \<in> set xs \<Longrightarrow> length x \<le> length (concat xs)"
  by (induction xs) auto

text \<open>The layout that the two partitions are given, and how the decoder takes it apart.\<close>

definition taken_apart ::
  "bool \<Rightarrow> ('h, 'm) frame \<Rightarrow> u8 \<Rightarrow> bytes \<Rightarrow> bytes list \<Rightarrow> uncompressed_chunk \<Rightarrow> bool" where
  "taken_apart key fr n part parts uc \<longleftrightarrow>
     uc_key_frame uc = key \<and> uc_show_frame uc = fr_show fr \<and> \<not> uc_experimental uc \<and>
     uc_corruption_level uc = NO_CORRUPTION \<and> contents (uc_first_partition uc) = part \<and>
     (\<exists>ps. dct_partitions uc (dct_partition_count n) = Inr ps \<and> map contents ps = parts)"

lemma laid_out:
  assumes shape: "frame_shape_ok fr" and count: "unsigned_ok 2 n"
  obtains parts bs where
    "serialize_frame_tokens probs (columns_of (fr_width fr)) (rows_of (fr_height fr)) (unat (dct_partition_count n))
       (map token_view (fr_macroblocks fr)) (fr_residues fr) = Some parts"
    and "parse_frame_tokens probs (columns_of (fr_width fr)) (rows_of (fr_height fr)) (map token_view (fr_macroblocks fr)) parts
       = Some (fr_residues fr)"
    and "make_frame key (fr_show fr) False False (fr_width fr) (fr_height fr) part parts = Inr bs"
    and "length bs < 2 ^ 19 \<longrightarrow>
       (\<exists>uc. parse_uncompressed (chunk_of bs) (fr_width fr) (fr_height fr) accept_partial = Inr uc \<and>
             taken_apart key fr n part parts uc)"
proof -
  let ?w = "columns_of (fr_width fr)" and ?h = "rows_of (fr_height fr)"
  have "0 < ?w" using shape by (simp add: frame_shape_ok_def frame_dimensions)
  moreover have "frame_tokens_ok ?w ?h (map token_view (fr_macroblocks fr)) (fr_residues fr)"
    using shape by (simp add: frame_shape_ok_def)
  ultimately obtain parts where parts: "length parts = unat (dct_partition_count n)" "[] \<notin> set parts"
    "serialize_frame_tokens probs ?w ?h (unat (dct_partition_count n)) (map token_view (fr_macroblocks fr)) (fr_residues fr) = Some parts"
    "parse_frame_tokens probs ?w ?h (map token_view (fr_macroblocks fr)) parts = Some (fr_residues fr)"
    using frame_tokens_roundtrip [where probs = probs, OF _ _ partition_count(1) [OF count]] by blast
  have ne: "parts \<noteq> []" "parts \<noteq> [[]]" "length parts < 256" "word_of_nat (length parts) = dct_partition_count n"
    using parts(1,2) partition_count [OF count] by auto
  obtain pre where bs0: "make_frame key (fr_show fr) False False (fr_width fr) (fr_height fr) part parts =
      Inr (pre @ part @ concat (map length_bytes (butlast parts)) @ concat parts)"
    using ne(1) shape unfolding frame_shape_ok_def make_frame_def not_less [symmetric] append_assoc [symmetric]
    by simp
  obtain bs where bs: "make_frame key (fr_show fr) False False (fr_width fr) (fr_height fr) part parts = Inr bs"
    and len: "length part \<le> length bs" "\<forall>p\<in>set parts. length p \<le> length bs"
    using that [OF bs0] length_concat_member [of _ parts] by fastforce
  have "\<exists>uc. parse_uncompressed (chunk_of bs) (fr_width fr) (fr_height fr) accept_partial = Inr uc \<and>
      taken_apart key fr n part parts uc" if small: "length bs < 2 ^ 19"
  proof -
    have "length part < 2 ^ 19" "length bs < 2 ^ 64" using small len(1) by simp_all
    moreover have "length p < 2 ^ 24" if "p \<in> set (butlast parts)" for p
      using len(2) in_set_butlastD [OF that] small by fastforce
    ultimately show ?thesis
      using make_frame_parsed [OF bs _ _ ne(2,3), where accept_partial = accept_partial]
      unfolding ne(4) taken_apart_def by auto
  qed
  then show ?thesis by (intro that [OF parts(3,4) bs] impI)
qed

lemma residues_parsed:
  assumes "uc_show_frame uc = fr_show fr" and "ds_width st = fr_width fr" and "ds_height st = fr_height fr"
    and "frame_update_segmentation (columns_of (fr_width fr)) (fr_macroblocks fr) st = Some (ids, st')"
    and "ds_width st' = ds_width st" and "ds_height st' = ds_height st"
    and "dct_partitions uc (dct_partition_count n) = Inr ps"
    and "parse_frame_tokens (pt_coeff_probs tables) (columns_of (fr_width fr)) (rows_of (fr_height fr))
      (map token_view (fr_macroblocks fr)) (map contents ps) = Some (fr_residues fr)"
  shows "parse_residues uc st tables (fr_header fr) n (fr_macroblocks fr) = (st', Inr (fr\<lparr>fr_segment_ids := ids\<rparr>))"
  using assms by (simp add: parse_residues_def)


lemma key_segments_ok: "key_macroblocks_ok hdr w h ms \<Longrightarrow> list_all segment_ok ms \<and> length ms = w * h"
  by (auto simp: key_macroblocks_ok_def key_mb_ok_def list_all_iff intro: core_segment_ok)

lemma inter_segments_ok: "inter_macroblocks_ok hdr w h ms \<Longrightarrow> list_all segment_ok ms \<and> length ms = w * h"
  by (auto simp: inter_macroblocks_ok_def frame_ok_def inter_mb_ok_def list_all_length intro: core_segment_ok)

lemma key_frame_survives:
  assumes fr: "key_frame_ok fr" and st: "ds_width st = fr_width fr" "ds_height st = fr_height fr"
  shows "\<exists>bs. serialize_key_frame default_probability_tables fr = Inr bs \<and>
    (length bs < 2 ^ 19 \<longrightarrow>
     (\<exists>uc st1 tables ids st2.
        parse_uncompressed (chunk_of bs) (fr_width fr) (fr_height fr) accept_partial = Inr uc \<and>
        apply_key_header (fr_header fr) st = Inr (st1, tables) \<and>
        frame_update_segmentation (columns_of (fr_width fr)) (fr_macroblocks fr) st1 = Some (ids, st2) \<and>
        parse_and_apply_key uc st = (st2, Inr (fr\<lparr>fr_segment_ids := ids\<rparr>))))"
proof -
  let ?hdr = "fr_header fr" and ?w = "columns_of (fr_width fr)" and ?h = "rows_of (fr_height fr)" and ?ms = "fr_macroblocks fr"
  have shape: "frame_shape_ok fr" and hdr: "key_frame_header_ok ?hdr" "key_frame_header_supported ?hdr = Inr ()"
    and ms: "key_macroblocks_ok ?hdr ?w ?h ?ms"
    using fr by (simp_all add: key_frame_ok_def)
  have dims: "0 < fr_width fr" "0 < fr_height fr" using shape by (simp_all add: frame_shape_ok_def)
  have n: "unsigned_ok 2 (kh_log2_number_of_dct_partitions ?hdr)" using hdr(1) by (simp add: key_frame_header_ok_def)
  obtain part d d' where part: "serialize_key_first_partition ?hdr ?w ?h ?ms = Some part"
    "dec_key_frame_header (bool_decoder_init part False) = Some (?hdr, d)"
    "parse_key_macroblocks ?hdr ?w ?h False d = Some (?ms, d')"
    unfolding serialize_key_first_partition_def
    by (rule finished_pair [where complete = False and k = "\<lambda>hdr. parse_key_macroblocks hdr ?w ?h False",
        OF key_header.codec [OF hdr(1)] bit_codec.codec [OF key_macroblocks_codec ms]])
      (use dims in \<open>simp_all add: frame_dimensions\<close>)
  let ?tables = "coeff_prob_update (kh_token_prob_update ?hdr) default_probability_tables"
  obtain parts bs where parts:
    "serialize_frame_tokens (pt_coeff_probs ?tables) ?w ?h (unat (dct_partition_count (kh_log2_number_of_dct_partitions ?hdr)))
       (map token_view ?ms) (fr_residues fr) = Some parts"
    "parse_frame_tokens (pt_coeff_probs ?tables) ?w ?h (map token_view ?ms) parts = Some (fr_residues fr)"
    and made: "make_frame True (fr_show fr) False False (fr_width fr) (fr_height fr) part parts = Inr bs"
    and apart: "length bs < 2 ^ 19 \<longrightarrow>
       (\<exists>uc. parse_uncompressed (chunk_of bs) (fr_width fr) (fr_height fr) accept_partial = Inr uc \<and>
             taken_apart True fr (kh_log2_number_of_dct_partitions ?hdr) part parts uc)"
    by (rule laid_out [OF shape n, where probs = "pt_coeff_probs ?tables" and key = True and part = part
          and accept_partial = accept_partial])
  have bs: "serialize_key_frame default_probability_tables fr = Inr bs"
    by (simp add: serialize_key_frame_def Let_def part(1) parts(1) made)
  obtain st1 tables where st1: "apply_key_header ?hdr st = Inr (st1, tables)" "decoder_state_ok st1"
    "ds_width st1 = fr_width fr" "ds_height st1 = fr_height fr"
    using key_header_ok [OF hdr(1), of st] dims unfolding st by auto
  have tables: "tables = ?tables"
    using st1(1) by (auto simp: apply_key_header_def bind_result_eq_Inr decoder_state_of_key_header_def decoder_state_init_def Let_def)
  obtain ids st2 where st2: "frame_update_segmentation ?w ?ms st1 = Some (ids, st2)"
    "ds_width st2 = ds_width st1" "ds_height st2 = ds_height st1"
    using frame_update_ok [OF st1(2), of ?ms] key_segments_ok [OF ms] unfolding st1(3,4) by blast
  have "parse_and_apply_key uc st = (st2, Inr (fr\<lparr>fr_segment_ids := ids\<rparr>))"
    if uc: "taken_apart True fr (kh_log2_number_of_dct_partitions ?hdr) part parts uc" for uc
  proof -
    obtain ps where ps: "dct_partitions uc (dct_partition_count (kh_log2_number_of_dct_partitions ?hdr)) = Inr ps"
      "map contents ps = parts" using uc by (auto simp: taken_apart_def)
    have flags: "uc_key_frame uc" "\<not> uc_experimental uc" "uc_show_frame uc = fr_show fr"
      using uc by (simp_all add: taken_apart_def)
    have "first_partition_decoder uc = bool_decoder_init part False"
      using uc by (simp add: taken_apart_def first_partition_decoder_def headers_corrupted_def)
    moreover have "read_key_frame_header (bool_decoder_init part False) = Inr (?hdr, d)"
      using part(2) hdr(2) by (simp add: read_key_frame_header_def)
    moreover have "parse_residues uc st1 ?tables ?hdr (kh_log2_number_of_dct_partitions ?hdr) ?ms =
        (st2, Inr (fr\<lparr>fr_segment_ids := ids\<rparr>))"
      using parts(2) by (intro residues_parsed [OF flags(3) st1(3,4) st2 ps(1)]) (simp add: ps(2))
    ultimately show ?thesis
      using flags dims st1 part(3) st unfolding parse_and_apply_key_def tables by simp
  qed
  with bs apart st1(1) st2(1) show ?thesis by blast
qed


lemma inter_frame_survives:
  assumes fr: "inter_frame_ok fr" and st: "decoder_state_ok st" "ds_width st = fr_width fr" "ds_height st = fr_height fr"
  shows "\<exists>bs. serialize_inter_frame (ds_probability_tables st) fr = Inr bs \<and>
    (length bs < 2 ^ 19 \<longrightarrow>
     (\<exists>uc st1 tables ids st2.
        parse_uncompressed (chunk_of bs) (fr_width fr) (fr_height fr) accept_partial = Inr uc \<and> \<not> uc_experimental uc \<and>
        apply_inter_header (fr_header fr) st = Inr (st1, tables) \<and>
        frame_update_segmentation (columns_of (fr_width fr)) (fr_macroblocks fr) st1 = Some (ids, st2) \<and>
        parse_and_apply_inter uc st = (st2, Inr (fr\<lparr>fr_segment_ids := ids\<rparr>))))"
proof -
  let ?hdr = "fr_header fr" and ?w = "columns_of (fr_width fr)" and ?h = "rows_of (fr_height fr)" and ?ms = "fr_macroblocks fr"
  have shape: "frame_shape_ok fr" and hdr: "inter_frame_header_ok ?hdr" "inter_frame_header_supported ?hdr = Inr ()"
    and ms: "inter_macroblocks_ok ?hdr ?w ?h ?ms"
    using fr by (simp_all add: inter_frame_ok_def)
  have dims: "0 < fr_width fr" "0 < fr_height fr" using shape by (simp_all add: frame_shape_ok_def)
  have n: "unsigned_ok 2 (ih_log2_number_of_dct_partitions ?hdr)" using hdr(1) by (simp add: inter_frame_header_ok_def)
  let ?tables = "probability_tables_update ?hdr (ds_probability_tables st)"
  have tables_ok: "probability_tables_ok ?tables"
    using st(1) by (intro probability_tables_update_ok hdr(1)) (simp add: decoder_state_ok_def)
  obtain part d d' where part: "serialize_inter_first_partition ?hdr ?tables ?w ?h ?ms = Some part"
    "dec_inter_frame_header (bool_decoder_init part False) = Some (?hdr, d)"
    "parse_inter_macroblocks ?hdr ?tables ?w ?h False d = Some (?ms, d')"
    unfolding serialize_inter_first_partition_def
    by (rule finished_pair [where complete = False and k = "\<lambda>hdr. parse_inter_macroblocks hdr ?tables ?w ?h False",
        OF inter_header.codec [OF hdr(1)] bit_codec.codec [OF inter_macroblocks_codec [OF _ tables_ok] ms]])
      (use dims in \<open>simp_all add: frame_dimensions\<close>)
  obtain parts bs where parts:
    "serialize_frame_tokens (pt_coeff_probs ?tables) ?w ?h (unat (dct_partition_count (ih_log2_number_of_dct_partitions ?hdr)))
       (map token_view ?ms) (fr_residues fr) = Some parts"
    "parse_frame_tokens (pt_coeff_probs ?tables) ?w ?h (map token_view ?ms) parts = Some (fr_residues fr)"
    and made: "make_frame False (fr_show fr) False False (fr_width fr) (fr_height fr) part parts = Inr bs"
    and apart: "length bs < 2 ^ 19 \<longrightarrow>
       (\<exists>uc. parse_uncompressed (chunk_of bs) (fr_width fr) (fr_height fr) accept_partial = Inr uc \<and>
             taken_apart False fr (ih_log2_number_of_dct_partitions ?hdr) part parts uc)"
    by (rule laid_out [OF shape n, where probs = "pt_coeff_probs ?tables" and key = False and part = part
          and accept_partial = accept_partial])
  have bs: "serialize_inter_frame (ds_probability_tables st) fr = Inr bs"
    by (simp add: serialize_inter_frame_def Let_def part(1) parts(1) made)
  obtain st1 tables where st1: "apply_inter_header ?hdr st = Inr (st1, tables)" "decoder_state_ok st1"
    "ds_width st1 = fr_width fr" "ds_height st1 = fr_height fr"
    using inter_header_ok [OF hdr(1) st(1)] unfolding st by auto
  have tables: "tables = ?tables"
    using st1(1) by (auto simp: apply_inter_header_def bind_result_eq_Inr Let_def)
  obtain ids st2 where st2: "frame_update_segmentation ?w ?ms st1 = Some (ids, st2)"
    "ds_width st2 = ds_width st1" "ds_height st2 = ds_height st1"
    using frame_update_ok [OF st1(2), of ?ms] inter_segments_ok [OF ms] unfolding st1(3,4) by blast
  have "parse_and_apply_inter uc st = (st2, Inr (fr\<lparr>fr_segment_ids := ids\<rparr>))"
    if uc: "taken_apart False fr (ih_log2_number_of_dct_partitions ?hdr) part parts uc" for uc
  proof -
    obtain ps where ps: "dct_partitions uc (dct_partition_count (ih_log2_number_of_dct_partitions ?hdr)) = Inr ps"
      "map contents ps = parts" using uc by (auto simp: taken_apart_def)
    have flags: "\<not> uc_key_frame uc" "\<not> headers_corrupted (uc_corruption_level uc)" "uc_show_frame uc = fr_show fr"
      using uc by (simp_all add: taken_apart_def headers_corrupted_def)
    have "first_partition_decoder uc = bool_decoder_init part False"
      using uc flags(2) by (simp add: taken_apart_def first_partition_decoder_def)
    moreover have "read_inter_frame_header (bool_decoder_init part False) = Inr (?hdr, d)"
      using part(2) hdr(2) by (simp add: read_inter_frame_header_def)
    moreover have "parse_residues uc st1 ?tables ?hdr (ih_log2_number_of_dct_partitions ?hdr) ?ms =
        (st2, Inr (fr\<lparr>fr_segment_ids := ids\<rparr>))"
      using parts(2) by (intro residues_parsed [OF flags(3) st1(3,4) st2 ps(1)]) (simp add: ps(2))
    ultimately show ?thesis
      using flags dims st1 part(3) st unfolding parse_and_apply_inter_def tables by simp
  qed
  moreover have "\<not> uc_experimental uc" if "taken_apart False fr (ih_log2_number_of_dct_partitions ?hdr) part parts uc" for uc
    using that by (simp add: taken_apart_def)
  ultimately show ?thesis using bs apart st1(1) st2(1) by blast
qed


section \<open>Any data is read to an end\<close>

lemma chunk_sub_cases:
  assumes "chunk_ok c" and "unat offset + unat len < 2 ^ 64"
  shows "chunk_sub c offset len = Inl Out_of_range \<or> (\<exists>d. chunk_sub c offset len = Inr d \<and> chunk_ok d)"
  using chunk_sub_in [OF assms(1), of offset len] chunk_sub_short [OF assms(1), of offset len] assms(2) not_le by metis

lemma chunk_from_cases: "chunk_ok c \<Longrightarrow> chunk_from c offset = Inl Out_of_range \<or> (\<exists>d. chunk_from c offset = Inr d \<and> chunk_ok d)"
  using chunk_from_in [of c offset] chunk_from_out [of c offset] not_le by metis

lemma length_field_cases:
  assumes "chunk_ok c"
  shows "chunk_bits c 0 24 = Inl Out_of_range \<or> (\<exists>v. chunk_bits c 0 24 = Inr v)"
  using chunk_field [OF assms, of 24 0] chunk_bits_out [OF assms, of 24 0] by (cases "3 \<le> length (contents c)") auto

lemma read_lengths_cases:
  "chunk_ok c \<Longrightarrow> read_lengths n c = Inl Out_of_range \<or> (\<exists>lens d. read_lengths n c = Inr (lens, d) \<and> chunk_ok d)"
proof (induction n arbitrary: c)
  case (Suc n)
  consider "chunk_bits c 0 24 = Inl Out_of_range" | v where "chunk_bits c 0 24 = Inr v" "chunk_from c 3 = Inl Out_of_range"
    | v d where "chunk_bits c 0 24 = Inr v" "chunk_from c 3 = Inr d" "chunk_ok d"
    using length_field_cases [OF Suc.prems] chunk_from_cases [OF Suc.prems, of 3] by blast
  then show ?case
  proof cases
    case (3 v d)
    then show ?thesis using Suc.IH [OF 3(3)] by auto
  qed simp_all
qed simp

lemma cut_partitions_cases:
  "chunk_ok c \<Longrightarrow> cut_partitions lens c = Inl Out_of_range \<or> (\<exists>parts d. cut_partitions lens c = Inr (parts, d) \<and> chunk_ok d)"
proof (induction lens arbitrary: c)
  case (Cons len lens)
  have "unat (0 :: u64) + unat (ucast len :: u64) < 2 ^ 64" using unat_lt2p [of "ucast len :: u64"] by simp
  from chunk_sub_cases [OF Cons.prems this]
  consider "chunk_sub c 0 (ucast len) = Inl Out_of_range"
    | p where "chunk_sub c 0 (ucast len) = Inr p" "chunk_from c (ucast len) = Inl Out_of_range"
    | p d where "chunk_sub c 0 (ucast len) = Inr p" "chunk_from c (ucast len) = Inr d" "chunk_ok d"
    using chunk_from_cases [OF Cons.prems, of "ucast len"] by blast
  then show ?case
  proof cases
    case (3 p d)
    then show ?thesis using Cons.IH [OF 3(3)] by auto
  qed simp_all
qed simp

lemma dct_partitions_cases:
  "chunk_ok (uc_rest uc) \<Longrightarrow> dct_partitions uc n = Inl Out_of_range \<or> (\<exists>ps. dct_partitions uc n = Inr ps \<and> ps \<noteq> [])"
proof -
  assume rest: "chunk_ok (uc_rest uc)"
  from read_lengths_cases [OF this, of "unat n - 1"] show ?thesis
  proof
    assume "\<exists>lens d. read_lengths (unat n - 1) (uc_rest uc) = Inr (lens, d) \<and> chunk_ok d"
    then obtain lens d where "read_lengths (unat n - 1) (uc_rest uc) = Inr (lens, d)" "chunk_ok d" by blast
    then show ?thesis using cut_partitions_cases [of d lens] by (auto simp: dct_partitions_def)
  qed (simp add: dct_partitions_def)
qed


text \<open>What a frame that was read looks like, and the state it leaves.\<close>

definition frame_read_ok :: "decoder_state \<Rightarrow> ('h, 'm) frame \<Rightarrow> bool" where
  "frame_read_ok st fr \<longleftrightarrow>
     fr_width fr = ds_width st \<and> fr_height fr = ds_height st \<and>
     length (fr_macroblocks fr) = columns_of (fr_width fr) * rows_of (fr_height fr) \<and>
     list_all2 (\<lambda>mb. y2_agrees (mb_y2_coded mb)) (fr_macroblocks fr) (fr_residues fr) \<and>
     length (fr_segment_ids fr) = length (fr_macroblocks fr) \<and> list_all (\<lambda>s. s < 4) (fr_segment_ids fr)"

lemma parse_residues_cases:
  assumes rest: "chunk_ok (uc_rest uc)" and st: "decoder_state_ok st" and ms: "list_all segment_ok ms"
    "length ms = columns_of (ds_width st) * rows_of (ds_height st)"
  shows "\<exists>ids st'. frame_update_segmentation (columns_of (ds_width st)) ms st = Some (ids, st') \<and> decoder_state_ok st' \<and>
    ds_width st' = ds_width st \<and> ds_height st' = ds_height st \<and>
    (parse_residues uc st tables hdr n ms = (st', Inl Out_of_range) \<or>
     (\<exists>fr. parse_residues uc st tables hdr n ms = (st', Inr fr) \<and> frame_read_ok st' fr \<and>
        fr_header fr = hdr \<and> fr_macroblocks fr = ms))"
proof -
  obtain ids st' where upd: "frame_update_segmentation (columns_of (ds_width st)) ms st = Some (ids, st')"
    "length ids = length ms" "list_all (\<lambda>s. s < 4) ids" "decoder_state_ok st'"
    "ds_width st' = ds_width st" "ds_height st' = ds_height st"
    using frame_update_ok [OF st ms] by blast
  from dct_partitions_cases [OF rest, of "dct_partition_count n"] show ?thesis
  proof
    assume "dct_partitions uc (dct_partition_count n) = Inl Out_of_range"
    then show ?thesis using upd by (simp add: parse_residues_def)
  next
    assume "\<exists>ps. dct_partitions uc (dct_partition_count n) = Inr ps \<and> ps \<noteq> []"
    then obtain ps where ps: "dct_partitions uc (dct_partition_count n) = Inr ps" "map contents ps \<noteq> []" by auto
    obtain rs where "parse_frame_tokens (pt_coeff_probs tables) (columns_of (ds_width st)) (rows_of (ds_height st))
        (map token_view ms) (map contents ps) = Some rs" "list_all2 (\<lambda>v. y2_agrees (snd v)) (map token_view ms) rs"
      using parse_frame_tokens_returns [OF ps(2)] by blast
    then show ?thesis using upd ps(1) ms by (simp add: parse_residues_def frame_read_ok_def list.rel_map token_view_def)
  qed
qed

lemma key_frame_cases:
  assumes rest: "chunk_ok (uc_rest uc)" and st: "decoder_state_ok st" and key: "uc_key_frame uc"
  shows "(\<exists>e\<in>{Invalid, Unsupported}. parse_and_apply_key uc st = (st, Inl e)) \<or>
    (\<exists>hdr d st1 tables ms d' ids st2.
       read_key_frame_header (first_partition_decoder uc) = Inr (hdr, d) \<and> apply_key_header hdr st = Inr (st1, tables) \<and>
       parse_key_macroblocks hdr (columns_of (ds_width st)) (rows_of (ds_height st)) False d = Some (ms, d') \<and>
       frame_update_segmentation (columns_of (ds_width st)) ms st1 = Some (ids, st2) \<and> decoder_state_ok st2 \<and>
       ds_width st2 = ds_width st \<and> ds_height st2 = ds_height st \<and> key_frame_header_supported hdr = Inr () \<and>
       key_macroblocks_ok hdr (columns_of (ds_width st)) (rows_of (ds_height st)) ms \<and>
       (parse_and_apply_key uc st = (st2, Inl Out_of_range) \<or>
        (\<exists>fr. parse_and_apply_key uc st = (st2, Inr fr) \<and> frame_read_ok st2 fr \<and>
           fr_header fr = hdr \<and> fr_macroblocks fr = ms)))"
proof -
  let ?d = "first_partition_decoder uc" and ?w = "columns_of (ds_width st)" and ?h = "rows_of (ds_height st)"
  have dims: "0 < ds_width st" "0 < ds_height st" using st by (simp_all add: decoder_state_ok_def)
  have "bd_ok ?d" by (simp add: first_partition_decoder_def)
  then obtain hdr d where hdr: "dec_key_frame_header ?d = Some (hdr, d)" "key_frame_header_ok hdr" "bd_ok d"
    by (rule key_header_total)
  show ?thesis
  proof (cases "uc_experimental uc \<or> key_frame_header_supported hdr \<noteq> Inr ()")
    case True
    then show ?thesis
      using key dims hdr(1)
      by (cases "uc_experimental uc") (auto simp: parse_and_apply_key_def read_key_frame_header_def key_frame_header_supported_def)
  next
    case False
    then have read: "read_key_frame_header ?d = Inr (hdr, d)" using hdr(1) by (simp add: read_key_frame_header_def)
    obtain st1 tables where st1: "apply_key_header hdr st = Inr (st1, tables)" "decoder_state_ok st1"
      "ds_width st1 = ds_width st" "ds_height st1 = ds_height st"
      using key_header_ok [OF hdr(2) dims] by blast
    obtain ms d' where ms: "parse_key_macroblocks hdr ?w ?h False d = Some (ms, d')" "key_macroblocks_ok hdr ?w ?h ms"
      using bit_codec.total [OF key_macroblocks_codec, of ?w hdr ?h] hdr(3) dims
      by (auto simp: returns_def frame_dimensions)
    have ms1: "list_all segment_ok ms" "length ms = columns_of (ds_width st1) * rows_of (ds_height st1)"
      using key_segments_ok [OF ms(2)] st1(3,4) by simp_all
    have "parse_and_apply_key uc st = parse_residues uc st1 tables hdr (kh_log2_number_of_dct_partitions hdr) ms"
      using key dims False read st1 ms(1) by (simp add: parse_and_apply_key_def)
    with parse_residues_cases [OF rest st1(2) ms1, of tables hdr "kh_log2_number_of_dct_partitions hdr"]
    show ?thesis using read st1 ms False by auto
  qed
qed

lemma inter_frame_step:
  assumes st: "decoder_state_ok st" and inter: "\<not> uc_key_frame uc"
    and read: "read_inter_frame_header (first_partition_decoder uc) = Inr (hdr, d)"
  shows "inter_frame_header_ok hdr \<and> (\<exists>st1 tables ms d'.
    apply_inter_header hdr st = Inr (st1, tables) \<and>
    parse_inter_macroblocks hdr tables (columns_of (ds_width st)) (rows_of (ds_height st))
      (headers_corrupted (uc_corruption_level uc)) d = Some (ms, d') \<and>
    decoder_state_ok st1 \<and> ds_width st1 = ds_width st \<and> ds_height st1 = ds_height st \<and>
    parse_inter_macroblocks hdr tables (columns_of (ds_width st)) (rows_of (ds_height st)) False d = Some (ms, d') \<and>
    list_all (readable_mb False) ms \<and> list_all segment_ok ms \<and>
    length ms = columns_of (ds_width st1) * rows_of (ds_height st1) \<and>
    parse_and_apply_inter uc st = parse_residues uc st1 tables hdr (ih_log2_number_of_dct_partitions hdr) ms)"
proof -
  let ?w = "columns_of (ds_width st)" and ?h = "rows_of (ds_height st)" and ?ec = "headers_corrupted (uc_corruption_level uc)"
  have dims: "0 < ds_width st" "0 < ds_height st" using st by (simp_all add: decoder_state_ok_def)
  have "bd_ok (first_partition_decoder uc)" by (simp add: first_partition_decoder_def)
  moreover have "bd_complete_chunk (first_partition_decoder uc) = ?ec"
    by (simp add: first_partition_decoder_def bool_decoder_init_def Let_def)
  moreover have "dec_inter_frame_header (first_partition_decoder uc) = Some (hdr, d)"
    using read by (auto simp: read_inter_frame_header_def bind_result_eq_Inr split: option.splits)
  ultimately have hdr: "inter_frame_header_ok hdr" "bd_ok d" "bd_complete_chunk d = ?ec"
    by (metis inter_header_total option.inject prod.inject)+
  obtain st1 tables where st1: "apply_inter_header hdr st = Inr (st1, tables)" "decoder_state_ok st1" "probability_tables_ok tables"
    "ds_width st1 = ds_width st" "ds_height st1 = ds_height st"
    using inter_header_ok [OF hdr(1) st] by blast
  obtain ms d' where unconcealed: "parse_inter_macroblocks hdr tables ?w ?h False d = Some (ms, d')"
    and ms: "list_all (readable_mb False) ms" "length ms = ?w * ?h"
    using parse_inter_macroblocks_returns [OF st1(3), of ?w hdr ?h False] hdr(2) dims
    by (auto simp: returns_def frame_dimensions)
  have read_ms: "parse_inter_macroblocks hdr tables ?w ?h ?ec d = Some (ms, d')"
    using unconcealed unconcealed_macroblocks [OF st1(3) _ hdr(2), of ?w hdr ?h ?ec] hdr(3) dims
    by (cases ?ec) (simp_all add: frame_dimensions)
  have "segment_ok mb" if "readable_mb False mb" for mb :: "inter_mb_header macroblock"
    using that by (cases "mb_segment_id_update mb") (simp_all add: readable_mb_def segment_ok_def segment_codes)
  then have ms1: "list_all segment_ok ms" "length ms = columns_of (ds_width st1) * rows_of (ds_height st1)"
    using ms st1(4,5) by (simp_all add: list_all_iff)
  have "parse_and_apply_inter uc st = parse_residues uc st1 tables hdr (ih_log2_number_of_dct_partitions hdr) ms"
    using inter dims read st1 read_ms by (simp add: parse_and_apply_inter_def)
  then show ?thesis using hdr(1) st1 read_ms unconcealed ms(1) ms1 by blast
qed

lemma inter_frame_header_cases:
  assumes st: "decoder_state_ok st" and inter: "\<not> uc_key_frame uc"
  shows "parse_and_apply_inter uc st = (st, Inl Unsupported) \<or>
    (\<exists>hdr d. read_inter_frame_header (first_partition_decoder uc) = Inr (hdr, d))"
proof -
  let ?d = "first_partition_decoder uc"
  have dims: "0 < ds_width st" "0 < ds_height st" using st by (simp_all add: decoder_state_ok_def)
  have "bd_ok ?d" by (simp add: first_partition_decoder_def)
  then obtain hdr d where hdr: "dec_inter_frame_header ?d = Some (hdr, d)" by (rule inter_header_total)
  then show ?thesis
    using inter dims by (auto simp: parse_and_apply_inter_def read_inter_frame_header_def inter_frame_header_supported_def)
qed

lemma inter_frame_cases:
  assumes rest: "chunk_ok (uc_rest uc)" and st: "decoder_state_ok st" and inter: "\<not> uc_key_frame uc"
  shows "parse_and_apply_inter uc st = (st, Inl Unsupported) \<or>
    (\<exists>st2. decoder_state_ok st2 \<and> ds_width st2 = ds_width st \<and> ds_height st2 = ds_height st \<and>
       (parse_and_apply_inter uc st = (st2, Inl Out_of_range) \<or>
        (\<exists>fr. parse_and_apply_inter uc st = (st2, Inr fr) \<and> frame_read_ok st2 fr \<and>
           inter_frame_header_ok (fr_header fr) \<and> inter_frame_header_supported (fr_header fr) = Inr () \<and>
           list_all (readable_mb False) (fr_macroblocks fr))))"
proof (cases "parse_and_apply_inter uc st = (st, Inl Unsupported)")
  case False
  then obtain hdr d where read: "read_inter_frame_header (first_partition_decoder uc) = Inr (hdr, d)"
    using inter_frame_header_cases [OF st inter] by blast
  then obtain st1 tables ms where reduced: "decoder_state_ok st1" "list_all segment_ok ms"
    "length ms = columns_of (ds_width st1) * rows_of (ds_height st1)"
    "parse_and_apply_inter uc st = parse_residues uc st1 tables hdr (ih_log2_number_of_dct_partitions hdr) ms"
    "ds_width st1 = ds_width st" "ds_height st1 = ds_height st"
    "list_all (readable_mb False) ms" "inter_frame_header_ok hdr"
    using inter_frame_step [OF st inter] by blast
  from parse_residues_cases [OF rest reduced(1-3), of tables hdr "ih_log2_number_of_dct_partitions hdr"]
  moreover have "inter_frame_header_supported hdr = Inr ()"
    using read by (auto simp: read_inter_frame_header_def bind_result_eq_Inr split: option.splits)
  ultimately show ?thesis unfolding reduced(4) using reduced(5-8) by auto
qed simp

text \<open>The partitions of a frame that ends before them.\<close>

lemma no_partitions:
  assumes "chunk_ok (uc_rest uc)" and "contents (uc_rest uc) = []" and "unsigned_ok 2 n"
  shows "dct_partitions uc (dct_partition_count n) = (if n = 0 then Inr [uc_rest uc] else Inl Out_of_range)"
proof (cases "n = 0")
  case False
  have "unat n < 4" using assms(3) by (simp add: unsigned_ok_def)
  moreover have "unat n \<noteq> 0" using False by (simp add: unat_eq_0)
  ultimately have "unat n = 1 \<or> unat n = 2 \<or> unat n = 3" by linarith
  then have "1 < unat (dct_partition_count n)" by (auto simp: dct_partition_count_def)
  then have "unat (dct_partition_count n) - 1 = Suc (unat (dct_partition_count n) - 2)" by linarith
  moreover have "chunk_bits (uc_rest uc) 0 24 = Inl Out_of_range"
    using chunk_bits_out [OF assms(1), of 24 0] assms(2) by simp
  ultimately show ?thesis using False by (simp add: dct_partitions_def)
qed (simp add: dct_partitions_def dct_partition_count_def)


section \<open>Properties\<close>

text \<open>C5: A key frame survives the bitstream.  Every key frame with a supported header, macroblocks and
  tokens of the format is serialized, and unless its bytes exceed the 19-bit length field, the decoder
  splits them into partitions again and \<open>parse_and_apply\<close> returns the same frame, in a decoder of the
  frame's dimensions and whatever its earlier state.  The state it leaves is the one that the header
  and the segment map of the frame determine, and the segment of each macroblock is looked up there.\<close>

theorem key_frame_roundtrip:
  assumes "key_frame_ok fr" and "ds_width st = fr_width fr" and "ds_height st = fr_height fr"
  shows "\<exists>bs. serialize_key_frame default_probability_tables fr = Inr bs \<and>
    (2 ^ 19 \<le> length bs \<or>
     (\<exists>uc st1 tables ids st2.
        parse_uncompressed (chunk_of bs) (fr_width fr) (fr_height fr) accept_partial = Inr uc \<and>
        apply_key_header (fr_header fr) st = Inr (st1, tables) \<and>
        frame_update_segmentation (columns_of (fr_width fr)) (fr_macroblocks fr) st1 = Some (ids, st2) \<and>
        parse_and_apply_key uc st = (st2, Inr (fr\<lparr>fr_segment_ids := ids\<rparr>))))"
  using key_frame_survives [OF assms, where accept_partial = accept_partial] unfolding not_le [symmetric] by blast

text \<open>A frame of one macroblock with a flat prediction and one coefficient.\<close>

definition example_residue :: residue where
  "example_residue =
     \<lparr>rs_Y2 = Some (no_coefficients[0 := 3], True), rs_Y = replicate 4 (replicate 4 (no_coefficients, False)),
      rs_U = replicate 2 (replicate 2 (no_coefficients, False)), rs_V = replicate 2 (replicate 2 (no_coefficients, False))\<rparr>"

definition example_key_frame :: key_frame where
  "example_key_frame =
     \<lparr>fr_show = True, fr_width = 16, fr_height = 9, fr_header = plain_key_header,
      fr_macroblocks = [fresh_macroblock None None ()], fr_segment_ids = [0], fr_residues = [Some example_residue]\<rparr>"

definition example_inter_frame :: inter_frame where
  "example_inter_frame =
     \<lparr>fr_show = False, fr_width = 16, fr_height = 9, fr_header = plain_inter_header,
      fr_macroblocks = [fresh_macroblock None None
        \<lparr>imh_is_inter = False, imh_ref_frame_sel1 = None, imh_ref_frame_sel2 = None, imh_flipped = False, imh_partition_id = None\<rparr>],
      fr_segment_ids = [0], fr_residues = [Some example_residue]\<rparr>"

lemma example_size: "columns_of 16 = 1" "rows_of 9 = 1"
  by (simp_all add: columns_of_def rows_of_def macroblock_dimension_def)

lemma example_blocks:
  "block_ok t (no_coefficients, False)" "block_ok Y2 (no_coefficients[0 := 3], True)"
proof -
  show "block_ok t (no_coefficients, False)"
    by (simp add: block_ok_def no_coefficients_def calculate_has_nonzero_def list_all_iff)
  show "block_ok Y2 (no_coefficients[0 := 3], True)" by code_simp
qed

lemma example_shape:
  "mb_skip_coeff mb = None \<Longrightarrow> mb_y2_coded mb \<Longrightarrow>
   frame_tokens_ok (Suc 0) (Suc 0) [token_view mb] [Some example_residue]"
  by (simp add: frame_tokens_ok_def token_mb_ok_def token_view_def skipped_def residue_ok_def plane_ok_def example_blocks
      example_residue_def residue_context_of_def neighbours_of_def relink_y2_blocks_def mb_row_def mb_column_def
      list_all_iff y_type_def)

lemma example_frames_ok: "key_frame_ok example_key_frame" "inter_frame_ok example_inter_frame"
proof -
  have blocks: "blocks_intra DC_PRED (replicate 16 fresh_block)"
    by code_simp
  have modes: "in_tree mbmode_num kf_y_mode_tree DC_PRED" "in_tree mbmode_num y_mode_tree DC_PRED" "in_tree mbmode_num uv_mode_tree DC_PRED"
    by (simp_all add: in_tree_def leaf_values)
  show "key_frame_ok example_key_frame"
    using blocks modes
    by (simp add: key_frame_ok_def frame_shape_ok_def example_key_frame_def example_size example_shape key_macroblocks_ok_def
        key_mb_ok_def core_ok_def intra_modes_ok_def key_params_def fresh_macroblock_def plain_key_header_def updates_map_def
        key_frame_header_supported_def plain_headers_ok(1) [unfolded plain_key_header_def])
  show "inter_frame_ok example_inter_frame"
    using blocks modes
    by (simp add: inter_frame_ok_def frame_shape_ok_def example_inter_frame_def example_size example_shape inter_macroblocks_ok_def
        frame_ok_def inter_mb_ok_def core_ok_def inter_modes_ok_def intra_modes_ok_def inter_params_def fresh_macroblock_def
        imh_ok_def imh_core_def flipped_for_def imh_reference_def get_or_def plain_inter_header_def updates_map_def
        inter_frame_header_supported_def plain_headers_ok(2) [unfolded plain_inter_header_def])
qed

theorem key_frame_roundtrip_witness:
  "\<exists>bs. serialize_key_frame default_probability_tables example_key_frame = Inr bs \<and>
    (2 ^ 19 \<le> length bs \<or>
     (\<exists>uc st1 tables ids st2.
        parse_uncompressed (chunk_of bs) (fr_width example_key_frame) (fr_height example_key_frame) False = Inr uc \<and>
        apply_key_header (fr_header example_key_frame) (decoder_state_init 16 9) = Inr (st1, tables) \<and>
        frame_update_segmentation (columns_of (fr_width example_key_frame)) (fr_macroblocks example_key_frame) st1 = Some (ids, st2) \<and>
        parse_and_apply_key uc (decoder_state_init 16 9) = (st2, Inr (example_key_frame\<lparr>fr_segment_ids := ids\<rparr>))))"
  by (rule key_frame_roundtrip [OF example_frames_ok(1)])
    (simp_all add: decoder_state_init_def example_key_frame_def)

text \<open>C4: An inter frame survives the bitstream, with the probability tables, the motion vectors relative
  to its neighbours, the split modes and the tokens: what \<open>InterFrame::serialize\<close> writes with the tables
  of a well-formed decoder state is read back as the same frame by a decoder in that state, and the
  state that is left follows from the header and the segment map of the frame.\<close>

theorem inter_frame_roundtrip:
  assumes "inter_frame_ok fr" and "decoder_state_ok st" and "ds_width st = fr_width fr" and "ds_height st = fr_height fr"
  shows "\<exists>bs. serialize_inter_frame (ds_probability_tables st) fr = Inr bs \<and>
    (2 ^ 19 \<le> length bs \<or>
     (\<exists>uc st1 tables ids st2.
        parse_uncompressed (chunk_of bs) (fr_width fr) (fr_height fr) accept_partial = Inr uc \<and>
        apply_inter_header (fr_header fr) st = Inr (st1, tables) \<and>
        frame_update_segmentation (columns_of (fr_width fr)) (fr_macroblocks fr) st1 = Some (ids, st2) \<and>
        parse_and_apply_inter uc st = (st2, Inr (fr\<lparr>fr_segment_ids := ids\<rparr>))))"
  using inter_frame_survives [OF assms, where accept_partial = accept_partial] unfolding not_le [symmetric] by blast

lemma example_state_ok: "decoder_state_ok (decoder_state_init 16 9)"
  by (simp add: decoder_state_ok_def decoder_state_init_def)

theorem inter_frame_roundtrip_witness:
  "\<exists>bs. serialize_inter_frame default_probability_tables example_inter_frame = Inr bs \<and>
    (2 ^ 19 \<le> length bs \<or>
     (\<exists>uc st1 tables ids st2.
        parse_uncompressed (chunk_of bs) 16 9 True = Inr uc \<and>
        apply_inter_header plain_inter_header (decoder_state_init 16 9) = Inr (st1, tables) \<and>
        frame_update_segmentation (columns_of 16) (fr_macroblocks example_inter_frame) st1 = Some (ids, st2) \<and>
        parse_and_apply_inter uc (decoder_state_init 16 9) = (st2, Inr (example_inter_frame\<lparr>fr_segment_ids := ids\<rparr>))))"
proof -
  have fields: "ds_probability_tables (decoder_state_init 16 9) = default_probability_tables"
    "fr_width example_inter_frame = 16" "fr_height example_inter_frame = 9" "fr_header example_inter_frame = plain_inter_header"
    "ds_width (decoder_state_init 16 9) = 16" "ds_height (decoder_state_init 16 9) = 9"
    by (simp_all add: decoder_state_init_def example_inter_frame_def)
  from inter_frame_roundtrip [OF example_frames_ok(2) example_state_ok, where accept_partial = True, unfolded fields, OF refl refl]
  show ?thesis .
qed

text \<open>C13: Whatever the data, a frame is read to an end.  From a well-formed state, \<open>parse_and_apply\<close> of
  either kind of frame keeps the state well formed and returns a frame of its dimensions, with a segment,
  a header and tokens for each macroblock, or throws one of the documented exceptions; with error
  concealment, no data at all makes an inter frame fail in another way.\<close>

theorem frame_parsing_classified:
  assumes "chunk_ok (uc_rest uc)" and "decoder_state_ok st"
  shows "(case parse_and_apply_key uc st of
      (st', Inr fr) \<Rightarrow> uc_key_frame uc \<and> decoder_state_ok st' \<and> frame_read_ok st' fr
    | (st', Inl e) \<Rightarrow> decoder_state_ok st' \<and>
        (if uc_key_frame uc then e \<in> {Invalid, Unsupported, Out_of_range} else e = Assert_failed)) \<and>
   (case parse_and_apply_inter uc st of
      (st', Inr fr) \<Rightarrow> \<not> uc_key_frame uc \<and> decoder_state_ok st' \<and> frame_read_ok st' fr
    | (st', Inl e) \<Rightarrow> decoder_state_ok st' \<and>
        (if uc_key_frame uc then e = Assert_failed else e \<in> {Unsupported, Out_of_range}))"
proof (cases "uc_key_frame uc")
  case True
  then have "parse_and_apply_inter uc st = (st, Inl Assert_failed)" by (simp add: parse_and_apply_inter_def)
  then show ?thesis using key_frame_cases [OF assms True] assms(2) True by auto
next
  case False
  then have "parse_and_apply_key uc st = (st, Inl Assert_failed)" by (simp add: parse_and_apply_key_def)
  then show ?thesis using inter_frame_cases [OF assms False] assms(2) False by auto
qed

theorem frame_parsing_classified_witness:
  "(case parse_and_apply_inter uncompressed_init (decoder_state_init 16 9) of
      (st', Inr fr) \<Rightarrow> decoder_state_ok st' \<and> frame_read_ok st' fr
    | (st', Inl e) \<Rightarrow> decoder_state_ok st' \<and> e \<in> {Unsupported, Out_of_range})"
proof -
  have "chunk_ok (uc_rest uncompressed_init)" "\<not> uc_key_frame uncompressed_init" by (simp_all add: uncompressed_init_def)
  with frame_parsing_classified [OF this(1) example_state_ok] show ?thesis by (auto split: prod.splits sum.splits)
qed

text \<open>C35: Error concealment has no effect.  Where a frame ends inside its first partition, \<open>parse_and_apply\<close>
  reads the macroblock headers with error concealment, but it has told the decoder of that partition that its
  data are complete, so that the decoder stays valid when they run out: whatever the bytes, the headers are
  read as they are without concealment, and each macroblock has a reference for its prediction.\<close>

theorem concealment_has_no_effect:
  assumes "decoder_state_ok st" and "\<not> uc_key_frame uc"
    and "read_inter_frame_header (first_partition_decoder uc) = Inr (hdr, d)"
  shows "\<exists>st1 tables ms d'. apply_inter_header hdr st = Inr (st1, tables) \<and>
    parse_inter_macroblocks hdr tables (columns_of (ds_width st)) (rows_of (ds_height st))
      (headers_corrupted (uc_corruption_level uc)) d = Some (ms, d') \<and>
    parse_inter_macroblocks hdr tables (columns_of (ds_width st)) (rows_of (ds_height st)) False d = Some (ms, d') \<and>
    length ms = columns_of (ds_width st) * rows_of (ds_height st) \<and>
    list_all (\<lambda>mb. imh_reference (mb_header mb) \<noteq> None) ms"
proof -
  obtain st1 tables ms d' where step: "apply_inter_header hdr st = Inr (st1, tables)"
    "parse_inter_macroblocks hdr tables (columns_of (ds_width st)) (rows_of (ds_height st))
      (headers_corrupted (uc_corruption_level uc)) d = Some (ms, d')"
    "parse_inter_macroblocks hdr tables (columns_of (ds_width st)) (rows_of (ds_height st)) False d = Some (ms, d')"
    "list_all (readable_mb False) ms" "length ms = columns_of (ds_width st1) * rows_of (ds_height st1)"
    "ds_width st1 = ds_width st" "ds_height st1 = ds_height st"
    using inter_frame_step [OF assms] by blast
  have "list_all (\<lambda>mb. imh_reference (mb_header mb) \<noteq> None) ms"
    using step(4) by (simp add: list_all_iff readable_mb_def)
  then show ?thesis using step by auto
qed

text \<open>An inter frame of which nothing is there.\<close>

lemma header_filter_type:
  assumes "dec_inter_frame_header d = Some (h, d')"
    and "dec_flagged dec_update_segmentation 128 d \<bind> (\<lambda>(u, d). map_option fst (dec_flag d)) = Some b"
  shows "ih_filter_type h = b"
  using assms unfolding dec_inter_frame_header_def by (auto simp: Option.bind_eq_Some_conv)

theorem concealment_has_no_effect_witness:
  "let uc = uncompressed_init\<lparr>uc_corruption_level := CORRUPTED_FRAME\<rparr>; st = decoder_state_init 16 9 in
   \<exists>hdr d st1 tables ms d'. read_inter_frame_header (first_partition_decoder uc) = Inr (hdr, d) \<and>
     apply_inter_header hdr st = Inr (st1, tables) \<and>
     parse_inter_macroblocks hdr tables (columns_of (ds_width st)) (rows_of (ds_height st)) True d = Some (ms, d') \<and>
     parse_inter_macroblocks hdr tables (columns_of (ds_width st)) (rows_of (ds_height st)) False d = Some (ms, d') \<and>
     list_all (\<lambda>mb. imh_reference (mb_header mb) \<noteq> None) ms"
proof -
  let ?uc = "uncompressed_init\<lparr>uc_corruption_level := CORRUPTED_FRAME\<rparr>"
  obtain hdr d where hdr: "dec_inter_frame_header (first_partition_decoder ?uc) = Some (hdr, d)"
    by (rule inter_header_total [of "first_partition_decoder ?uc"]) (simp_all add: first_partition_decoder_def)
  have start: "first_partition_decoder ?uc = bool_decoder_init [] True"
    by (simp add: first_partition_decoder_def uncompressed_init_def headers_corrupted_def)
  have "dec_flagged dec_update_segmentation 128 (bool_decoder_init [] True) \<bind> (\<lambda>(u, d). map_option fst (dec_flag d)) = Some False"
    by code_simp
  then have "ih_filter_type hdr = False"
    unfolding start [symmetric] by (rule header_filter_type [OF hdr])
  with hdr have read: "read_inter_frame_header (first_partition_decoder ?uc) = Inr (hdr, d)"
    by (simp add: read_inter_frame_header_def inter_frame_header_supported_def)
  have "\<not> uc_key_frame ?uc" "headers_corrupted (uc_corruption_level ?uc)"
    by (simp_all add: uncompressed_init_def headers_corrupted_def)
  then show ?thesis
    using concealment_has_no_effect [OF example_state_ok _ read] read by (simp add: Let_def) blast
qed

text \<open>C27: What a rejected key frame leaves behind.  If \<open>parse_and_apply\<close> throws \<open>Invalid\<close> or
  \<open>Unsupported\<close>, the decoder state is untouched.  If the DCT partitions are shorter than their lengths
  say, the exception comes after the state has been reset, so that the next frame is decoded with the
  tables, adjustments and segments of the frame that was rejected.\<close>

theorem rejected_key_frame_state:
  assumes "chunk_ok (uc_rest uc)" and "decoder_state_ok st" and "uc_key_frame uc"
  shows "case parse_and_apply_key uc st of
      (st', Inr fr) \<Rightarrow> True
    | (st', Inl e) \<Rightarrow>
        if e = Out_of_range then
          (\<exists>hdr d st1 tables ms d' ids.
             read_key_frame_header (first_partition_decoder uc) = Inr (hdr, d) \<and> apply_key_header hdr st = Inr (st1, tables) \<and>
             parse_key_macroblocks hdr (columns_of (ds_width st)) (rows_of (ds_height st)) False d = Some (ms, d') \<and>
             frame_update_segmentation (columns_of (ds_width st)) ms st1 = Some (ids, st'))
        else st' = st"
  using key_frame_cases [OF assms] by auto

theorem rejected_key_frame_state_witness:
  "case parse_and_apply_key (uncompressed_init\<lparr>uc_key_frame := True, uc_experimental := True\<rparr>) (decoder_state_init 16 9) of
      (st', Inr fr) \<Rightarrow> False | (st', Inl e) \<Rightarrow> e = Invalid \<and> st' = decoder_state_init 16 9"
proof -
  let ?uc = "uncompressed_init\<lparr>uc_key_frame := True, uc_experimental := True\<rparr>"
  have "chunk_ok (uc_rest ?uc)" "uc_key_frame ?uc" by (simp_all add: uncompressed_init_def)
  note spec = rejected_key_frame_state [OF this(1) example_state_ok this(2)]
  have "snd (parse_and_apply_key ?uc (decoder_state_init 16 9)) = Inl Invalid" by (simp add: parse_and_apply_key_def)
  with spec show ?thesis by (auto split: prod.splits)
qed


text \<open>C28: Error concealment stops at the partitions.  An inter frame that was cut off before its DCT
  partitions is decoded, with all its tokens absent, only when its header announces a single
  partition; with more of them, \<open>dct_partitions\<close> looks for their lengths and throws.\<close>

theorem truncated_inter_frame:
  assumes "chunk_ok (uc_rest uc)" and "contents (uc_rest uc) = []" and "decoder_state_ok st" and "\<not> uc_key_frame uc"
  shows "case snd (parse_and_apply_inter uc st) of
      Inr fr \<Rightarrow> ih_log2_number_of_dct_partitions (fr_header fr) = 0
    | Inl e \<Rightarrow> e = Unsupported \<or>
        e = Out_of_range \<and>
        (\<exists>hdr d. read_inter_frame_header (first_partition_decoder uc) = Inr (hdr, d) \<and> ih_log2_number_of_dct_partitions hdr \<noteq> 0)"
proof (cases "parse_and_apply_inter uc st = (st, Inl Unsupported)")
  case False
  then obtain hdr d where read: "read_inter_frame_header (first_partition_decoder uc) = Inr (hdr, d)"
    using inter_frame_header_cases [OF assms(3,4)] by blast
  let ?n = "ih_log2_number_of_dct_partitions hdr"
  obtain st1 tables ms where step: "inter_frame_header_ok hdr" "decoder_state_ok st1" "list_all segment_ok ms"
    "length ms = columns_of (ds_width st1) * rows_of (ds_height st1)"
    "parse_and_apply_inter uc st = parse_residues uc st1 tables hdr ?n ms"
    using inter_frame_step [OF assms(3,4) read] by blast
  then have parts: "dct_partitions uc (dct_partition_count ?n) = (if ?n = 0 then Inr [uc_rest uc] else Inl Out_of_range)"
    by (intro no_partitions assms(1,2)) (simp add: inter_frame_header_ok_def)
  obtain ids st2 where upd: "frame_update_segmentation (columns_of (ds_width st1)) ms st1 = Some (ids, st2)"
    "ds_width st2 = ds_width st1" "ds_height st2 = ds_height st1"
    using frame_update_ok [OF step(2-4)] by blast
  obtain rs where "parse_frame_tokens (pt_coeff_probs tables) (columns_of (ds_width st1)) (rows_of (ds_height st1))
      (map token_view ms) [contents (uc_rest uc)] = Some rs"
    using parse_frame_tokens_returns [of "[contents (uc_rest uc)]"] by blast
  then show ?thesis
    unfolding step(5) using upd parts read by (cases "?n = 0") (auto simp: parse_residues_def)
qed simp

theorem truncated_inter_frame_witness:
  "case snd (parse_and_apply_inter uncompressed_init (decoder_state_init 16 9)) of
      Inr fr \<Rightarrow> ih_log2_number_of_dct_partitions (fr_header fr) = 0
    | Inl e \<Rightarrow> e = Unsupported \<or>
        e = Out_of_range \<and>
        (\<exists>hdr d. read_inter_frame_header (first_partition_decoder uncompressed_init) = Inr (hdr, d) \<and>
           ih_log2_number_of_dct_partitions hdr \<noteq> 0)"
  by (rule truncated_inter_frame [OF _ _ example_state_ok]) (simp_all add: uncompressed_init_def)

end
