(* ===== verification/Frame_Decoding.thy ===== *)
theory Frame_Decoding
  imports Raster_Pool Frame_Codec
begin

text \<open>
  Decoding a frame to pixels (\<open>decode\<close>, \<open>loopfilter\<close> and \<open>calculate_segment_quantizers\<close> of
  src/src/decoder/frame.cc) and the decoder around it (\<open>Decoder\<close> of src/src/decoder/decoder.cc), composed of
  the frame layout, \<open>parse_and_apply\<close>, the reconstruction of macroblocks, the loop filter and the raster
  pool.
\<close>

section \<open>A frame\<close>

definition segment_indices :: "quant_indices \<Rightarrow> segmentation \<Rightarrow> nat \<Rightarrow> quant_indices" where
  "segment_indices qi sg i =
     qi\<lparr>qi_y_ac_qi := word_of_int (sint (sg_quantizer sg ! i) + (if sg_absolute sg then 0 else uint (qi_y_ac_qi qi)))\<rparr>"

definition calculate_segment_quantizers :: "quant_indices \<Rightarrow> segmentation \<Rightarrow> quantizer list" where
  "calculate_segment_quantizers qi sg = map (\<lambda>i. quantizer_of (segment_indices qi sg i)) [0..<num_segments]"

definition quantizer_for :: "quant_indices \<Rightarrow> segmentation option \<Rightarrow> u8 \<Rightarrow> quantizer result" where
  "quantizer_for qi sg segment_id =
     (case sg of
        None \<Rightarrow> Inr (quantizer_of qi)
      | Some sg \<Rightarrow> of_assert (at (calculate_segment_quantizers qi sg) (unat segment_id)))"

text \<open>\<open>forall_ij\<close> of the frame's macroblocks: their index, column and row.\<close>

definition each_macroblock :: "('h, 'm) frame \<Rightarrow> (nat \<Rightarrow> nat \<Rightarrow> nat \<Rightarrow> 's \<Rightarrow> 's result) \<Rightarrow> 's \<Rightarrow> 's result" where
  "each_macroblock fr f =
     (let w = columns_of (fr_width fr) in
      each_result (\<lambda>k. f k (mb_column w k) (mb_row w k)) [0..<w * rows_of (fr_height fr)])"

definition decode_key_frame :: "key_frame \<Rightarrow> segmentation option \<Rightarrow> planes \<Rightarrow> planes result" where
  "decode_key_frame fr sg =
     each_macroblock fr (\<lambda>k column row s.
       bind_result (quantizer_for (kh_quant_indices (fr_header fr)) sg (fr_segment_ids fr ! k)) (\<lambda>q.
       reconstruct_intra q (fr_macroblocks fr ! k) (fr_residues fr ! k) column row s))"

definition decode_inter_frame :: "inter_frame \<Rightarrow> segmentation option \<Rightarrow> planes references \<Rightarrow> planes \<Rightarrow> planes result" where
  "decode_inter_frame fr sg refs =
     each_macroblock fr (\<lambda>k column row s.
       bind_result (quantizer_for (ih_quant_indices (fr_header fr)) sg (fr_segment_ids fr ! k)) (\<lambda>q.
       if imh_is_inter (mb_header (fr_macroblocks fr ! k))
       then reconstruct_inter q refs (fr_macroblocks fr ! k) (fr_residues fr ! k) column row s
       else reconstruct_intra q (fr_macroblocks fr ! k) (fr_residues fr ! k) column row s))"

text \<open>The level of a segment is signed and as wide as an \<open>int\<close>.\<close>

definition segment_filter :: "filter_parameters \<Rightarrow> segmentation \<Rightarrow> nat \<Rightarrow> filter_parameters" where
  "segment_filter fp sg i = fp\<lparr>fl_level := sint (sg_filter sg ! i) + (if sg_absolute sg then 0 else fl_level fp)\<rparr>"

definition filter_for :: "filter_parameters \<Rightarrow> segmentation option \<Rightarrow> u8 \<Rightarrow> filter_parameters result" where
  "filter_for fp sg segment_id =
     (case sg of
        None \<Rightarrow> Inr fp
      | Some sg \<Rightarrow> of_assert (at (map (segment_filter fp sg) [0..<num_segments]) (unat segment_id)))"

definition loopfilter_macroblocks ::
  "bool \<Rightarrow> filter_parameters \<Rightarrow> ('m macroblock \<Rightarrow> reference_frame option) \<Rightarrow> ('h, 'm) frame \<Rightarrow>
   segmentation option \<Rightarrow> filter_adjustments option \<Rightarrow> planes \<Rightarrow> planes result" where
  "loopfilter_macroblocks key_frame fp reference fr sg fa =
     each_macroblock fr (\<lambda>k column row s.
       bind_result (filter_for fp sg (fr_segment_ids fr ! k)) (\<lambda>fp.
       mb_loopfilter key_frame fa fp (reference (fr_macroblocks fr ! k)) (fr_macroblocks fr ! k) (fr_residues fr ! k)
         column row s))"

definition loopfilter_key_frame :: "key_frame \<Rightarrow> segmentation option \<Rightarrow> filter_adjustments option \<Rightarrow> planes \<Rightarrow> planes result" where
  "loopfilter_key_frame fr sg fa s =
     (let h = fr_header fr in
      if kh_loop_filter_level h = 0 then Inr s
      else loopfilter_macroblocks True
        (filter_parameters_of (kh_filter_type h) (kh_loop_filter_level h) (kh_sharpness_level h))
        (\<lambda>_. Some CURRENT_FRAME) fr sg fa s)"

definition loopfilter_inter_frame :: "inter_frame \<Rightarrow> segmentation option \<Rightarrow> filter_adjustments option \<Rightarrow> planes \<Rightarrow> planes result" where
  "loopfilter_inter_frame fr sg fa s =
     (let h = fr_header fr in
      if ih_loop_filter_level h = 0 then Inr s
      else loopfilter_macroblocks False
        (filter_parameters_of (ih_filter_type h) (ih_loop_filter_level h) (ih_sharpness_level h))
        (\<lambda>mb. imh_reference (mb_header mb)) fr sg fa s)"


section \<open>The decoder\<close>

text \<open>The references are the pixels of the rasters that the decoder's handles share.\<close>

record decoder =
  dc_state :: decoder_state
  dc_references :: "planes references"
  dc_error_concealment :: bool

text \<open>The decoder acts on itself and on the process's pool.\<close>

type_synonym machine = "cached_raster list \<times> decoder"

definition new_decoder :: "bool \<Rightarrow> u16 \<Rightarrow> u16 \<Rightarrow> cached_raster list \<Rightarrow> cached_raster list \<times> decoder result" where
  "new_decoder allow_resize w h unused =
     (case mutable_handle allow_resize w h unused of
        (unused, Inl e) \<Rightarrow> (unused, Inl e)
      | (unused, Inr r) \<Rightarrow>
          (unused, bind_result (immutable_handle r) (\<lambda>r.
             Inr \<lparr>dc_state = decoder_state_init w h, dc_references = references_of (hr_planes r),
                  dc_error_concealment = False\<rparr>)))"

definition decompress_frame :: "chunk \<Rightarrow> decoder \<Rightarrow> uncompressed_chunk result" where
  "decompress_frame compressed_frame dc =
     parse_uncompressed compressed_frame (ds_width (dc_state dc)) (ds_height (dc_state dc)) (dc_error_concealment dc)"

definition parse_frame ::
  "(uncompressed_chunk \<Rightarrow> decoder_state \<Rightarrow> decoder_state \<times> 'f result) \<Rightarrow> uncompressed_chunk \<Rightarrow> decoder \<Rightarrow> decoder \<times> 'f result" where
  "parse_frame parse_and_apply uc dc =
     (let (st, r) = parse_and_apply uc (dc_state dc) in (dc\<lparr>dc_state := st\<rparr>, r))"

text \<open>\<open>decode_frame\<close>, for a frame given by what its class does: \<open>decode\<close>, \<open>loopfilter\<close> and \<open>copy_to\<close>.
  Where one of the first two throws, the raster goes back to the pool with whatever has been drawn; the
  model leaves it out of the pool (it is the step \<open>Abandon\<close> of the pool).\<close>

definition decode_frame ::
  "bool \<Rightarrow> (segmentation option \<Rightarrow> planes references \<Rightarrow> planes \<Rightarrow> planes result) \<Rightarrow>
   (segmentation option \<Rightarrow> filter_adjustments option \<Rightarrow> planes \<Rightarrow> planes result) \<Rightarrow>
   (planes \<Rightarrow> planes references \<Rightarrow> planes references) \<Rightarrow> bool \<Rightarrow> machine \<Rightarrow> machine \<times> (bool \<times> planes) result" where
  "decode_frame allow_resize decode loopfilter copy_to shown m =
     (let dc = snd m; st = dc_state dc in
      case mutable_handle allow_resize (ds_width st) (ds_height st) (fst m) of
        (unused, Inl e) \<Rightarrow> ((unused, dc), Inl e)
      | (unused, Inr r) \<Rightarrow>
          (case bind_result (decode (ds_segmentation st) (dc_references dc) (hr_planes r))
                  (loopfilter (ds_segmentation st) (ds_filter_adjustments st)) of
             Inl e \<Rightarrow> ((unused, dc), Inl e)
           | Inr s \<Rightarrow>
               (case immutable_handle (r\<lparr>hr_planes := s\<rparr>) of
                  Inl e \<Rightarrow> ((unused, dc), Inl e)
                | Inr r \<Rightarrow> ((unused, dc\<lparr>dc_references := copy_to (hr_planes r) (dc_references dc)\<rparr>), Inr (shown, hr_planes r)))))"

definition decode_key :: "bool \<Rightarrow> key_frame \<Rightarrow> machine \<Rightarrow> machine \<times> (bool \<times> planes) result" where
  "decode_key allow_resize fr =
     decode_frame allow_resize (\<lambda>sg refs. decode_key_frame fr sg) (loopfilter_key_frame fr) key_copy_to (fr_show fr)"

definition decode_inter :: "bool \<Rightarrow> inter_frame \<Rightarrow> machine \<Rightarrow> machine \<times> (bool \<times> planes) result" where
  "decode_inter allow_resize fr =
     decode_frame allow_resize (decode_inter_frame fr) (loopfilter_inter_frame fr) (inter_copy_to (fr_header fr)) (fr_show fr)"

definition get_frame_output :: "bool \<Rightarrow> chunk \<Rightarrow> machine \<Rightarrow> machine \<times> (bool \<times> planes) result" where
  "get_frame_output allow_resize compressed_frame m =
     keeping m (decompress_frame compressed_frame (snd m)) (\<lambda>uc.
     if uc_key_frame uc then
       (case parse_frame parse_and_apply_key uc (snd m) of (dc, r) \<Rightarrow>
        keeping (fst m, dc) r (\<lambda>fr. decode_key allow_resize fr (fst m, dc)))
     else if \<not> uc_experimental uc then
       (case parse_frame parse_and_apply_inter uc (snd m) of (dc, r) \<Rightarrow>
        keeping (fst m, dc) r (\<lambda>fr. decode_inter allow_resize fr (fst m, dc)))
     else (m, Inl Unsupported))"

definition parse_and_decode_frame :: "bool \<Rightarrow> chunk \<Rightarrow> machine \<Rightarrow> machine \<times> planes option result" where
  "parse_and_decode_frame allow_resize compressed_frame m =
     (let (m, r) = get_frame_output allow_resize compressed_frame m in
      (m, bind_result r (\<lambda>(shown, raster). Inr (if shown then Some raster else None))))"

definition apply_decoded_frame ::
  "(planes \<Rightarrow> planes references \<Rightarrow> planes references) \<Rightarrow> planes \<Rightarrow> decoder \<Rightarrow> decoder \<Rightarrow> decoder" where
  "apply_decoded_frame copy_to output target dc =
     dc\<lparr>dc_state := dc_state target, dc_references := copy_to output (dc_references dc)\<rparr>"

definition decoder_minihash :: "hashing \<Rightarrow> decoder \<Rightarrow> u32" where
  "decoder_minihash hs dc = minihash hs (raw_hash (hs_combine hs)) (dc_state dc) (dc_references dc)"

definition minihash_match :: "hashing \<Rightarrow> u32 \<Rightarrow> decoder \<Rightarrow> bool" where
  "minihash_match hs other_minihash dc \<longleftrightarrow> other_minihash = 0 \<or> decoder_minihash hs dc = other_minihash"


section \<open>Loops over the macroblocks\<close>

lemma each_result_append: "each_result f (xs @ ys) s = bind_result (each_result f xs s) (each_result f ys)"
  by (induction xs arbitrary: s) (auto simp: bind_result_def split: sum.splits)

lemma each_completes:
  assumes "\<And>k. k < n \<Longrightarrow> completes w h k (f k)" and "planes_agree w h 0 s t"
  shows "\<exists>s' t'. each_result f [0..<n] s = Inr s' \<and> each_result f [0..<n] t = Inr t' \<and> planes_agree w h n s' t'"
  using assms(1)
proof (induction n)
  case 0
  then show ?case using assms(2) by simp
next
  case (Suc n)
  then obtain s' t' where "each_result f [0..<n] s = Inr s'" "each_result f [0..<n] t = Inr t'" "planes_agree w h n s' t'"
    by auto
  moreover then obtain s'' t'' where "f n s' = Inr s''" "f n t' = Inr t''" "planes_agree w h (Suc n) s'' t''"
    using Suc.prems [of n] unfolding completes_def by (meson lessI)
  ultimately show ?case by (simp add: each_result_append)
qed

lemma each_keeps:
  assumes "\<And>k s. k < n \<Longrightarrow> I s \<Longrightarrow> \<exists>s'. f k s = Inr s' \<and> I s'" and "I s"
  shows "\<exists>s'. each_result f [0..<n] s = Inr s' \<and> I s'"
  using assms(1)
proof (induction n)
  case 0
  then show ?case using assms(2) by simp
next
  case (Suc n)
  then obtain s' where "each_result f [0..<n] s = Inr s'" "I s'" by auto
  moreover then obtain s'' where "f n s' = Inr s''" "I s''" using Suc.prems [of n] by blast
  ultimately show ?case by (simp add: each_result_append)
qed

text \<open>Before the first macroblock nothing needs to agree, after the last one everything does.\<close>

lemma plane_at_beyond: "pl_width p \<le> x \<Longrightarrow> plane_at p x y = None"
  by (simp add: plane_at_def)

lemma agree_start:
  assumes "plane_valid p" "plane_valid q" "pl_width p = sz * w" "pl_width q = sz * w" "pl_height p = h" "pl_height q = h"
    and "0 < sz"
  shows "agree (sz * w) h (decoded sz w 0) p q"
proof -
  have "sz * w \<le> x" if "w \<le> x div sz" for x
    using that assms(7) by (metis div_mult_mod_eq le_add1 mult.commute mult_le_mono2 order_trans)
  then show ?thesis using assms by (auto simp: agree_def decoded_def plane_at_beyond)
qed

lemma agree_end:
  assumes a: "agree (sz * w) (sz * h) (decoded sz w (w * h)) p q" and sz: "0 < sz"
  shows "p = q"
proof -
  have v: "plane_valid p" "plane_valid q" "pl_width p = sz * w" "pl_width q = sz * w" "pl_height p = sz * h" "pl_height q = sz * h"
    using a by (simp_all add: agree_def)
  have pos: "0 < sz * w" using v by (simp add: plane_valid_def)
  have all: "plane_at p x y = plane_at q x y" if "x < sz * w" "y < sz * h" for x y
  proof -
    have "x div sz < w" "y div sz < h" using that by (simp_all add: less_mult_imp_div_less mult.commute)
    then have "(y div sz) * w + x div sz < w * h"
      using row_major_less [of "y div sz" h "x div sz" w 0] by (simp add: mult.commute)
    then have "(x, y) \<in> decoded sz w (w * h)" by (simp add: decoded_def)
    then show ?thesis using a by (auto simp: agree_def)
  qed
  have len: "length (pl_data p) = sz * w * (sz * h)" "length (pl_data q) = sz * w * (sz * h)"
    using v by (simp_all add: plane_valid_def)
  have "pl_data p = pl_data q"
  proof (rule nth_equalityI)
    fix i assume "i < length (pl_data p)"
    then have i: "i < sz * w * (sz * h)" using len by simp
    let ?x = "i mod (sz * w)" and ?y = "i div (sz * w)"
    have xy: "?x < sz * w" "?y < sz * h" using i pos by (simp_all add: less_mult_imp_div_less mult.commute)
    have "pixel_index p ?x ?y = i" "pixel_index q ?x ?y = i" 
      unfolding pixel_index_def v by (rule div_mult_mod_eq)+
    then show "pl_data p ! i = pl_data q ! i" using all [OF xy] xy v i len by (simp add: plane_at_def)
  qed (simp add: len)
  then show ?thesis using v by (cases p; cases q) simp
qed

lemma planes_agree_start: "planes_sized w h s \<Longrightarrow> planes_sized w h t \<Longrightarrow> planes_agree w h 0 s t"
  by (simp add: planes_agree_def planes_sized_def agree_start)

lemma planes_agree_end: "planes_agree w h (w * h) s t \<Longrightarrow> s = t \<and> planes_sized w h s"
proof -
  assume a: "planes_agree w h (w * h) s t"
  then have "rp_Y s = rp_Y t" "rp_U s = rp_U t" "rp_V s = rp_V t"
    by (auto simp: planes_agree_def intro: agree_end [where w = w and h = h and sz = 16] agree_end [where w = w and h = h and sz = 8])
  then show ?thesis using a by (simp add: planes_agree_def planes_sized_def agree_def)
qed


section \<open>A frame is decoded to its end\<close>

definition frame_fits :: "('m macroblock \<Rightarrow> bool) \<Rightarrow> ('h, 'm) frame \<Rightarrow> bool" where
  "frame_fits mb_fits fr \<longleftrightarrow>
     length (fr_macroblocks fr) = columns_of (fr_width fr) * rows_of (fr_height fr) \<and>
     list_all mb_fits (fr_macroblocks fr) \<and> list_all2 residue_fits (fr_macroblocks fr) (fr_residues fr) \<and>
     length (fr_segment_ids fr) = length (fr_macroblocks fr) \<and> list_all (\<lambda>s. s < 4) (fr_segment_ids fr)"

definition inter_mb_fits :: "inter_mb_header macroblock \<Rightarrow> bool" where
  "inter_mb_fits mb \<longleftrightarrow> (if imh_is_inter (mb_header mb) then inter_fits mb else intra_fits mb)"

lemma unat_below_4: "s < (4 :: u8) \<Longrightarrow> unat s < 4"
  by (simp add: word_less_nat_alt)

lemma quantizer_for_total: "s < 4 \<Longrightarrow> \<exists>q. quantizer_for qi sg s = Inr q"
  using unat_below_4 by (cases sg) (auto simp: quantizer_for_def calculate_segment_quantizers_def of_assert_def num_segments_def)

lemma filter_for_total:
  assumes "s < 4"
  shows "\<exists>fp'. filter_for fp sg s = Inr fp' \<and> fl_type fp' = fl_type fp"
proof (cases sg)
  case (Some g)
  have "at (map (segment_filter fp g) [0..<num_segments]) (unat s) = Some (segment_filter fp g (unat s))"
    using unat_below_4 [OF assms] by (simp add: num_segments_def)
  then show ?thesis by (simp add: filter_for_def Some of_assert_def segment_filter_def)
qed (simp add: filter_for_def)

lemma position_in:
  assumes "k < w * h"
  shows "mb_row w k * w + mb_column w k = k" and "mb_column w k < w" and "mb_row w k < h"
  using assms by (auto simp: mb_row_def mb_column_def less_mult_imp_div_less mult.commute intro!: mod_less_divisor Nat.gr0I)

text \<open>The result and that it does not depend on what the raster held before.\<close>

definition decodes :: "nat \<Rightarrow> nat \<Rightarrow> (planes \<Rightarrow> planes result) \<Rightarrow> bool" where
  "decodes w h f \<longleftrightarrow> (\<exists>s'. planes_sized w h s' \<and> (\<forall>s. planes_sized w h s \<longrightarrow> f s = Inr s'))"

lemma each_macroblock_decodes:
  assumes "\<And>k. k < w * h \<Longrightarrow> completes w h k (f k (mb_column w k) (mb_row w k))"
    and w: "w = columns_of (fr_width fr)" and h: "h = rows_of (fr_height fr)" and pos: "0 < w" "0 < h"
  shows "decodes w h (each_macroblock fr f)"
proof -
  define g where "g k = f k (mb_column w k) (mb_row w k)" for k
  have each: "each_macroblock fr f = each_result g [0..<w * h]"
    by (rule ext) (simp add: each_macroblock_def g_def [abs_def] w h Let_def)
  let ?plane = "\<lambda>sz. new_plane (sz * w) (sz * h) 0"
  let ?blank = "\<lparr>rp_Y = ?plane 16, rp_U = ?plane 8, rp_V = ?plane 8\<rparr>"
  have blank: "planes_sized w h ?blank" using pos by (simp add: planes_sized_def new_plane_valid)
  have run: "\<exists>s'. each_result g [0..<w * h] s = Inr s' \<and> each_result g [0..<w * h] t = Inr s' \<and> planes_sized w h s'"
    if "planes_sized w h s" "planes_sized w h t" for s t
    using each_completes [of "w * h" w h g, OF _ planes_agree_start [OF that]] assms(1) planes_agree_end
    unfolding g_def by blast
  obtain s' where s': "each_result g [0..<w * h] ?blank = Inr s'" "planes_sized w h s'" using run [OF blank blank] by blast
  have "each_result g [0..<w * h] s = Inr s'" if "planes_sized w h s" for s
    using run [OF blank that] s'(1) by auto
  with s'(2) show ?thesis unfolding decodes_def each by blast
qed

lemma fits_nth:
  assumes "frame_fits mb_fits fr" and "k < columns_of (fr_width fr) * rows_of (fr_height fr)"
  shows "mb_fits (fr_macroblocks fr ! k)" and "residue_fits (fr_macroblocks fr ! k) (fr_residues fr ! k)"
    and "fr_segment_ids fr ! k < 4"
  using assms by (simp_all add: frame_fits_def list_all_length list_all2_conv_all_nth)

lemma key_frame_decodes:
  assumes fits: "frame_fits intra_fits fr" and pos: "0 < columns_of (fr_width fr)" "0 < rows_of (fr_height fr)"
  shows "decodes (columns_of (fr_width fr)) (rows_of (fr_height fr)) (decode_key_frame fr sg)"
  unfolding decode_key_frame_def
proof (rule each_macroblock_decodes [OF _ refl refl pos])
  let ?w = "columns_of (fr_width fr)" and ?h = "rows_of (fr_height fr)"
  fix k assume k: "k < ?w * ?h"
  note p = position_in [OF k] and mb = fits_nth [OF fits k]
  obtain q where "quantizer_for (kh_quant_indices (fr_header fr)) sg (fr_segment_ids fr ! k) = Inr q"
    using quantizer_for_total [OF mb(3)] by blast
  then show "completes ?w ?h k (\<lambda>s. bind_result (quantizer_for (kh_quant_indices (fr_header fr)) sg (fr_segment_ids fr ! k))
      (\<lambda>q. reconstruct_intra q (fr_macroblocks fr ! k) (fr_residues fr ! k) (mb_column ?w k) (mb_row ?w k) s))"
    using reconstruct_intra_completes [OF p(2,3) mb(1,2), of q] by (simp add: p(1))
qed

lemma inter_frame_decodes:
  assumes fits: "frame_fits inter_mb_fits fr" and pos: "0 < columns_of (fr_width fr)" "0 < rows_of (fr_height fr)"
    and refs: "references_sized (columns_of (fr_width fr)) (rows_of (fr_height fr)) refs"
  shows "decodes (columns_of (fr_width fr)) (rows_of (fr_height fr)) (decode_inter_frame fr sg refs)"
  unfolding decode_inter_frame_def
proof (rule each_macroblock_decodes [OF _ refl refl pos])
  let ?w = "columns_of (fr_width fr)" and ?h = "rows_of (fr_height fr)"
  fix k assume k: "k < ?w * ?h"
  note p = position_in [OF k] and mb = fits_nth [OF fits k]
  let ?mb = "fr_macroblocks fr ! k"
  obtain q where q: "quantizer_for (ih_quant_indices (fr_header fr)) sg (fr_segment_ids fr ! k) = Inr q"
    using quantizer_for_total [OF mb(3)] by blast
  show "completes ?w ?h k (\<lambda>s. bind_result (quantizer_for (ih_quant_indices (fr_header fr)) sg (fr_segment_ids fr ! k))
      (\<lambda>q. if imh_is_inter (mb_header ?mb)
         then reconstruct_inter q refs ?mb (fr_residues fr ! k) (mb_column ?w k) (mb_row ?w k) s
         else reconstruct_intra q ?mb (fr_residues fr ! k) (mb_column ?w k) (mb_row ?w k) s))"
  proof (cases "imh_is_inter (mb_header ?mb)")
    case True
    then have "inter_fits ?mb" using mb(1) by (simp add: inter_mb_fits_def)
    from reconstruct_inter_completes [OF p(2,3) this mb(2) refs, of q] show ?thesis by (simp add: p(1) q True)
  next
    case False
    then have "intra_fits ?mb" using mb(1) by (simp add: inter_mb_fits_def)
    from reconstruct_intra_completes [OF p(2,3) this mb(2), of q] show ?thesis by (simp add: p(1) q False)
  qed
qed


text \<open>The loop filter works in place on every raster of the size.\<close>

lemma planes_sized_fit: "planes_sized w h s \<Longrightarrow> c < w \<Longrightarrow> r < h \<Longrightarrow> planes_fit c r s"
  by (simp add: planes_sized_def planes_fit_def block_fits_def)

lemma planes_reached_sized: "planes_sized w h s \<Longrightarrow> planes_reached c r s t \<Longrightarrow> planes_sized w h t"
  by (simp add: planes_sized_def planes_reached_def same_outside_def)

lemma mb_loopfilter_total:
  assumes "planes_sized w h s" and "c < w" and "r < h" and "fl_type fp = Normal" and "fa \<noteq> None \<longrightarrow> reference \<noteq> None"
  shows "\<exists>s'. mb_loopfilter key_frame fa fp reference mb rs c r s = Inr s' \<and> planes_sized w h s'"
proof -
  let ?fp = "case fa of None \<Rightarrow> fp | Some fa \<Rightarrow> adjust_filter fa (the reference) (mb_y_mode mb) fp"
  have fp: "fl_type ?fp = Normal" using assms(4) by (cases fa) (simp_all add: adjust_filter_def)
  have "(case fa of None \<Rightarrow> Inr fp | Some fa \<Rightarrow> bind_result (of_assert reference) (\<lambda>frame. Inr (adjust_filter fa frame (mb_y_mode mb) fp)))
      = Inr ?fp"
    using assms(5) by (cases fa) (auto simp: of_assert_def)
  moreover obtain s' where "normal_filter (normal_loop_filter_of key_frame ?fp) (skip_subblock_edges mb rs) c r s = Some s'"
      "planes_sized w h s'"
    using normal_filter_reached [OF planes_sized_fit [OF assms(1-3)]] planes_reached_sized [OF assms(1)] by blast
  ultimately show ?thesis
    using fp assms(1) by (cases "fl_level ?fp \<le> 0") (simp_all add: mb_loopfilter_def of_assert_def)
qed

lemma loopfilter_total:
  assumes fits: "frame_fits mb_fits fr" and s: "planes_sized (columns_of (fr_width fr)) (rows_of (fr_height fr)) s"
    and fp: "fl_type fp = Normal" and refs: "\<And>mb. mb_fits mb \<Longrightarrow> reference mb \<noteq> None"
  shows "\<exists>s'. loopfilter_macroblocks key_frame fp reference fr sg fa s = Inr s' \<and>
    planes_sized (columns_of (fr_width fr)) (rows_of (fr_height fr)) s'"
  unfolding loopfilter_macroblocks_def each_macroblock_def Let_def
proof (rule each_keeps [where I = "planes_sized (columns_of (fr_width fr)) (rows_of (fr_height fr))"])
  show "planes_sized (columns_of (fr_width fr)) (rows_of (fr_height fr)) s" by (rule s)
next
  let ?w = "columns_of (fr_width fr)" and ?h = "rows_of (fr_height fr)"
  fix k and s :: planes
  assume k: "k < ?w * ?h" and s: "planes_sized ?w ?h s"
  note p = position_in [OF k] and mb = fits_nth [OF fits k]
  obtain fp' where fp': "filter_for fp sg (fr_segment_ids fr ! k) = Inr fp'" "fl_type fp' = Normal"
    using filter_for_total [OF mb(3), of fp sg] fp by auto
  show "\<exists>s'. bind_result (filter_for fp sg (fr_segment_ids fr ! k)) (\<lambda>fp.
      mb_loopfilter key_frame fa fp (reference (fr_macroblocks fr ! k)) (fr_macroblocks fr ! k) (fr_residues fr ! k)
        (mb_column ?w k) (mb_row ?w k) s) = Inr s' \<and> planes_sized ?w ?h s'"
    using mb_loopfilter_total [OF s p(2,3) fp'(2), of fa "reference (fr_macroblocks fr ! k)"] refs [OF mb(1)] by (simp add: fp'(1))
qed

lemma key_loopfilter_total:
  assumes "frame_fits intra_fits fr" and "planes_sized (columns_of (fr_width fr)) (rows_of (fr_height fr)) s"
    and "key_frame_header_supported (fr_header fr) = Inr ()"
  shows "\<exists>s'. loopfilter_key_frame fr sg fa s = Inr s' \<and> planes_sized (columns_of (fr_width fr)) (rows_of (fr_height fr)) s'"
  using assms(2,3) loopfilter_total [OF assms(1,2), where reference = "\<lambda>_. Some CURRENT_FRAME"]
  by (simp add: loopfilter_key_frame_def Let_def key_frame_header_supported_def filter_parameters_of_def split: if_splits)

lemma inter_fits_reference: "inter_mb_fits mb \<Longrightarrow> imh_reference (mb_header mb) \<noteq> None"
  by (auto simp: inter_mb_fits_def inter_fits_def imh_reference_def split: if_splits)

lemma inter_loopfilter_total:
  assumes "frame_fits inter_mb_fits fr" and "planes_sized (columns_of (fr_width fr)) (rows_of (fr_height fr)) s"
    and "inter_frame_header_supported (fr_header fr) = Inr ()"
  shows "\<exists>s'. loopfilter_inter_frame fr sg fa s = Inr s' \<and> planes_sized (columns_of (fr_width fr)) (rows_of (fr_height fr)) s'"
  using assms(2,3) loopfilter_total [OF assms(1,2), where reference = "\<lambda>mb. imh_reference (mb_header mb)"] inter_fits_reference
  by (simp add: loopfilter_inter_frame_def Let_def inter_frame_header_supported_def filter_parameters_of_def split: if_splits)


section \<open>Frames that were parsed fit\<close>

lemma intra_modes_fit:
  assumes "intra_modes_ok (in_tree mbmode_num tree) mb" and "tree \<in> {kf_y_mode_tree, y_mode_tree}"
  shows "intra_fits mb"
proof -
  have uv: "mb_uv_mode mb \<in> mb_intra_modes"
    using assms(1) by (cases "mb_uv_mode mb") (auto simp: intra_modes_ok_def mb_intra_modes_def in_tree_def leaf_values)
  have "yb_mode (mb_Y mb ! i) \<in> b_intra_modes" if "i < 16" for i
  proof -
    have "intra_block (mb_Y mb ! i)" using assms(1) that by (simp add: intra_modes_ok_def blocks_intra_def list_all_length)
    then show ?thesis
      by (cases "yb_mode (mb_Y mb ! i)") (auto simp: intra_block_def b_intra_modes_def in_tree_def leaf_values)
  qed
  moreover have "mb_y_mode mb \<in> mb_intra_modes" if "mb_y_mode mb \<noteq> B_PRED"
    using assms that by (cases "mb_y_mode mb") (auto simp: intra_modes_ok_def mb_intra_modes_def in_tree_def leaf_values)
  ultimately show ?thesis using uv by (simp add: intra_fits_def)
qed

lemma y2_residue_fits: "y2_agrees coded r \<Longrightarrow> coded = (mb_y_mode mb \<notin> {B_PRED, SPLITMV}) \<Longrightarrow> residue_fits mb r"
  by (auto simp: y2_agrees_def residue_fits_def)

lemma frame_fits_read:
  assumes "frame_read_ok st fr" and "\<And>mb. mb \<in> set (fr_macroblocks fr) \<Longrightarrow> mb_fits mb"
    and "\<And>mb. mb \<in> set (fr_macroblocks fr) \<Longrightarrow> mb_y2_coded mb = (mb_y_mode mb \<notin> {B_PRED, SPLITMV})"
  shows "frame_fits mb_fits fr"
proof -
  have "list_all2 residue_fits (fr_macroblocks fr) (fr_residues fr)"
    using assms(1,3) unfolding frame_read_ok_def list_all2_conv_all_nth by (metis nth_mem y2_residue_fits)
  then show ?thesis using assms(1,2) by (simp add: frame_fits_def frame_read_ok_def list_all_iff)
qed

lemma intra_y2:
  assumes "intra_modes_ok (in_tree mbmode_num tree) mb" and "tree \<in> {kf_y_mode_tree, y_mode_tree}"
  shows "mb_y2_coded mb = (mb_y_mode mb \<notin> {B_PRED, SPLITMV})"
  using assms not_split_intra by (auto simp: intra_modes_ok_def)

lemma key_frame_fits:
  assumes "frame_read_ok st fr" and "key_macroblocks_ok hdr w h (fr_macroblocks fr)"
  shows "frame_fits intra_fits fr"
proof (rule frame_fits_read [OF assms(1)])
  fix mb assume "mb \<in> set (fr_macroblocks fr)"
  then have "intra_modes_ok (in_tree mbmode_num kf_y_mode_tree) mb"
    using assms(2) by (simp add: key_macroblocks_ok_def key_mb_ok_def list_all_iff)
  then show "intra_fits mb" "mb_y2_coded mb = (mb_y_mode mb \<notin> {B_PRED, SPLITMV})"
    using intra_modes_fit [of kf_y_mode_tree mb] intra_y2 [of kf_y_mode_tree mb] by simp_all
qed

lemma readable_fits:
  assumes "readable_mb False mb"
  shows "inter_mb_fits mb"
proof (cases "imh_is_inter (mb_header mb)")
  case True
  then have "imh_reference (mb_header mb) \<in> {Some LAST_FRAME, Some GOLDEN_FRAME, Some ALTREF_FRAME}"
    using assms unfolding readable_mb_def imh_reference_def
    by (cases "imh_ref_frame_sel1 (mb_header mb)"; cases "imh_ref_frame_sel2 (mb_header mb)") (simp_all split: if_splits)
  moreover have "base_motion_vector mb \<noteq> None"
    using assms by (simp add: readable_mb_def inter_shape_def base_motion_vector_def block_at_def cell_index_def)
  ultimately show ?thesis
    using assms True by (auto simp: inter_mb_fits_def inter_fits_def readable_mb_def modes_consistent_def mv_ref_modes)
next
  case False
  then show ?thesis
    using assms intra_modes_fit [of y_mode_tree mb] by (simp add: inter_mb_fits_def readable_mb_def modes_consistent_def)
qed

lemma inter_frame_fits:
  assumes "frame_read_ok st fr" and "list_all (readable_mb False) (fr_macroblocks fr)"
  shows "frame_fits inter_mb_fits fr"
  using assms(2) readable_fits
  by (intro frame_fits_read [OF assms(1)]) (auto simp: list_all_iff readable_mb_def modes_consistent_def)


section \<open>The decoder keeps its invariant\<close>

definition decoder_ok :: "decoder \<Rightarrow> bool" where
  "decoder_ok dc \<longleftrightarrow>
     decoder_state_ok (dc_state dc) \<and> columns_of (ds_width (dc_state dc)) < 4096 \<and> rows_of (ds_height (dc_state dc)) < 4096 \<and>
     references_sized (columns_of (ds_width (dc_state dc))) (rows_of (ds_height (dc_state dc))) (dc_references dc)"

text \<open>The one way in which the pool makes a difference.\<close>

definition size_changed :: "bool \<Rightarrow> decoder \<Rightarrow> cached_raster list \<Rightarrow> bool" where
  "size_changed allow_resize dc unused \<longleftrightarrow>
     \<not> allow_resize \<and>
     (case unused of [] \<Rightarrow> False
      | r # _ \<Rightarrow> hr_display_width r \<noteq> ds_width (dc_state dc) \<or> hr_display_height r \<noteq> ds_height (dc_state dc))"

lemma padded_fits: "0 < n \<Longrightarrow> macroblock_dimension (unat n) < 4096 \<Longrightarrow> 0 < padded n \<and> unat n \<le> padded n"
proof -
  assume n: "0 < n" "macroblock_dimension (unat n) < 4096"
  have pos: "0 < unat n" using n(1) by (simp add: word_gt_0 unat_gt_0)
  have "unat n \<le> 16 * ((unat n + 15) div 16)" by linarith
  then show ?thesis using n(2) pos by (simp add: padded_def macroblock_dimension_def)
qed

lemma mutable_handle_cases:
  assumes unused: "unused_ok unused" and dc: "decoder_ok dc"
  obtains (mismatch) "size_changed allow_resize dc unused"
      "mutable_handle allow_resize (ds_width (dc_state dc)) (ds_height (dc_state dc)) unused = (unused, Inl Unsupported)"
  | (raster) unused' r where "\<not> size_changed allow_resize dc unused"
      "mutable_handle allow_resize (ds_width (dc_state dc)) (ds_height (dc_state dc)) unused = (unused', Inr r)"
      "unused_ok unused'" "hr_frozen_hash r = None"
      "planes_sized (columns_of (ds_width (dc_state dc))) (rows_of (ds_height (dc_state dc))) (hr_planes r)"
proof -
  let ?w = "ds_width (dc_state dc)" and ?h = "ds_height (dc_state dc)"
  have small: "0 < ?w" "0 < ?h" "macroblock_dimension (unat ?w) < 4096" "macroblock_dimension (unat ?h) < 4096"
    using dc by (simp_all add: decoder_ok_def decoder_state_ok_def columns_of_def rows_of_def)
  then have fits: "0 < padded ?w" "0 < padded ?h" "unat ?w \<le> padded ?w" "unat ?h \<le> padded ?h"
    by (simp_all add: padded_fits)
  obtain fresh where fresh: "new_raster ?w ?h = Inr fresh" using fits by (simp add: new_raster_def)
  obtain unused' res where m: "mutable_handle allow_resize ?w ?h unused = (unused', res)" by fastforce
  show ?thesis
  proof (cases res)
    case (Inr r)
    have "raster_sized r \<and> hr_frozen_hash r = None \<and> hr_display_width r = ?w \<and> hr_display_height r = ?h" "unused_ok unused'"
      using mutable_handle_ok [OF unused m] Inr by simp_all
    moreover have "\<not> size_changed allow_resize dc unused"
    proof
      assume "size_changed allow_resize dc unused"
      then have "mutable_handle allow_resize ?w ?h unused = (unused, Inl Unsupported)"
        by (cases unused) (auto simp: size_changed_def mutable_handle_def make_raster_def)
      then show False using m Inr by simp
    qed
    moreover from calculation(1) have "planes_sized (columns_of ?w) (rows_of ?h) (hr_planes r)"
      by (auto simp: raster_sized_def columns_of_def rows_of_def Let_def)
    ultimately show ?thesis using raster m Inr by blast
  next
    case (Inl e)
    have "hr_frozen_hash fresh = None" using new_raster_sized [OF fresh] by simp
    then have "size_changed allow_resize dc unused \<and> unused' = unused \<and> e = Unsupported"
      using m Inl unused fresh
      by (cases unused) (auto simp: size_changed_def mutable_handle_def make_raster_def unused_ok_def split: if_splits)
    then show ?thesis using mismatch m Inl by simp
  qed
qed

text \<open>What a step of the decoder comes to, whatever pool it runs on: an exception that leaves the
  references alone, or a raster, unless the pool refuses.\<close>

definition settled ::
  "bool \<Rightarrow> decoder \<Rightarrow> (machine \<Rightarrow> machine \<times> (bool \<times> planes) result) \<Rightarrow> bool" where
  "settled allow_resize dc f \<longleftrightarrow>
     (\<exists>dc'. decoder_ok dc' \<and> ds_width (dc_state dc') = ds_width (dc_state dc) \<and> ds_height (dc_state dc') = ds_height (dc_state dc) \<and>
        ((\<exists>e\<in>{Invalid, Unsupported, Out_of_range}. dc_references dc' = dc_references dc \<and>
            (\<forall>unused. f (unused, dc) = ((unused, dc'), Inl e))) \<or>
         (\<exists>shown s refs. planes_sized (columns_of (ds_width (dc_state dc))) (rows_of (ds_height (dc_state dc))) s \<and>
            decoder_ok (dc'\<lparr>dc_references := refs\<rparr>) \<and> dc_references dc' = dc_references dc \<and>
            (\<forall>unused. unused_ok unused \<longrightarrow>
               (if size_changed allow_resize dc unused then f (unused, dc) = ((unused, dc'), Inl Unsupported)
                else \<exists>unused'. unused_ok unused' \<and> f (unused, dc) = ((unused', dc'\<lparr>dc_references := refs\<rparr>), Inr (shown, s)))))))"

lemma decode_frame_settled:
  assumes dc: "decoder_ok dc"
    and decode: "decodes (columns_of (ds_width (dc_state dc))) (rows_of (ds_height (dc_state dc)))
      (decode (ds_segmentation (dc_state dc)) (dc_references dc))"
    and filter: "\<And>s. planes_sized (columns_of (ds_width (dc_state dc))) (rows_of (ds_height (dc_state dc))) s \<Longrightarrow>
      \<exists>s'. loopfilter (ds_segmentation (dc_state dc)) (ds_filter_adjustments (dc_state dc)) s = Inr s' \<and>
        planes_sized (columns_of (ds_width (dc_state dc))) (rows_of (ds_height (dc_state dc))) s'"
    and copy: "\<And>w h s refs. references_sized w h refs \<Longrightarrow> planes_sized w h s \<Longrightarrow> references_sized w h (copy_to s refs)"
  shows "\<exists>s. planes_sized (columns_of (ds_width (dc_state dc))) (rows_of (ds_height (dc_state dc))) s \<and>
    decoder_ok (dc\<lparr>dc_references := copy_to s (dc_references dc)\<rparr>) \<and>
    (\<forall>unused. unused_ok unused \<longrightarrow>
      (if size_changed allow_resize dc unused
       then decode_frame allow_resize decode loopfilter copy_to shown (unused, dc) = ((unused, dc), Inl Unsupported)
       else \<exists>unused'. unused_ok unused' \<and> decode_frame allow_resize decode loopfilter copy_to shown (unused, dc) =
         ((unused', dc\<lparr>dc_references := copy_to s (dc_references dc)\<rparr>), Inr (shown, s))))"
proof -
  let ?st = "dc_state dc"
  let ?w = "columns_of (ds_width ?st)" and ?h = "rows_of (ds_height ?st)"
  obtain s1 where s1: "planes_sized ?w ?h s1" "\<And>s. planes_sized ?w ?h s \<Longrightarrow> decode (ds_segmentation ?st) (dc_references dc) s = Inr s1"
    using decode by (auto simp: decodes_def)
  obtain s2 where s2: "loopfilter (ds_segmentation ?st) (ds_filter_adjustments ?st) s1 = Inr s2" "planes_sized ?w ?h s2"
    using filter [OF s1(1)] by blast
  have "decoder_ok (dc\<lparr>dc_references := copy_to s2 (dc_references dc)\<rparr>)"
    using dc copy [OF _ s2(2)] by (simp add: decoder_ok_def)
  moreover have "if size_changed allow_resize dc unused
       then decode_frame allow_resize decode loopfilter copy_to shown (unused, dc) = ((unused, dc), Inl Unsupported)
       else \<exists>unused'. unused_ok unused' \<and> decode_frame allow_resize decode loopfilter copy_to shown (unused, dc) =
         ((unused', dc\<lparr>dc_references := copy_to s2 (dc_references dc)\<rparr>), Inr (shown, s2))" if "unused_ok unused" for unused
    using that dc
  proof (cases rule: mutable_handle_cases [where allow_resize = allow_resize])
    case mismatch
    then show ?thesis by (simp add: decode_frame_def Let_def)
  next
    case (raster unused' r)
    then show ?thesis by (simp add: decode_frame_def Let_def s1(2) s2(1) immutable_handle_def)
  qed
  ultimately show ?thesis using s2(2) by blast
qed

lemma key_copy_sized: "references_sized w h refs \<Longrightarrow> planes_sized w h s \<Longrightarrow> references_sized w h (key_copy_to s refs)"
  by (simp add: references_sized_def key_copy_to_def)

lemma inter_copy_sized: "references_sized w h refs \<Longrightarrow> planes_sized w h s \<Longrightarrow> references_sized w h (inter_copy_to hdr s refs)"
  by (simp add: references_sized_def inter_copy_to_def copy_to_alternate_def copy_to_golden_def Let_def split: option.splits)

lemma decoder_ok_state:
  "decoder_ok dc \<Longrightarrow> decoder_state_ok st \<Longrightarrow> ds_width st = ds_width (dc_state dc) \<Longrightarrow> ds_height st = ds_height (dc_state dc) \<Longrightarrow>
   decoder_ok (dc\<lparr>dc_state := st\<rparr>)"
  by (simp add: decoder_ok_def)

lemma decoder_dims: "decoder_ok dc \<Longrightarrow> 0 < columns_of (ds_width (dc_state dc)) \<and> 0 < rows_of (ds_height (dc_state dc))"
  by (simp add: decoder_ok_def decoder_state_ok_def frame_dimensions)


text \<open>A frame was parsed, and is decoded by a decoder in the state that parsing left.\<close>

lemma settled_frame:
  assumes ok: "decoder_ok dc'" and dims: "ds_width (dc_state dc') = ds_width (dc_state dc)" "ds_height (dc_state dc') = ds_height (dc_state dc)"
    and refs: "dc_references dc' = dc_references dc" and run: "\<And>unused. f (unused, dc) = g (unused, dc')"
    and frame: "\<exists>s. planes_sized (columns_of (ds_width (dc_state dc'))) (rows_of (ds_height (dc_state dc'))) s \<and>
      decoder_ok (dc'\<lparr>dc_references := copy_to s (dc_references dc')\<rparr>) \<and>
      (\<forall>unused. unused_ok unused \<longrightarrow>
        (if size_changed allow_resize dc' unused then g (unused, dc') = ((unused, dc'), Inl Unsupported)
         else \<exists>unused'. unused_ok unused' \<and> g (unused, dc') =
           ((unused', dc'\<lparr>dc_references := copy_to s (dc_references dc')\<rparr>), Inr (shown, s))))"
  shows "settled allow_resize dc f"
proof -
  obtain s where s: "planes_sized (columns_of (ds_width (dc_state dc'))) (rows_of (ds_height (dc_state dc'))) s"
    "decoder_ok (dc'\<lparr>dc_references := copy_to s (dc_references dc')\<rparr>)"
    "\<And>unused. unused_ok unused \<Longrightarrow>
      (if size_changed allow_resize dc' unused then g (unused, dc') = ((unused, dc'), Inl Unsupported)
       else \<exists>unused'. unused_ok unused' \<and> g (unused, dc') =
         ((unused', dc'\<lparr>dc_references := copy_to s (dc_references dc')\<rparr>), Inr (shown, s)))"
    using frame by blast
  have same: "size_changed allow_resize dc unused = size_changed allow_resize dc' unused" for unused
    using dims by (simp add: size_changed_def split: list.split)
  show ?thesis
    unfolding settled_def
  proof (rule exI [of _ dc'], intro conjI ok dims disjI2, rule exI [of _ shown], rule exI [of _ s],
      rule exI [of _ "copy_to s (dc_references dc')"], intro conjI s(2) refs allI impI)
    show "planes_sized (columns_of (ds_width (dc_state dc))) (rows_of (ds_height (dc_state dc))) s"
      using s(1) unfolding dims .
    fix unused assume "unused_ok unused"
    from s(3) [OF this] show "if size_changed allow_resize dc unused then f (unused, dc) = ((unused, dc'), Inl Unsupported)
      else \<exists>unused'. unused_ok unused' \<and> f (unused, dc) =
        ((unused', dc'\<lparr>dc_references := copy_to s (dc_references dc')\<rparr>), Inr (shown, s))"
      unfolding run same .
  qed
qed

lemma settled_error:
  assumes "decoder_ok dc'" and "ds_width (dc_state dc') = ds_width (dc_state dc)" and "ds_height (dc_state dc') = ds_height (dc_state dc)"
    and "dc_references dc' = dc_references dc" and "e \<in> {Invalid, Unsupported, Out_of_range}"
    and "\<And>unused. f (unused, dc) = ((unused, dc'), Inl e)"
  shows "settled allow_resize dc f"
  unfolding settled_def using assms by blast

lemma key_output_settled:
  assumes dc: "decoder_ok dc" and uc: "chunk_ok (uc_rest uc)" and key: "uc_key_frame uc"
  shows "settled allow_resize dc (\<lambda>m.
    case parse_frame parse_and_apply_key uc (snd m) of (dc, r) \<Rightarrow> keeping (fst m, dc) r (\<lambda>fr. decode_key allow_resize fr (fst m, dc)))"
proof -
  let ?st = "dc_state dc"
  have st: "decoder_state_ok ?st" using dc by (simp add: decoder_ok_def)
  consider (refused) e where "e \<in> {Invalid, Unsupported}" "parse_and_apply_key uc ?st = (?st, Inl e)"
    | (short) st2 where "decoder_state_ok st2" "ds_width st2 = ds_width ?st" "ds_height st2 = ds_height ?st"
        "parse_and_apply_key uc ?st = (st2, Inl Out_of_range)"
    | (frame) st2 fr where "decoder_state_ok st2" "ds_width st2 = ds_width ?st" "ds_height st2 = ds_height ?st"
        "parse_and_apply_key uc ?st = (st2, Inr fr)" "frame_read_ok st2 fr" "key_frame_header_supported (fr_header fr) = Inr ()"
        "key_macroblocks_ok (fr_header fr) (columns_of (ds_width ?st)) (rows_of (ds_height ?st)) (fr_macroblocks fr)"
    using key_frame_cases [OF uc st key] by blast
  then show ?thesis
  proof cases
    case refused
    then show ?thesis by (intro settled_error [OF dc]) (auto simp: parse_frame_def)
  next
    case short
    then show ?thesis
      by (intro settled_error [OF decoder_ok_state [OF dc short(1-3)], where e = Out_of_range]) (simp_all add: parse_frame_def)
  next
    case frame
    let ?dc = "dc\<lparr>dc_state := st2\<rparr>"
    have ok: "decoder_ok ?dc" by (rule decoder_ok_state [OF dc frame(1-3)])
    have fits: "frame_fits intra_fits fr" by (rule key_frame_fits [OF frame(5,7)])
    have dims: "fr_width fr = ds_width (dc_state ?dc)" "fr_height fr = ds_height (dc_state ?dc)"
      using frame(5) by (simp_all add: frame_read_ok_def)
    show ?thesis
    proof (rule settled_frame [where g = "decode_key allow_resize fr" and copy_to = key_copy_to and shown = "fr_show fr", OF ok])
      show "ds_width (dc_state ?dc) = ds_width ?st" "ds_height (dc_state ?dc) = ds_height ?st" "dc_references ?dc = dc_references dc"
        using frame(2,3) by simp_all
      show "\<exists>s. planes_sized (columns_of (ds_width (dc_state ?dc))) (rows_of (ds_height (dc_state ?dc))) s \<and>
          decoder_ok (?dc\<lparr>dc_references := key_copy_to s (dc_references ?dc)\<rparr>) \<and>
          (\<forall>unused. unused_ok unused \<longrightarrow>
            (if size_changed allow_resize ?dc unused then decode_key allow_resize fr (unused, ?dc) = ((unused, ?dc), Inl Unsupported)
             else \<exists>unused'. unused_ok unused' \<and> decode_key allow_resize fr (unused, ?dc) =
               ((unused', ?dc\<lparr>dc_references := key_copy_to s (dc_references ?dc)\<rparr>), Inr (fr_show fr, s))))"
        unfolding decode_key_def
        by (rule decode_frame_settled [OF ok
            key_frame_decodes [OF fits, unfolded dims, OF conjunct1 [OF decoder_dims [OF ok]] conjunct2 [OF decoder_dims [OF ok]]]
            key_loopfilter_total [OF fits _ frame(6), unfolded dims] key_copy_sized])
    qed (simp add: parse_frame_def frame(4))
  qed
qed

lemma inter_output_settled:
  assumes dc: "decoder_ok dc" and uc: "chunk_ok (uc_rest uc)" and inter: "\<not> uc_key_frame uc"
  shows "settled allow_resize dc (\<lambda>m.
    case parse_frame parse_and_apply_inter uc (snd m) of (dc, r) \<Rightarrow> keeping (fst m, dc) r (\<lambda>fr. decode_inter allow_resize fr (fst m, dc)))"
proof -
  let ?st = "dc_state dc"
  have st: "decoder_state_ok ?st" using dc by (simp add: decoder_ok_def)
  consider (refused) "parse_and_apply_inter uc ?st = (?st, Inl Unsupported)"
    | (short) st2 where "decoder_state_ok st2" "ds_width st2 = ds_width ?st" "ds_height st2 = ds_height ?st"
        "parse_and_apply_inter uc ?st = (st2, Inl Out_of_range)"
    | (frame) st2 fr where "decoder_state_ok st2" "ds_width st2 = ds_width ?st" "ds_height st2 = ds_height ?st"
        "parse_and_apply_inter uc ?st = (st2, Inr fr)" "frame_read_ok st2 fr" "inter_frame_header_supported (fr_header fr) = Inr ()"
        "list_all (readable_mb False) (fr_macroblocks fr)"
    using inter_frame_cases [OF uc st inter] by auto
  then show ?thesis
  proof cases
    case refused
    then show ?thesis by (intro settled_error [OF dc]) (auto simp: parse_frame_def)
  next
    case short
    then show ?thesis
      by (intro settled_error [OF decoder_ok_state [OF dc short(1-3)], where e = Out_of_range]) (simp_all add: parse_frame_def)
  next
    case frame
    let ?dc = "dc\<lparr>dc_state := st2\<rparr>"
    have ok: "decoder_ok ?dc" by (rule decoder_ok_state [OF dc frame(1-3)])
    have fits: "frame_fits inter_mb_fits fr" by (rule inter_frame_fits [OF frame(5,7)])
    have dims: "fr_width fr = ds_width (dc_state ?dc)" "fr_height fr = ds_height (dc_state ?dc)"
      using frame(5) by (simp_all add: frame_read_ok_def)
    have refs: "references_sized (columns_of (ds_width (dc_state ?dc))) (rows_of (ds_height (dc_state ?dc))) (dc_references ?dc)"
      using ok by (simp add: decoder_ok_def)
    let ?copy = "inter_copy_to (fr_header fr)"
    show ?thesis
    proof (rule settled_frame [where g = "decode_inter allow_resize fr" and copy_to = ?copy and shown = "fr_show fr", OF ok])
      show "ds_width (dc_state ?dc) = ds_width ?st" "ds_height (dc_state ?dc) = ds_height ?st" "dc_references ?dc = dc_references dc"
        using frame(2,3) by simp_all
      show "\<exists>s. planes_sized (columns_of (ds_width (dc_state ?dc))) (rows_of (ds_height (dc_state ?dc))) s \<and>
          decoder_ok (?dc\<lparr>dc_references := ?copy s (dc_references ?dc)\<rparr>) \<and>
          (\<forall>unused. unused_ok unused \<longrightarrow>
            (if size_changed allow_resize ?dc unused then decode_inter allow_resize fr (unused, ?dc) = ((unused, ?dc), Inl Unsupported)
             else \<exists>unused'. unused_ok unused' \<and> decode_inter allow_resize fr (unused, ?dc) =
               ((unused', ?dc\<lparr>dc_references := ?copy s (dc_references ?dc)\<rparr>), Inr (fr_show fr, s))))"
        unfolding decode_inter_def
        by (rule decode_frame_settled [where decode = "decode_inter_frame fr" and loopfilter = "loopfilter_inter_frame fr"
              and copy_to = ?copy, OF ok
            inter_frame_decodes [OF fits, unfolded dims, OF conjunct1 [OF decoder_dims [OF ok]] conjunct2 [OF decoder_dims [OF ok]] refs]
            inter_loopfilter_total [OF fits _ frame(6), unfolded dims] inter_copy_sized])
    qed (simp add: parse_frame_def frame(4))
  qed
qed


lemma uncompressed_cases:
  assumes "chunk_ok c" and "parse_uncompressed c w h accept_partial = Inr uc"
  shows "chunk_ok (uc_rest uc)"
proof -
  obtain r v where r: "try_frame c w h accept_partial = (r, v)" by force
  have "chunk_ok (uc_rest v)" if "r = None \<or> r = Some Out_of_range"
    using try_frame_cases [OF assms(1), where w = w and h = h and accept_partial = accept_partial] that unfolding r by auto
  then show ?thesis
    using assms(2) by (cases r) (auto simp: parse_uncompressed_def r split: if_splits)
qed

lemma uncompressed_errors:
  assumes "chunk_ok c" and "parse_uncompressed c w h accept_partial = Inl e"
  shows "e \<in> {Invalid, Unsupported}"
proof -
  obtain r v where r: "try_frame c w h accept_partial = (r, v)" by force
  show ?thesis
    using try_frame_cases [OF assms(1), where w = w and h = h and accept_partial = accept_partial] assms(2)
    unfolding parse_uncompressed_def r by (cases r) (auto split: if_splits)
qed

lemma output_settled:
  assumes dc: "decoder_ok dc" and c: "chunk_ok c"
  shows "settled allow_resize dc (get_frame_output allow_resize c)"
proof (cases "decompress_frame c dc")
  case (Inl e)
  then have "e \<in> {Invalid, Unsupported}" using uncompressed_errors [OF c] by (simp add: decompress_frame_def)
  then show ?thesis
    by (intro settled_error [OF dc, where e = e]) (auto simp: get_frame_output_def Inl)
next
  case (Inr uc)
  then have uc: "chunk_ok (uc_rest uc)"
    using uncompressed_cases [OF c] by (simp add: decompress_frame_def)
  have congruent: "settled allow_resize dc f \<Longrightarrow> (\<And>unused. g (unused, dc) = f (unused, dc)) \<Longrightarrow> settled allow_resize dc g" for f g
    unfolding settled_def by (simp only:)
  show ?thesis
  proof (cases "uc_key_frame uc")
    case True
    then show ?thesis
      by (intro congruent [OF key_output_settled [OF dc uc True]]) (simp add: get_frame_output_def Inr)
  next
    case False
    show ?thesis
    proof (cases "uc_experimental uc")
      case True
      then show ?thesis
        by (intro settled_error [OF dc, where e = Unsupported]) (simp_all add: get_frame_output_def Inr False)
    next
      case standard: False
      show ?thesis
        by (intro congruent [OF inter_output_settled [OF dc uc False]])
          (simp add: get_frame_output_def Inr False standard)
    qed
  qed
qed


section \<open>Properties\<close>

text \<open>C3: Any byte string is decoded or refused, and the decoder survives it.  With or without error
  concealment, \<open>get_frame_output\<close> of a well-formed decoder ends in a raster of the frame's size or in one of
  the documented exceptions, never in a failed assertion or outside an array, whatever the bytes; the decoder
  stays well formed, an exception leaves its references as they were, and the pool stays as it should.\<close>

theorem decoding_total:
  assumes "decoder_ok dc" and "chunk_ok c" and "unused_ok unused"
  shows "case get_frame_output allow_resize c (unused, dc) of
      ((unused', dc'), Inr (shown, s)) \<Rightarrow> unused_ok unused' \<and> decoder_ok dc' \<and>
        planes_sized (columns_of (ds_width (dc_state dc))) (rows_of (ds_height (dc_state dc))) s
    | ((unused', dc'), Inl e) \<Rightarrow> unused_ok unused' \<and> decoder_ok dc' \<and> dc_references dc' = dc_references dc \<and>
        e \<in> {Invalid, Unsupported, Out_of_range}"
  using output_settled [OF assms(1,2), of allow_resize] assms(3) unfolding settled_def by (auto split: if_splits)

text \<open>A decoder whose references are blank, for 16x9 pixels.\<close>

definition blank_planes :: planes where
  "blank_planes = \<lparr>rp_Y = new_plane 16 16 0, rp_U = new_plane 8 8 0, rp_V = new_plane 8 8 0\<rparr>"

definition blank_decoder :: decoder where
  "blank_decoder =
     \<lparr>dc_state = decoder_state_init 16 9, dc_references = references_of blank_planes, dc_error_concealment = False\<rparr>"

lemma blank_decoder_fields [simp]:
  "dc_state blank_decoder = decoder_state_init 16 9" "\<not> dc_error_concealment blank_decoder"
  "dc_references blank_decoder = references_of blank_planes"
  "ds_width (decoder_state_init 16 9) = 16" "ds_height (decoder_state_init 16 9) = 9"
  by (simp_all add: blank_decoder_def decoder_state_init_def)

lemma blank_decoder_ok: "decoder_ok blank_decoder"
  by (simp add: decoder_ok_def example_state_ok references_sized_def references_of_def planes_sized_def blank_planes_def
      example_size new_plane_valid)

definition blank_concealing :: decoder where
  "blank_concealing = blank_decoder\<lparr>dc_error_concealment := True\<rparr>"

lemma blank_concealing_ok: "decoder_ok blank_concealing"
  using blank_decoder_ok by (simp add: decoder_ok_def blank_concealing_def)

lemma empty_pool [simp]: "unused_ok []" "\<not> size_changed allow_resize dc []"
  by (simp_all add: unused_ok_def size_changed_def)

theorem decoding_total_witness:
  "(\<exists>dc'. get_frame_output False (chunk_of [0x11, 7]) ([], blank_decoder) = (([], dc'), Inl Invalid) \<and> decoder_ok dc' \<and>
     dc_references dc' = references_of blank_planes) \<and>
   (case get_frame_output False (chunk_of [0x11, 7]) ([], blank_concealing) of
      ((unused', dc'), Inr (shown, s)) \<Rightarrow> decoder_ok dc' \<and> planes_sized 1 1 s
    | ((unused', dc'), Inl e) \<Rightarrow> decoder_ok dc' \<and> e \<in> {Invalid, Unsupported, Out_of_range})"
proof -
  have "parse_uncompressed (chunk_of [0x11, 7]) 16 9 False = Inl Invalid" by code_simp
  then have run: "get_frame_output False (chunk_of [0x11, 7]) ([], blank_decoder) = (([], blank_decoder), Inl Invalid)"
    by (simp add: get_frame_output_def decompress_frame_def blank_decoder_def decoder_state_init_def)
  have c: "chunk_ok (chunk_of [0x11, 7])" by simp
  from decoding_total [OF blank_decoder_ok c empty_pool(1), of False]
    decoding_total [OF blank_concealing_ok c empty_pool(1), of False]
  show ?thesis unfolding run by (simp add: blank_concealing_def example_size split: prod.splits sum.splits)
qed

text \<open>C6: What is decoded does not depend on what the recycled rasters hold.  On two pools of which the next raster
  has the size of the frame in both or in neither (only the size can make the pool refuse it), a decoder, with
  or without error concealment, returns the same raster or the same exception and is left in the same state:
  every pixel that the reconstruction and the loop filter read has been written before.\<close>

theorem decoding_ignores_pool:
  assumes "decoder_ok dc" and "chunk_ok c" and "unused_ok unused" and "unused_ok others"
    and "size_changed allow_resize dc unused = size_changed allow_resize dc others"
  shows "snd (fst (get_frame_output allow_resize c (unused, dc))) = snd (fst (get_frame_output allow_resize c (others, dc))) \<and>
    snd (get_frame_output allow_resize c (unused, dc)) = snd (get_frame_output allow_resize c (others, dc))"
proof -
  let ?run = "\<lambda>unused. get_frame_output allow_resize c (unused, dc)"
  obtain dc' where "(\<exists>e. \<forall>unused. ?run unused = ((unused, dc'), Inl e)) \<or>
      (\<exists>shown s refs. \<forall>unused. unused_ok unused \<longrightarrow>
         (if size_changed allow_resize dc unused then ?run unused = ((unused, dc'), Inl Unsupported)
          else \<exists>unused'. ?run unused = ((unused', dc'\<lparr>dc_references := refs\<rparr>), Inr (shown, s))))"
    using output_settled [OF assms(1,2), of allow_resize] unfolding settled_def by metis
  then show ?thesis
  proof (elim disjE exE)
    fix shown s refs
    assume run: "\<forall>unused. unused_ok unused \<longrightarrow>
      (if size_changed allow_resize dc unused then ?run unused = ((unused, dc'), Inl Unsupported)
       else \<exists>unused'. ?run unused = ((unused', dc'\<lparr>dc_references := refs\<rparr>), Inr (shown, s)))"
    show ?thesis
      using run [rule_format, OF assms(3)] run [rule_format, OF assms(4)] assms(5) by (auto split: if_splits)
  qed simp
qed

lemma new_raster_16_9: "\<exists>r. new_raster 16 9 = Inr r"
  by (simp add: new_raster_def padded_def macroblock_dimension_def)

text \<open>A pool with a used raster against an empty one.\<close>

theorem decoding_ignores_pool_witness:
  "\<exists>r. hr_planes r \<noteq> blank_planes \<and>
     snd (get_frame_output False (chunk_of [0x11, 0, 0, 7]) ([r], blank_decoder)) =
     snd (get_frame_output False (chunk_of [0x11, 0, 0, 7]) ([], blank_decoder))"
proof -
  let ?r = "\<lparr>hr_display_width = 16, hr_display_height = 9, hr_planes = blank_planes\<lparr>rp_U := new_plane 8 8 1\<rparr>, hr_frozen_hash = None\<rparr>"
  have "unused_ok [?r]"
    by (simp add: unused_ok_def raster_sized_def macroblock_dimension_def planes_sized_def blank_planes_def new_plane_valid)
  moreover have "\<not> size_changed False blank_decoder [?r]" by (simp add: size_changed_def)
  moreover have "chunk_ok (chunk_of [0x11, 0, 0, 7])" by simp
  ultimately have "snd (get_frame_output False (chunk_of [0x11, 0, 0, 7]) ([?r], blank_decoder)) =
      snd (get_frame_output False (chunk_of [0x11, 0, 0, 7]) ([], blank_decoder))"
    by (intro conjunct2 [OF decoding_ignores_pool [OF blank_decoder_ok _ _ empty_pool(1)]]) simp_all
  moreover have "hr_planes ?r \<noteq> blank_planes" by (simp add: blank_planes_def new_plane_def replicate_eq_replicate)
  ultimately show ?thesis by blast
qed

text \<open>The decoder decodes the frame that was serialized.  For an inter frame written with the tables of
  the decoder's state, \<open>get_frame_output\<close> of its bytes comes to \<open>decode_frame\<close> of the frame itself, with the
  segments that the map gives it, in the state that the header and the map determine, unless the bytes
  exceed the 19-bit length field.\<close>

theorem serialized_frame_decoded:
  assumes "inter_frame_ok fr" and "decoder_state_ok (dc_state dc)"
    and "ds_width (dc_state dc) = fr_width fr" and "ds_height (dc_state dc) = fr_height fr"
  shows "\<exists>bs. serialize_inter_frame (ds_probability_tables (dc_state dc)) fr = Inr bs \<and>
    (2 ^ 19 \<le> length bs \<or>
     (\<exists>st1 tables ids st2.
        apply_inter_header (fr_header fr) (dc_state dc) = Inr (st1, tables) \<and>
        frame_update_segmentation (columns_of (fr_width fr)) (fr_macroblocks fr) st1 = Some (ids, st2) \<and>
        get_frame_output allow_resize (chunk_of bs) (unused, dc) =
          decode_inter allow_resize (fr\<lparr>fr_segment_ids := ids\<rparr>) (unused, dc\<lparr>dc_state := st2\<rparr>)))"
proof -
  obtain bs where bs: "serialize_inter_frame (ds_probability_tables (dc_state dc)) fr = Inr bs"
    "length bs < 2 ^ 19 \<longrightarrow> (\<exists>uc st1 tables ids st2.
        parse_uncompressed (chunk_of bs) (fr_width fr) (fr_height fr) (dc_error_concealment dc) = Inr uc \<and> \<not> uc_experimental uc \<and>
        apply_inter_header (fr_header fr) (dc_state dc) = Inr (st1, tables) \<and>
        frame_update_segmentation (columns_of (fr_width fr)) (fr_macroblocks fr) st1 = Some (ids, st2) \<and>
        parse_and_apply_inter uc (dc_state dc) = (st2, Inr (fr\<lparr>fr_segment_ids := ids\<rparr>)))"
    using inter_frame_survives [OF assms, where accept_partial = "dc_error_concealment dc"] by blast
  have "\<not> uc_key_frame uc" if "parse_and_apply_inter uc st = (st2, Inr fr')" for uc st st2 fr'
    using that by (auto simp: parse_and_apply_inter_def)
  then show ?thesis
    using bs assms(3,4) unfolding not_le [symmetric]
    by (fastforce simp: get_frame_output_def decompress_frame_def parse_frame_def)
qed


theorem serialized_frame_decoded_witness:
  "\<exists>bs. serialize_inter_frame default_probability_tables example_inter_frame = Inr bs \<and>
    (2 ^ 19 \<le> length bs \<or>
     (\<exists>st1 tables ids st2.
        apply_inter_header plain_inter_header (decoder_state_init 16 9) = Inr (st1, tables) \<and>
        frame_update_segmentation (columns_of 16) (fr_macroblocks example_inter_frame) st1 = Some (ids, st2) \<and>
        get_frame_output False (chunk_of bs) ([], blank_decoder) =
          decode_inter False (example_inter_frame\<lparr>fr_segment_ids := ids\<rparr>) ([], blank_decoder\<lparr>dc_state := st2\<rparr>)))"
proof -
  have fields: "ds_probability_tables (decoder_state_init 16 9) = default_probability_tables"
    "fr_width example_inter_frame = 16" "fr_height example_inter_frame = 9" "fr_header example_inter_frame = plain_inter_header"
    by (simp_all add: decoder_state_init_def example_inter_frame_def)
  from serialized_frame_decoded [OF example_frames_ok(2), of blank_decoder False "[]", unfolded fields blank_decoder_fields,
      OF example_state_ok refl refl]
  show ?thesis .
qed

text \<open>A relative adjustment of a segment that takes the index below zero.\<close>

lemma octet_wraps: "- 128 \<le> v \<Longrightarrow> v < 256 \<Longrightarrow> v mod 256 = (if v < 0 then v + 256 else v :: int)"
  using mod_pos_pos_trivial [of "v + 256" 256] mod_pos_pos_trivial [of v 256] by auto

lemma segment_index:
  assumes "unsigned_ok 7 (qi_y_ac_qi qi)"
  shows "int (clamp_q (uint (qi_y_ac_qi (segment_indices qi sg i)))) =
    (let sum = sint (sg_quantizer sg ! i) + (if sg_absolute sg then 0 else uint (qi_y_ac_qi qi)) in
     if sum < 0 \<or> 127 < sum then 127 else sum)"
proof -
  define sum where "sum = sint (sg_quantizer sg ! i) + (if sg_absolute sg then 0 else uint (qi_y_ac_qi qi))"
  have "unat (qi_y_ac_qi qi) < 128" using assms by (simp add: unsigned_ok_def)
  then have "0 \<le> uint (qi_y_ac_qi qi)" "uint (qi_y_ac_qi qi) < 128" unfolding uint_nat by linarith+
  then have "0 \<le> (if sg_absolute sg then 0 else uint (qi_y_ac_qi qi))" "(if sg_absolute sg then 0 else uint (qi_y_ac_qi qi)) < 128"
    by simp_all
  then have bounds: "- 128 \<le> sum" "sum < 256"
    using sint_i8_bounds [of "sg_quantizer sg ! i"] unfolding sum_def by linarith+
  have "uint (qi_y_ac_qi (segment_indices qi sg i)) = sum mod 256"
    unfolding segment_indices_def sum_def [symmetric] by (simp add: uint_word_of_int)
  also have "\<dots> = (if sum < 0 then sum + 256 else sum)" by (rule octet_wraps [OF bounds])
  finally show ?thesis using bounds unfolding sum_def [symmetric] by (auto simp: clamp_q_def Let_def)
qed

text \<open>C34: A relative adjustment that takes a segment's quantizer index below zero makes it the largest one.
  The sum is stored in eight bits before the table is looked up, so that where the sum is negative the
  factor for the luma coefficients is 284, that of the coarsest quantizer, instead of 4, that of the
  finest; otherwise the index is the sum, at most 127.\<close>

theorem segment_quantizer_wraps:
  assumes "unsigned_ok 7 (qi_y_ac_qi qi)" and "i < 4"
  shows "quantizer_for qi (Some sg) (word_of_nat i) = Inr (quantizer_of (segment_indices qi sg i)) \<and>
    (let sum = sint (sg_quantizer sg ! i) + (if sg_absolute sg then 0 else uint (qi_y_ac_qi qi)) in
     uint (qz_y_ac (quantizer_of (segment_indices qi sg i))) =
       (if sum < 0 then 284 else ac_qlookup ! nat (min sum 127)))"
proof -
  let ?sum = "sint (sg_quantizer sg ! i) + (if sg_absolute sg then 0 else uint (qi_y_ac_qi qi))"
  have "unat (word_of_nat i :: u8) = i" using assms(2) by (intro unat_of_nat_lt) simp
  then have 1: "quantizer_for qi (Some sg) (word_of_nat i) = Inr (quantizer_of (segment_indices qi sg i))"
    using assms(2) by (simp add: quantizer_for_def calculate_segment_quantizers_def of_assert_def num_segments_def)
  let ?q = "clamp_q (uint (qi_y_ac_qi (segment_indices qi sg i)))"
  have index: "n = (if v < 0 then 127 else nat (min v 127))" if "int n = (if v < 0 \<or> 127 < v then 127 else v)" for n v
    using that by (cases "v < 0"; cases "127 < v") auto
  have q: "?q = (if ?sum < 0 then 127 else nat (min ?sum 127))"
    using index [OF segment_index [OF assms(1), of sg i, unfolded Let_def]] .
  have "\<forall>k<128. 0 \<le> ac_qlookup ! k \<and> ac_qlookup ! k < 65536"
  proof -
    have "list_all (\<lambda>v. 0 \<le> v \<and> v < 65536) ac_qlookup \<and> length ac_qlookup = 128" by code_simp
    then show ?thesis by (simp add: list_all_length)
  qed
  moreover have "?q < 128" unfolding q by auto
  ultimately have "uint (word_of_int (ac_qlookup ! ?q) :: u16) = ac_qlookup ! ?q" by (intro uint_u16_of_int) simp_all
  moreover have "ac_qlookup ! 127 = 284" by code_simp
  ultimately show ?thesis
    using 1 q by (simp add: quantizer_of_def offset_of_def Let_def)
qed

theorem segment_quantizer_wraps_witness:
  "let sg = (segmentation_init 16 9)\<lparr>sg_quantizer := [-21, 0, 0, 0]\<rparr> in
   uint (qz_y_ac (quantizer_of plain_quant_indices)) = 24 \<and>
   quantizer_for plain_quant_indices (Some sg) 0 = Inr (quantizer_of (segment_indices plain_quant_indices sg 0)) \<and>
   uint (qz_y_ac (quantizer_of (segment_indices plain_quant_indices sg 0))) = 284"
proof -
  let ?sg = "(segmentation_init 16 9)\<lparr>sg_quantizer := [-21, 0, 0, 0]\<rparr>"
  have "unsigned_ok 7 (qi_y_ac_qi plain_quant_indices)" by (simp add: unsigned_ok_def plain_quant_indices_def)
  from segment_quantizer_wraps [OF this, of 0 ?sg]
  have "quantizer_for plain_quant_indices (Some ?sg) 0 = Inr (quantizer_of (segment_indices plain_quant_indices ?sg 0))"
    "uint (qz_y_ac (quantizer_of (segment_indices plain_quant_indices ?sg 0))) = 284"
    by (simp_all add: segmentation_init_def plain_quant_indices_def)
  moreover have "uint (qz_y_ac (quantizer_of plain_quant_indices)) = 24" by code_simp
  ultimately show ?thesis by (simp add: Let_def)
qed

end
