(* ===== verification/Encoder_State.thy ===== *)
theory Encoder_State
  imports Frame_Decoding
begin

text \<open>
  The state of the encoder and how it follows the frames it writes (\<open>Encoder::Encoder\<close>,
  \<open>update_decoder_state\<close>, \<open>write_frame\<close>, \<open>minihash\<close> and \<open>export_decoder\<close> of src/src/encoder/encoder.cc,
  encode_intra.cc, encode_inter.cc and encoder.hh, \<open>SafeReferences\<close> of safe_references.cc).  What the encoder
  decides about a frame is in the theories on quantizers, tokens and macroblocks; here a frame is given, and
  the question is whether the encoder and a decoder of its bytes stay in the same state.
\<close>

section \<open>The encoder\<close>

datatype encoder_quality = BEST_QUALITY | REALTIME_QUALITY

record encoder =
  en_state :: decoder_state
  en_references :: "planes references"
  en_safe_references :: "plane references"
  en_has_state :: bool
  en_two_pass :: bool
  en_quality :: encoder_quality
  en_loop_filter_level :: "u8 option"
  en_last_y_ac_qi :: "u8 option"

type_synonym encoding_machine = "cached_raster list \<times> encoder"

definition load_safe_references :: "planes references \<Rightarrow> plane references result" where
  "load_safe_references refs =
     bind_result (of_assert (copy_raster (rp_Y (rf_last refs)))) (\<lambda>last.
     bind_result (of_assert (copy_raster (rp_Y (rf_golden refs)))) (\<lambda>golden.
     bind_result (of_assert (copy_raster (rp_Y (rf_alternative refs)))) (\<lambda>alternative.
     Inr \<lparr>rf_last = last, rf_golden = golden, rf_alternative = alternative\<rparr>)))"

definition new_references :: "bool \<Rightarrow> u16 \<Rightarrow> u16 \<Rightarrow> cached_raster list \<Rightarrow> cached_raster list \<times> planes references result" where
  "new_references allow_resize w h unused =
     (case mutable_handle allow_resize w h unused of
        (unused, Inl e) \<Rightarrow> (unused, Inl e)
      | (unused, Inr r) \<Rightarrow> (unused, bind_result (immutable_handle r) (\<lambda>r. Inr (references_of (hr_planes r)))))"

definition new_encoder ::
  "bool \<Rightarrow> u16 \<Rightarrow> u16 \<Rightarrow> bool \<Rightarrow> encoder_quality \<Rightarrow> cached_raster list \<Rightarrow> cached_raster list \<times> encoder result" where
  "new_encoder allow_resize w h two_pass quality unused =
     (case new_references allow_resize w h unused of
        (unused, r) \<Rightarrow>
          (unused, bind_result r (\<lambda>refs.
             bind_result (load_safe_references refs) (\<lambda>safe.
             Inr \<lparr>en_state = decoder_state_init w h, en_references = refs, en_safe_references = safe,
                  en_has_state = False, en_two_pass = two_pass, en_quality = quality,
                  en_loop_filter_level = None, en_last_y_ac_qi = None\<rparr>))))"

definition encoder_of_decoder :: "decoder \<Rightarrow> bool \<Rightarrow> encoder_quality \<Rightarrow> encoder result" where
  "encoder_of_decoder dc two_pass quality =
     bind_result (load_safe_references (dc_references dc)) (\<lambda>safe.
     Inr \<lparr>en_state = dc_state dc, en_references = dc_references dc, en_safe_references = safe,
          en_has_state = True, en_two_pass = two_pass, en_quality = quality,
          en_loop_filter_level = None, en_last_y_ac_qi = None\<rparr>)"

definition export_decoder :: "encoder \<Rightarrow> decoder" where
  "export_decoder en = \<lparr>dc_state = en_state en, dc_references = en_references en, dc_error_concealment = False\<rparr>"

definition encoder_minihash :: "hashing \<Rightarrow> encoder \<Rightarrow> u32" where
  "encoder_minihash hs en = minihash hs (raw_hash (hs_combine hs)) (en_state en) (en_references en)"


section \<open>Writing a frame\<close>

definition update_decoder_state_key :: "bool \<Rightarrow> key_frame \<Rightarrow> encoding_machine \<Rightarrow> encoding_machine \<times> unit result" where
  "update_decoder_state_key allow_resize fr m =
     (let hdr = fr_header fr; st = en_state (snd m) in
      keeping m (decoder_state_of_key_header hdr (ds_width st) (ds_height st)) (\<lambda>st.
      case new_references allow_resize (ds_width st) (ds_height st) (fst m) of
        (unused, r) \<Rightarrow>
          keeping (unused, (snd m)\<lparr>en_state := st\<rparr>) r (\<lambda>refs.
          let tables = ds_probability_tables st;
              tables = (if kh_refresh_entropy_probs hdr then coeff_prob_update (kh_token_prob_update hdr) tables else tables)
          in ((unused, (snd m)\<lparr>en_state := st\<lparr>ds_probability_tables := tables\<rparr>, en_references := refs\<rparr>), Inr ()))))"

definition update_decoder_state_inter :: "inter_frame \<Rightarrow> encoding_machine \<Rightarrow> encoding_machine \<times> unit result" where
  "update_decoder_state_inter fr m =
     (let hdr = fr_header fr; st = en_state (snd m); tables = ds_probability_tables st;
          st = (if ih_refresh_entropy_probs hdr then st\<lparr>ds_probability_tables := probability_tables_update hdr tables\<rparr> else st)
      in keeping (fst m, (snd m)\<lparr>en_state := st\<rparr>) (apply_filter_adjustments hdr st) (\<lambda>st.
         ((fst m, (snd m)\<lparr>en_state := st\<rparr>), Inr ())))"

text \<open>\<open>write_frame\<close>, for a frame given by what its class does.  The tables that it serializes with are a
  reference to those of the encoder's state, which the update has changed by then.\<close>

definition write_frame ::
  "bool \<Rightarrow> (encoding_machine \<Rightarrow> encoding_machine \<times> unit result) \<Rightarrow>
   (segmentation option \<Rightarrow> planes references \<Rightarrow> planes \<Rightarrow> planes result) \<Rightarrow>
   (segmentation option \<Rightarrow> filter_adjustments option \<Rightarrow> planes \<Rightarrow> planes result) \<Rightarrow>
   (planes \<Rightarrow> planes references \<Rightarrow> planes references) \<Rightarrow> u8 \<Rightarrow> u8 \<Rightarrow> (probability_tables \<Rightarrow> bytes result) \<Rightarrow>
   encoding_machine \<Rightarrow> encoding_machine \<times> bytes result" where
  "write_frame allow_resize update_decoder_state decode loopfilter copy_to loop_filter_level y_ac_qi serialize m =
     (case update_decoder_state m of (m, updated) \<Rightarrow>
      keeping m updated (\<lambda>_.
      let en = snd m; st = en_state en in
      case mutable_handle allow_resize (ds_width st) (ds_height st) (fst m) of (unused, r) \<Rightarrow>
      keeping (unused, en) r (\<lambda>r.
      keeping (unused, en) (decode (ds_segmentation st) (en_references en) (hr_planes r)) (\<lambda>s.
      keeping (unused, en) (loopfilter (ds_segmentation st) (ds_filter_adjustments st) s) (\<lambda>s.
      keeping (unused, en) (immutable_handle (r\<lparr>hr_planes := s\<rparr>)) (\<lambda>r.
      let en = en\<lparr>en_references := copy_to (hr_planes r) (en_references en)\<rparr> in
      keeping (unused, en) (load_safe_references (en_references en)) (\<lambda>safe.
      let en = en\<lparr>en_safe_references := safe\<rparr>;
          en = (if en_quality en = REALTIME_QUALITY
                then en\<lparr>en_loop_filter_level := Some loop_filter_level, en_last_y_ac_qi := Some y_ac_qi\<rparr> else en)
      in ((unused, en), serialize (ds_probability_tables (en_state en))))))))))"

definition write_key_frame :: "bool \<Rightarrow> key_frame \<Rightarrow> encoding_machine \<Rightarrow> encoding_machine \<times> bytes result" where
  "write_key_frame allow_resize fr =
     write_frame allow_resize (update_decoder_state_key allow_resize fr)
       (\<lambda>sg refs. decode_key_frame fr sg) (loopfilter_key_frame fr) key_copy_to
       (kh_loop_filter_level (fr_header fr)) (qi_y_ac_qi (kh_quant_indices (fr_header fr)))
       (\<lambda>tables. serialize_key_frame tables fr)"

definition write_inter_frame :: "bool \<Rightarrow> inter_frame \<Rightarrow> encoding_machine \<Rightarrow> encoding_machine \<times> bytes result" where
  "write_inter_frame allow_resize fr =
     write_frame allow_resize (update_decoder_state_inter fr)
       (decode_inter_frame fr) (loopfilter_inter_frame fr) (inter_copy_to (fr_header fr))
       (ih_loop_filter_level (fr_header fr)) (qi_y_ac_qi (ih_quant_indices (fr_header fr)))
       (\<lambda>tables. serialize_inter_frame tables fr)"


section \<open>Frames that can be written fit\<close>

lemma inter_ok_readable: "inter_mb_ok fp cx mb \<Longrightarrow> readable_mb False mb"
  using inter_modes_shape [of cx mb] inter_modes_consistent [of cx mb] header_reference [of "fp_header fp" "mb_header mb"]
  by (simp add: inter_mb_ok_def readable_mb_def core_ok_def)

text \<open>A frame without a map of segments; the code keeps the segments in the macroblocks, where they are 0
  unless a map sets them.\<close>

definition unsegmented :: "('h, 'm) frame \<Rightarrow> bool" where
  "unsegmented fr \<longleftrightarrow> fr_segment_ids fr = replicate (length (fr_macroblocks fr)) 0"

lemma shape_read_ok:
  assumes "frame_shape_ok fr" and "unsegmented fr" and "ds_width st = fr_width fr" and "ds_height st = fr_height fr"
  shows "frame_read_ok st fr"
proof -
  have "y2_agrees (mb_y2_coded (fr_macroblocks fr ! k)) (fr_residues fr ! k)"
    if "k < columns_of (fr_width fr) * rows_of (fr_height fr)" for k
    using assms(1) that
    by (auto simp: frame_shape_ok_def frame_tokens_ok_def token_mb_ok_def token_view_def residue_ok_def y2_agrees_def
        split: option.splits)
  moreover have "length (fr_macroblocks fr) = columns_of (fr_width fr) * rows_of (fr_height fr)"
    "length (fr_residues fr) = columns_of (fr_width fr) * rows_of (fr_height fr)"
    using assms(1) by (simp_all add: frame_shape_ok_def frame_tokens_ok_def)
  ultimately show ?thesis
    using assms(2-4) by (simp add: frame_read_ok_def list_all2_conv_all_nth unsegmented_def list_all_iff)
qed

lemma key_ok_fits: "key_frame_ok fr \<Longrightarrow> unsegmented fr \<Longrightarrow> frame_fits intra_fits fr"
  using shape_read_ok [of fr "decoder_state_init (fr_width fr) (fr_height fr)"] key_frame_fits
  unfolding key_frame_ok_def decoder_state_init_def by simp blast

lemma inter_ok_fits: "inter_frame_ok fr \<Longrightarrow> unsegmented fr \<Longrightarrow> frame_fits inter_mb_fits fr"
  using shape_read_ok [of fr "decoder_state_init (fr_width fr) (fr_height fr)"] inter_ok_readable
  by (intro inter_frame_fits [where st = "decoder_state_init (fr_width fr) (fr_height fr)"])
    (auto simp: inter_frame_ok_def decoder_state_init_def inter_macroblocks_ok_def frame_ok_def list_all_length)


section \<open>Encoder and decoder draw the same picture\<close>

text \<open>The raster that decoding a frame comes to, on a state and references.\<close>

definition draws ::
  "nat \<Rightarrow> nat \<Rightarrow> (planes \<Rightarrow> planes result) \<Rightarrow> (planes \<Rightarrow> planes result) \<Rightarrow> planes \<Rightarrow> bool" where
  "draws w h decode loopfilter s \<longleftrightarrow>
     planes_sized w h s \<and>
     (\<forall>p. planes_sized w h p \<longrightarrow> (\<exists>q. decode p = Inr q \<and> loopfilter q = Inr s))"

lemma drawn:
  assumes "decodes w h decode"
    and "\<And>s. planes_sized w h s \<Longrightarrow> \<exists>s'. loopfilter s = Inr s' \<and> planes_sized w h s'"
  obtains s where "draws w h decode loopfilter s"
  using assms unfolding decodes_def draws_def by metis

text \<open>A pool of rasters of one size.\<close>

definition pool_ok :: "u16 \<Rightarrow> u16 \<Rightarrow> cached_raster list \<Rightarrow> bool" where
  "pool_ok w h unused \<longleftrightarrow> unused_ok unused \<and> (\<forall>r\<in>set unused. hr_display_width r = w \<and> hr_display_height r = h)"

lemma pool_raster:
  assumes "pool_ok (ds_width (dc_state dc)) (ds_height (dc_state dc)) unused" and "decoder_ok dc"
  obtains unused' r where
    "mutable_handle allow_resize (ds_width (dc_state dc)) (ds_height (dc_state dc)) unused = (unused', Inr r)"
    "pool_ok (ds_width (dc_state dc)) (ds_height (dc_state dc)) unused'" "hr_frozen_hash r = None"
    "planes_sized (columns_of (ds_width (dc_state dc))) (rows_of (ds_height (dc_state dc))) (hr_planes r)"
proof -
  have "unused_ok unused" using assms(1) by (simp add: pool_ok_def)
  then show ?thesis
    using assms(2)
  proof (cases rule: mutable_handle_cases [where allow_resize = allow_resize])
    case mismatch
    then show ?thesis using assms(1) by (cases unused) (simp_all add: size_changed_def pool_ok_def)
  next
    case (raster unused' r)
    have "set unused' \<subseteq> set unused"
      using raster(2) by (auto simp: mutable_handle_def make_raster_def split: list.splits if_splits sum.splits)
    then show ?thesis using that raster assms(1) by (auto simp: pool_ok_def)
  qed
qed

lemma decode_frame_draws:
  assumes dc: "decoder_ok dc" and unused: "pool_ok (ds_width (dc_state dc)) (ds_height (dc_state dc)) unused"
    and s: "draws (columns_of (ds_width (dc_state dc))) (rows_of (ds_height (dc_state dc)))
      (decode (ds_segmentation (dc_state dc)) (dc_references dc))
      (loopfilter (ds_segmentation (dc_state dc)) (ds_filter_adjustments (dc_state dc))) s"
  shows "\<exists>unused'. pool_ok (ds_width (dc_state dc)) (ds_height (dc_state dc)) unused' \<and>
    decode_frame allow_resize decode loopfilter copy_to shown (unused, dc) =
      ((unused', dc\<lparr>dc_references := copy_to s (dc_references dc)\<rparr>), Inr (shown, s))"
proof -
  obtain unused' r where r: "mutable_handle allow_resize (ds_width (dc_state dc)) (ds_height (dc_state dc)) unused = (unused', Inr r)"
    "pool_ok (ds_width (dc_state dc)) (ds_height (dc_state dc)) unused'" "hr_frozen_hash r = None"
    "planes_sized (columns_of (ds_width (dc_state dc))) (rows_of (ds_height (dc_state dc))) (hr_planes r)"
    by (rule pool_raster [OF unused dc])
  obtain q where "decode (ds_segmentation (dc_state dc)) (dc_references dc) (hr_planes r) = Inr q"
    "loopfilter (ds_segmentation (dc_state dc)) (ds_filter_adjustments (dc_state dc)) q = Inr s"
    using s r(4) unfolding draws_def by blast
  then show ?thesis using r(1-3) by (simp add: decode_frame_def Let_def immutable_handle_def)
qed

lemma safe_references_load:
  assumes "references_sized w h refs"
  shows "\<exists>safe. load_safe_references refs = Inr safe"
proof -
  have "\<exists>q. copy_raster (rp_Y p) = Some q" if "planes_sized w h p" for p
    using that safe_raster_spec [of "rp_Y p"] by (auto simp: planes_sized_def)
  then obtain f where "\<And>p. planes_sized w h p \<Longrightarrow> copy_raster (rp_Y p) = Some (f p)" by metis
  then show ?thesis using assms by (simp add: load_safe_references_def references_sized_def of_assert_def)
qed

definition encoder_ok :: "encoder \<Rightarrow> bool" where
  "encoder_ok en \<longleftrightarrow> decoder_ok (export_decoder en) \<and> ds_segmentation (en_state en) = None"

lemma exported [simp]:
  "dc_state (export_decoder en) = en_state en" "dc_references (export_decoder en) = en_references en"
  by (simp_all add: export_decoder_def)

text \<open>\<open>write_frame\<close> once the state is updated.\<close>

lemma write_frame_draws:
  assumes updated: "update m = ((unused, en), Inr ())" and en: "decoder_ok (export_decoder en)"
    and unused: "pool_ok (ds_width (en_state en)) (ds_height (en_state en)) unused"
    and s: "draws (columns_of (ds_width (en_state en))) (rows_of (ds_height (en_state en)))
      (decode (ds_segmentation (en_state en)) (en_references en))
      (loopfilter (ds_segmentation (en_state en)) (ds_filter_adjustments (en_state en))) s"
    and copied: "references_sized (columns_of (ds_width (en_state en))) (rows_of (ds_height (en_state en))) (copy_to s (en_references en))"
  shows "\<exists>unused' en'. pool_ok (ds_width (en_state en)) (ds_height (en_state en)) unused' \<and>
    write_frame allow_resize update decode loopfilter copy_to level q serialize m =
      ((unused', en'), serialize (ds_probability_tables (en_state en))) \<and>
    en_state en' = en_state en \<and> en_references en' = copy_to s (en_references en)"
proof -
  obtain safe where safe: "load_safe_references (copy_to s (en_references en)) = Inr safe"
    using safe_references_load [OF copied] by blast
  obtain unused' r where r: "mutable_handle allow_resize (ds_width (en_state en)) (ds_height (en_state en)) unused = (unused', Inr r)"
    "pool_ok (ds_width (en_state en)) (ds_height (en_state en)) unused'" "hr_frozen_hash r = None"
    "planes_sized (columns_of (ds_width (en_state en))) (rows_of (ds_height (en_state en))) (hr_planes r)"
    using pool_raster [of "export_decoder en" unused allow_resize, unfolded exported, OF unused en] by blast
  obtain q where "decode (ds_segmentation (en_state en)) (en_references en) (hr_planes r) = Inr q"
    "loopfilter (ds_segmentation (en_state en)) (ds_filter_adjustments (en_state en)) q = Inr s"
    using s r(4) unfolding draws_def by blast
  then show ?thesis
    using r(1-3) by (simp add: write_frame_def updated Let_def safe immutable_handle_def)
qed

section \<open>The update of the encoder is that of the decoder\<close>

lemma map2_idem: "(\<And>a b. f a (f a b) = f a b) \<Longrightarrow> map2 f us (map2 f us ts) = map2 f us ts"
  by (induction us ts rule: list_induct2') simp_all

lemma override_idem: "override u (override u t) = override u t"
  by (simp add: override_def split: option.split)

lemma coeff_prob_update_idem: "coeff_prob_update upds (coeff_prob_update upds pt) = coeff_prob_update upds pt"
  by (simp add: coeff_prob_update_def map2_idem override_idem)

lemma probability_tables_update_idem: "probability_tables_update h (probability_tables_update h pt) = probability_tables_update h pt"
  by (simp add: probability_tables_update_def coeff_prob_update_def mv_prob_update_def Let_def map2_idem override_idem)

lemma filter_adjustments_alone:
  "apply_filter_adjustments h st = Inr st' \<Longrightarrow>
   ds_segmentation st' = ds_segmentation st \<and> ds_probability_tables st' = ds_probability_tables st"
  by (auto simp: apply_filter_adjustments_def bind_result_eq_Inr split: option.splits)

lemma inter_update:
  assumes "apply_inter_header (fr_header fr) (en_state en) = Inr (st, tables)" and "ds_segmentation (en_state en) = None"
    and "ih_update_segmentation (fr_header fr) = None"
  shows "update_decoder_state_inter fr (unused, en) = ((unused, en\<lparr>en_state := st\<rparr>), Inr ()) \<and> ds_segmentation st = None \<and>
    serialize_inter_frame (ds_probability_tables st) fr = serialize_inter_frame (ds_probability_tables (en_state en)) fr"
proof -
  let ?h = "fr_header fr"
  let ?pt = "probability_tables_update ?h (ds_probability_tables (en_state en))"
  let ?st = "if ih_refresh_entropy_probs ?h then (en_state en)\<lparr>ds_probability_tables := ?pt\<rparr> else en_state en"
  obtain s where s: "apply_filter_adjustments ?h ?st = Inr s" "apply_segmentation ?h s = Inr st"
    using assms(1) by (auto simp: apply_inter_header_def Let_def bind_result_eq_Inr)
  have same: "ds_segmentation s = None" "ds_probability_tables s = ds_probability_tables ?st"
    using filter_adjustments_alone [OF s(1)] assms(2) by simp_all
  then have "st = s" using s(2) assms(3) by (cases s) (simp add: apply_segmentation_def)
  moreover have "serialize_inter_frame (ds_probability_tables ?st) fr = serialize_inter_frame (ds_probability_tables (en_state en)) fr"
    by (simp add: serialize_inter_frame_def Let_def probability_tables_update_idem)
  ultimately show ?thesis using s(1) same by (simp add: update_decoder_state_inter_def Let_def)
qed

lemma key_update:
  assumes header: "apply_key_header (fr_header fr) (en_state en) = Inr (st, tables)"
    and plain: "kh_update_segmentation (fr_header fr) = None"
    and pool: "pool_ok (ds_width (en_state en)) (ds_height (en_state en)) unused" and en: "decoder_ok (export_decoder en)"
  shows "\<exists>unused' refs. pool_ok (ds_width (en_state en)) (ds_height (en_state en)) unused' \<and>
    references_sized (columns_of (ds_width (en_state en))) (rows_of (ds_height (en_state en))) refs \<and>
    update_decoder_state_key allow_resize fr (unused, en) = ((unused', en\<lparr>en_state := st, en_references := refs\<rparr>), Inr ()) \<and>
    ds_segmentation st = None \<and> ds_width st = ds_width (en_state en) \<and> ds_height st = ds_height (en_state en) \<and>
    serialize_key_frame (ds_probability_tables st) fr = serialize_key_frame default_probability_tables fr"
proof -
  let ?h = "fr_header fr" and ?w = "ds_width (en_state en)" and ?ht = "ds_height (en_state en)"
  obtain s where s: "decoder_state_of_key_header ?h ?w ?ht = Inr s"
    "st = (if kh_refresh_entropy_probs ?h
      then s\<lparr>ds_probability_tables := coeff_prob_update (kh_token_prob_update ?h) (ds_probability_tables s)\<rparr> else s)"
    using header by (auto simp: apply_key_header_def Let_def bind_result_eq_Inr)
  have fields: "ds_width s = ?w" "ds_height s = ?ht" "ds_segmentation s = None" "ds_probability_tables s = default_probability_tables"
    using s(1) plain by (auto simp: decoder_state_of_key_header_def decoder_state_init_def bind_result_eq_Inr optional_result_def)
  obtain unused' r where r: "mutable_handle allow_resize ?w ?ht unused = (unused', Inr r)" "pool_ok ?w ?ht unused'"
    "hr_frozen_hash r = None" "planes_sized (columns_of ?w) (rows_of ?ht) (hr_planes r)"
    using pool_raster [of "export_decoder en" unused allow_resize, unfolded exported, OF pool en] by blast
  have refs: "new_references allow_resize ?w ?ht unused = (unused', Inr (references_of (hr_planes r)))"
    using r(1,3) by (simp add: new_references_def immutable_handle_def)
  have "update_decoder_state_key allow_resize fr (unused, en) =
      ((unused', en\<lparr>en_state := st, en_references := references_of (hr_planes r)\<rparr>), Inr ())"
    using s refs fields by (simp add: update_decoder_state_key_def Let_def)
  moreover have "references_sized (columns_of ?w) (rows_of ?ht) (references_of (hr_planes r))"
    using r(4) by (simp add: references_sized_def references_of_def)
  moreover have "serialize_key_frame (ds_probability_tables st) fr = serialize_key_frame default_probability_tables fr"
    using s(2) fields by (simp add: serialize_key_frame_def Let_def coeff_prob_update_idem)
  ultimately show ?thesis using r(2) s(2) fields by auto
qed

section \<open>One frame\<close>

definition in_step :: "encoder \<Rightarrow> decoder \<Rightarrow> bool" where
  "in_step en dc \<longleftrightarrow> dc_state dc = en_state en \<and> dc_references dc = en_references en"

definition inter_plain :: "u16 \<Rightarrow> u16 \<Rightarrow> inter_frame \<Rightarrow> bool" where
  "inter_plain w h fr \<longleftrightarrow>
     inter_frame_ok fr \<and> unsegmented fr \<and> fr_width fr = w \<and> fr_height fr = h \<and> ih_update_segmentation (fr_header fr) = None"

definition key_plain :: "u16 \<Rightarrow> u16 \<Rightarrow> key_frame \<Rightarrow> bool" where
  "key_plain w h fr \<longleftrightarrow>
     key_frame_ok fr \<and> unsegmented fr \<and> fr_width fr = w \<and> fr_height fr = h \<and> kh_update_segmentation (fr_header fr) = None"

lemma no_segments:
  assumes "ds_segmentation st = None" and "unsegmented fr"
    and "frame_update_segmentation w (fr_macroblocks fr) st = Some (ids, st')"
  shows "st' = st \<and> fr\<lparr>fr_segment_ids := ids\<rparr> = fr"
  using assms by (cases fr) (simp add: frame_update_segmentation_def unsegmented_def)

lemma decoder_ok_parts:
  "decoder_ok dc \<longleftrightarrow> decoder_state_ok (dc_state dc) \<and> columns_of (ds_width (dc_state dc)) < 4096 \<and>
     rows_of (ds_height (dc_state dc)) < 4096 \<and>
     references_sized (columns_of (ds_width (dc_state dc))) (rows_of (ds_height (dc_state dc))) (dc_references dc)"
  by (simp add: decoder_ok_def)

text \<open>What following means, for the results of writing a frame and of decoding what was written.\<close>

definition followed ::
  "u16 \<Rightarrow> u16 \<Rightarrow> bool \<Rightarrow> encoding_machine \<times> bytes result \<Rightarrow> (bytes \<Rightarrow> machine \<times> (bool \<times> planes) result) \<Rightarrow> bool" where
  "followed w h shown result decode \<longleftrightarrow>
     (\<exists>unused en bs. result = ((unused, en), Inr bs) \<and> pool_ok w h unused \<and> encoder_ok en \<and>
        ds_width (en_state en) = w \<and> ds_height (en_state en) = h \<and>
        (length bs < 2 ^ 19 \<longrightarrow>
          (\<exists>others dc s. decode bs = ((others, dc), Inr (shown, s)) \<and> pool_ok w h others \<and> in_step en dc)))"

lemma frame_followed:
  assumes updated: "update m = ((unused, en), Inr ())" and en: "encoder_ok en"
    and dims: "ds_width (en_state en) = w" "ds_height (en_state en) = h" and pools: "pool_ok w h unused" "pool_ok w h others"
    and s: "draws (columns_of w) (rows_of h) (decode None (en_references en)) (loopfilter None (ds_filter_adjustments (en_state en))) s"
    and same: "decode None (dc_references dc) = decode None (en_references en)" "copy_to s (dc_references dc) = copy_to s (en_references en)"
    and sized: "references_sized (columns_of w) (rows_of h) (copy_to s (en_references en))"
    and dc: "decoder_ok dc" "dc_state dc = en_state en"
    and bs: "serialize (ds_probability_tables (en_state en)) = Inr bs"
      "length bs < 2 ^ 19 \<Longrightarrow> run bs = decode_frame allow_resize decode loopfilter copy_to shown (others, dc)"
  shows "followed w h shown (write_frame allow_resize update decode loopfilter copy_to level q serialize m) run"
proof -
  have none: "ds_segmentation (en_state en) = None" and en_ok: "decoder_ok (export_decoder en)"
    using en by (simp_all add: encoder_ok_def)
  obtain unused' en' where written: "pool_ok w h unused'"
    "write_frame allow_resize update decode loopfilter copy_to level q serialize m = ((unused', en'), Inr bs)"
    "en_state en' = en_state en" "en_references en' = copy_to s (en_references en)"
    using write_frame_draws [where update = update and m = m, OF updated en_ok,
        where decode = decode and loopfilter = loopfilter and s = s and copy_to = copy_to]
      pools(1) s sized bs(1) unfolding none dims by (metis (no_types, lifting))
  obtain others' where decoded: "pool_ok w h others'"
    "decode_frame allow_resize decode loopfilter copy_to shown (others, dc) =
      ((others', dc\<lparr>dc_references := copy_to s (dc_references dc)\<rparr>), Inr (shown, s))"
    using decode_frame_draws [OF dc(1), where decode = decode and loopfilter = loopfilter and s = s and copy_to = copy_to]
      pools(2) s unfolding dc(2) none dims same(1) by blast
  have "encoder_ok en'" using written(3,4) none en_ok sized dims by (simp add: encoder_ok_def decoder_ok_parts)
  moreover have "in_step en' (dc\<lparr>dc_references := copy_to s (dc_references dc)\<rparr>)"
    using written(3,4) dc(2) same(2) by (simp add: in_step_def)
  ultimately show ?thesis
    unfolding followed_def using written(1-3) decoded bs(2) dims by auto
qed

lemma inter_frame_read:
  assumes ok: "inter_frame_ok fr" "unsegmented fr" "ih_update_segmentation (fr_header fr) = None"
    and st: "decoder_state_ok (dc_state dc)" "ds_width (dc_state dc) = fr_width fr" "ds_height (dc_state dc) = fr_height fr"
      "ds_segmentation (dc_state dc) = None"
    and header: "apply_inter_header (fr_header fr) (dc_state dc) = Inr (st1, tables)" "ds_segmentation st1 = None"
  shows "\<exists>bs. serialize_inter_frame (ds_probability_tables (dc_state dc)) fr = Inr bs \<and>
    (length bs < 2 ^ 19 \<longrightarrow>
      get_frame_output allow_resize (chunk_of bs) (others, dc) = decode_inter allow_resize fr (others, dc\<lparr>dc_state := st1\<rparr>))"
proof -
  obtain bs where bs: "serialize_inter_frame (ds_probability_tables (dc_state dc)) fr = Inr bs"
    "length bs < 2 ^ 19 \<longrightarrow> (\<exists>uc st1 tables ids st2.
        parse_uncompressed (chunk_of bs) (fr_width fr) (fr_height fr) (dc_error_concealment dc) = Inr uc \<and> \<not> uc_experimental uc \<and>
        apply_inter_header (fr_header fr) (dc_state dc) = Inr (st1, tables) \<and>
        frame_update_segmentation (columns_of (fr_width fr)) (fr_macroblocks fr) st1 = Some (ids, st2) \<and>
        parse_and_apply_inter uc (dc_state dc) = (st2, Inr (fr\<lparr>fr_segment_ids := ids\<rparr>)))"
    using inter_frame_survives [OF ok(1) st(1-3), where accept_partial = "dc_error_concealment dc"] by blast
  have "get_frame_output allow_resize (chunk_of bs) (others, dc) = decode_inter allow_resize fr (others, dc\<lparr>dc_state := st1\<rparr>)"
    if short: "length bs < 2 ^ 19"
  proof -
    obtain uc ids st2 where uc:
      "parse_uncompressed (chunk_of bs) (fr_width fr) (fr_height fr) (dc_error_concealment dc) = Inr uc" "\<not> uc_experimental uc"
      "frame_update_segmentation (columns_of (fr_width fr)) (fr_macroblocks fr) st1 = Some (ids, st2)"
      "parse_and_apply_inter uc (dc_state dc) = (st2, Inr (fr\<lparr>fr_segment_ids := ids\<rparr>))"
      using bs(2) [rule_format, OF short] unfolding header(1) by auto
    then have parsed: "parse_and_apply_inter uc (dc_state dc) = (st1, Inr fr)"
      using no_segments [OF header(2) ok(2)] by simp
    have "\<not> uc_key_frame uc" using parsed by (auto simp: parse_and_apply_inter_def)
    then show ?thesis
      using uc(1,2) parsed st by (simp add: get_frame_output_def decompress_frame_def parse_frame_def)
  qed
  with bs(1) show ?thesis by blast
qed

lemma key_frame_read:
  assumes ok: "key_frame_ok fr" "unsegmented fr"
    and st: "ds_width (dc_state dc) = fr_width fr" "ds_height (dc_state dc) = fr_height fr"
    and header: "apply_key_header (fr_header fr) (dc_state dc) = Inr (st1, tables)" "ds_segmentation st1 = None"
  shows "\<exists>bs. serialize_key_frame default_probability_tables fr = Inr bs \<and>
    (length bs < 2 ^ 19 \<longrightarrow>
      get_frame_output allow_resize (chunk_of bs) (others, dc) = decode_key allow_resize fr (others, dc\<lparr>dc_state := st1\<rparr>))"
proof -
  obtain bs where bs: "serialize_key_frame default_probability_tables fr = Inr bs"
    "length bs < 2 ^ 19 \<longrightarrow> (\<exists>uc st1 tables ids st2.
        parse_uncompressed (chunk_of bs) (fr_width fr) (fr_height fr) (dc_error_concealment dc) = Inr uc \<and>
        apply_key_header (fr_header fr) (dc_state dc) = Inr (st1, tables) \<and>
        frame_update_segmentation (columns_of (fr_width fr)) (fr_macroblocks fr) st1 = Some (ids, st2) \<and>
        parse_and_apply_key uc (dc_state dc) = (st2, Inr (fr\<lparr>fr_segment_ids := ids\<rparr>)))"
    using key_frame_survives [OF ok(1) st, where accept_partial = "dc_error_concealment dc"] by blast
  have "get_frame_output allow_resize (chunk_of bs) (others, dc) = decode_key allow_resize fr (others, dc\<lparr>dc_state := st1\<rparr>)"
    if short: "length bs < 2 ^ 19"
  proof -
    obtain uc ids st2 where uc:
      "parse_uncompressed (chunk_of bs) (fr_width fr) (fr_height fr) (dc_error_concealment dc) = Inr uc"
      "frame_update_segmentation (columns_of (fr_width fr)) (fr_macroblocks fr) st1 = Some (ids, st2)"
      "parse_and_apply_key uc (dc_state dc) = (st2, Inr (fr\<lparr>fr_segment_ids := ids\<rparr>))"
      using bs(2) [rule_format, OF short] unfolding header(1) by auto
    then have parsed: "parse_and_apply_key uc (dc_state dc) = (st1, Inr fr)"
      using no_segments [OF header(2) ok(2)] by simp
    have "uc_key_frame uc" using parsed by (auto simp: parse_and_apply_key_def keeping_def check_def split: if_splits)
    then show ?thesis
      using uc(1) parsed st by (simp add: get_frame_output_def decompress_frame_def parse_frame_def)
  qed
  with bs(1) show ?thesis by blast
qed

lemma inter_frame_followed:
  assumes en: "encoder_ok en" and step: "in_step en dc" and dims: "ds_width (en_state en) = w" "ds_height (en_state en) = h"
    and fr: "inter_plain w h fr" and pools: "pool_ok w h unused" "pool_ok w h others"
  shows "followed w h (fr_show fr) (write_inter_frame allow_resize fr (unused, en))
    (\<lambda>bs. get_frame_output allow_resize (chunk_of bs) (others, dc))"
proof -
  let ?h = "fr_header fr"
  have ok: "inter_frame_ok fr" "unsegmented fr" "fr_width fr = w" "fr_height fr = h" "ih_update_segmentation ?h = None"
    using fr by (simp_all add: inter_plain_def)
  have state: "decoder_state_ok (en_state en)" "columns_of w < 4096" "rows_of h < 4096"
      "references_sized (columns_of w) (rows_of h) (en_references en)" "ds_segmentation (en_state en) = None"
    using en dims by (simp_all add: encoder_ok_def decoder_ok_parts)
  have dc: "dc_state dc = en_state en" "dc_references dc = en_references en" using step by (simp_all add: in_step_def)
  have header: "inter_frame_header_ok ?h" "inter_frame_header_supported ?h = Inr ()" using ok(1) by (simp_all add: inter_frame_ok_def)
  obtain st1 tables where st1: "apply_inter_header ?h (en_state en) = Inr (st1, tables)" "decoder_state_ok st1"
    "ds_width st1 = w" "ds_height st1 = h"
    using inter_header_ok [OF header(1) state(1)] dims by auto
  note updated = inter_update [OF st1(1) state(5) ok(5)]
  have fits: "frame_fits inter_mb_fits fr" by (rule inter_ok_fits [OF ok(1,2)])
  have pos: "0 < columns_of w" "0 < rows_of h" using state(1) dims by (simp_all add: decoder_state_ok_def frame_dimensions)
  obtain s where s: "draws (columns_of w) (rows_of h) (decode_inter_frame fr None (en_references en))
      (loopfilter_inter_frame fr None (ds_filter_adjustments st1)) s"
    using drawn [OF inter_frame_decodes [OF fits, unfolded ok(3,4), OF pos state(4)]
        inter_loopfilter_total [OF fits _ header(2), unfolded ok(3,4)]] .
  have sized: "references_sized (columns_of w) (rows_of h) (inter_copy_to ?h s (en_references en))"
    using s by (intro inter_copy_sized state(4)) (simp add: draws_def)
  obtain bs where bs: "serialize_inter_frame (ds_probability_tables (en_state en)) fr = Inr bs"
    "length bs < 2 ^ 19 \<Longrightarrow>
      get_frame_output allow_resize (chunk_of bs) (others, dc) = decode_inter allow_resize fr (others, dc\<lparr>dc_state := st1\<rparr>)"
    using inter_frame_read [OF ok(1,2,5), of dc st1 tables allow_resize others] state(1,5) st1(1) updated dims ok(3,4)
    unfolding dc(1) by auto
  have ok1: "encoder_ok (en\<lparr>en_state := st1\<rparr>)" "decoder_ok (dc\<lparr>dc_state := st1\<rparr>)"
    using st1 state updated dc(2) by (simp_all add: encoder_ok_def decoder_ok_parts)
  show ?thesis
    unfolding write_inter_frame_def
    by (rule frame_followed [where s = s and dc = "dc\<lparr>dc_state := st1\<rparr>" and bs = bs and others = others
          and update = "update_decoder_state_inter fr" and m = "(unused, en)", OF conjunct1 [OF updated] ok1(1) _ _ pools])
      (use s sized ok1(2) updated bs st1(3,4) dc(2) in \<open>simp_all add: decode_inter_def\<close>)
qed

lemma key_frame_followed:
  assumes en: "encoder_ok en" and dims: "ds_width (en_state en) = w" "ds_height (en_state en) = h"
    and dc: "decoder_ok dc" "ds_width (dc_state dc) = w" "ds_height (dc_state dc) = h"
    and fr: "key_plain w h fr" and pools: "pool_ok w h unused" "pool_ok w h others"
  shows "followed w h (fr_show fr) (write_key_frame allow_resize fr (unused, en))
    (\<lambda>bs. get_frame_output allow_resize (chunk_of bs) (others, dc))"
proof -
  let ?h = "fr_header fr"
  have ok: "key_frame_ok fr" "unsegmented fr" "fr_width fr = w" "fr_height fr = h" "kh_update_segmentation ?h = None"
    using fr by (simp_all add: key_plain_def)
  have state: "decoder_ok (export_decoder en)" "columns_of w < 4096" "rows_of h < 4096" "0 < w" "0 < h"
    using en dims by (simp_all add: encoder_ok_def decoder_ok_parts decoder_state_ok_def)
  have header: "key_frame_header_ok ?h" "key_frame_header_supported ?h = Inr ()" using ok(1) by (simp_all add: key_frame_ok_def)
  obtain st1 tables where st1: "apply_key_header ?h (en_state en) = Inr (st1, tables)" "decoder_state_ok st1"
    "ds_width st1 = w" "ds_height st1 = h"
    using key_header_ok [OF header(1), of "en_state en"] state(4,5) dims by auto
  have same: "apply_key_header ?h (dc_state dc) = Inr (st1, tables)" using st1(1) dims dc(2,3) by (simp add: apply_key_header_def)
  obtain unused' refs where updated: "pool_ok w h unused'" "references_sized (columns_of w) (rows_of h) refs"
    "update_decoder_state_key allow_resize fr (unused, en) = ((unused', en\<lparr>en_state := st1, en_references := refs\<rparr>), Inr ())"
    "ds_segmentation st1 = None" "serialize_key_frame (ds_probability_tables st1) fr = serialize_key_frame default_probability_tables fr"
    using key_update [OF st1(1) ok(5) _ state(1), of unused allow_resize] pools(1) unfolding dims by blast
  have fits: "frame_fits intra_fits fr" by (rule key_ok_fits [OF ok(1,2)])
  have pos: "0 < columns_of w" "0 < rows_of h" using state(4,5) by (simp_all add: frame_dimensions)
  obtain s where s: "draws (columns_of w) (rows_of h) (decode_key_frame fr None) (loopfilter_key_frame fr None (ds_filter_adjustments st1)) s"
    using drawn [OF key_frame_decodes [OF fits, unfolded ok(3,4), OF pos] key_loopfilter_total [OF fits _ header(2), unfolded ok(3,4)]] .
  have copies: "key_copy_to s r = references_of s" for r by (simp add: key_copy_to_def references_of_def)
  have sized: "references_sized (columns_of w) (rows_of h) (references_of s)"
    using s by (simp add: draws_def references_sized_def references_of_def)
  obtain bs where bs: "serialize_key_frame default_probability_tables fr = Inr bs"
    "length bs < 2 ^ 19 \<Longrightarrow>
      get_frame_output allow_resize (chunk_of bs) (others, dc) = decode_key allow_resize fr (others, dc\<lparr>dc_state := st1\<rparr>)"
    using key_frame_read [OF ok(1,2) _ _ same updated(4), of allow_resize others] dc(2,3) ok(3,4) by auto
  have ok1: "encoder_ok (en\<lparr>en_state := st1, en_references := refs\<rparr>)" "decoder_ok (dc\<lparr>dc_state := st1\<rparr>)"
    using st1 state updated(2,4) dc by (simp_all add: encoder_ok_def decoder_ok_parts)
  show ?thesis
    unfolding write_key_frame_def
    by (rule frame_followed [where s = s and dc = "dc\<lparr>dc_state := st1\<rparr>" and bs = bs and others = others
          and update = "update_decoder_state_key allow_resize fr" and m = "(unused, en)",
          OF updated(3) ok1(1) _ _ updated(1) pools(2)])
      (use s sized ok1(2) updated(5) bs st1(3,4) in \<open>simp_all add: decode_key_def copies\<close>)
qed


section \<open>A stream of frames\<close>

datatype coded_frame = Key key_frame | Inter inter_frame

fun coded_shown :: "coded_frame \<Rightarrow> bool" where
  "coded_shown (Key fr) = fr_show fr"
| "coded_shown (Inter fr) = fr_show fr"

fun coded_plain :: "u16 \<Rightarrow> u16 \<Rightarrow> coded_frame \<Rightarrow> bool" where
  "coded_plain w h (Key fr) = key_plain w h fr"
| "coded_plain w h (Inter fr) = inter_plain w h fr"

fun write_coded :: "bool \<Rightarrow> coded_frame \<Rightarrow> encoding_machine \<Rightarrow> encoding_machine \<times> bytes result" where
  "write_coded allow_resize (Key fr) = write_key_frame allow_resize fr"
| "write_coded allow_resize (Inter fr) = write_inter_frame allow_resize fr"

text \<open>Running a step on each element of a list, until one throws.\<close>

primrec in_turn :: "('a \<Rightarrow> 's \<Rightarrow> 's \<times> 'b result) \<Rightarrow> 'a list \<Rightarrow> 's \<Rightarrow> 's \<times> 'b list result" where
  "in_turn f [] m = (m, Inr [])"
| "in_turn f (x # xs) m =
     (case f x m of (m, r) \<Rightarrow> keeping m r (\<lambda>y. case in_turn f xs m of (m, r) \<Rightarrow> keeping m r (\<lambda>ys. (m, Inr (y # ys)))))"

definition write_stream :: "bool \<Rightarrow> coded_frame list \<Rightarrow> encoding_machine \<Rightarrow> encoding_machine \<times> bytes list result" where
  "write_stream allow_resize = in_turn (write_coded allow_resize)"

definition decode_stream :: "bool \<Rightarrow> bytes list \<Rightarrow> machine \<Rightarrow> machine \<times> (bool \<times> planes) list result" where
  "decode_stream allow_resize = in_turn (\<lambda>bs. get_frame_output allow_resize (chunk_of bs))"

lemma coded_followed:
  assumes "encoder_ok en" and "in_step en dc" and "ds_width (en_state en) = w" "ds_height (en_state en) = h"
    and "coded_plain w h c" and "pool_ok w h unused" "pool_ok w h others"
  shows "followed w h (coded_shown c) (write_coded allow_resize c (unused, en))
    (\<lambda>bs. get_frame_output allow_resize (chunk_of bs) (others, dc))"
proof (cases c)
  case (Key fr)
  have "decoder_ok dc" "ds_width (dc_state dc) = w" "ds_height (dc_state dc) = h"
    using assms(1-4) by (simp_all add: in_step_def encoder_ok_def decoder_ok_parts)
  then show ?thesis using assms Key by (simp add: key_frame_followed)
next
  case (Inter fr)
  then show ?thesis using assms by (simp add: inter_frame_followed)
qed

lemma stream_followed:
  assumes "encoder_ok en" and "in_step en dc" and "ds_width (en_state en) = w" and "ds_height (en_state en) = h"
    and "pool_ok w h unused" and "pool_ok w h others" and "list_all (coded_plain w h) cs"
  shows "\<exists>unused' en' bss. write_stream allow_resize cs (unused, en) = ((unused', en'), Inr bss) \<and> length bss = length cs \<and>
    encoder_ok en' \<and>
    ((\<exists>bs\<in>set bss. 2 ^ 19 \<le> length bs) \<or>
     (\<exists>others' dc' out. decode_stream allow_resize bss (others, dc) = ((others', dc'), Inr out) \<and>
        map fst out = map coded_shown cs \<and> in_step en' dc'))"
  using assms
proof (induction cs arbitrary: en dc unused others)
  case Nil
  then show ?case by (simp add: write_stream_def decode_stream_def)
next
  case (Cons c cs)
  let ?put = "write_coded allow_resize c (unused, en)" and ?decode = "\<lambda>bs. get_frame_output allow_resize (chunk_of bs) (others, dc)"
  have "followed w h (coded_shown c) ?put ?decode"
    using Cons.prems by (intro coded_followed) simp_all
  then obtain unused1 en1 bs where step: "?put = ((unused1, en1), Inr bs)" "pool_ok w h unused1" "encoder_ok en1"
    "ds_width (en_state en1) = w" "ds_height (en_state en1) = h"
    "length bs < 2 ^ 19 \<longrightarrow> (\<exists>others1 dc1 s. ?decode bs = ((others1, dc1), Inr (coded_shown c, s)) \<and> pool_ok w h others1 \<and> in_step en1 dc1)"
    unfolding followed_def by blast
  have rest: "list_all (coded_plain w h) cs" using Cons.prems(7) by simp
  show ?case
  proof (cases "length bs < 2 ^ 19")
    case True
    then obtain others1 dc1 s where d: "?decode bs = ((others1, dc1), Inr (coded_shown c, s))" "pool_ok w h others1" "in_step en1 dc1"
      using step(6) by blast
    from Cons.IH [OF step(3) d(3) step(4,5,2) d(2) rest] step(1) d(1) show ?thesis
      by (fastforce simp: write_stream_def decode_stream_def)
  next
    case False
    have "in_step en1 (export_decoder en1)" by (simp add: in_step_def)
    from Cons.IH [OF step(3) this step(4,5,2) Cons.prems(6) rest] step(1) False show ?thesis
      by (fastforce simp: write_stream_def)
  qed
qed


section \<open>Properties\<close>

text \<open>C2: The decoder follows the encoder.  From states that agree, whatever key and inter frames without
  segmentation the encoder writes, \<open>write_frame\<close> returns bytes for each of them, and a decoder that is given
  these bytes in order decodes every one of them and ends in the state and with the references that the encoder
  ends with (so that the hashes by which sender and receiver name states agree), unless some frame exceeds the
  19-bit length field.  The encoder and the decoder may use different pools of rasters.\<close>

theorem decoder_follows_encoder:
  assumes "encoder_ok en" and "in_step en dc" and "list_all (coded_plain (ds_width (en_state en)) (ds_height (en_state en))) frames"
    and "pool_ok (ds_width (en_state en)) (ds_height (en_state en)) unused"
    and "pool_ok (ds_width (en_state en)) (ds_height (en_state en)) others"
  shows "\<exists>unused' en' bss. write_stream allow_resize frames (unused, en) = ((unused', en'), Inr bss) \<and>
    length bss = length frames \<and> encoder_ok en' \<and>
    ((\<exists>bs\<in>set bss. 2 ^ 19 \<le> length bs) \<or>
     (\<exists>others' dc' out. decode_stream allow_resize bss (others, dc) = ((others', dc'), Inr out) \<and>
        map fst out = map coded_shown frames \<and>
        dc_state dc' = en_state en' \<and> dc_references dc' = en_references en' \<and>
        decoder_minihash hs dc' = encoder_minihash hs en'))"
  using stream_followed [OF assms(1,2) refl refl assms(4,5,3), of allow_resize]
  unfolding in_step_def decoder_minihash_def encoder_minihash_def by fastforce

text \<open>A key frame followed by an inter frame.\<close>

definition plain_inter_frame :: inter_frame where
  "plain_inter_frame = example_inter_frame\<lparr>fr_header := plain_inter_header\<lparr>ih_update_segmentation := None\<rparr>\<rparr>"

lemma plain_inter_ok: "inter_frame_ok plain_inter_frame"
  using example_frames_ok(2)
  by (simp add: inter_frame_ok_def plain_inter_frame_def example_inter_frame_def frame_shape_ok_def plain_inter_header_def
      inter_frame_header_ok_def inter_frame_header_supported_def inter_macroblocks_ok_def frame_ok_def inter_params_def
      inter_mb_ok_def core_ok_def updates_map_def fresh_macroblock_def example_size
      imh_ok_def imh_core_def flipped_for_def imh_reference_def get_or_def)

lemma example_stream_plain: "list_all (coded_plain 16 9) [Key example_key_frame, Inter plain_inter_frame]"
  using plain_inter_ok example_frames_ok(1)
  by (simp add: key_plain_def inter_plain_def unsegmented_def plain_inter_frame_def example_inter_frame_def example_key_frame_def
      plain_key_header_def)

text \<open>Hashing by addition, with nothing between the arrays, for examples.\<close>

definition adding :: hashing where
  "adding = \<lparr>hs_combine = (+), hs_between_arrays = (\<lambda>_. [])\<rparr>"

theorem decoder_follows_encoder_witness:
  "\<exists>en unused' en' bss. encoder_of_decoder blank_decoder True BEST_QUALITY = Inr en \<and>
    write_stream False [Key example_key_frame, Inter plain_inter_frame] ([], en) = ((unused', en'), Inr bss) \<and> length bss = 2 \<and>
    ((\<exists>bs\<in>set bss. 2 ^ 19 \<le> length bs) \<or>
     (\<exists>others' dc' out. decode_stream False bss ([], blank_decoder) = ((others', dc'), Inr out) \<and> map fst out = [True, False] \<and>
        dc_state dc' = en_state en' \<and> dc_references dc' = en_references en' \<and>
        decoder_minihash adding dc' = encoder_minihash adding en'))"
proof -
  obtain safe where "load_safe_references (references_of blank_planes) = Inr safe"
    using safe_references_load blank_decoder_ok unfolding decoder_ok_def by fastforce
  then obtain en where en: "encoder_of_decoder blank_decoder True BEST_QUALITY = Inr en"
    "en_state en = decoder_state_init 16 9" "en_references en = references_of blank_planes"
    by (simp add: encoder_of_decoder_def)
  have "encoder_ok en" using blank_decoder_ok en(2,3) by (simp add: encoder_ok_def decoder_ok_parts) (simp add: decoder_state_init_def)
  moreover have "in_step en blank_decoder" using en(2,3) by (simp add: in_step_def)
  moreover have "list_all (coded_plain (ds_width (en_state en)) (ds_height (en_state en))) [Key example_key_frame, Inter plain_inter_frame]"
    using example_stream_plain unfolding en(2) blank_decoder_fields .
  moreover have "pool_ok (ds_width (en_state en)) (ds_height (en_state en)) []" by (simp add: pool_ok_def)
  moreover note this
  ultimately have "\<exists>unused' en' bss. write_stream False [Key example_key_frame, Inter plain_inter_frame] ([], en) = ((unused', en'), Inr bss) \<and>
    length bss = length [Key example_key_frame, Inter plain_inter_frame] \<and> encoder_ok en' \<and>
    ((\<exists>bs\<in>set bss. 2 ^ 19 \<le> length bs) \<or>
     (\<exists>others' dc' out. decode_stream False bss ([], blank_decoder) = ((others', dc'), Inr out) \<and>
        map fst out = map coded_shown [Key example_key_frame, Inter plain_inter_frame] \<and>
        dc_state dc' = en_state en' \<and> dc_references dc' = en_references en' \<and>
        decoder_minihash adding dc' = encoder_minihash adding en'))"
    by (rule decoder_follows_encoder)
  moreover have shown: "map coded_shown [Key example_key_frame, Inter plain_inter_frame] = [True, False]"
    "length [Key example_key_frame, Inter plain_inter_frame] = 2"
    by (simp_all add: example_key_frame_def plain_inter_frame_def example_inter_frame_def)
  ultimately obtain unused' en' bss where run:
    "write_stream False [Key example_key_frame, Inter plain_inter_frame] ([], en) = ((unused', en'), Inr bss)" "length bss = 2"
    "(\<exists>bs\<in>set bss. 2 ^ 19 \<le> length bs) \<or>
     (\<exists>others' dc' out. decode_stream False bss ([], blank_decoder) = ((others', dc'), Inr out) \<and> map fst out = [True, False] \<and>
        dc_state dc' = en_state en' \<and> dc_references dc' = en_references en' \<and>
        decoder_minihash adding dc' = encoder_minihash adding en')"
    unfolding shown by (elim exE conjE) (rule that)
  show ?thesis by (intro exI [of _ en] exI [of _ unused'] exI [of _ en'] exI [of _ bss] conjI en(1) run)
qed

end
