(* ===== verification/Quantizer_Search.thy ===== *)
theory Quantizer_Search
  imports Encoder_State
begin

text \<open>
  How the encoder chooses the quantizer of a frame (\<open>encode_with_target_size\<close>, \<open>encode_with_quantizer_search\<close>
  and \<open>encode_with_quantizer\<close> of src/src/encoder/encoder.cc).  What an attempt costs or yields is a parameter,
  a step on the state of the encoder; the searches are the code's.
\<close>

section \<open>A frame of at most a given size\<close>

definition no_quantizer :: u8 where "no_quantizer = 255"

text \<open>The loop: bounds of the search and the best quantizer so far.\<close>

function search_size :: "(u8 \<Rightarrow> 's \<Rightarrow> nat \<times> 's) \<Rightarrow> nat \<Rightarrow> int \<Rightarrow> int \<Rightarrow> u8 \<Rightarrow> 's \<Rightarrow> u8 \<times> 's" where
  "search_size estimate target y_qi_min y_qi_max found st =
     (if y_qi_min \<le> y_qi_max then
        let y_qi = (y_qi_min + y_qi_max) div 2; (size, st) = estimate (word_of_int y_qi) st in
        if size \<le> target \<or> (y_qi_min = y_qi_max \<and> found = no_quantizer)
        then search_size estimate target y_qi_min (y_qi - 1) (word_of_int y_qi) st
        else search_size estimate target (y_qi + 1) y_qi_max found st
      else (found, st))"
  by pat_completeness auto

termination
  by (relation "measure (\<lambda>(estimate, target, lo, hi, best, st). nat (hi - lo + 1))") auto

declare search_size.simps [simp del]

definition search_range :: "u8 option \<Rightarrow> int \<times> int" where
  "search_range last_y_ac_qi =
     (case last_y_ac_qi of
        None \<Rightarrow> (4, 127)
      | Some q \<Rightarrow> ((if uint q - 16 \<ge> 4 then uint q - 16 else 4), min 127 (uint q + 16)))"

definition target_size_quantizer :: "(u8 \<Rightarrow> 's \<Rightarrow> nat \<times> 's) \<Rightarrow> nat \<Rightarrow> u8 option \<Rightarrow> 's \<Rightarrow> u8 \<times> 's" where
  "target_size_quantizer estimate target last_y_ac_qi st =
     (case search_range last_y_ac_qi of (lo, hi) \<Rightarrow> search_size estimate target lo hi no_quantizer st)"

lemma search_range_bounds:
  assumes "ok_option (\<lambda>q. q \<le> 127) lst" and "search_range lst = (lo, hi)"
  shows "4 \<le> lo \<and> lo \<le> hi \<and> hi \<le> 127"
  using assms by (auto simp: search_range_def word_le_def split: option.splits if_splits)

text \<open>What the search finds when the size depends on the quantizer alone and does not grow with it: the
  finest quantizer of the range that fits, or the coarsest of the range.\<close>

definition finest_fitting :: "(int \<Rightarrow> nat) \<Rightarrow> nat \<Rightarrow> int \<Rightarrow> int \<Rightarrow> int \<Rightarrow> bool" where
  "finest_fitting f target lo hi q \<longleftrightarrow>
     lo \<le> q \<and> q \<le> hi \<and> (\<forall>p. lo \<le> p \<and> p < q \<longrightarrow> target < f p) \<and> (f q \<le> target \<or> q = hi)"

definition searched :: "(int \<Rightarrow> nat) \<Rightarrow> nat \<Rightarrow> int \<Rightarrow> int \<Rightarrow> int \<Rightarrow> int \<Rightarrow> u8 \<Rightarrow> bool" where
  "searched f target lo0 hi0 lo hi found \<longleftrightarrow>
     4 \<le> lo0 \<and> lo0 \<le> lo \<and> lo \<le> hi + 1 \<and> hi \<le> hi0 \<and> hi0 \<le> 127 \<and> (\<forall>p. lo0 \<le> p \<and> p < lo \<longrightarrow> target < f p) \<and>
     (if found = no_quantizer then lo \<le> hi \<and> hi = hi0 else uint found = hi + 1 \<and> hi < hi0 \<and> (f (hi + 1) \<le> target \<or> hi + 1 = hi0))"

lemma octet_value: "0 \<le> q \<Longrightarrow> q \<le> 127 \<Longrightarrow> uint (word_of_int q :: u8) = q \<and> (word_of_int q :: u8) \<noteq> no_quantizer"
proof -
  assume q: "0 \<le> q" "q \<le> 127"
  then have "uint (word_of_int q :: u8) = q" by (simp add: uint_word_of_int)
  then show ?thesis using q by (auto simp: no_quantizer_def)
qed

lemma search_size_finds:
  assumes "\<And>q st. fst (estimate q st) = f (uint q)" and "\<And>p q. p \<le> q \<Longrightarrow> f q \<le> f p"
    and "searched f target lo0 hi0 lo hi found"
  shows "finest_fitting f target lo0 hi0 (uint (fst (search_size estimate target lo hi found st)))"
  using assms(3)
proof (induction "nat (hi - lo + 1)" arbitrary: lo hi found st rule: less_induct)
  case less
  note inv = less.prems [unfolded searched_def]
  show ?case
  proof (cases "lo \<le> hi")
    case False
    then have "hi + 1 = lo" "found \<noteq> no_quantizer" using inv by auto
    then show ?thesis using inv by (subst search_size.simps) (auto simp: finest_fitting_def)
  next
    case True
    let ?q = "(lo + hi) div 2"
    have q: "lo \<le> ?q" "?q \<le> hi" using True by simp_all
    then have u: "uint (word_of_int ?q :: u8) = ?q" "(word_of_int ?q :: u8) \<noteq> no_quantizer"
      using octet_value [of ?q] inv by simp_all
    obtain st' where e: "estimate (word_of_int ?q) st = (f ?q, st')" using assms(1) [of "word_of_int ?q" st] u(1) by (cases "estimate (word_of_int ?q) st") auto
    show ?thesis
    proof (cases "f ?q \<le> target \<or> (lo = hi \<and> found = no_quantizer)")
      case fits: True
      have "search_size estimate target lo hi found st = search_size estimate target lo (?q - 1) (word_of_int ?q) st'"
        using True fits e by (subst search_size.simps) (simp add: Let_def)
      moreover have "searched f target lo0 hi0 lo (?q - 1) (word_of_int ?q)"
        using fits inv q u True by (auto simp: searched_def split: if_splits)
      ultimately show ?thesis using less.hyps [of "?q - 1" lo] q by simp
    next
      case larger: False
      have "search_size estimate target lo hi found st = search_size estimate target (?q + 1) hi found st'"
        using True larger e by (subst search_size.simps) (auto simp: Let_def)
      moreover have "target < f p" if "p \<le> ?q" for p using larger assms(2) [OF that] by simp
      then have "searched f target lo0 hi0 (?q + 1) hi found"
        using larger inv q by (auto simp: searched_def split: if_splits)
      ultimately show ?thesis using less.hyps [of hi "?q + 1"] q by simp
    qed
  qed
qed

lemma search_size_in_range:
  assumes "4 \<le> lo" and "hi \<le> 127" and "found = no_quantizer \<longrightarrow> lo \<le> hi"
  shows "(fst (search_size estimate target lo hi found st) = found \<and> found \<noteq> no_quantizer) \<or>
    (lo \<le> uint (fst (search_size estimate target lo hi found st)) \<and> uint (fst (search_size estimate target lo hi found st)) \<le> hi)"
  using assms
proof (induction "nat (hi - lo + 1)" arbitrary: lo hi found st rule: less_induct)
  case less
  let ?r = "fst (search_size estimate target lo hi found st)"
  show ?case
  proof (cases "lo \<le> hi")
    case False
    then show ?thesis using less.prems by (subst (1 2 3) search_size.simps) simp
  next
    case True
    let ?q = "(lo + hi) div 2"
    obtain sz st' where e: "estimate (word_of_int ?q) st = (sz, st')" by fastforce
    have q: "lo \<le> ?q" "?q \<le> hi" using True by simp_all
    then have u: "uint (word_of_int ?q :: u8) = ?q" "(word_of_int ?q :: u8) \<noteq> no_quantizer"
      using octet_value [of ?q] less.prems by simp_all
    show ?thesis
    proof (cases "sz \<le> target \<or> (lo = hi \<and> found = no_quantizer)")
      case fits: True
      have "?r = fst (search_size estimate target lo (?q - 1) (word_of_int ?q) st')"
        using True fits e by (subst search_size.simps) (simp add: Let_def)
      then show ?thesis using less.hyps [of "?q - 1" lo "word_of_int ?q" st'] less.prems q u by auto
    next
      case larger: False
      have "?r = fst (search_size estimate target (?q + 1) hi found st')"
        using True larger e by (subst search_size.simps) (auto simp: Let_def)
      moreover have "found = no_quantizer \<longrightarrow> ?q + 1 \<le> hi" using larger True by auto
      ultimately show ?thesis using less.hyps [of hi "?q + 1" found st'] less.prems q by auto
    qed
  qed
qed


section \<open>A frame of at least a given quality\<close>

text \<open>\<open>encode_raster\<close> reports a quality only where it is asked to compute it, and 0 elsewhere.\<close>

definition reported_quality :: "bool \<Rightarrow> 'q :: zero \<Rightarrow> 'q" where
  "reported_quality compute_ssim quality = (if compute_ssim then quality else 0)"

text \<open>The loop of \<open>encode_with_quantizer_search\<close>, on an attempt that yields a quality; the attempts ask for the
  state to be updated, and not for the quality.  Qualities are floating-point numbers in the code; here they are
  of any linear order.\<close>

function search_quality ::
  "(u8 \<Rightarrow> bool \<Rightarrow> bool \<Rightarrow> 's \<Rightarrow> 'q :: {linorder, zero} \<times> 's) \<Rightarrow> 'q \<Rightarrow> int \<Rightarrow> int \<Rightarrow> bool \<Rightarrow> u8 \<Rightarrow> 's \<Rightarrow> u8 \<times> 's" where
  "search_quality encode_raster minimum y_ac_qi_min y_ac_qi_max found best_y_ac_qi st =
     (if y_ac_qi_min \<le> y_ac_qi_max then
        let y_ac_qi = (y_ac_qi_min + y_ac_qi_max) div 2;
            (current, st) = encode_raster (word_of_int y_ac_qi) True False st;
            take = (minimum \<le> current \<or> (y_ac_qi_min = y_ac_qi_max \<and> \<not> found));
            found = (found \<or> take);
            best_y_ac_qi = (if take then word_of_int y_ac_qi else best_y_ac_qi)
        in if y_ac_qi_min = y_ac_qi_max then (best_y_ac_qi, st)
           else if current < minimum
           then search_quality encode_raster minimum y_ac_qi_min (y_ac_qi - 1) found best_y_ac_qi st
           else search_quality encode_raster minimum (y_ac_qi + 1) y_ac_qi_max found best_y_ac_qi st
      else (best_y_ac_qi, st))"
  by pat_completeness auto

termination
  by (relation "measure (\<lambda>(encode_raster, minimum, lo, hi, found, best, st). nat (hi - lo + 1))") auto

declare search_quality.simps [simp del]

definition minimum_quality_quantizer ::
  "(u8 \<Rightarrow> bool \<Rightarrow> bool \<Rightarrow> 's \<Rightarrow> 'q :: {linorder, zero} \<times> 's) \<Rightarrow> 'q \<Rightarrow> 's \<Rightarrow> u8 \<times> 's" where
  "minimum_quality_quantizer encode_raster minimum st = search_quality encode_raster minimum 0 127 False 0 st"


section \<open>The encoder's entry points\<close>

definition quantizer_indices :: "u8 \<Rightarrow> quant_indices" where
  "quantizer_indices y_ac_qi =
     \<lparr>qi_y_ac_qi = y_ac_qi, qi_y_dc = None, qi_y2_dc = None, qi_y2_ac = None, qi_uv_dc = None, qi_uv_ac = None\<rparr>"

definition same_dimensions :: "u16 \<Rightarrow> u16 \<Rightarrow> encoder \<Rightarrow> bool" where
  "same_dimensions display_width display_height en \<longleftrightarrow>
     ds_width (en_state en) = display_width \<and> ds_height (en_state en) = display_height"

text \<open>The raster, of which the dimensions are checked here, is an argument of the two functions that make a
  frame of it.\<close>

definition encode_with_quantizer ::
  "bool \<Rightarrow> (quant_indices \<Rightarrow> encoding_machine \<Rightarrow> encoding_machine \<times> key_frame result) \<Rightarrow>
   (quant_indices \<Rightarrow> encoding_machine \<Rightarrow> encoding_machine \<times> inter_frame result) \<Rightarrow>
   u16 \<Rightarrow> u16 \<Rightarrow> u8 \<Rightarrow> encoding_machine \<Rightarrow> encoding_machine \<times> bytes result" where
  "encode_with_quantizer allow_resize encode_key encode_inter display_width display_height y_ac_qi m =
     keeping m (check (same_dimensions display_width display_height (snd m)) Runtime_error) (\<lambda>_.
     if \<not> en_has_state (snd m) then
       (let m = (fst m, (snd m)\<lparr>en_has_state := True\<rparr>) in
        case encode_key (quantizer_indices y_ac_qi) m of (m, r) \<Rightarrow> keeping m r (\<lambda>fr. write_key_frame allow_resize fr m))
     else
       (case encode_inter (quantizer_indices y_ac_qi) m of (m, r) \<Rightarrow> keeping m r (\<lambda>fr. write_inter_frame allow_resize fr m)))"

definition encode_with_target_size ::
  "bool \<Rightarrow> (quant_indices \<Rightarrow> encoding_machine \<Rightarrow> encoding_machine \<times> key_frame result) \<Rightarrow>
   (quant_indices \<Rightarrow> encoding_machine \<Rightarrow> encoding_machine \<times> inter_frame result) \<Rightarrow>
   (u8 \<Rightarrow> encoding_machine \<Rightarrow> nat \<times> encoding_machine) \<Rightarrow>
   u16 \<Rightarrow> u16 \<Rightarrow> nat \<Rightarrow> encoding_machine \<Rightarrow> encoding_machine \<times> bytes result" where
  "encode_with_target_size allow_resize encode_key encode_inter estimate_frame_size display_width display_height target m =
     keeping m (check (same_dimensions display_width display_height (snd m)) Runtime_error) (\<lambda>_.
     case target_size_quantizer estimate_frame_size target (en_last_y_ac_qi (snd m)) m of (y_qi, m) \<Rightarrow>
     encode_with_quantizer allow_resize encode_key encode_inter display_width display_height y_qi m)"

definition encode_with_minimum_ssim ::
  "bool \<Rightarrow> (quant_indices \<Rightarrow> encoding_machine \<Rightarrow> encoding_machine \<times> key_frame result) \<Rightarrow>
   (quant_indices \<Rightarrow> encoding_machine \<Rightarrow> encoding_machine \<times> inter_frame result) \<Rightarrow>
   (u8 \<Rightarrow> bool \<Rightarrow> bool \<Rightarrow> encoding_machine \<Rightarrow> 'q :: {linorder, zero} \<times> encoding_machine) \<Rightarrow>
   (u8 \<Rightarrow> bool \<Rightarrow> bool \<Rightarrow> encoding_machine \<Rightarrow> 'q \<times> encoding_machine) \<Rightarrow>
   u16 \<Rightarrow> u16 \<Rightarrow> 'q \<Rightarrow> encoding_machine \<Rightarrow> encoding_machine \<times> bytes result" where
  "encode_with_minimum_ssim allow_resize encode_key encode_inter try_key try_inter display_width display_height minimum m =
     keeping m (check (same_dimensions display_width display_height (snd m)) Runtime_error) (\<lambda>_.
     if \<not> en_has_state (snd m) then
       (let m = (fst m, (snd m)\<lparr>en_has_state := True\<rparr>) in
        case minimum_quality_quantizer try_key minimum m of (y_ac_qi, m) \<Rightarrow>
        case encode_key (quantizer_indices y_ac_qi) m of (m, r) \<Rightarrow> keeping m r (\<lambda>fr. write_key_frame allow_resize fr m))
     else
       (case minimum_quality_quantizer try_inter minimum m of (y_ac_qi, m) \<Rightarrow>
        case encode_inter (quantizer_indices y_ac_qi) m of (m, r) \<Rightarrow> keeping m r (\<lambda>fr. write_inter_frame allow_resize fr m)))"


section \<open>Properties\<close>

lemma start_searched:
  "ok_option (\<lambda>q. q \<le> 127) lst \<Longrightarrow> search_range lst = (lo, hi) \<Longrightarrow> searched f target lo hi lo hi no_quantizer"
  using search_range_bounds [of lst lo hi] by (simp add: searched_def)

text \<open>C18: The search for a frame of a given size is within its range and finds the best quantizer.  With the
  last quantizer being one, the result is a quantizer of the range around it, never the sentinel 255, whatever
  the estimates are; where the estimated size depends on the quantizer alone and never grows with it, the result
  is the finest quantizer of the range whose frame fits, or the coarsest if none does.\<close>

theorem target_size_quantizer_spec:
  assumes "ok_option (\<lambda>q. q \<le> 127) last_y_ac_qi" and "search_range last_y_ac_qi = (lo, hi)"
  shows "4 \<le> lo \<and> hi \<le> 127 \<and> lo \<le> uint (fst (target_size_quantizer estimate target last_y_ac_qi st)) \<and>
    uint (fst (target_size_quantizer estimate target last_y_ac_qi st)) \<le> hi \<and>
    ((\<forall>q st. fst (estimate q st) = f (uint q)) \<and> antimono f \<longrightarrow>
      finest_fitting f target lo hi (uint (fst (target_size_quantizer estimate target last_y_ac_qi st))))"
proof -
  have bounds: "4 \<le> lo \<and> lo \<le> hi \<and> hi \<le> 127" by (rule search_range_bounds [OF assms])
  have "finest_fitting f target lo hi (uint (fst (target_size_quantizer estimate target last_y_ac_qi st)))"
    if "\<forall>q st. fst (estimate q st) = f (uint q)" "antimono f"
    using search_size_finds [of estimate f target lo hi lo hi no_quantizer st] start_searched [OF assms] that
    by (simp add: target_size_quantizer_def assms(2) antimonoD)
  moreover have "lo \<le> uint (fst (search_size estimate target lo hi no_quantizer st)) \<and>
      uint (fst (search_size estimate target lo hi no_quantizer st)) \<le> hi"
    using search_size_in_range [of lo hi no_quantizer estimate target st] bounds by simp
  ultimately show ?thesis using bounds by (simp add: target_size_quantizer_def assms(2))
qed

theorem target_size_quantizer_spec_witness:
  "finest_fitting (\<lambda>q. nat (1000 - q)) 970 14 46
     (uint (fst (target_size_quantizer (\<lambda>q (st :: unit). (nat (1000 - uint q), st)) 970 (Some 30) ())))"
proof -
  have range: "search_range (Some 30) = (14, 46)" by (simp add: search_range_def)
  have last: "ok_option (\<lambda>q. q \<le> (127 :: u8)) (Some 30)" by simp
  have "antimono (\<lambda>q :: int. nat (1000 - q))" by (rule antimonoI) simp
  then show ?thesis
    using target_size_quantizer_spec [OF last range, of "\<lambda>q (st :: unit). (nat (1000 - uint q), st)" 970 "()" "\<lambda>q. nat (1000 - q)"]
    by simp
qed

lemma blind_search:
  assumes "\<And>q st. fst (encode_raster q True False st) = 0"
  shows "0 < minimum \<Longrightarrow> hi \<le> 127 \<Longrightarrow> fst (search_quality encode_raster minimum 0 hi False 0 st) = 0"
    and "\<not> 0 < minimum \<Longrightarrow> lo \<le> hi \<Longrightarrow> hi \<le> 127 \<Longrightarrow>
      fst (search_quality encode_raster minimum lo hi found best_y_ac_qi st) = word_of_int hi"
proof -
  have result: "\<exists>st'. encode_raster q True False st = (0, st')" for q st
    using assms [of q st] by (cases "encode_raster q True False st") auto
  show "0 < minimum \<Longrightarrow> hi \<le> 127 \<Longrightarrow> fst (search_quality encode_raster minimum 0 hi False 0 st) = 0"
  proof (induction "nat (hi + 1)" arbitrary: hi st rule: less_induct)
    case less
    obtain st' where e: "encode_raster (word_of_int (hi div 2)) True False st = (0, st')" using result by blast
    consider "hi < 0" | "hi = 0" | "0 < hi" by linarith
    then show ?case
    proof cases
      case 3
      then have "search_quality encode_raster minimum 0 hi False 0 st = search_quality encode_raster minimum 0 (hi div 2 - 1) False 0 st'"
        using e less.prems by (subst search_quality.simps) (auto simp: Let_def)
      then show ?thesis using less.hyps [of "hi div 2 - 1" st'] less.prems 3 by simp
    qed (use e in \<open>(subst search_quality.simps, simp add: Let_def)+\<close>)
  qed
  show "\<not> 0 < minimum \<Longrightarrow> lo \<le> hi \<Longrightarrow> hi \<le> 127 \<Longrightarrow>
      fst (search_quality encode_raster minimum lo hi found best_y_ac_qi st) = word_of_int hi"
  proof (induction "nat (hi - lo)" arbitrary: lo found best_y_ac_qi st rule: less_induct)
    case less
    then have minimum: "minimum \<le> 0" by simp
    let ?q = "(lo + hi) div 2"
    obtain st' where e: "encode_raster (word_of_int ?q) True False st = (0, st')" using result by blast
    show ?case
    proof (cases "lo = hi")
      case True
      then show ?thesis using e less.prems minimum by (subst search_quality.simps) (simp add: Let_def)
    next
      case False
      then have "search_quality encode_raster minimum lo hi found best_y_ac_qi st
          = search_quality encode_raster minimum (?q + 1) hi True (word_of_int ?q) st'"
        using e less.prems minimum by (subst search_quality.simps) (simp add: Let_def)
      then show ?thesis using less.hyps [of "?q + 1" True "word_of_int ?q" st'] less.prems False by simp
    qed
  qed
qed

text \<open>C21: The search for a frame of at least a given quality is blind.  Its attempts never ask \<open>encode_raster\<close>
  for the quality, so that they all report 0: whatever the qualities are, the search ends at the finest quantizer
  for every positive minimum and at the coarsest otherwise.\<close>

theorem minimum_quality_search_blind:
  fixes minimum :: "'q :: {linorder, zero}"
  shows "fst (minimum_quality_quantizer (\<lambda>q update_state compute_ssim st. (reported_quality compute_ssim (quality q st), attempt q st))
      minimum st) = (if 0 < minimum then 0 else 127)"
  using blind_search [where hi = 127 and minimum = minimum and st = st
      and encode_raster = "\<lambda>q update_state compute_ssim st. (reported_quality compute_ssim (quality q st), attempt q st)"]
  by (simp add: minimum_quality_quantizer_def reported_quality_def)

end
