(* ===== verification/Live_Session.thy ===== *)
theory Live_Session
  imports Session Quantizer_Search
begin

text \<open>
  A session with the VP8 codec at both ends: the sender's encoder (\<open>Encoder::write_frame\<close>) and the receiver's
  \<open>FramePlayer\<close> (src/src/decoder/player.cc), joined by the two programs of \<open>Session\<close>.  The theory interprets
  \<open>stateful_codec\<close> on them.
\<close>

section \<open>The receiver's player\<close>

text \<open>A player is its decoder; the width and height it keeps beside it are read by nothing that the receiver
  does with it.  The rasters that are free when it is called are an argument: a decoder that is restored does
  not bring its pool back.\<close>

definition player_decode :: "bool \<Rightarrow> cached_raster list \<Rightarrow> bytes \<Rightarrow> decoder \<Rightarrow> decoder result" where
  "player_decode allow_resize unused frame player =
     (case parse_and_decode_frame allow_resize (chunk_of frame) (unused, player) of
        ((unused, player), r) \<Rightarrow> bind_result r (\<lambda>raster. Inr player))"


section \<open>The codec\<close>

definition emits :: "bool \<Rightarrow> encoder \<Rightarrow> bytes \<Rightarrow> encoder \<Rightarrow> bool" where
  "emits allow_resize en bs en' \<longleftrightarrow>
     (\<exists>c unused unused'. coded_plain (ds_width (en_state en)) (ds_height (en_state en)) c \<and>
        pool_ok (ds_width (en_state en)) (ds_height (en_state en)) unused \<and>
        write_coded allow_resize c (unused, en) = ((unused', en'), Inr bs) \<and> length bs < 2 ^ 19)"

definition player_follows :: "cached_raster list \<Rightarrow> encoder \<Rightarrow> decoder \<Rightarrow> bool" where
  "player_follows others en dc \<longleftrightarrow>
     encoder_ok en \<and> Encoder_State.in_step en dc \<and> pool_ok (ds_width (en_state en)) (ds_height (en_state en)) others"

lemma keeping_returns: "keeping m r k = (m', Inr y) \<longleftrightarrow> (\<exists>x. r = Inr x \<and> k x = (m', Inr y))"
  by (cases r) simp_all

lemma serialized_nonempty:
  "serialize_key_frame tables kf = Inr bs \<Longrightarrow> bs \<noteq> []"
  "serialize_inter_frame tables nf = Inr bs \<Longrightarrow> bs \<noteq> []"
  by (auto simp: serialize_key_frame_def serialize_inter_frame_def Let_def bind_result_eq_Inr make_frame_def
      frame_tag_def split: if_splits)

lemma write_frame_serializes:
  "write_frame allow_resize update decode loopfilter copy_to level q serialize m = (m', Inr bs) \<Longrightarrow>
    \<exists>m1. update m = (m1, Inr ()) \<and> serialize (ds_probability_tables (en_state (snd m1))) = Inr bs"
  by (auto simp: write_frame_def keeping_returns Let_def split: prod.splits if_splits)

lemma written_nonempty: "write_coded allow_resize c m = (m', Inr bs) \<Longrightarrow> bs \<noteq> []"
  by (cases c) (auto simp: write_key_frame_def write_inter_frame_def dest!: write_frame_serializes serialized_nonempty)

interpretation vp8: stateful_codec "player_decode allow_resize others" "decoder_minihash hs"
  "encoder_minihash hs" "emits allow_resize" "player_follows others"
proof
  fix en bs en' assume "emits allow_resize en bs en'"
  then have "bs \<noteq> []" "length bs < 2 ^ 19" using written_nonempty unfolding emits_def by blast+
  then show "bs \<noteq> [] \<and> fragment_count bs < 2 ^ 16"
    by (simp add: fragment_count_def MAXIMUM_PAYLOAD_def less_mult_imp_div_less)
next
  fix en dc bs en'
  assume follows: "player_follows others en dc" and "emits allow_resize en bs en'"
  then obtain c unused unused' where c: "coded_plain (ds_width (en_state en)) (ds_height (en_state en)) c"
    "pool_ok (ds_width (en_state en)) (ds_height (en_state en)) unused"
    "write_coded allow_resize c (unused, en) = ((unused', en'), Inr bs)" "length bs < 2 ^ 19"
    unfolding emits_def by blast
  have "followed (ds_width (en_state en)) (ds_height (en_state en)) (coded_shown c) (write_coded allow_resize c (unused, en))
      (\<lambda>bs. get_frame_output allow_resize (chunk_of bs) (others, dc))"
    using follows c(1,2) by (intro coded_followed) (simp_all add: player_follows_def)
  then obtain others1 dc1 s where d: "get_frame_output allow_resize (chunk_of bs) (others, dc) = ((others1, dc1), Inr (coded_shown c, s))"
    "encoder_ok en'" "ds_width (en_state en') = ds_width (en_state en)" "ds_height (en_state en') = ds_height (en_state en)"
    "Encoder_State.in_step en' dc1"
    using c(3,4) unfolding followed_def by auto
  then show "\<exists>dc'. player_decode allow_resize others bs dc = Inr dc' \<and> player_follows others en' dc'"
    using follows by (simp add: player_decode_def parse_and_decode_frame_def player_follows_def)
next
  fix en dc assume "player_follows others en dc"
  then show "encoder_minihash hs en = decoder_minihash hs dc"
    by (simp add: player_follows_def Encoder_State.in_step_def encoder_minihash_def decoder_minihash_def)
qed

lemma written_frame:
  assumes "player_follows others en dc"
    and "coded_plain (ds_width (en_state en)) (ds_height (en_state en)) c"
    and "pool_ok (ds_width (en_state en)) (ds_height (en_state en)) unused"
  obtains unused' en' bs where "write_coded allow_resize c (unused, en) = ((unused', en'), Inr bs)"
    "length bs < 2 ^ 19 \<Longrightarrow> emits allow_resize en bs en'"
proof -
  have "followed (ds_width (en_state en)) (ds_height (en_state en)) (coded_shown c) (write_coded allow_resize c (unused, en))
      (\<lambda>bs. get_frame_output allow_resize (chunk_of bs) (others, dc))"
    using assms by (intro coded_followed) (simp_all add: player_follows_def)
  then obtain unused' en' bs where step: "write_coded allow_resize c (unused, en) = ((unused', en'), Inr bs)"
    unfolding followed_def by blast
  show thesis by (rule that [OF step]) (use assms(2,3) step in \<open>auto simp: emits_def\<close>)
qed


section \<open>Properties\<close>

text \<open>C1: A call stays in step.  Whenever sender and receiver stand between two frames with the receiver's
  player in the state of the encoder, the encoder can write any key or inter frame without segmentation; if it
  has less than \<open>2 ^ 19\<close> octets, it can be sent, and once the pacer has let it out, the receiver handles the
  datagrams in whatever order and however often they arrive without failing, its player decodes the frame, and
  sender and receiver stand between two frames again, with the player in the state of the encoder that wrote the
  frame.\<close>

theorem call_stays_in_step:
  assumes "synchronised (player_follows others) (decoder_minihash hs) i i0 en st rv"
    and "coded_plain (ds_width (en_state en)) (ds_height (en_state en)) frame"
    and "pool_ok (ds_width (en_state en)) (ds_height (en_state en)) unused"
    and "sd_frame_no st + 1 \<noteq> 0"
  shows "\<exists>unused' en' bs. write_coded allow_resize frame (unused, en) = ((unused', en'), Inr bs) \<and>
    (2 ^ 19 \<le> length bs \<or>
     (\<exists>st1. send_output (encoder_minihash hs) c control inp
          \<lparr>eo_encoder = en', eo_frame = bs, eo_source_minihash = encoder_minihash hs en, eo_job_name = name, eo_y_ac_qi = q\<rparr>
          st = Some (Inr st1) \<and>
        (\<forall>now0 now stamp ds st2 arrivals. out_handler now0 now stamp st1 = Inr (ds, st2) \<longrightarrow> sd_pacer st2 = [] \<longrightarrow>
           (snd \<circ> snd \<circ> snd) ` set arrivals = set ds \<longrightarrow>
           (\<exists>rv'. handle_datagrams (player_decode allow_resize others) (decoder_minihash hs) c i0 arrivals rv = Inr rv' \<and>
              synchronised (player_follows others) (decoder_minihash hs) i i0 en' st2 rv'))))"
proof -
  have "player_follows others en (rv_player rv)" using assms(1) by (simp add: synchronised_def)
  from written_frame [OF this assms(2,3), of allow_resize] obtain unused' en' bs where
    step: "write_coded allow_resize frame (unused, en) = ((unused', en'), Inr bs)"
    and emitted: "length bs < 2 ^ 19 \<Longrightarrow> emits allow_resize en bs en'" by metis
  let ?out = "\<lparr>eo_encoder = en', eo_frame = bs, eo_source_minihash = encoder_minihash hs en, eo_job_name = name, eo_y_ac_qi = q\<rparr>"
  have sent: "\<exists>st1. send_output (encoder_minihash hs) c control inp ?out st = Some (Inr st1) \<and>
      (\<forall>now0 now stamp ds st2 arrivals. out_handler now0 now stamp st1 = Inr (ds, st2) \<longrightarrow> sd_pacer st2 = [] \<longrightarrow>
         (snd \<circ> snd \<circ> snd) ` set arrivals = set ds \<longrightarrow>
         (\<exists>rv'. handle_datagrams (player_decode allow_resize others) (decoder_minihash hs) c i0 arrivals rv = Inr rv' \<and>
            synchronised (player_follows others) (decoder_minihash hs) i i0 (eo_encoder ?out) st2 rv'))"
    if "length bs < 2 ^ 19"
    by (rule vp8.stays_synchronised [OF assms(1) _ _ assms(4)]) (use emitted that in simp_all)
  show ?thesis
    using sent by (intro exI [of _ unused'] exI [of _ en'] exI [of _ bs] conjI step) (simp add: linorder_not_le [symmetric], argo)
qed

lemma blank_call:
  assumes "encoder_of_decoder blank_decoder True BEST_QUALITY = Inr en"
  shows "en_state en = decoder_state_init 16 9" "en_references en = references_of blank_planes"
    "player_follows [] en blank_decoder"
    "synchronised (player_follows []) (decoder_minihash adding) (encoder_minihash adding en) (decoder_minihash adding blank_decoder)
      en (sender_init (encoder_minihash adding) 0 en :: (unit, encoder) sender) (receiver_init (decoder_minihash adding) 5 blank_decoder)"
proof -
  show en: "en_state en = decoder_state_init 16 9" "en_references en = references_of blank_planes"
    using assms by (auto simp: encoder_of_decoder_def bind_result_eq_Inr)
  have "encoder_ok en"
    using blank_decoder_ok en by (simp add: encoder_ok_def decoder_ok_parts) (simp add: decoder_state_init_def)
  then show follows: "player_follows [] en blank_decoder"
    using en by (simp add: player_follows_def Encoder_State.in_step_def pool_ok_def)
  have "sender_ok (encoder_minihash adding en) (sender_init (encoder_minihash adding) 0 en :: (unit, encoder) sender)"
    by (rule sender_ok_init)
  with follows show "synchronised (player_follows []) (decoder_minihash adding) (encoder_minihash adding en) (decoder_minihash adding blank_decoder)
      en (sender_init (encoder_minihash adding) 0 en :: (unit, encoder) sender) (receiver_init (decoder_minihash adding) 5 blank_decoder)"
    using vp8.same_hash [OF follows, of adding]
    by (simp add: synchronised_def Receiver.in_step_def believed_state_def sender_init_def receiver_init_def)
qed

theorem call_stays_in_step_witness:
  "\<exists>en unused' en' bs. encoder_of_decoder blank_decoder True BEST_QUALITY = Inr en \<and>
    write_coded False (Key example_key_frame) ([], en) = ((unused', en'), Inr bs) \<and>
    (2 ^ 19 \<le> length bs \<or>
     (\<exists>st1. send_output (encoder_minihash adding) 1 Origin example_inputs
          \<lparr>eo_encoder = en', eo_frame = bs, eo_source_minihash = encoder_minihash adding en, eo_job_name = ''improve'', eo_y_ac_qi = 3\<rparr>
          (sender_init (encoder_minihash adding) 0 en :: (unit, encoder) sender) = Some (Inr st1) \<and>
        (\<forall>now0 now stamp ds st2 arrivals. out_handler now0 now stamp st1 = Inr (ds, st2) \<longrightarrow> sd_pacer st2 = [] \<longrightarrow>
           (snd \<circ> snd \<circ> snd) ` set arrivals = set ds \<longrightarrow>
           (\<exists>rv'. handle_datagrams (player_decode False []) (decoder_minihash adding) 1 (decoder_minihash adding blank_decoder)
                arrivals (receiver_init (decoder_minihash adding) 5 blank_decoder) = Inr rv' \<and>
              synchronised (player_follows []) (decoder_minihash adding) (encoder_minihash adding en) (decoder_minihash adding blank_decoder)
                en' st2 rv'))))"
proof -
  obtain safe where "load_safe_references (references_of blank_planes) = Inr safe"
    using safe_references_load blank_decoder_ok unfolding decoder_ok_def by fastforce
  then obtain en where en: "encoder_of_decoder blank_decoder True BEST_QUALITY = Inr en"
    by (simp add: encoder_of_decoder_def)
  have plain: "coded_plain (ds_width (en_state en)) (ds_height (en_state en)) (Key example_key_frame)"
    "pool_ok (ds_width (en_state en)) (ds_height (en_state en)) []"
    using example_stream_plain unfolding blank_call(1) [OF en] by (simp_all add: decoder_state_init_def pool_ok_def)
  have first: "sd_frame_no (sender_init (encoder_minihash adding) 0 en :: (unit, encoder) sender) + 1 \<noteq> 0"
    by (simp add: sender_init_def)
  show ?thesis
    by (rule exI [of _ en], simp only: ex_simps, intro conjI en)
      (rule call_stays_in_step [OF blank_call(4) [OF en] plain first])
qed

end
