(* ===== verification/File_Player.thy ===== *)
theory File_Player
  imports Ivf_File Live_Session
begin

text \<open>
  Players of files: \<open>FilePlayer\<close> (src/src/decoder/player.cc), a decoder that reads its frames from an IVF
  file, and \<open>IVFReader\<close> (src/src/input/ivf_reader.cc), the input of the encoder's tools that is one.
\<close>

section \<open>The player\<close>

record file_player =
  fp_file :: ivf
  fp_frame_no :: u32
  fp_machine :: machine

definition ivf_VP80 :: bytes where "ivf_VP80 = [0x56, 0x50, 0x38, 0x30]"

text \<open>The player starts at the first key frame.\<close>

function first_key_frame :: "ivf \<Rightarrow> decoder \<Rightarrow> u32 \<Rightarrow> u32 result" where
  "first_key_frame iv dc k =
     (if k < iv_frame_count iv then
        bind_result (ivf_frame iv k) (\<lambda>c.
        bind_result (decompress_frame c dc) (\<lambda>uc.
        if uc_key_frame uc then Inr k else first_key_frame iv dc (k + 1)))
      else Inr k)"
  by pat_completeness auto

lemma unat_succ: "k < (n :: u32) \<Longrightarrow> unat (k + 1) = unat k + 1"
  using unat_lt2p [of n] by (simp add: word_less_nat_alt unat_word_ariths)

termination first_key_frame
  by (relation "measure (\<lambda>(iv, dc, k). unat (iv_frame_count iv) - unat k)")
    (auto simp: unat_succ word_less_nat_alt)

definition new_file_player :: "bool \<Rightarrow> ivf \<Rightarrow> cached_raster list \<Rightarrow> cached_raster list \<times> file_player result" where
  "new_file_player allow_resize iv unused =
     (case new_decoder allow_resize (iv_width iv) (iv_height iv) unused of
        (unused, r) \<Rightarrow>
          (unused, bind_result r (\<lambda>dc.
             bind_result (check (iv_fourcc iv = ivf_VP80) Unsupported) (\<lambda>_.
             bind_result (first_key_frame iv dc 0) (\<lambda>k.
             Inr \<lparr>fp_file = iv, fp_frame_no = k, fp_machine = (unused, dc)\<rparr>)))))"

text \<open>With a stored decoder the file is the rest of a video, which its header must say.\<close>

definition restored_file_player ::
  "hashing \<Rightarrow> ivf \<Rightarrow> machine \<Rightarrow> file_player result" where
  "restored_file_player hs iv m =
     (let st = dc_state (snd m) in
      bind_result (check (iv_fourcc iv = ivf_VP80) Unsupported) (\<lambda>_.
      bind_result (check (iv_width iv = ds_width st \<and> iv_height iv = ds_height st) Unsupported) (\<lambda>_.
      bind_result (check (minihash_match hs (iv_expected_decoder_minihash iv) (snd m)) Invalid) (\<lambda>_.
      Inr \<lparr>fp_file = iv, fp_frame_no = 0, fp_machine = m\<rparr>))))"

definition fp_eof :: "file_player \<Rightarrow> bool" where
  "fp_eof fp \<longleftrightarrow> fp_frame_no fp = iv_frame_count (fp_file fp)"

text \<open>The number of the frame is counted up before the frame is fetched.\<close>

function advance :: "bool \<Rightarrow> file_player \<Rightarrow> file_player \<times> planes result" where
  "advance allow_resize fp =
     (if fp_eof fp then (fp, Inl Unsupported)
      else
        (let k = fp_frame_no fp; fp = fp\<lparr>fp_frame_no := k + 1\<rparr> in
         keeping fp (ivf_frame (fp_file fp) k) (\<lambda>c.
         case parse_and_decode_frame allow_resize c (fp_machine fp) of (m, r) \<Rightarrow>
         let fp = fp\<lparr>fp_machine := m\<rparr> in
         keeping fp r (\<lambda>raster.
         case raster of Some s \<Rightarrow> (fp, Inr s) | None \<Rightarrow> advance allow_resize fp))))"
  by pat_completeness auto

lemma word_distance: "k \<noteq> (n :: u32) \<Longrightarrow> unat (n - (k + 1)) < unat (n - k)"
  using measure_unat [of "n - k"] by (simp add: diff_diff_eq)

termination advance
  by (relation "measure (\<lambda>(_, fp). unat (iv_frame_count (fp_file fp) - fp_frame_no fp))")
    (auto simp: fp_eof_def word_distance)

declare advance.simps [simp del] first_key_frame.simps [simp del]

definition cur_frame_no :: "file_player \<Rightarrow> u32" where
  "cur_frame_no fp = fp_frame_no fp - 1"

definition original_size :: "file_player \<Rightarrow> u64 result" where
  "original_size fp = bind_result (ivf_frame (fp_file fp) (cur_frame_no fp)) (\<lambda>c. Inr (ck_size c))"

definition get_next_frame :: "bool \<Rightarrow> file_player \<Rightarrow> file_player \<times> planes option result" where
  "get_next_frame allow_resize fp =
     (if fp_eof fp then (fp, Inr None)
      else (case advance allow_resize fp of (fp, r) \<Rightarrow> (fp, bind_result r (\<lambda>s. Inr (Some s)))))"


section \<open>Playing a file\<close>

text \<open>The file holds the chunks \<open>cs\<close> from the frame on that the player is at.\<close>

definition holds :: "file_player \<Rightarrow> chunk list \<Rightarrow> bool" where
  "holds fp cs \<longleftrightarrow> unat (fp_frame_no fp) + length cs = unat (iv_frame_count (fp_file fp)) \<and>
     (\<forall>k<length cs. ivf_frame (fp_file fp) (fp_frame_no fp + word_of_nat k) = Inr (cs ! k))"

definition decode_chunks :: "bool \<Rightarrow> chunk list \<Rightarrow> machine \<Rightarrow> machine \<times> (bool \<times> planes) list result" where
  "decode_chunks allow_resize = in_turn (get_frame_output allow_resize)"

lemma holds_Nil: "holds fp [] \<longleftrightarrow> fp_eof fp"
  by (auto simp: holds_def fp_eof_def word_unat_eq_iff)

lemma holds_Cons:
  assumes "holds fp (c # cs)"
  shows "\<not> fp_eof fp" "ivf_frame (fp_file fp) (fp_frame_no fp) = Inr c"
    "holds (fp\<lparr>fp_frame_no := fp_frame_no fp + 1, fp_machine := m\<rparr>) cs"
proof -
  have frames: "\<forall>k<Suc (length cs). ivf_frame (fp_file fp) (fp_frame_no fp + word_of_nat k) = Inr ((c # cs) ! k)"
    and count: "unat (fp_frame_no fp) + Suc (length cs) = unat (iv_frame_count (fp_file fp))"
    using assms by (simp_all add: holds_def)
  then show "\<not> fp_eof fp" by (auto simp: fp_eof_def)
  show "ivf_frame (fp_file fp) (fp_frame_no fp) = Inr c" using frames [rule_format, of 0] by simp
  have "fp_frame_no fp < iv_frame_count (fp_file fp)" using count by (simp add: word_less_nat_alt)
  from unat_succ [OF this] show "holds (fp\<lparr>fp_frame_no := fp_frame_no fp + 1, fp_machine := m\<rparr>) cs"
    using count frames by (auto simp: holds_def algebra_simps)
qed

lemma in_turn_Cons:
  "in_turn f (x # xs) m = (m', Inr ys) \<longleftrightarrow>
    (\<exists>m1 y ys'. f x m = (m1, Inr y) \<and> in_turn f xs m1 = (m', Inr ys') \<and> ys = y # ys')"
  by (cases "f x m"; cases "snd (f x m)"; cases "in_turn f xs (fst (f x m))"; cases "snd (in_turn f xs (fst (f x m)))") auto

text \<open>Hidden frames are decoded on the way to the next one that is shown.\<close>

lemma advance_to_shown:
  assumes "holds fp cs" and "decode_chunks allow_resize cs (fp_machine fp) = (m, Inr out)"
  shows "case dropWhile (\<lambda>x. \<not> fst x) out of
      [] \<Rightarrow> \<exists>fp'. advance allow_resize fp = (fp', Inl Unsupported) \<and> fp_eof fp' \<and> fp_machine fp' = m
    | (_, s) # out' \<Rightarrow> \<exists>fp' cs'. advance allow_resize fp = (fp', Inr s) \<and> holds fp' cs' \<and>
        decode_chunks allow_resize cs' (fp_machine fp') = (m, Inr out')"
  using assms
proof (induction cs arbitrary: fp out)
  case Nil
  then show ?case by (auto simp: holds_Nil decode_chunks_def advance.simps [of allow_resize fp])
next
  case (Cons c cs)
  obtain m1 shown s out' where step: "get_frame_output allow_resize c (fp_machine fp) = (m1, Inr (shown, s))"
    and rest: "decode_chunks allow_resize cs m1 = (m, Inr out')" "out = (shown, s) # out'"
    using Cons.prems(2) unfolding decode_chunks_def in_turn_Cons by auto
  let ?fp = "fp\<lparr>fp_frame_no := fp_frame_no fp + 1, fp_machine := m1\<rparr>"
  have held: "holds ?fp cs" by (rule holds_Cons(3) [OF Cons.prems(1)])
  have run: "advance allow_resize fp = (if shown then (?fp, Inr s) else advance allow_resize ?fp)"
    using holds_Cons(1,2) [OF Cons.prems(1)] step
    by (subst advance.simps) (simp add: Let_def parse_and_decode_frame_def)
  show ?case
  proof (cases shown)
    case True
    then show ?thesis using rest held run by auto
  next
    case False
    have same: "advance allow_resize fp = advance allow_resize ?fp" "dropWhile (\<lambda>x. \<not> fst x) out = dropWhile (\<lambda>x. \<not> fst x) out'"
      using False run rest(2) by simp_all
    have "decode_chunks allow_resize cs (fp_machine ?fp) = (m, Inr out')" using rest(1) by simp
    then show ?thesis unfolding same by (rule Cons.IH [OF held])
  qed
qed

lemma plays:
  assumes "holds fp cs" and "decode_chunks allow_resize cs (fp_machine fp) = (m, Inr out)"
  shows "\<exists>fp'. in_turn (\<lambda>_. advance allow_resize) (filter fst out) fp = (fp', Inr (map snd (filter fst out))) \<and>
    (if out = [] \<or> fst (last out) then fp_eof fp' \<and> fp_machine fp' = m
     else \<not> fp_eof fp' \<and> (\<exists>fp''. advance allow_resize fp' = (fp'', Inl Unsupported) \<and> fp_eof fp'' \<and> fp_machine fp'' = m))"
  using assms
proof (induction "length out" arbitrary: fp cs out rule: less_induct)
  case less
  show ?case
  proof (cases "dropWhile (\<lambda>x. \<not> fst x) out")
    case Nil
    then have hidden: "\<forall>x\<in>set out. \<not> fst x" by simp
    have eof: "fp_eof fp \<and> fp_machine fp = m" if "out = []"
      using that less.prems by (cases cs) (auto simp: decode_chunks_def keeping_returns holds_Nil split: prod.splits)
    have more: "\<not> fst (last out)" "\<not> fp_eof fp" if "out \<noteq> []"
      using hidden that less.prems holds_Cons(1) [of fp] by (simp, cases cs) (auto simp: decode_chunks_def)
    show ?thesis
      using advance_to_shown [OF less.prems] Nil hidden eof more by (cases "out = []") auto
  next
    case (Cons x out')
    then obtain s where x: "x = (True, s)" by (metis (full_types) dropWhile_eq_Cons_conv prod.collapse)
    have out: "out = takeWhile (\<lambda>x. \<not> fst x) out @ (True, s) # out'"
      using Cons x by (metis takeWhile_dropWhile_id)
    have shown: "filter fst out = (True, s) # filter fst out'"
      by (subst out) (auto simp: filter_empty_conv dest: set_takeWhileD)
    have last_out: "(out = [] \<or> fst (last out)) = (out' = [] \<or> fst (last out'))"
      by (subst (1 2) out) simp
    obtain fp1 cs1 where one: "advance allow_resize fp = (fp1, Inr s)" "holds fp1 cs1"
      "decode_chunks allow_resize cs1 (fp_machine fp1) = (m, Inr out')"
      using advance_to_shown [OF less.prems] Cons x by auto
    have "length out' < length out" by (subst out) simp
    from less.hyps [OF this one(2,3)] show ?thesis
      unfolding last_out shown using one(1) by auto
  qed
qed


section \<open>Properties\<close>

text \<open>A player of a file shows what a decoder of its frames shows.  If the frames from the player's
  position to the end of its file decode one after the other, calling \<open>advance\<close> as often as there are shown
  frames among them returns these in order, whatever hidden frames lie between them.  Afterwards the player is at
  the end of the file in the state that decoding every frame leads to; but when the last frame is hidden it is not
  there yet, and the next call, which the tools make because \<open>eof\<close> is false, throws.\<close>

theorem file_player_shows:
  assumes "unat (fp_frame_no fp) + length cs = unat (iv_frame_count (fp_file fp))"
    and "map (\<lambda>k. ivf_frame (fp_file fp) (fp_frame_no fp + word_of_nat k)) [0..<length cs] = map Inr cs"
    and "decode_chunks allow_resize cs (fp_machine fp) = (m, Inr out)"
  shows "\<exists>fp'. in_turn (\<lambda>_. advance allow_resize) (filter fst out) fp = (fp', Inr (map snd (filter fst out))) \<and>
    (if out = [] \<or> fst (last out) then fp_eof fp' \<and> fp_machine fp' = m
     else \<not> fp_eof fp' \<and> (\<exists>fp''. advance allow_resize fp' = (fp'', Inl Unsupported) \<and> fp_eof fp'' \<and> fp_machine fp'' = m))"
proof -
  have "ivf_frame (fp_file fp) (fp_frame_no fp + word_of_nat k) = Inr (cs ! k)" if "k < length cs" for k
    using arg_cong [OF assms(2), of "\<lambda>xs. xs ! k"] that by simp
  then have "holds fp cs" using assms(1) by (simp add: holds_def)
  from plays [OF this assms(3)] show ?thesis .
qed

end
