(* ===== verification/Spec2Isabelle.thy ===== *)
theory Spec2Isabelle
  imports Byte_Chunk Mode_Data Frame_Header Rate_Monax File_Player
begin

text \<open>
  A verification development for Salsify (https://github.com/skywalker1996/salsify-monax), a real-time
  video system in C++ that joins a VP8 codec in functional style, whose encoder and decoder are values that can
  be kept, compared by hash and gone back to, with a transport protocol that chooses the size of each frame by
  what the network can take.  This fork adds Monax, a congestion controller that learns online.  All paths below
  are relative to src/src/ of the repository.

  \<^bold>\<open>The program.\<close>  The sender (salsify/salsify-sender.cc) takes a picture from the camera, encodes it from the
  state it believes the receiver to be in (encoder/), cuts the frame into packets (net/packet.cc) and hands them to
  a pacer (net/pacer.hh), whose rate comes from the acknowledgements or from Monax (net/monax.cc).  The receiver
  (salsify/salsify-receiver.cc) reassembles frames, decodes them (decoder/) and acknowledges each packet with
  the hashes of the states it can go back to.  A frame is a tag, a first partition with the header and the
  prediction modes, and further partitions with the coefficients, all coded by a boolean entropy coder
  (encoder/bool_encoder.hh, decoder/bool_decoder.hh, encoder/serializer.cc).  Decoding predicts each
  macroblock from its neighbours or from a reference, adds the residue and filters the edges.

  \<^bold>\<open>Theories, from the bottom up.\<close>

  \<^item> \<open>Prelude\<close>: machine integers as words, failures as values (\<open>error\<close>, \<open>result\<close>), checked indexing, byte strings
    as numbers.  \<open>Byte_Chunk\<close>: \<open>Chunk\<close> (util/chunk.hh) with its bounds checks and their wrap-around.
  \<^item> \<open>Bool_Encoder\<close>, \<open>Bool_Decoder\<close>: the entropy coder with its 32-bit registers, refined to an interval
    and to a number; every sequence of decisions is read back.  \<open>Bool_Coder\<close>: the calculus \<open>codes\<close> of readers and
    writers and the locale \<open>bit_codec\<close> of elements that survive the coder, which the next theories interpret:
    \<open>Tree_Code\<close> (decoder/tree.cc, encoder/encode_tree.cc), \<open>Header_Elements\<close> and \<open>Frame_Header\<close>
    (decoder/vp8_header_structures.hh, frame_header.hh), \<open>Mode_Data\<close> and \<open>Prob_Data\<close> (decoder/modemv_data.cc,
    vp8_prob_data.cc).
  \<^item> \<open>Motion_Vectors\<close>, \<open>Macroblock_Modes\<close>, \<open>Macroblock_Coding\<close>, \<open>Tokens\<close> (decoder/macroblock.cc, scorer.hh, tokens.cc):
    what is coded for a macroblock and that it is read back.  \<open>Frame_Modes\<close>, \<open>Frame_Tokens\<close>, \<open>Frame_Chunk\<close>,
    \<open>Frame_Codec\<close> (decoder/frame.cc, uncompressed_chunk.cc, decoder_state.hh, encoder/serializer.cc): the same for
    partitions and whole frames, and what a frame that is refused leaves behind.
  \<^item> \<open>Decoder_State\<close> (decoder/decoder.cc, probability_tables.cc): what a decoder carries from frame to frame and how a
    header changes it; \<open>State_Store\<close> (decoder/enc_state_serializer.hh): storing and restoring it.
  \<^item> \<open>Planes\<close> (util/2d.hh, decoder/safe_raster.cc), \<open>Transform\<close> (decoder/transform.cc, dct.cc, quantization.cc),
    \<open>Intra_Prediction\<close>, \<open>Inter_Prediction\<close> (decoder/prediction.cc), \<open>Loop_Filter\<close> (decoder/loopfilter.cc),
    \<open>Reconstruction\<close> (decoder/macroblock.cc): from modes and coefficients to pixels.  \<open>Raster_Pool\<close>
    (decoder/raster_handle.cc): rasters that are shared and recycled.  \<open>Frame_Decoding\<close> (decoder/decoder.cc): the
    decoder from bytes to a raster.
  \<^item> \<open>Encoder_State\<close> (encoder/encoder.cc, encode_intra.cc, encode_inter.cc, safe_references.cc): what the
    encoder carries from frame to frame and what writing a frame does to it.  \<open>Quantizer_Search\<close>: how it finds the
    quantizer for a size or a quality.
  \<^item> \<open>Net_Packet\<close> (net/packet.cc), \<open>Net_Pacer\<close> with the locale \<open>fifo\<close> (net/pacer.hh), \<open>Sender\<close>, \<open>Receiver\<close>
    (salsify/): the transport, with the codec as a parameter.  \<open>Rate_Monax\<close> (net/monax.cc): the congestion
    controller; its period is the input \<open>si_monax_period\<close> of \<open>Sender\<close>.
  \<^item> \<open>Session\<close> joins sender, network and receiver and states, in the locale \<open>stateful_codec\<close>, what they rely on of a
    codec; \<open>Live_Session\<close> interprets it on the VP8 encoder and the receiver's player (decoder/player.cc).
    \<open>Ivf_File\<close> (util/ivf.cc, ivf_writer.cc) and \<open>File_Player\<close>: videos in files.

  \<^bold>\<open>How the code is modelled.\<close>  A class is a record, its methods are functions of the record, and a method that
  throws yields \<open>Inl\<close> with the kind of exception; where the object survives the exception in a changed state, the
  function returns the state beside the result (\<open>keeping\<close>).  A failed \<open>assert\<close> and an execution without a meaning in
  C++ (reading outside an object, using a value that was never written) are errors of their own, so that a theorem
  that a function yields \<open>Inr\<close> excludes them.  Integers are words of their width where they can wrap, and \<open>int\<close> or
  \<open>nat\<close> where a comment says why they cannot.  Where SIMD code has a portable version beside it, the portable
  version is modelled.  Loops are structural or have a termination proof; the four loops that need not end by
  themselves (\<open>tree_walk\<close> and \<open>path_up\<close> on arbitrary trees, the normalisation of the decoder, the cutting of a frame into
  fragments with its 16-bit count) are \<open>partial_function\<close>s, and theorems state when they return.  There is no fuel.

  \<^bold>\<open>Parameters.\<close>  The clock, the datagrams' delays and the camera are arguments of the handlers.  The hash of a
  state takes a record \<open>hashing\<close>: how boost combines two hashes, and what it finds in the range that decoder.cc forms
  between two arrays, which the standard leaves undefined; sender and receiver are assumed to share both.  The
  sender's theorems hold for every codec and the receiver's for every decoder; \<open>Live_Session\<close> puts the codec in.
  Monax is a function of the arithmetic of \<open>double\<close>; where conversions to \<open>int\<close> matter, its theorems assume \<open>ieee\<close>, the
  part of IEEE 754 and of the language's conversions that they need.  What the
  encoder decides about a picture is an argument of \<open>Encoder_State\<close>: its theorems hold for every frame that it could
  write.

  \<^bold>\<open>What the theorems show.\<close>  Composition: a call stays in step (C1), the decoder follows the encoder (C2), decoding
  never leaves its data, for any bytes and any well-formed decoder, with or without error concealment (C3), and
  does not depend on what the pool's rasters hold (C6).  Round trips: bits,
  headers, motion vectors, tokens, frames, packets, stored states and files.  Equivalences of the optimised with the
  plain version: inter prediction by pointers, the linking of second-order blocks.  Confinement: intra prediction
  reads only what is decoded, the loop filter writes only what it may.  Invariants of pool, receiver, sender and
  Monax.  Classification of errors: which inputs are refused and in which state that leaves the program, when the
  handlers of the sender and the updates of Monax fail, what error concealment changes (nothing); among these the
  behaviours that PROJECT.json lists as findings.

  \<^bold>\<open>Not modelled.\<close>  Sockets, polling, files, memory maps and processes (net/, util/: calls of the operating
  system); the display and the cameras (display/, input/: OpenGL, V4L2, JPEG); the tools (frontend/, tests/), which
  only call the library; SSIM and the averages of delays, which are sums in floating point; assembly and SIMD
  versions; the search for prediction modes and motion vectors in the encoder (the costs of which come from pixels
  by heuristics that no other part relies on: any outcome is written and decoded alike); the vendored libraries
  uWebSockets, jsoncpp, jsonxx and the generated protocol buffers.
\<close>

end
